(* ===== verification/Prelude.thy ===== *)
theory Prelude
  imports Main "HOL-Library.Sublist" "HOL-Library.Code_Target_Nat" "HOL-Library.Code_Target_Int"
begin

section \<open>JavaScript strings and the list lemmas the components share\<close>

text \<open>
  A JavaScript string is a sequence of UTF-16 code units and every index, length and slice of
  the modelled code counts code units. Strings are therefore lists of natural numbers (one per
  code unit), and a literal of the source is written \<open>js ''...''\<close>. Functions that never look
  inside a character are polymorphic in the element type.

  The theory holds the string operations of the language that the modelled code uses
  (\<open>split\<close>, \<open>join\<close>, \<open>slice\<close>, \<open>startsWith\<close>, \<open>lastIndexOf\<close>, \<open>trim\<close>, decimal
  conversion) with the lemmas that relate them, and the generic facts on lists used by more than
  one component.
\<close>

named_theorems js_eval \<open>equations that evaluate string literals and closed string operations\<close>

type_synonym jstr = "nat list"

definition js :: "string \<Rightarrow> jstr" where
  "js s = map of_char s"

lemmas js_def [js_eval]

subsection \<open>Prefixes, suffixes and slices\<close>

definition starts_with :: "'a list \<Rightarrow> 'a list \<Rightarrow> bool" where
  "starts_with s p \<longleftrightarrow> take (length p) s = p"

definition ends_with :: "'a list \<Rightarrow> 'a list \<Rightarrow> bool" where
  "ends_with s p \<longleftrightarrow> length p \<le> length s \<and> drop (length s - length p) s = p"

definition slice :: "nat \<Rightarrow> nat \<Rightarrow> 'a list \<Rightarrow> 'a list" where
  "slice i j s = take (j - i) (drop i s)"

lemmas starts_with_def [js_eval] ends_with_def [js_eval] slice_def [js_eval]

lemma starts_with_iff: "starts_with s p \<longleftrightarrow> (\<exists>r. s = p @ r)"
  unfolding starts_with_def by (metis append_eq_conv_conj append_take_drop_id)

lemma starts_withE:
  assumes "starts_with s p" obtains r where "s = p @ r"
  using assms starts_with_iff by blast

lemma starts_with_append [simp]: "starts_with (p @ r) p"
  by (simp add: starts_with_def)

lemma ends_with_iff: "ends_with s p \<longleftrightarrow> (\<exists>r. s = r @ p)"
  unfolding ends_with_def
  by (metis append_take_drop_id append_eq_conv_conj length_append diff_add_inverse2 le_add2)

lemma slice_append3: "slice (length u) (length u + length v) (u @ v @ w) = v"
  by (simp add: slice_def)

lemma length_slice [simp]: "length (slice i j s) = min (j - i) (length s - i)"
  by (simp add: slice_def min.commute)

subsection \<open>Splitting and joining\<close>

text \<open>\<open>s.split(c)\<close> for a one-character separator, and \<open>xs.join(sep)\<close>.\<close>

fun split_on :: "'a \<Rightarrow> 'a list \<Rightarrow> 'a list list" where
  "split_on c [] = [[]]"
| "split_on c (x # xs) =
     (if x = c then [] # split_on c xs
      else (case split_on c xs of [] \<Rightarrow> [[x]] | w # ws \<Rightarrow> (x # w) # ws))"

fun join :: "'a list \<Rightarrow> 'a list list \<Rightarrow> 'a list" where
  "join sep [] = []"
| "join sep [x] = x"
| "join sep (x # y # zs) = x @ sep @ join sep (y # zs)"

lemma split_on_neq_Nil [simp]: "split_on c s \<noteq> []"
  by (cases s) (auto split: list.splits)

lemma join_Cons: "zs \<noteq> [] \<Longrightarrow> join sep (x # zs) = x @ sep @ join sep zs"
  by (cases zs) auto

lemma join_snoc: "ws \<noteq> [] \<Longrightarrow> join sep (ws @ [w]) = join sep ws @ sep @ w"
  by (induction sep ws rule: join.induct) (auto simp: join_Cons)

lemma join_split_on [simp]: "join [c] (split_on c s) = s"
proof (induction s)
  case (Cons x xs)
  obtain w ws where w: "split_on c xs = w # ws"
    using split_on_neq_Nil by (metis list.exhaust)
  have "join [c] ((x # w) # ws) = x # join [c] (w # ws)"
    by (cases ws) auto
  with Cons w show ?case by (auto simp: join_Cons)
qed simp

lemma split_on_part: "w \<in> set (split_on c s) \<Longrightarrow> c \<notin> set w"
proof (induction s arbitrary: w)
  case (Cons x xs)
  obtain v vs where "split_on c xs = v # vs"
    using split_on_neq_Nil by (metis list.exhaust)
  with Cons show ?case by (auto split: if_splits)
qed simp

lemma split_on_parts: "\<forall>w \<in> set (split_on c s). c \<notin> set w"
  using split_on_part by fast

lemma split_on_part_sub: "w \<in> set (split_on c s) \<Longrightarrow> set w \<subseteq> set s"
proof (induction s arbitrary: w)
  case (Cons x xs)
  obtain v vs where "split_on c xs = v # vs"
    using split_on_neq_Nil by (metis list.exhaust)
  with Cons show ?case by (fastforce split: if_splits)
qed simp

lemma split_on_free: "c \<notin> set w \<Longrightarrow> split_on c w = [w]"
  by (induction w) auto

lemma split_on_append: "c \<notin> set w \<Longrightarrow> split_on c (w @ c # s) = w # split_on c s"
  by (induction w) auto

lemma split_on_join:
  "ws \<noteq> [] \<Longrightarrow> \<forall>w \<in> set ws. c \<notin> set w \<Longrightarrow> split_on c (join [c] ws) = ws"
  by (induction "[c]" ws rule: join.induct) (auto simp: split_on_free split_on_append)

subsection \<open>Searching\<close>

text \<open>\<open>s.lastIndexOf(c)\<close> and \<open>s.indexOf(c)\<close> for one character, \<open>s.indexOf(t, i)\<close> for a string;
  -1 is \<open>None\<close>.\<close>

fun last_index :: "'a \<Rightarrow> 'a list \<Rightarrow> nat option" where
  "last_index c [] = None"
| "last_index c (x # xs) =
     (case last_index c xs of Some i \<Rightarrow> Some (Suc i) | None \<Rightarrow> if x = c then Some 0 else None)"

fun first_index :: "'a \<Rightarrow> 'a list \<Rightarrow> nat option" where
  "first_index c [] = None"
| "first_index c (x # xs) = (if x = c then Some 0 else map_option Suc (first_index c xs))"

definition occurs_at :: "'a list \<Rightarrow> 'a list \<Rightarrow> nat \<Rightarrow> bool" where
  "occurs_at hay needle i \<longleftrightarrow> take (length needle) (drop i hay) = needle"

definition index_from :: "'a list \<Rightarrow> 'a list \<Rightarrow> nat \<Rightarrow> nat option" where
  "index_from hay needle i = find (occurs_at hay needle) [i ..< Suc (length hay)]"

definition includes_str :: "'a list \<Rightarrow> 'a list \<Rightarrow> bool" where
  "includes_str s t \<longleftrightarrow> index_from s t 0 \<noteq> None"

lemmas occurs_at_def [js_eval] index_from_def [js_eval] includes_str_def [js_eval]

lemma find_SomeD: "find P xs = Some x \<Longrightarrow> P x \<and> x \<in> set xs"
  by (induction xs) (auto split: if_splits)

lemma find_unique: "P x \<Longrightarrow> x \<in> set xs \<Longrightarrow> (\<And>y. P y \<Longrightarrow> y = x) \<Longrightarrow> find P xs = Some x"
  by (metis find_None_iff find_SomeD not_Some_eq)

lemma last_index_None: "last_index c s = None \<longleftrightarrow> c \<notin> set s"
  by (induction s) (auto split: option.splits)

lemma last_index_Some:
  "last_index c s = Some i \<longleftrightarrow> i < length s \<and> s ! i = c \<and> c \<notin> set (drop (Suc i) s)"
proof (induction s arbitrary: i)
  case (Cons x xs)
  show ?case
  proof (cases "last_index c xs")
    case None
    then have "c \<notin> set xs" by (simp add: last_index_None)
    with None show ?thesis by (cases i) (auto dest: nth_mem)
  next
    case (Some k)
    moreover from Some have "c \<in> set xs" by (metis last_index_None option.distinct(1))
    ultimately show ?thesis using Cons.IH [symmetric] by (cases i) simp_all
  qed
qed simp

lemma last_index_split:
  "last_index c s = Some i \<Longrightarrow> s = take i s @ c # drop (Suc i) s \<and> c \<notin> set (drop (Suc i) s)"
  by (metis id_take_nth_drop last_index_Some)

lemma last_index_append [simp]:
  "last_index c (u @ c # v) = Some (length u)" if "c \<notin> set v"
  using that by (simp add: last_index_Some)

lemma first_index_None: "first_index c s = None \<longleftrightarrow> c \<notin> set s"
  by (induction s) auto

lemma first_index_append: "c \<notin> set u \<Longrightarrow> first_index c (u @ c # v) = Some (length u)"
  by (induction u) auto

lemma first_index_split:
  "first_index c s = Some i \<Longrightarrow> s = take i s @ c # drop (Suc i) s \<and> c \<notin> set (take i s) \<and> i < length s"
  by (induction s arbitrary: i) (auto split: if_splits)

text \<open>The last segment of a slash path: \<open>path.slice(path.lastIndexOf("/") + 1)\<close>.\<close>

definition after_last :: "'a \<Rightarrow> 'a list \<Rightarrow> 'a list" where
  "after_last c s = (case last_index c s of None \<Rightarrow> s | Some i \<Rightarrow> drop (Suc i) s)"

definition upto_last :: "'a \<Rightarrow> 'a list \<Rightarrow> 'a list" where
  "upto_last c s = (case last_index c s of None \<Rightarrow> [] | Some i \<Rightarrow> take (Suc i) s)"

lemmas after_last_def [js_eval] upto_last_def [js_eval]

lemma upto_after_last [simp]: "upto_last c s @ after_last c s = s"
  by (simp add: upto_last_def after_last_def split: option.splits)

lemma after_last_free: "c \<notin> set (after_last c s)"
proof (cases "last_index c s")
  case None
  moreover from None have "c \<notin> set s" by (simp add: last_index_None)
  ultimately show ?thesis by (simp add: after_last_def)
next
  case (Some i)
  with last_index_split [OF Some, THEN conjunct2] show ?thesis by (simp add: after_last_def)
qed

lemma after_last_upto: "c \<notin> set b \<Longrightarrow> after_last c (upto_last c s @ b) = b"
proof (cases "last_index c s")
  case None
  moreover assume "c \<notin> set b"
  moreover from this have "last_index c b = None" by (simp add: last_index_None)
  ultimately show ?thesis by (simp add: upto_last_def after_last_def)
next
  case (Some i)
  moreover assume "c \<notin> set b"
  moreover from Some have "i < length s" "s ! i = c" by (simp_all add: last_index_Some)
  ultimately show ?thesis
    by (simp add: upto_last_def after_last_def take_Suc_conv_app_nth)
qed

text \<open>The order \<open><\<close> on strings: by code units, a proper prefix first.\<close>

fun str_less :: "jstr \<Rightarrow> jstr \<Rightarrow> bool" where
  "str_less [] [] = False"
| "str_less [] (y # ys) = True"
| "str_less (x # xs) [] = False"
| "str_less (x # xs) (y # ys) = (x < y \<or> x = y \<and> str_less xs ys)"

lemma str_less_irrefl [simp]: "\<not> str_less s s"
  by (induction s) auto

lemma str_less_trans: "str_less a b \<Longrightarrow> str_less b c \<Longrightarrow> str_less a c"
proof (induction a b arbitrary: c rule: str_less.induct)
  case (2 y ys) then show ?case by (cases c) auto
next
  case (4 x xs y ys) then show ?case by (cases c) auto
qed auto

lemma str_less_total: "str_less a b \<or> a = b \<or> str_less b a"
  by (induction a b rule: str_less.induct) auto

lemma str_less_Nil [simp]: "\<not> str_less s []" "str_less [] s \<longleftrightarrow> s \<noteq> []"
  by (cases s; simp)+

subsection \<open>White space, truthiness and numbers\<close>

text \<open>The class \<open>\s\<close> of a JavaScript regular expression, which is also what \<open>trim\<close> strips.\<close>

definition is_ws :: "nat \<Rightarrow> bool" where
  "is_ws u \<longleftrightarrow> (9 \<le> u \<and> u \<le> 13) \<or> u = 32 \<or> u = 160 \<or> u = 5760 \<or> (8192 \<le> u \<and> u \<le> 8202)
     \<or> u = 8232 \<or> u = 8233 \<or> u = 8239 \<or> u = 8287 \<or> u = 12288 \<or> u = 65279"

definition trim_start :: "jstr \<Rightarrow> jstr" where
  "trim_start s = dropWhile is_ws s"

definition trim_end :: "jstr \<Rightarrow> jstr" where
  "trim_end s = rev (dropWhile is_ws (rev s))"

definition trim :: "jstr \<Rightarrow> jstr" where
  "trim s = trim_end (trim_start s)"

lemmas is_ws_def [js_eval] trim_start_def [js_eval] trim_end_def [js_eval] trim_def [js_eval]

lemma trim_hd:
  assumes "trim s = s" "s \<noteq> []" shows "\<not> is_ws (hd s)"
proof -
  have "length (trim s) \<le> length (dropWhile is_ws s)"
    using length_dropWhile_le [of is_ws "rev (dropWhile is_ws s)"]
    by (simp add: trim_def trim_end_def trim_start_def)
  with assms have "length s \<le> length (dropWhile is_ws s)" by simp
  with assms(2) show ?thesis
    using length_dropWhile_le [of is_ws "tl s"] by (cases s) auto
qed

text \<open>\<open>s.replace(/c+$/, "")\<close> and its counterpart at the front, for one character.\<close>

definition strip_end :: "'a \<Rightarrow> 'a list \<Rightarrow> 'a list" where
  "strip_end c s = rev (dropWhile (\<lambda>x. x = c) (rev s))"

definition strip_start :: "'a \<Rightarrow> 'a list \<Rightarrow> 'a list" where
  "strip_start c s = dropWhile (\<lambda>x. x = c) s"

lemmas strip_end_def [js_eval] strip_start_def [js_eval]

lemma strip_end_id: "s = [] \<or> last s \<noteq> c \<Longrightarrow> strip_end c s = s"
  by (cases s rule: rev_cases) (auto simp: strip_end_def)

lemma strip_start_id: "s = [] \<or> hd s \<noteq> c \<Longrightarrow> strip_start c s = s"
  by (cases s) (auto simp: strip_start_def)

lemma strip_end_idem [simp]: "strip_end c (strip_end c s) = strip_end c s"
  by (simp add: strip_end_def dropWhile_idem o_def)

lemma strip_end_last: "strip_end c s = [] \<or> last (strip_end c s) \<noteq> c"
proof (cases "dropWhile (\<lambda>x. x = c) (rev s)")
  case (Cons y ys)
  then have "y \<noteq> c" using hd_dropWhile [of "\<lambda>x. x = c" "rev s"] by simp
  with Cons show ?thesis by (simp add: strip_end_def)
qed (simp add: strip_end_def)

text \<open>Falsy strings, and the or-default \<open>x || d\<close> on optional strings.\<close>

definition truthy :: "jstr option \<Rightarrow> bool" where
  "truthy x \<longleftrightarrow> x \<noteq> None \<and> x \<noteq> Some []"

definition str_or :: "jstr option \<Rightarrow> jstr \<Rightarrow> jstr" where
  "str_or x d = (case x of None \<Rightarrow> d | Some s \<Rightarrow> if s = [] then d else s)"

lemmas truthy_def [js_eval] str_or_def [js_eval]

fun nat_str :: "nat \<Rightarrow> jstr" where
  "nat_str n = (if n < 10 then [48 + n] else nat_str (n div 10) @ [48 + n mod 10])"

declare nat_str.simps [simp del]

lemma nat_str_neq_Nil [simp]: "nat_str n \<noteq> []"
  by (subst nat_str.simps) simp

lemma nat_str_small: "n < 10 \<Longrightarrow> nat_str n = [48 + n]"
  by (simp add: nat_str.simps)

definition is_digit :: "nat \<Rightarrow> bool" where
  "is_digit u \<longleftrightarrow> 48 \<le> u \<and> u \<le> 57"

definition digits_val :: "jstr \<Rightarrow> nat" where
  "digits_val s = foldl (\<lambda>v d. 10 * v + (d - 48)) 0 s"

lemmas is_digit_def [js_eval] digits_val_def [js_eval]

lemma digits_val_append: "digits_val (s @ [d]) = 10 * digits_val s + (d - 48)"
  by (simp add: digits_val_def)

lemma digits_val_nat_str [simp]: "digits_val (nat_str n) = n"
proof (induction n rule: nat_str.induct)
  case (1 n)
  show ?case
  proof (cases "n < 10")
    case True then show ?thesis by (simp add: nat_str_small digits_val_def)
  next
    case False
    with 1 show ?thesis by (subst nat_str.simps) (simp add: digits_val_append)
  qed
qed

lemma nat_str_digits: "\<forall>d \<in> set (nat_str n). is_digit d"
proof (induction n rule: nat_str.induct)
  case (1 n)
  show ?case
  proof (cases "n < 10")
    case True then show ?thesis by (simp add: nat_str_small is_digit_def)
  next
    case False
    moreover have "n mod 10 \<le> 9" by (simp add: less_Suc_eq_le [symmetric])
    ultimately show ?thesis using 1
      by (subst nat_str.simps) (auto simp: is_digit_def)
  qed
qed

lemma nat_str_inj: "nat_str m = nat_str n \<Longrightarrow> m = n"
  by (metis digits_val_nat_str)

subsection \<open>Common prefixes\<close>

text \<open>How far two lists agree: the \<open>while (a[p] === b[p]) p++\<close> loops of the code.\<close>

fun prefix_len :: "'a list \<Rightarrow> 'a list \<Rightarrow> nat" where
  "prefix_len (x # xs) (y # ys) = (if x = y then Suc (prefix_len xs ys) else 0)"
| "prefix_len _ _ = 0"

lemma prefix_len_le: "prefix_len a b \<le> length a" "prefix_len a b \<le> length b"
  by (induction a b rule: prefix_len.induct) auto

lemma prefix_len_take: "take (prefix_len a b) a = take (prefix_len a b) b"
  by (induction a b rule: prefix_len.induct) auto

lemma prefix_len_maximal:
  "take n a = take n b \<Longrightarrow> n \<le> length a \<Longrightarrow> n \<le> length b \<Longrightarrow> n \<le> prefix_len a b"
proof (induction a b arbitrary: n rule: prefix_len.induct)
  case (1 x xs y ys) then show ?case by (cases n) auto
qed auto

lemma prefix_len_self [simp]: "prefix_len a a = length a"
  by (induction a) auto

lemma prefix_len_append: "length u \<le> prefix_len (u @ a) (u @ b)"
  by (induction u) auto

subsection \<open>Greatest elements\<close>

lemma foldl_max_in: "foldl max (b::'a::linorder) xs \<in> insert b (set xs) \<and> (\<forall>x \<in> insert b (set xs). x \<le> foldl max b xs)"
proof (induction xs arbitrary: b)
  case (Cons x xs)
  from Cons [of "max b x"] show ?case by (auto simp: max_def split: if_splits)
qed simp

lemma foldl_max_ge: "(m :: 'a :: linorder) \<le> foldl max m xs" "x \<in> set xs \<Longrightarrow> x \<le> foldl max m xs"
  using foldl_max_in [of m xs] by auto

end
