(* ===== verification/TextDiff.thy ===== *)
theory TextDiff
  imports Prelude
begin

section \<open>Line diff and single-range text edit (lib/diff.ts)\<close>

text \<open>
  The line-level diff the history view draws and the one-range edit the open editor applies.
  \<open>lcsDiff\<close> trims the equal ends, builds the table of longest-common-subsequence lengths
  (unless it would pass \<open>CELL_BUDGET\<close> cells) and walks it; \<open>textEdit\<close> is the single
  replacement that turns one text into another. Lines and characters are opaque to both, so the
  model is polymorphic in them.
\<close>

datatype DiffOp = Keep | Plus | Minus

record 'a DiffLine =
  op :: DiffOp
  line :: 'a
  an :: "nat option"
  bn :: "nat option"

definition splitLines :: "jstr \<Rightarrow> jstr list" where
  "splitLines text =
     (if text = [] then []
      else let lines = split_on 10 text in if last lines = [] then butlast lines else lines)"

definition CELL_BUDGET :: nat where
  "CELL_BUDGET = 4000000"

text \<open>The two trimming loops shared by \<open>lcsDiff\<close> and \<open>textEdit\<close>: how far the inputs agree
  at the front, and how far what the front left agrees at the back.\<close>

definition trim_front :: "'a list \<Rightarrow> 'a list \<Rightarrow> nat" where
  "trim_front a b = prefix_len a b"

definition trim_back :: "'a list \<Rightarrow> 'a list \<Rightarrow> nat" where
  "trim_back a b = prefix_len (rev (drop (trim_front a b) a)) (rev (drop (trim_front a b) b))"

subsection \<open>The table\<close>

text \<open>\<open>lcs_row x bm below\<close> is row \<open>i\<close> of the table for \<open>am[i] = x\<close>, from row \<open>i + 1\<close>;
  the rows are built from the last to the first.\<close>

fun lcs_row :: "'a \<Rightarrow> 'a list \<Rightarrow> nat list \<Rightarrow> nat list" where
  "lcs_row x (y # ys) (d # dr # ds) =
     (let r = lcs_row x ys (dr # ds)
      in (if x = y then dr + 1 else max d (hd r)) # r)"
| "lcs_row x _ _ = [0]"

fun lcs_table :: "'a list \<Rightarrow> 'a list \<Rightarrow> nat list list" where
  "lcs_table [] ys = [replicate (length ys + 1) 0]"
| "lcs_table (x # xs) ys = (let t = lcs_table xs ys in lcs_row x ys (hd t) # t)"

subsection \<open>The walk and the diff\<close>

definition del_line :: "nat \<Rightarrow> 'a list \<Rightarrow> nat \<Rightarrow> 'a DiffLine" where
  "del_line p am i = \<lparr>op = Minus, line = am ! i, an = Some (p + i + 1), bn = None\<rparr>"

definition add_line :: "nat \<Rightarrow> 'a list \<Rightarrow> nat \<Rightarrow> 'a DiffLine" where
  "add_line p bm j = \<lparr>op = Plus, line = bm ! j, an = None, bn = Some (p + j + 1)\<rparr>"

definition keep_line :: "'a \<Rightarrow> nat \<Rightarrow> nat \<Rightarrow> 'a DiffLine" where
  "keep_line l i j = \<lparr>op = Keep, line = l, an = Some (i + 1), bn = Some (j + 1)\<rparr>"

function lcs_walk :: "nat \<Rightarrow> 'a list \<Rightarrow> 'a list \<Rightarrow> nat list list \<Rightarrow> nat \<Rightarrow> nat \<Rightarrow> 'a DiffLine list" where
  "lcs_walk p am bm L i j =
     (if i < length am \<and> j < length bm then
        if am ! i = bm ! j then keep_line (am ! i) (p + i) (p + j) # lcs_walk p am bm L (i + 1) (j + 1)
        else if L ! (i + 1) ! j \<ge> L ! i ! (j + 1) then del_line p am i # lcs_walk p am bm L (i + 1) j
        else add_line p bm j # lcs_walk p am bm L i (j + 1)
      else map (del_line p am) [i ..< length am] @ map (add_line p bm) [j ..< length bm])"
  by pat_completeness auto
termination
  by (relation "measure (\<lambda>(p, am, bm, L, i, j). (length am - i) + (length bm - j))") auto

declare lcs_walk.simps [simp del]

definition lcsDiff :: "'a list \<Rightarrow> 'a list \<Rightarrow> 'a DiffLine list" where
  "lcsDiff a b =
     (let p = trim_front a b;
          s = trim_back a b;
          am = slice p (length a - s) a;
          bm = slice p (length b - s) b;
          n = length am; m = length bm
      in map (\<lambda>i. keep_line (a ! i) i i) [0 ..< p]
         @ (if n * m > CELL_BUDGET then map (del_line p am) [0 ..< n] @ map (add_line p bm) [0 ..< m]
            else lcs_walk p am bm (lcs_table am bm) 0 0)
         @ map (\<lambda>k. keep_line (a ! (length a - s + k)) (length a - s + k) (length b - s + k)) [0 ..< s])"

record diff_text =
  lines :: "jstr DiffLine list"
  add_count :: nat
  del_count :: nat

definition diffText :: "jstr \<Rightarrow> jstr \<Rightarrow> diff_text" where
  "diffText prev nxt =
     (let ls = lcsDiff (splitLines prev) (splitLines nxt)
      in \<lparr>lines = ls, add_count = length (filter (\<lambda>l. op l = Plus) ls),
          del_count = length (filter (\<lambda>l. op l = Minus) ls)\<rparr>)"

subsection \<open>The single-range edit\<close>

record 'a text_edit =
  efrom :: nat
  eto :: nat
  einsert :: "'a list"

definition textEdit :: "'a list \<Rightarrow> 'a list \<Rightarrow> 'a text_edit option" where
  "textEdit prev nxt =
     (if prev = nxt then None
      else let p = trim_front prev nxt;
               s = trim_back prev nxt
           in Some \<lparr>efrom = p, eto = length prev - s, einsert = slice p (length nxt - s) nxt\<rparr>)"

text \<open>Applying an edit to the text it was computed for: the splice of the editors.\<close>

definition apply_edit :: "'a text_edit \<Rightarrow> 'a list \<Rightarrow> 'a list" where
  "apply_edit e t = take (efrom e) t @ einsert e @ drop (eto e) t"

subsection \<open>The reference: longest common subsequences\<close>

fun lcs_len :: "'a list \<Rightarrow> 'a list \<Rightarrow> nat" where
  "lcs_len (x # xs) (y # ys) =
     (if x = y then lcs_len xs ys + 1 else max (lcs_len xs (y # ys)) (lcs_len (x # xs) ys))"
| "lcs_len _ _ = 0"

fun tails :: "'a list \<Rightarrow> 'a list list" where
  "tails [] = [[]]"
| "tails (x # xs) = (x # xs) # tails xs"

lemma length_tails [simp]: "length (tails xs) = Suc (length xs)"
  by (induction xs) auto

lemma tails_nth: "i \<le> length xs \<Longrightarrow> tails xs ! i = drop i xs"
  by (induction xs arbitrary: i) (auto simp: nth_Cons split: nat.splits)

lemma tails_Cons_ex: "\<exists>ts. tails ys = ys # ts"
  by (cases ys) auto

lemma lcs_len_Nil [simp]: "lcs_len xs [] = 0" "lcs_len [] ys = 0"
  by (cases xs; simp) (cases ys; simp)

lemma lcs_row_ok: "lcs_row x ys (map (lcs_len xs) (tails ys)) = map (lcs_len (x # xs)) (tails ys)"
proof (induction ys)
  case (Cons y ys)
  obtain ts where "tails ys = ys # ts" using tails_Cons_ex by blast
  with Cons show ?case by simp
qed simp

lemma tails_rep: "map (lcs_len []) (tails ys) = replicate (length ys + 1) 0"
  by (induction ys) auto

lemma lcs_table_ok: "lcs_table xs ys = map (\<lambda>x. map (lcs_len x) (tails ys)) (tails xs)"
proof (induction xs)
  case Nil
  show ?case using tails_rep [of ys] by simp
next
  case (Cons x xs)
  obtain ts where "tails xs = xs # ts" using tails_Cons_ex by blast
  with Cons show ?case by (simp add: Let_def lcs_row_ok)
qed

lemma lcs_table_nth:
  "i \<le> length xs \<Longrightarrow> j \<le> length ys \<Longrightarrow>
     lcs_table xs ys ! i ! j = lcs_len (drop i xs) (drop j ys)"
  by (simp add: lcs_table_ok tails_nth)

lemma lcs_len_upper: "subseq c xs \<Longrightarrow> subseq c ys \<Longrightarrow> length c \<le> lcs_len xs ys"
proof (induction xs ys arbitrary: c rule: lcs_len.induct)
  case (1 x xs y ys)
  show ?case
  proof (cases c)
    case (Cons z cs)
    show ?thesis
    proof (cases "x = y")
      case True
      have "subseq cs xs" "subseq cs ys"
        using "1.prems" Cons by (auto split: if_splits dest: subseq_Cons')
      with "1.IH"(1) [OF True] True Cons show ?thesis by fastforce
    next
      case False
      show ?thesis
      proof (cases "z = x")
        case True
        with "1.prems" Cons False have "subseq c ys" by simp
        with "1.IH"(3) [OF False] "1.prems"(1) False show ?thesis by fastforce
      next
        case zx: False
        with "1.prems" Cons have "subseq c xs" by simp
        with "1.IH"(2) [OF False] "1.prems"(2) False show ?thesis by fastforce
      qed
    qed
  qed simp
qed auto

lemma lcs_len_witness: "\<exists>c. subseq c xs \<and> subseq c ys \<and> length c = lcs_len xs ys"
proof (induction xs ys rule: lcs_len.induct)
  case (1 x xs y ys)
  show ?case
  proof (cases "x = y")
    case True
    then obtain c where "subseq c xs" "subseq c ys" "length c = lcs_len xs ys" using "1.IH"(1) by blast
    with True show ?thesis by (intro exI [of _ "x # c"]) auto
  next
    case False
    obtain c1 where c1: "subseq c1 xs" "subseq c1 (y # ys)" "length c1 = lcs_len xs (y # ys)"
      using "1.IH"(2) [OF False] by blast
    obtain c2 where c2: "subseq c2 (x # xs)" "subseq c2 ys" "length c2 = lcs_len (x # xs) ys"
      using "1.IH"(3) [OF False] by blast
    show ?thesis
    proof (cases "length c1 \<le> length c2")
      case True
      with c2 False c1(3) have "length c2 = lcs_len (x # xs) (y # ys)" by simp
      with c2 show ?thesis by (metis list_emb_Cons)
    next
      case le: False
      with c1 False c2(3) have "length c1 = lcs_len (x # xs) (y # ys)" by simp
      with c1 show ?thesis by (metis list_emb_Cons)
    qed
  qed
qed auto

lemma lcs_len_prefix: "lcs_len (u @ a) (u @ b) = length u + lcs_len a b"
  by (induction u) auto

lemma subseq_suffix_both:
  assumes "subseq c (a @ u)" "subseq c (b @ u)"
  shows "length c \<le> lcs_len a b + length u"
proof -
  obtain c1 c2 where c: "c = c1 @ c2" "subseq c1 a" "subseq c2 u"
    using assms(1) by (rule subseq_appendE)
  obtain d1 d2 where d: "c = d1 @ d2" "subseq d1 b" "subseq d2 u"
    using assms(2) by (rule subseq_appendE)
  show ?thesis
  proof (cases "length c1 \<le> length d1")
    case True
    with c d have "prefix c1 d1" by (metis append_eq_append_conv_if prefix_def take_is_prefix)
    with d have "subseq c1 b" by (meson prefix_imp_subseq subseq_order.order_trans)
    with c have "length c1 \<le> lcs_len a b" by (simp add: lcs_len_upper)
    with c list_emb_length [OF c(3)] show ?thesis by simp
  next
    case False
    with c d have "prefix d1 c1" by (metis append_eq_append_conv_if le_cases prefix_def take_is_prefix)
    with c have "subseq d1 a" by (meson prefix_imp_subseq subseq_order.order_trans)
    with d have "length d1 \<le> lcs_len a b" by (simp add: lcs_len_upper)
    with d list_emb_length [OF d(3)] show ?thesis by simp
  qed
qed

lemma lcs_len_suffix: "lcs_len (a @ u) (b @ u) = lcs_len a b + length u"
proof (rule antisym)
  show "lcs_len (a @ u) (b @ u) \<le> lcs_len a b + length u"
    using lcs_len_witness subseq_suffix_both by metis
  obtain c where "subseq c a" "subseq c b" "length c = lcs_len a b" using lcs_len_witness by blast
  then have "subseq (c @ u) (a @ u)" "subseq (c @ u) (b @ u)" by simp_all
  then show "lcs_len a b + length u \<le> lcs_len (a @ u) (b @ u)"
    using lcs_len_upper \<open>length c = lcs_len a b\<close> by fastforce
qed

subsection \<open>The two sides of a diff\<close>

definition old_side :: "'a DiffLine list \<Rightarrow> 'a DiffLine list" where
  "old_side ls = filter (\<lambda>l. op l \<noteq> Plus) ls"

definition new_side :: "'a DiffLine list \<Rightarrow> 'a DiffLine list" where
  "new_side ls = filter (\<lambda>l. op l \<noteq> Minus) ls"

definition kept :: "'a DiffLine list \<Rightarrow> nat" where
  "kept ls = length (filter (\<lambda>l. op l = Keep) ls)"

lemmas side_defs = old_side_def new_side_def kept_def

lemma line_sel [simp]:
  "op (keep_line l i j) = Keep" "op (del_line p am i) = Minus" "op (add_line p bm j) = Plus"
  "line (keep_line l i j) = l" "line (del_line p am i) = am ! i" "line (add_line p bm j) = bm ! j"
  "an (keep_line l i j) = Some (i + 1)" "an (del_line p am i) = Some (p + i + 1)"
  "bn (keep_line l i j) = Some (j + 1)" "bn (add_line p bm j) = Some (p + j + 1)"
  by (simp_all add: del_line_def add_line_def keep_line_def)

lemma sides_append:
  "old_side (xs @ ys) = old_side xs @ old_side ys"
  "new_side (xs @ ys) = new_side xs @ new_side ys"
  "kept (xs @ ys) = kept xs + kept ys"
  by (simp_all add: old_side_def new_side_def kept_def)

lemma sides_map:
  "old_side (map (del_line p am) ns) = map (del_line p am) ns"
  "old_side (map (add_line p bm) ns) = []"
  "new_side (map (del_line p am) ns) = []"
  "new_side (map (add_line p bm) ns) = map (add_line p bm) ns"
  "kept (map (del_line p am) ns) = 0"
  "kept (map (add_line p bm) ns) = 0"
  by (simp_all add: side_defs filter_map o_def)

lemma walk_old:
  "map (\<lambda>l. (line l, an l)) (old_side (lcs_walk p am bm L i j)) =
     map (\<lambda>k. (am ! k, Some (p + k + 1))) [i ..< length am]"
proof (induction p am bm L i j rule: lcs_walk.induct)
  case (1 p am bm L i j)
  show ?case
  proof (cases "i < length am \<and> j < length bm")
    case True
    then have up: "[i ..< length am] = i # [i + 1 ..< length am]" by (simp add: upt_conv_Cons)
    show ?thesis
      using "1.IH" True unfolding up
      by (subst lcs_walk.simps) (auto simp: side_defs)
  next
    case False
    then show ?thesis by (subst lcs_walk.simps) (auto simp: sides_append sides_map)
  qed
qed

lemma walk_new:
  "map (\<lambda>l. (line l, bn l)) (new_side (lcs_walk p am bm L i j)) =
     map (\<lambda>k. (bm ! k, Some (p + k + 1))) [j ..< length bm]"
proof (induction p am bm L i j rule: lcs_walk.induct)
  case (1 p am bm L i j)
  show ?case
  proof (cases "i < length am \<and> j < length bm")
    case True
    then have up: "[j ..< length bm] = j # [j + 1 ..< length bm]" by (simp add: upt_conv_Cons)
    show ?thesis
      using "1.IH" True unfolding up
      by (subst lcs_walk.simps) (auto simp: side_defs)
  next
    case False
    then show ?thesis by (subst lcs_walk.simps) (auto simp: sides_append sides_map)
  qed
qed

lemma lcs_len_step:
  assumes "i < length am" "j < length bm"
  shows "lcs_len (drop i am) (drop j bm) =
     (if am ! i = bm ! j then lcs_len (drop (i + 1) am) (drop (j + 1) bm) + 1
      else max (lcs_len (drop (i + 1) am) (drop j bm)) (lcs_len (drop i am) (drop (j + 1) bm)))"
proof -
  have "drop i am = am ! i # drop (i + 1) am" "drop j bm = bm ! j # drop (j + 1) bm"
    using assms by (simp_all add: Cons_nth_drop_Suc)
  then show ?thesis by (metis lcs_len.simps(1))
qed

lemma walk_kept:
  "i \<le> length am \<Longrightarrow> j \<le> length bm \<Longrightarrow>
     kept (lcs_walk p am bm (lcs_table am bm) i j) = lcs_len (drop i am) (drop j bm)"
proof (induction p am bm "lcs_table am bm" i j rule: lcs_walk.induct)
  case (1 p am bm i j)
  show ?case
  proof (cases "i < length am \<and> j < length bm")
    case True
    then show ?thesis
      using "1.hyps" lcs_len_step [of i am j bm]
      by (subst lcs_walk.simps) (auto simp: side_defs lcs_table_nth)
  next
    case False
    with "1.prems" have "drop i am = [] \<or> drop j bm = []" by auto
    with False show ?thesis
      by (subst lcs_walk.simps) (auto simp: sides_append sides_map)
  qed
qed

lemma trim_bounds:
  "trim_front a b \<le> length a" "trim_front a b \<le> length b"
  "trim_back a b \<le> length a - trim_front a b" "trim_back a b \<le> length b - trim_front a b"
  using prefix_len_le [of a b]
    prefix_len_le [of "rev (drop (trim_front a b) a)" "rev (drop (trim_front a b) b)"]
  by (simp_all add: trim_front_def trim_back_def)

lemma trim_front_eq: "take (trim_front a b) a = take (trim_front a b) b"
  unfolding trim_front_def by (rule prefix_len_take)

lemma take_rev_drop:
  "p \<le> length x \<Longrightarrow> n \<le> length x - p \<Longrightarrow> take n (rev (drop p x)) = rev (drop (length x - n) x)"
  by (simp add: take_rev)

lemma trim_back_eq:
  "drop (length a - trim_back a b) a = drop (length b - trim_back a b) b"
proof -
  let ?p = "trim_front a b" and ?s = "trim_back a b"
  have "take ?s (rev (drop ?p a)) = take ?s (rev (drop ?p b))"
    unfolding trim_back_def by (rule prefix_len_take)
  then have "rev (drop (length a - ?s) a) = rev (drop (length b - ?s) b)"
    using take_rev_drop trim_bounds [of a b] by metis
  then show ?thesis by simp
qed

text \<open>Both inputs, cut at the trimmed ends.\<close>

lemma trim_split:
  "a = take (trim_front a b) a @ slice (trim_front a b) (length a - trim_back a b) a
        @ drop (length a - trim_back a b) a"
  "b = take (trim_front a b) a @ slice (trim_front a b) (length b - trim_back a b) b
        @ drop (length a - trim_back a b) a"
proof -
  have cut: "x = take p x @ slice p q x @ drop q x" if "p \<le> q" for p q and x :: "'a list"
  proof -
    have "slice p q x @ drop q x = drop p x"
      using that append_take_drop_id [of "q - p" "drop p x"] by (simp add: slice_def)
    then show ?thesis by simp
  qed
  have le: "trim_front a b \<le> length a - trim_back a b" "trim_front a b \<le> length b - trim_back a b"
    using trim_bounds [of a b] by simp_all
  show "a = take (trim_front a b) a @ slice (trim_front a b) (length a - trim_back a b) a
        @ drop (length a - trim_back a b) a"
    by (rule cut [OF le(1)])
  show "b = take (trim_front a b) a @ slice (trim_front a b) (length b - trim_back a b) b
        @ drop (length a - trim_back a b) a"
    unfolding trim_front_eq [of a b] trim_back_eq [of a b] by (rule cut [OF le(2)])
qed

lemma map_upt_shift: "map f [m ..< m + n] = map (\<lambda>k. f (m + k)) [0 ..< n]"
  by (induction n) auto

lemma upt_three: "p \<le> q \<Longrightarrow> q \<le> n \<Longrightarrow> [0 ..< n] = [0 ..< p] @ [p ..< q] @ [q ..< n]"
  using upt_add_eq_append [of 0 p "q - p"] upt_add_eq_append [of 0 q "n - q"] by simp

text \<open>The three stretches of \<open>lcsDiff\<close>.\<close>

lemma sides_keep:
  "old_side (map (\<lambda>i. keep_line (f i) (g i) (h i)) ns) = map (\<lambda>i. keep_line (f i) (g i) (h i)) ns"
  "new_side (map (\<lambda>i. keep_line (f i) (g i) (h i)) ns) = map (\<lambda>i. keep_line (f i) (g i) (h i)) ns"
  "kept (map (\<lambda>i. keep_line (f i) (g i) (h i)) ns) = length ns"
  by (simp_all add: side_defs filter_map o_def)

lemma slice_nth: "q \<le> length x \<Longrightarrow> k < q - p \<Longrightarrow> slice p q x ! k = x ! (p + k)"
  by (simp add: slice_def)

lemma lcsDiff_old_side:
  "map (\<lambda>l. (line l, an l)) (old_side (lcsDiff a b)) = map (\<lambda>k. (a ! k, Some (k + 1))) [0 ..< length a]"
proof -
  let ?p = "trim_front a b" and ?s = "trim_back a b"
  let ?q = "length a - ?s"
  let ?am = "slice ?p ?q a" and ?bm = "slice ?p (length b - ?s) b"
  have le: "?p \<le> ?q" "?q \<le> length a" "length a = ?q + ?s" and len: "length ?am = ?q - ?p"
    using trim_bounds [of a b] by auto
  have mid: "map (\<lambda>k. (?am ! k, Some (?p + k + 1))) [0 ..< length ?am]
      = map (\<lambda>k. (a ! k, Some (k + 1))) [?p ..< ?q]"
    using le len map_upt_shift [of "\<lambda>k. (a ! k, Some (k + 1))" ?p "?q - ?p"]
    by (simp add: slice_nth)
  have rear: "map (\<lambda>k. (a ! (?q + k), Some (?q + k + 1))) [0 ..< ?s]
      = map (\<lambda>k. (a ! k, Some (k + 1))) [?q ..< length a]"
    using le map_upt_shift [of "\<lambda>k. (a ! k, Some (k + 1))" ?q ?s] by simp
  show ?thesis
    unfolding upt_three [OF le(1,2)] map_append mid [symmetric] rear [symmetric]
    by (auto simp: lcsDiff_def Let_def sides_append sides_map sides_keep walk_old o_def)
qed

lemma nth_take_eq: "take n xs = take n ys \<Longrightarrow> i < n \<Longrightarrow> xs ! i = ys ! i"
  by (metis nth_take)

lemma lcsDiff_new_side:
  "map (\<lambda>l. (line l, bn l)) (new_side (lcsDiff a b)) = map (\<lambda>k. (b ! k, Some (k + 1))) [0 ..< length b]"
proof -
  let ?p = "trim_front a b" and ?s = "trim_back a b"
  let ?q = "length b - ?s"
  let ?am = "slice ?p (length a - ?s) a" and ?bm = "slice ?p ?q b"
  have le: "?p \<le> ?q" "?q \<le> length b" "length b = ?q + ?s" and len: "length ?bm = ?q - ?p"
    using trim_bounds [of a b] by auto
  have front: "map (\<lambda>k. (a ! k, Some (k + 1))) [0 ..< ?p] = map (\<lambda>k. (b ! k, Some (k + 1))) [0 ..< ?p]"
    using nth_take_eq [OF trim_front_eq [of a b]] by (intro map_cong) auto
  have mid: "map (\<lambda>k. (?bm ! k, Some (?p + k + 1))) [0 ..< length ?bm]
      = map (\<lambda>k. (b ! k, Some (k + 1))) [?p ..< ?q]"
    using le len map_upt_shift [of "\<lambda>k. (b ! k, Some (k + 1))" ?p "?q - ?p"]
    by (simp add: slice_nth)
  have same: "a ! (length a - ?s + k) = b ! (?q + k)" if "k < ?s" for k
    using arg_cong [OF trim_back_eq [of a b], of "\<lambda>l. l ! k"] that trim_bounds [of a b] by simp
  have rear: "map (\<lambda>k. (a ! (length a - ?s + k), Some (?q + k + 1))) [0 ..< ?s]
      = map (\<lambda>k. (b ! k, Some (k + 1))) [?q ..< length b]"
    using le same map_upt_shift [of "\<lambda>k. (b ! k, Some (k + 1))" ?q ?s] by simp
  show ?thesis
    unfolding upt_three [OF le(1,2)] map_append front [symmetric] mid [symmetric] rear [symmetric]
    by (auto simp: lcsDiff_def Let_def sides_append sides_map sides_keep walk_new o_def)
qed

lemma lcsDiff_kept:
  assumes "(length a - trim_front a b - trim_back a b) * (length b - trim_front a b - trim_back a b)
     \<le> CELL_BUDGET"
  shows "kept (lcsDiff a b) = lcs_len a b"
proof -
  let ?p = "trim_front a b" and ?s = "trim_back a b"
  let ?am = "slice ?p (length a - ?s) a" and ?bm = "slice ?p (length b - ?s) b"
  let ?u = "take ?p a" and ?v = "drop (length a - ?s) a"
  have bnd: "length ?am * length ?bm \<le> CELL_BUDGET"
  proof -
    have "length ?am = length a - ?p - ?s" "length ?bm = length b - ?p - ?s"
      using trim_bounds [of a b] by auto
    with assms show ?thesis by simp
  qed
  have "lcs_len a b = lcs_len (?u @ ?am @ ?v) (?u @ ?bm @ ?v)"
    by (rule arg_cong2 [where f = lcs_len, OF trim_split(1) [where a = a and b = b]
          trim_split(2) [where a = a and b = b]])
  also have "\<dots> = ?p + lcs_len ?am ?bm + ?s"
    using trim_bounds [of a b] by (simp only: lcs_len_prefix lcs_len_suffix) simp
  also have "\<dots> = kept (lcsDiff a b)"
    using bnd walk_kept [of 0 ?am 0 ?bm ?p]
    by (simp add: lcsDiff_def Let_def sides_append sides_keep del: length_slice)
  finally show ?thesis by simp
qed

lemma kept_sides: "length (old_side ls) = kept ls + length (filter (\<lambda>l. op l = Minus) ls)"
  "length (new_side ls) = kept ls + length (filter (\<lambda>l. op l = Plus) ls)"
  unfolding side_defs by (induction ls) (auto, (metis DiffOp.exhaust)+)

subsection \<open>The edit\<close>

lemma textEdit_None: "textEdit a b = None \<longleftrightarrow> a = b"
  by (simp add: textEdit_def Let_def)

lemma textEdit_fields:
  assumes "textEdit a b = Some e"
  shows "efrom e = trim_front a b" "eto e = length a - trim_back a b"
    "einsert e = slice (trim_front a b) (length b - trim_back a b) b"
  using assms by (auto simp: textEdit_def Let_def split: if_splits)

lemma textEdit_range:
  "textEdit a b = Some e \<Longrightarrow> efrom e \<le> eto e \<and> eto e \<le> length a"
  using trim_bounds [of a b] by (auto simp: textEdit_fields)

lemma textEdit_apply: "textEdit a b = Some e \<Longrightarrow> apply_edit e a = b"
  using trim_split(2) [where a = a and b = b] by (simp add: apply_edit_def textEdit_fields)

lemma textEdit_least:
  assumes e: "textEdit a b = Some e"
    and other: "f \<le> t" "t \<le> length a" "take f a @ ins @ drop t a = b"
  shows "eto e - efrom e \<le> t - f"
proof -
  let ?p = "trim_front a b" and ?s = "trim_back a b"
  let ?k = "length a - t"
  let ?n = "min ?k (min (length a - ?p) (length b - ?p))"
  have lb: "length b = f + length ins + ?k" using other by auto
  have "take f a = take f b" using other by auto
  then have f: "f \<le> ?p" using lb other unfolding trim_front_def by (intro prefix_len_maximal) auto
  have tail: "drop (length a - m) a = drop (length b - m) b" if "m \<le> ?k" for m
  proof -
    have "drop (length b - m) b = drop (length b - m - (f + length ins)) (drop t a)"
      using other lb that by (auto simp: drop_append simp flip: other(3))
    then show ?thesis using that lb other by (simp add: algebra_simps)
  qed
  have rv: "take ?n (rev (drop ?p x)) = rev (drop (length x - ?n) x)" if "x = a \<or> x = b" for x
    using that trim_bounds(1,2) [of a b] by (intro take_rev_drop) auto
  have "take ?n (rev (drop ?p a)) = take ?n (rev (drop ?p b))"
    using tail [of ?n] rv by simp
  then have "?n \<le> ?s" unfolding trim_back_def by (intro prefix_len_maximal) auto
  then show ?thesis using f other lb trim_bounds [of a b] e
    by (auto simp: textEdit_fields min_def split: if_splits)
qed

text \<open>One text holds all of another when the edit from one to the other deletes nothing: the test
  \<open>edit && edit.from !== edit.to\<close> of the shared file's lost-race path, negated.\<close>

definition contained :: "'a list \<Rightarrow> 'a list \<Rightarrow> bool" where
  "contained a b \<longleftrightarrow> (case textEdit a b of None \<Rightarrow> True | Some e \<Rightarrow> efrom e = eto e)"

lemma contained_iff: "contained a b \<longleftrightarrow> (\<exists>u v w. a = u @ w \<and> b = u @ v @ w)"
proof
  assume c: "contained a b"
  show "\<exists>u v w. a = u @ w \<and> b = u @ v @ w"
  proof (cases "textEdit a b")
    case None
    then have "a = b" by (simp add: textEdit_None)
    then show ?thesis by (intro exI [of _ a] exI [of _ "[]"]) auto
  next
    case (Some e)
    with c have "efrom e = eto e" by (simp add: contained_def)
    moreover have "b = take (efrom e) a @ einsert e @ drop (eto e) a"
      using textEdit_apply [OF Some] by (simp add: apply_edit_def)
    ultimately show ?thesis
      by (metis append_take_drop_id)
  qed
next
  assume "\<exists>u v w. a = u @ w \<and> b = u @ v @ w"
  then obtain u v w where uvw: "a = u @ w" "b = u @ v @ w" by blast
  show "contained a b"
  proof (cases "textEdit a b")
    case (Some e)
    have "eto e - efrom e \<le> length u - length u"
      by (rule textEdit_least [OF Some, where ins = v]) (auto simp: uvw)
    with textEdit_range [OF Some] Some show ?thesis by (simp add: contained_def)
  qed (simp add: contained_def)
qed

lemma contained_subseq: "contained a b \<Longrightarrow> subseq a b"
  by (auto simp: contained_iff intro: list_emb_append_mono)

lemma contained_refl [simp]: "contained a a"
  by (simp add: contained_def textEdit_None [THEN iffD2])

subsection \<open>The edit as an interface\<close>

text \<open>What the owner of a live document relies on: no edit exactly when nothing differs, and an
  edit applied to the text it was computed from gives the other text.\<close>

locale splice_edit =
  fixes edit :: "'s \<Rightarrow> 's \<Rightarrow> 'e option"
    and app :: "'e \<Rightarrow> 's \<Rightarrow> 's"
  assumes edit_None: "edit a b = None \<longleftrightarrow> a = b"
    and edit_app: "edit a b = Some e \<Longrightarrow> app e a = b"
begin

lemma splice: "(case edit a b of None \<Rightarrow> a | Some e \<Rightarrow> app e a) = b"
  using edit_None [of a b] edit_app by (auto split: option.splits)

lemma edit_self: "edit a a = None"
  by (simp add: edit_None)

lemma edit_changes: "edit a b = Some e \<Longrightarrow> app e a \<noteq> a"
  using edit_None [of a b] edit_app by force

end

interpretation te: splice_edit "textEdit :: 'a list \<Rightarrow> 'a list \<Rightarrow> 'a text_edit option" apply_edit
  by unfold_locales (simp_all add: textEdit_None textEdit_apply)

subsection \<open>Properties\<close>

text \<open>The lines of a diff marked as kept or removed are the old text line by line, each with its
  1-based number, and those marked as kept or added are the new text with its numbers, whatever
  the two inputs are and whether or not the table was within budget.\<close>

theorem lcsDiff_sides:
  "map (\<lambda>l. (line l, an l)) (old_side (lcsDiff a b)) = map (\<lambda>k. (a ! k, Some (k + 1))) [0 ..< length a]
   \<and> map (\<lambda>l. (line l, bn l)) (new_side (lcsDiff a b)) = map (\<lambda>k. (b ! k, Some (k + 1))) [0 ..< length b]"
  by (simp add: lcsDiff_old_side lcsDiff_new_side)

text \<open>C27: Within the cell budget the diff is optimal: no common subsequence of the two inputs is
  longer than the number of lines the diff keeps.\<close>

theorem lcsDiff_optimal:
  assumes "(length a - trim_front a b - trim_back a b) * (length b - trim_front a b - trim_back a b)
     \<le> CELL_BUDGET"
    and "subseq c a" "subseq c b"
  shows "length c \<le> kept (lcsDiff a b)"
  using assms by (simp add: lcsDiff_kept lcs_len_upper)

theorem lcsDiff_optimal_witness:
  "length [2, 4 :: nat] \<le> kept (lcsDiff [1, 2, 3, 4 :: nat] [2, 5, 4, 6])"
  by (rule lcsDiff_optimal) (code_simp, simp_all)

lemma no_changes_keep:
  "filter (\<lambda>l. op l = Minus) ls = [] \<Longrightarrow> filter (\<lambda>l. op l = Plus) ls = [] \<Longrightarrow>
     old_side ls = new_side ls"
  by (simp add: old_side_def new_side_def filter_empty_conv filter_id_conv [THEN iffD2])

lemma lines_of_side:
  "map line (old_side (lcsDiff a b)) = a" "map line (new_side (lcsDiff a b)) = b"
  using arg_cong [OF lcsDiff_old_side [of a b], of "map fst"]
    arg_cong [OF lcsDiff_new_side [of a b], of "map fst"]
  by (simp_all add: o_def map_nth)

lemma self_diff: "filter (\<lambda>l. op l \<noteq> Keep) (lcsDiff a a) = []"
  by (simp add: lcsDiff_def trim_front_def trim_back_def slice_def lcs_walk.simps filter_map o_def)

text \<open>The counts of \<open>diffText\<close> account for the difference of the two line counts, and both
  are zero exactly when the two texts have the same lines.\<close>

theorem diffText_counts:
  "length (splitLines prev) + add_count (diffText prev nxt)
     = length (splitLines nxt) + del_count (diffText prev nxt)
   \<and> (add_count (diffText prev nxt) = 0 \<and> del_count (diffText prev nxt) = 0
        \<longleftrightarrow> splitLines prev = splitLines nxt)"
proof -
  let ?a = "splitLines prev" and ?b = "splitLines nxt"
  let ?d = "lcsDiff ?a ?b"
  have len: "length (old_side ?d) = length ?a" "length (new_side ?d) = length ?b"
    by (metis length_map lines_of_side(1), metis length_map lines_of_side(2))
  have "?a = ?b" if "filter (\<lambda>l. op l = Minus) ?d = []" "filter (\<lambda>l. op l = Plus) ?d = []"
    by (metis lines_of_side no_changes_keep that)
  moreover have "filter (\<lambda>l. op l = Plus) ?d = [] \<and> filter (\<lambda>l. op l = Minus) ?d = []" if "?a = ?b"
    using self_diff [of ?a] that by (auto simp: filter_empty_conv)
  ultimately show ?thesis
    using kept_sides [of ?d] len by (auto simp: diffText_def Let_def)
qed

text \<open>C15: \<open>textEdit\<close> is no edit exactly for equal texts; otherwise its range is a forward range of
  the old text and applying it gives the new one.\<close>

theorem textEdit_correct:
  "case textEdit a b of None \<Rightarrow> a = b
   | Some e \<Rightarrow> a \<noteq> b \<and> efrom e \<le> eto e \<and> eto e \<le> length a \<and> apply_edit e a = b"
  using te.edit_None [of a b] te.edit_app [of a b] textEdit_range [of a b]
  by (cases "textEdit a b") auto

text \<open>The edit deletes as little as any single replacement can: every \<open>take f a @ ins @ drop t a\<close>
  that equals the new text replaces a range at least as wide.\<close>

theorem textEdit_minimal:
  assumes "textEdit a b = Some e" "f \<le> t" "t \<le> length a" "take f a @ ins @ drop t a = b"
  shows "eto e - efrom e \<le> t - f"
  using assms by (rule textEdit_least)

theorem textEdit_minimal_witness: "(2 :: nat) - 1 \<le> 3 - 0"
  using textEdit_minimal [of "[1, 2, 3 :: nat]" "[1, 9, 3]" "\<lparr>efrom = 1, eto = 2, einsert = [9]\<rparr>" 0 3 "[1, 9, 3]"]
  by (simp add: textEdit_def trim_front_def trim_back_def slice_def)

end
