(* ===== verification/JsDate.thy ===== *)
theory JsDate
  imports Prelude
begin

section \<open>Dates of the language: UTC fields of a time value\<close>

text \<open>
  A \<open>Date\<close> is its time value, an integer number of milliseconds since 1970-01-01T00:00:00Z.
  The definitions are those of the language specification (\<open>DayFromYear\<close>, \<open>MakeDay\<close>,
  \<open>MakeTime\<close>, \<open>YearFromTime\<close> and the field getters), for the proleptic Gregorian calendar;
  \<open>civil_fields\<close> is the main lemma: building a time value from in-range fields and reading them
  back is the identity.
\<close>

definition leap :: "int \<Rightarrow> bool" where
  "leap y \<longleftrightarrow> y mod 4 = 0 \<and> (y mod 100 \<noteq> 0 \<or> y mod 400 = 0)"

definition day_from_year :: "int \<Rightarrow> int" where
  "day_from_year y = 365 * (y - 1970) + (y - 1969) div 4 - (y - 1901) div 100 + (y - 1601) div 400"

definition days_in_year :: "int \<Rightarrow> int" where
  "days_in_year y = (if leap y then 366 else 365)"

text \<open>Days of the year before month \<open>m\<close> (0 is January).\<close>

definition cum_days :: "bool \<Rightarrow> int \<Rightarrow> int" where
  "cum_days lp m =
     (if m \<le> 0 then 0 else if m = 1 then 31
      else (if lp then 1 else 0) +
        (if m = 2 then 59 else if m = 3 then 90 else if m = 4 then 120 else if m = 5 then 151
         else if m = 6 then 181 else if m = 7 then 212 else if m = 8 then 243 else if m = 9 then 273
         else if m = 10 then 304 else if m = 11 then 334 else 365))"

definition make_day :: "int \<Rightarrow> int \<Rightarrow> int \<Rightarrow> int" where
  "make_day y m d =
     (let ym = y + m div 12; mn = m mod 12
      in day_from_year ym + cum_days (leap ym) mn + d - 1)"

definition make_time :: "int \<Rightarrow> int \<Rightarrow> int \<Rightarrow> int \<Rightarrow> int" where
  "make_time h mi s ms = h * 3600000 + mi * 60000 + s * 1000 + ms"

definition make_date :: "int \<Rightarrow> int \<Rightarrow> int" where
  "make_date day time = day * 86400000 + time"

text \<open>\<open>Date.UTC(y, m, d, h, mi, s)\<close>: a year from 0 to 99 means 1900 + y.\<close>

definition date_UTC :: "int \<Rightarrow> int \<Rightarrow> int \<Rightarrow> int \<Rightarrow> int \<Rightarrow> int \<Rightarrow> int" where
  "date_UTC y m d h mi s =
     make_date (make_day (if 0 \<le> y \<and> y \<le> 99 then 1900 + y else y) m d) (make_time h mi s 0)"

lemma div_add1:
  fixes x :: int
  assumes "0 < n"
  shows "(x + 1) div n = x div n + (if (x + 1) mod n = 0 then 1 else 0)"
proof -
  have r: "0 \<le> x mod n" "x mod n < n" using assms by simp_all
  have x: "x = n * (x div n) + x mod n" by simp
  show ?thesis
  proof (cases "x mod n = n - 1")
    case True
    then have "x + 1 = n * (x div n) + n" using x by linarith
    then have e: "x + 1 = n * (x div n + 1)" by (simp add: distrib_left)
    show ?thesis unfolding e using assms by simp
  next
    case False
    with r have lt: "x mod n + 1 < n" by simp
    have d: "(x + 1) div n = x div n"
      using r lt x by (intro int_div_pos_eq [of _ _ _ "x mod n + 1"]) simp_all
    have "(x + 1) mod n = x mod n + 1"
      using mult_div_mod_eq [of n "x + 1"] x unfolding d by linarith
    with d r show ?thesis by simp
  qed
qed

lemma shift_mod:
  fixes y :: int
  shows "(y - 1968) mod 4 = y mod 4" "(y - 1900) mod 100 = y mod 100" "(y - 1600) mod 400 = y mod 400"
  using mod_mult_self1 [of y "- 492" 4] mod_mult_self1 [of y "- 19" 100] mod_mult_self1 [of y "- 4" 400]
  by simp_all

lemma leap_sum:
  "(P400 \<Longrightarrow> P100) \<Longrightarrow> (P100 \<Longrightarrow> P4) \<Longrightarrow>
     (if P4 \<and> (\<not> P100 \<or> P400) then 366 else 365)
       = (365 :: int) + (if P4 then 1 else 0) - (if P100 then 1 else 0) + (if P400 then 1 else 0)"
  by (cases P4; cases P100; cases P400) simp_all

lemma day_from_year_step: "day_from_year (y + 1) = day_from_year y + days_in_year y"
proof -
  have 4: "(y - 1968) div 4 = (y - 1969) div 4 + (if y mod 4 = 0 then 1 else 0)"
    using div_add1 [of 4 "y - 1969"] shift_mod(1) [of y] by simp
  have 100: "(y - 1900) div 100 = (y - 1901) div 100 + (if y mod 100 = 0 then 1 else 0)"
    using div_add1 [of 100 "y - 1901"] shift_mod(2) [of y] by simp
  have 400: "(y - 1600) div 400 = (y - 1601) div 400 + (if y mod 400 = 0 then 1 else 0)"
    using div_add1 [of 400 "y - 1601"] shift_mod(3) [of y] by simp
  have d: "y mod 400 = 0 \<Longrightarrow> y mod 100 = 0" "y mod 100 = 0 \<Longrightarrow> y mod 4 = 0"
    using mod_mod_cancel [of 100 400 y] mod_mod_cancel [of 4 100 y] by auto
  have e: "day_from_year (y + 1) = 365 * (y - 1969) + (y - 1968) div 4 - (y - 1900) div 100 + (y - 1600) div 400"
    by (simp add: day_from_year_def)
  have l: "days_in_year y = 365 + (if y mod 4 = 0 then 1 else 0) - (if y mod 100 = 0 then 1 else 0)
      + (if y mod 400 = 0 then 1 else 0)"
    unfolding days_in_year_def leap_def using d by (rule leap_sum)
  have "365 * (y - 1969) + (p + u) - (q + v) + (r + w) = 365 * (y - 1970) + p - q + r + (365 + u - v + w)"
    for p q r u v w :: int by simp
  then show ?thesis unfolding e l day_from_year_def [of y] 4 100 400 .
qed

lemma day_from_year_mono_nat: "day_from_year y + 365 * int n \<le> day_from_year (y + int n)"
proof (induction n)
  case (Suc n)
  have "day_from_year (y + int (Suc n)) = day_from_year (y + int n) + days_in_year (y + int n)"
    using day_from_year_step [of "y + int n"] by (simp add: algebra_simps)
  with Suc show ?case by (simp add: days_in_year_def split: if_splits)
qed simp

lemma day_from_year_mono: "y \<le> z \<Longrightarrow> day_from_year y + 365 * (z - y) \<le> day_from_year z"
  using day_from_year_mono_nat [of y "nat (z - y)"] by simp

text \<open>The year a day number falls in: a walk from a starting guess.\<close>

function year_walk :: "int \<Rightarrow> int \<Rightarrow> int" where
  "year_walk d y =
     (if d < day_from_year y then year_walk d (y - 1)
      else if day_from_year (y + 1) \<le> d then year_walk d (y + 1)
      else y)"
  by pat_completeness auto
termination
proof (relation "measure (\<lambda>(d, y). nat (if d < day_from_year y then day_from_year y - d + 366 else d - day_from_year y))",
    simp_all, goal_cases)
  case (1 d y)
  with day_from_year_step [of "y - 1"] show ?case by (auto simp: days_in_year_def split: if_splits)
next
  case (2 d y)
  with day_from_year_step [of y] show ?case by (auto simp: days_in_year_def split: if_splits)
qed

declare year_walk.simps [simp del]

definition year_from_day :: "int \<Rightarrow> int" where
  "year_from_day d = year_walk d (1970 + d div 365)"

lemma year_walk_bounds: "day_from_year (year_walk d y) \<le> d \<and> d < day_from_year (year_walk d y + 1)"
proof (induction d y rule: year_walk.induct)
  case (1 d y)
  then show ?case by (subst (1 2) year_walk.simps) auto
qed

lemma year_unique:
  assumes "day_from_year y \<le> d" "d < day_from_year (y + 1)"
  shows "year_from_day d = y"
proof -
  let ?w = "year_from_day d"
  have w: "day_from_year ?w \<le> d" "d < day_from_year (?w + 1)"
    using year_walk_bounds by (simp_all add: year_from_day_def)
  have "\<not> ?w < y" using day_from_year_mono [of "?w + 1" y] w assms by auto
  moreover have "\<not> y < ?w" using day_from_year_mono [of "y + 1" ?w] w assms by auto
  ultimately show ?thesis by simp
qed

lemma year_from_day_bounds:
  "day_from_year (year_from_day d) \<le> d" "d < day_from_year (year_from_day d) + days_in_year (year_from_day d)"
  using year_walk_bounds [of d "1970 + d div 365"] day_from_year_step
  by (simp_all add: year_from_day_def)

text \<open>The field getters.\<close>

definition day_of :: "int \<Rightarrow> int" where "day_of t = t div 86400000"
definition ms_of_day :: "int \<Rightarrow> int" where "ms_of_day t = t mod 86400000"

definition utc_year :: "int \<Rightarrow> int" where "utc_year t = year_from_day (day_of t)"

definition day_in_year :: "int \<Rightarrow> int" where
  "day_in_year t = day_of t - day_from_year (utc_year t)"

definition month_of_day :: "bool \<Rightarrow> int \<Rightarrow> int" where
  "month_of_day lp d =
     (if d < 31 then 0 else if d < cum_days lp 2 then 1 else if d < cum_days lp 3 then 2
      else if d < cum_days lp 4 then 3 else if d < cum_days lp 5 then 4 else if d < cum_days lp 6 then 5
      else if d < cum_days lp 7 then 6 else if d < cum_days lp 8 then 7 else if d < cum_days lp 9 then 8
      else if d < cum_days lp 10 then 9 else if d < cum_days lp 11 then 10 else 11)"

definition utc_month :: "int \<Rightarrow> int" where
  "utc_month t = month_of_day (leap (utc_year t)) (day_in_year t)"

definition utc_date :: "int \<Rightarrow> int" where
  "utc_date t = day_in_year t - cum_days (leap (utc_year t)) (utc_month t) + 1"

definition utc_hours :: "int \<Rightarrow> int" where "utc_hours t = ms_of_day t div 3600000"
definition utc_minutes :: "int \<Rightarrow> int" where "utc_minutes t = ms_of_day t div 60000 mod 60"
definition utc_seconds :: "int \<Rightarrow> int" where "utc_seconds t = ms_of_day t div 1000 mod 60"

text \<open>In-range calendar fields, month counted from 0.\<close>

definition days_in_month :: "int \<Rightarrow> int \<Rightarrow> int" where
  "days_in_month y m = cum_days (leap y) (m + 1) - cum_days (leap y) m"

definition valid_civil :: "int \<Rightarrow> int \<Rightarrow> int \<Rightarrow> bool" where
  "valid_civil y m d \<longleftrightarrow> 0 \<le> m \<and> m \<le> 11 \<and> 1 \<le> d \<and> d \<le> days_in_month y m"

definition valid_clock :: "int \<Rightarrow> int \<Rightarrow> int \<Rightarrow> bool" where
  "valid_clock h mi s \<longleftrightarrow> 0 \<le> h \<and> h < 24 \<and> 0 \<le> mi \<and> mi < 60 \<and> 0 \<le> s \<and> s < 60"

lemma month_cases:
  fixes m :: int
  assumes "0 \<le> m" "m \<le> 11"
  obtains "m = 0" | "m = 1" | "m = 2" | "m = 3" | "m = 4" | "m = 5" | "m = 6" | "m = 7"
    | "m = 8" | "m = 9" | "m = 10" | "m = 11"
proof -
  have "m = 0 \<or> m = 1 \<or> m = 2 \<or> m = 3 \<or> m = 4 \<or> m = 5 \<or> m = 6 \<or> m = 7 \<or> m = 8 \<or> m = 9
      \<or> m = 10 \<or> m = 11"
    using assms by presburger
  then show ?thesis using that by blast
qed

lemma cum_days_span:
  "0 \<le> m \<Longrightarrow> m \<le> 11 \<Longrightarrow> 0 \<le> cum_days lp m \<and> cum_days lp (m + 1) \<le> (if lp then 366 else 365)"
  by (erule (1) month_cases) (simp_all add: cum_days_def)

lemma month_of_day_cum:
  "0 \<le> m \<Longrightarrow> m \<le> 11 \<Longrightarrow> cum_days lp m \<le> d \<Longrightarrow> d < cum_days lp (m + 1) \<Longrightarrow> month_of_day lp d = m"
  by (erule (1) month_cases) (simp_all add: cum_days_def month_of_day_def split: if_splits)

lemma month_of_day_bounds:
  assumes "0 \<le> d" "d < (if lp then 366 else 365)"
  shows "0 \<le> month_of_day lp d" "month_of_day lp d \<le> 11"
    "cum_days lp (month_of_day lp d) \<le> d" "d < cum_days lp (month_of_day lp d + 1)"
  using assms by (cases lp; simp add: month_of_day_def cum_days_def)+


lemma cum_span: "0 \<le> m \<Longrightarrow> m \<le> 11 \<Longrightarrow> 0 \<le> cum_days lp m"
  using cum_days_span by blast

lemma days_in_year_alt: "days_in_year y = (if leap y then 366 else 365)"
  by (rule days_in_year_def)

lemma clock_bounds:
  assumes "valid_clock h mi s"
  shows "0 \<le> make_time h mi s 0" "make_time h mi s 0 < 86400000"
  using assms by (simp_all add: valid_clock_def make_time_def)

lemma clock_fields:
  assumes "valid_clock h mi s"
  shows "make_time h mi s 0 div 3600000 = h" "make_time h mi s 0 div 60000 mod 60 = mi"
    "make_time h mi s 0 div 1000 mod 60 = s"
proof -
  have k: "0 \<le> mi" "mi < 60" "0 \<le> s" "s < 60" using assms by (simp_all add: valid_clock_def)
  have "make_time h mi s 0 div 60000 = h * 60 + mi"
    using k unfolding make_time_def by (intro int_div_pos_eq [of _ _ _ "s * 1000"]) simp_all
  then show "make_time h mi s 0 div 60000 mod 60 = mi" using k by simp
  have "make_time h mi s 0 div 1000 = (h * 60 + mi) * 60 + s"
    unfolding make_time_def by (intro int_div_pos_eq [of _ _ _ 0]) simp_all
  then have "make_time h mi s 0 div 1000 mod 60 = s mod 60" by (simp only: mod_mult_self3)
  then show "make_time h mi s 0 div 1000 mod 60 = s" using k by simp
  show "make_time h mi s 0 div 3600000 = h"
    using k unfolding make_time_def by (intro int_div_pos_eq [of _ _ _ "mi * 60000 + s * 1000"]) simp_all
qed

text \<open>Building a date from in-range fields and reading the fields back.\<close>

lemma civil_fields:
  assumes c: "valid_civil y m d" and k: "valid_clock h mi s" and y: "y < 0 \<or> 99 < y"
  shows "utc_year (date_UTC y m d h mi s) = y" "utc_month (date_UTC y m d h mi s) = m"
    "utc_date (date_UTC y m d h mi s) = d" "utc_hours (date_UTC y m d h mi s) = h"
    "utc_minutes (date_UTC y m d h mi s) = mi" "utc_seconds (date_UTC y m d h mi s) = s"
proof -
  let ?t = "date_UTC y m d h mi s" and ?o = "cum_days (leap y) m + d - 1"
  have m: "0 \<le> m" "m \<le> 11" "m div 12 = 0" "m mod 12 = m" using c by (auto simp: valid_civil_def)
  have t: "?t = make_date (day_from_year y + ?o) (make_time h mi s 0)"
    using y m by (auto simp: date_UTC_def make_day_def algebra_simps)
  have day: "day_of ?t = day_from_year y + ?o" and ms: "ms_of_day ?t = make_time h mi s 0"
    using clock_bounds [OF k] unfolding t make_date_def day_of_def ms_of_day_def
    by (simp_all only: div_mult_self3 mod_mult_self3 div_pos_pos_trivial mod_pos_pos_trivial)
  have o: "cum_days (leap y) m \<le> ?o" "?o < cum_days (leap y) (m + 1)"
    using c by (auto simp: valid_civil_def days_in_month_def)
  have year: "utc_year ?t = y"
    unfolding utc_year_def day
    using o cum_days_span [OF m(1,2), of "leap y"] day_from_year_step [of y]
    by (intro year_unique) (auto simp: days_in_year_def)
  show "utc_year ?t = y" by (rule year)
  have diy: "day_in_year ?t = ?o" unfolding day_in_year_def year day by simp
  have mon: "utc_month ?t = m"
    unfolding utc_month_def year diy using m o by (intro month_of_day_cum)
  show "utc_month ?t = m" by (rule mon)
  show "utc_date ?t = d" unfolding utc_date_def mon year diy by simp
  show "utc_hours ?t = h" "utc_minutes ?t = mi" "utc_seconds ?t = s"
    unfolding utc_hours_def utc_minutes_def utc_seconds_def ms by (rule clock_fields [OF k])+
qed

text \<open>Every time value has in-range fields, and they give its second back.\<close>

lemma fields_valid:
  "valid_civil (utc_year t) (utc_month t) (utc_date t)"
  "valid_clock (utc_hours t) (utc_minutes t) (utc_seconds t)"
proof -
  have "0 \<le> day_in_year t" "day_in_year t < (if leap (utc_year t) then 366 else 365)"
    using year_from_day_bounds [of "day_of t"]
    by (simp_all add: day_in_year_def utc_year_def days_in_year_def split: if_splits)
  note b = month_of_day_bounds [OF this]
  show "valid_civil (utc_year t) (utc_month t) (utc_date t)"
    using b by (simp add: valid_civil_def days_in_month_def utc_date_def utc_month_def)
  have r: "0 \<le> ms_of_day t" "ms_of_day t \<le> 86399999"
    using pos_mod_bound [of 86400000 t] by (simp_all add: ms_of_day_def)
  have "ms_of_day t div 3600000 \<le> 86399999 div 3600000" using r by (intro zdiv_mono1) simp_all
  then show "valid_clock (utc_hours t) (utc_minutes t) (utc_seconds t)"
    using r by (simp add: valid_clock_def utc_hours_def utc_minutes_def utc_seconds_def pos_imp_zdiv_nonneg_iff)
qed

lemma fields_rebuild:
  assumes "utc_year t < 0 \<or> 99 < utc_year t"
  shows "date_UTC (utc_year t) (utc_month t) (utc_date t) (utc_hours t) (utc_minutes t) (utc_seconds t)
     = t - t mod 1000"
proof -
  have m: "utc_month t div 12 = 0" "utc_month t mod 12 = utc_month t"
    using fields_valid(1) [of t] by (auto simp: valid_civil_def)
  have d: "day_from_year (utc_year t) + cum_days (leap (utc_year t)) (utc_month t) + utc_date t - 1 = day_of t"
    by (simp add: utc_date_def day_in_year_def)
  have k: "make_time (utc_hours t) (utc_minutes t) (utc_seconds t) 0 = ms_of_day t - ms_of_day t mod 1000"
  proof -
    let ?u = "ms_of_day t div 1000"
    let ?v = "?u div 60"
    have e: "ms_of_day t div 60000 = ?v" "ms_of_day t div 3600000 = ?v div 60"
      by (simp_all add: zdiv_zmult2_eq [symmetric])
    have "?v div 60 * 60 + ?v mod 60 = ?v" "?v * 60 + ?u mod 60 = ?u"
      "?u * 1000 + ms_of_day t mod 1000 = ms_of_day t"
      by simp_all
    then show ?thesis unfolding make_time_def utc_hours_def utc_minutes_def utc_seconds_def e by linarith
  qed
  have "date_UTC (utc_year t) (utc_month t) (utc_date t) (utc_hours t) (utc_minutes t) (utc_seconds t)
      = make_date (day_of t) (ms_of_day t - ms_of_day t mod 1000)"
    using assms m d by (auto simp: date_UTC_def make_day_def k)
  also have "\<dots> = t - t mod 1000"
    unfolding make_date_def day_of_def ms_of_day_def
    using mod_mod_cancel [of 1000 86400000 t] div_mult_mod_eq [of t 86400000] by simp
  finally show ?thesis .
qed

end
