(* ===== verification/Conflict.thy ===== *)
theory Conflict
  imports JsDate
begin

section \<open>Conflict copies (lib/conflict.ts)\<close>

text \<open>
  The name a losing version is preserved under, and the parser that recovers the original path,
  the device and the moment from such a name. The regular expression \<open>RE\<close> is anchored at the
  end and its last part has a fixed width, so at a given start there is at most one way to match;
  \<open>re_at\<close> is that test and \<open>RE\<close> takes the leftmost start, as \<open>exec\<close> does. Dates are time values
  (theory JsDate).
\<close>

record Conflict =
  original :: jstr
  device :: jstr
  cwhen :: int

definition conflict_tag :: jstr where
  "conflict_tag = js ''.bdrive-conflict-''"

definition dev_char :: "nat \<Rightarrow> bool" where
  "dev_char u \<longleftrightarrow> 65 \<le> u \<and> u \<le> 90 \<or> 97 \<le> u \<and> u \<le> 122 \<or> 48 \<le> u \<and> u \<le> 57 \<or> u = 95 \<or> u = 45"

text \<open>\<open>(\d{4})(\d{2})(\d{2})T(\d{2})(\d{2})(\d{2})Z\<close>\<close>

definition stamp_shape :: "jstr \<Rightarrow> bool" where
  "stamp_shape s \<longleftrightarrow> length s = 16 \<and> list_all is_digit (take 8 s) \<and> s ! 8 = 84
     \<and> list_all is_digit (slice 9 15 s) \<and> s ! 15 = 90"

definition re_at :: "jstr \<Rightarrow> nat \<Rightarrow> bool" where
  "re_at path i \<longleftrightarrow> occurs_at path conflict_tag i
     \<and> (let rest = drop (i + length conflict_tag) path; n = length rest - 17
        in 17 \<le> length rest \<and> n \<le> 32 \<and> list_all dev_char (take n rest) \<and> rest ! n = 45
           \<and> stamp_shape (drop (n + 1) rest))"

definition RE :: "jstr \<Rightarrow> nat option" where
  "RE path = find (re_at path) [0 ..< length path]"

definition stamp_num :: "jstr \<Rightarrow> nat \<Rightarrow> nat \<Rightarrow> int" where
  "stamp_num s i j = int (digits_val (slice i j s))"

definition parseConflict :: "jstr \<Rightarrow> Conflict option" where
  "parseConflict path =
     (case RE path of
        None \<Rightarrow> None
      | Some i \<Rightarrow>
          let rest = drop (i + length conflict_tag) path;
              n = length rest - 17;
              st = drop (n + 1) rest;
              y = stamp_num st 0 4; mo = stamp_num st 4 6; d = stamp_num st 6 8;
              h = stamp_num st 9 11; mi = stamp_num st 11 13; s = stamp_num st 13 15;
              when = date_UTC y (mo - 1) d h mi s
          in if utc_year when \<noteq> y \<or> utc_month when \<noteq> mo - 1 \<or> utc_date when \<noteq> d
                \<or> utc_hours when \<noteq> h \<or> utc_minutes when \<noteq> mi \<or> utc_seconds when \<noteq> s
             then None
             else Some \<lparr>original = take i path, device = take n rest, cwhen = when\<rparr>)"

definition int_str :: "int \<Rightarrow> jstr" where
  "int_str n = (if n < 0 then 45 # nat_str (nat (- n)) else nat_str (nat n))"

definition p2 :: "int \<Rightarrow> jstr" where
  "p2 n = replicate (2 - length (int_str n)) 48 @ int_str n"

definition stamp :: "int \<Rightarrow> jstr" where
  "stamp when = int_str (utc_year when) @ p2 (utc_month when + 1) @ p2 (utc_date when) @ js ''T''
     @ p2 (utc_hours when) @ p2 (utc_minutes when) @ p2 (utc_seconds when) @ js ''Z''"

definition sanitize :: "jstr \<Rightarrow> jstr" where
  "sanitize dev = map (\<lambda>u. if dev_char u then u else 45) dev"

definition conflict_suffix :: "jstr \<Rightarrow> int \<Rightarrow> jstr" where
  "conflict_suffix dev when = conflict_tag @ take 32 (sanitize dev) @ js ''-'' @ stamp when"

definition conflictName :: "jstr \<Rightarrow> jstr \<Rightarrow> int \<Rightarrow> jstr" where
  "conflictName path dev when =
     (let suffix = conflict_suffix dev when; dir = upto_last 47 path; base = after_last 47 path
      in dir @ take (255 - length suffix) base @ suffix)"

subsection \<open>Decimal fields\<close>

lemma nat_str_length: "length (nat_str n) \<le> Suc k \<longleftrightarrow> n < 10 ^ Suc k"
proof (induction n arbitrary: k rule: nat_str.induct)
  case (1 n)
  show ?case
  proof (cases "n < 10")
    case True
    have "10 \<le> (10 :: nat) ^ Suc k" by (rule self_le_power) simp_all
    with True have "n < 10 ^ Suc k" by (rule less_le_trans)
    with True show ?thesis by (simp add: nat_str_small del: power_Suc)
  next
    case False
    show ?thesis
    proof (cases k)
      case 0
      with False show ?thesis by (subst nat_str.simps) simp
    next
      case (Suc j)
      have "length (nat_str n) \<le> Suc k \<longleftrightarrow> length (nat_str (n div 10)) \<le> Suc j"
        using False Suc by (subst nat_str.simps) simp
      also have "\<dots> \<longleftrightarrow> n div 10 < 10 ^ Suc j" using "1" False by blast
      also have "\<dots> \<longleftrightarrow> n < 10 ^ Suc k"
        using Suc div_less_iff_less_mult [of 10 n "10 ^ Suc j"] by (simp add: mult.commute)
      finally show ?thesis .
    qed
  qed
qed

lemma nat_str_ge: "10 ^ Suc k \<le> n \<longleftrightarrow> Suc (Suc k) \<le> length (nat_str n)"
  using nat_str_length [of n k] by linarith

lemma digits_val_zeros [simp]: "digits_val (replicate k 48 @ s) = digits_val s"
proof -
  have "foldl (\<lambda>v d. 10 * v + (d - 48)) 0 (replicate k 48) = (0 :: nat)" by (induction k) auto
  then show ?thesis by (simp add: digits_val_def)
qed

lemma p2_props:
  assumes "0 \<le> n" "n \<le> 99"
  shows "length (p2 n) = 2" "list_all is_digit (p2 n)" "int (digits_val (p2 n)) = n"
proof -
  have l: "length (nat_str (nat n)) \<le> 2" using nat_str_length [of "nat n" 1] assms by (simp add: numeral_2_eq_2)
  show "length (p2 n) = 2" using l assms by (simp add: p2_def int_str_def)
  show "list_all is_digit (p2 n)"
    using nat_str_digits assms by (auto simp: p2_def int_str_def list_all_iff is_digit_def)
  show "int (digits_val (p2 n)) = n" using assms by (simp add: p2_def int_str_def)
qed

lemma int_str_year:
  assumes "1000 \<le> y" "y \<le> 9999"
  shows "length (int_str y) = 4" "list_all is_digit (int_str y)" "int (digits_val (int_str y)) = y"
proof -
  show "length (int_str y) = 4"
    using nat_str_length [of "nat y" 3] nat_str_length [of "nat y" 2] assms nat_less_iff [of y 1000]
      nat_less_iff [of y 10000] by (simp add: int_str_def)
  show "list_all is_digit (int_str y)"
    using nat_str_digits assms by (auto simp: int_str_def list_all_iff)
  show "int (digits_val (int_str y)) = y" using assms by (simp add: int_str_def)
qed

lemma month_field: "0 \<le> utc_month t + 1" "utc_month t + 1 \<le> 99"
  and date_field: "0 \<le> utc_date t" "utc_date t \<le> 99"
  and clock_field: "0 \<le> utc_hours t" "utc_hours t \<le> 99" "0 \<le> utc_minutes t" "utc_minutes t \<le> 99"
    "0 \<le> utc_seconds t" "utc_seconds t \<le> 99"
proof -
  have m: "0 \<le> utc_month t" "utc_month t \<le> 11" and d: "1 \<le> utc_date t"
    "utc_date t \<le> days_in_month (utc_year t) (utc_month t)"
    using fields_valid(1) [of t] by (auto simp: valid_civil_def)
  have "days_in_month (utc_year t) (utc_month t) \<le> 31"
    using m by (rule month_cases) (simp_all add: days_in_month_def cum_days_def)
  with m d show "0 \<le> utc_month t + 1" "utc_month t + 1 \<le> 99" "0 \<le> utc_date t" "utc_date t \<le> 99"
    by simp_all
  show "0 \<le> utc_hours t" "utc_hours t \<le> 99" "0 \<le> utc_minutes t" "utc_minutes t \<le> 99"
    "0 \<le> utc_seconds t" "utc_seconds t \<le> 99"
    using fields_valid(2) [of t] by (auto simp: valid_clock_def)
qed

lemmas p2_fields = p2_props [OF month_field] p2_props [OF date_field]
  p2_props [OF clock_field(1,2)] p2_props [OF clock_field(3,4)] p2_props [OF clock_field(5,6)]


subsection \<open>The shape of a conflict name\<close>

lemma tag_facts: "conflict_tag = 46 # tl conflict_tag" "46 \<notin> set (tl conflict_tag)"
  "length conflict_tag = 17"
  by (simp_all add: conflict_tag_def js_eval)

lemma digit_dot: "list_all is_digit s \<Longrightarrow> 46 \<notin> set s"
  by (auto simp: list_all_iff is_digit_def)

lemma dev_dot: "list_all dev_char s \<Longrightarrow> 46 \<notin> set s"
  by (auto simp: list_all_iff dev_char_def)

lemma stamp_shape_split:
  assumes "length a = 8" "length b = 6"
  shows "stamp_shape (a @ 84 # b @ [90]) \<longleftrightarrow> list_all is_digit a \<and> list_all is_digit b"
  using assms by (simp add: stamp_shape_def slice_def nth_append)

lemma stamp_shapeE:
  assumes "stamp_shape s"
  obtains a b where "s = a @ 84 # b @ [90]" "length a = 8" "length b = 6"
    "list_all is_digit a" "list_all is_digit b"
proof -
  have l: "length s = 16" using assms by (simp add: stamp_shape_def)
  have "s = take 8 s @ s ! 8 # drop 9 s" using l id_take_nth_drop [of 8 s] by simp
  also have "drop 9 s = take 6 (drop 9 s) @ drop 15 s"
    using append_take_drop_id [of 6 "drop 9 s"] by simp
  also have "drop 15 s = [s ! 15]" using l by (simp add: Cons_nth_drop_Suc [symmetric])
  finally show ?thesis using assms l that [of "take 8 s" "take 6 (drop 9 s)"]
    by (simp add: stamp_shape_def slice_def)
qed

lemma stamp_dot: "stamp_shape s \<Longrightarrow> 46 \<notin> set s"
  by (erule stamp_shapeE) (auto dest: digit_dot)

lemma re_atI:
  assumes "length dev \<le> 32" "list_all dev_char dev" "stamp_shape st"
  shows "re_at (pre @ conflict_tag @ dev @ 45 # st) (length pre)"
  using assms by (simp add: re_at_def occurs_at_def stamp_shape_def nth_append)

lemma re_atE:
  assumes "re_at path i"
  obtains dev st where "path = take i path @ conflict_tag @ dev @ 45 # st" "length dev \<le> 32"
    "list_all dev_char dev" "stamp_shape st" "i < length path"
proof -
  let ?r = "drop (i + length conflict_tag) path"
  let ?n = "length ?r - 17"
  have r: "take (length conflict_tag) (drop i path) = conflict_tag" "17 \<le> length ?r" "?n \<le> 32"
    "list_all dev_char (take ?n ?r)" "?r ! ?n = 45" "stamp_shape (drop (?n + 1) ?r)"
    using assms by (simp_all add: re_at_def occurs_at_def Let_def)
  have "drop i path = conflict_tag @ ?r"
    using append_take_drop_id [of "length conflict_tag" "drop i path"] r(1) by (simp add: add.commute)
  moreover have "?r = take ?n ?r @ 45 # drop (?n + 1) ?r"
    using id_take_nth_drop [of ?n ?r] r(2,5) by simp
  ultimately have "path = take i path @ conflict_tag @ take ?n ?r @ 45 # drop (?n + 1) ?r"
    by (metis append_take_drop_id)
  moreover have "i < length path" using r(2) by simp
  ultimately show ?thesis using r that [of "take ?n ?r" "drop (?n + 1) ?r"] by simp
qed

lemma re_at_last_dot:
  assumes "re_at path i" shows "last_index 46 path = Some i"
proof -
  obtain dev st where d: "path = take i path @ conflict_tag @ dev @ 45 # st" "list_all dev_char dev"
    "stamp_shape st" "i < length path" using assms by (rule re_atE)
  have "46 \<notin> set (tl conflict_tag @ dev @ 45 # st)"
    using tag_facts(2) dev_dot [OF d(2)] stamp_dot [OF d(3)] by auto
  then have "last_index 46 (take i path @ 46 # tl conflict_tag @ dev @ 45 # st) = Some (length (take i path))"
    by (rule last_index_append)
  moreover have "take i path @ 46 # tl conflict_tag @ dev @ 45 # st = path"
    using d(1) tag_facts(1) by (metis append_Cons)
  ultimately show ?thesis using d(4) by simp
qed

lemma RE_eq: "RE path = Some i \<longleftrightarrow> re_at path i"
proof
  assume "RE path = Some i"
  then show "re_at path i" unfolding RE_def by (rule find_SomeD [THEN conjunct1])
next
  assume r: "re_at path i"
  moreover from r have "i < length path" by (rule re_atE)
  ultimately show "RE path = Some i"
    unfolding RE_def
  proof (intro find_unique)
    fix j assume "re_at path j"
    then have "last_index 46 path = Some j" by (rule re_at_last_dot)
    with re_at_last_dot [OF r] show "j = i" by simp
  qed simp_all
qed

lemma RE_None: "RE path = None \<longleftrightarrow> (\<forall>i. \<not> re_at path i)"
  using RE_eq by (metis not_None_eq)


subsection \<open>Printing, then parsing\<close>

lemma stamp_nums:
  assumes "length Y = 4" "length M = 2" "length D = 2" "length H = 2" "length I = 2" "length S = 2"
    and st: "st = (Y @ M @ D) @ 84 # (H @ I @ S) @ [90]"
  shows "stamp_num st 0 4 = int (digits_val Y)" "stamp_num st 4 6 = int (digits_val M)"
    "stamp_num st 6 8 = int (digits_val D)" "stamp_num st 9 11 = int (digits_val H)"
    "stamp_num st 11 13 = int (digits_val I)" "stamp_num st 13 15 = int (digits_val S)"
  using assms by (simp_all add: stamp_num_def slice_def)

lemma parse_form:
  assumes dev: "length dev \<le> 32" "list_all dev_char dev" and st: "stamp_shape st"
    and n: "stamp_num st 0 4 = y" "stamp_num st 4 6 = m + 1" "stamp_num st 6 8 = d"
      "stamp_num st 9 11 = h" "stamp_num st 11 13 = mi" "stamp_num st 13 15 = s"
    and v: "valid_civil y m d" "valid_clock h mi s" "99 < y"
  shows "parseConflict (pre @ conflict_tag @ dev @ 45 # st)
     = Some \<lparr>original = pre, device = dev, cwhen = date_UTC y m d h mi s\<rparr>"
proof -
  have l: "length st = 16" using st by (simp add: stamp_shape_def)
  have r: "RE (pre @ conflict_tag @ dev @ 45 # st) = Some (length pre)"
    unfolding RE_eq using dev st by (rule re_atI)
  show ?thesis
    unfolding parseConflict_def r using l n civil_fields [OF v(1,2)] v(3)
    by (simp add: Let_def)
qed

lemma sanitize_dev: "list_all dev_char (take 32 (sanitize dev))"
  by (auto simp: list_all_iff sanitize_def dev_char_def dest!: in_set_takeD)

lemma stamp_parts:
  "stamp t = (int_str (utc_year t) @ p2 (utc_month t + 1) @ p2 (utc_date t)) @ 84
     # (p2 (utc_hours t) @ p2 (utc_minutes t) @ p2 (utc_seconds t)) @ [90]"
  by (simp add: stamp_def js_eval)

lemma stamp_ok:
  assumes "1000 \<le> utc_year t" "utc_year t \<le> 9999"
  shows "stamp_shape (stamp t)"
  unfolding stamp_parts using p2_fields int_str_year [OF assms]
  by (subst stamp_shape_split) (simp_all only: length_append list_all_append)

lemma suffix_length:
  assumes "1000 \<le> utc_year t" "utc_year t \<le> 9999"
  shows "length (conflict_suffix dev t) \<le> 66"
  using stamp_ok [OF assms] tag_facts(3) by (simp add: conflict_suffix_def stamp_shape_def js_eval)

lemma suffix_no_slash:
  assumes "1000 \<le> utc_year t" "utc_year t \<le> 9999"
  shows "47 \<notin> set (conflict_suffix dev t)"
proof -
  have "47 \<notin> set (take 32 (sanitize dev))"
    using sanitize_dev [of dev] by (fastforce simp: list_all_iff dev_char_def)
  moreover obtain a b where "stamp t = a @ 84 # b @ [90]" "list_all is_digit a" "list_all is_digit b"
    using stamp_ok [OF assms] by (rule stamp_shapeE)
  ultimately show ?thesis
    by (auto simp: conflict_suffix_def conflict_tag_def js_eval list_all_iff)
qed

lemma conflictName_alt:
  "conflictName path dev t = (upto_last 47 path @ take (255 - length (conflict_suffix dev t)) (after_last 47 path))
     @ conflict_tag @ take 32 (sanitize dev) @ 45 # stamp t"
  by (simp add: conflictName_def Let_def conflict_suffix_def js_def)

lemma conflictName_parse:
  assumes y: "1000 \<le> utc_year t" "utc_year t \<le> 9999"
  shows "parseConflict (conflictName path dev t) = Some
     \<lparr>original = upto_last 47 path @ take (255 - length (conflict_suffix dev t)) (after_last 47 path),
      device = take 32 (sanitize dev), cwhen = t - t mod 1000\<rparr>"
proof -
  note f = p2_fields int_str_year [OF y]
  note n = stamp_nums [OF f(16) f(1) f(4) f(7) f(10) f(13) stamp_parts]
  have "99 < utc_year t" using y by simp
  then show ?thesis
    unfolding conflictName_alt using fields_rebuild [of t] n f
    by (subst parse_form [OF _ sanitize_dev stamp_ok [OF y] _ _ _ _ _ _ fields_valid]) simp_all
qed

subsection \<open>Parsing, then printing\<close>

text \<open>Two-digit and four-digit strings are determined by their value.\<close>

lemma ten_split:
  fixes u v p q :: nat
  shows "u < 10 \<Longrightarrow> v < 10 \<Longrightarrow> 10 * p + u = 10 * q + v \<Longrightarrow> p = q \<and> u = v"
  by presburger

lemma digits_val_inj:
  "length u = length v \<Longrightarrow> list_all is_digit u \<Longrightarrow> list_all is_digit v \<Longrightarrow>
     digits_val u = digits_val v \<Longrightarrow> u = v"
proof (induction u arbitrary: v rule: rev_induct)
  case (snoc x xs)
  then obtain w ws where v: "v = ws @ [w]" by (cases v rule: rev_cases) auto
  have b: "x - 48 < 10" "w - 48 < 10" "48 \<le> x" "48 \<le> w"
    using snoc.prems v by (auto simp: is_digit_def)
  have "10 * digits_val xs + (x - 48) = 10 * digits_val ws + (w - 48)"
    using snoc.prems v by (simp add: digits_val_append)
  note e = ten_split [OF b(1,2) this]
  then have "x = w" using b by (metis le_add_diff_inverse)
  with e snoc v show ?case by simp
qed simp

lemma digits_val_bound: "list_all is_digit s \<Longrightarrow> digits_val s < 10 ^ length s"
proof (induction s rule: rev_induct)
  case (snoc d s)
  then have "digits_val s + 1 \<le> 10 ^ length s" "d - 48 \<le> 9" by (auto simp: is_digit_def)
  then have "10 * digits_val s + (d - 48) < 10 * 10 ^ length s" by linarith
  then show ?case by (simp add: digits_val_append)
qed (simp add: digits_val_def)

lemma parse_fields:
  assumes p: "parseConflict (pre @ conflict_tag @ dev @ 45 # st) = Some c"
    and dev: "length dev \<le> 32" "list_all dev_char dev" and st: "stamp_shape st"
  shows "original c = pre" "device c = dev" "utc_year (cwhen c) = stamp_num st 0 4"
    "utc_month (cwhen c) + 1 = stamp_num st 4 6" "utc_date (cwhen c) = stamp_num st 6 8"
    "utc_hours (cwhen c) = stamp_num st 9 11" "utc_minutes (cwhen c) = stamp_num st 11 13"
    "utc_seconds (cwhen c) = stamp_num st 13 15"
proof -
  have l: "length st = 16" using st by (simp add: stamp_shape_def)
  have r: "RE (pre @ conflict_tag @ dev @ 45 # st) = Some (length pre)"
    unfolding RE_eq using dev st by (rule re_atI)
  let ?w = "date_UTC (stamp_num st 0 4) (stamp_num st 4 6 - 1) (stamp_num st 6 8) (stamp_num st 9 11)
    (stamp_num st 11 13) (stamp_num st 13 15)"
  define w where "w = ?w"
  have c: "c = \<lparr>original = pre, device = dev, cwhen = w\<rparr>" and e: "utc_year w = stamp_num st 0 4"
    "utc_month w = stamp_num st 4 6 - 1" "utc_date w = stamp_num st 6 8" "utc_hours w = stamp_num st 9 11"
    "utc_minutes w = stamp_num st 11 13" "utc_seconds w = stamp_num st 13 15"
    using p l unfolding parseConflict_def r option.case Let_def
    by (simp_all add: w_def [symmetric] split: if_splits)
  show "original c = pre" "device c = dev" "utc_year (cwhen c) = stamp_num st 0 4"
    "utc_month (cwhen c) + 1 = stamp_num st 4 6" "utc_date (cwhen c) = stamp_num st 6 8"
    "utc_hours (cwhen c) = stamp_num st 9 11" "utc_minutes (cwhen c) = stamp_num st 11 13"
    "utc_seconds (cwhen c) = stamp_num st 13 15"
    by (simp_all add: c e)
qed

lemma stamp_unique:
  assumes st: "stamp_shape st" and y: "1000 \<le> utc_year t"
    and n: "utc_year t = stamp_num st 0 4" "utc_month t + 1 = stamp_num st 4 6"
      "utc_date t = stamp_num st 6 8" "utc_hours t = stamp_num st 9 11"
      "utc_minutes t = stamp_num st 11 13" "utc_seconds t = stamp_num st 13 15"
  shows "stamp t = st"
proof -
  obtain a b where ab: "st = a @ 84 # b @ [90]" "length a = 8" "length b = 6"
    "list_all is_digit a" "list_all is_digit b" using st by (rule stamp_shapeE)
  let ?Y = "take 4 a" and ?M = "take 2 (drop 4 a)" and ?D = "drop 6 a"
  let ?H = "take 2 b" and ?I = "take 2 (drop 2 b)" and ?S = "drop 4 b"
  have len: "length ?Y = 4" "length ?M = 2" "length ?D = 2" "length ?H = 2" "length ?I = 2" "length ?S = 2"
    using ab by simp_all
  have dig: "list_all is_digit ?Y" "list_all is_digit ?M" "list_all is_digit ?D"
    "list_all is_digit ?H" "list_all is_digit ?I" "list_all is_digit ?S"
    using ab(4,5) by (auto simp: list_all_iff dest!: in_set_takeD in_set_dropD)
  have a: "a = ?Y @ ?M @ ?D" using append_take_drop_id [of 2 "drop 4 a"] by simp
  have b: "b = ?H @ ?I @ ?S" using append_take_drop_id [of 2 "drop 2 b"] by simp
  have st2: "st = (?Y @ ?M @ ?D) @ 84 # (?H @ ?I @ ?S) @ [90]" using ab(1) a b by simp
  note v = stamp_nums [OF len st2]
  have same2: "p2 z = w" if "length (p2 z) = 2" "list_all is_digit (p2 z)" "int (digits_val (p2 z)) = z"
    "length w = 2" "list_all is_digit w" "z = int (digits_val w)" for z w
    using that by (intro digits_val_inj) simp_all
  have "utc_year t \<le> 9999"
    using digits_val_bound [OF dig(1)] len(1) v(1) n(1) by simp
  note Y = int_str_year [OF y this]
  have "int_str (utc_year t) = ?Y"
    using Y len(1) dig(1) v(1) n(1) by (intro digits_val_inj) simp_all
  moreover note same2 [OF p2_fields(1-3) len(2) dig(2) n(2) [unfolded v]]
    same2 [OF p2_fields(4-6) len(3) dig(3) n(3) [unfolded v]]
    same2 [OF p2_fields(7-9) len(4) dig(4) n(4) [unfolded v]]
    same2 [OF p2_fields(10-12) len(5) dig(5) n(5) [unfolded v]]
    same2 [OF p2_fields(13-15) len(6) dig(6) n(6) [unfolded v]]
  ultimately show ?thesis using st2 unfolding stamp_parts by metis
qed

lemma parse_shape:
  assumes "parseConflict path = Some c"
  obtains dev st where "path = original c @ conflict_tag @ device c @ 45 # st" "length (device c) \<le> 32"
    "list_all dev_char (device c)" "stamp_shape st"
proof (cases "RE path")
  case None
  with assms show ?thesis by (simp add: parseConflict_def)
next
  case (Some i)
  then obtain dev st where path: "path = take i path @ conflict_tag @ dev @ 45 # st"
    and dev: "length dev \<le> 32" "list_all dev_char dev" and st: "stamp_shape st"
    unfolding RE_eq by (rule re_atE)
  have "parseConflict (take i path @ conflict_tag @ dev @ 45 # st) = Some c"
    using assms path by metis
  note f = parse_fields(1,2) [OF this dev st]
  show ?thesis by (rule that [of st]) (use path dev st f in simp_all)
qed

lemma parse_print:
  assumes p: "parseConflict path = Some c" and y: "1000 \<le> utc_year (cwhen c)"
  shows "path = original c @ conflict_suffix (device c) (cwhen c) \<and> sanitize (device c) = device c"
proof -
  obtain st where s: "path = original c @ conflict_tag @ device c @ 45 # st" "length (device c) \<le> 32"
    "list_all dev_char (device c)" "stamp_shape st" using p by (rule parse_shape)
  have "stamp (cwhen c) = st"
    using parse_fields(3-8) [OF p [unfolded s(1)] s(2-4)] by (intro stamp_unique [OF s(4) y])
  moreover have "sanitize (device c) = device c"
    using s(3) by (auto simp: sanitize_def list_all_iff intro!: map_idI)
  ultimately show ?thesis using s by (simp add: conflict_suffix_def js_def)
qed

subsection \<open>Properties\<close>

text \<open>C28: A conflict name is read back: for every path, device name and moment of a four-digit year,
  the parser returns the directory with the clipped base name, the sanitized and clipped device,
  and the moment to the second; the last segment of the name is never longer than 255.\<close>

theorem conflict_roundtrip:
  assumes "1000 \<le> utc_year t" "utc_year t \<le> 9999"
  shows "parseConflict (conflictName path dev t) = Some
      \<lparr>original = upto_last 47 path @ take (255 - length (conflict_suffix dev t)) (after_last 47 path),
       device = take 32 (sanitize dev), cwhen = t - t mod 1000\<rparr>
    \<and> length (after_last 47 (conflictName path dev t)) \<le> 255"
proof (intro conjI conflictName_parse assms)
  let ?b = "take (255 - length (conflict_suffix dev t)) (after_last 47 path)"
  have nb: "47 \<notin> set (?b @ conflict_suffix dev t)"
    using after_last_free [of 47 path] suffix_no_slash [OF assms] by (auto dest: in_set_takeD)
  have "after_last 47 (upto_last 47 path @ ?b @ conflict_suffix dev t) = ?b @ conflict_suffix dev t"
    using after_last_upto [OF nb] .
  then show "length (after_last 47 (conflictName path dev t)) \<le> 255"
    using suffix_length [OF assms, of dev] by (simp add: conflictName_def Let_def)
qed

theorem conflict_roundtrip_witness:
  "parseConflict (conflictName (js ''a/n.md'') (js ''my pc'') 1789733464000) = Some
      \<lparr>original = upto_last 47 (js ''a/n.md'') @ take (255 - length (conflict_suffix (js ''my pc'') 1789733464000)) (after_last 47 (js ''a/n.md'')),
       device = take 32 (sanitize (js ''my pc'')), cwhen = 1789733464000 - 1789733464000 mod 1000\<rparr>
    \<and> length (after_last 47 (conflictName (js ''a/n.md'') (js ''my pc'') 1789733464000)) \<le> 255"
  by (rule conflict_roundtrip; code_simp)

text \<open>What the parser accepts is exactly what the printer writes: a path it splits into an
  original, a device and a moment of year 1000 or later is the original followed by the suffix
  \<open>conflictName\<close> prints for that device and moment.\<close>

theorem conflict_parse_print:
  assumes "parseConflict path = Some c" "1000 \<le> utc_year (cwhen c)"
  shows "path = original c @ conflict_suffix (device c) (cwhen c) \<and> sanitize (device c) = device c"
  using assms by (rule parse_print)

theorem conflict_parse_print_witness:
  "js ''n.md.bdrive-conflict-a-b-20260918T121104Z''
     = js ''n.md'' @ conflict_suffix (js ''a-b'') 1789733464000 \<and> sanitize (js ''a-b'') = js ''a-b''"
proof -
  have "parseConflict (js ''n.md.bdrive-conflict-a-b-20260918T121104Z'')
      = Some \<lparr>original = js ''n.md'', device = js ''a-b'', cwhen = 1789733464000\<rparr>"
    and "1000 \<le> utc_year 1789733464000" by code_simp+
  then show ?thesis
    using conflict_parse_print [of _ "\<lparr>original = js ''n.md'', device = js ''a-b'', cwhen = 1789733464000\<rparr>"]
    by simp
qed

end
