(* ===== verification/Meeting.thy ===== *)
theory Meeting
  imports Prelude
begin

section \<open>Meeting notes (lib/meeting.ts)\<close>

text \<open>
  The per-person sections of a note, its action items, the carry-over from the previous note, the
  shrink rule of a save and the rule for offline edits. Regular expressions are written as the
  functions that compute their match, in the engine's order of attempts; \<open>toLowerCase\<close>, the
  Unicode letter test and the local clock time are arguments of the definitions that use them.
\<close>

text \<open>Line terminators, which \<open>.\<close> does not match.\<close>

definition is_lt :: "nat \<Rightarrow> bool" where
  "is_lt u \<longleftrightarrow> u = 10 \<or> u = 13 \<or> u = 8232 \<or> u = 8233"

definition ascii_lower :: "jstr \<Rightarrow> jstr" where
  "ascii_lower s = map (\<lambda>u. if 65 \<le> u \<and> u \<le> 90 then u + 32 else u) s"

definition ends_md :: "jstr \<Rightarrow> bool" where
  "ends_md s \<longleftrightarrow> ends_with (ascii_lower s) (js ''.md'')"

definition daily_meetings :: jstr where
  "daily_meetings = js ''daily-meetings''"

definition isMeetingNote :: "jstr \<Rightarrow> bool" where
  "isMeetingNote path \<longleftrightarrow> ends_md path \<and> daily_meetings \<in> set (butlast (split_on 47 path))"

subsection \<open>Sections\<close>

record Section =
  sname :: jstr
  sfrom :: nat
  headingEnd :: nat
  sto :: nat
  sbody :: jstr

text \<open>\<open>/^(#{1,2})\s+(.+?)\s*#*\s*$/\<close>: the number of hashes and the name. The greedy white space
  is tried longest first, the lazy name shortest first.\<close>

definition heading_tail :: "jstr \<Rightarrow> bool" where
  "heading_tail t \<longleftrightarrow> dropWhile is_ws (dropWhile (\<lambda>u. u = 35) (dropWhile is_ws t)) = []"

definition lazy_name :: "jstr \<Rightarrow> jstr option" where
  "lazy_name r = map_option (\<lambda>p. take p r)
     (find (\<lambda>p. list_all (\<lambda>u. \<not> is_lt u) (take p r) \<and> heading_tail (drop p r)) [1 ..< Suc (length r)])"

definition heading :: "jstr \<Rightarrow> (nat \<times> jstr) option" where
  "heading line =
     (let n = length (takeWhile (\<lambda>u. u = 35) line);
          rest = drop n line;
          ws = length (takeWhile is_ws rest)
      in if n = 1 \<or> n = 2 then
           map_option (\<lambda>name. (n, name))
             (case List.find (\<lambda>k. lazy_name (drop k rest) \<noteq> None) (rev [1 ..< Suc ws]) of
                None \<Rightarrow> None | Some k \<Rightarrow> lazy_name (drop k rest))
         else None)"

definition is_fence :: "jstr \<Rightarrow> bool" where
  "is_fence line \<longleftrightarrow> (let r = dropWhile is_ws line in starts_with r (js ''```'') \<or> starts_with r (js ''~~~''))"

definition body_lines :: "jstr \<Rightarrow> jstr" where
  "body_lines s = join [10] (filter (\<lambda>l. trim l \<noteq> []) (split_on 10 s))"

record scan =
  spos :: nat
  fence :: bool
  cur :: "Section option"
  out :: "Section list"

definition close_section :: "jstr \<Rightarrow> nat \<Rightarrow> scan \<Rightarrow> scan" where
  "close_section text e st =
     (case cur st of
        None \<Rightarrow> st
      | Some c \<Rightarrow> st\<lparr>out := out st @ [c\<lparr>sto := e, sbody := body_lines (slice (headingEnd c) e text)\<rparr>], cur := None\<rparr>)"

definition scan_line :: "jstr \<Rightarrow> scan \<Rightarrow> jstr \<Rightarrow> scan" where
  "scan_line text st line =
     (let e = spos st + length line;
          st' = (if is_fence line then st\<lparr>fence := \<not> fence st\<rparr>
                 else if \<not> fence st then
                   (case heading line of
                      None \<Rightarrow> st
                    | Some (n, name) \<Rightarrow>
                        let st1 = close_section text (if spos st > 0 then spos st - 1 else 0) st
                        in if n = 2 then st1\<lparr>cur := Some \<lparr>sname = name, sfrom = spos st, headingEnd = e, sto = e, sbody = []\<rparr>\<rparr>
                           else st1)
                 else st)
      in st'\<lparr>spos := e + 1\<rparr>)"

definition sections :: "jstr \<Rightarrow> Section list" where
  "sections text =
     out (close_section text (length text)
       (foldl (scan_line text) \<lparr>spos = 0, fence = False, cur = None, out = []\<rparr> (split_on 10 text)))"

definition sectionAt :: "Section list \<Rightarrow> nat \<Rightarrow> Section option" where
  "sectionAt list offset = find (\<lambda>s. sfrom s \<le> offset \<and> offset \<le> sto s) list"

text \<open>\<open>/^\s*(?:[-*+]|\d+\.)\s+(?:\[[ xX]\]\s+)?/\<close> removed from a line.\<close>

definition is_bullet :: "nat \<Rightarrow> bool" where
  "is_bullet u \<longleftrightarrow> u = 45 \<or> u = 42 \<or> u = 43"

definition skip_box :: "jstr \<Rightarrow> jstr" where
  "skip_box r =
     (case r of
        a # x # b # w # t \<Rightarrow>
          if a = 91 \<and> (x = 32 \<or> x = 120 \<or> x = 88) \<and> b = 93 \<and> is_ws w then dropWhile is_ws (w # t) else r
      | _ \<Rightarrow> r)"

definition strip_marker :: "jstr \<Rightarrow> jstr" where
  "strip_marker l =
     (let r = dropWhile is_ws l;
          after = (if r \<noteq> [] \<and> is_bullet (hd r) then Some (tl r)
                   else let d = dropWhile is_digit r
                        in if d \<noteq> r \<and> d \<noteq> [] \<and> hd d = 46 then Some (tl d) else None)
      in case after of
           None \<Rightarrow> l
         | Some t \<Rightarrow> if t \<noteq> [] \<and> is_ws (hd t) then skip_box (dropWhile is_ws t) else l)"

definition summary :: "Section \<Rightarrow> nat \<Rightarrow> jstr" where
  "summary s mx =
     (let flat = join [32, 183, 32]
            (filter (\<lambda>l. l \<noteq> []) (map (\<lambda>l. trim (strip_marker l)) (split_on 10 (sbody s))))
      in if length flat > mx then take (mx - 1) flat @ [8230] else flat)"

subsection \<open>Action items\<close>

record ActionItem =
  itext :: jstr
  owner :: jstr
  checked :: bool
  isection :: jstr
  iline :: nat

text \<open>\<open>TASK = /^\s*[-*+]\s+\[([ xX])\]\s+(.*)$/\<close>: the box character and the rest of the line.\<close>

definition TASK :: "jstr \<Rightarrow> (nat \<times> jstr) option" where
  "TASK line =
     (case dropWhile is_ws line of
        b # t \<Rightarrow>
          if is_bullet b \<and> t \<noteq> [] \<and> is_ws (hd t) then
            (case dropWhile is_ws t of
               a # x # c # r \<Rightarrow>
                 if a = 91 \<and> (x = 32 \<or> x = 120 \<or> x = 88) \<and> c = 93 \<and> r \<noteq> [] \<and> is_ws (hd r)
                    \<and> list_all (\<lambda>u. \<not> is_lt u) (dropWhile is_ws r)
                 then Some (x, dropWhile is_ws r) else None
             | _ \<Rightarrow> None)
          else None
      | [] \<Rightarrow> None)"

definition word_char :: "nat \<Rightarrow> bool" where
  "word_char u \<longleftrightarrow> 48 \<le> u \<and> u \<le> 57 \<or> 65 \<le> u \<and> u \<le> 90 \<or> u = 95 \<or> 97 \<le> u \<and> u \<le> 122 \<or> u = 46 \<or> u = 45"

text \<open>\<open>@[\w.-]+\<close> at the head of a string.\<close>

definition mention_here :: "jstr \<Rightarrow> bool" where
  "mention_here s \<longleftrightarrow> (case s of a # u # t \<Rightarrow> a = 64 \<and> word_char u | _ \<Rightarrow> False)"

text \<open>\<open>/(?:^|\s)@([\w.-]+)/.exec(s)?.[1] ?? ""\<close>; the flag says whether the position is the start.\<close>

fun first_mention :: "bool \<Rightarrow> jstr \<Rightarrow> jstr" where
  "first_mention st [] = []"
| "first_mention st (u # t) =
     (if st \<and> mention_here (u # t) then takeWhile word_char t
      else if is_ws u \<and> mention_here t then takeWhile word_char (tl t)
      else first_mention False t)"

text \<open>\<open>s.replace(/(?:^|\s)@[\w.-]+/g, "")\<close>.\<close>

function strip_mentions :: "bool \<Rightarrow> jstr \<Rightarrow> jstr" where
  "strip_mentions st [] = []"
| "strip_mentions st (u # t) =
     (if st \<and> mention_here (u # t) then strip_mentions False (dropWhile word_char t)
      else if is_ws u \<and> mention_here t then strip_mentions False (dropWhile word_char (tl t))
      else u # strip_mentions False t)"
  by pat_completeness auto
termination
  by (relation "measure (\<lambda>(b, s). length s)")
    (auto simp: mention_here_def le_imp_less_Suc length_dropWhile_le split: list.splits
      intro: le_less_trans [OF length_dropWhile_le])

definition actionItems :: "jstr \<Rightarrow> ActionItem list" where
  "actionItems text =
     (let secs = sections text
      in snd (snd (foldl (\<lambda>(i, pos, acc) line.
           (i + 1, pos + length line + 1,
            case TASK line of
              None \<Rightarrow> acc
            | Some (x, m2) \<Rightarrow>
                acc @ [\<lparr>itext = trim (strip_mentions True m2), owner = first_mention True m2, checked = (x \<noteq> 32),
                        isection = (case sectionAt secs pos of None \<Rightarrow> [] | Some s \<Rightarrow> sname s),
                        iline = i + 1\<rparr>]))
         (0, 0, []) (split_on 10 text))))"

definition item_line :: "ActionItem \<Rightarrow> jstr" where
  "item_line a = js ''- ['' @ (if checked a then js ''x'' else js '' '') @ js ''] '' @ itext a
     @ (if owner a = [] then [] else js '' @'' @ owner a)"

definition itemsMarkdown :: "ActionItem list \<Rightarrow> jstr" where
  "itemsMarkdown items = join [10] (map item_line items)"

definition openItems :: "jstr \<Rightarrow> jstr list" where
  "openItems text =
     map trim (filter (\<lambda>l. map_option fst (TASK l) = Some 32) (split_on 10 text))"

subsection \<open>The previous note\<close>

text \<open>\<open>/(\d{4}-\d{2}-\d{2})[^/]*\.md$/i\<close>, leftmost match, its date or the empty string.\<close>

definition date_at :: "jstr \<Rightarrow> nat \<Rightarrow> bool" where
  "date_at p i \<longleftrightarrow>
     (let d = slice i (i + 10) p; r = drop (i + 10) p
      in length d = 10 \<and> list_all is_digit (slice 0 4 d) \<and> d ! 4 = 45 \<and> list_all is_digit (slice 5 7 d)
         \<and> d ! 7 = 45 \<and> list_all is_digit (slice 8 10 d)
         \<and> ends_md r \<and> 47 \<notin> set r)"

definition note_date :: "jstr \<Rightarrow> jstr" where
  "note_date p = (case find (date_at p) [0 ..< length p] of None \<Rightarrow> [] | Some i \<Rightarrow> slice i (i + 10) p)"

definition notes_root :: "jstr \<Rightarrow> jstr" where
  "notes_root path =
     (let segs = split_on 47 path
      in join [47] (case last_index daily_meetings segs of None \<Rightarrow> [] | Some i \<Rightarrow> take (i + 1) segs) @ [47])"

definition better_note :: "jstr \<Rightarrow> jstr \<Rightarrow> jstr \<Rightarrow> jstr option \<times> jstr \<Rightarrow> jstr \<Rightarrow> jstr option \<times> jstr" where
  "better_note path root mine b f =
     (if f = path \<or> \<not> starts_with f root then b
      else let d = note_date f
           in if d \<noteq> [] \<and> str_less d mine \<and> str_less (snd b) d then (Some f, d) else b)"

definition previousNote :: "jstr \<Rightarrow> jstr list \<Rightarrow> jstr option" where
  "previousNote path files =
     (let mine = note_date path; root = notes_root path
      in if mine = [] \<or> root = [47] then None
         else fst (foldl (better_note path root mine) (None, []) files))"

subsection \<open>Sizes, counts and names\<close>

definition SHRINK_RATIO_FLOOR :: nat where
  "SHRINK_RATIO_FLOOR = 256"

definition sharpShrink :: "nat \<Rightarrow> nat \<Rightarrow> bool" where
  "sharpShrink was now =
     (if was = 0 \<or> now \<ge> was then False
      else if now = 0 then True
      else was \<ge> SHRINK_RATIO_FLOOR \<and> now * 5 < was)"

definition high_surrogate :: "nat \<Rightarrow> bool" where "high_surrogate u \<longleftrightarrow> 55296 \<le> u \<and> u \<le> 56319"
definition low_surrogate :: "nat \<Rightarrow> bool" where "low_surrogate u \<longleftrightarrow> 56320 \<le> u \<and> u \<le> 57343"

text \<open>The bytes of the UTF-8 encoding; a lone surrogate is encoded as U+FFFD, three bytes.\<close>

fun byteLength :: "jstr \<Rightarrow> nat" where
  "byteLength [] = 0"
| "byteLength [u] = (if u < 128 then 1 else if u < 2048 then 2 else 3)"
| "byteLength (u # v # t) =
     (if high_surrogate u \<and> low_surrogate v then 4 + byteLength t
      else (if u < 128 then 1 else if u < 2048 then 2 else 3) + byteLength (v # t))"

text \<open>\<open>s.split(/\s+/)\<close>.\<close>

fun split_ws :: "jstr \<Rightarrow> jstr list" where
  "split_ws [] = [[]]"
| "split_ws (u # t) =
     (if is_ws u then (if t \<noteq> [] \<and> is_ws (hd t) then split_ws t else [] # split_ws t)
      else (case split_ws t of [] \<Rightarrow> [[u]] | w # ws \<Rightarrow> (u # w) # ws))"

definition wordCount :: "(jstr \<Rightarrow> bool) \<Rightarrow> jstr \<Rightarrow> nat" where
  "wordCount has_alnum s = length (filter has_alnum (split_ws s))"

definition agoShort :: "(int \<Rightarrow> jstr) \<Rightarrow> int \<Rightarrow> int \<Rightarrow> jstr" where
  "agoShort clock t now =
     (let s = nat (max 0 ((now - t + 500) div 1000))
      in if s < 3 then js ''just now''
         else if s < 60 then nat_str s @ js ''s ago''
         else if s < 3600 then nat_str (s div 60) @ js ''m ago''
         else clock t)"

definition personHue :: "jstr \<Rightarrow> nat" where
  "personHue name = foldl (\<lambda>h u. (h * 31 + u) mod 360) 0 name"

definition norm_name :: "(jstr \<Rightarrow> jstr) \<Rightarrow> jstr \<Rightarrow> jstr" where
  "norm_name lower s = join [32] (split_ws (lower (trim s)))"

definition sameName :: "(jstr \<Rightarrow> jstr) \<Rightarrow> jstr \<Rightarrow> jstr \<Rightarrow> bool" where
  "sameName lower title person =
     (let h = norm_name lower title; p = norm_name lower person
      in if h = [] \<or> p = [] then False
         else h = p \<or> takeWhile (\<lambda>u. u \<noteq> 32 \<and> u \<noteq> 64 \<and> u \<noteq> 46) p = h)"

definition offlineEditable :: "(jstr \<Rightarrow> jstr) \<Rightarrow> Section list \<Rightarrow> jstr \<Rightarrow> (nat \<times> nat) list \<Rightarrow> bool" where
  "offlineEditable lower secs me ranges =
     (case find (\<lambda>s. sameName lower (sname s) me) secs of
        None \<Rightarrow> False
      | Some mine \<Rightarrow> list_all (\<lambda>(f, t). headingEnd mine \<le> f \<and> t \<le> sto mine) ranges)"


subsection \<open>Sections are in order and inside the text\<close>

definition section_ok :: "jstr \<Rightarrow> Section \<Rightarrow> bool" where
  "section_ok text s \<longleftrightarrow> sfrom s \<le> headingEnd s \<and> headingEnd s \<le> sto s \<and> sto s \<le> length text
     \<and> heading (slice (sfrom s) (headingEnd s) text) = Some (2, sname s)
     \<and> 10 \<notin> set (slice (sfrom s) (headingEnd s) text)
     \<and> sbody s = body_lines (slice (headingEnd s) (sto s) text)"

definition sections_wf :: "jstr \<Rightarrow> Section list \<Rightarrow> bool" where
  "sections_wf text ss \<longleftrightarrow> list_all (section_ok text) ss \<and> sorted_wrt (\<lambda>a b. sto a < sfrom b) ss"

definition open_ok :: "jstr \<Rightarrow> nat \<Rightarrow> Section \<Rightarrow> bool" where
  "open_ok text p c \<longleftrightarrow> sfrom c \<le> headingEnd c \<and> headingEnd c < p \<and> headingEnd c \<le> length text
     \<and> heading (slice (sfrom c) (headingEnd c) text) = Some (2, sname c)
     \<and> 10 \<notin> set (slice (sfrom c) (headingEnd c) text)"

definition scan_inv :: "jstr \<Rightarrow> scan \<Rightarrow> bool" where
  "scan_inv text st \<longleftrightarrow> sections_wf text (out st) \<and> list_all (\<lambda>s. sto s < spos st) (out st)
     \<and> (case cur st of None \<Rightarrow> True
        | Some c \<Rightarrow> open_ok text (spos st) c \<and> list_all (\<lambda>s. sto s < sfrom c) (out st))"

lemma close_inv:
  assumes "scan_inv text st" "e < spos st" "Suc e = spos st" "e \<le> length text"
  shows "scan_inv text (close_section text e st)" "cur (close_section text e st) = None"
    "spos (close_section text e st) = spos st"
  using assms
  by (auto simp: scan_inv_def close_section_def sections_wf_def section_ok_def open_ok_def sorted_wrt_append
      list_all_iff split: option.splits)

lemma scan_line_inv:
  assumes inv: "scan_inv text st" and at: "slice (spos st) (spos st + length line) text = line"
    and len: "spos st + length line \<le> length text" and lf: "10 \<notin> set line"
  shows "scan_inv text (scan_line text st line) \<and> spos (scan_line text st line) = spos st + length line + 1"
proof -
  let ?e = "if spos st > 0 then spos st - 1 else 0"
  let ?st1 = "close_section text ?e st"
  have closed: "scan_inv text ?st1 \<and> cur ?st1 = None \<and> spos ?st1 = spos st"
  proof (cases "spos st = 0")
    case True
    with inv have "cur st = None" by (auto simp: scan_inv_def open_ok_def split: option.splits)
    with inv show ?thesis by (simp add: close_section_def)
  next
    case False
    with close_inv [OF inv, of ?e] len show ?thesis by simp
  qed
  have grow: "scan_inv text (st'\<lparr>spos := spos st + length line + 1\<rparr>)"
    if "scan_inv text st'" "spos st' = spos st" for st'
    using that by (auto simp: scan_inv_def open_ok_def list_all_iff split: option.splits)
  have fresh: "scan_inv text (?st1\<lparr>cur := Some \<lparr>sname = name, sfrom = spos st,
      headingEnd = spos st + length line, sto = spos st + length line, sbody = []\<rparr>,
      spos := spos st + length line + 1\<rparr>)" if "heading line = Some (2, name)" for name
    using that closed at len lf by (fastforce simp: scan_inv_def open_ok_def list_all_iff)
  show ?thesis
  proof (cases "is_fence line \<or> fence st \<or> heading line = None")
    case True
    then show ?thesis using grow [OF inv] grow [of "st\<lparr>fence := \<not> fence st\<rparr>"] inv
      by (auto simp: scan_line_def Let_def scan_inv_def split: option.splits)
  next
    case False
    then obtain n name where h: "heading line = Some (n, name)" by auto
    then show ?thesis using False grow [of ?st1] fresh [of name] closed
      by (auto simp: scan_line_def Let_def)
  qed
qed

lemma scan_lines_inv:
  assumes "scan_inv text st" "spos st \<le> length text" "ls \<noteq> []" "join [10] ls = drop (spos st) text"
    "\<forall>l \<in> set ls. 10 \<notin> set l"
  shows "scan_inv text (foldl (scan_line text) st ls)
     \<and> spos (foldl (scan_line text) st ls) = length text + 1"
  using assms
proof (induction ls arbitrary: st)
  case (Cons l ls)
  have pre: "drop (spos st) text = l @ (if ls = [] then [] else 10 # join [10] ls)"
    using Cons.prems(4) by (cases ls) auto
  have lens: "length text - spos st = length l + (if ls = [] then 0 else Suc (length (join [10] ls)))"
    using arg_cong [OF pre, of length] by simp
  have at: "slice (spos st) (spos st + length l) text = l"
    using pre by (simp add: slice_def)
  have le: "spos st + length l \<le> length text" using lens Cons.prems(2) by (simp split: if_splits)
  note step = scan_line_inv [OF Cons.prems(1) at le]
  have lf: "10 \<notin> set l" using Cons.prems(5) by simp
  show ?case
  proof (cases ls)
    case Nil
    then show ?thesis using step [OF lf] lens Cons.prems(2) by simp
  next
    case (Cons m ms)
    have "drop (spos st + length l + 1) text = drop (length l + 1) (drop (spos st) text)" by (simp add: add.commute)
    also have "\<dots> = join [10] ls" using pre Cons by simp
    finally have d: "join [10] ls = drop (spos st + length l + 1) text" by simp
    show ?thesis
      using Cons.IH [of "scan_line text st l"] step [OF lf] d lens Cons Cons.prems by simp
  qed
qed simp

lemma scan_start: "scan_inv doc \<lparr>spos = 0, fence = False, cur = None, out = []\<rparr>"
  by (simp add: scan_inv_def sections_wf_def)

lemma scan_invD: "scan_inv doc st \<Longrightarrow> sections_wf doc (out st)"
  by (simp add: scan_inv_def)

lemma sections_wf_all: "sections_wf doc (sections doc)"
proof -
  define st0 where "st0 = \<lparr>spos = 0, fence = False, cur = None, out = []\<rparr>"
  define st where "st = foldl (scan_line doc) st0 (split_on 10 doc)"
  have "scan_inv doc st0" "spos st0 = 0" using scan_start by (simp_all add: st0_def)
  then have st: "scan_inv doc st" "spos st = length doc + 1"
    unfolding st_def using scan_lines_inv [of doc st0, OF _ _ split_on_neq_Nil _ split_on_parts] by simp_all
  have "scan_inv doc (close_section doc (length doc) st)"
    using st by (intro close_inv) simp_all
  then show ?thesis unfolding sections_def st0_def [symmetric] st_def [symmetric] by (rule scan_invD)
qed

lemma sections_disjoint:
  assumes "s \<in> set (sections text)" "t \<in> set (sections text)" "s \<noteq> t"
  shows "sto s < sfrom t \<or> sto t < sfrom s"
proof -
  obtain i j where ij: "i < length (sections text)" "j < length (sections text)"
    "sections text ! i = s" "sections text ! j = t" using assms by (metis in_set_conv_nth)
  with assms have "i \<noteq> j" by auto
  with ij sections_wf_all [of "text"] show ?thesis
    by (metis linorder_neqE_nat sections_wf_def sorted_wrt_nth_less)
qed


subsection \<open>Offline edits stay in the author's own section\<close>

lemma offline_mine:
  assumes "offlineEditable lower (sections doc) me ranges"
  obtains mine where "mine \<in> set (sections doc)" "sameName lower (sname mine) me"
    "\<And>f t. (f, t) \<in> set ranges \<Longrightarrow> headingEnd mine \<le> f \<and> t \<le> sto mine"
  using assms
  by (auto simp: offlineEditable_def list_all_iff split: option.splits dest!: find_SomeD)

subsection \<open>Task lines\<close>

text \<open>Items whose rendering is one line that reads back: the text is trimmed, holds no mention and no
  line terminator, and the owner is a run of word characters.\<close>

definition item_ok :: "ActionItem \<Rightarrow> bool" where
  "item_ok a \<longleftrightarrow> trim (itext a) = itext a \<and> 64 \<notin> set (itext a)
     \<and> list_all (\<lambda>u. \<not> is_lt u) (itext a) \<and> list_all word_char (owner a)"

definition mention_suffix :: "jstr \<Rightarrow> jstr" where
  "mention_suffix w = (if w = [] then [] else 32 # 64 # w)"

lemma no_mention: "64 \<notin> set s \<Longrightarrow> \<not> mention_here s"
  by (auto simp: mention_here_def split: list.splits)

lemma mention_here_Cons: "mention_here (64 # w) \<longleftrightarrow> w \<noteq> [] \<and> word_char (hd w)"
  by (auto simp: mention_here_def split: list.splits)

lemma word_run [simp]:
  "list_all word_char w \<Longrightarrow> takeWhile word_char w = w"
  "list_all word_char w \<Longrightarrow> dropWhile word_char w = []"
  by (simp_all add: list_all_iff takeWhile_eq_all_conv)

lemma mention_not_first: "64 \<notin> set s \<Longrightarrow> \<not> mention_here (s @ 32 # r)"
  by (cases s) (auto simp: mention_here_def split: list.splits)

lemma strip_suffix:
  assumes "64 \<notin> set s" "list_all word_char w"
  shows "strip_mentions st (s @ mention_suffix w) = s"
  using assms(1)
proof (induction s arbitrary: st)
  case Nil
  show ?case
    using assms(2) by (cases w) (auto simp: mention_suffix_def mention_here_Cons is_ws_def mention_here_def)
next
  case (Cons u s)
  have "\<not> mention_here (s @ mention_suffix w)" "u = 64 \<longrightarrow> False"
    using Cons.prems mention_not_first [of s] no_mention [of s]
    by (auto simp: mention_suffix_def)
  moreover have "\<not> mention_here (u # s @ mention_suffix w)"
    using Cons.prems by (auto simp: mention_here_def split: list.splits)
  ultimately show ?case using Cons by simp
qed

lemma first_suffix:
  assumes "64 \<notin> set s" "list_all word_char w"
  shows "first_mention st (s @ mention_suffix w) = w"
  using assms(1)
proof (induction s arbitrary: st)
  case Nil
  show ?case
    using assms(2) by (cases w) (auto simp: mention_suffix_def mention_here_Cons is_ws_def mention_here_def)
next
  case (Cons u s)
  have "\<not> mention_here (s @ mention_suffix w)"
    using Cons.prems mention_not_first [of s] no_mention [of s]
    by (auto simp: mention_suffix_def)
  moreover have "\<not> mention_here (u # s @ mention_suffix w)"
    using Cons.prems by (auto simp: mention_here_def split: list.splits)
  ultimately show ?case using Cons by simp
qed


definition task_rest :: "ActionItem \<Rightarrow> jstr" where
  "task_rest a = (if itext a = [] then tl (mention_suffix (owner a)) else itext a @ mention_suffix (owner a))"

lemma task_item:
  assumes "item_ok a"
  shows "TASK (item_line a) = Some (if checked a then 120 else 32, task_rest a)"
proof -
  have l: "item_line a = [45, 32, 91, if checked a then 120 else 32, 93, 32] @ itext a @ mention_suffix (owner a)"
    by (simp add: item_line_def js_eval mention_suffix_def)
  have "\<not> is_ws 64" "\<not> is_ws 91" "is_ws 32" "\<not> is_ws 45" "is_bullet 45" by (simp_all add: is_ws_def is_bullet_def)
  note ws = this
  have r: "dropWhile is_ws (32 # itext a @ mention_suffix (owner a)) = task_rest a"
  proof (cases "itext a")
    case Nil
    then show ?thesis using ws by (simp add: task_rest_def mention_suffix_def)
  next
    case (Cons u t)
    then have "\<not> is_ws u" using assms trim_hd [of "itext a"] by (simp add: item_ok_def)
    with Cons ws show ?thesis by (simp add: task_rest_def)
  qed
  have "\<not> is_lt 32" "\<not> is_lt 64" "list_all (\<lambda>u. \<not> is_lt u) (owner a)"
    using assms by (auto simp: item_ok_def is_lt_def list_all_iff word_char_def)
  then have "list_all (\<lambda>u. \<not> is_lt u) (task_rest a)"
    using assms by (auto simp: item_ok_def task_rest_def mention_suffix_def)
  with ws r show ?thesis unfolding l TASK_def by simp
qed

lemma task_rest_parts:
  assumes "item_ok a"
  shows "trim (strip_mentions True (task_rest a)) = itext a" "first_mention True (task_rest a) = owner a"
proof -
  have w: "64 \<notin> set (itext a)" "list_all word_char (owner a)" "trim (itext a) = itext a"
    using assms by (simp_all add: item_ok_def)
  have "trim [] = []" by (simp add: trim_def trim_end_def trim_start_def)
  then show "trim (strip_mentions True (task_rest a)) = itext a"
    using strip_suffix [OF w(1,2)] w
    by (cases "owner a") (auto simp: task_rest_def mention_suffix_def mention_here_Cons)
  show "first_mention True (task_rest a) = owner a"
    using first_suffix [OF w(1,2)] w
    by (cases "owner a") (auto simp: task_rest_def mention_suffix_def mention_here_Cons)
qed

lemma item_line_free:
  assumes "item_ok a" shows "10 \<notin> set (item_line a)"
proof -
  have "10 \<notin> set (itext a)" "10 \<notin> set (owner a)"
    using assms by (auto simp: item_ok_def list_all_iff is_lt_def word_char_def)
  then show ?thesis by (simp add: item_line_def js_eval)
qed

text \<open>What one line adds to the list of items, the section apart.\<close>

definition item_core :: "ActionItem \<Rightarrow> jstr \<times> jstr \<times> bool" where
  "item_core a = (itext a, owner a, checked a)"

lemma items_fold:
  "map item_core (snd (snd (foldl (\<lambda>(i, pos, acc) line.
           (i + 1, pos + length line + 1,
            case TASK line of
              None \<Rightarrow> acc
            | Some (x, m2) \<Rightarrow>
                acc @ [\<lparr>itext = trim (strip_mentions True m2), owner = first_mention True m2, checked = (x \<noteq> 32),
                        isection = (case sectionAt secs pos of None \<Rightarrow> [] | Some s \<Rightarrow> sname s),
                        iline = i + 1\<rparr>]))
         (i, pos, acc) ls)))
   = map item_core acc @ concat (map (\<lambda>l. case TASK l of None \<Rightarrow> []
       | Some (x, m2) \<Rightarrow> [(trim (strip_mentions True m2), first_mention True m2, x \<noteq> 32)]) ls)"
  by (induction ls arbitrary: i pos acc) (auto simp: item_core_def split: option.splits)

lemma items_core:
  "map item_core (actionItems doc) = concat (map (\<lambda>l. case TASK l of None \<Rightarrow> []
       | Some (x, m2) \<Rightarrow> [(trim (strip_mentions True m2), first_mention True m2, x \<noteq> 32)]) (split_on 10 doc))"
  unfolding actionItems_def Let_def by (simp only: items_fold) simp

lemma items_roundtrip_core:
  assumes "list_all item_ok items"
  shows "map item_core (actionItems (itemsMarkdown items)) = map item_core items"
proof (cases "items = []")
  case True
  then show ?thesis by (simp add: items_core itemsMarkdown_def TASK_def)
next
  case False
  have "split_on 10 (itemsMarkdown items) = map item_line items"
    unfolding itemsMarkdown_def using assms False
    by (intro split_on_join) (auto simp: list_all_iff item_line_free)
  moreover have "concat (map (\<lambda>l. case TASK l of None \<Rightarrow> []
       | Some (x, m2) \<Rightarrow> [(trim (strip_mentions True m2), first_mention True m2, x \<noteq> 32)]) (map item_line items))
     = map item_core items"
    using assms by (induction items) (auto simp: task_item task_rest_parts item_core_def)
  ultimately show ?thesis by (simp only: items_core)
qed

subsection \<open>The previous note is the latest earlier one\<close>

definition note_candidate :: "jstr \<Rightarrow> jstr \<Rightarrow> bool" where
  "note_candidate path f \<longleftrightarrow> f \<noteq> path \<and> starts_with f (notes_root path) \<and> note_date f \<noteq> []
     \<and> str_less (note_date f) (note_date path)"

lemma better_fold:
  assumes "case fst b of None \<Rightarrow> snd b = [] | Some f \<Rightarrow> note_candidate path f \<and> snd b = note_date f"
  shows "case foldl (better_note path (notes_root path) (note_date path)) b files of
      (r, d) \<Rightarrow> (case r of None \<Rightarrow> d = [] | Some f \<Rightarrow> note_candidate path f \<and> d = note_date f)
        \<and> (r = fst b \<or> (\<exists>f \<in> set files. r = Some f))
        \<and> \<not> str_less d (snd b)
        \<and> (\<forall>g \<in> set files. note_candidate path g \<longrightarrow> \<not> str_less d (note_date g))"
  using assms
proof (induction files arbitrary: b)
  case (Cons f files)
  let ?b = "better_note path (notes_root path) (note_date path) b f"
  have b: "case fst ?b of None \<Rightarrow> snd ?b = [] | Some f \<Rightarrow> note_candidate path f \<and> snd ?b = note_date f"
    using Cons.prems by (auto simp: better_note_def note_candidate_def Let_def split: option.splits)
  have up: "\<not> str_less (snd ?b) (snd b)" "note_candidate path f \<Longrightarrow> \<not> str_less (snd ?b) (note_date f)"
    "fst ?b = fst b \<or> fst ?b = Some f"
    using str_less_trans [of "note_date f" "snd b" "note_date f"]
    by (auto simp: better_note_def note_candidate_def Let_def)
  have chain: "\<not> str_less d x" if "\<not> str_less d (snd ?b)" "\<not> str_less (snd ?b) x" for d x
    using that str_less_total str_less_trans by metis
  obtain r d where rd: "foldl (better_note path (notes_root path) (note_date path)) ?b files = (r, d)"
    by (cases "foldl (better_note path (notes_root path) (note_date path)) ?b files")
  note ih = Cons.IH [OF b, unfolded rd prod.case]
  have "r = fst b \<or> (\<exists>g \<in> set (f # files). r = Some g)" using ih up(3) by auto
  moreover have "\<not> str_less d (snd b)" using ih up(1) chain by blast
  moreover have "\<not> str_less d (note_date g)" if "g \<in> set (f # files)" "note_candidate path g" for g
    using that ih up(2) chain by auto
  ultimately show ?case using ih rd by simp
qed (auto split: prod.splits option.splits)


lemma previousNote_cases:
  "case previousNote path files of
     None \<Rightarrow> notes_root path = [47] \<or> (\<forall>g \<in> set files. \<not> note_candidate path g)
   | Some f \<Rightarrow> f \<in> set files \<and> note_candidate path f
       \<and> (\<forall>g \<in> set files. note_candidate path g \<longrightarrow> \<not> str_less (note_date f) (note_date g))"
proof (cases "note_date path = [] \<or> notes_root path = [47]")
  case True
  then show ?thesis by (auto simp: previousNote_def Let_def note_candidate_def)
next
  case False
  obtain r d where rd: "foldl (better_note path (notes_root path) (note_date path)) (None, []) files = (r, d)"
    by (cases "foldl (better_note path (notes_root path) (note_date path)) (None, []) files")
  have "previousNote path files = r" using False rd by (simp add: previousNote_def Let_def)
  then show ?thesis
    using better_fold [of "(None, [])" path files] rd
    by (auto simp: note_candidate_def split: option.splits)
qed

subsection \<open>Properties\<close>

text \<open>The sections of a note are in document order, do not overlap and lie inside the text; each
  starts with a level-two heading line that carries its name, and its body is the text up to its
  end without the blank lines.\<close>

theorem sections_ordered:
  "list_all (section_ok doc) (sections doc) \<and> sorted_wrt (\<lambda>a b. sto a < sfrom b) (sections doc)"
  using sections_wf_all [of doc] by (simp add: sections_wf_def)

text \<open>Every range an offline edit is let through for lies between the heading and the end of the
  editor's own section, and so touches no other section of the note.\<close>

theorem offline_edits_safe:
  assumes "offlineEditable lower (sections doc) me ranges" "(f, t) \<in> set ranges" "f \<le> t"
  shows "\<exists>mine \<in> set (sections doc). sameName lower (sname mine) me \<and> headingEnd mine \<le> f \<and> t \<le> sto mine
    \<and> (\<forall>s \<in> set (sections doc). s \<noteq> mine \<longrightarrow> sto s < f \<or> t < sfrom s)"
proof -
  obtain mine where m: "mine \<in> set (sections doc)" "sameName lower (sname mine) me"
    "\<And>f t. (f, t) \<in> set ranges \<Longrightarrow> headingEnd mine \<le> f \<and> t \<le> sto mine"
    using assms(1) by (rule offline_mine) blast
  have b: "headingEnd mine \<le> f" "t \<le> sto mine" using m(3) [OF assms(2)] by simp_all
  have "sfrom mine \<le> headingEnd mine"
    using sections_ordered [of doc] m(1) by (auto simp: list_all_iff section_ok_def)
  then have "sto s < f \<or> t < sfrom s" if "s \<in> set (sections doc)" "s \<noteq> mine" for s
    using sections_disjoint [OF that(1) m(1) that(2)] b by auto
  with m b show ?thesis by blast
qed

theorem offline_edits_safe_witness:
  "\<exists>mine \<in> set (sections (js ''# d'' @ 10 # js ''## Ann'' @ 10 # js ''hi'' @ 10 # js ''## Bo'')).
     sameName ascii_lower (sname mine) (js ''ann lee'') \<and> headingEnd mine \<le> 11 \<and> 13 \<le> sto mine
    \<and> (\<forall>s \<in> set (sections (js ''# d'' @ 10 # js ''## Ann'' @ 10 # js ''hi'' @ 10 # js ''## Bo'')).
         s \<noteq> mine \<longrightarrow> sto s < 11 \<or> 13 < sfrom s)"
  by (rule offline_edits_safe [where ranges = "[(11, 13)]"]; code_simp)

text \<open>Action items survive being rendered as markdown: collecting the items of the rendered list
  gives back every item's text, owner and state, in order.\<close>

theorem items_roundtrip:
  assumes "list_all item_ok items"
  shows "map item_core (actionItems (itemsMarkdown items)) = map item_core items"
  using assms by (rule items_roundtrip_core)

theorem items_roundtrip_witness:
  "map item_core (actionItems (itemsMarkdown
      [\<lparr>itext = js ''ship it'', owner = js ''ann'', checked = False, isection = [], iline = 0\<rparr>]))
    = map item_core [\<lparr>itext = js ''ship it'', owner = js ''ann'', checked = False, isection = [], iline = 0\<rparr>]"
  by (rule items_roundtrip) code_simp

text \<open>The note carried over from is one of the files, in the same daily-meetings tree, dated
  before this one, and no such file is dated after it; without such a file there is none.\<close>

theorem previousNote_latest:
  "case previousNote path files of
     None \<Rightarrow> notes_root path = [47] \<or> (\<forall>g \<in> set files. \<not> note_candidate path g)
   | Some f \<Rightarrow> f \<in> set files \<and> note_candidate path f
       \<and> (\<forall>g \<in> set files. note_candidate path g \<longrightarrow> \<not> str_less (note_date f) (note_date g))"
  by (rule previousNote_cases)

theorem previousNote_latest_witness:
  "js ''t/daily-meetings/a/2026-09-30.md'' \<in> set [js ''x.md'', js ''t/daily-meetings/a/2026-09-30.md'']
   \<and> note_candidate (js ''t/daily-meetings/b/2026-10-01.md'') (js ''t/daily-meetings/a/2026-09-30.md'')"
proof -
  have "previousNote (js ''t/daily-meetings/b/2026-10-01.md'') [js ''x.md'', js ''t/daily-meetings/a/2026-09-30.md'']
      = Some (js ''t/daily-meetings/a/2026-09-30.md'')" by code_simp
  then show ?thesis
    using previousNote_latest [of "js ''t/daily-meetings/b/2026-10-01.md''"
        "[js ''x.md'', js ''t/daily-meetings/a/2026-09-30.md'']"] by simp
qed

end
