(* ===== verification/Collab.thy ===== *)
theory Collab
  imports Prelude
begin

section \<open>The room of an open document (lib/collab.ts, lib/collabroute.ts)\<close>

text \<open>
  \<open>CollabDoc\<close> as a state machine. The replicated document and the websocket provider are
  third-party code: the machine is driven by the provider's events (\<open>status\<close>, \<open>sync\<close>), the
  unreachable timer, and the calls \<open>stop\<close> and \<open>destroy\<close>; its outputs are the callbacks it was
  constructed with, in the order they are called. \<open>ws\<close> says whether a provider is held.
\<close>

datatype CollabStatus = Connecting | Live | Offline | Solo

datatype collab_out = OnStatus CollabStatus | OnReady | OnUnavailable

record CollabDoc =
  closed :: bool
  reached :: bool
  ws :: bool

definition new_collab :: CollabDoc where
  "new_collab = \<lparr>closed = False, reached = False, ws = False\<rparr>"

definition connect :: "CollabDoc \<Rightarrow> CollabDoc \<times> collab_out list" where
  "connect d = (d\<lparr>ws := True\<rparr>, [OnStatus Connecting])"

definition on_status_event :: "bool \<Rightarrow> bool \<Rightarrow> CollabDoc \<Rightarrow> CollabDoc \<times> collab_out list" where
  "on_status_event connected synced d =
     (if closed d then (d, [])
      else (d, [OnStatus (if connected then if synced then Live else Connecting else Offline)]))"

definition on_sync_event :: "bool \<Rightarrow> CollabDoc \<Rightarrow> CollabDoc \<times> collab_out list" where
  "on_sync_event synced d =
     (if synced \<and> \<not> closed d then (d\<lparr>reached := True\<rparr>, [OnStatus Live, OnReady]) else (d, []))"

definition stop :: "CollabDoc \<Rightarrow> CollabDoc \<times> collab_out list" where
  "stop d = (if closed d then (d, []) else (d\<lparr>closed := True, ws := False\<rparr>, [OnStatus Solo]))"

definition UNREACHABLE_MS :: nat where
  "UNREACHABLE_MS = 8000"

definition on_timeout :: "CollabDoc \<Rightarrow> CollabDoc \<times> collab_out list" where
  "on_timeout d =
     (if closed d \<or> reached d then (d, [])
      else let (d', outs) = stop d in (d', outs @ [OnUnavailable]))"

definition isRemote :: "CollabDoc \<Rightarrow> bool \<Rightarrow> bool" where
  "isRemote d from_provider \<longleftrightarrow> ws d \<and> from_provider"

definition peerCount :: "nat \<Rightarrow> nat" where
  "peerCount states = states - 1"

definition destroy :: "CollabDoc \<Rightarrow> CollabDoc" where
  "destroy d = d\<lparr>closed := True, ws := False\<rparr>"

text \<open>One participant's awareness state: its client id, the head of its cursor and its user name.
  \<open>resolve\<close> stands for the document library's relative positions.\<close>

record 'h awareness =
  client :: nat
  cursor_head :: "'h option"
  user_name :: "jstr option"

definition remoteCursors :: "('h \<Rightarrow> nat option) \<Rightarrow> nat \<Rightarrow> 'h awareness list \<Rightarrow> (jstr \<times> nat) list" where
  "remoteCursors resolve me states =
     concat (map (\<lambda>st.
       if client st = me then []
       else case cursor_head st of
              None \<Rightarrow> []
            | Some h \<Rightarrow> (case resolve h of
                None \<Rightarrow> []
              | Some pos \<Rightarrow> [(case user_name st of None \<Rightarrow> js ''Someone'' | Some n \<Rightarrow> n, pos)])) states)"

text \<open>The selection tint: \<open>colour.replace(/\)$/, " / 0.2)")\<close>.\<close>

definition colour_light :: "jstr \<Rightarrow> jstr" where
  "colour_light c = (if c \<noteq> [] \<and> last c = 41 then butlast c @ js '' / 0.2)'' else c)"

text \<open>\<open>/\/p\/[^/]+\/$/.test(apiBase)\<close>: the last segment before the closing slash is not empty and
  follows \<open>/p/\<close>.\<close>

definition hasCollabRoute :: "jstr \<Rightarrow> bool" where
  "hasCollabRoute apiBase \<longleftrightarrow>
     apiBase \<noteq> [] \<and> last apiBase = 47
     \<and> after_last 47 (butlast apiBase) \<noteq> [] \<and> ends_with (upto_last 47 (butlast apiBase)) (js ''/p/'')"

subsection \<open>Runs of the room\<close>

datatype collab_event = StatusEv bool bool | SyncEv bool | TimeoutEv | StopEv | DestroyEv

definition collab_step :: "collab_event \<Rightarrow> CollabDoc \<Rightarrow> CollabDoc \<times> collab_out list" where
  "collab_step ev d =
     (case ev of
        StatusEv c s \<Rightarrow> on_status_event c s d
      | SyncEv s \<Rightarrow> on_sync_event s d
      | TimeoutEv \<Rightarrow> on_timeout d
      | StopEv \<Rightarrow> stop d
      | DestroyEv \<Rightarrow> (destroy d, []))"

fun collab_run :: "CollabDoc \<Rightarrow> collab_event list \<Rightarrow> CollabDoc \<times> collab_out list" where
  "collab_run d [] = (d, [])"
| "collab_run d (ev # evs) =
     (let (d1, o1) = collab_step ev d; (d2, o2) = collab_run d1 evs in (d2, o1 @ o2))"

lemmas collab_handlers = on_status_event_def on_sync_event_def on_timeout_def stop_def destroy_def

lemma collab_step_mono:
  "closed d \<Longrightarrow> closed (fst (collab_step ev d))"
  "reached d \<Longrightarrow> reached (fst (collab_step ev d))"
  "closed d \<Longrightarrow> reached (fst (collab_step ev d)) = reached d"
  "closed d \<Longrightarrow> snd (collab_step ev d) = []"
  by (cases ev; simp add: collab_step_def collab_handlers Let_def)+

lemma collab_step_out:
  "OnReady \<in> set (snd (collab_step ev d)) \<Longrightarrow> reached (fst (collab_step ev d)) \<and> \<not> closed d"
  "OnUnavailable \<in> set (snd (collab_step ev d)) \<Longrightarrow> \<not> reached d \<and> closed (fst (collab_step ev d))
     \<and> \<not> reached (fst (collab_step ev d))"
  "OnStatus Solo \<in> set (snd (collab_step ev d)) \<Longrightarrow> closed (fst (collab_step ev d))"
  by (cases ev; auto simp: collab_step_def collab_handlers Let_def split: if_splits)+

lemma closed_silent: "closed d \<Longrightarrow> snd (collab_run d evs) = []"
  by (induction evs arbitrary: d) (auto simp: collab_step_mono Let_def split: prod.splits,
      metis collab_step_mono(4) snd_conv, metis collab_step_mono(1) fst_conv snd_conv)

lemma reached_no_unavailable: "reached d \<Longrightarrow> OnUnavailable \<notin> set (snd (collab_run d evs))"
proof (induction evs arbitrary: d)
  case (Cons ev evs)
  then show ?case
    using collab_step_mono(2) [of d ev] collab_step_out(2) [of ev d]
    by (auto simp: Let_def split: prod.splits) (metis fst_conv snd_conv)+
qed simp

lemma ready_xor_unavailable:
  "\<not> (OnReady \<in> set (snd (collab_run d evs)) \<and> OnUnavailable \<in> set (snd (collab_run d evs)))"
proof (induction evs arbitrary: d)
  case (Cons ev evs)
  obtain d1 o1 where s: "collab_step ev d = (d1, o1)" by (cases "collab_step ev d")
  obtain d2 o2 where r: "collab_run d1 evs = (d2, o2)" by (cases "collab_run d1 evs")
  have "\<not> (OnReady \<in> set o1 \<and> OnUnavailable \<in> set o1)"
    using collab_step_out(1,2) [of ev d] s by auto
  moreover have "OnUnavailable \<notin> set o2" if "OnReady \<in> set o1"
    using that reached_no_unavailable [of d1 evs] collab_step_out(1) [of ev d] s r by auto
  moreover have "OnReady \<notin> set o2" if "OnUnavailable \<in> set o1"
    using that closed_silent [of d1 evs] collab_step_out(2) [of ev d] s r by auto
  ultimately show ?case using Cons [of d1] s r by auto
qed simp

lemma solo_last:
  "snd (collab_run d evs) = pre @ OnStatus Solo # post \<Longrightarrow> post = [] \<or> post = [OnUnavailable]"
proof (induction evs arbitrary: d pre)
  case (Cons ev evs)
  obtain d1 o1 where s: "collab_step ev d = (d1, o1)" by (cases "collab_step ev d")
  obtain d2 o2 where r: "collab_run d1 evs = (d2, o2)" by (cases "collab_run d1 evs")
  have eq: "o1 @ o2 = pre @ OnStatus Solo # post" using Cons.prems s r by simp
  show ?case
  proof (cases "OnStatus Solo \<in> set o1")
    case True
    then have "o2 = []" using closed_silent [of d1 evs] collab_step_out(3) [of ev d] s r by simp
    moreover have "o1 = [OnStatus Solo] \<or> o1 = [OnStatus Solo, OnUnavailable]"
      using True s by (cases ev) (auto simp: collab_step_def collab_handlers Let_def split: if_splits)
    ultimately show ?thesis using eq [symmetric] by (auto simp: append_eq_Cons_conv)
  next
    case False
    then obtain pre' where "pre = o1 @ pre'" "o2 = pre' @ OnStatus Solo # post"
      using eq by (auto simp: append_eq_append_conv2 Cons_eq_append_conv append_eq_Cons_conv)
    then show ?thesis using Cons.IH [of d1 pre'] r by simp
  qed
qed simp

subsection \<open>Properties\<close>

text \<open>C29: A room that was connected never both delivers its document and is reported unavailable, and
  once it is reported solo no status, document or second report follows, whatever the provider,
  the timer and the callers do.\<close>

theorem room_verdict_final:
  assumes "snd (collab_run (fst (connect new_collab)) evs) = outs"
  shows "\<not> (OnReady \<in> set outs \<and> OnUnavailable \<in> set outs)
    \<and> (\<forall>pre post. outs = pre @ OnStatus Solo # post \<longrightarrow> post = [] \<or> post = [OnUnavailable])"
  using ready_xor_unavailable solo_last assms by blast

theorem room_verdict_final_witness:
  "snd (collab_run (fst (connect new_collab)) [StatusEv True False, TimeoutEv, SyncEv True]) = [OnStatus Connecting, OnStatus Solo, OnUnavailable]
    \<and> OnReady \<notin> set [OnStatus Connecting, OnStatus Solo, OnUnavailable]"
proof -
  have r: "snd (collab_run (fst (connect new_collab)) [StatusEv True False, TimeoutEv, SyncEv True])
      = [OnStatus Connecting, OnStatus Solo, OnUnavailable]"
    by (simp add: collab_step_def collab_handlers connect_def new_collab_def)
  with room_verdict_final [OF r] show ?thesis by simp
qed

end
