(* ===== verification/SharedFile.thy ===== *)
theory SharedFile
  imports TextDiff Conflict Meeting Collab
begin

section \<open>The open file (lib/sharedfile.ts)\<close>

text \<open>
  \<open>openSharedFile\<close> as a state machine: its closure variables are the record \<open>SharedFile\<close>, each of
  its functions is a definition from a state to the next state, the calls it makes outwards
  (\<open>effect\<close>, in order) and the requests it has awaiting an answer (\<open>job\<close>). An asynchronous
  function is cut at its \<open>await\<close>s: what runs before the first one is the function's definition,
  what runs after each is the definition named after the job. The answers of the hub are
  arbitrary. The shared text is the replicated document's text as this client sees it, and
  \<open>surface\<close> is what the caller's \<open>soloText\<close> returns.
\<close>

datatype SaveState = Clean | Dirty | Saving | Error

datatype MergeResult = Same | Merged | Blocked

record Opts =
  path :: jstr
  apiBase :: jstr
  who :: "jstr option"
  onShrinkRefused :: bool
  soloApply :: bool

record SharedFile =
  saved :: jstr
  base :: "jstr option"
  inFlight :: "jstr set"
  timer :: bool
  asking :: "(nat \<times> nat) option"
  handed :: nat
  shrinkTimer :: bool
  hubHoldsIt :: bool
  gone :: bool
  live :: bool
  pending :: nat
  room :: CollabDoc
  doc :: jstr
  peers :: nat
  surface :: "jstr option"

text \<open>\<open>handed\<close> counts the questions handed to the caller by \<open>onShrinkRefused\<close>. Each is an object whose
  \<open>confirm\<close> and \<open>keep\<close> are closures over this state, so a caller can call them from the moment it
  got the first one, whether or not the question is still \<open>asking\<close>.\<close>

text \<open>The body of a refusal: not JSON of the expected kind, or its \<open>shrink\<close> flag and \<open>sha\<close>.\<close>

datatype refusal = BadBody | Refusal bool "jstr option"

datatype put_result = PutOk "jstr option" | PutHttp nat refusal | PutFailed

datatype head_result = HeadText jstr "jstr option" | HeadOther | HeadFailed

datatype job =
    SavePut jstr
  | RaceFetch jstr refusal
  | RacePut jstr refusal
  | CopyPut jstr jstr jstr
  | ConfirmPut jstr
  | KeepFetch

datatype effect =
    SetState SaveState
  | OnWriting
  | OnSaved jstr
  | PutContent jstr jstr "jstr option" bool
  | FetchHead
  | OnConflictCopy jstr
  | AskShrink nat nat
  | ShrinkWithdrawn
  | OnPending nat
  | CollabStatusChanged CollabStatus
  | FileReady
  | FileSolo
  | SoloApplied "nat text_edit"

type_synonym outcome = "SharedFile \<times> effect list \<times> job list"

text \<open>Doing one operation after another.\<close>

definition after :: "outcome \<Rightarrow> (SharedFile \<Rightarrow> outcome) \<Rightarrow> outcome" where
  "after r f = (case r of (s, e, j) \<Rightarrow> (case f s of (s', e', j') \<Rightarrow> (s', e @ e', j @ j')))"

definition emit :: "effect list \<Rightarrow> SharedFile \<Rightarrow> outcome" where
  "emit es s = (s, es, [])"

subsection \<open>State the operations read\<close>

text \<open>\<open>base ? {"If-Match": base} : {}\<close>\<close>

definition if_match :: "jstr option \<Rightarrow> jstr option" where
  "if_match b = (if truthy b then b else None)"

definition current :: "SharedFile \<Rightarrow> jstr" where
  "current s = (if doc s \<noteq> [] then doc s else (case surface s of None \<Rightarrow> [] | Some t \<Rightarrow> t))"

definition rebase :: "jstr option \<Rightarrow> SharedFile \<Rightarrow> SharedFile" where
  "rebase sha s = (if truthy sha then s\<lparr>base := sha\<rparr> else s)"

definition isShrinkRefusal :: "refusal \<Rightarrow> bool" where
  "isShrinkRefusal b = (case b of BadBody \<Rightarrow> False | Refusal shrink sha \<Rightarrow> shrink)"

subsection \<open>Saving\<close>

definition save :: "Opts \<Rightarrow> jstr \<Rightarrow> SharedFile \<Rightarrow> outcome" where
  "save opts t s =
     (if t \<in> inFlight s then (s, [], [])
      else if t = saved s then (s, [SetState Clean], [])
      else (s\<lparr>inFlight := insert t (inFlight s)\<rparr>,
            [SetState Saving, OnWriting, PutContent (path opts) t (if_match (base s)) False],
            [SavePut t]))"

definition askShrink :: "Opts \<Rightarrow> jstr \<Rightarrow> SharedFile \<Rightarrow> outcome" where
  "askShrink opts t s =
     (if asking s \<noteq> None \<or> gone s \<or> \<not> onShrinkRefused opts then (s, [], [])
      else (s\<lparr>asking := Some (byteLength (saved s), byteLength t), handed := Suc (handed s)\<rparr>,
            [SetState Error, AskShrink (byteLength (saved s)) (byteLength t)], []))"

definition done_flight :: "jstr \<Rightarrow> SharedFile \<Rightarrow> SharedFile" where
  "done_flight t s = s\<lparr>inFlight := inFlight s - {t}\<rparr>"

definition save_put :: "Opts \<Rightarrow> jstr \<Rightarrow> put_result \<Rightarrow> SharedFile \<Rightarrow> outcome" where
  "save_put opts t r s =
     (case r of
        PutOk sha \<Rightarrow> (done_flight t (rebase sha (s\<lparr>saved := t\<rparr>)), [SetState Clean, OnSaved t], [])
      | PutHttp status body \<Rightarrow>
          if status = 422 \<and> isShrinkRefusal body then
            (case askShrink opts t s of (s', e, j) \<Rightarrow> (done_flight t s', e, j))
          else if status = 409 then (done_flight t s, [FetchHead], [RaceFetch t body])
          else (done_flight t s, [SetState Error], [])
      | PutFailed \<Rightarrow> (done_flight t s, [SetState Error], []))"

text \<open>\<open>preserve\<close>: the copy beside the file. Its name holds the moment of the write.\<close>

definition theirs_of :: "refusal \<Rightarrow> jstr" where
  "theirs_of b = (case b of BadBody \<Rightarrow> [] | Refusal _ sha \<Rightarrow> (case sha of None \<Rightarrow> [] | Some x \<Rightarrow> x))"

definition preserve :: "Opts \<Rightarrow> int \<Rightarrow> jstr \<Rightarrow> refusal \<Rightarrow> SharedFile \<Rightarrow> outcome" where
  "preserve opts now t body s =
     (let copy = conflictName (path opts) (str_or (who opts) (js ''browser'')) now
      in (s, [PutContent copy t None False], [CopyPut t (theirs_of body) copy]))"

definition copy_put :: "jstr \<Rightarrow> jstr \<Rightarrow> jstr \<Rightarrow> put_result \<Rightarrow> SharedFile \<Rightarrow> outcome" where
  "copy_put t theirs copy r s =
     (case r of
        PutOk _ \<Rightarrow> (done_flight t (s\<lparr>saved := t, base := Some theirs\<rparr>), [SetState Clean, OnConflictCopy copy], [])
      | _ \<Rightarrow> (done_flight t s, [SetState Error], []))"

text \<open>\<open>rebaseOnLostRace\<close>, from the answer to its read and from the answer to its retry; an answer
  that settles nothing goes on to \<open>preserve\<close>.\<close>

definition race_fetch :: "Opts \<Rightarrow> int \<Rightarrow> jstr \<Rightarrow> refusal \<Rightarrow> head_result \<Rightarrow> SharedFile \<Rightarrow> outcome" where
  "race_fetch opts now t body r s =
     (case r of
        HeadText h sha \<Rightarrow>
          if \<not> truthy sha then preserve opts now t body s
          else if contained t h then (done_flight t (rebase sha (s\<lparr>saved := h\<rparr>)), [SetState Clean], [])
          else if \<not> contained h t then preserve opts now t body s
          else (let s' = rebase sha s
                in (s', [PutContent (path opts) t (if_match (base s')) False], [RacePut t body]))
      | _ \<Rightarrow> preserve opts now t body s)"

definition race_put :: "Opts \<Rightarrow> int \<Rightarrow> jstr \<Rightarrow> refusal \<Rightarrow> put_result \<Rightarrow> SharedFile \<Rightarrow> outcome" where
  "race_put opts now t body r s =
     (case r of
        PutOk sha \<Rightarrow> (done_flight t (rebase sha (s\<lparr>saved := t\<rparr>)), [SetState Clean, OnSaved t], [])
      | _ \<Rightarrow> preserve opts now t body s)"

subsection \<open>Changes of the document\<close>

definition onDocChange :: "bool \<Rightarrow> SharedFile \<Rightarrow> outcome" where
  "onDocChange from_provider s =
     (if isRemote (room s) from_provider then (s, [], [])
      else
        let s1 = (if hubHoldsIt s \<and> \<not> live s then s\<lparr>pending := pending s + 1\<rparr> else s);
            e1 = (if hubHoldsIt s \<and> \<not> live s then [OnPending (pending s1)] else []);
            s2 = (if hubHoldsIt s then s1\<lparr>shrinkTimer := True\<rparr> else s1\<lparr>timer := True\<rparr>)
        in (s2, SetState Dirty # e1, []))"

definition splice_text :: "nat text_edit \<Rightarrow> SharedFile \<Rightarrow> outcome" where
  "splice_text e s = onDocChange False (s\<lparr>doc := apply_edit e (doc s)\<rparr>)"

text \<open>A call of \<open>soloApply\<close>: the change is handed to the caller's own buffer.\<close>

definition solo_splice :: "nat text_edit \<Rightarrow> SharedFile \<Rightarrow> outcome" where
  "solo_splice e s = (s, [SoloApplied e], [])"

subsection \<open>The shrink question\<close>

definition watchShrink_fired :: "Opts \<Rightarrow> SharedFile \<Rightarrow> outcome" where
  "watchShrink_fired opts s =
     (let s' = s\<lparr>shrinkTimer := False\<rparr>; t = current s'
      in if sharpShrink (byteLength (saved s')) (byteLength t) then askShrink opts t s' else (s', [], []))"

definition confirm :: "Opts \<Rightarrow> SharedFile \<Rightarrow> outcome" where
  "confirm opts s =
     (if gone s then (s, [], [])
      else let now = current s
           in (s, [SetState Saving, OnWriting, PutContent (path opts) now (if_match (base s)) True], [ConfirmPut now]))"

definition confirm_put :: "jstr \<Rightarrow> put_result \<Rightarrow> SharedFile \<Rightarrow> outcome" where
  "confirm_put now r s =
     (case r of
        PutOk sha \<Rightarrow> ((rebase sha (s\<lparr>saved := now\<rparr>))\<lparr>asking := None\<rparr>, [SetState Clean, OnSaved now], [])
      | _ \<Rightarrow> (s\<lparr>asking := None\<rparr>, [SetState Error], []))"

definition keep :: "SharedFile \<Rightarrow> outcome" where
  "keep s = (if gone s then (s, [], []) else (s, [FetchHead], [KeepFetch]))"

definition keep_fetch :: "Opts \<Rightarrow> head_result \<Rightarrow> SharedFile \<Rightarrow> outcome" where
  "keep_fetch opts r s =
     (case r of
        HeadFailed \<Rightarrow> (s\<lparr>asking := None\<rparr>, [SetState Error], [])
      | HeadOther \<Rightarrow> (s\<lparr>asking := None\<rparr>, [], [])
      | HeadText h sha \<Rightarrow>
          if gone s then (s\<lparr>asking := None\<rparr>, [], [])
          else
            let s1 = rebase sha (s\<lparr>saved := h\<rparr>);
                r1 = (case textEdit (current s) h of
                        None \<Rightarrow> (s1, [], [])
                      | Some e \<Rightarrow>
                          if doc s \<noteq> [] \<or> hubHoldsIt s then splice_text e s1
                          else if soloApply opts then solo_splice e s1 else (s1, [], []))
            in after r1 (\<lambda>s2. (s2\<lparr>asking := None\<rparr>, [SetState Clean], [])))"

subsection \<open>Outside writes\<close>

definition merge :: "Opts \<Rightarrow> jstr \<Rightarrow> jstr option \<Rightarrow> bool \<Rightarrow> SharedFile \<Rightarrow> MergeResult \<times> outcome" where
  "merge opts nxt sha held s =
     (if held then (Same, rebase sha (s\<lparr>saved := nxt\<rparr>), [], [])
      else if nxt = saved s \<or> nxt \<in> inFlight s then (Same, rebase sha s, [], [])
      else
        let cur = current s
        in if nxt = cur then
             (Same, rebase sha (s\<lparr>saved := nxt\<rparr>), if hubHoldsIt s then [SetState Clean] else [], [])
           else
             let oursContainsTheirs = contained nxt cur
             in if cur \<noteq> saved s \<or> peers s > 0 then
                  (Blocked, (if oursContainsTheirs then rebase sha s else s), [], [])
                else
                  (case textEdit cur nxt of
                     None \<Rightarrow> (Same, s, [], [])
                   | Some e \<Rightarrow>
                       if doc s = [] \<and> \<not> soloApply opts then (Blocked, s, [], [])
                       else
                         let s1 = rebase sha (s\<lparr>saved := nxt\<rparr>)
                         in (Merged, if doc s \<noteq> [] then splice_text e s1 else solo_splice e s1)))"

subsection \<open>The room\<close>

definition onCollabStatus :: "CollabStatus \<Rightarrow> SharedFile \<Rightarrow> outcome" where
  "onCollabStatus st s =
     (let e0 = (if st = Live \<and> pending s > 0 then [OnPending 0] else []);
          s1 = (if st = Live then s\<lparr>hubHoldsIt := True, pending := 0\<rparr> else s)
      in (s1\<lparr>live := (st = Live)\<rparr>, e0 @ [CollabStatusChanged st], []))"

definition room_out :: "collab_out \<Rightarrow> SharedFile \<Rightarrow> outcome" where
  "room_out o' s =
     (case o' of
        OnStatus st \<Rightarrow> onCollabStatus st s
      | OnReady \<Rightarrow> (s, [FileReady], [])
      | OnUnavailable \<Rightarrow> (s, [FileSolo], []))"

fun room_outs :: "collab_out list \<Rightarrow> SharedFile \<Rightarrow> outcome" where
  "room_outs [] s = (s, [], [])"
| "room_outs (o' # os) s = after (room_out o' s) (room_outs os)"

definition room_event :: "collab_event \<Rightarrow> SharedFile \<Rightarrow> outcome" where
  "room_event ev s =
     (case collab_step ev (room s) of (d, os) \<Rightarrow> room_outs os (s\<lparr>room := d\<rparr>))"

text \<open>The deferred callback of a server without a room route.\<close>

definition no_route_task :: "SharedFile \<Rightarrow> outcome" where
  "no_route_task s =
     (if gone s then (s, [], [])
      else after (room_event StopEv s) (emit [FileSolo]))"

definition openSharedFile :: "Opts \<Rightarrow> jstr \<Rightarrow> jstr option \<Rightarrow> outcome" where
  "openSharedFile opts seed baseSha =
     (let s = \<lparr>saved = seed, base = baseSha, inFlight = {}, timer = False, asking = None, handed = 0,
               shrinkTimer = False, hubHoldsIt = False, gone = False, live = False, pending = 0,
               room = new_collab, doc = [], peers = 0, surface = None\<rparr>
      in if hasCollabRoute (apiBase opts) then
           (case connect (room s) of (d, os) \<Rightarrow> room_outs os (s\<lparr>room := d\<rparr>))
         else (s, [], []))"

subsection \<open>The caller's side\<close>

definition save_timer_fired :: "Opts \<Rightarrow> SharedFile \<Rightarrow> outcome" where
  "save_timer_fired opts s = save opts (doc s) (s\<lparr>timer := False\<rparr>)"

definition saveNow :: "Opts \<Rightarrow> SharedFile \<Rightarrow> outcome" where
  "saveNow opts s = (if hubHoldsIt s then (s, [], []) else save opts (current s) s)"

definition destroy_file :: "Opts \<Rightarrow> SharedFile \<Rightarrow> outcome" where
  "destroy_file opts s =
     (let s1 = s\<lparr>timer := False, shrinkTimer := False, gone := True\<rparr>; t = current s1
      in after
           (if asking s1 \<noteq> None then (s1, [ShrinkWithdrawn], [])
            else if \<not> hubHoldsIt s1 \<and> t \<noteq> [] \<and> t \<noteq> saved s1 then save opts t s1
            else (s1, [], []))
           (\<lambda>s2. (s2\<lparr>room := destroy (room s2)\<rparr>, [], [])))"


text \<open>The source editor's solo surface (components/Editor.tsx): an edit of its own buffer.\<close>

definition solo_change :: "jstr \<Rightarrow> SharedFile \<Rightarrow> outcome" where
  "solo_change t s = (s\<lparr>surface := Some t\<rparr>, [SetState Dirty], [])"

definition local_edit :: "jstr \<Rightarrow> SharedFile \<Rightarrow> outcome" where
  "local_edit t s = onDocChange False (s\<lparr>doc := t\<rparr>)"

definition remote_edit :: "jstr \<Rightarrow> SharedFile \<Rightarrow> outcome" where
  "remote_edit t s = onDocChange True (s\<lparr>doc := t\<rparr>)"

subsection \<open>Answers and steps\<close>

datatype answer = PutAnswer put_result | HeadAnswer head_result

text \<open>What runs when a job's answer arrives.\<close>

fun resume :: "Opts \<Rightarrow> int \<Rightarrow> job \<Rightarrow> answer \<Rightarrow> SharedFile \<Rightarrow> outcome option" where
  "resume opts now (SavePut t) (PutAnswer r) s = Some (save_put opts t r s)"
| "resume opts now (RaceFetch t b) (HeadAnswer r) s = Some (race_fetch opts now t b r s)"
| "resume opts now (RacePut t b) (PutAnswer r) s = Some (race_put opts now t b r s)"
| "resume opts now (CopyPut t th c) (PutAnswer r) s = Some (copy_put t th c r s)"
| "resume opts now (ConfirmPut t) (PutAnswer r) s = Some (confirm_put t r s)"
| "resume opts now KeepFetch (HeadAnswer r) s = Some (keep_fetch opts r s)"
| "resume opts now _ _ s = None"

text \<open>The configurations of an open file: its state and the requests that await an answer. The user
  can answer a shrink question once one has been handed out; like the code, the two answers test
  only that the file is not closed. The
  provider reports itself synced only once the document has arrived.\<close>

definition provider_ok :: "collab_event \<Rightarrow> SharedFile \<Rightarrow> bool" where
  "provider_ok ev s \<longleftrightarrow> (case ev of StatusEv c synced \<Rightarrow> synced \<longrightarrow> reached (room s) | StopEv \<Rightarrow> False
     | DestroyEv \<Rightarrow> False | _ \<Rightarrow> True)"

definition runs :: "outcome \<Rightarrow> job list \<Rightarrow> effect list \<Rightarrow> SharedFile \<times> job list \<Rightarrow> bool" where
  "runs r q es c \<longleftrightarrow> (case r of (s', e, j) \<Rightarrow> es = e \<and> c = (s', q @ j))"

inductive sf_step :: "Opts \<Rightarrow> SharedFile \<times> job list \<Rightarrow> effect list \<Rightarrow> SharedFile \<times> job list \<Rightarrow> bool"
  for opts :: Opts where
  room: "hasCollabRoute (apiBase opts) \<Longrightarrow> provider_ok ev s \<Longrightarrow> runs (room_event ev s) q es c \<Longrightarrow> sf_step opts (s, q) es c"
| no_route: "\<not> hasCollabRoute (apiBase opts) \<Longrightarrow> runs (no_route_task s) q es c \<Longrightarrow> sf_step opts (s, q) es c"
| typed: "\<not> gone s \<Longrightarrow> runs (local_edit t s) q es c \<Longrightarrow> sf_step opts (s, q) es c"
| received: "\<not> gone s \<Longrightarrow> ws (room s) \<Longrightarrow> runs (remote_edit t s) q es c \<Longrightarrow> sf_step opts (s, q) es c"
| solo_typed: "runs (solo_change t s) q es c \<Longrightarrow> sf_step opts (s, q) es c"
| peers: "sf_step opts (s, q) [] (s\<lparr>peers := n\<rparr>, q)"
| idle: "timer s \<Longrightarrow> runs (save_timer_fired opts s) q es c \<Longrightarrow> sf_step opts (s, q) es c"
| shrink: "shrinkTimer s \<Longrightarrow> runs (watchShrink_fired opts s) q es c \<Longrightarrow> sf_step opts (s, q) es c"
| outside: "runs (snd (merge opts nxt sha held s)) q es c \<Longrightarrow> sf_step opts (s, q) es c"
| rebased: "sf_step opts (s, q) [] (rebase sha s, q)"
| save_now: "runs (saveNow opts s) q es c \<Longrightarrow> sf_step opts (s, q) es c"
| confirmed: "handed s > 0 \<Longrightarrow> runs (confirm opts s) q es c \<Longrightarrow> sf_step opts (s, q) es c"
| kept: "handed s > 0 \<Longrightarrow> runs (keep s) q es c \<Longrightarrow> sf_step opts (s, q) es c"
| closing: "\<not> gone s \<Longrightarrow> runs (destroy_file opts s) q es c \<Longrightarrow> sf_step opts (s, q) es c"
| answered: "j \<in> set q \<Longrightarrow> resume opts now j a s = Some r \<Longrightarrow> runs r (remove1 j q) es c \<Longrightarrow>
    sf_step opts (s, q) es c"

inductive sf_reach :: "Opts \<Rightarrow> jstr \<Rightarrow> jstr option \<Rightarrow> SharedFile \<times> job list \<Rightarrow> bool"
  for opts :: Opts and seed :: jstr and sha0 :: "jstr option" where
  opened: "runs (openSharedFile opts seed sha0) [] es c \<Longrightarrow> sf_reach opts seed sha0 c"
| stepped: "sf_reach opts seed sha0 c \<Longrightarrow> sf_step opts c es c' \<Longrightarrow> sf_reach opts seed sha0 c'"


text \<open>A run of steps with everything it called outwards.\<close>

inductive sf_run :: "Opts \<Rightarrow> SharedFile \<times> job list \<Rightarrow> effect list \<Rightarrow> SharedFile \<times> job list \<Rightarrow> bool"
  for opts :: Opts where
  run_refl: "sf_run opts c [] c"
| run_step: "sf_run opts c es c' \<Longrightarrow> sf_step opts c' es' c'' \<Longrightarrow> sf_run opts c (es @ es') c''"

inductive_cases sf_stepE: "sf_step opts (s, q) es c"

lemmas save_ops = save_def askShrink_def done_flight_def save_put_def preserve_def copy_put_def
  race_fetch_def race_put_def rebase_def

lemmas doc_ops = onDocChange_def splice_text_def solo_splice_def local_edit_def remote_edit_def solo_change_def

lemmas ask_ops = watchShrink_fired_def confirm_def confirm_put_def keep_def keep_fetch_def

lemmas file_ops = merge_def save_timer_fired_def saveNow_def destroy_file_def

lemmas room_ops = room_event_def collab_step_def collab_handlers room_out_def onCollabStatus_def no_route_task_def

lemmas glue = after_def emit_def Let_def

subsection \<open>What each operation keeps\<close>

text \<open>Outside the room's own events nothing but a local edit made offline touches the room's fields.\<close>

definition room_inv :: "Opts \<Rightarrow> SharedFile \<Rightarrow> bool" where
  "room_inv opts s \<longleftrightarrow> (live s \<longrightarrow> hubHoldsIt s \<and> pending s = 0) \<and> (hubHoldsIt s \<longrightarrow> reached (room s))
     \<and> (\<not> hasCollabRoute (apiBase opts) \<longrightarrow> \<not> reached (room s))"

definition same_room :: "SharedFile \<Rightarrow> SharedFile \<Rightarrow> bool" where
  "same_room s s' \<longleftrightarrow> live s' = live s \<and> hubHoldsIt s' = hubHoldsIt s \<and> reached (room s') = reached (room s)
     \<and> (closed (room s) \<longrightarrow> closed (room s')) \<and> (live s \<longrightarrow> pending s' = pending s)"

lemma same_room_inv: "room_inv opts s \<Longrightarrow> same_room s s' \<Longrightarrow> room_inv opts s'"
  by (auto simp: room_inv_def same_room_def)

lemma same_room_refl [simp]: "same_room s s"
  by (simp add: same_room_def)

lemma same_room_trans: "same_room s s' \<Longrightarrow> same_room s' s'' \<Longrightarrow> same_room s s''"
  by (auto simp: same_room_def)

lemma rebase_same [simp]: "same_room s (rebase sha s)" "inFlight (rebase sha s) = inFlight s"
  "doc (rebase sha s) = doc s" "surface (rebase sha s) = surface s" "saved (rebase sha s) = saved s"
  "hubHoldsIt (rebase sha s) = hubHoldsIt s" "timer (rebase sha s) = timer s" "room (rebase sha s) = room s"
  "gone (rebase sha s) = gone s" "asking (rebase sha s) = asking s" "live (rebase sha s) = live s"
  "pending (rebase sha s) = pending s" "peers (rebase sha s) = peers s"
  by (simp_all add: rebase_def same_room_def)

lemma save_room: "same_room s (fst (save opts t s))"
  by (simp add: save_def same_room_def)

lemma askShrink_room: "same_room s (fst (askShrink opts t s))"
  by (simp add: askShrink_def same_room_def)

lemma resume_room: "resume opts now j a s = Some r \<Longrightarrow> same_room s (fst r)"
  by (cases "(opts, now, j, a, s)" rule: resume.cases)
    (auto simp: save_ops ask_ops doc_ops glue same_room_def
      split: put_result.splits head_result.splits option.splits if_splits prod.splits)

lemma onDocChange_room: "same_room s (fst (onDocChange b s))"
  by (simp add: onDocChange_def same_room_def Let_def)

lemma splice_room: "same_room s s' \<Longrightarrow> same_room s (fst (splice_text e s'))"
  unfolding splice_text_def
  by (rule same_room_trans [OF _ onDocChange_room]) (simp add: same_room_def)

lemma merge_room: "same_room s (fst (snd (merge opts nxt sha held s)))"
  by (auto simp: merge_def Let_def solo_splice_def intro!: splice_room split: option.splits)
    (auto simp: same_room_def rebase_def)

lemma destroy_room: "same_room s (fst (destroy_file opts s))"
  by (auto simp: destroy_file_def glue save_def same_room_def destroy_def split: prod.splits)

lemma room_event_inv:
  assumes "room_inv opts s" "hasCollabRoute (apiBase opts)" "provider_ok ev s"
  shows "room_inv opts (fst (room_event ev s))"
  using assms
  by (cases ev)
    (auto simp: room_inv_def room_ops glue provider_ok_def split: if_splits CollabStatus.splits)


lemma no_route_inv:
  assumes "room_inv opts s" "\<not> hasCollabRoute (apiBase opts)"
  shows "room_inv opts (fst (no_route_task s))"
  using assms
  by (auto simp: room_inv_def room_ops glue split: if_splits)

lemma step_room_inv:
  assumes "sf_step opts c es c'" "room_inv opts (fst c)"
  shows "room_inv opts (fst c')"
  using assms
proof (induction rule: sf_step.induct)
  case (room ev s q es c)
  then show ?case using room_event_inv [of opts s ev] by (auto simp: runs_def split: prod.splits)
next
  case (no_route s q es c)
  then show ?case using no_route_inv [of opts s] by (auto simp: runs_def split: prod.splits)
next
  case (typed s t q es c)
  then show ?case
    using same_room_inv [of opts s "fst (local_edit t s)"] onDocChange_room [of "s\<lparr>doc := t\<rparr>" False]
    by (auto simp: runs_def local_edit_def same_room_def split: prod.splits)
next
  case (received s t q es c)
  then show ?case
    using same_room_inv [of opts s "fst (remote_edit t s)"] onDocChange_room [of "s\<lparr>doc := t\<rparr>" True]
    by (auto simp: runs_def remote_edit_def same_room_def split: prod.splits)
next
  case (idle s q es c)
  then show ?case
    using same_room_inv [of opts s "fst (save_timer_fired opts s)"] save_room [of "s\<lparr>timer := False\<rparr>" opts "doc s"]
    by (auto simp: runs_def save_timer_fired_def same_room_def split: prod.splits)
next
  case (shrink s q es c)
  then show ?case
    using same_room_inv [of opts s "fst (watchShrink_fired opts s)"]
    by (auto simp: runs_def watchShrink_fired_def askShrink_def same_room_def Let_def split: prod.splits if_splits)
next
  case (outside nxt sha held s q es c)
  then show ?case
    using same_room_inv [OF _ merge_room [of s opts nxt sha held]] by (auto simp: runs_def split: prod.splits)
next
  case (save_now s q es c)
  then show ?case
    using same_room_inv [OF _ save_room [of s opts "current s"]]
    by (auto simp: runs_def saveNow_def split: prod.splits if_splits)
next
  case (closing s q es c)
  then show ?case
    using same_room_inv [OF _ destroy_room [of s opts]] by (auto simp: runs_def split: prod.splits)
next
  case (answered j q now a s r es c)
  then show ?case
    using same_room_inv [OF _ resume_room [OF answered(2)]] by (auto simp: runs_def split: prod.splits)
qed (auto simp: runs_def room_inv_def solo_change_def confirm_def keep_def Let_def split: if_splits)

lemma open_room_inv: "room_inv opts (fst (openSharedFile opts seed sha0))"
  by (simp add: openSharedFile_def room_inv_def new_collab_def connect_def room_out_def onCollabStatus_def glue)

lemma reach_room_inv: "sf_reach opts seed sha0 c \<Longrightarrow> room_inv opts (fst c)"
proof (induction rule: sf_reach.induct)
  case (opened es c)
  then show ?case using open_room_inv [of opts seed sha0] by (auto simp: runs_def split: prod.splits)
qed (rule step_room_inv)

subsection \<open>Solo is final\<close>

definition given_up :: "SharedFile \<Rightarrow> bool" where
  "given_up s \<longleftrightarrow> closed (room s) \<and> \<not> reached (room s)"

lemma same_room_given_up: "same_room s s' \<Longrightarrow> given_up s \<Longrightarrow> given_up s'"
  by (simp add: same_room_def given_up_def)

lemma step_given_up:
  assumes "sf_step opts c es c'" "given_up (fst c)"
  shows "given_up (fst c') \<and> FileReady \<notin> set es"
  using assms
proof (induction rule: sf_step.induct)
  case (room ev s q es c)
  then show ?case by (cases ev) (auto simp: runs_def room_ops glue given_up_def split: if_splits)
next
  case (no_route s q es c)
  then show ?case by (auto simp: runs_def room_ops glue given_up_def split: if_splits)
next
  case (outside nxt sha held s q es c)
  then show ?case
    using same_room_given_up [OF merge_room [of s opts nxt sha held]]
    by (auto simp: runs_def merge_def doc_ops Let_def split: option.splits if_splits prod.splits)
next
  case (answered j q now a s r es c)
  from answered(2) have "FileReady \<notin> set (fst (snd r))"
    by (cases "(opts, now, j, a, s)" rule: resume.cases)
      (auto simp: save_ops ask_ops doc_ops glue
        split: put_result.splits head_result.splits option.splits if_splits prod.splits)
  with answered show ?case
    using same_room_given_up [OF resume_room [OF answered(2)]] by (auto simp: runs_def split: prod.splits)
qed (auto simp: runs_def given_up_def doc_ops ask_ops file_ops save_def askShrink_def glue destroy_def
      split: if_splits prod.splits)

lemma step_solo:
  assumes "sf_step opts c es c'" "FileSolo \<in> set es" "room_inv opts (fst c)"
  shows "given_up (fst c')"
  using assms
proof (induction rule: sf_step.induct)
  case (room ev s q es c)
  then show ?case by (cases ev) (auto simp: runs_def room_ops glue given_up_def split: if_splits)
next
  case (no_route s q es c)
  then show ?case by (auto simp: runs_def room_ops glue given_up_def room_inv_def split: if_splits)
next
  case (outside nxt sha held s q es c)
  then show ?case
    by (auto simp: runs_def merge_def doc_ops Let_def split: option.splits if_splits prod.splits)
next
  case (answered j q now a s r es c)
  from answered(2) have "FileSolo \<notin> set (fst (snd r))"
    by (cases "(opts, now, j, a, s)" rule: resume.cases)
      (auto simp: save_ops ask_ops doc_ops glue
        split: put_result.splits head_result.splits option.splits if_splits prod.splits)
  with answered show ?case by (auto simp: runs_def split: prod.splits)
qed (auto simp: runs_def doc_ops ask_ops file_ops save_def askShrink_def glue
      split: if_splits prod.splits)

lemma run_given_up:
  "sf_run opts c es c' \<Longrightarrow> given_up (fst c) \<Longrightarrow> given_up (fst c') \<and> FileReady \<notin> set es"
  by (induction rule: sf_run.induct) (auto dest: step_given_up)

lemma run_reach: "sf_run opts c es c' \<Longrightarrow> sf_reach opts seed sha0 c \<Longrightarrow> sf_reach opts seed sha0 c'"
  by (induction rule: sf_run.induct) (auto intro: sf_reach.stepped)


subsection \<open>Texts in flight\<close>

definition flight_inv :: "SharedFile \<times> job list \<Rightarrow> bool" where
  "flight_inv c \<longleftrightarrow> (\<forall>t \<in> inFlight (fst c). SavePut t \<in> set (snd c))"

definition flight_grows :: "SharedFile \<Rightarrow> outcome \<Rightarrow> bool" where
  "flight_grows s r \<longleftrightarrow> (case r of (s', e, j) \<Rightarrow> \<forall>t \<in> inFlight s'. t \<in> inFlight s \<or> SavePut t \<in> set j)"

lemma runs_flight: "runs r q es c \<Longrightarrow> flight_grows s r \<Longrightarrow> flight_inv (s, q) \<Longrightarrow> flight_inv c"
  by (auto simp: runs_def flight_grows_def flight_inv_def split: prod.splits)

lemma room_out_flight: "inFlight (fst (room_out o' s)) = inFlight s"
  by (cases o') (simp_all add: room_out_def onCollabStatus_def Let_def)

lemma after_fst: "fst (after r f) = fst (f (fst r))"
  by (cases r; cases "f (fst r)") (simp add: after_def)

lemma room_outs_flight: "inFlight (fst (room_outs os s)) = inFlight s"
  by (induction os arbitrary: s) (simp_all add: after_fst room_out_flight)

lemma flight_same: "inFlight (fst r) = inFlight s \<Longrightarrow> flight_grows s r"
  by (cases r) (simp add: flight_grows_def)

lemma room_flight: "flight_grows s (room_event ev s)" "flight_grows s (no_route_task s)"
proof -
  have e: "inFlight (fst (room_event ev s)) = inFlight s" for ev
    by (simp add: room_event_def room_outs_flight split: prod.splits)
  then show "flight_grows s (room_event ev s)" by (rule flight_same)
  show "flight_grows s (no_route_task s)"
    by (rule flight_same) (simp add: no_route_task_def after_fst emit_def e)
qed

lemma ops_flight:
  "flight_grows s (local_edit t s)"
  "flight_grows s (remote_edit t s)" "flight_grows s (solo_change t s)"
  "flight_grows s (save_timer_fired opts s)" "flight_grows s (watchShrink_fired opts s)"
  "flight_grows s (saveNow opts s)" "flight_grows s (confirm opts s)" "flight_grows s (keep s)"
  "flight_grows s (destroy_file opts s)"
  by (simp_all add: flight_grows_def doc_ops ask_ops file_ops save_def askShrink_def glue)

lemma merge_flight: "flight_grows s (snd (merge opts nxt sha held s))"
  by (auto simp: flight_grows_def merge_def doc_ops Let_def rebase_def split: option.splits if_splits prod.splits)

lemma resume_flight:
  assumes "resume opts now j a s = Some (s', e, js')" "t \<in> inFlight s'"
  shows "t \<in> inFlight s \<and> j \<noteq> SavePut t \<or> SavePut t \<in> set js'"
  using assms
  by (cases "(opts, now, j, a, s)" rule: resume.cases)
    (auto simp: save_ops ask_ops doc_ops glue
      split: put_result.splits head_result.splits option.splits if_splits prod.splits)

lemma step_flight:
  assumes "sf_step opts c es c'" "flight_inv c"
  shows "flight_inv c'"
  using assms
proof (induction rule: sf_step.induct)
  case (answered j q now a s r es c)
  obtain s' e q' where r: "r = (s', e, q')" by (cases r)
  have "SavePut t \<in> set (remove1 j q @ q')" if "t \<in> inFlight s'" for t
    using resume_flight [of opts now j a s s' e q' t] answered(2,4) that
    by (auto simp: r flight_inv_def)
  with answered(3) show ?case by (auto simp: r runs_def flight_inv_def)
qed ((rule runs_flight, assumption, rule room_flight ops_flight merge_flight, assumption) | simp add: flight_inv_def)+

lemma reach_flight: "sf_reach opts seed sha0 c \<Longrightarrow> flight_inv c"
proof (induction rule: sf_reach.induct)
  case (opened es c)
  then show ?case
    by (auto simp: runs_def openSharedFile_def flight_inv_def connect_def room_out_def onCollabStatus_def glue
        split: if_splits prod.splits)
qed (rule step_flight)

subsection \<open>A hub-held room is written by the hub\<close>

definition quiet :: "SharedFile \<times> job list \<Rightarrow> bool" where
  "quiet c \<longleftrightarrow> hubHoldsIt (fst c) \<and> \<not> timer (fst c)
     \<and> list_all (\<lambda>j. j = KeepFetch \<or> (\<exists>t. j = ConfirmPut t)) (snd c)"

definition only_confirmed :: "effect list \<Rightarrow> bool" where
  "only_confirmed es \<longleftrightarrow> list_all (\<lambda>e. case e of PutContent p t b conf \<Rightarrow> conf | _ \<Rightarrow> True) es"

definition quiet_out :: "SharedFile \<Rightarrow> outcome \<Rightarrow> bool" where
  "quiet_out s r \<longleftrightarrow> (case r of (s', e, j) \<Rightarrow> hubHoldsIt s' \<and> (\<not> timer s \<longrightarrow> \<not> timer s')
     \<and> list_all (\<lambda>j. j = KeepFetch \<or> (\<exists>t. j = ConfirmPut t)) j \<and> only_confirmed e)"

lemma runs_quiet: "runs r q es c \<Longrightarrow> quiet_out s r \<Longrightarrow> quiet (s, q) \<Longrightarrow> quiet c \<and> only_confirmed es"
  by (auto simp: runs_def quiet_def quiet_out_def split: prod.splits)

lemma room_outs_quiet: "hubHoldsIt s \<Longrightarrow> quiet_out s (room_outs os s)"
proof (induction os arbitrary: s)
  case (Cons o' os)
  have h: "quiet_out s (room_out o' s)"
    using Cons.prems
    by (cases o') (auto simp: quiet_out_def room_out_def onCollabStatus_def Let_def only_confirmed_def)
  obtain s1 e1 j1 where r1: "room_out o' s = (s1, e1, j1)" by (cases "room_out o' s")
  obtain s2 e2 j2 where r2: "room_outs os s1 = (s2, e2, j2)" by (cases "room_outs os s1")
  have "quiet_out s1 (s2, e2, j2)" using Cons.IH [of s1] h r1 r2 by (simp add: quiet_out_def)
  with h r1 r2 show ?case by (auto simp: quiet_out_def after_def only_confirmed_def)
qed (simp add: quiet_out_def only_confirmed_def)

lemma room_event_quiet: "hubHoldsIt s \<Longrightarrow> quiet_out s (room_event ev s)"
  using room_outs_quiet [of "s\<lparr>room := fst (collab_step ev (room s))\<rparr>" "snd (collab_step ev (room s))"]
  by (auto simp: room_event_def quiet_out_def split: prod.splits)

lemma no_route_quiet: "hubHoldsIt s \<Longrightarrow> quiet_out s (no_route_task s)"
  using room_event_quiet [of s StopEv]
  by (auto simp: no_route_task_def quiet_out_def after_def emit_def only_confirmed_def split: prod.splits)

lemma ops_quiet:
  assumes "hubHoldsIt s"
  shows "quiet_out s (local_edit t s)" "quiet_out s (remote_edit t s)" "quiet_out s (solo_change t s)"
    "quiet_out s (watchShrink_fired opts s)" "quiet_out s (saveNow opts s)" "quiet_out s (confirm opts s)"
    "quiet_out s (keep s)" "quiet_out s (destroy_file opts s)" "quiet_out s (snd (merge opts nxt sha held s))"
  using assms
  by (auto simp: quiet_out_def doc_ops ask_ops file_ops askShrink_def glue only_confirmed_def
      split: if_splits option.splits prod.splits)

lemma resume_quiet:
  assumes "hubHoldsIt s" "j = KeepFetch \<or> (\<exists>t. j = ConfirmPut t)" "resume opts now j a s = Some r"
  shows "quiet_out s r"
  using assms
  by (cases "(opts, now, j, a, s)" rule: resume.cases)
    (auto simp: quiet_out_def ask_ops doc_ops glue only_confirmed_def
      split: put_result.splits head_result.splits option.splits if_splits prod.splits)

lemma step_quiet:
  assumes "sf_step opts c es c'" "quiet c"
  shows "quiet c' \<and> only_confirmed es"
  using assms
proof (induction rule: sf_step.induct)
  case (answered j q now a s r es c)
  from answered(1,4) have "hubHoldsIt s" "j = KeepFetch \<or> (\<exists>t. j = ConfirmPut t)"
    by (auto simp: quiet_def list_all_iff)
  then have "quiet_out s r" using answered(2) by (rule resume_quiet)
  moreover have "quiet (s, remove1 j q)"
    using answered(4) by (auto simp: quiet_def list_all_iff dest: notin_set_remove1)
  ultimately show ?case using answered(3) runs_quiet by blast
next
  case (idle s q es c)
  then show ?case by (simp add: quiet_def)
qed ((rule runs_quiet, assumption, rule room_event_quiet no_route_quiet ops_quiet, simp add: quiet_def,
      assumption) | simp add: quiet_def only_confirmed_def)+

lemma run_quiet: "sf_run opts c es c' \<Longrightarrow> quiet c \<Longrightarrow> quiet c' \<and> only_confirmed es"
  by (induction rule: sf_run.induct) (auto simp: only_confirmed_def dest: step_quiet)


subsection \<open>What a save can end in\<close>

text \<open>How many requests a job can still lead to, its own included.\<close>

fun job_rank :: "job \<Rightarrow> nat" where
  "job_rank (SavePut t) = 4"
| "job_rank (RaceFetch t b) = 3"
| "job_rank (RacePut t b) = 2"
| "job_rank (CopyPut t th c) = 1"
| "job_rank (ConfirmPut t) = 1"
| "job_rank KeepFetch = 1"

fun job_text :: "job \<Rightarrow> jstr option" where
  "job_text (SavePut t) = Some t"
| "job_text (RaceFetch t b) = Some t"
| "job_text (RacePut t b) = Some t"
| "job_text (CopyPut t th c) = Some t"
| "job_text (ConfirmPut t) = Some t"
| "job_text KeepFetch = None"

lemma resume_rank:
  "resume opts now j a s = Some (s', es, js') \<Longrightarrow> sum_list (map job_rank js') < job_rank j"
  by (cases "(opts, now, j, a, s)" rule: resume.cases)
    (auto simp: save_ops ask_ops doc_ops glue
      split: put_result.splits head_result.splits option.splits if_splits prod.splits)

lemma resume_clean:
  assumes "resume opts now j a s = Some (s', es, js')" "SetState Clean \<in> set es" "job_text j = Some t"
  shows "(\<exists>sha. a = PutAnswer (PutOk sha)) \<or> (\<exists>h sha. a = HeadAnswer (HeadText h sha) \<and> contained t h)"
  using assms
  by (cases "(opts, now, j, a, s)" rule: resume.cases)
    (auto simp: save_ops ask_ops doc_ops glue
      split: put_result.splits head_result.splits option.splits if_splits prod.splits)

text \<open>A request that carries a text is sent for exactly that text: the job that awaits a put's answer
  belongs to a put of the job's text sent in the same step.\<close>

lemma resume_job_put:
  assumes "resume opts now j a s = Some (s', es, js')" "j' \<in> set js'" "job_text j' = Some t"
  shows "job_text j = Some t
    \<and> ((\<exists>b. j' = RaceFetch t b) \<or> (\<exists>p m. PutContent p t m False \<in> set es))"
  using assms
  by (cases "(opts, now, j, a, s)" rule: resume.cases)
    (auto simp: save_ops ask_ops doc_ops glue
      split: put_result.splits head_result.splits option.splits if_splits prod.splits)

lemma resume_retry:
  assumes "resume opts now j a s = Some (s', es, js')" "RacePut t b \<in> set js'"
  shows "\<exists>h sha. a = HeadAnswer (HeadText h (Some sha)) \<and> sha \<noteq> [] \<and> contained h t
    \<and> es = [PutContent (path opts) t (Some sha) False]"
  using assms
  by (cases "(opts, now, j, a, s)" rule: resume.cases)
    (auto simp: save_ops ask_ops doc_ops glue truthy_def if_match_def
      split: put_result.splits head_result.splits option.splits if_splits prod.splits)

subsection \<open>What a merge does\<close>

lemma splice_doc: "doc (fst (splice_text e s)) = apply_edit e (doc s)"
  "saved (fst (splice_text e s)) = saved s" "surface (fst (splice_text e s)) = surface s"
  "snd (snd (splice_text e s)) = []" "base (fst (splice_text e s)) = base s"
  by (simp_all add: splice_text_def onDocChange_def Let_def)

lemma splice_effects:
  "splice_text e s = (s', es, js') \<Longrightarrow> list_all (\<lambda>e. e = SetState Dirty \<or> (\<exists>n. e = OnPending n)) es"
  by (auto simp: splice_text_def onDocChange_def Let_def split: if_splits)

lemma splice_eq:
  "splice_text e s = (s', es, js') \<Longrightarrow> doc s' = apply_edit e (doc s) \<and> saved s' = saved s
     \<and> surface s' = surface s \<and> js' = [] \<and> base s' = base s
     \<and> list_all (\<lambda>e. e = SetState Dirty \<or> (\<exists>n. e = OnPending n)) es"
  using splice_doc [of e s] splice_effects by simp

lemma rebase_base: "base (rebase sha s) = (if truthy sha then sha else base s)"
  by (simp add: rebase_def)

text \<open>A merged text: the shared document takes it and nothing is handed to the solo buffer, or the solo
  buffer is handed exactly one edit that turns its text into it.\<close>

definition merged_text :: "SharedFile \<Rightarrow> effect list \<Rightarrow> SharedFile \<Rightarrow> jstr \<Rightarrow> bool" where
  "merged_text s es s' nxt \<longleftrightarrow>
     (if doc s \<noteq> [] then doc s' = nxt \<and> list_all (\<lambda>e. e = SetState Dirty \<or> (\<exists>n. e = OnPending n)) es
      else doc s' = [] \<and> (\<exists>e. es = [SoloApplied e] \<and> apply_edit e (current s) = nxt))"

lemma merge_cases:
  assumes "merge opts nxt sha held s = (r, s', es, js')"
  shows "js' = [] \<and> surface s' = surface s
    \<and> (r = Merged \<longrightarrow> \<not> held \<and> current s = saved s \<and> peers s = 0 \<and> saved s' = nxt \<and> nxt \<noteq> current s
        \<and> base s' = (if truthy sha then sha else base s) \<and> merged_text s es s' nxt)
    \<and> (r \<noteq> Merged \<longrightarrow> s' = s\<lparr>saved := saved s', base := base s'\<rparr>)
    \<and> (r = Blocked \<longrightarrow> es = [] \<and> saved s' = saved s \<and> \<not> held \<and> nxt \<noteq> saved s \<and> nxt \<noteq> current s
        \<and> (base s' \<noteq> base s \<longrightarrow> contained nxt (current s) \<and> truthy sha \<and> base s' = sha)
        \<and> (current s \<noteq> saved s \<or> peers s > 0 \<or> doc s = [] \<and> \<not> soloApply opts))
    \<and> (r = Same \<longrightarrow> (held \<or> nxt = saved s \<or> nxt \<in> inFlight s \<or> nxt = current s)
        \<and> (es = [] \<or> es = [SetState Clean] \<and> hubHoldsIt s \<and> nxt = current s)
        \<and> base s' = (if truthy sha then sha else base s)
        \<and> (saved s' \<noteq> saved s \<longrightarrow> saved s' = nxt \<and> (held \<or> nxt = current s)))"
proof -
  let ?cur = "current s"
  have te: "apply_edit e ?cur = nxt" if "textEdit ?cur nxt = Some e" for e
    using that by (rule te.edit_app)
  have tn: "?cur = nxt" if "textEdit ?cur nxt = None" using that by (simp add: textEdit_None)
  have cd: "doc s \<noteq> [] \<Longrightarrow> ?cur = doc s" by (simp add: current_def)
  show ?thesis
    using assms te tn cd
    by (auto simp: merge_def Let_def merged_text_def splice_doc solo_splice_def rebase_base rebase_def
        split: if_splits option.splits prod.splits dest!: splice_eq)
qed


subsection \<open>Confirmed writes\<close>

definition no_confirmed :: "effect list \<Rightarrow> bool" where
  "no_confirmed es \<longleftrightarrow> list_all (\<lambda>e. case e of PutContent p t b conf \<Rightarrow> \<not> conf | _ \<Rightarrow> True) es"

lemma room_outs_no_confirmed: "no_confirmed (fst (snd (room_outs os s)))"
proof (induction os arbitrary: s)
  case (Cons o' os)
  have "no_confirmed (fst (snd (room_out o' s)))"
    by (cases o') (auto simp: no_confirmed_def room_out_def onCollabStatus_def Let_def)
  with Cons [of "fst (room_out o' s)"] show ?case
    by (auto simp: after_def no_confirmed_def split: prod.splits)
qed (simp add: no_confirmed_def)

lemma room_no_confirmed: "no_confirmed (fst (snd (room_event ev s)))" "no_confirmed (fst (snd (no_route_task s)))"
proof -
  have e: "no_confirmed (fst (snd (room_event ev s)))" for ev
    using room_outs_no_confirmed by (simp add: room_event_def split: prod.splits)
  then show "no_confirmed (fst (snd (room_event ev s)))" .
  show "no_confirmed (fst (snd (no_route_task s)))"
    using e [of StopEv] by (auto simp: no_route_task_def after_def emit_def no_confirmed_def split: prod.splits)
qed

lemma ops_no_confirmed:
  "no_confirmed (fst (snd (local_edit t s)))" "no_confirmed (fst (snd (remote_edit t s)))"
  "no_confirmed (fst (snd (solo_change t s)))" "no_confirmed (fst (snd (save_timer_fired opts s)))"
  "no_confirmed (fst (snd (watchShrink_fired opts s)))" "no_confirmed (fst (snd (saveNow opts s)))"
  "no_confirmed (fst (snd (keep s)))" "no_confirmed (fst (snd (destroy_file opts s)))"
  by (simp_all add: no_confirmed_def doc_ops ask_ops file_ops save_def askShrink_def glue)

lemma merge_no_confirmed: "no_confirmed (fst (snd (snd (merge opts nxt sha held s))))"
  by (auto simp: no_confirmed_def merge_def doc_ops Let_def split: option.splits)

lemma resume_no_confirmed: "resume opts now j a s = Some r \<Longrightarrow> no_confirmed (fst (snd r))"
  by (cases "(opts, now, j, a, s)" rule: resume.cases)
    (auto simp: no_confirmed_def save_ops ask_ops doc_ops glue
      split: put_result.splits head_result.splits option.splits if_splits prod.splits)

lemma no_confirmedD: "no_confirmed es \<Longrightarrow> PutContent p t m True \<notin> set es"
  by (auto simp: no_confirmed_def list_all_iff)

lemma runs_no_confirmed: "runs r q es c \<Longrightarrow> no_confirmed (fst (snd r)) \<Longrightarrow> PutContent p t m True \<notin> set es"
  using no_confirmedD by (auto simp: runs_def split: prod.splits)

lemma step_confirmed:
  assumes "sf_step opts c es c'" "PutContent p t m True \<in> set es"
  shows "handed (fst c) > 0 \<and> \<not> gone (fst c) \<and> p = path opts \<and> t = current (fst c) \<and> m = if_match (base (fst c))"
  using assms
proof (induction rule: sf_step.induct)
  case (confirmed s q es c)
  then show ?case by (auto simp: runs_def confirm_def Let_def split: if_splits)
next
  case (answered j q now a s r es c)
  then show ?case using runs_no_confirmed [OF _ resume_no_confirmed [OF answered(2)]] by blast
qed (use runs_no_confirmed [OF _ room_no_confirmed(1)] runs_no_confirmed [OF _ room_no_confirmed(2)]
    runs_no_confirmed [OF _ ops_no_confirmed(1)] runs_no_confirmed [OF _ ops_no_confirmed(2)]
    runs_no_confirmed [OF _ ops_no_confirmed(3)] runs_no_confirmed [OF _ ops_no_confirmed(4)]
    runs_no_confirmed [OF _ ops_no_confirmed(5)] runs_no_confirmed [OF _ ops_no_confirmed(6)]
    runs_no_confirmed [OF _ ops_no_confirmed(7)] runs_no_confirmed [OF _ ops_no_confirmed(8)]
    runs_no_confirmed [OF _ merge_no_confirmed] in force)+

subsection \<open>Questions asked\<close>

text \<open>How an operation stands to the questions: it hands out none and the count stays, or it hands out
  one, of the given sizes, over a state in which none is open.\<close>

definition asks_from :: "Opts \<Rightarrow> SharedFile \<Rightarrow> (nat \<Rightarrow> nat \<Rightarrow> bool) \<Rightarrow> outcome \<Rightarrow> bool" where
  "asks_from opts s why r \<longleftrightarrow> (case r of (s', es, j) \<Rightarrow>
     (handed s' = handed s \<and> (\<forall>a b. AskShrink a b \<notin> set es))
     \<or> (\<exists>b. es = [SetState Error, AskShrink (byteLength (saved s)) b] \<and> why (byteLength (saved s)) b
          \<and> handed s' = Suc (handed s) \<and> onShrinkRefused opts \<and> \<not> gone s \<and> asking s = None))"

lemma room_outs_asks: "handed (fst (room_outs os s)) = handed s \<and> (\<forall>a b. AskShrink a b \<notin> set (fst (snd (room_outs os s))))"
proof (induction os arbitrary: s)
  case (Cons o' os)
  have "handed (fst (room_out o' s)) = handed s \<and> (\<forall>a b. AskShrink a b \<notin> set (fst (snd (room_out o' s))))"
    by (cases o') (auto simp: room_out_def onCollabStatus_def Let_def)
  with Cons [of "fst (room_out o' s)"] show ?case by (auto simp: after_def split: prod.splits)
qed simp

lemma asks_none:
  "handed (fst r) = handed s \<and> (\<forall>a b. AskShrink a b \<notin> set (fst (snd r))) \<Longrightarrow> asks_from opts s w r"
  by (cases r) (simp add: asks_from_def)

lemma room_asks: "asks_from opts s w (room_event ev s)" "asks_from opts s w (no_route_task s)"
proof -
  have e: "handed (fst (room_event ev s)) = handed s \<and> (\<forall>a b. AskShrink a b \<notin> set (fst (snd (room_event ev s))))" for ev
    using room_outs_asks [of "snd (collab_step ev (room s))" "s\<lparr>room := fst (collab_step ev (room s))\<rparr>"]
    by (cases "collab_step ev (room s)") (simp add: room_event_def)
  then show "asks_from opts s w (room_event ev s)" by (rule asks_none)
  show "asks_from opts s w (no_route_task s)"
    by (rule asks_none) (use e [of StopEv] in \<open>auto simp: no_route_task_def after_def emit_def split: prod.splits\<close>)
qed

lemma ops_asks:
  "asks_from opts s w (local_edit t s)" "asks_from opts s w (remote_edit t s)" "asks_from opts s w (solo_change t s)"
  "asks_from opts s w (save_timer_fired opts s)" "asks_from opts s w (saveNow opts s)"
  "asks_from opts s w (confirm opts s)" "asks_from opts s w (keep s)" "asks_from opts s w (destroy_file opts s)"
  by (simp_all add: asks_from_def doc_ops ask_ops file_ops save_def glue)

lemma merge_asks: "asks_from opts s w (snd (merge opts nxt sha held s))"
  by (auto simp: asks_from_def merge_def doc_ops Let_def rebase_def split: option.splits)

lemma shrink_asks:
  "asks_from opts s (\<lambda>was b. sharpShrink was b \<and> b = byteLength (current s)) (watchShrink_fired opts s)"
proof -
  have "current (s\<lparr>shrinkTimer := False\<rparr>) = current s" by (simp add: current_def)
  then show ?thesis by (cases "asking s") (auto simp: asks_from_def watchShrink_fired_def askShrink_def Let_def)
qed

lemma no_question: "(\<forall>a b. asking s \<noteq> Some (a, b)) \<longleftrightarrow> asking s = None"
  by (cases "asking s") auto

lemma resume_asks:
  "resume opts now j a s = Some r \<Longrightarrow>
    asks_from opts s (\<lambda>was b. \<exists>t sha. j = SavePut t \<and> b = byteLength t \<and> a = PutAnswer (PutHttp 422 (Refusal True sha))) r"
  by (cases "(opts, now, j, a, s)" rule: resume.cases)
    (auto simp: asks_from_def save_ops ask_ops doc_ops glue isShrinkRefusal_def no_question
      split: put_result.splits head_result.splits option.splits if_splits prod.splits refusal.splits)

text \<open>What a step can have asked, and why.\<close>

definition asked_why :: "SharedFile \<times> job list \<Rightarrow> nat \<Rightarrow> nat \<Rightarrow> bool" where
  "asked_why c was b \<longleftrightarrow> (sharpShrink was b \<and> b = byteLength (current (fst c)))
     \<or> (\<exists>t. SavePut t \<in> set (snd c) \<and> b = byteLength t)"

lemma asks_weaken: "asks_from opts s w r \<Longrightarrow> (\<And>was b. w was b \<Longrightarrow> w' was b) \<Longrightarrow> asks_from opts s w' r"
  by (auto simp: asks_from_def split: prod.splits)

lemma runs_asks:
  "runs r q es c \<Longrightarrow> asks_from opts s w r \<Longrightarrow> asks_from opts s w (fst c, es, snd c)"
  by (auto simp: runs_def asks_from_def split: prod.splits)

lemma step_asks:
  assumes "sf_step opts c es c'"
  shows "asks_from opts (fst c) (asked_why c) (fst c', es, snd c')"
  using assms
proof (induction rule: sf_step.induct)
  case (shrink s q es c)
  show ?case by (simp, rule runs_asks [OF shrink(2)], rule asks_weaken [OF shrink_asks]) (simp add: asked_why_def)
next
  case (answered j q now a s r es c)
  show ?case
    by (simp, rule runs_asks [OF answered(3)], rule asks_weaken [OF resume_asks [OF answered(2)]])
      (use answered(1) in \<open>auto simp: asked_why_def\<close>)
qed ((simp, rule runs_asks, assumption, rule room_asks ops_asks merge_asks) | simp add: asks_from_def rebase_def)+

lemma step_asked:
  assumes "sf_step opts c es c'" "AskShrink was b \<in> set es"
  shows "onShrinkRefused opts \<and> \<not> gone (fst c) \<and> asking (fst c) = None \<and> was = byteLength (saved (fst c))
    \<and> asked_why c was b"
  using step_asks [OF assms(1)] assms(2) by (auto simp: asks_from_def)

lemma run_handed:
  "sf_run opts c es c' \<Longrightarrow> handed (fst c') > 0 \<Longrightarrow> handed (fst c) > 0 \<or> (\<exists>a b. AskShrink a b \<in> set es)"
proof (induction rule: sf_run.induct)
  case (run_step c es c' es' c'')
  then show ?case using step_asks [OF run_step(2)] by (force simp: asks_from_def)
qed simp

lemma open_handed: "runs (openSharedFile opts seed sha0) [] es c \<Longrightarrow> handed (fst c) = 0"
  by (auto simp: runs_def openSharedFile_def connect_def room_out_def onCollabStatus_def glue split: if_splits)

subsection \<open>Scripted runs\<close>

datatype action = RoomA collab_event | NoRouteA | TypeA jstr | ReceiveA jstr | SoloTypeA jstr | ShrinkA
  | OutsideA jstr "jstr option" bool | SaveNowA | ConfirmA | CloseA | AnswerA answer

definition give :: "bool \<Rightarrow> outcome \<Rightarrow> job list \<Rightarrow> (effect list \<times> SharedFile \<times> job list) option" where
  "give ok r q = (if ok then (case r of (s', e, j) \<Rightarrow> Some (e, s', q @ j)) else None)"

lemma give_runs: "give ok r q = Some (e, c) \<longleftrightarrow> ok \<and> runs r q e c"
  by (cases r; cases c) (auto simp: give_def runs_def)

text \<open>One scripted step, refused when its rule does not apply; an answer goes to the oldest request.\<close>

fun play1 :: "Opts \<Rightarrow> int \<Rightarrow> action \<Rightarrow> SharedFile \<times> job list \<Rightarrow> (effect list \<times> SharedFile \<times> job list) option" where
  "play1 opts now (RoomA ev) (s, q) = give (hasCollabRoute (apiBase opts) \<and> provider_ok ev s) (room_event ev s) q"
| "play1 opts now NoRouteA (s, q) = give (\<not> hasCollabRoute (apiBase opts)) (no_route_task s) q"
| "play1 opts now (TypeA t) (s, q) = give (\<not> gone s) (local_edit t s) q"
| "play1 opts now (ReceiveA t) (s, q) = give (\<not> gone s \<and> ws (room s)) (remote_edit t s) q"
| "play1 opts now (SoloTypeA t) (s, q) = give True (solo_change t s) q"
| "play1 opts now ShrinkA (s, q) = give (shrinkTimer s) (watchShrink_fired opts s) q"
| "play1 opts now (OutsideA nxt sha held) (s, q) = give True (snd (merge opts nxt sha held s)) q"
| "play1 opts now SaveNowA (s, q) = give True (saveNow opts s) q"
| "play1 opts now ConfirmA (s, q) = give (handed s > 0) (confirm opts s) q"
| "play1 opts now CloseA (s, q) = give (\<not> gone s) (destroy_file opts s) q"
| "play1 opts now (AnswerA a) (s, []) = None"
| "play1 opts now (AnswerA a) (s, j # q) =
     (case resume opts now j a s of None \<Rightarrow> None | Some r \<Rightarrow> give True r q)"

fun play :: "Opts \<Rightarrow> int \<Rightarrow> action list \<Rightarrow> SharedFile \<times> job list \<Rightarrow> (effect list \<times> SharedFile \<times> job list) option" where
  "play opts now [] c = Some ([], c)"
| "play opts now (x # xs) c =
     (case play1 opts now x c of
        None \<Rightarrow> None
      | Some (e, c') \<Rightarrow> (case play opts now xs c' of None \<Rightarrow> None | Some (es, c'') \<Rightarrow> Some (e @ es, c'')))"

lemma play1_step:
  assumes "play1 opts now x c = Some (e, c')"
  shows "sf_step opts c e c'"
  using assms
proof (induction opts now x c rule: play1.induct)
  case (12 opts now a s j q)
  then obtain r where r: "resume opts now j a s = Some r" "runs r q e c'"
    by (auto simp: give_runs split: option.splits)
  show ?case by (rule sf_step.answered [where j = j, OF _ r(1)]) (simp_all add: r(2))
qed (auto simp: give_runs intro: sf_step.intros)

lemma run_trans: "sf_run opts c2 es2 c3 \<Longrightarrow> sf_run opts c1 es1 c2 \<Longrightarrow> sf_run opts c1 (es1 @ es2) c3"
proof (induction rule: sf_run.induct)
  case (run_step c es c' es' c'')
  then show ?case using sf_run.run_step [of opts c1 "es1 @ es" c' es' c''] by simp
qed simp

lemma play_run: "play opts now xs c = Some (es, c') \<Longrightarrow> sf_run opts c es c'"
proof (induction xs arbitrary: c es)
  case Nil
  then show ?case by (auto intro: sf_run.run_refl)
next
  case (Cons x xs)
  then obtain e c1 es1 where s: "play1 opts now x c = Some (e, c1)" "play opts now xs c1 = Some (es1, c')" "es = e @ es1"
    by (auto split: option.splits prod.splits)
  have "sf_run opts c ([] @ e) c1"
    using play1_step [OF s(1)] by (rule sf_run.run_step [OF sf_run.run_refl])
  then show ?case using run_trans [OF Cons.IH [OF s(2)]] s(3) by simp
qed

definition solo_opts :: Opts where
  "solo_opts = \<lparr>path = js ''n.md'', apiBase = js ''/api/'', who = None, onShrinkRefused = True, soloApply = True\<rparr>"

definition solo_start :: "SharedFile \<times> job list" where
  "solo_start = (case openSharedFile solo_opts (js ''abc'') (Some (js ''v1'')) of (s, e, j) \<Rightarrow> (s, j))"

lemma solo_start_reach: "sf_reach solo_opts (js ''abc'') (Some (js ''v1'')) solo_start"
  by (rule sf_reach.opened [where es = "[]"])
    (simp add: runs_def solo_start_def openSharedFile_def solo_opts_def hasCollabRoute_def js_eval Let_def)

subsection \<open>Properties\<close>

text \<open>In every reachable state a live connection means the hub holds the document and no edit is
  counted as pending, and the hub holds the document only if its document ever arrived.\<close>

theorem shared_room_invariant:
  assumes "sf_reach opts seed sha0 (s, q)"
  shows "(live s \<longrightarrow> hubHoldsIt s \<and> pending s = 0) \<and> (hubHoldsIt s \<longrightarrow> reached (room s))"
  using reach_room_inv [OF assms] by (simp add: room_inv_def)

theorem shared_room_invariant_witness:
  "\<not> live (fst solo_start) \<and> \<not> hubHoldsIt (fst solo_start)"
proof -
  have "\<not> reached (room (fst solo_start))" by code_simp
  moreover have "(live (fst solo_start) \<longrightarrow> hubHoldsIt (fst solo_start) \<and> pending (fst solo_start) = 0)
     \<and> (hubHoldsIt (fst solo_start) \<longrightarrow> reached (room (fst solo_start)))"
    using shared_room_invariant [of solo_opts "js ''abc''" "Some (js ''v1'')" "fst solo_start" "snd solo_start"]
      solo_start_reach by simp
  ultimately show ?thesis by blast
qed

text \<open>Solo is decided once and kept: after the step that hands the file to the solo surface, no
  sequence of provider events, timers, edits and answers makes the hub hold the document or
  mounts the shared one.\<close>

theorem solo_is_final:
  assumes "sf_reach opts seed sha0 c" "sf_step opts c es c1" "FileSolo \<in> set es" "sf_run opts c1 es' c2"
  shows "\<not> hubHoldsIt (fst c2) \<and> FileReady \<notin> set es'"
proof -
  have g: "given_up (fst c1)" using step_solo [OF assms(2,3) reach_room_inv [OF assms(1)]] .
  have "room_inv opts (fst c2)"
    using reach_room_inv [OF run_reach [OF assms(4) sf_reach.stepped [OF assms(1,2)]]] .
  with run_given_up [OF assms(4) g] show ?thesis by (auto simp: given_up_def room_inv_def)
qed

lemma solo_start_task:
  "sf_step solo_opts solo_start [CollabStatusChanged Solo, FileSolo]
     ((fst solo_start)\<lparr>room := \<lparr>closed = True, reached = False, ws = False\<rparr>\<rparr>, [])"
proof -
  have "play1 solo_opts 0 NoRouteA solo_start = Some ([CollabStatusChanged Solo, FileSolo],
      (fst solo_start)\<lparr>room := \<lparr>closed = True, reached = False, ws = False\<rparr>\<rparr>, [])"
    by code_simp
  then show ?thesis by (rule play1_step)
qed

theorem solo_is_final_witness:
  "\<not> hubHoldsIt ((fst solo_start)\<lparr>room := \<lparr>closed = True, reached = False, ws = False\<rparr>\<rparr>)
    \<and> FileReady \<notin> set []"
  using solo_is_final [OF solo_start_reach solo_start_task _ sf_run.run_refl] by simp

text \<open>C30: No text stays marked as in flight: in every reachable state each such text has a put of its own
  awaiting an answer, so with no request outstanding none is left to block a later save.\<close>

theorem nothing_stuck_in_flight:
  assumes "sf_reach opts seed sha0 (s, q)"
  shows "(\<forall>t \<in> inFlight s. SavePut t \<in> set q) \<and> (q = [] \<longrightarrow> inFlight s = {})"
  using reach_flight [OF assms] by (auto simp: flight_inv_def)

theorem nothing_stuck_in_flight_witness:
  "\<exists>s q. sf_reach solo_opts (js ''abc'') (Some (js ''v1'')) (s, q) \<and> js ''a'' \<in> inFlight s \<and> SavePut (js ''a'') \<in> set q"
proof -
  obtain es s q where a: "play solo_opts 0 [NoRouteA, SoloTypeA (js ''a''), SaveNowA] solo_start = Some (es, s, q)"
    and i: "js ''a'' \<in> inFlight s"
  proof -
    have "case play solo_opts 0 [NoRouteA, SoloTypeA (js ''a''), SaveNowA] solo_start of None \<Rightarrow> False
      | Some (es, s, q) \<Rightarrow> js ''a'' \<in> inFlight s" by code_simp
    then show thesis using that by (auto split: option.splits prod.splits)
  qed
  have r: "sf_reach solo_opts (js ''abc'') (Some (js ''v1'')) (s, q)" by (rule run_reach [OF play_run [OF a] solo_start_reach])
  show ?thesis using nothing_stuck_in_flight [OF r] i r by blast
qed

text \<open>C2: An outside write changes the open text only when the answer is merged, and then only when the
  text is not already held, over a buffer without unsaved edits and without a co-editor, leaving
  exactly the new text, by one edit handed to the solo buffer or in the shared document alone. A
  blocked write does nothing but move the base version, and that only if the new text is contained
  in the buffer; it is blocked only over unsaved edits, beside a co-editor, or when there is no
  buffer to change. The answer same means the text is held, known, being written or already in the
  buffer, and only a new text that is held or in the buffer is recorded.\<close>

theorem merge_outcome:
  assumes "merge opts nxt sha held s = (r, s', es, js')"
  shows "js' = [] \<and> surface s' = surface s
    \<and> (r = Merged \<longrightarrow> \<not> held \<and> current s = saved s \<and> peers s = 0 \<and> saved s' = nxt \<and> nxt \<noteq> current s
        \<and> base s' = (if truthy sha then sha else base s) \<and> merged_text s es s' nxt)
    \<and> (r \<noteq> Merged \<longrightarrow> s' = s\<lparr>saved := saved s', base := base s'\<rparr>)
    \<and> (r = Blocked \<longrightarrow> es = [] \<and> saved s' = saved s \<and> \<not> held \<and> nxt \<noteq> saved s \<and> nxt \<noteq> current s
        \<and> (base s' \<noteq> base s \<longrightarrow> contained nxt (current s) \<and> truthy sha \<and> base s' = sha)
        \<and> (current s \<noteq> saved s \<or> peers s > 0 \<or> doc s = [] \<and> \<not> soloApply opts))
    \<and> (r = Same \<longrightarrow> (held \<or> nxt = saved s \<or> nxt \<in> inFlight s \<or> nxt = current s)
        \<and> (es = [] \<or> es = [SetState Clean] \<and> hubHoldsIt s \<and> nxt = current s)
        \<and> base s' = (if truthy sha then sha else base s)
        \<and> (saved s' \<noteq> saved s \<longrightarrow> saved s' = nxt \<and> (held \<or> nxt = current s)))"
  using assms by (rule merge_cases)

definition merge_start :: SharedFile where
  "merge_start = (fst solo_start)\<lparr>surface := Some (js ''abc'')\<rparr>"

theorem merge_outcome_witness:
  "\<exists>s' es js'. merge solo_opts (js ''abxc'') (Some (js ''v2'')) False merge_start = (Merged, s', es, js')
     \<and> merged_text merge_start es s' (js ''abxc'') \<and> saved s' = js ''abxc'' \<and> base s' = Some (js ''v2'')"
proof -
  have "fst (merge solo_opts (js ''abxc'') (Some (js ''v2'')) False merge_start) = Merged" by code_simp
  then obtain s' es js' where
    m: "merge solo_opts (js ''abxc'') (Some (js ''v2'')) False merge_start = (Merged, s', es, js')"
    by (metis prod.collapse)
  show ?thesis using merge_outcome [OF m] m by (auto simp: truthy_def js_eval)
qed

text \<open>C6: A room the hub holds is not written from here: once the hub holds the document and no save of
  this client is armed or under way, no sequence of steps sends the file's content again, except
  for a shrink the user confirms.\<close>

theorem hub_room_not_written:
  assumes "sf_run opts (s, q) es c" "hubHoldsIt s" "\<not> timer s"
    "list_all (\<lambda>j. j = KeepFetch \<or> (\<exists>t. j = ConfirmPut t)) q"
  shows "hubHoldsIt (fst c) \<and> (PutContent p t m conf \<in> set es \<longrightarrow> conf)"
  using run_quiet [OF assms(1)] assms(2-4)
  by (auto simp: quiet_def only_confirmed_def list_all_iff split: effect.splits)

text \<open>A file opened on a hub with rooms: the room's document arrives and the provider reports it
  synced. Then the user types, presses save, an outside write comes in, and a text emptied in one
  go is asked about and confirmed; after that the user types on and closes the file.\<close>

definition room_opts :: Opts where
  "room_opts = \<lparr>path = js ''n.md'', apiBase = js ''/api/p/x/'', who = None, onShrinkRefused = True, soloApply = True\<rparr>"

definition room_start :: "SharedFile \<times> job list" where
  "room_start = (case openSharedFile room_opts (js ''abc'') (Some (js ''v1'')) of (s, e, j) \<Rightarrow> (s, j))"

definition room_live :: "SharedFile \<times> job list" where
  "room_live = (case play room_opts 0 [RoomA (StatusEv True False), ReceiveA (js ''abc''), RoomA (SyncEv True)] room_start of
     None \<Rightarrow> room_start | Some (es, c) \<Rightarrow> c)"

definition room_script :: "action list" where
  "room_script = [TypeA (js ''abcd''), SaveNowA, OutsideA (js ''xyz'') (Some (js ''v2'')) False, TypeA [], ShrinkA, ConfirmA,
     AnswerA (PutAnswer (PutOk (Some (js ''v3'')))), TypeA (js ''b''), CloseA]"

theorem hub_room_not_written_witness:
  "\<exists>es0 es c. sf_run room_opts room_start es0 room_live
     \<and> sf_run room_opts room_live es c \<and> hubHoldsIt (fst c) \<and> gone (fst c)
     \<and> PutContent (js ''n.md'') [] (Some (js ''v1'')) True \<in> set es
     \<and> PutContent (js ''n.md'') [] (Some (js ''v1'')) False \<notin> set es
     \<and> PutContent (js ''n.md'') (js ''abcd'') (Some (js ''v1'')) False \<notin> set es"
proof -
  obtain es0 where a: "play room_opts 0 [RoomA (StatusEv True False), ReceiveA (js ''abc''), RoomA (SyncEv True)] room_start = Some (es0, room_live)"
  proof -
    have "map_option snd (play room_opts 0 [RoomA (StatusEv True False), ReceiveA (js ''abc''), RoomA (SyncEv True)] room_start) \<noteq> None" by code_simp
    then show thesis using that by (auto simp: room_live_def split: option.splits prod.splits)
  qed
  obtain es c where b: "play room_opts 0 room_script room_live = Some (es, c)" "gone (fst c)"
    "PutContent (js ''n.md'') [] (Some (js ''v1'')) True \<in> set es"
  proof -
    have "case play room_opts 0 room_script room_live of None \<Rightarrow> False
      | Some (es, c) \<Rightarrow> gone (fst c) \<and> PutContent (js ''n.md'') [] (Some (js ''v1'')) True \<in> set es" by code_simp
    then show thesis using that by (auto split: option.splits prod.splits)
  qed
  have r: "sf_run room_opts (fst room_live, snd room_live) es c" using play_run [OF b(1)] by simp
  have h: "hubHoldsIt (fst room_live)" "\<not> timer (fst room_live)" "snd room_live = []" by code_simp+
  show ?thesis
    using play_run [OF a] hub_room_not_written [OF r h(1,2)] play_run [OF b(1)] b(2,3)
    by (intro exI [of _ es0] exI [of _ es] exI [of _ c]) (auto simp: h(3))
qed

text \<open>C5: A save ends, and one that ends clean has kept its text: every answer leads to strictly fewer
  requests than it settles, the requests it leads to carry the same text, and the file is
  reported clean only after a put of that text was accepted or the file was read and contains it.\<close>

theorem save_settles:
  assumes "resume opts now j a s = Some (s', es, js')"
  shows "sum_list (map job_rank js') < job_rank j
    \<and> (job_text j = Some t \<and> SetState Clean \<in> set es \<longrightarrow>
        (\<exists>sha. a = PutAnswer (PutOk sha)) \<or> (\<exists>h sha. a = HeadAnswer (HeadText h sha) \<and> contained t h))
    \<and> (\<forall>j' \<in> set js'. \<forall>u. job_text j' = Some u \<longrightarrow> job_text j = Some u
        \<and> ((\<exists>b. j' = RaceFetch u b) \<or> (\<exists>p m. PutContent p u m False \<in> set es)))"
proof (intro conjI ballI allI impI)
  show "sum_list (map job_rank js') < job_rank j" by (rule resume_rank [OF assms])
next
  assume "job_text j = Some t \<and> SetState Clean \<in> set es"
  then show "(\<exists>sha. a = PutAnswer (PutOk sha)) \<or> (\<exists>h sha. a = HeadAnswer (HeadText h sha) \<and> contained t h)"
    using resume_clean [OF assms] by simp
next
  fix j' u assume "j' \<in> set js'" "job_text j' = Some u"
  from resume_job_put [OF assms this] show "job_text j = Some u"
    "(\<exists>b. j' = RaceFetch u b) \<or> (\<exists>p m. PutContent p u m False \<in> set es)"
    by simp_all
qed

theorem save_settles_witness:
  "sum_list (map job_rank [RaceFetch (js ''x'') BadBody]) < job_rank (SavePut (js ''x''))"
  using save_settles [of solo_opts 0 "SavePut (js ''x'')" "PutAnswer (PutHttp 409 BadBody)" "fst solo_start"]
  by (simp add: save_put_def isShrinkRefusal_def)

text \<open>C1: A refused save is retried only over a version it contains: the retry names the version just
  read, and that version's text is contained in the text being written.\<close>

theorem retry_contains_theirs:
  assumes "resume opts now j a s = Some (s', es, js')" "RacePut t b \<in> set js'"
  shows "\<exists>h sha. a = HeadAnswer (HeadText h (Some sha)) \<and> sha \<noteq> [] \<and> contained h t
    \<and> es = [PutContent (path opts) t (Some sha) False]"
  using assms by (rule resume_retry)

theorem retry_contains_theirs_witness:
  "\<exists>h sha. HeadAnswer (HeadText (js ''ab'') (Some (js ''v2''))) = HeadAnswer (HeadText h (Some sha))
     \<and> sha \<noteq> [] \<and> contained h (js ''axb'')
     \<and> [PutContent (path solo_opts) (js ''axb'') (Some (js ''v2'')) False] = [PutContent (path solo_opts) (js ''axb'') (Some sha) False]"
proof (rule retry_contains_theirs)
  show "resume solo_opts 0 (RaceFetch (js ''axb'') BadBody)
      (HeadAnswer (HeadText (js ''ab'') (Some (js ''v2'')))) (fst solo_start)
    = Some ((fst solo_start)\<lparr>base := Some (js ''v2'')\<rparr>,
        [PutContent (path solo_opts) (js ''axb'') (Some (js ''v2'')) False], [RacePut (js ''axb'') BadBody])"
    by code_simp
qed simp

text \<open>C32: A solo edit that only deletes can be lost while the status says clean: the save of a text with
  a character removed is refused because an outsider added one, the file read back contains the
  shorter text, and the run ends clean with no copy kept, nothing outstanding, and a buffer that is
  not the file; the next keystroke then overwrites the outsider's version by name.\<close>

theorem solo_deletion_lost:
  "\<exists>es c es2 c2. sf_run solo_opts solo_start es c
     \<and> last es = SetState Clean \<and> snd c = [] \<and> current (fst c) = js ''ac'' \<and> saved (fst c) = js ''abbc''
     \<and> \<not> contained (js ''abbc'') (js ''acd'')
     \<and> sf_run solo_opts c es2 c2 \<and> last es2 = PutContent (js ''n.md'') (js ''acd'') (Some (js ''v2'')) False"
proof -
  let ?as = "[NoRouteA, SoloTypeA (js ''ac''), SaveNowA, AnswerA (PutAnswer (PutHttp 409 (Refusal False (Some (js ''v2''))))),
      AnswerA (HeadAnswer (HeadText (js ''abbc'') (Some (js ''v2''))))]"
  let ?bs = "[SoloTypeA (js ''acd''), SaveNowA]"
  obtain es s q where 1: "play solo_opts 0 ?as solo_start = Some (es, s, q)" "last es = SetState Clean" "q = []"
    "current s = js ''ac''" "saved s = js ''abbc''" and b: "base s = Some (js ''v2'')" "inFlight s = {}"
    "hubHoldsIt s = False" "doc s = []"
    by (simp add: solo_start_def openSharedFile_def solo_opts_def hasCollabRoute_def room_ops save_ops file_ops
        doc_ops glue give_def current_def contained_def textEdit_def trim_front_def trim_back_def slice_def truthy_def
        new_collab_def js_eval)
  obtain es2 c2 where 2: "play solo_opts 0 ?bs (s, []) = Some (es2, c2)"
    "last es2 = PutContent (js ''n.md'') (js ''acd'') (Some (js ''v2'')) False"
    using 1 b by (simp add: solo_opts_def give_def file_ops save_ops doc_ops glue current_def if_match_def truthy_def js_eval)
  have "\<not> contained (js ''abbc'') (js ''acd'')" by code_simp
  then show ?thesis
    using play_run [OF 1(1)] play_run [OF 2(1)] 1 2
    by (intro exI [of _ es] exI [of _ "(s, q)"] exI [of _ es2] exI [of _ c2]) simp
qed


text \<open>C33: After a conflict copy the next save overwrites the other version: a save refused for an
  unrelated outside write is parked beside the file, and although the buffer never takes the
  outside text in, the following save names the outside version as its base, so the hub accepts
  it over a text it does not contain.\<close>

theorem conflict_copy_then_overwrite:
  "\<exists>es s q es2 c2. sf_run solo_opts solo_start es (s, q) \<and> q = []
     \<and> OnConflictCopy (js ''n.md.bdrive-conflict-browser-20260918T121104Z'') \<in> set es
     \<and> current s = js ''abcd'' \<and> \<not> contained (js ''axc'') (js ''abcd!'')
     \<and> sf_run solo_opts (s, q) es2 c2 \<and> last es2 = PutContent (js ''n.md'') (js ''abcd!'') (Some (js ''v2'')) False"
proof -
  let ?as = "[NoRouteA, SoloTypeA (js ''abcd''), SaveNowA, AnswerA (PutAnswer (PutHttp 409 (Refusal False (Some (js ''v2''))))),
      AnswerA (HeadAnswer (HeadText (js ''axc'') (Some (js ''v2'')))), AnswerA (PutAnswer (PutOk None))]"
  let ?bs = "[SoloTypeA (js ''abcd!''), SaveNowA]"
  have n: "conflictName (path solo_opts) (str_or (who solo_opts) (js ''browser'')) 1789733464000
      = js ''n.md.bdrive-conflict-browser-20260918T121104Z''" by code_simp
  obtain es s q where 1: "play solo_opts 1789733464000 ?as solo_start = Some (es, s, q)" "q = []"
    "OnConflictCopy (conflictName (path solo_opts) (str_or (who solo_opts) (js ''browser'')) 1789733464000) \<in> set es"
    "current s = js ''abcd''" and b: "base s = Some (js ''v2'')" "inFlight s = {}" "hubHoldsIt s = False"
    "doc s = []" "saved s = js ''abcd''"
    by (simp add: solo_start_def openSharedFile_def solo_opts_def hasCollabRoute_def room_ops save_ops file_ops
        doc_ops glue give_def current_def contained_def textEdit_def trim_front_def trim_back_def slice_def truthy_def
        new_collab_def theirs_of_def js_eval)
  obtain es2 c2 where 2: "play solo_opts 0 ?bs (s, []) = Some (es2, c2)"
    "last es2 = PutContent (js ''n.md'') (js ''abcd!'') (Some (js ''v2'')) False"
    using 1 b by (simp add: solo_opts_def give_def file_ops save_ops doc_ops glue current_def if_match_def truthy_def js_eval)
  have "\<not> contained (js ''axc'') (js ''abcd!'')" by code_simp
  then show ?thesis
    using play_run [OF 1(1)] play_run [OF 2(1)] 1 2 n
    by (intro exI [of _ es] exI [of _ s] exI [of _ q] exI [of _ es2] exI [of _ c2]) simp
qed


text \<open>C31: A save that would empty or sharply shrink the file is forced only by the user's answer: from the
  opening of the file on, a put that confirms a shrink is sent only after a question was handed to
  the caller, on a file that is not closed, and carries the document as it stands at that moment
  with the current base version. A question is handed out only when none is open, about a text
  whose save was under way or about a sharp shrink of the document itself, and closing the file
  with a question open sends nothing.\<close>

theorem shrink_needs_answer:
  assumes "runs (openSharedFile opts seed sha0) [] es0 c0" "sf_run opts c0 es c" "sf_step opts c es' c'"
  shows "(PutContent p t m True \<in> set es' \<longrightarrow>
       (\<exists>was b. AskShrink was b \<in> set es) \<and> \<not> gone (fst c)
       \<and> p = path opts \<and> t = current (fst c) \<and> m = if_match (base (fst c)))
    \<and> (AskShrink was b \<in> set es' \<longrightarrow>
       onShrinkRefused opts \<and> \<not> gone (fst c) \<and> asking (fst c) = None \<and> was = byteLength (saved (fst c))
       \<and> asked_why c was b)
    \<and> (asking (fst c) \<noteq> None \<longrightarrow> fst (snd (destroy_file opts (fst c))) = [ShrinkWithdrawn]
       \<and> snd (snd (destroy_file opts (fst c))) = [])"
proof (intro conjI impI)
  assume h: "PutContent p t m True \<in> set es'"
  note st = step_confirmed [OF assms(3) h]
  show "\<exists>was b. AskShrink was b \<in> set es"
    using run_handed [OF assms(2)] st open_handed [OF assms(1)] by simp
  show "\<not> gone (fst c)" "p = path opts" "t = current (fst c)" "m = if_match (base (fst c))" using st by simp_all
next
  assume "AskShrink was b \<in> set es'"
  note sa = step_asked [OF assms(3) this]
  show "onShrinkRefused opts" "\<not> gone (fst c)" "asking (fst c) = None" "was = byteLength (saved (fst c))"
    using sa by simp_all
  show "asked_why c was b" using sa by blast
qed (auto simp: destroy_file_def after_def Let_def)

definition shrink_script :: "action list" where
  "shrink_script = [NoRouteA, SoloTypeA (js ''a''), SaveNowA, SoloTypeA [], AnswerA (PutAnswer (PutHttp 422 (Refusal True None)))]"

theorem shrink_needs_answer_witness:
  "\<exists>es c c'. sf_run solo_opts solo_start es c
     \<and> sf_step solo_opts c [SetState Saving, OnWriting, PutContent (js ''n.md'') [] (Some (js ''v1'')) True] c'
     \<and> asking (fst c) = Some (3, 1) \<and> (\<exists>was b. AskShrink was b \<in> set es)
     \<and> fst (snd (destroy_file solo_opts (fst c))) = [ShrinkWithdrawn]"
proof -
  let ?e = "[SetState Saving, OnWriting, PutContent (js ''n.md'') [] (Some (js ''v1'')) True]"
  have o: "runs (openSharedFile solo_opts (js ''abc'') (Some (js ''v1''))) [] [] solo_start"
    by (simp add: runs_def solo_start_def openSharedFile_def solo_opts_def hasCollabRoute_def js_eval Let_def)
  obtain es c where a: "play solo_opts 0 shrink_script solo_start = Some (es, c)" "asking (fst c) = Some (3, 1)"
    and b: "map_option fst (play1 solo_opts 0 ConfirmA c) = Some ?e"
  proof -
    have "case play solo_opts 0 shrink_script solo_start of None \<Rightarrow> False
      | Some (es, c) \<Rightarrow> asking (fst c) = Some (3, 1) \<and> map_option fst (play1 solo_opts 0 ConfirmA c) = Some ?e" by code_simp
    then show thesis using that by (auto split: option.splits prod.splits)
  qed
  obtain c' where b': "play1 solo_opts 0 ConfirmA c = Some (?e, c')" using b by (auto split: option.splits)
  show ?thesis
    using play_run [OF a(1)] play1_step [OF b'] a(2)
      shrink_needs_answer [OF o play_run [OF a(1)] play1_step [OF b'], of "js ''n.md''" "[]" "Some (js ''v1'')"]
    by (intro exI [of _ es] exI [of _ c] exI [of _ c']) simp
qed

end
