(* ===== verification/Uri.thy ===== *)
theory Uri
  imports Prelude
begin

section \<open>Percent encoding and query strings\<close>

text \<open>
  What the router and the stores use of the platform: \<open>encodeURIComponent\<close>,
  \<open>decodeURIComponent\<close> (a \<open>URIError\<close> is \<open>None\<close>) and \<open>URLSearchParams\<close>, as the language and URL
  standards define them over UTF-16 code units. The main lemmas are the two round trips for
  strings without lone surrogates.
\<close>

subsection \<open>UTF-16 and UTF-8\<close>

definition hi_sur :: "nat \<Rightarrow> bool" where "hi_sur u \<longleftrightarrow> 55296 \<le> u \<and> u \<le> 56319"
definition lo_sur :: "nat \<Rightarrow> bool" where "lo_sur u \<longleftrightarrow> 56320 \<le> u \<and> u \<le> 57343"

text \<open>Code points of a string; a lone surrogate is its own code point.\<close>

fun code_points :: "jstr \<Rightarrow> nat list" where
  "code_points [] = []"
| "code_points [u] = [u]"
| "code_points (u # v # t) =
     (if hi_sur u \<and> lo_sur v then (65536 + (u - 55296) * 1024 + (v - 56320)) # code_points t
      else u # code_points (v # t))"

definition utf16 :: "nat \<Rightarrow> jstr" where
  "utf16 c = (if c < 65536 then [c] else [55296 + (c - 65536) div 1024, 56320 + (c - 65536) mod 1024])"

definition scalar :: "nat \<Rightarrow> bool" where
  "scalar c \<longleftrightarrow> c < 1114112 \<and> \<not> (55296 \<le> c \<and> c \<le> 57343)"

definition well_formed :: "jstr \<Rightarrow> bool" where
  "well_formed s \<longleftrightarrow> list_all (\<lambda>u. u < 65536) s \<and> list_all scalar (code_points s)"

definition utf8 :: "nat \<Rightarrow> nat list" where
  "utf8 c =
     (if c < 128 then [c]
      else if c < 2048 then [192 + c div 64, 128 + c mod 64]
      else if c < 65536 then [224 + c div 4096, 128 + c div 64 mod 64, 128 + c mod 64]
      else [240 + c div 262144, 128 + c div 4096 mod 64, 128 + c div 64 mod 64, 128 + c mod 64])"

lemma scalar_utf16: "scalar c \<Longrightarrow> code_points (utf16 c @ s) = c # code_points s"
proof -
  assume c: "scalar c"
  show ?thesis
  proof (cases "c < 65536")
    case True
    with c have "\<not> hi_sur c" by (auto simp: scalar_def hi_sur_def)
    with True show ?thesis by (cases s) (auto simp: utf16_def)
  next
    case False
    let ?d = "c - 65536"
    have "?d < 1048576" using c False by (auto simp: scalar_def)
    then have "?d div 1024 < 1024" "?d mod 1024 < 1024" by auto
    then have "hi_sur (55296 + ?d div 1024)" "lo_sur (56320 + ?d mod 1024)" by (auto simp: hi_sur_def lo_sur_def)
    moreover have "65536 + ?d div 1024 * 1024 + ?d mod 1024 = c"
      using False div_mult_mod_eq [of ?d 1024] by linarith
    ultimately show ?thesis using False by (simp add: utf16_def)
  qed
qed

lemma code_points_pair:
  assumes "hi_sur u" "lo_sur v"
  shows "utf16 (65536 + (u - 55296) * 1024 + (v - 56320)) = [u, v]"
proof -
  let ?d = "(u - 55296) * 1024 + (v - 56320)"
  have "v - 56320 < 1024" using assms by (auto simp: lo_sur_def)
  then have "?d div 1024 = u - 55296" "?d mod 1024 = v - 56320" by simp_all
  with assms show ?thesis by (auto simp: utf16_def hi_sur_def lo_sur_def add.assoc)
qed

lemma utf16_code_points: "list_all (\<lambda>u. u < 65536) s \<Longrightarrow> concat (map utf16 (code_points s)) = s"
proof (induction s rule: code_points.induct)
  case (3 u v t)
  show ?case
  proof (cases "hi_sur u \<and> lo_sur v")
    case True
    then show ?thesis using 3 code_points_pair [of u v] by simp
  next
    case False
    then have "code_points (u # v # t) = u # code_points (v # t)" by auto
    with False 3 show ?thesis by (simp add: utf16_def)
  qed
qed (auto simp: utf16_def)

subsection \<open>\<open>encodeURIComponent\<close>\<close>

definition unreserved :: "nat \<Rightarrow> bool" where
  "unreserved u \<longleftrightarrow> 48 \<le> u \<and> u \<le> 57 \<or> 65 \<le> u \<and> u \<le> 90 \<or> 97 \<le> u \<and> u \<le> 122
     \<or> u \<in> set (js ''-_.!~*'' @ [39] @ js ''()'')"

definition hex_digit :: "nat \<Rightarrow> nat" where
  "hex_digit n = (if n < 10 then 48 + n else 55 + n)"

definition pct :: "nat \<Rightarrow> jstr" where
  "pct b = [37, hex_digit (b div 16), hex_digit (b mod 16)]"

definition enc_point :: "nat \<Rightarrow> jstr" where
  "enc_point c = (if unreserved c then [c] else concat (map pct (utf8 c)))"

definition encodeURIComponent :: "jstr \<Rightarrow> jstr option" where
  "encodeURIComponent s =
     (if list_all scalar (code_points s) then Some (concat (map enc_point (code_points s))) else None)"

subsection \<open>\<open>decodeURIComponent\<close>\<close>

definition hex_val :: "nat \<Rightarrow> nat option" where
  "hex_val u = (if 48 \<le> u \<and> u \<le> 57 then Some (u - 48)
     else if 65 \<le> u \<and> u \<le> 70 then Some (u - 55)
     else if 97 \<le> u \<and> u \<le> 102 then Some (u - 87) else None)"

text \<open>One escape \<open>%XY\<close> at the head of a string, and the rest.\<close>

definition escape :: "jstr \<Rightarrow> (nat \<times> jstr) option" where
  "escape s = (case s of
      p # a # b # t \<Rightarrow>
        if p = 37 then (case (hex_val a, hex_val b) of (Some x, Some y) \<Rightarrow> Some (16 * x + y, t) | _ \<Rightarrow> None)
        else None
    | _ \<Rightarrow> None)"

text \<open>\<open>n\<close> continuation bytes, accumulated onto the code point.\<close>

fun conts :: "nat \<Rightarrow> nat \<Rightarrow> jstr \<Rightarrow> (nat \<times> jstr) option" where
  "conts 0 c s = Some (c, s)"
| "conts (Suc n) c s =
     (case escape s of
        Some (b, t) \<Rightarrow> if 128 \<le> b \<and> b \<le> 191 then conts n (c * 64 + (b - 128)) t else None
      | None \<Rightarrow> None)"

text \<open>The escaped character at the head of a string: the lead byte fixes the length, and overlong
  forms, surrogates and values past the last code point are refused.\<close>

definition escaped_point :: "jstr \<Rightarrow> (nat \<times> jstr) option" where
  "escaped_point s =
     (case escape s of
        None \<Rightarrow> None
      | Some (b, t) \<Rightarrow>
          if b < 128 then Some (b, t)
          else if b < 192 \<or> 248 \<le> b then None
          else
            (case (if b < 224 then conts 1 (b - 192) t else if b < 240 then conts 2 (b - 224) t else conts 3 (b - 240) t) of
               None \<Rightarrow> None
             | Some (c, r) \<Rightarrow>
                 if scalar c \<and> (if b < 224 then 128 else if b < 240 then 2048 else 65536) \<le> c then Some (c, r) else None))"

lemma escape_shorter: "escape s = Some (b, t) \<Longrightarrow> length t < length s"
  by (auto simp: escape_def split: list.splits option.splits if_splits)

lemma conts_shorter: "conts n c s = Some (d, t) \<Longrightarrow> length t \<le> length s"
proof (induction n c s rule: conts.induct)
  case (2 n c s)
  then obtain b r where e: "escape s = Some (b, r)" "128 \<le> b \<and> b \<le> 191" "conts n (c * 64 + (b - 128)) r = Some (d, t)"
    by (auto split: option.splits if_splits)
  from "2.IH" [OF e(1) refl e(2,3)] escape_shorter [OF e(1)] show ?case by simp
qed simp

lemma escaped_shorter: "escaped_point s = Some (c, t) \<Longrightarrow> length t < length s"
  by (auto simp: escaped_point_def split: option.splits if_splits dest!: escape_shorter conts_shorter)

function decodeURIComponent :: "jstr \<Rightarrow> jstr option" where
  "decodeURIComponent [] = Some []"
| "decodeURIComponent (u # s) =
     (if u \<noteq> 37 then map_option (Cons u) (decodeURIComponent s)
      else (case escaped_point (u # s) of
              None \<Rightarrow> None
            | Some (c, t) \<Rightarrow> map_option (append (utf16 c)) (decodeURIComponent t)))"
  by pat_completeness auto
termination
  by (relation "measure length") (auto dest: escaped_shorter)

declare decodeURIComponent.simps(2) [simp del]

subsection \<open>The round trip of a component\<close>

lemma hex_round: "n < 16 \<Longrightarrow> hex_val (hex_digit n) = Some n"
  by (auto simp: hex_val_def hex_digit_def)

lemma escape_pct: "b < 256 \<Longrightarrow> escape (pct b @ s) = Some (b, s)"
proof -
  assume "b < 256"
  then have "b div 16 < 16" "b mod 16 < 16" by auto
  then show ?thesis by (simp add: escape_def pct_def hex_round)
qed

lemma byte_parts:
  "c < 2048 \<Longrightarrow> 192 + c div 64 < 224" "c < 65536 \<Longrightarrow> 224 + c div 4096 < 240"
  "c < 1114112 \<Longrightarrow> 240 + c div 262144 < 248"
  "128 + x mod 64 \<le> (191 :: nat)"
  for c :: nat
  using less_mult_imp_div_less [of c 32 64] less_mult_imp_div_less [of c 16 4096]
    less_mult_imp_div_less [of c 5 262144] by (auto simp: less_Suc_eq_le)

lemma div_steps:
  fixes c :: nat
  shows "c div 64 * 64 + c mod 64 = c" "c div 4096 * 64 + c div 64 mod 64 = c div 64"
    "c div 262144 * 64 + c div 4096 mod 64 = c div 4096"
proof -
  have "c div 64 div 64 = c div 4096" "c div 4096 div 64 = c div 262144" by (simp_all add: div_mult2_eq [symmetric])
  then show "c div 64 * 64 + c mod 64 = c" "c div 4096 * 64 + c div 64 mod 64 = c div 64"
    "c div 262144 * 64 + c div 4096 mod 64 = c div 4096"
    by (metis div_mult_mod_eq)+
qed

lemma conts_pct:
  "b \<le> 191 \<Longrightarrow> 128 \<le> b \<Longrightarrow> conts (Suc n) c (pct b @ s) = conts n (c * 64 + (b - 128)) s"
  by (simp add: escape_pct)

lemma escaped_utf8:
  assumes "scalar c"
  shows "escaped_point (concat (map pct (utf8 c)) @ s) = Some (c, s)"
proof -
  have m: "128 + x mod 64 \<le> 191" "128 \<le> 128 + x mod (64 :: nat)" for x :: nat
    using byte_parts(4) by simp_all
  consider "c < 128" | "128 \<le> c" "c < 2048" | "2048 \<le> c" "c < 65536" | "65536 \<le> c" "c < 1114112"
    using assms unfolding scalar_def by linarith
  then show ?thesis
  proof cases
    case 1 then show ?thesis by (simp add: utf8_def escaped_point_def escape_pct)
  next
    case 2
    have "conts (Suc 0) (c div 64) (pct (128 + c mod 64) @ s) = Some (c, s)"
      using conts_pct [OF m, of 0 "c div 64" c s] div_steps(1) [of c] by simp
    then show ?thesis using 2 assms byte_parts(1) [of c]
      by (simp add: utf8_def escaped_point_def escape_pct)
  next
    case 3
    have "conts (Suc (Suc 0)) (c div 4096) (pct (128 + c div 64 mod 64) @ pct (128 + c mod 64) @ s) = Some (c, s)"
      using conts_pct [OF m, of "Suc 0" "c div 4096" "c div 64" "pct (128 + c mod 64) @ s"]
        conts_pct [OF m, of 0 "c div 64" c s] div_steps(1,2) [of c] by simp
    then show ?thesis using 3 assms byte_parts(2) [of c]
      by (simp add: utf8_def escaped_point_def escape_pct numeral_2_eq_2)
  next
    case 4
    have "conts (Suc (Suc (Suc 0))) (c div 262144) (pct (128 + c div 4096 mod 64) @ pct (128 + c div 64 mod 64) @ pct (128 + c mod 64) @ s) = Some (c, s)"
      using conts_pct [OF m, of "Suc (Suc 0)" "c div 262144" "c div 4096" "pct (128 + c div 64 mod 64) @ pct (128 + c mod 64) @ s"]
        conts_pct [OF m, of "Suc 0" "c div 4096" "c div 64" "pct (128 + c mod 64) @ s"]
        conts_pct [OF m, of 0 "c div 64" c s] div_steps [of c] by simp
    then show ?thesis using 4 assms byte_parts(3) [of c]
      by (simp add: utf8_def escaped_point_def escape_pct numeral_3_eq_3)
  qed
qed

lemma unreserved_small: "unreserved c \<Longrightarrow> c < 128 \<and> c \<noteq> 37 \<and> c \<noteq> 47 \<and> c \<noteq> 63"
  by (auto simp: unreserved_def js_def)

lemma decode_enc_point:
  assumes "scalar c"
  shows "decodeURIComponent (enc_point c @ s) = map_option (append (utf16 c)) (decodeURIComponent s)"
proof (cases "unreserved c")
  case True
  with unreserved_small [OF True] show ?thesis
    by (simp add: enc_point_def decodeURIComponent.simps(2) utf16_def cong: map_option_cong)
next
  case False
  obtain t where t: "concat (map pct (utf8 c)) @ s = 37 # t"
    by (cases "c < 128"; cases "c < 2048"; cases "c < 65536") (auto simp: utf8_def pct_def)
  have "escaped_point (37 # t) = Some (c, s)" using escaped_utf8 [OF assms, of s] t by simp
  then have "decodeURIComponent (37 # t) = map_option (append (utf16 c)) (decodeURIComponent s)"
    by (simp add: decodeURIComponent.simps(2))
  with False t show ?thesis by (simp add: enc_point_def)
qed

lemma decode_enc_points:
  "list_all scalar cs \<Longrightarrow>
     decodeURIComponent (concat (map enc_point cs) @ s)
       = map_option (append (concat (map utf16 cs))) (decodeURIComponent s)"
proof (induction cs arbitrary: s)
  case Nil show ?case by (cases "decodeURIComponent s") auto
next
  case (Cons c cs) then show ?case by (cases "decodeURIComponent s") (auto simp: decode_enc_point)
qed

lemma component_roundtrip:
  assumes "well_formed s"
  obtains e where "encodeURIComponent s = Some e" "decodeURIComponent e = Some s"
proof -
  have "list_all scalar (code_points s)" using assms by (simp add: well_formed_def)
  then have "encodeURIComponent s = Some (concat (map enc_point (code_points s)))"
    "decodeURIComponent (concat (map enc_point (code_points s))) = Some (concat (map utf16 (code_points s)))"
    using decode_enc_points [of "code_points s" "[]"] by (simp_all add: encodeURIComponent_def)
  with utf16_code_points assms that show ?thesis by (simp add: well_formed_def)
qed


subsection \<open>\<open>URLSearchParams\<close>\<close>

definition form_safe :: "nat \<Rightarrow> bool" where
  "form_safe u \<longleftrightarrow> 48 \<le> u \<and> u \<le> 57 \<or> 65 \<le> u \<and> u \<le> 90 \<or> 97 \<le> u \<and> u \<le> 122
     \<or> u = 42 \<or> u = 45 \<or> u = 46 \<or> u = 95"

definition form_byte :: "nat \<Rightarrow> jstr" where
  "form_byte b = (if b = 32 then [43] else if form_safe b then [b] else pct b)"

definition usv :: "jstr \<Rightarrow> nat list" where
  "usv s = map (\<lambda>c. if scalar c then c else 65533) (code_points s)"

definition utf8_string :: "jstr \<Rightarrow> nat list" where
  "utf8_string s = concat (map utf8 (usv s))"

definition form_encode :: "jstr \<Rightarrow> jstr" where
  "form_encode s = concat (map form_byte (utf8_string s))"

definition params_string :: "(jstr \<times> jstr) list \<Rightarrow> jstr" where
  "params_string ps = join [38] (map (\<lambda>(k, v). form_encode k @ 61 # form_encode v) ps)"

text \<open>Escapes of a byte sequence; a percent sign that starts no escape stands for itself.\<close>

fun pct_bytes :: "nat list \<Rightarrow> nat list" where
  "pct_bytes (p # a # b # t) =
     (if p = 37 then
        (case (hex_val a, hex_val b) of
           (Some x, Some y) \<Rightarrow> (16 * x + y) # pct_bytes t
         | _ \<Rightarrow> p # pct_bytes (a # b # t))
      else p # pct_bytes (a # b # t))"
| "pct_bytes s = s"

text \<open>The UTF-8 decoder of the encoding standard: the bytes still needed, the code point so far and
  the bounds of the next byte. A malformed sequence gives U+FFFD and its last byte is read again.\<close>

function utf8_decode :: "nat \<Rightarrow> nat \<Rightarrow> nat \<Rightarrow> nat \<Rightarrow> nat list \<Rightarrow> nat list" where
  "utf8_decode 0 c lo hi [] = []"
| "utf8_decode (Suc n) c lo hi [] = [65533]"
| "utf8_decode 0 c lo hi (b # bs) =
     (if b < 128 then b # utf8_decode 0 0 128 191 bs
      else if 194 \<le> b \<and> b \<le> 223 then utf8_decode 1 (b - 192) 128 191 bs
      else if 224 \<le> b \<and> b \<le> 239 then
        utf8_decode 2 (b - 224) (if b = 224 then 160 else 128) (if b = 237 then 159 else 191) bs
      else if 240 \<le> b \<and> b \<le> 244 then
        utf8_decode 3 (b - 240) (if b = 240 then 144 else 128) (if b = 244 then 143 else 191) bs
      else 65533 # utf8_decode 0 0 128 191 bs)"
| "utf8_decode (Suc n) c lo hi (b # bs) =
     (if lo \<le> b \<and> b \<le> hi then
        (let c' = c * 64 + (b - 128)
         in if n = 0 then c' # utf8_decode 0 0 128 191 bs else utf8_decode n c' 128 191 bs)
      else 65533 # utf8_decode 0 0 128 191 (b # bs))"
  by pat_completeness auto
termination
  by (relation "measure (\<lambda>(n, c, lo, hi, bs). 2 * length bs + (if n = 0 then 0 else 1))") auto

definition form_decode :: "jstr \<Rightarrow> jstr" where
  "form_decode s =
     concat (map utf16 (utf8_decode 0 0 128 191
       (pct_bytes (utf8_string (map (\<lambda>u. if u = 43 then 32 else u) s)))))"

definition parse_pair :: "jstr \<Rightarrow> jstr \<times> jstr" where
  "parse_pair w =
     (case first_index 61 w of
        None \<Rightarrow> (form_decode w, [])
      | Some i \<Rightarrow> (form_decode (take i w), form_decode (drop (Suc i) w)))"

text \<open>\<open>new URLSearchParams(s)\<close>: one leading question mark is dropped.\<close>

definition parse_params :: "jstr \<Rightarrow> (jstr \<times> jstr) list" where
  "parse_params s =
     (let q = (if s \<noteq> [] \<and> hd s = 63 then tl s else s)
      in map parse_pair (filter (\<lambda>w. w \<noteq> []) (split_on 38 q)))"

definition param_get :: "(jstr \<times> jstr) list \<Rightarrow> jstr \<Rightarrow> jstr option" where
  "param_get ps k = map_of ps k"

definition param_has :: "(jstr \<times> jstr) list \<Rightarrow> jstr \<Rightarrow> bool" where
  "param_has ps k \<longleftrightarrow> map_of ps k \<noteq> None"

definition param_delete :: "(jstr \<times> jstr) list \<Rightarrow> jstr \<Rightarrow> (jstr \<times> jstr) list" where
  "param_delete ps k = filter (\<lambda>(k', v). k' \<noteq> k) ps"

subsection \<open>The round trip of a query\<close>

lemma pct_bytes_Cons: "p \<noteq> 37 \<Longrightarrow> pct_bytes (p # s) = p # pct_bytes s"
  by (cases s rule: pct_bytes.cases) auto

lemma pct_bytes_pct: "b < 256 \<Longrightarrow> pct_bytes (pct b @ s) = b # pct_bytes s"
proof -
  assume "b < 256"
  then have "b div 16 < 16" "b mod 16 < 16" by auto
  then show ?thesis by (simp add: pct_def hex_round)
qed

lemma hex_ascii: "n < 16 \<Longrightarrow> hex_digit n < 128 \<and> hex_digit n \<noteq> 43 \<and> hex_digit n \<noteq> 38 \<and> hex_digit n \<noteq> 61"
  by (simp add: hex_digit_def)

lemma form_byte_ascii:
  assumes "b < 256" "u \<in> set (form_byte b)"
  shows "u < 128" "u \<noteq> 38" "u \<noteq> 61"
proof -
  have "b div 16 < 16" "b mod 16 < 16" using assms(1) by auto
  with assms hex_ascii show "u < 128" "u \<noteq> 38" "u \<noteq> 61"
    by (auto simp: form_byte_def form_safe_def pct_def split: if_splits)
qed

lemma utf8_bytes:
  assumes "scalar c" "b \<in> set (utf8 c)" shows "b < 256"
proof -
  have "c < 1114112" using assms(1) by (simp add: scalar_def)
  moreover have "x mod 64 < 64" for x :: nat by simp
  moreover have "c < 2048 \<Longrightarrow> c div 64 < 32" "c < 65536 \<Longrightarrow> c div 4096 < 16" "c < 1114112 \<Longrightarrow> c div 262144 < 5"
    using less_mult_imp_div_less [of c 32 64] less_mult_imp_div_less [of c 16 4096]
      less_mult_imp_div_less [of c 5 262144] by auto
  ultimately show ?thesis using assms(2)
    by (auto simp: utf8_def split: if_splits)
qed

lemma code_points_ascii: "list_all (\<lambda>u. u < 128) s \<Longrightarrow> code_points s = s"
  by (induction s rule: code_points.induct) (auto simp: hi_sur_def)

lemma utf8_string_ascii:
  assumes "list_all (\<lambda>u. u < 128) s" shows "utf8_string s = s"
proof -
  have "usv s = s"
    unfolding usv_def code_points_ascii [OF assms] using assms
    by (intro map_idI) (auto simp: list_all_iff scalar_def)
  moreover have "concat (map utf8 s) = s" using assms by (induction s) (auto simp: utf8_def)
  ultimately show ?thesis by (simp add: utf8_string_def)
qed

lemma form_bytes_back:
  "\<forall>b \<in> set bs. b < 256 \<Longrightarrow>
     pct_bytes (map (\<lambda>u. if u = 43 then 32 else u) (concat (map form_byte bs))) = bs"
proof (induction bs)
  case (Cons b bs)
  have p: "map (\<lambda>u. if u = 43 then 32 else u) (pct b) = pct b"
  proof -
    have "b div 16 < 16" "b mod 16 < 16" using Cons.prems by auto
    with hex_ascii show ?thesis by (simp add: pct_def)
  qed
  show ?case using Cons
    by (auto simp: form_byte_def form_safe_def pct_bytes_Cons p pct_bytes_pct)
qed simp


lemma mod_bounds: "128 + x mod 64 \<le> (191 :: nat)" "128 + x mod 64 - 128 = x mod (64 :: nat)"
  by (simp_all add: less_Suc_eq_le)

lemma utf8_decode_last: "128 \<le> lo \<Longrightarrow> lo \<le> 128 + x mod 64 \<Longrightarrow> 128 + x mod 64 \<le> hi \<Longrightarrow>
    utf8_decode 1 c lo hi ((128 + x mod 64) # bs) = (c * 64 + x mod 64) # utf8_decode 0 0 128 191 bs"
  by (simp add: Let_def)

lemma utf8_decode_next: "lo \<le> 128 + x mod 64 \<Longrightarrow> 128 + x mod 64 \<le> hi \<Longrightarrow> n \<noteq> 0 \<Longrightarrow>
    utf8_decode (Suc n) c lo hi ((128 + x mod 64) # bs) = utf8_decode n (c * 64 + x mod 64) 128 191 bs"
  by (simp add: Let_def)

lemma utf8_decode_point:
  assumes "scalar c"
  shows "utf8_decode 0 0 128 191 (utf8 c @ bs) = c # utf8_decode 0 0 128 191 bs"
proof -
  have cmax: "c < 1114112" "\<not> (55296 \<le> c \<and> c \<le> 57343)" using assms by (simp_all add: scalar_def)
  note d = div_steps [of c]
  have m: "c mod 64 < 64" "c div 64 mod 64 < 64" "c div 4096 mod 64 < 64" by simp_all
  consider "c < 128" | "128 \<le> c" "c < 2048" | "2048 \<le> c" "c < 65536" | "65536 \<le> c"
    using cmax by linarith
  then show ?thesis
  proof cases
    case 1 then show ?thesis by (simp add: utf8_def)
  next
    case 2
    have q: "2 \<le> c div 64" "c div 64 \<le> 31" using 2 d(1) m(1) by linarith+
    then have "utf8_decode 0 0 128 191 (utf8 c @ bs) = utf8_decode 1 (c div 64) 128 191 ((128 + c mod 64) # bs)"
      using 2 by (simp add: utf8_def)
    also have "\<dots> = c # utf8_decode 0 0 128 191 bs"
      using utf8_decode_last [of 128 c 191 "c div 64" bs] mod_bounds(1) [of c] d(1) by simp
    finally show ?thesis .
  next
    case 3
    let ?q = "c div 4096" and ?r = "c div 64 mod 64"
    have q: "?q \<le> 15" using 3 d m by linarith
    have lo: "?q = 0 \<Longrightarrow> 32 \<le> ?r" using 3 d m by linarith
    have hi: "?q = 13 \<Longrightarrow> ?r \<le> 31" using cmax d m by linarith
    let ?lo = "if 224 + ?q = 224 then 160 else 128 :: nat" and ?hi = "if 224 + ?q = 237 then 159 else 191 :: nat"
    have b: "?lo \<le> 128 + ?r" "128 + ?r \<le> ?hi" using lo hi mod_bounds(1) [of "c div 64"] by auto
    have "utf8_decode 0 0 128 191 (utf8 c @ bs)
        = utf8_decode 2 ?q ?lo ?hi ((128 + ?r) # (128 + c mod 64) # bs)"
      using 3 q by (simp add: utf8_def)
    also have "\<dots> = utf8_decode 1 (?q * 64 + ?r) 128 191 ((128 + c mod 64) # bs)"
      using utf8_decode_next [OF b, of 1 ?q] by (simp add: numeral_2_eq_2)
    also have "\<dots> = c # utf8_decode 0 0 128 191 bs"
      using utf8_decode_last [of 128 c 191 "c div 64" bs] mod_bounds(1) [of c] d by simp
    finally show ?thesis .
  next
    case 4
    let ?q = "c div 262144" and ?r = "c div 4096 mod 64"
    have q: "?q \<le> 4" using cmax d m by linarith
    have lo: "?q = 0 \<Longrightarrow> 16 \<le> ?r" using 4 d m by linarith
    have hi: "?q = 4 \<Longrightarrow> ?r \<le> 15" using cmax d m by linarith
    let ?lo = "if 240 + ?q = 240 then 144 else 128 :: nat" and ?hi = "if 240 + ?q = 244 then 143 else 191 :: nat"
    have b: "?lo \<le> 128 + ?r" "128 + ?r \<le> ?hi" using lo hi mod_bounds(1) [of "c div 4096"] by auto
    have "utf8_decode 0 0 128 191 (utf8 c @ bs)
        = utf8_decode 3 ?q ?lo ?hi ((128 + ?r) # (128 + c div 64 mod 64) # (128 + c mod 64) # bs)"
      using 4 q by (simp add: utf8_def)
    also have "\<dots> = utf8_decode 2 (?q * 64 + ?r) 128 191 ((128 + c div 64 mod 64) # (128 + c mod 64) # bs)"
      using utf8_decode_next [OF b, of 2 ?q] by (simp add: numeral_3_eq_3)
    also have "\<dots> = utf8_decode 1 (c div 64) 128 191 ((128 + c mod 64) # bs)"
      using utf8_decode_next [of 128 "c div 64" 191 1 "c div 4096"] mod_bounds(1) [of "c div 64"] d
      by (simp add: numeral_2_eq_2)
    also have "\<dots> = c # utf8_decode 0 0 128 191 bs"
      using utf8_decode_last [of 128 c 191 "c div 64" bs] mod_bounds(1) [of c] d by simp
    finally show ?thesis .
  qed
qed

lemma utf8_decode_points:
  "list_all scalar cs \<Longrightarrow> utf8_decode 0 0 128 191 (concat (map utf8 cs)) = cs"
  by (induction cs) (simp_all add: utf8_decode_point)

lemma form_encode_ascii:
  assumes "well_formed s"
  shows "list_all (\<lambda>u. u < 128) (form_encode s)" "38 \<notin> set (form_encode s)" "61 \<notin> set (form_encode s)"
proof -
  have sc: "list_all scalar (usv s)" by (auto simp: usv_def list_all_iff scalar_def)
  have "b < 256" if "b \<in> set (utf8_string s)" for b
    using that sc utf8_bytes by (auto simp: utf8_string_def list_all_iff)
  then show "list_all (\<lambda>u. u < 128) (form_encode s)" "38 \<notin> set (form_encode s)" "61 \<notin> set (form_encode s)"
    using form_byte_ascii by (fastforce simp: form_encode_def list_all_iff)+
qed

lemma form_roundtrip:
  assumes "well_formed s"
  shows "form_decode (form_encode s) = s"
proof -
  have sc: "list_all scalar (code_points s)" and u: "list_all (\<lambda>u. u < 65536) s"
    using assms by (simp_all add: well_formed_def)
  have us: "usv s = code_points s"
    unfolding usv_def using sc by (intro map_idI) (auto simp: list_all_iff)
  have b: "\<forall>b \<in> set (utf8_string s). b < 256"
    using utf8_bytes sc by (auto simp: utf8_string_def us list_all_iff)
  let ?p = "map (\<lambda>u. if u = 43 then 32 else u) (form_encode s)"
  have "list_all (\<lambda>u. u < 128) ?p" using form_encode_ascii(1) [OF assms] by (auto simp: list_all_iff)
  then have "pct_bytes (utf8_string ?p) = utf8_string s"
    using form_bytes_back [OF b] by (simp add: utf8_string_ascii form_encode_def)
  then show ?thesis
    using utf8_decode_points [OF sc] utf16_code_points [OF u]
    by (simp add: form_decode_def utf8_string_def [of s] us)
qed

lemma parse_pair_string:
  assumes "well_formed k" "well_formed v"
  shows "parse_pair (form_encode k @ 61 # form_encode v) = (k, v)"
  using first_index_append [OF form_encode_ascii(3) [OF assms(1)], of "form_encode v"] assms
  by (simp add: parse_pair_def form_roundtrip)

lemma params_pairs:
  assumes "\<forall>(k, v) \<in> set ps. well_formed k \<and> well_formed v"
  shows "map parse_pair (filter (\<lambda>w. w \<noteq> []) (split_on 38 (params_string ps))) = ps"
proof (cases "ps = []")
  case True
  then show ?thesis by (simp add: params_string_def)
next
  case False
  let ?ws = "map (\<lambda>(k, v). form_encode k @ 61 # form_encode v) ps"
  have sp: "split_on 38 (params_string ps) = ?ws"
    unfolding params_string_def using False assms form_encode_ascii(2)
    by (intro split_on_join) auto
  have ne: "filter (\<lambda>w. w \<noteq> []) ?ws = ?ws" by (auto simp: filter_id_conv)
  have "map parse_pair ?ws = ps"
    using assms by (induction ps) (auto simp: parse_pair_string)
  with sp ne show ?thesis by simp
qed

lemma params_roundtrip:
  "\<forall>(k, v) \<in> set ps. well_formed k \<and> well_formed v \<Longrightarrow> parse_params (63 # params_string ps) = ps"
  using params_pairs by (simp add: parse_params_def)

lemma form_encode_safe: "list_all form_safe s \<Longrightarrow> form_encode s = s"
proof -
  assume s: "list_all form_safe s"
  then have "list_all (\<lambda>u. u < 128) s" by (auto simp: list_all_iff form_safe_def)
  then have "utf8_string s = s" by (rule utf8_string_ascii)
  moreover have "concat (map form_byte s) = s" using s by (induction s) (auto simp: form_byte_def form_safe_def)
  ultimately show ?thesis by (simp add: form_encode_def)
qed

lemma ascii_well_formed: "list_all (\<lambda>u. u < 128) s \<Longrightarrow> well_formed s"
  unfolding well_formed_def code_points_ascii by (auto simp: list_all_iff scalar_def code_points_ascii)

lemma safe_well_formed: "list_all form_safe s \<Longrightarrow> well_formed s"
  by (rule ascii_well_formed) (auto simp: list_all_iff form_safe_def)

lemma form_encode_Nil [simp]: "form_encode [] = []"
  by (simp add: form_encode_def utf8_string_def usv_def)

subsection \<open>Splitting at an ASCII character\<close>

lemma code_points_cut: "c < 128 \<Longrightarrow> code_points (u @ c # v) = code_points u @ c # code_points v"
proof (induction u rule: code_points.induct)
  case 1
  then show ?case by (cases v) (auto simp: hi_sur_def)
next
  case (2 x)
  then have "\<not> lo_sur c" "\<not> hi_sur c" by (auto simp: lo_sur_def hi_sur_def)
  then show ?case by (cases v) auto
next
  case (3 x y t)
  then show ?case by auto
qed

lemma well_formed_cut: "c < 128 \<Longrightarrow> well_formed (u @ c # v) \<longleftrightarrow> well_formed u \<and> well_formed v"
  by (auto simp: well_formed_def code_points_cut scalar_def)

lemma well_formed_parts: "c < 128 \<Longrightarrow> well_formed s \<Longrightarrow> w \<in> set (split_on c s) \<Longrightarrow> well_formed w"
proof (induction "length s" arbitrary: s w rule: less_induct)
  case less
  show ?case
  proof (cases "c \<in> set s")
    case False
    with less.prems show ?thesis by (simp add: split_on_free)
  next
    case True
    then obtain u v where s: "s = u @ c # v" "c \<notin> set u" by (meson split_list_first)
    have "w = u \<or> w \<in> set (split_on c v)" using less.prems(3) s by (simp add: split_on_append)
    moreover have "well_formed u" "well_formed v" using less.prems s well_formed_cut by auto
    ultimately show ?thesis using less.hyps [of v w] less.prems(1) s by auto
  qed
qed

end
