(* ===== verification/Router.thy ===== *)
theory Router
  imports Uri Meeting
begin

section \<open>URLs and routes (router.ts)\<close>

text \<open>
  The native path router: what a location means (\<open>parseRoute\<close>) and the URLs the app builds
  (\<open>urlForPath\<close>, \<open>urlForView\<close>). A function that encodes is partial like \<open>encodeURIComponent\<close>
  (\<open>None\<close> is its \<open>URIError\<close>); decoding never fails, an undecodable segment stays as it is.
\<close>

definition seq_option :: "'a option list \<Rightarrow> 'a list option" where
  "seq_option xs = (if list_all (\<lambda>x. x \<noteq> None) xs then Some (map the xs) else None)"

definition encodePath :: "jstr \<Rightarrow> jstr option" where
  "encodePath p = map_option (join [47]) (seq_option (map encodeURIComponent (split_on 47 p)))"

definition decodeSegment :: "jstr \<Rightarrow> jstr" where
  "decodeSegment s = (case decodeURIComponent s of None \<Rightarrow> s | Some d \<Rightarrow> d)"

definition decodePath :: "jstr \<Rightarrow> jstr" where
  "decodePath p = join [47] (map decodeSegment (split_on 47 p))"

datatype ViewName = VDashboard | VHistory | VInstall | VSettings

definition VIEW_SEGMENTS :: "ViewName \<Rightarrow> jstr" where
  "VIEW_SEGMENTS v = (case v of VDashboard \<Rightarrow> js ''insights'' | VHistory \<Rightarrow> js ''activity''
     | VInstall \<Rightarrow> js ''install'' | VSettings \<Rightarrow> js ''settings'')"

definition SEGMENT_VIEWS :: "(jstr \<times> ViewName) list" where
  "SEGMENT_VIEWS = [(js ''insights'', VDashboard), (js ''activity'', VHistory), (js ''install'', VInstall),
     (js ''settings'', VSettings)]"

definition VIEW_ROUTES :: "jstr list" where
  "VIEW_ROUTES = map fst SEGMENT_VIEWS"

definition LEGACY_VIEWS :: "(jstr \<times> ViewName) list" where
  "LEGACY_VIEWS = [(js ''dashboard'', VDashboard), (js ''history'', VHistory)]"

text \<open>Own-property lookups: a name of \<open>Object.prototype\<close> is not found.\<close>

definition legacyView :: "jstr \<Rightarrow> ViewName option" where
  "legacyView head = map_of LEGACY_VIEWS head"

definition segmentView :: "jstr \<Rightarrow> ViewName option" where
  "segmentView head = map_of SEGMENT_VIEWS head"

record HistoryFilters =
  f_q :: "jstr option"
  f_user :: "jstr option"
  f_actor :: "jstr option"
  f_device :: "jstr option"
  f_range :: "jstr option"
  f_since :: "jstr option"
  f_until :: "jstr option"

definition no_filters :: HistoryFilters where
  "no_filters = \<lparr>f_q = None, f_user = None, f_actor = None, f_device = None, f_range = None, f_since = None, f_until = None\<rparr>"

definition HISTORY_FILTER_KEYS :: "jstr list" where
  "HISTORY_FILTER_KEYS = [js ''q'', js ''user'', js ''actor'', js ''device'', js ''range'', js ''since'', js ''until'']"

definition filter_values :: "HistoryFilters \<Rightarrow> jstr option list" where
  "filter_values f = [f_q f, f_user f, f_actor f, f_device f, f_range f, f_since f, f_until f]"

definition hasHistoryFilters :: "HistoryFilters option \<Rightarrow> bool" where
  "hasHistoryFilters f = (case f of None \<Rightarrow> False | Some g \<Rightarrow> list_ex truthy (filter_values g))"

definition filter_pairs :: "HistoryFilters \<Rightarrow> (jstr \<times> jstr) list" where
  "filter_pairs f = concat (map (\<lambda>(k, v). if truthy v then [(k, the v)] else []) (zip HISTORY_FILTER_KEYS (filter_values f)))"

definition historyFilterQuery :: "HistoryFilters option \<Rightarrow> jstr" where
  "historyFilterQuery f =
     (let s = params_string (case f of None \<Rightarrow> [] | Some g \<Rightarrow> filter_pairs g)
      in if s \<noteq> [] then 63 # s else [])"

record Route =
  org :: "jstr option"
  billing :: bool
  connections :: bool
  project :: "jstr option"
  rpath :: jstr
  view :: "ViewName option"
  viewTarget :: "jstr option"
  is_legacyView :: bool
  trailingSlash :: bool
  version :: "jstr option"
  connect_q :: "jstr option"
  editing :: bool
  full :: bool
  comment :: "jstr option"
  filters :: "HistoryFilters option"
  queryTarget :: bool

definition new_route :: Route where
  "new_route = \<lparr>org = None, billing = False, connections = False, project = None, rpath = [], view = None,
     viewTarget = None, is_legacyView = False, trailingSlash = False, version = None, connect_q = None,
     editing = False, full = False, comment = None, filters = None, queryTarget = False\<rparr>"

definition VIEW_TITLES :: "ViewName \<Rightarrow> jstr" where
  "VIEW_TITLES v = (case v of VDashboard \<Rightarrow> js ''Insights'' | VHistory \<Rightarrow> js ''Activity''
     | VInstall \<Rightarrow> js ''Install'' | VSettings \<Rightarrow> js ''Settings'')"

definition docTitle :: "jstr \<Rightarrow> jstr" where
  "docTitle path =
     (let name = after_last 47 path; t = (if ends_md name then take (length name - 3) name else name)
      in if t \<noteq> [] then t else name)"

definition titleForRoute :: "Route \<Rightarrow> jstr \<Rightarrow> jstr" where
  "titleForRoute route scope =
     (let page =
        (case view route of
           Some v \<Rightarrow>
             (if truthy (viewTarget route) then docTitle (the (viewTarget route)) @ [32, 183, 32] @ VIEW_TITLES v
              else VIEW_TITLES v)
         | None \<Rightarrow>
             if rpath route \<noteq> [] then
               docTitle (rpath route) @ (if editing route then [32, 183] @ js '' Editing''
                 else if truthy (version route) then [32, 183] @ js '' Version'' else [])
             else [])
      in if page \<noteq> [] then page @ [32, 8212, 32] @ scope else scope)"

subsection \<open>Parsing\<close>

definition withPath :: "Route \<Rightarrow> jstr \<Rightarrow> Route" where
  "withPath r raw =
     (let p = strip_end 47 raw
      in r\<lparr>trailingSlash := trailingSlash r \<or> p \<noteq> raw, rpath := (if p \<noteq> [] then decodePath p else [])\<rparr>)"

definition takeEdit :: "Route \<Rightarrow> Route" where
  "takeEdit r =
     (if hd (split_on 47 (rpath r)) \<noteq> js ''edit'' then r
      else r\<lparr>editing := True, rpath := strip_end 47 (drop 5 (rpath r))\<rparr>)"

text \<open>The end of \<open>parsePath\<close>: the first segment of the decoded path names an edit session or a view.\<close>

definition first_segment :: "jstr \<Rightarrow> jstr" where
  "first_segment p = (case first_index 47 p of None \<Rightarrow> p | Some i \<Rightarrow> take i p)"

definition after_first :: "jstr \<Rightarrow> jstr" where
  "after_first p = (case first_index 47 p of None \<Rightarrow> [] | Some i \<Rightarrow> strip_end 47 (drop (i + 1) p))"

definition takeView :: "Route \<Rightarrow> Route" where
  "takeView r =
     (let head = first_segment (rpath r); legacy = legacyView head; canonical = segmentView head
      in if head = js ''edit'' then takeEdit r
         else if canonical \<noteq> None \<or> legacy \<noteq> None then
           r\<lparr>view := (if canonical \<noteq> None then canonical else legacy), is_legacyView := (legacy \<noteq> None),
             viewTarget := Some (after_first (rpath r)), rpath := []\<rparr>
         else r)"

definition parsePath :: "jstr \<Rightarrow> bool \<Rightarrow> Route" where
  "parsePath pathname hub =
     (let raw = strip_start 47 pathname
      in if \<not> hub then takeEdit (withPath new_route raw)
      else if raw = js ''orgs'' \<or> starts_with raw (js ''orgs/'') then
        new_route\<lparr>org := Some (strip_end 47 (drop 5 raw))\<rparr>
      else if raw = js ''billing'' \<or> starts_with raw (js ''billing/'') then new_route\<lparr>billing := True\<rparr>
      else if raw = js ''connections'' \<or> starts_with raw (js ''connections/'') then new_route\<lparr>connections := True\<rparr>
      else
        (case first_index 47 raw of
           None \<Rightarrow> new_route\<lparr>project := Some raw\<rparr>
         | Some slash \<Rightarrow>
             takeView (withPath (new_route\<lparr>project := Some (take slash raw)\<rparr>) (drop (slash + 1) raw))))"

definition hex_lower :: "nat \<Rightarrow> bool" where
  "hex_lower u \<longleftrightarrow> 48 \<le> u \<and> u \<le> 57 \<or> 97 \<le> u \<and> u \<le> 102"

text \<open>\<open>q?.get(k) || ""\<close>, absent when empty.\<close>

definition some_param :: "(jstr \<times> jstr) list \<Rightarrow> jstr \<Rightarrow> jstr option" where
  "some_param q k = (case param_get q k of None \<Rightarrow> None | Some v \<Rightarrow> if v = [] then None else Some v)"

definition query_filters :: "(jstr \<times> jstr) list \<Rightarrow> HistoryFilters" where
  "query_filters q = \<lparr>f_q = some_param q (js ''q''), f_user = some_param q (js ''user''),
     f_actor = some_param q (js ''actor''), f_device = some_param q (js ''device''),
     f_range = some_param q (js ''range''), f_since = some_param q (js ''since''),
     f_until = some_param q (js ''until'')\<rparr>"

text \<open>The query part of \<open>parseRoute\<close>.\<close>

definition route_query :: "(jstr \<times> jstr) list \<Rightarrow> Route \<Rightarrow> Route" where
  "route_query q r0 =
     (let c = some_param q (js ''comment''); f = query_filters q;
          r1 = r0\<lparr>version := some_param q (js ''v''), connect_q := some_param q (js ''connect''),
                  full := param_has q (js ''full''),
                  comment := (if c \<noteq> None \<and> length (the c) = 12 \<and> list_all hex_lower (the c) then c else None),
                  filters := (if hasHistoryFilters (Some f) then Some f else None)\<rparr>
      in if view r1 = Some VHistory \<and> \<not> truthy (viewTarget r1) then
           (let t0 = (case some_param q (js ''path'') of Some t \<Rightarrow> t | None \<Rightarrow> str_or (param_get q (js ''prefix'')) []);
                t = strip_end 47 (strip_start 47 t0)
            in if t \<noteq> [] then r1\<lparr>viewTarget := Some (decodePath t), queryTarget := True\<rparr> else r1)
         else r1)"

definition parseRoute :: "jstr \<Rightarrow> bool \<Rightarrow> Route" where
  "parseRoute url hub =
     (case first_index 63 url of
        None \<Rightarrow> route_query [] (parsePath url hub)
      | Some qi \<Rightarrow> route_query (parse_params (drop qi url)) (parsePath (take qi url) hub))"

subsection \<open>Building\<close>

definition urlForPath :: "jstr \<Rightarrow> jstr option \<Rightarrow> jstr option \<Rightarrow> bool \<Rightarrow> bool \<Rightarrow> jstr option" where
  "urlForPath path projectId ver fl edit =
     map_option (\<lambda>enc.
       let tail = (if enc \<noteq> [] \<and> edit then js ''edit/'' @ enc else enc);
           q = (if truthy ver then js ''?v='' @ the ver else [])
             @ (if fl then (if truthy ver then js ''&'' else js ''?'') @ js ''full=1'' else [])
       in if truthy projectId then 47 # the projectId @ (if tail \<noteq> [] then 47 # tail else []) @ q
          else 47 # tail @ q)
     (encodePath path)"

definition withoutFull :: "jstr \<Rightarrow> jstr" where
  "withoutFull url =
     (case first_index 63 url of
        None \<Rightarrow> url
      | Some qi \<Rightarrow>
          let p = parse_params (drop (qi + 1) url)
          in if \<not> param_has p (js ''full'') then url
             else let s = params_string (param_delete p (js ''full''))
                  in take qi url @ (if s \<noteq> [] then 63 # s else []))"

definition urlForView :: "ViewName \<Rightarrow> jstr option \<Rightarrow> jstr option \<Rightarrow> HistoryFilters option \<Rightarrow> jstr option" where
  "urlForView v projectId target fs =
     (let s = (if truthy projectId then 47 # the projectId else []) @ 47 # VIEW_SEGMENTS v;
          tail = (if truthy target then map_option (\<lambda>e. 47 # e) (encodePath (strip_end 47 (the target))) else Some [])
      in map_option (\<lambda>t. s @ t @ (if v = VHistory then historyFilterQuery fs else [])) tail)"

definition projectByName :: "(jstr \<Rightarrow> jstr) \<Rightarrow> (jstr \<times> jstr) list \<Rightarrow> jstr \<Rightarrow> jstr option" where
  "projectByName lower projects seg =
     (let want = lower (decodePath seg); hit = filter (\<lambda>p. lower (snd p) = want) projects
      in if length hit = 1 then Some (fst (hd hit)) else None)"


subsection \<open>Segment codecs\<close>

text \<open>What a path encoder needs of its segment encoder: good segments are encoded to strings without
  the separator, empty exactly for an empty segment, and decoded back.\<close>

locale segment_codec =
  fixes enc :: "jstr \<Rightarrow> jstr option"
    and dec :: "jstr \<Rightarrow> jstr"
    and good :: "jstr \<Rightarrow> bool"
    and sep :: nat
  assumes enc_good: "good s \<Longrightarrow> \<exists>e. enc s = Some e \<and> dec e = s \<and> sep \<notin> set e \<and> (e = [] \<longleftrightarrow> s = [])"
begin

definition coded :: "jstr \<Rightarrow> jstr \<Rightarrow> bool" where
  "coded e w \<longleftrightarrow> dec e = w \<and> sep \<notin> set e \<and> (e = [] \<longleftrightarrow> w = [])"

lemma enc_coded: "good w \<Longrightarrow> enc w \<noteq> None \<and> coded (the (enc w)) w"
  using enc_good [of w] by (auto simp: coded_def)

lemma enc_all:
  assumes "\<forall>w \<in> set ws. good w"
  shows "seq_option (map enc ws) = Some (map (\<lambda>w. the (enc w)) ws)"
    "list_all2 coded (map (\<lambda>w. the (enc w)) ws) ws"
  using assms enc_coded
  by (auto simp: seq_option_def list_all_iff list_all2_conv_all_nth)

lemma path_codec:
  assumes "\<forall>w \<in> set (split_on sep p). good w"
  obtains es where "seq_option (map enc (split_on sep p)) = Some es" "es \<noteq> []"
    "map dec es = split_on sep p" "\<forall>e \<in> set es. sep \<notin> set e" "last es = [] \<longleftrightarrow> last (split_on sep p) = []"
    "split_on sep (join [sep] es) = es" "length es = length (split_on sep p)"
proof -
  define es where "es = map (\<lambda>w. the (enc w)) (split_on sep p)"
  have es: "seq_option (map enc (split_on sep p)) = Some es" "length es = length (split_on sep p)"
    and r: "list_all2 coded es (split_on sep p)"
    using enc_all [OF assms] by (simp_all add: es_def)
  have ne: "es \<noteq> []" by (simp add: es_def)
  have c: "coded (es ! i) (split_on sep p ! i)" if "i < length es" for i
    using list_all2_nthD [OF r that] .
  have m: "map dec es = split_on sep p" using c es(2) by (intro nth_equalityI) (auto simp: coded_def)
  have f: "\<forall>e \<in> set es. sep \<notin> set e"
  proof
    fix e assume "e \<in> set es"
    then obtain i where "i < length es" "es ! i = e" by (metis in_set_conv_nth)
    with c show "sep \<notin> set e" by (auto simp: coded_def)
  qed
  have l: "last es = [] \<longleftrightarrow> last (split_on sep p) = []"
    using c [of "length es - 1"] ne es(2) by (simp add: coded_def last_conv_nth)
  show ?thesis using that es ne m f l split_on_join [OF ne f] by blast
qed

end

lemma pct_chars: "u \<in> set (pct b) \<Longrightarrow> b < 256 \<Longrightarrow> u \<noteq> 47 \<and> u \<noteq> 63 \<and> u < 128"
proof -
  assume "u \<in> set (pct b)" "b < 256"
  moreover from this have "b div 16 < 16" "b mod 16 < 16" by auto
  ultimately show ?thesis by (auto simp: pct_def hex_digit_def split: if_splits)
qed

lemma enc_point_chars: "scalar c \<Longrightarrow> u \<in> set (enc_point c) \<Longrightarrow> u \<noteq> 47 \<and> u \<noteq> 63"
  using unreserved_small [of c] pct_chars utf8_bytes by (fastforce simp: enc_point_def split: if_splits)

lemma enc_point_ne: "enc_point c \<noteq> []"
  by (auto simp: enc_point_def utf8_def pct_def)

lemma component_chars:
  assumes "encodeURIComponent s = Some e"
  shows "47 \<notin> set e" "63 \<notin> set e" "e = [] \<longleftrightarrow> s = []"
proof -
  have sc: "list_all scalar (code_points s)" and e: "e = concat (map enc_point (code_points s))"
    using assms by (auto simp: encodeURIComponent_def split: if_splits)
  show "47 \<notin> set e" "63 \<notin> set e" using enc_point_chars sc by (auto simp: e list_all_iff)
  show "e = [] \<longleftrightarrow> s = []" using enc_point_ne by (cases s rule: code_points.cases) (auto simp: e)
qed

interpretation uri: segment_codec encodeURIComponent decodeSegment well_formed 47
proof unfold_locales
  fix s assume "well_formed s"
  then obtain e where "encodeURIComponent s = Some e" "decodeURIComponent e = Some s"
    by (rule component_roundtrip)
  then show "\<exists>e. encodeURIComponent s = Some e \<and> decodeSegment e = s \<and> 47 \<notin> set e \<and> (e = [] \<longleftrightarrow> s = [])"
    using component_chars by (auto simp: decodeSegment_def)
qed

subsection \<open>Encoded paths\<close>

lemma join_set: "set (join [c] ws) \<subseteq> insert c (\<Union> (set ` set ws))"
  by (induction "[c]" ws rule: join.induct) auto

lemma last_join: "ws \<noteq> [] \<Longrightarrow> last ws \<noteq> [] \<Longrightarrow> join [c] ws \<noteq> [] \<and> last (join [c] ws) = last (last ws)"
  by (induction "[c]" ws rule: join.induct) auto

lemma join_Nil_iff: "join [c] ws = [] \<longleftrightarrow> ws = [] \<or> ws = [[]]"
  by (cases "([c], ws)" rule: join.cases) auto

lemma encodePath_ok:
  assumes "well_formed p"
  obtains e where "encodePath p = Some e" "decodePath e = p" "63 \<notin> set e" "e = [] \<longleftrightarrow> p = []"
    "p = [] \<or> last p \<noteq> 47 \<Longrightarrow> strip_end 47 e = e"
proof -
  have "\<forall>w \<in> set (split_on 47 p). well_formed w" by (intro ballI well_formed_parts [OF _ assms]) simp_all
  then obtain es where es: "seq_option (map encodeURIComponent (split_on 47 p)) = Some es" "es \<noteq> []"
    "map decodeSegment es = split_on 47 p" "\<forall>e \<in> set es. 47 \<notin> set e" "last es = [] \<longleftrightarrow> last (split_on 47 p) = []"
    "split_on 47 (join [47] es) = es" "length es = length (split_on 47 p)"
    by (rule uri.path_codec)
  let ?e = "join [47] es"
  have enc: "encodePath p = Some ?e" using es(1) by (simp add: encodePath_def)
  have dec: "decodePath ?e = p" using es by (simp add: decodePath_def)
  have "\<forall>e \<in> set es. 63 \<notin> set e"
    using es(1) component_chars(2)
    by (auto simp: seq_option_def list_all_iff split: if_splits)
  then have q: "63 \<notin> set ?e" using join_set [of 47 es] by auto
  have nil: "?e = [] \<longleftrightarrow> p = []"
  proof
    assume "p = []"
    then have "split_on 47 p = [[]]" by simp
    with es(2,5,7) show "?e = []" by (cases es) auto
  next
    assume "?e = []"
    with dec show "p = []" by (simp add: decodePath_def decodeSegment_def)
  qed
  have st: "strip_end 47 ?e = ?e" if pl: "p = [] \<or> last p \<noteq> 47"
  proof (cases "p = []")
    case True
    with nil show ?thesis by (simp add: strip_end_def)
  next
    case False
    have "last (split_on 47 p) \<noteq> []"
    proof
      assume l: "last (split_on 47 p) = []"
      obtain ws where ws: "split_on 47 p = ws @ [[]]"
        using l by (metis append_butlast_last_id split_on_neq_Nil)
      then have "ws \<noteq> []" using False by (metis append_Nil join.simps(2) join_split_on)
      then have "p = join [47] ws @ [47]"
        using ws join_split_on [of 47 p] by (metis join_snoc append_Nil2)
      with pl False show False by simp
    qed
    then have "last es \<noteq> []" using es(5) by simp
    note ll = last_join [OF es(2) this, of 47, THEN conjunct2]
    have "last (last es) \<in> set (last es)" "last es \<in> set es" using es(2) \<open>last es \<noteq> []\<close> by simp_all
    then have "last (last es) \<noteq> 47" using es(4) by metis
    then have "last ?e \<noteq> 47" unfolding ll .
    then show ?thesis by (intro strip_end_id disjI2)
  qed
  show ?thesis by (rule that [OF enc dec q nil st])
qed


subsection \<open>The round trips of the router\<close>

text \<open>Project ids: a single plain segment that is none of the reserved words.\<close>

definition project_id :: "jstr \<Rightarrow> bool" where
  "project_id pid \<longleftrightarrow> pid \<noteq> [] \<and> 47 \<notin> set pid \<and> 63 \<notin> set pid
     \<and> pid \<noteq> js ''orgs'' \<and> pid \<noteq> js ''billing'' \<and> pid \<noteq> js ''connections''"

definition reserved :: "jstr \<Rightarrow> bool" where
  "reserved s \<longleftrightarrow> s = js ''edit'' \<or> segmentView s \<noteq> None \<or> legacyView s \<noteq> None"

text \<open>A path the tree can hold: well-formed text that does not end in a separator.\<close>

definition tree_path :: "jstr \<Rightarrow> bool" where
  "tree_path p \<longleftrightarrow> well_formed p \<and> (p = [] \<or> last p \<noteq> 47)"

lemma starts_with_word:
  assumes "47 \<notin> set a" "47 \<notin> set w" "starts_with (a @ 47 # r) (w @ [47])"
  shows "a = w"
proof -
  obtain t where "a @ 47 # r = w @ 47 # t" using assms(3) by (auto simp: starts_with_iff)
  then have "first_index 47 (a @ 47 # r) = first_index 47 (w @ 47 # t)" by simp
  then have "length a = length w" using assms by (simp add: first_index_append)
  with \<open>a @ 47 # r = w @ 47 # t\<close> show ?thesis by simp
qed

lemma project_first:
  assumes "project_id pid"
  shows "strip_start 47 (47 # pid @ r) = pid @ r"
  using assms by (cases pid) (auto simp: project_id_def strip_start_def)

lemma word_js: "47 \<notin> set (js ''orgs'')" "47 \<notin> set (js ''billing'')" "47 \<notin> set (js ''connections'')"
  "js ''orgs/'' = js ''orgs'' @ [47]" "js ''billing/'' = js ''billing'' @ [47]"
  "js ''connections/'' = js ''connections'' @ [47]"
  by (simp_all add: js_def)

lemma not_reserved_head:
  assumes "project_id pid"
  shows "pid @ 47 # r \<noteq> js ''orgs''" "pid @ 47 # r \<noteq> js ''billing''" "pid @ 47 # r \<noteq> js ''connections''"
    "\<not> starts_with (pid @ 47 # r) (js ''orgs/'')" "\<not> starts_with (pid @ 47 # r) (js ''billing/'')"
    "\<not> starts_with (pid @ 47 # r) (js ''connections/'')"
proof -
  have m: "47 \<in> set (pid @ 47 # r)" by simp
  then show "pid @ 47 # r \<noteq> js ''orgs''" "pid @ 47 # r \<noteq> js ''billing''" "pid @ 47 # r \<noteq> js ''connections''"
    using word_js by metis+
  have p: "47 \<notin> set pid" "pid \<noteq> js ''orgs''" "pid \<noteq> js ''billing''" "pid \<noteq> js ''connections''"
    using assms by (simp_all add: project_id_def)
  show "\<not> starts_with (pid @ 47 # r) (js ''orgs/'')" "\<not> starts_with (pid @ 47 # r) (js ''billing/'')"
    "\<not> starts_with (pid @ 47 # r) (js ''connections/'')"
    using p word_js starts_with_word [OF p(1)] by metis+
qed

text \<open>What a project URL parses to, before the query.\<close>

lemma parse_project:
  assumes "project_id pid" "strip_end 47 e = e" "e = [] \<longleftrightarrow> p = []" "decodePath e = p"
  shows "parsePath (47 # pid @ 47 # e) True = takeView (new_route\<lparr>project := Some pid, rpath := p\<rparr>)"
proof -
  have f: "first_index 47 (pid @ 47 # e) = Some (length pid)"
    using assms(1) by (simp add: first_index_append project_id_def)
  have w: "withPath (new_route\<lparr>project := Some pid\<rparr>) e = new_route\<lparr>project := Some pid, rpath := p\<rparr>"
    using assms(2-4) by (cases "e = []") (auto simp: withPath_def Let_def new_route_def decodePath_def)
  show ?thesis
    using f w not_reserved_head [OF assms(1), of e]
    by (simp add: parsePath_def project_first [OF assms(1)] Let_def)
qed

lemma parse_bare:
  assumes "project_id pid"
  shows "parsePath (47 # pid) True = new_route\<lparr>project := Some pid\<rparr>"
proof -
  have p: "47 \<notin> set pid" "pid \<noteq> js ''orgs''" "pid \<noteq> js ''billing''" "pid \<noteq> js ''connections''"
    using assms by (simp_all add: project_id_def)
  have "\<not> starts_with pid (w @ [47])" for w using p(1) by (auto simp: starts_with_iff)
  then show ?thesis
    using p project_first [OF assms, of "[]"] word_js(4-6)
    by (simp add: parsePath_def Let_def first_index_None [THEN iffD2])
qed


lemma parseRoute_query:
  assumes "63 \<notin> set x" "\<forall>(k, v) \<in> set ps. well_formed k \<and> well_formed v"
  shows "parseRoute (x @ 63 # params_string ps) hub = route_query ps (parsePath x hub)"
  using params_roundtrip [OF assms(2)] first_index_append [OF assms(1)]
  by (simp add: parseRoute_def)

lemma parseRoute_plain:
  assumes "63 \<notin> set x"
  shows "parseRoute x hub = route_query [] (parsePath x hub)"
  using assms by (simp add: parseRoute_def first_index_None [THEN iffD2])

definition version_ok :: "jstr option \<Rightarrow> bool" where
  "version_ok ver \<longleftrightarrow> (case ver of None \<Rightarrow> True | Some v \<Rightarrow> list_all form_safe v)"

definition path_params :: "jstr option \<Rightarrow> bool \<Rightarrow> (jstr \<times> jstr) list" where
  "path_params ver fl = (if truthy ver then [(js ''v'', the ver)] else []) @ (if fl then [(js ''full'', js ''1'')] else [])"

definition query_of :: "(jstr \<times> jstr) list \<Rightarrow> jstr" where
  "query_of ps = (if params_string ps = [] then [] else 63 # params_string ps)"

lemma word_safe: "list_all form_safe (js ''v'')" "list_all form_safe (js ''full'')" "list_all form_safe (js ''1'')"
  by (simp_all add: js_def form_safe_def)

lemma path_query:
  assumes "version_ok ver"
  shows "(if truthy ver then js ''?v='' @ the ver else [])
      @ (if fl then (if truthy ver then js ''&'' else js ''?'') @ js ''full=1'' else [])
    = query_of (path_params ver fl)"
proof -
  have v: "truthy ver \<Longrightarrow> form_encode (the ver) = the ver"
    using assms by (cases ver) (auto simp: version_ok_def form_encode_safe truthy_def)
  show ?thesis
    using v word_safe [THEN form_encode_safe]
    by (auto simp: query_of_def path_params_def params_string_def js_def)
qed

lemma path_params_ok:
  assumes "version_ok ver"
  shows "\<forall>(k, v) \<in> set (path_params ver fl). well_formed k \<and> well_formed v"
  using assms word_safe [THEN safe_well_formed]
  by (cases ver) (auto simp: path_params_def version_ok_def truthy_def intro: safe_well_formed)

lemma parseRoute_of:
  assumes "63 \<notin> set x" "\<forall>(k, v) \<in> set ps. well_formed k \<and> well_formed v"
  shows "parseRoute (x @ query_of ps) hub = route_query ps (parsePath x hub)"
proof (cases "params_string ps = []")
  case True
  then have "ps = []" using params_roundtrip [OF assms(2)] by (simp add: parse_params_def)
  with assms(1) True show ?thesis by (simp add: query_of_def parseRoute_plain)
next
  case False
  with parseRoute_query [OF assms] show ?thesis by (simp add: query_of_def)
qed

lemma route_query_path:
  assumes "view r \<noteq> Some VHistory"
  shows "route_query (path_params ver fl) r
     = r\<lparr>version := (if truthy ver then ver else None), connect_q := None, full := fl, comment := None, filters := None\<rparr>"
proof -
  have g: "some_param (path_params ver fl) k = None" if "k \<noteq> js ''v''" "k \<noteq> js ''full''" for k
    using that by (simp add: some_param_def param_get_def path_params_def)
  have "some_param (path_params ver fl) (js ''v'') = (if truthy ver then ver else None)"
    "param_has (path_params ver fl) (js ''full'') = fl"
    by (cases ver; simp add: some_param_def param_get_def param_has_def path_params_def truthy_def js_def)+
  moreover have "query_filters (path_params ver fl) = no_filters"
    using g by (simp add: query_filters_def no_filters_def js_def)
  ultimately show ?thesis
    using assms g by (simp add: route_query_def Let_def js_def hasHistoryFilters_def filter_values_def no_filters_def truthy_def)
qed

lemma takeView_plain:
  "\<not> reserved (first_segment (rpath r)) \<Longrightarrow> takeView r = r"
  by (simp add: takeView_def reserved_def Let_def)

lemma first_segment_edit: "first_segment (js ''edit/'' @ p) = js ''edit''"
  by (simp add: first_segment_def js_def)

lemma takeView_edit:
  assumes "rpath r = js ''edit/'' @ p" "p = [] \<or> last p \<noteq> 47"
  shows "takeView r = r\<lparr>editing := True, rpath := p\<rparr>"
proof -
  have "hd (split_on 47 (js ''edit/'' @ p)) = js ''edit''"
    using split_on_append [of 47 "js ''edit''" p] by (simp add: js_def)
  moreover have "drop 5 (js ''edit/'' @ p) = p" by (simp add: js_def)
  ultimately show ?thesis
    using assms strip_end_id [OF assms(2)] by (simp add: takeView_def Let_def first_segment_edit takeEdit_def)
qed

lemma decode_edit: "decodePath (js ''edit/'' @ e) = js ''edit/'' @ decodePath e"
proof -
  have "decodeSegment (js ''edit'') = js ''edit''" by code_simp
  moreover have "split_on 47 (js ''edit/'' @ e) = js ''edit'' # split_on 47 e"
    using split_on_append [of 47 "js ''edit''" e] by (simp add: js_def)
  moreover have "map decodeSegment (split_on 47 e) \<noteq> []" by simp
  ultimately show ?thesis by (simp add: decodePath_def join_Cons js_def)
qed

lemma strip_edit: "strip_end 47 e = e \<Longrightarrow> e \<noteq> [] \<Longrightarrow> strip_end 47 (js ''edit/'' @ e) = js ''edit/'' @ e"
proof -
  assume "strip_end 47 e = e" "e \<noteq> []"
  then have "last e \<noteq> 47" using strip_end_last [of 47 e] by simp
  with \<open>e \<noteq> []\<close> show ?thesis by (intro strip_end_id) simp
qed

lemma path_url_parse:
  assumes pid: "project_id pid" and p: "tree_path p" and v: "version_ok ver"
    and e: "if edit then p \<noteq> [] else \<not> reserved (first_segment p)"
  shows "\<exists>u. urlForPath p (Some pid) ver fl edit = Some u
    \<and> parseRoute u True = new_route\<lparr>project := Some pid, rpath := p, editing := edit, full := fl,
        version := (if truthy ver then ver else None)\<rparr>"
proof -
  obtain e where enc: "encodePath p = Some e" "decodePath e = p" "63 \<notin> set e" "e = [] \<longleftrightarrow> p = []"
    "strip_end 47 e = e" using p encodePath_ok [of p] by (auto simp: tree_path_def)
  let ?tail = "if e \<noteq> [] \<and> edit then js ''edit/'' @ e else e"
  let ?x = "47 # pid @ (if ?tail \<noteq> [] then 47 # ?tail else [])"
  have url: "urlForPath p (Some pid) ver fl edit = Some (?x @ query_of (path_params ver fl))"
    using enc(1) pid unfolding urlForPath_def path_query [OF v, symmetric]
    by (simp add: Let_def truthy_def project_id_def)
  have q: "63 \<notin> set ?x" using pid enc(3) by (auto simp: project_id_def js_def)
  have "parsePath ?x True = new_route\<lparr>project := Some pid, rpath := p, editing := edit\<rparr>"
  proof (cases "edit")
    case True
    with e enc(4) have ne: "e \<noteq> []" "p \<noteq> []" by auto
    have "parsePath (47 # pid @ 47 # (js ''edit/'' @ e)) True
        = takeView (new_route\<lparr>project := Some pid, rpath := js ''edit/'' @ p\<rparr>)"
      using strip_edit [OF enc(5) ne(1)] enc(2) by (intro parse_project [OF pid]) (simp_all only: decode_edit, simp add: js_def)
    also have "\<dots> = new_route\<lparr>project := Some pid, rpath := p, editing := True\<rparr>"
      using p takeView_edit [of "new_route\<lparr>project := Some pid, rpath := js ''edit/'' @ p\<rparr>" p]
      by (simp add: tree_path_def)
    finally show ?thesis using True ne by (simp add: js_def)
  next
    case False
    have n: "takeView (new_route\<lparr>project := Some pid, rpath := p\<rparr>) = new_route\<lparr>project := Some pid, rpath := p\<rparr>"
      using e False by (intro takeView_plain) simp
    show ?thesis
    proof (cases "e = []")
      case True
      then show ?thesis using parse_bare [OF pid] enc(4) False by (simp add: new_route_def)
    next
      case ne: False
      then show ?thesis using parse_project [OF pid enc(5,4,2)] n False by (simp add: new_route_def)
    qed
  qed
  then have "parseRoute (?x @ query_of (path_params ver fl)) True
      = new_route\<lparr>project := Some pid, rpath := p, editing := edit, full := fl,
        version := (if truthy ver then ver else None)\<rparr>"
    using parseRoute_of [OF q path_params_ok [OF v]]
    by (simp add: route_query_path new_route_def)
  with url show ?thesis by blast
qed


definition norm_filters :: "HistoryFilters \<Rightarrow> HistoryFilters" where
  "norm_filters f =
     (let n = (\<lambda>v. if truthy v then v else None)
      in \<lparr>f_q = n (f_q f), f_user = n (f_user f), f_actor = n (f_actor f), f_device = n (f_device f),
          f_range = n (f_range f), f_since = n (f_since f), f_until = n (f_until f)\<rparr>)"

lemma map_of_kept:
  "distinct (map fst kvs) \<Longrightarrow>
     map_of (concat (map (\<lambda>(k, v). if truthy v then [(k, the v)] else []) kvs)) k
       = (case map_of kvs k of None \<Rightarrow> None | Some v \<Rightarrow> if truthy v then v else None)"
proof (induction kvs)
  case (Cons kv kvs)
  obtain k' v where kv: "kv = (k', v)" by (cases kv)
  have "map_of kvs k = None" if "k = k'"
    using Cons.prems that kv by (auto simp: map_of_eq_None_iff)
  with Cons kv show ?case by (cases v) (auto simp: truthy_def split: option.splits)
qed simp

lemma some_filter:
  "some_param (filter_pairs f) k
     = (case map_of (zip HISTORY_FILTER_KEYS (filter_values f)) k of None \<Rightarrow> None | Some v \<Rightarrow> if truthy v then v else None)"
proof -
  have "distinct (map fst (zip HISTORY_FILTER_KEYS (filter_values f)))"
    by (simp add: HISTORY_FILTER_KEYS_def filter_values_def js_def)
  from map_of_kept [OF this, of k] show ?thesis
    by (auto simp: some_param_def param_get_def filter_pairs_def truthy_def split: option.splits)
qed

lemma query_filters_pairs: "query_filters (filter_pairs f) = norm_filters f"
  unfolding query_filters_def some_filter
  by (simp add: HISTORY_FILTER_KEYS_def filter_values_def norm_filters_def js_def Let_def)

lemma filter_absent:
  "some_param (filter_pairs f) (js ''v'') = None" "some_param (filter_pairs f) (js ''connect'') = None"
  "some_param (filter_pairs f) (js ''comment'') = None" "some_param (filter_pairs f) (js ''path'') = None"
  unfolding some_filter by (simp_all add: HISTORY_FILTER_KEYS_def filter_values_def js_def)

lemma filter_absent_get:
  "param_get (filter_pairs f) (js ''prefix'') = None" "param_has (filter_pairs f) (js ''full'') = False"
proof -
  have "fst ` set (filter_pairs f) \<subseteq> set HISTORY_FILTER_KEYS"
    by (auto simp: filter_pairs_def split: if_splits dest: set_zip_leftD)
  then show "param_get (filter_pairs f) (js ''prefix'') = None" "param_has (filter_pairs f) (js ''full'') = False"
    unfolding param_get_def param_has_def map_of_eq_None_iff
    by (auto simp: HISTORY_FILTER_KEYS_def js_def map_of_eq_None_iff)
qed

lemma norm_has: "hasHistoryFilters (Some (norm_filters f)) = hasHistoryFilters (Some f)"
  by (auto simp: hasHistoryFilters_def filter_values_def norm_filters_def Let_def truthy_def)

definition filters_ok :: "HistoryFilters \<Rightarrow> bool" where
  "filters_ok f \<longleftrightarrow> list_all (\<lambda>v. truthy v \<longrightarrow> well_formed (the v)) (filter_values f)"

lemma filter_pairs_ok:
  assumes "filters_ok f"
  shows "\<forall>(k, v) \<in> set (filter_pairs f). well_formed k \<and> well_formed v"
proof -
  have "well_formed k" if "k \<in> set HISTORY_FILTER_KEYS" for k
    using that by (intro ascii_well_formed) (auto simp: HISTORY_FILTER_KEYS_def js_def)
  moreover have "well_formed (the v)" if "v \<in> set (filter_values f)" "truthy v" for v
    using assms that by (auto simp: filters_ok_def list_all_iff)
  ultimately show ?thesis
    by (fastforce simp: filter_pairs_def split: if_splits dest: set_zip_leftD set_zip_rightD)
qed

definition view_filters :: "ViewName \<Rightarrow> HistoryFilters option \<Rightarrow> (jstr \<times> jstr) list" where
  "view_filters v fs = (if v = VHistory then (case fs of None \<Rightarrow> [] | Some f \<Rightarrow> filter_pairs f) else [])"

lemma view_query: "(if v = VHistory then historyFilterQuery fs else []) = query_of (view_filters v fs)"
  by (auto simp: historyFilterQuery_def query_of_def view_filters_def Let_def params_string_def split: option.splits)

lemma route_query_none: "view r \<noteq> Some VHistory \<or> truthy (viewTarget r) \<or> True \<Longrightarrow>
    route_query [] r = r\<lparr>version := None, connect_q := None, full := False, comment := None, filters := None\<rparr>"
  by (simp add: route_query_def Let_def some_param_def param_get_def param_has_def query_filters_def
      hasHistoryFilters_def filter_values_def truthy_def str_or_def strip_end_def strip_start_def)

lemma route_query_filters:
  "route_query (filter_pairs f) r = r\<lparr>version := None, connect_q := None, full := False, comment := None,
     filters := (if hasHistoryFilters (Some f) then Some (norm_filters f) else None)\<rparr>"
  by (simp add: route_query_def Let_def filter_absent filter_absent_get query_filters_pairs norm_has
      str_or_def strip_end_def strip_start_def)

definition parsed_filters :: "ViewName \<Rightarrow> HistoryFilters option \<Rightarrow> HistoryFilters option" where
  "parsed_filters v fs =
     (if v = VHistory \<and> hasHistoryFilters fs then map_option norm_filters fs else None)"

lemma route_query_view:
  "route_query (view_filters v fs) r = r\<lparr>version := None, connect_q := None, full := False, comment := None,
     filters := parsed_filters v fs\<rparr>"
  using route_query_none [of r] route_query_filters
  by (cases fs) (auto simp: view_filters_def parsed_filters_def hasHistoryFilters_def)

lemma decode_plain: "37 \<notin> set w \<Longrightarrow> decodeURIComponent w = Some w"
  by (induction w) (auto simp: decodeURIComponent.simps)

lemma view_segment: "segmentView (VIEW_SEGMENTS v) = Some v" "legacyView (VIEW_SEGMENTS v) = None"
  "VIEW_SEGMENTS v \<noteq> js ''edit''" "decodeSegment (VIEW_SEGMENTS v) = VIEW_SEGMENTS v"
  "47 \<notin> set (VIEW_SEGMENTS v)" "63 \<notin> set (VIEW_SEGMENTS v)" "VIEW_SEGMENTS v \<noteq> []"
proof -
  have "37 \<notin> set (VIEW_SEGMENTS v)" by (cases v) (simp_all add: VIEW_SEGMENTS_def js_def)
  then show "decodeSegment (VIEW_SEGMENTS v) = VIEW_SEGMENTS v" by (simp add: decodeSegment_def decode_plain)
qed (cases v; simp add: VIEW_SEGMENTS_def segmentView_def SEGMENT_VIEWS_def legacyView_def LEGACY_VIEWS_def js_def)+

lemma decode_prefix:
  assumes "47 \<notin> set w" "decodeSegment w = w"
  shows "decodePath (w @ 47 # e) = w @ 47 # decodePath e"
  using assms join_Cons [of "map decodeSegment (split_on 47 e)" "[47]" w]
  by (simp add: decodePath_def split_on_append)

lemma takeView_view:
  assumes "rpath r = VIEW_SEGMENTS v @ (if t = [] then [] else 47 # t)" "t = [] \<or> last t \<noteq> 47"
  shows "takeView r = r\<lparr>view := Some v, is_legacyView := False, viewTarget := Some t, rpath := []\<rparr>"
proof -
  have i: "t \<noteq> [] \<Longrightarrow> first_index 47 (rpath r) = Some (length (VIEW_SEGMENTS v))"
    "t = [] \<Longrightarrow> first_index 47 (rpath r) = None"
    using assms(1) view_segment(5) [of v] by (simp_all add: first_index_append first_index_None)
  have "first_segment (rpath r) = VIEW_SEGMENTS v" "after_first (rpath r) = t"
    using i assms strip_end_id [OF assms(2)] by (cases "t = []"; simp add: first_segment_def after_first_def)+
  then show ?thesis using view_segment [of v] by (simp add: takeView_def Let_def)
qed

lemma view_url_parse:
  assumes pid: "project_id pid" and t: "\<forall>p. target = Some p \<longrightarrow> tree_path p"
    and f: "\<forall>f. fs = Some f \<longrightarrow> filters_ok f"
  shows "\<exists>u. urlForView v (Some pid) target fs = Some u
    \<and> parseRoute u True = new_route\<lparr>project := Some pid, view := Some v, viewTarget := Some (str_or target []),
        filters := parsed_filters v fs\<rparr>"
proof -
  let ?t = "str_or target []"
  have tp: "tree_path ?t" using t
    by (cases target) (auto simp: str_or_def tree_path_def well_formed_def)
  obtain e where enc: "encodePath ?t = Some e" "decodePath e = ?t" "63 \<notin> set e" "e = [] \<longleftrightarrow> ?t = []"
    "strip_end 47 e = e" using tp encodePath_ok [of ?t] by (auto simp: tree_path_def)
  let ?tail = "if ?t = [] then [] else 47 # e"
  let ?x = "47 # pid @ 47 # VIEW_SEGMENTS v @ ?tail"
  have tt: "truthy target \<longleftrightarrow> ?t \<noteq> []" "truthy target \<Longrightarrow> the target = ?t"
    by (cases target; auto simp: truthy_def str_or_def)+
  have st: "strip_end 47 ?t = ?t" using tp strip_end_id [of ?t 47] by (simp add: tree_path_def)
  have url: "urlForView v (Some pid) target fs = Some (?x @ query_of (view_filters v fs))"
    using pid enc(1) tt st unfolding urlForView_def view_query
    by (simp add: Let_def truthy_def project_id_def)
  have q: "63 \<notin> set ?x" using pid enc(3) view_segment(6) [of v] by (auto simp: project_id_def)
  have ok: "\<forall>(k, w) \<in> set (view_filters v fs). well_formed k \<and> well_formed w"
  proof (cases "v = VHistory \<and> fs \<noteq> None")
    case True
    then obtain g where g: "fs = Some g" by blast
    then have "filters_ok g" using f by blast
    moreover have "view_filters v fs = filter_pairs g" using True g by (simp add: view_filters_def)
    ultimately show ?thesis using filter_pairs_ok by metis
  next
    case False
    then have "view_filters v fs = []" by (cases fs) (simp_all add: view_filters_def)
    then show ?thesis by simp
  qed
  have s: "strip_end 47 (VIEW_SEGMENTS v @ ?tail) = VIEW_SEGMENTS v @ ?tail"
  proof (cases "?t = []")
    case True
    have "last (VIEW_SEGMENTS v) \<in> set (VIEW_SEGMENTS v)" using view_segment(7) by (rule last_in_set)
    then have "last (VIEW_SEGMENTS v) \<noteq> 47" using view_segment(5) [of v] by metis
    then show ?thesis using True by (intro strip_end_id) simp
  next
    case False
    then have "last e \<noteq> 47" using enc(4,5) strip_end_last [of 47 e] by auto
    then show ?thesis using False enc(4) by (intro strip_end_id) simp
  qed
  have d: "decodePath (VIEW_SEGMENTS v @ ?tail) = VIEW_SEGMENTS v @ (if ?t = [] then [] else 47 # ?t)"
    using enc(2) decode_prefix [OF view_segment(5,4), of v e] view_segment(4,5) [of v]
    by (auto simp: decodePath_def split_on_free)
  have "parsePath ?x True = takeView (new_route\<lparr>project := Some pid,
      rpath := VIEW_SEGMENTS v @ (if ?t = [] then [] else 47 # ?t)\<rparr>)"
    by (rule parse_project [OF pid s]) (use d view_segment(7) [of v] in auto)
  also have "\<dots> = new_route\<lparr>project := Some pid, view := Some v, viewTarget := Some ?t\<rparr>"
    using tp by (subst takeView_view [where t = ?t and v = v]) (auto simp: tree_path_def new_route_def)
  finally have "parseRoute (?x @ query_of (view_filters v fs)) True
      = new_route\<lparr>project := Some pid, view := Some v, viewTarget := Some ?t, filters := parsed_filters v fs\<rparr>"
    using parseRoute_of [OF q ok] by (simp add: route_query_view new_route_def)
  with url show ?thesis by blast
qed


text \<open>Leaving fullscreen.\<close>

lemma form_encode_63: "63 \<notin> set (form_encode k)"
proof
  assume "63 \<in> set (form_encode k)"
  then obtain b where b: "b \<in> set (utf8_string k)" "63 \<in> set (form_byte b)" by (auto simp: form_encode_def)
  have "list_all scalar (usv k)" by (auto simp: usv_def list_all_iff scalar_def)
  then have "b < 256" using b(1) utf8_bytes by (auto simp: utf8_string_def list_all_iff)
  with b(2) pct_chars [of 63 b] show False by (auto simp: form_byte_def form_safe_def split: if_splits)
qed

lemma withoutFull_query:
  assumes "63 \<notin> set x" "\<forall>(k, v) \<in> set ps. well_formed k \<and> well_formed v"
    and "param_has ps (js ''full'') \<or> ps = param_delete ps (js ''full'')"
  shows "withoutFull (x @ query_of ps) = x @ query_of (param_delete ps (js ''full''))"
proof (cases "params_string ps = []")
  case True
  then have "ps = []" using params_roundtrip [OF assms(2)] by (simp add: parse_params_def)
  with assms(1) show ?thesis
    by (simp add: withoutFull_def query_of_def params_string_def param_delete_def first_index_None [THEN iffD2])
next
  case False
  have h: "params_string ps = [] \<or> hd (params_string ps) \<noteq> 63"
  proof (rule ccontr)
    assume "\<not> ?thesis"
    then obtain r where "params_string ps = 63 # r" by (cases "params_string ps") auto
    moreover have "63 \<notin> set (params_string ps)"
    proof -
      have "63 \<notin> set (form_encode k)" for k
        using form_encode_63 .
      then have "\<forall>w \<in> set (map (\<lambda>(k, v). form_encode k @ 61 # form_encode v) ps). 63 \<notin> set w" by auto
      then show ?thesis using join_set [of 38] by (fastforce simp: params_string_def)
    qed
    ultimately show False by simp
  qed
  have pp: "parse_params (params_string ps) = ps"
    using h params_pairs [OF assms(2)] False by (simp add: parse_params_def Let_def)
  show ?thesis
    using first_index_append [OF assms(1)] False assms(3) pp
    by (auto simp: withoutFull_def query_of_def Let_def)
qed


lemma path_params_delete: "param_delete (path_params ver fl) (js ''full'') = path_params ver False"
  by (simp add: param_delete_def path_params_def js_def)

lemma path_params_has: "param_has (path_params ver fl) (js ''full'') = fl"
  by (simp add: param_has_def path_params_def js_def)

lemma path_url_full:
  assumes p: "well_formed p" and v: "version_ok ver" and pid: "63 \<notin> set (str_or pid [])"
    and u: "urlForPath p pid ver fl edit = Some u"
  shows "urlForPath p pid ver False edit = Some (withoutFull u)"
proof -
  obtain e where enc: "encodePath p = Some e" "63 \<notin> set e" using p encodePath_ok by blast
  let ?tail = "if e \<noteq> [] \<and> edit then js ''edit/'' @ e else e"
  let ?x = "if truthy pid then 47 # the pid @ (if ?tail \<noteq> [] then 47 # ?tail else []) else 47 # ?tail"
  have url: "urlForPath p pid ver b edit = Some (?x @ query_of (path_params ver b))" for b
    using enc(1) unfolding urlForPath_def path_query [OF v, symmetric] by (simp add: Let_def)
  have q: "63 \<notin> set ?x" using pid enc(2) by (cases pid) (auto simp: js_def truthy_def str_or_def)
  have "path_params ver fl = param_delete (path_params ver fl) (js ''full'') \<or> fl"
    by (cases fl) (simp_all add: path_params_delete)
  then have "withoutFull (?x @ query_of (path_params ver fl)) = ?x @ query_of (path_params ver False)"
    using withoutFull_query [OF q path_params_ok [OF v]] path_params_delete path_params_has by metis
  with url u show ?thesis by simp
qed

subsection \<open>Properties\<close>

text \<open>C34: The URL of a file, pinned to a version or not, fullscreen or not, being edited or not, parses
  back to exactly that page of that project, for every project id that is one plain segment and
  every path of well-formed text that does not end in a separator; only outside the editor must
  the first segment not be a reserved word.\<close>

theorem route_path_roundtrip:
  assumes "project_id pid" "tree_path p" "version_ok ver"
    "if edit then p \<noteq> [] else \<not> reserved (first_segment p)"
  shows "\<exists>u. urlForPath p (Some pid) ver fl edit = Some u
    \<and> parseRoute u True = new_route\<lparr>project := Some pid, rpath := p, editing := edit, full := fl,
        version := (if truthy ver then ver else None)\<rparr>"
  using assms by (rule path_url_parse)

theorem route_path_roundtrip_witness:
  "\<exists>u. urlForPath (js ''a b/n?.md'') (Some (js ''p-1'')) (Some (js ''0f'')) True False = Some u
    \<and> parseRoute u True = new_route\<lparr>project := Some (js ''p-1''), rpath := js ''a b/n?.md'', editing := False,
        full := True, version := (if truthy (Some (js ''0f'')) then Some (js ''0f'') else None)\<rparr>"
  by (rule route_path_roundtrip; code_simp)

text \<open>The URL of a view parses back to that view of that project with its target and, for the
  activity feed alone, the filters that are set; it is never taken for a renamed view, a file or
  a URL to redirect.\<close>

theorem route_view_roundtrip:
  assumes "project_id pid" "\<forall>p. target = Some p \<longrightarrow> tree_path p" "\<forall>f. fs = Some f \<longrightarrow> filters_ok f"
  shows "\<exists>u. urlForView v (Some pid) target fs = Some u
    \<and> parseRoute u True = new_route\<lparr>project := Some pid, view := Some v, viewTarget := Some (str_or target []),
        filters := parsed_filters v fs\<rparr>"
  using assms by (rule view_url_parse)

theorem route_view_roundtrip_witness:
  "\<exists>u. urlForView VHistory (Some (js ''p-1'')) (Some (js ''notes'')) (Some (no_filters\<lparr>f_user := Some (js ''a@b c'')\<rparr>)) = Some u
    \<and> parseRoute u True = new_route\<lparr>project := Some (js ''p-1''), view := Some VHistory,
        viewTarget := Some (str_or (Some (js ''notes'')) []),
        filters := parsed_filters VHistory (Some (no_filters\<lparr>f_user := Some (js ''a@b c'')\<rparr>))\<rparr>"
proof (rule route_view_roundtrip)
  show "project_id (js ''p-1'')" by code_simp
  have "tree_path (js ''notes'')" "filters_ok (no_filters\<lparr>f_user := Some (js ''a@b c'')\<rparr>)" by code_simp+
  then show "\<forall>p. Some (js ''notes'') = Some p \<longrightarrow> tree_path p"
    "\<forall>f. Some (no_filters\<lparr>f_user := Some (js ''a@b c'')\<rparr>) = Some f \<longrightarrow> filters_ok f" by auto
qed

text \<open>Taking the fullscreen flag out of a file's URL gives exactly the URL the same page has without
  it, so the two share one slot and leaving fullscreen returns to it.\<close>

theorem withoutFull_canonical:
  assumes "well_formed p" "version_ok ver" "63 \<notin> set (str_or pid [])" "urlForPath p pid ver fl edit = Some u"
  shows "urlForPath p pid ver False edit = Some (withoutFull u)"
  using assms by (rule path_url_full)

theorem withoutFull_canonical_witness:
  "urlForPath (js ''n.md'') (Some (js ''p-1'')) (Some (js ''0f'')) False True
     = Some (withoutFull (js ''/p-1/edit/n.md?v=0f&full=1''))"
  by (rule withoutFull_canonical [where fl = True]; code_simp)

end
