(* ===== verification/FuzzyScore.thy ===== *)
theory FuzzyScore
  imports Prelude Meeting "HOL-Library.Word"
begin

unbundle bit_operations_syntax

section \<open>Scoring one token against one name (lib/fuzzy.ts)\<close>

text \<open>
  The first half of name search: the score type, folding and preparing a label, and fzy's
  dynamic program in the three forms the code has it. Theory \<open>Fuzzy\<close> has the tokens, the typo
  pass and the ranking. The reference is the set of all alignments of the token. Scores are
  exact: the source's floating-point constants are multiples of a thousandth and are written as
  integers in thousandths, with the two infinities as values of their own. Unicode
  normalisation, \<open>toLowerCase\<close> and the class of joining characters are arguments of the
  definitions that use them. The scratch arrays the source reuses between calls are arguments
  too, with arbitrary contents.
\<close>

subsection \<open>Scores\<close>

datatype score = NegInf | Fin int | PosInf

instantiation score :: linorder
begin

definition less_eq_score :: "score \<Rightarrow> score \<Rightarrow> bool" where
  "less_eq_score a b \<longleftrightarrow> (case (a, b) of (NegInf, _) \<Rightarrow> True | (_, PosInf) \<Rightarrow> True | (Fin x, Fin y) \<Rightarrow> x \<le> y | _ \<Rightarrow> False)"

definition less_score :: "score \<Rightarrow> score \<Rightarrow> bool" where
  "less_score a b \<longleftrightarrow> a \<le> b \<and> \<not> b \<le> (a :: score)"

instance
  by standard (auto simp: less_eq_score_def less_score_def split: score.splits)

end

definition plus_fin :: "score \<Rightarrow> int \<Rightarrow> score" where
  "plus_fin s n = (case s of NegInf \<Rightarrow> NegInf | Fin m \<Rightarrow> Fin (m + n) | PosInf \<Rightarrow> PosInf)"

definition plus_score :: "score \<Rightarrow> score \<Rightarrow> score" where
  "plus_score a b = (case b of NegInf \<Rightarrow> NegInf | Fin n \<Rightarrow> plus_fin a n | PosInf \<Rightarrow> if a = NegInf then NegInf else PosInf)"

definition GAP_LEADING :: int where "GAP_LEADING = -5"
definition GAP_TRAILING :: int where "GAP_TRAILING = -5"
definition GAP_INNER :: int where "GAP_INNER = -10"
definition MATCH_CONSECUTIVE :: int where "MATCH_CONSECUTIVE = 1000"
definition BONUS :: "nat \<Rightarrow> int" where "BONUS k = [0, 900, 800, 600, 700] ! k"
definition NAME_BONUS :: int where "NAME_BONUS = 500"
definition EXACT_BONUS :: int where "EXACT_BONUS = 2000"
definition TYPO_PENALTY :: int where "TYPO_PENALTY = 1000"
definition TYPO_ROWS :: nat where "TYPO_ROWS = 5"
definition MIN_TYPO_LEN :: nat where "MIN_TYPO_LEN = 5"

subsection \<open>Folding a label\<close>

record Folded =
  ftext :: jstr
  cased :: jstr
  ffrom :: "nat list option"
  fto :: "nat list option"

text \<open>How many code units the code point at the head of a string takes.\<close>

definition cp_len :: "jstr \<Rightarrow> nat" where
  "cp_len s = (case s of u # v # t \<Rightarrow> if high_surrogate u \<and> low_surrogate v then 2 else 1 | _ \<Rightarrow> 1)"

text \<open>The joining characters after position 0: the inner \<open>while\<close> loop of \<open>fold\<close>.\<close>

function join_len :: "(jstr \<Rightarrow> bool) \<Rightarrow> jstr \<Rightarrow> nat" where
  "join_len joins s =
     (if s = [] \<or> \<not> joins (take (cp_len s) s) then 0
      else cp_len s + join_len joins (drop (cp_len s) s))"
  by pat_completeness auto
termination
  by (relation "measure (\<lambda>(j, s). length s)") (auto simp: cp_len_def split: list.splits)

declare join_len.simps [simp del]

definition fold_chunk :: "(jstr \<Rightarrow> bool) \<Rightarrow> jstr \<Rightarrow> nat" where
  "fold_chunk joins s = cp_len s + join_len joins (drop (cp_len s) s)"

function fold_loop :: "(jstr \<Rightarrow> jstr) \<Rightarrow> (jstr \<Rightarrow> jstr) \<Rightarrow> (jstr \<Rightarrow> bool) \<Rightarrow> nat \<Rightarrow> jstr
    \<Rightarrow> jstr \<times> jstr \<times> nat list \<times> nat list" where
  "fold_loop nfc lower joins i s =
     (if s = [] then ([], [], [], [])
      else
        let k = fold_chunk joins s; chunk = take k s; n = nfc chunk;
            l = (if length (lower n) \<noteq> length n then n else lower n);
            one = (length chunk = 1 \<and> length n = 1);
            (t, c, fs, ts) = fold_loop nfc lower joins (i + k) (drop k s)
        in (l @ t, n @ c, replicate (length n) i @ fs, replicate (length n) (if one then i + 1 else i + k) @ ts))"
  by pat_completeness auto
termination
  by (relation "measure (\<lambda>(n, l, j, i, s). length s)")
    (auto simp: fold_chunk_def cp_len_def split: list.splits)

declare fold_loop.simps [simp del]

definition fold_label :: "(jstr \<Rightarrow> jstr) \<Rightarrow> (jstr \<Rightarrow> jstr) \<Rightarrow> (jstr \<Rightarrow> bool) \<Rightarrow> jstr \<Rightarrow> Folded" where
  "fold_label nfc lower joins s =
     (if (list_all (\<lambda>u. u < 128) s \<or> nfc s = s) \<and> length (lower s) = length s
      then \<lparr>ftext = lower s, cased = s, ffrom = None, fto = None\<rparr>
      else case fold_loop nfc lower joins 0 s of
             (t, c, fs, ts) \<Rightarrow> \<lparr>ftext = t, cased = c, ffrom = Some fs, fto = Some ts\<rparr>)"

definition foldQuery :: "(jstr \<Rightarrow> jstr) \<Rightarrow> (jstr \<Rightarrow> jstr) \<Rightarrow> jstr \<Rightarrow> jstr" where
  "foldQuery nfc lower q = trim (lower (nfc q))"

subsection \<open>Prepared labels\<close>

record Prepared =
  label :: jstr
  ptext :: jstr
  bonus :: "nat list"
  name :: nat
  bname :: jstr
  stem :: jstr
  pmask :: "32 word"
  nameMask :: "32 word"
  pfrom :: "nat list option"
  pto :: "nat list option"

definition bitOf :: "nat \<Rightarrow> 32 word" where
  "bitOf c = (if 97 \<le> c \<and> c \<le> 122 then push_bit (c - 97) 1
     else if 48 \<le> c \<and> c \<le> 57 then push_bit 26 1 else 0)"

definition maskOf :: "jstr \<Rightarrow> 32 word" where
  "maskOf s = foldl (\<lambda>m c. m OR bitOf c) 0 s"

definition bonusClass :: "nat \<Rightarrow> nat \<Rightarrow> nat" where
  "bonusClass prev c =
     (if prev = 47 then 1
      else if prev = 45 \<or> prev = 95 \<or> prev = 32 then 2
      else if prev = 46 then 3
      else if 97 \<le> prev \<and> prev \<le> 122 \<and> 65 \<le> c \<and> c \<le> 90 then 4 else 0)"

fun bonus_list :: "nat \<Rightarrow> jstr \<Rightarrow> nat list" where
  "bonus_list prev [] = []"
| "bonus_list prev (c # cs) = bonusClass prev c # bonus_list c cs"

definition prepare_label :: "(jstr \<Rightarrow> jstr) \<Rightarrow> (jstr \<Rightarrow> jstr) \<Rightarrow> (jstr \<Rightarrow> bool) \<Rightarrow> jstr \<Rightarrow> Prepared" where
  "prepare_label nfc lower joins lab =
     (let f = fold_label nfc lower joins lab;
          nm = (case last_index 47 (ftext f) of None \<Rightarrow> 0 | Some i \<Rightarrow> i + 1);
          bs = drop nm (ftext f);
          st = (case last_index 46 bs of None \<Rightarrow> bs | Some dot \<Rightarrow> if dot > 0 then take dot bs else bs)
      in \<lparr>label = lab, ptext = ftext f, bonus = bonus_list 47 (cased f), name = nm, bname = bs, stem = st,
          pmask = maskOf (ftext f), nameMask = maskOf bs, pfrom = ffrom f, pto = fto f\<rparr>)"

definition CACHE_MAX :: nat where "CACHE_MAX = 200000"

text \<open>The cache of prepared labels, an association list with the newest first.\<close>

type_synonym cache = "(jstr \<times> Prepared) list"

definition prepare :: "(jstr \<Rightarrow> jstr) \<Rightarrow> (jstr \<Rightarrow> jstr) \<Rightarrow> (jstr \<Rightarrow> bool) \<Rightarrow> jstr \<Rightarrow> cache \<Rightarrow> Prepared \<times> cache" where
  "prepare nfc lower joins lab c =
     (case map_of c lab of
        Some p \<Rightarrow> (p, c)
      | None \<Rightarrow>
          let p = prepare_label nfc lower joins lab
          in (p, (lab, p) # (if length c \<ge> CACHE_MAX then [] else c)))"

subsection \<open>Matching and scoring\<close>

text \<open>\<open>text.indexOf(c, j)\<close> for one character.\<close>

definition index_of :: "nat \<Rightarrow> jstr \<Rightarrow> nat \<Rightarrow> nat option" where
  "index_of c text j = map_option (\<lambda>i. j + i) (first_index c (drop j text))"

text \<open>\<open>text.lastIndexOf(c, j)\<close>: the last occurrence at \<open>j\<close> or before.\<close>

definition last_index_of :: "nat \<Rightarrow> jstr \<Rightarrow> nat \<Rightarrow> nat option" where
  "last_index_of c text j = last_index c (take (Suc j) text)"

text \<open>\<open>hasMatch\<close>: the leftmost places \<open>lo\<close> of the token's characters, if it matches.\<close>

fun hasMatch :: "jstr \<Rightarrow> jstr \<Rightarrow> nat \<Rightarrow> nat list option" where
  "hasMatch [] text j = Some []"
| "hasMatch (c # cs) text j =
     (case index_of c text j of
        None \<Rightarrow> None
      | Some i \<Rightarrow> map_option (Cons i) (hasMatch cs text (Suc i)))"

definition bonus_at :: "Prepared \<Rightarrow> nat \<Rightarrow> int" where
  "bonus_at p j = BONUS (bonus p ! j)"

definition gap_of :: "nat \<Rightarrow> nat \<Rightarrow> int" where
  "gap_of n i = (if Suc i = n then GAP_TRAILING else GAP_INNER)"

text \<open>One row of the banded scorer: the cells from \<open>j\<close> on. The two rows of the scratch array that
  were written last are read, the two others are written.\<close>

function fzy_cells :: "nat \<Rightarrow> nat \<Rightarrow> nat \<Rightarrow> int \<Rightarrow> Prepared \<Rightarrow> nat \<Rightarrow> (nat \<Rightarrow> score) \<Rightarrow> (nat \<Rightarrow> score)
    \<Rightarrow> (nat \<Rightarrow> score) \<Rightarrow> (nat \<Rightarrow> score) \<Rightarrow> score \<Rightarrow> nat \<Rightarrow> (nat \<Rightarrow> score) \<times> (nat \<Rightarrow> score)" where
  "fzy_cells i qc m gap p from lastD lastM curD curM prev j =
     (if j < m then
        (if qc = ptext p ! (from + j) then
           let s = (if i = 0 then Fin (int j * GAP_LEADING + bonus_at p (from + j))
                    else if j > 0 then max (plus_fin (lastM (j - 1)) (bonus_at p (from + j)))
                                           (plus_fin (lastD (j - 1)) MATCH_CONSECUTIVE)
                    else NegInf);
               v = max s (plus_fin prev gap)
           in fzy_cells i qc m gap p from lastD lastM (curD(j := s)) (curM(j := v)) v (j + 1)
         else
           let v = plus_fin prev gap
           in fzy_cells i qc m gap p from lastD lastM (curD(j := NegInf)) (curM(j := v)) v (j + 1))
      else (curD, curM))"
  by pat_completeness auto
termination
  by (relation "measure (\<lambda>(i, qc, m, gap, p, from, lastD, lastM, curD, curM, prev, j). m - j)") auto

declare fzy_cells.simps [simp del]

text \<open>The rows in turn; after each one the written pair becomes the read pair.\<close>

fun fzy_rows :: "nat \<Rightarrow> nat \<Rightarrow> nat \<Rightarrow> Prepared \<Rightarrow> nat \<Rightarrow> jstr \<Rightarrow> nat list
    \<Rightarrow> (nat \<Rightarrow> score) \<Rightarrow> (nat \<Rightarrow> score) \<Rightarrow> (nat \<Rightarrow> score) \<Rightarrow> (nat \<Rightarrow> score) \<Rightarrow> (nat \<Rightarrow> score)" where
  "fzy_rows n m i p from (qc # tok) (l # lo) lastD lastM curD curM =
     (case fzy_cells i qc m (gap_of n i) p from lastD lastM curD curM NegInf (l - from) of
        (D, M) \<Rightarrow> fzy_rows n m (Suc i) p from tok lo D M lastD lastM)"
| "fzy_rows n m i p from _ _ lastD lastM curD curM = lastM"

text \<open>The one-character case: its best bonus over the occurrences from \<open>lo\<close> on.\<close>

function best_bonus :: "nat \<Rightarrow> Prepared \<Rightarrow> nat option \<Rightarrow> score \<Rightarrow> score" where
  "best_bonus c p None best = best"
| "best_bonus c p (Some j) best =
     best_bonus c p (if j < length (ptext p) then index_of c (ptext p) (j + 1) else None)
       (max best (Fin (bonus_at p j)))"
  by pat_completeness auto
termination
proof (relation "measure (\<lambda>(c, p, j, best). case j of None \<Rightarrow> 0 | Some i \<Rightarrow> 1 + (1 + length (ptext p) - i))",
    simp, goal_cases)
  case (1 c p j best)
  show ?case
  proof (cases "j < length (ptext p)")
    case True
    then have "i > j \<and> i \<le> length (ptext p)" if "index_of c (ptext p) (j + 1) = Some i" for i
      using that first_index_split [of c "drop (j + 1) (ptext p)"] by (auto simp: index_of_def)
    with True show ?thesis by (cases "index_of c (ptext p) (j + 1)") auto
  qed simp
qed

declare best_bonus.simps [simp del]

text \<open>The matrices of \<open>fzyPositions\<close>: row \<open>i\<close> as the list of its pairs \<open>(D, M)\<close>, from the row before
  shifted by one cell.\<close>

fun dp_cells :: "bool \<Rightarrow> nat \<Rightarrow> int \<Rightarrow> nat \<Rightarrow> score \<Rightarrow> (nat \<times> int) list \<Rightarrow> (score \<times> score) list \<Rightarrow> (score \<times> score) list" where
  "dp_cells first qc gap j prev ((c, b) # cbs) ((pd, pm) # ps) =
     (let s = (if qc = c then
                 (if first then Fin (int j * GAP_LEADING + b)
                  else max (plus_fin pm b) (plus_fin pd MATCH_CONSECUTIVE))
               else NegInf);
          v = max s (plus_fin prev gap)
      in (s, v) # dp_cells first qc gap (j + 1) v cbs ps)"
| "dp_cells first qc gap j prev _ _ = []"

fun dp_rows :: "nat \<Rightarrow> nat \<Rightarrow> (nat \<times> int) list \<Rightarrow> jstr \<Rightarrow> (score \<times> score) list \<Rightarrow> (score \<times> score) list list" where
  "dp_rows n i cbs [] up = []"
| "dp_rows n i cbs (qc # tok) up =
     (let row = dp_cells (i = 0) qc (gap_of n i) 0 NegInf cbs ((NegInf, NegInf) # up)
      in row # dp_rows n (Suc i) cbs tok row)"

definition char_bonus :: "Prepared \<Rightarrow> nat \<Rightarrow> (nat \<times> int) list" where
  "char_bonus p from = map (\<lambda>j. (ptext p ! j, bonus_at p j)) [from ..< length (ptext p)]"

definition dp_matrix :: "jstr \<Rightarrow> Prepared \<Rightarrow> nat \<Rightarrow> (score \<times> score) list list" where
  "dp_matrix tok p from =
     dp_rows (length tok) 0 (char_bonus p from) tok (replicate (length (ptext p) - from) (NegInf, NegInf))"

text \<open>The walk back: from the last row and column, the cell each row is matched at.\<close>

fun walk_row :: "(score \<times> score) list \<Rightarrow> bool \<Rightarrow> nat \<Rightarrow> nat option" where
  "walk_row row required 0 = None"
| "walk_row row required (Suc j) =
     (let (d, v) = row ! j
      in if d \<noteq> NegInf \<and> (required \<or> d = v) then Some j else walk_row row required j)"

text \<open>Rows from the last to the first; \<open>j\<close> is one past the column the search starts at.\<close>

fun walk_back :: "(score \<times> score) list list \<Rightarrow> bool \<Rightarrow> nat \<Rightarrow> nat list" where
  "walk_back [] required j = []"
| "walk_back (row # rows) required j =
     (case walk_row row required j of
        None \<Rightarrow> []
      | Some k \<Rightarrow>
          let req = (case rows of
                [] \<Rightarrow> False
              | up # _ \<Rightarrow> k > 0 \<and> snd (row ! k) = plus_fin (fst (up ! (k - 1))) MATCH_CONSECUTIVE)
          in walk_back rows req k @ [k])"

definition fzyPositions :: "jstr \<Rightarrow> Prepared \<Rightarrow> nat \<Rightarrow> nat list \<times> score" where
  "fzyPositions tok p from =
     (let L = dp_matrix tok p from; m = length (ptext p) - from
      in (map (\<lambda>j. from + j) (walk_back (rev L) False m), snd (last L ! (m - 1))))"

text \<open>\<open>fzy\<close>: the score, and the positions when they are asked for. \<open>lo\<close> is what \<open>hasMatch\<close> left, \<open>r\<close>
  the four rows of the scratch array.\<close>

definition fzy :: "jstr \<Rightarrow> Prepared \<Rightarrow> nat \<Rightarrow> nat list \<Rightarrow> (nat \<Rightarrow> nat \<Rightarrow> score) \<Rightarrow> bool \<Rightarrow> nat list \<times> score" where
  "fzy tok p from lo r want =
     (let n = length tok; m = length (ptext p) - from
      in if n = m then (if want then map (\<lambda>i. from + i) [0 ..< n] else [], PosInf)
         else if want then fzyPositions tok p from
         else if n = 1 then
           ([], plus_fin (best_bonus (hd tok) p (Some (hd lo)) NegInf) (GAP_TRAILING * (int m - 1)))
         else ([], fzy_rows n m 0 p from tok lo (r 0) (r 1) (r 2) (r 3) (m - 1)))"

subsection \<open>Alignments\<close>

text \<open>
  The reference: an alignment places the token's characters at increasing positions of the region
  that hold them. Its score is fzy's: the leading gap and the first bonus, for each later
  character either a consecutive match or the inner gap and the bonus, then the trailing gap.
\<close>

definition alignment :: "Prepared \<Rightarrow> nat \<Rightarrow> jstr \<Rightarrow> nat list \<Rightarrow> bool" where
  "alignment p from tok ps \<longleftrightarrow> sorted_wrt (<) ps \<and> map (\<lambda>j. ptext p ! (from + j)) ps = tok
     \<and> (\<forall>j \<in> set ps. from + j < length (ptext p))"

fun rscore :: "Prepared \<Rightarrow> nat \<Rightarrow> nat list \<Rightarrow> int" where
  "rscore p from [] = 0"
| "rscore p from [j] = int j * GAP_LEADING + bonus_at p (from + j)"
| "rscore p from (j # k # ps) =
     (if j = Suc k then max (bonus_at p (from + j)) MATCH_CONSECUTIVE
      else int (j - Suc k) * GAP_INNER + bonus_at p (from + j)) + rscore p from (k # ps)"

definition alignment_score :: "Prepared \<Rightarrow> nat \<Rightarrow> nat list \<Rightarrow> int" where
  "alignment_score p from ps =
     rscore p from (rev ps) + int (length (ptext p) - from - 1 - last ps) * GAP_TRAILING"

lemma alignment_length: "alignment p from tok ps \<Longrightarrow> length ps = length tok"
  unfolding alignment_def by (metis length_map)

lemma alignment_snoc:
  "alignment p from (tok @ [c]) (ps @ [j]) \<longleftrightarrow>
     alignment p from tok ps \<and> (ps = [] \<or> last ps < j) \<and> from + j < length (ptext p) \<and> ptext p ! (from + j) = c"
proof -
  have "sorted_wrt (<) ps \<Longrightarrow> (\<forall>k \<in> set ps. k < j) \<longleftrightarrow> (ps = [] \<or> last ps < j)" for ps :: "nat list"
    by (induction ps rule: rev_induct) (auto simp: sorted_wrt_append intro: less_trans)
  then show ?thesis by (auto simp: alignment_def sorted_wrt_append)
qed

lemma alignment_snocE:
  assumes "alignment p from (tok @ [c]) ps"
  obtains ks j where "ps = ks @ [j]" "alignment p from tok ks" "ks = [] \<or> last ks < j"
    "from + j < length (ptext p)" "ptext p ! (from + j) = c"
proof -
  from assms have "ps \<noteq> []" by (auto simp: alignment_def)
  then have "ps = butlast ps @ [last ps]" by simp
  with assms that show thesis by (metis alignment_snoc)
qed

subsection \<open>The matrices as functions of the cell\<close>

function (sequential) cellD :: "jstr \<Rightarrow> Prepared \<Rightarrow> nat \<Rightarrow> nat \<Rightarrow> nat \<Rightarrow> score"
  and cellM :: "jstr \<Rightarrow> Prepared \<Rightarrow> nat \<Rightarrow> nat \<Rightarrow> nat \<Rightarrow> score" where
  "cellD tok p from 0 j =
     (if tok ! 0 = ptext p ! (from + j) then Fin (int j * GAP_LEADING + bonus_at p (from + j)) else NegInf)"
| "cellD tok p from (Suc i) 0 = NegInf"
| "cellD tok p from (Suc i) (Suc j) =
     (if tok ! Suc i = ptext p ! (from + Suc j)
      then max (plus_fin (cellM tok p from i j) (bonus_at p (from + Suc j)))
               (plus_fin (cellD tok p from i j) MATCH_CONSECUTIVE)
      else NegInf)"
| "cellM tok p from i 0 = cellD tok p from i 0"
| "cellM tok p from i (Suc j) =
     max (cellD tok p from i (Suc j)) (plus_fin (cellM tok p from i j) (gap_of (length tok) i))"
  by pat_completeness auto
termination
  by (relation "measure (\<lambda>x. case x of Inl (t, p, f, i, j) \<Rightarrow> 2 * (i + j) | Inr (t, p, f, i, j) \<Rightarrow> 2 * (i + j) + 1)")
    simp_all

lemma score_le_simps [simp]:
  "NegInf \<le> s" "s \<le> PosInf" "Fin a \<le> Fin b \<longleftrightarrow> a \<le> b" "\<not> Fin a \<le> NegInf" "\<not> PosInf \<le> Fin a" "\<not> PosInf \<le> NegInf"
  by (cases s; simp add: less_eq_score_def)+

lemma max_NegInf [simp]: "max NegInf s = s" "max s NegInf = s"
  by (simp_all add: max_def) (metis antisym score_le_simps(1))

lemma max_Fin [simp]: "max (Fin a) (Fin b) = Fin (max a b)"
  by (simp add: max_def)

lemma plus_fin_simps [simp]: "plus_fin NegInf n = NegInf" "plus_fin (Fin m) n = Fin (m + n)" "plus_fin PosInf n = PosInf"
  by (simp_all add: plus_fin_def)

lemma plus_fin_mono: "s \<le> t \<Longrightarrow> plus_fin s n \<le> plus_fin t n"
  by (cases s; cases t) simp_all

lemma plus_fin_Fin: "plus_fin s n = Fin x \<longleftrightarrow> s = Fin (x - n)"
  by (cases s) auto

lemma max_score_Fin:
  "max (s::score) t = Fin x \<Longrightarrow> s = Fin x \<or> t = Fin x"
  by (auto simp: max_def split: if_splits)

lemma bonus_bounds: "BONUS k \<le> 900" if "k < 5"
proof -
  from that have "k = 0 \<or> k = 1 \<or> k = 2 \<or> k = 3 \<or> k = 4" by linarith
  then show ?thesis by (auto simp: BONUS_def)
qed

lemma cellD_upper:
  assumes "\<And>ps. alignment p from (take (Suc i) tok) ps \<Longrightarrow> last ps \<le> j \<Longrightarrow>
      Fin (rscore p from (rev ps) + int (j - last ps) * GAP_INNER) \<le> cellM tok p from i j"
    and "\<And>ps. alignment p from (take (Suc i) tok) ps \<Longrightarrow> last ps = j \<Longrightarrow>
      Fin (rscore p from (rev ps)) \<le> cellD tok p from i j"
    and "Suc i < length tok" "alignment p from (take (Suc (Suc i)) tok) ps" "last ps = Suc j"
  shows "Fin (rscore p from (rev ps)) \<le> cellD tok p from (Suc i) (Suc j)"
proof -
  from assms(3) have "take (Suc (Suc i)) tok = take (Suc i) tok @ [tok ! Suc i]"
    by (simp add: take_Suc_conv_app_nth)
  with assms(4) obtain ks l where a: "ps = ks @ [l]" "alignment p from (take (Suc i) tok) ks"
    "ks = [] \<or> last ks < l" "ptext p ! (from + l) = tok ! Suc i"
    by (metis alignment_snocE)
  with assms(5) have l: "l = Suc j" by simp
  from a(2) assms(3) alignment_length have "ks \<noteq> []" by fastforce
  then obtain us k where ks: "ks = us @ [k]" by (metis rev_exhaust)
  with a l have kj: "k \<le> j" by simp
  from assms(1) [OF a(2)] ks kj have M: "Fin (rscore p from (k # rev us) + int (j - k) * GAP_INNER) \<le> cellM tok p from i j"
    by simp
  have eq: "rscore p from (rev ps) =
      (if k = j then max (bonus_at p (from + Suc j)) MATCH_CONSECUTIVE
       else int (j - k) * GAP_INNER + bonus_at p (from + Suc j)) + rscore p from (k # rev us)"
    using a(1) l ks by auto
  note M' = plus_fin_mono [OF M, of "bonus_at p (from + Suc j)"]
  have m: "plus_fin (cellM tok p from i j) (bonus_at p (from + Suc j)) \<le> cellD tok p from (Suc i) (Suc j)"
    "plus_fin (cellD tok p from i j) MATCH_CONSECUTIVE \<le> cellD tok p from (Suc i) (Suc j)"
    using a(4) l by simp_all
  show ?thesis
  proof (cases "k = j")
    case False
    with eq M' m(1) have "Fin (rscore p from (rev ps)) \<le> plus_fin (cellM tok p from i j) (bonus_at p (from + Suc j))"
      by (simp add: algebra_simps)
    from order_trans [OF this m(1)] show ?thesis .
  next
    case True
    with assms(2) [OF a(2)] ks have "Fin (rscore p from (k # rev us)) \<le> cellD tok p from i j" by simp
    from order_trans [OF plus_fin_mono [OF this] m(2)] order_trans [OF M' m(1)] True eq
    show ?thesis by (simp add: max_def algebra_simps del: cellD.simps)
  qed
qed


lemma cellM_upper:
  assumes D: "\<And>l ps. l \<le> j \<Longrightarrow> alignment p from (take (Suc i) tok) ps \<Longrightarrow> last ps = l \<Longrightarrow>
      Fin (rscore p from (rev ps)) \<le> cellD tok p from i l"
    and "alignment p from (take (Suc i) tok) ps" "last ps \<le> j"
  shows "Fin (rscore p from (rev ps) + int (j - last ps) * gap_of (length tok) i) \<le> cellM tok p from i j"
  using assms
proof (induction j)
  case 0
  then show ?case by simp
next
  case (Suc j)
  show ?case
  proof (cases "last ps = Suc j")
    case True
    with Suc.prems(1) [OF _ Suc.prems(2) True] show ?thesis by (simp add: le_max_iff_disj)
  next
    case False
    with Suc.prems(3) have l: "last ps \<le> j" by simp
    have "Fin (rscore p from (rev ps) + int (j - last ps) * gap_of (length tok) i) \<le> cellM tok p from i j"
      by (rule Suc.IH [OF Suc.prems(1) Suc.prems(2) l]) simp_all
    from plus_fin_mono [OF this, of "gap_of (length tok) i"] l show ?thesis
      by (simp add: le_max_iff_disj Suc_diff_le algebra_simps)
  qed
qed

lemma cellM_attained:
  assumes D: "\<And>l x. l \<le> j \<Longrightarrow> cellD tok p from i l = Fin x \<Longrightarrow>
      \<exists>ps. alignment p from (take (Suc i) tok) ps \<and> last ps = l \<and> x \<le> rscore p from (rev ps)"
    and "cellM tok p from i j = Fin x"
  shows "\<exists>ps. alignment p from (take (Suc i) tok) ps \<and> last ps \<le> j
           \<and> x \<le> rscore p from (rev ps) + int (j - last ps) * gap_of (length tok) i"
  using assms
proof (induction j arbitrary: x)
  case 0
  from 0(1) [of 0 x] 0(2) show ?case by auto
next
  case (Suc j)
  from Suc.prems(2) consider "cellD tok p from i (Suc j) = Fin x"
    | "cellM tok p from i j = Fin (x - gap_of (length tok) i)"
    by (auto simp: plus_fin_Fin dest!: max_score_Fin)
  then show ?case
  proof cases
    case 1
    from Suc.prems(1) [OF _ 1] show ?thesis by force
  next
    case 2
    from Suc.IH [OF Suc.prems(1) 2] obtain ps where "alignment p from (take (Suc i) tok) ps" "last ps \<le> j"
      "x - gap_of (length tok) i \<le> rscore p from (rev ps) + int (j - last ps) * gap_of (length tok) i"
      by auto
    then show ?thesis by (intro exI [of _ ps]) (simp add: Suc_diff_le algebra_simps)
  qed
qed

lemma cellD_attained:
  assumes M: "\<And>y. cellM tok p from i j = Fin y \<Longrightarrow> \<exists>ps. alignment p from (take (Suc i) tok) ps \<and> last ps \<le> j
           \<and> y \<le> rscore p from (rev ps) + int (j - last ps) * GAP_INNER"
    and D: "\<And>y. cellD tok p from i j = Fin y \<Longrightarrow>
      \<exists>ps. alignment p from (take (Suc i) tok) ps \<and> last ps = j \<and> y \<le> rscore p from (rev ps)"
    and "Suc i < length tok" "from + Suc j < length (ptext p)" "cellD tok p from (Suc i) (Suc j) = Fin x"
  shows "\<exists>ps. alignment p from (take (Suc (Suc i)) tok) ps \<and> last ps = Suc j \<and> x \<le> rscore p from (rev ps)"
proof -
  let ?b = "bonus_at p (from + Suc j)"
  have tk: "take (Suc (Suc i)) tok = take (Suc i) tok @ [tok ! Suc i]"
    using assms(3) by (simp add: take_Suc_conv_app_nth)
  from assms(5) have c: "tok ! Suc i = ptext p ! (from + Suc j)" by (simp split: if_splits)
  have ext: "alignment p from (take (Suc (Suc i)) tok) (ps @ [Suc j])"
      "rscore p from (rev (ps @ [Suc j])) = (if last ps = j then max ?b MATCH_CONSECUTIVE
         else int (j - last ps) * GAP_INNER + ?b) + rscore p from (rev ps)"
    if "alignment p from (take (Suc i) tok) ps" "last ps \<le> j" for ps
  proof -
    show "alignment p from (take (Suc (Suc i)) tok) (ps @ [Suc j])"
      using that tk c assms(4) by (simp add: alignment_snoc)
    from that(1) assms(3) alignment_length have "ps \<noteq> []" by fastforce
    then show "rscore p from (rev (ps @ [Suc j])) = (if last ps = j then max ?b MATCH_CONSECUTIVE
         else int (j - last ps) * GAP_INNER + ?b) + rscore p from (rev ps)"
      by (cases ps rule: rev_cases) auto
  qed
  from assms(5) c consider "cellM tok p from i j = Fin (x - ?b)"
    | "cellD tok p from i j = Fin (x - MATCH_CONSECUTIVE)"
    by (auto simp: plus_fin_Fin dest!: max_score_Fin)
  then show ?thesis
  proof cases
    case 1
    from M [OF this] obtain ps where h: "alignment p from (take (Suc i) tok) ps" "last ps \<le> j"
      "x - ?b \<le> rscore p from (rev ps) + int (j - last ps) * GAP_INNER" by blast
    from ext [OF h(1,2)] h show ?thesis
      by (intro exI [of _ "ps @ [Suc j]"]) (auto simp: max_def algebra_simps)
  next
    case 2
    from D [OF this] obtain ps where h: "alignment p from (take (Suc i) tok) ps" "last ps = j"
      "x - MATCH_CONSECUTIVE \<le> rscore p from (rev ps)" by blast
    from ext [OF h(1)] h show ?thesis
      by (intro exI [of _ "ps @ [Suc j]"]) (auto simp: max_def algebra_simps)
  qed
qed

lemma gap_inner: "Suc i < n \<Longrightarrow> gap_of n i = GAP_INNER"
  by (simp add: gap_of_def)

lemma alignment_one: "alignment p from [c] ps \<longleftrightarrow> (\<exists>j. ps = [j] \<and> from + j < length (ptext p) \<and> ptext p ! (from + j) = c)"
  by (auto simp: alignment_def)

text \<open>The cells are the best alignments of the token's prefixes.\<close>

lemma cellD_best:
  assumes "i < length tok" "from + j < length (ptext p)"
  shows "(\<forall>ps. alignment p from (take (Suc i) tok) ps \<and> last ps = j \<longrightarrow> Fin (rscore p from (rev ps)) \<le> cellD tok p from i j)
    \<and> (\<forall>x. cellD tok p from i j = Fin x \<longrightarrow>
        (\<exists>ps. alignment p from (take (Suc i) tok) ps \<and> last ps = j \<and> x \<le> rscore p from (rev ps)))"
  using assms
proof (induction i arbitrary: j)
  case 0
  then have t: "take (Suc 0) tok = [tok ! 0]" by (simp add: take_Suc_conv_app_nth)
  show ?case
  proof (intro conjI allI impI; (elim conjE)?)
    fix ps assume "alignment p from (take (Suc 0) tok) ps" "last ps = j"
    then have "ps = [j]" "tok ! 0 = ptext p ! (from + j)" unfolding t alignment_one by auto
    then show "Fin (rscore p from (rev ps)) \<le> cellD tok p from 0 j" by simp
  next
    fix x assume "cellD tok p from 0 j = Fin x"
    then have "tok ! 0 = ptext p ! (from + j)" "x = rscore p from (rev [j])" by (simp_all split: if_splits)
    with 0(2) show "\<exists>ps. alignment p from (take (Suc 0) tok) ps \<and> last ps = j \<and> x \<le> rscore p from (rev ps)"
      unfolding t by (intro exI [of _ "[j]"]) (simp add: alignment_one)
  qed
next
  case (Suc i)
  have tk: "take (Suc (Suc i)) tok = take (Suc i) tok @ [tok ! Suc i]"
    using Suc.prems(1) by (simp add: take_Suc_conv_app_nth)
  have ih: "\<And>l ps. l \<le> j \<Longrightarrow> alignment p from (take (Suc i) tok) ps \<Longrightarrow> last ps = l \<Longrightarrow>
      Fin (rscore p from (rev ps)) \<le> cellD tok p from i l"
    "\<And>l x. l \<le> j \<Longrightarrow> cellD tok p from i l = Fin x \<Longrightarrow>
      \<exists>ps. alignment p from (take (Suc i) tok) ps \<and> last ps = l \<and> x \<le> rscore p from (rev ps)"
    using Suc.IH Suc.prems by simp_all
  show ?case
  proof (cases j)
    case 0
    have "\<not> (alignment p from (take (Suc (Suc i)) tok) ps \<and> last ps = 0)" for ps
    proof
      assume a: "alignment p from (take (Suc (Suc i)) tok) ps \<and> last ps = 0"
      then obtain ks l where k: "ps = ks @ [l]" "alignment p from (take (Suc i) tok) ks" "ks = [] \<or> last ks < l"
        unfolding tk by (metis alignment_snocE)
      from k(2) Suc.prems(1) alignment_length have "ks \<noteq> []" by fastforce
      with a k show False by simp
    qed
    with 0 show ?thesis by auto
  next
    case (Suc l)
    have d: "\<And>k ps. k \<le> l \<Longrightarrow> alignment p from (take (Suc i) tok) ps \<Longrightarrow> last ps = k \<Longrightarrow>
        Fin (rscore p from (rev ps)) \<le> cellD tok p from i k"
      "\<And>k x. k \<le> l \<Longrightarrow> cellD tok p from i k = Fin x \<Longrightarrow>
        \<exists>ps. alignment p from (take (Suc i) tok) ps \<and> last ps = k \<and> x \<le> rscore p from (rev ps)"
      by (erule ih(1) [rotated]; use Suc in linarith) (erule ih(2) [rotated]; use Suc in linarith)
    have M1: "Fin (rscore p from (rev ps) + int (l - last ps) * GAP_INNER) \<le> cellM tok p from i l"
      if "alignment p from (take (Suc i) tok) ps" "last ps \<le> l" for ps
      unfolding gap_inner [OF Suc.prems(1), symmetric] using d(1) that by (rule cellM_upper)
    have M2: "\<exists>ps. alignment p from (take (Suc i) tok) ps \<and> last ps \<le> l
           \<and> y \<le> rscore p from (rev ps) + int (l - last ps) * GAP_INNER"
      if "cellM tok p from i l = Fin y" for y
      unfolding gap_inner [OF Suc.prems(1), symmetric] using d(2) that by (rule cellM_attained)
    show ?thesis unfolding Suc
    proof (intro conjI allI impI; (elim conjE)?)
      fix ps assume a: "alignment p from (take (Suc (Suc i)) tok) ps" "last ps = Suc l"
      have "\<And>ps. alignment p from (take (Suc i) tok) ps \<Longrightarrow> last ps = l \<Longrightarrow>
          Fin (rscore p from (rev ps)) \<le> cellD tok p from i l"
        by (erule d(1) [OF order_refl])
      with M1 show "Fin (rscore p from (rev ps)) \<le> cellD tok p from (Suc i) (Suc l)"
        using Suc.prems(1) a by (rule cellD_upper)
    next
      fix x assume a: "cellD tok p from (Suc i) (Suc l) = Fin x"
      have "\<And>y. cellD tok p from i l = Fin y \<Longrightarrow>
          \<exists>ps. alignment p from (take (Suc i) tok) ps \<and> last ps = l \<and> y \<le> rscore p from (rev ps)"
        by (erule d(2) [OF order_refl])
      with M2 show "\<exists>ps. alignment p from (take (Suc (Suc i)) tok) ps \<and> last ps = Suc l \<and> x \<le> rscore p from (rev ps)"
        using Suc.prems(1) Suc.prems(2) [unfolded Suc] a by (rule cellD_attained)
    qed

  qed
qed

lemma cellM_best:
  assumes "i < length tok" "from + j < length (ptext p)"
  shows "\<And>ps. alignment p from (take (Suc i) tok) ps \<Longrightarrow> last ps \<le> j \<Longrightarrow>
      Fin (rscore p from (rev ps) + int (j - last ps) * gap_of (length tok) i) \<le> cellM tok p from i j"
    and "\<And>x. cellM tok p from i j = Fin x \<Longrightarrow> \<exists>ps. alignment p from (take (Suc i) tok) ps \<and> last ps \<le> j
           \<and> x \<le> rscore p from (rev ps) + int (j - last ps) * gap_of (length tok) i"
proof -
  have D: "\<And>l ps. l \<le> j \<Longrightarrow> alignment p from (take (Suc i) tok) ps \<Longrightarrow> last ps = l \<Longrightarrow>
      Fin (rscore p from (rev ps)) \<le> cellD tok p from i l"
    "\<And>l x. l \<le> j \<Longrightarrow> cellD tok p from i l = Fin x \<Longrightarrow>
      \<exists>ps. alignment p from (take (Suc i) tok) ps \<and> last ps = l \<and> x \<le> rscore p from (rev ps)"
    using cellD_best [OF assms(1)] assms(2) by simp_all
  show "Fin (rscore p from (rev ps) + int (j - last ps) * gap_of (length tok) i) \<le> cellM tok p from i j"
    if "alignment p from (take (Suc i) tok) ps" "last ps \<le> j" for ps
    using D(1) that by (rule cellM_upper)
  show "\<exists>ps. alignment p from (take (Suc i) tok) ps \<and> last ps \<le> j
           \<and> x \<le> rscore p from (rev ps) + int (j - last ps) * gap_of (length tok) i"
    if "cellM tok p from i j = Fin x" for x
    using D(2) that by (rule cellM_attained)
qed

subsection \<open>The code's matrices are the cells\<close>

text \<open>One cell as both loops compute it, from the cell up and left and the running best.\<close>

lemma cell_step:
  assumes "i > 0 \<Longrightarrow> (pd, pm) = (if j = 0 then (NegInf, NegInf) else (cellD tok p from (i - 1) (j - 1), cellM tok p from (i - 1) (j - 1)))"
  shows "(if tok ! i = ptext p ! (from + j) then
            if i = 0 then Fin (int j * GAP_LEADING + bonus_at p (from + j))
            else max (plus_fin pm (bonus_at p (from + j))) (plus_fin pd MATCH_CONSECUTIVE)
          else NegInf) = cellD tok p from i j"
  using assms by (cases i; cases j) simp_all

lemma run_step:
  assumes "prev = (if j = 0 then NegInf else cellM tok p from i (j - 1))"
  shows "max (cellD tok p from i j) (plus_fin prev (gap_of (length tok) i)) = cellM tok p from i j"
  using assms by (cases j) simp_all

lemma dp_cells_cell:
  assumes "\<And>k. k < length cbs \<Longrightarrow> cbs ! k = (ptext p ! (from + (j + k)), bonus_at p (from + (j + k)))"
    and "length cbs \<le> length ps"
    and "\<And>k. k < length cbs \<Longrightarrow> i > 0 \<Longrightarrow> ps ! k = (if j + k = 0 then (NegInf, NegInf)
           else (cellD tok p from (i - 1) (j + k - 1), cellM tok p from (i - 1) (j + k - 1)))"
    and "prev = (if j = 0 then NegInf else cellM tok p from i (j - 1))"
  shows "dp_cells (i = 0) (tok ! i) (gap_of (length tok) i) j prev cbs ps =
    map (\<lambda>k. (cellD tok p from i (j + k), cellM tok p from i (j + k))) [0 ..< length cbs]"
  using assms
proof (induction cbs arbitrary: j ps prev)
  case (Cons cb cbs)
  from Cons.prems(1) [of 0] have cb: "cb = (ptext p ! (from + j), bonus_at p (from + j))" by simp
  from Cons.prems(2) obtain pd pm qs where ps: "ps = (pd, pm) # qs" by (cases ps) auto
  from Cons.prems(3) [of 0] ps have "i > 0 \<Longrightarrow> (pd, pm) = (if j = 0 then (NegInf, NegInf)
      else (cellD tok p from (i - 1) (j - 1), cellM tok p from (i - 1) (j - 1)))" by simp
  note s = cell_step [OF this] and v = run_step [OF Cons.prems(4)]
  have tl: "dp_cells (i = 0) (tok ! i) (gap_of (length tok) i) (j + 1) (cellM tok p from i j) cbs qs =
      map (\<lambda>k. (cellD tok p from i (j + 1 + k), cellM tok p from i (j + 1 + k))) [0 ..< length cbs]"
  proof (rule Cons.IH)
    fix k assume "k < length cbs"
    then show "cbs ! k = (ptext p ! (from + (j + 1 + k)), bonus_at p (from + (j + 1 + k)))"
      using Cons.prems(1) [of "Suc k"] by simp
  next
    fix k assume "k < length cbs" "i > 0"
    then show "qs ! k = (if j + 1 + k = 0 then (NegInf, NegInf)
      else (cellD tok p from (i - 1) (j + 1 + k - 1), cellM tok p from (i - 1) (j + 1 + k - 1)))"
      using Cons.prems(3) [of "Suc k"] ps by simp
  qed (use Cons.prems(2) ps in simp_all)
  have "map (\<lambda>k. (cellD tok p from i (j + k), cellM tok p from i (j + k))) [0 ..< length (cb # cbs)] =
      (cellD tok p from i j, cellM tok p from i j) #
      map (\<lambda>k. (cellD tok p from i (j + 1 + k), cellM tok p from i (j + 1 + k))) [0 ..< length cbs]"
    by (simp add: upt_conv_Cons map_Suc_upt [symmetric] del: upt_Suc cellD.simps cellM.simps)
  with tl s v show ?case unfolding cb ps dp_cells.simps Let_def by simp
qed simp

definition cell_row :: "jstr \<Rightarrow> Prepared \<Rightarrow> nat \<Rightarrow> nat \<Rightarrow> (score \<times> score) list" where
  "cell_row tok p from i =
     map (\<lambda>j. (cellD tok p from i j, cellM tok p from i j)) [0 ..< length (ptext p) - from]"

lemma dp_rows_cells:
  assumes "toks = drop i tok" "i \<le> length tok" "length up = length (ptext p) - from"
    "i > 0 \<Longrightarrow> up = cell_row tok p from (i - 1)"
  shows "dp_rows (length tok) i (char_bonus p from) toks up = map (cell_row tok p from) [i ..< length tok]"
  using assms
proof (induction toks arbitrary: i up)
  case (Cons qc toks)
  then have i: "i < length tok" "qc = tok ! i" "toks = drop (Suc i) tok"
    by (auto simp: Cons_nth_drop_Suc [symmetric] dest!: sym [of "_ # _"] split: if_splits)
      (metis drop_all linorder_not_le neq_Nil_conv list.inject Cons_nth_drop_Suc)+
  have row: "dp_cells (i = 0) qc (gap_of (length tok) i) 0 NegInf (char_bonus p from) ((NegInf, NegInf) # up)
      = cell_row tok p from i"
  proof -
    have "dp_cells (i = 0) (tok ! i) (gap_of (length tok) i) 0 NegInf (char_bonus p from) ((NegInf, NegInf) # up) =
        map (\<lambda>k. (cellD tok p from i (0 + k), cellM tok p from i (0 + k))) [0 ..< length (char_bonus p from)]"
    proof (rule dp_cells_cell)
      fix k assume "k < length (char_bonus p from)" "i > 0"
      then show "((NegInf, NegInf) # up) ! k = (if 0 + k = 0 then (NegInf, NegInf)
           else (cellD tok p from (i - 1) (0 + k - 1), cellM tok p from (i - 1) (0 + k - 1)))"
        using Cons.prems(4) by (cases k) (simp_all add: cell_row_def char_bonus_def)
    qed (use Cons.prems(3) in \<open>simp_all add: char_bonus_def\<close>)
    then show ?thesis using i(2) by (simp add: cell_row_def char_bonus_def)
  qed
  have "dp_rows (length tok) (Suc i) (char_bonus p from) toks (cell_row tok p from i) =
      map (cell_row tok p from) [Suc i ..< length tok]"
    by (rule Cons.IH) (use i in \<open>simp_all add: cell_row_def\<close>)
  with row i(1) show ?case by (simp add: Let_def upt_conv_Cons)
qed simp

lemma dp_matrix_cells: "dp_matrix tok p from = map (cell_row tok p from) [0 ..< length tok]"
  unfolding dp_matrix_def by (rule dp_rows_cells) simp_all


subsection \<open>The band\<close>

lemma index_of_Some:
  assumes "index_of c s j = Some i"
  shows "j \<le> i" "i < length s" "s ! i = c" "\<And>k. j \<le> k \<Longrightarrow> k < i \<Longrightarrow> s ! k \<noteq> c"
proof -
  from assms obtain d where d: "first_index c (drop j s) = Some d" "i = j + d" by (auto simp: index_of_def)
  from first_index_split [OF d(1)] have f: "drop j s = take d (drop j s) @ c # drop (Suc d) (drop j s)"
    "c \<notin> set (take d (drop j s))" "d < length (drop j s)" by auto
  show "j \<le> i" "i < length s" using d f(3) by simp_all
  show "s ! i = c" using f(1,3) d(2) by (metis add_leD1 less_diff_conv2 less_imp_le_nat length_drop linorder_not_le nth_append_length nth_drop
        length_take min.absorb4 drop_all list.size(3) not_less0)
  show "s ! k \<noteq> c" if "j \<le> k" "k < i" for k
  proof
    assume "s ! k = c"
    with that d f(3) have "drop j s ! (k - j) = c" "k - j < d" by simp_all
    with f(2,3) show False by (metis in_set_conv_nth length_take min.absorb4 nth_take)
  qed
qed

lemma index_of_None: "index_of c s j = None \<longleftrightarrow> (\<forall>k. j \<le> k \<and> k < length s \<longrightarrow> s ! k \<noteq> c)"
proof -
  have "c \<in> set (drop j s) \<longleftrightarrow> (\<exists>k. j \<le> k \<and> k < length s \<and> s ! k = c)"
    by (auto simp: in_set_conv_nth) (metis le_add1 less_diff_conv add.commute, metis le_Suc_ex diff_less_mono add_diff_cancel_left' length_drop nth_drop less_imp_le_nat)
  then show ?thesis by (auto simp: index_of_def first_index_None)
qed

text \<open>What \<open>hasMatch\<close> leaves: the leftmost place of every character.\<close>

definition leftmost :: "jstr \<Rightarrow> jstr \<Rightarrow> nat \<Rightarrow> nat list \<Rightarrow> bool" where
  "leftmost tok s j lo \<longleftrightarrow> length lo = length tok \<and>
     (\<forall>i < length tok. let a = (if i = 0 then j else Suc (lo ! (i - 1)))
        in a \<le> lo ! i \<and> lo ! i < length s \<and> s ! (lo ! i) = tok ! i \<and> (\<forall>k. a \<le> k \<and> k < lo ! i \<longrightarrow> s ! k \<noteq> tok ! i))"

lemma hasMatch_leftmost: "hasMatch tok s j = Some lo \<Longrightarrow> leftmost tok s j lo"
proof (induction tok s j arbitrary: lo rule: hasMatch.induct)
  case (2 c cs s j)
  then obtain i ls where i: "index_of c s j = Some i" "hasMatch cs s (Suc i) = Some ls" "lo = i # ls"
    by (auto split: option.splits)
  note l = "2.IH" [OF i(1,2), unfolded leftmost_def]
  show ?case unfolding leftmost_def
  proof (intro conjI allI impI)
    show "length lo = length (c # cs)" using l i by simp
    fix k assume k: "k < length (c # cs)"
    show "let a = (if k = 0 then j else Suc (lo ! (k - 1)))
        in a \<le> lo ! k \<and> lo ! k < length s \<and> s ! (lo ! k) = (c # cs) ! k \<and> (\<forall>q. a \<le> q \<and> q < lo ! k \<longrightarrow> s ! q \<noteq> (c # cs) ! k)"
    proof (cases k)
      case 0
      with index_of_Some [OF i(1)] i(3) show ?thesis by (auto simp: Let_def)
    next
      case (Suc k')
      with l k i(3) show ?thesis by (cases k') (auto simp: Let_def)
    qed
  qed
qed (simp add: leftmost_def)

lemma leftmostD:
  assumes "leftmost tok s j lo" "i < length tok"
  shows "j \<le> lo ! i" "lo ! i < length s" "s ! (lo ! i) = tok ! i"
    "i > 0 \<Longrightarrow> lo ! (i - 1) < lo ! i"
    "i = 0 \<Longrightarrow> j \<le> k \<Longrightarrow> k < lo ! i \<Longrightarrow> s ! k \<noteq> tok ! i"
    "i > 0 \<Longrightarrow> lo ! (i - 1) < k \<Longrightarrow> k < lo ! i \<Longrightarrow> s ! k \<noteq> tok ! i"
proof -
  have P: "(if i = 0 then j else Suc (lo ! (i - 1))) \<le> lo ! i \<and> lo ! i < length s \<and> s ! (lo ! i) = tok ! i
      \<and> (\<forall>k. (if i = 0 then j else Suc (lo ! (i - 1))) \<le> k \<and> k < lo ! i \<longrightarrow> s ! k \<noteq> tok ! i)"
    if "i < length tok" for i
    using assms(1) that unfolding leftmost_def Let_def by blast
  show "j \<le> lo ! i" using assms(2)
  proof (induction i)
    case 0 with P [of 0] show ?case by simp
  next
    case (Suc i) with P [of "Suc i"] show ?case by simp
  qed
  show "lo ! i < length s" "s ! (lo ! i) = tok ! i"
    "i > 0 \<Longrightarrow> lo ! (i - 1) < lo ! i"
    "i = 0 \<Longrightarrow> j \<le> k \<Longrightarrow> k < lo ! i \<Longrightarrow> s ! k \<noteq> tok ! i"
    "i > 0 \<Longrightarrow> lo ! (i - 1) < k \<Longrightarrow> k < lo ! i \<Longrightarrow> s ! k \<noteq> tok ! i"
    using P [OF assms(2)] by (auto split: if_splits)
qed

lemma cells_before_band:
  assumes "leftmost tok (ptext p) from lo" "i < length tok" "from + j < lo ! i"
  shows "cellD tok p from i j = NegInf \<and> cellM tok p from i j = NegInf"
  using assms(2,3)
proof (induction i arbitrary: j)
  case 0
  have "cellD tok p from 0 j = NegInf" if "from + j < lo ! 0" for j
    using leftmostD(5) [OF assms(1) 0(1), of "from + j"] that by auto
  then have "from + j < lo ! 0 \<Longrightarrow> cellM tok p from 0 j = NegInf" for j
    by (induction j) (simp_all del: cellD.simps)
  with 0 show ?case using \<open>\<And>j. from + j < lo ! 0 \<Longrightarrow> cellD tok p from 0 j = NegInf\<close> by blast
next
  case (Suc i)
  have D: "cellD tok p from (Suc i) j = NegInf" if "from + j < lo ! Suc i" for j
  proof (cases j)
    case (Suc k)
    show ?thesis
    proof (cases "tok ! Suc i = ptext p ! (from + j)")
      case True
      with leftmostD(6) [OF assms(1) Suc.prems(1), of "from + j"] that have "\<not> Suc (lo ! i) \<le> from + j" by auto
      with Suc have "from + k < lo ! i" by simp
      with Suc.IH [of k] Suc.prems(1) Suc show ?thesis by simp
    qed (simp add: Suc)
  qed simp
  then have "from + j < lo ! Suc i \<Longrightarrow> cellM tok p from (Suc i) j = NegInf" for j
    by (induction j) (simp_all del: cellD.simps)
  with D Suc.prems show ?case by blast
qed

text \<open>One row of the band: the written cells are the matrix, whatever the scratch held.\<close>

lemma fzy_cells_band:
  assumes "i > 0 \<Longrightarrow> j > 0 \<and> (\<forall>k. j \<le> Suc k \<and> k < m \<longrightarrow> lastD k = cellD tok p from (i - 1) k \<and> lastM k = cellM tok p from (i - 1) k)"
    and "prev = (if j = 0 then NegInf else cellM tok p from i (j - 1))"
    and "fzy_cells i (tok ! i) m (gap_of (length tok) i) p from lastD lastM curD curM prev j = (D, M)"
  shows "(\<forall>k < j. D k = curD k \<and> M k = curM k)
    \<and> (\<forall>k. j \<le> k \<and> k < m \<longrightarrow> D k = cellD tok p from i k \<and> M k = cellM tok p from i k)"
  using assms
proof (induction "m - j" arbitrary: j prev curD curM)
  case 0
  then show ?case by (subst (asm) fzy_cells.simps) auto
next
  case (Suc q)
  from Suc(2) have j: "j < m" by simp
  let ?d = "cellD tok p from i j" and ?v = "cellM tok p from i j"
  have s: "(if i = 0 then Fin (int j * GAP_LEADING + bonus_at p (from + j))
            else if j > 0 then max (plus_fin (lastM (j - 1)) (bonus_at p (from + j))) (plus_fin (lastD (j - 1)) MATCH_CONSECUTIVE)
            else NegInf) = ?d" if "tok ! i = ptext p ! (from + j)"
  proof (cases "i = 0")
    case False
    then obtain i' j' where ij: "i = Suc i'" "j = Suc j'" using Suc(3) by (metis gr0_implies_Suc neq0_conv)
    with Suc(3) j have "lastD j' = cellD tok p from i' j'" "lastM j' = cellM tok p from i' j'" by auto
    with ij that show ?thesis by simp
  qed (use that in simp)
  note v = run_step [OF Suc(4)]
  have step: "fzy_cells i (tok ! i) m (gap_of (length tok) i) p from lastD lastM curD curM prev j =
      fzy_cells i (tok ! i) m (gap_of (length tok) i) p from lastD lastM (curD(j := ?d)) (curM(j := ?v)) ?v (j + 1)"
  proof (cases "tok ! i = ptext p ! (from + j)")
    case True
    from eqTrueI [OF True] eqTrueI [OF j] show ?thesis
      by (subst fzy_cells.simps) (simp only: if_True Let_def s [OF True] v)
  next
    case False
    then have d: "?d = NegInf" by (cases i; cases j) simp_all
    with v have "plus_fin prev (gap_of (length tok) i) = ?v" by simp
    with d j False show ?thesis by (subst fzy_cells.simps) (simp add: Let_def del: cellD.simps cellM.simps)
  qed
  have "(\<forall>k < j + 1. D k = (curD(j := ?d)) k \<and> M k = (curM(j := ?v)) k)
    \<and> (\<forall>k. j + 1 \<le> k \<and> k < m \<longrightarrow> D k = cellD tok p from i k \<and> M k = cellM tok p from i k)"
  proof (rule Suc(1) [where curD = "curD(j := ?d)" and curM = "curM(j := ?v)"])
    show "q = m - (j + 1)" using Suc(2) by simp
    show "i > 0 \<Longrightarrow> j + 1 > 0 \<and> (\<forall>k. j + 1 \<le> Suc k \<and> k < m \<longrightarrow>
        lastD k = cellD tok p from (i - 1) k \<and> lastM k = cellM tok p from (i - 1) k)"
      using Suc(3) by simp
  qed (use Suc(5) step in simp_all)
  then show ?case by (auto simp: le_less_Suc_eq not_less_eq_eq [symmetric] less_Suc_eq le_Suc_eq dest: le_neq_implies_less)
qed

lemma fzy_rows_band:
  assumes "leftmost tok (ptext p) from lo" "m = length (ptext p) - from"
    "toks = drop i tok" "los = drop i lo" "i \<le> length tok" "tok \<noteq> []"
    "i > 0 \<Longrightarrow> \<forall>k. lo ! (i - 1) \<le> from + k \<and> k < m \<longrightarrow>
       lastD k = cellD tok p from (i - 1) k \<and> lastM k = cellM tok p from (i - 1) k"
    "lo ! (length tok - 1) \<le> from + k" "k < m"
  shows "fzy_rows (length tok) m i p from toks los lastD lastM curD curM k = cellM tok p from (length tok - 1) k"
  using assms(3-)
proof (induction toks arbitrary: i los lastD lastM curD curM)
  case Nil
  then have "i = length tok" by simp
  with Nil show ?case by simp
next
  case (Cons qc toks)
  then have i: "i < length tok" by (metis drop_all linorder_not_le list.distinct(1))
  with assms(1) have il: "i < length lo" by (simp add: leftmost_def)
  from i Cons.prems(1) have t: "qc = tok ! i" "toks = drop (Suc i) tok"
    by (simp_all add: Cons_nth_drop_Suc [symmetric])
  from il Cons.prems(2) have l: "los = lo ! i # drop (Suc i) lo"
    by (simp add: Cons_nth_drop_Suc)
  note lf = leftmostD(1,4) [OF assms(1) i]
  obtain D M where DM: "fzy_cells i (tok ! i) m (gap_of (length tok) i) p from lastD lastM curD curM NegInf (lo ! i - from) = (D, M)"
    by fastforce
  have "(\<forall>k < lo ! i - from. D k = curD k \<and> M k = curM k)
    \<and> (\<forall>k. lo ! i - from \<le> k \<and> k < m \<longrightarrow> D k = cellD tok p from i k \<and> M k = cellM tok p from i k)"
  proof (rule fzy_cells_band [OF _ _ DM])
    assume "i > 0"
    moreover from i have "from \<le> lo ! (i - 1)" by (intro leftmostD(1) [OF assms(1)]) simp
    ultimately show "lo ! i - from > 0 \<and> (\<forall>k. lo ! i - from \<le> Suc k \<and> k < m \<longrightarrow>
        lastD k = cellD tok p from (i - 1) k \<and> lastM k = cellM tok p from (i - 1) k)"
      using lf Cons.prems(5) by auto
  next
    show "NegInf = (if lo ! i - from = 0 then NegInf else cellM tok p from i (lo ! i - from - 1))"
      using cells_before_band [OF assms(1) i, of "lo ! i - from - 1"] by simp
  qed
  then have "\<forall>k. lo ! i \<le> from + k \<and> k < m \<longrightarrow> D k = cellD tok p from i k \<and> M k = cellM tok p from i k"
    by auto
  then have "fzy_rows (length tok) m (Suc i) p from toks (drop (Suc i) lo) D M lastD lastM k = cellM tok p from (length tok - 1) k"
    by (intro Cons.IH) (use t i Cons.prems in simp_all)
  with l t DM show ?case by simp
qed

subsection \<open>The score is that of a best alignment\<close>

definition best_alignment :: "jstr \<Rightarrow> Prepared \<Rightarrow> nat \<Rightarrow> nat list \<Rightarrow> bool" where
  "best_alignment tok p from ps \<longleftrightarrow> alignment p from tok ps
     \<and> (\<forall>qs. alignment p from tok qs \<longrightarrow> alignment_score p from qs \<le> alignment_score p from ps)"

lemma cell_not_PosInf: "cellD tok p from i j \<noteq> PosInf" "cellM tok p from i j \<noteq> PosInf"
proof (induction tok p "from" i j and tok p "from" i j rule: cellD_cellM.induct)
  case (3 tok p "from" i j)
  then show ?case by (auto simp: max_def plus_fin_def split: score.splits)
next
  case (5 tok p "from" i j)
  then show ?case by (auto simp: max_def plus_fin_def split: score.splits)
qed simp_all

lemma leftmost_mono: "leftmost tok s j lo \<Longrightarrow> i < length tok \<Longrightarrow> k < i \<Longrightarrow> lo ! k < lo ! i"
proof (induction i)
  case (Suc i)
  from leftmostD(4) [OF Suc.prems(1,2)] have "lo ! i < lo ! Suc i" by simp
  with Suc show ?case by (cases "k = i") (auto intro: less_trans)
qed simp

lemma leftmost_alignment:
  assumes "leftmost tok (ptext p) from lo"
  shows "alignment p from tok (map (\<lambda>l. l - from) lo)"
proof -
  have len: "length lo = length tok" using assms by (simp add: leftmost_def)
  note l = leftmostD [OF assms]
  have "sorted_wrt (<) (map (\<lambda>l. l - from) lo)"
    using leftmost_mono [OF assms] l(1) len
    by (auto simp: sorted_wrt_iff_nth_less intro!: diff_less_mono)
  moreover have "map (\<lambda>j. ptext p ! (from + j)) (map (\<lambda>l. l - from) lo) = tok"
    using l(1,3) len by (intro nth_equalityI) simp_all
  moreover have "\<forall>j \<in> set (map (\<lambda>l. l - from) lo). from + j < length (ptext p)"
    using l(1,2) len by (auto simp: in_set_conv_nth)
  ultimately show ?thesis by (simp add: alignment_def)
qed

lemma alignment_last: "alignment p from tok ps \<Longrightarrow> tok \<noteq> [] \<Longrightarrow> from + last ps < length (ptext p) \<and> ps \<noteq> []"
  using last_in_set by (fastforce simp: alignment_def)

text \<open>The last cell is the best alignment, when there is one.\<close>

lemma last_cell_best:
  assumes "alignment p from tok as" "tok \<noteq> []"
  obtains ps where "best_alignment tok p from ps"
    "cellM tok p from (length tok - 1) (length (ptext p) - from - 1) = Fin (alignment_score p from ps)"
proof -
  let ?n = "length tok - 1" and ?m = "length (ptext p) - from - 1"
  let ?M = "cellM tok p from ?n ?m"
  have n: "?n < length tok" "take (Suc ?n) tok = tok" using assms(2) by simp_all
  from alignment_last [OF assms] have m: "from + ?m < length (ptext p)" by linarith
  have g: "gap_of (length tok) ?n = GAP_TRAILING" using assms(2) by (simp add: gap_of_def)
  have sc: "alignment_score p from ps = rscore p from (rev ps) + int (?m - last ps) * gap_of (length tok) ?n" for ps
    by (simp only: alignment_score_def g)
  have up: "Fin (alignment_score p from ps) \<le> ?M" if "alignment p from tok ps" for ps
  proof -
    have "last ps \<le> ?m" using alignment_last [OF that assms(2)] by linarith
    from cellM_best(1) [OF n(1) m _ this] that n(2) sc [of ps] show ?thesis by simp
  qed
  from up [OF assms(1)] cell_not_PosInf(2) obtain x where x: "?M = Fin x" by (cases ?M) simp_all
  from cellM_best(2) [OF n(1) m x] n(2) sc obtain ps where ps: "alignment p from tok ps" "x \<le> alignment_score p from ps"
    by auto
  with up [of ps] x have eq: "alignment_score p from ps = x" by simp
  with ps(1) up x have "best_alignment tok p from ps" by (auto simp: best_alignment_def)
  with eq x that show thesis by simp
qed

lemma best_bonus_spec:
  assumes "case j of None \<Rightarrow> True | Some k \<Rightarrow> k < length (ptext p)"
  shows "best_bonus c p j best = foldl max best
    (map (\<lambda>k. Fin (bonus_at p k)) (case j of None \<Rightarrow> [] | Some i \<Rightarrow> i # filter (\<lambda>k. ptext p ! k = c) [Suc i ..< length (ptext p)]))"
  using assms
proof (induction c p j best rule: best_bonus.induct)
  case (2 c p j best)
  then have j: "j < length (ptext p)" by simp
  show ?case
  proof (cases "index_of c (ptext p) (j + 1)")
    case None
    then have "filter (\<lambda>k. ptext p ! k = c) [Suc j ..< length (ptext p)] = []"
      by (auto simp: index_of_None filter_empty_conv)
    with None j show ?thesis by (simp add: best_bonus.simps)
  next
    case (Some i)
    note i = index_of_Some [OF Some]
    have "[Suc j ..< length (ptext p)] = [Suc j ..< i] @ i # [Suc i ..< length (ptext p)]"
      using i(1,2) by (metis Suc_eq_plus1 le_add_diff_inverse less_imp_le_nat upt_add_eq_append upt_conv_Cons)
    moreover have "filter (\<lambda>k. ptext p ! k = c) [Suc j ..< i] = []"
      using i(4) by (auto simp: filter_empty_conv)
    ultimately have "filter (\<lambda>k. ptext p ! k = c) [Suc j ..< length (ptext p)] =
        i # filter (\<lambda>k. ptext p ! k = c) [Suc i ..< length (ptext p)]" using i(3) by simp
    with "2.IH" Some j i(2) show ?thesis by (subst best_bonus.simps) simp
  qed
qed (simp add: best_bonus.simps)

lemma fzy_one:
  assumes "leftmost [c] (ptext p) from lo"
  obtains ps where "best_alignment [c] p from ps"
    "plus_fin (best_bonus c p (Some (hd lo)) NegInf) (GAP_TRAILING * (int (length (ptext p) - from) - 1))
       = Fin (alignment_score p from ps)"
proof -
  let ?m = "length (ptext p) - from" and ?l = "hd lo"
  from assms have lo: "lo ! 0 = ?l" by (cases lo) (simp_all add: leftmost_def)
  note l = leftmostD [OF assms, of 0, simplified lo]
  let ?ks = "?l # filter (\<lambda>k. ptext p ! k = c) [Suc ?l ..< length (ptext p)]"
  have ks: "k \<in> set ?ks \<longleftrightarrow> from \<le> k \<and> k < length (ptext p) \<and> ptext p ! k = c" for k
    using l(1,2,3,5) by (auto simp: not_less_eq_eq [symmetric])
  have bb: "best_bonus c p (Some ?l) NegInf = foldl max NegInf (map (\<lambda>k. Fin (bonus_at p k)) ?ks)"
    using best_bonus_spec [where j = "Some ?l" and p = p and c = c and best = NegInf] l(2) by simp
  from foldl_max_in [of NegInf "map (\<lambda>k. Fin (bonus_at p k)) ?ks"] bb
  have "best_bonus c p (Some ?l) NegInf \<in> insert NegInf (set (map (\<lambda>k. Fin (bonus_at p k)) ?ks))"
    "Fin (bonus_at p k) \<le> best_bonus c p (Some ?l) NegInf" if "k \<in> set ?ks" for k
    using that by (auto simp del: map_map)
  note h = this
  from h [of ?l] obtain k where k: "k \<in> set ?ks" "best_bonus c p (Some ?l) NegInf = Fin (bonus_at p k)"
    by (auto simp del: foldl_Cons)
  have sc: "alignment_score p from [q - from] = bonus_at p q + GAP_TRAILING * (int ?m - 1)"
    if "q \<in> set ?ks" for q
  proof -
    from that ks have q: "from \<le> q" "q < length (ptext p)" by blast+
    then have "int (?m - 1 - (q - from)) = int ?m - 1 - int (q - from)" by simp
    with q show ?thesis by (simp add: alignment_score_def GAP_LEADING_def GAP_TRAILING_def algebra_simps)
  qed
  have "best_alignment [c] p from [k - from]"
    unfolding best_alignment_def
  proof (intro conjI allI impI)
    show "alignment p from [c] [k - from]" using k(1) ks by (simp add: alignment_one)
    fix qs assume "alignment p from [c] qs"
    then obtain j where j: "qs = [j]" "from + j < length (ptext p)" "ptext p ! (from + j) = c"
      by (auto simp: alignment_one)
    then have q: "from + j \<in> set ?ks" by (subst ks) simp
    from h(2) [OF q] k(2) sc [OF q] sc [OF k(1)] j(1)
    show "alignment_score p from qs \<le> alignment_score p from [k - from]" by simp
  qed
  with that sc [OF k(1)] k(2) show thesis by simp
qed


subsection \<open>Walking the matrix back\<close>

lemma walk_row_Some:
  assumes "walk_row row required j = Some k"
  shows "k < j" "fst (row ! k) \<noteq> NegInf" "required \<or> fst (row ! k) = snd (row ! k)"
  using assms by (induction j) (auto simp: Let_def case_prod_beta split: if_splits)

lemma walk_row_exists:
  assumes "k < j" "fst (row ! k) \<noteq> NegInf" "required \<or> fst (row ! k) = snd (row ! k)"
  shows "walk_row row required j \<noteq> None"
  using assms by (induction j) (auto simp: Let_def less_Suc_eq case_prod_beta)

lemma walk_row_top:
  "fst (row ! j) \<noteq> NegInf \<Longrightarrow> walk_row row True (Suc j) = Some j"
  by (simp add: case_prod_beta)

text \<open>A running best comes from a cell of its row.\<close>

lemma cellM_source:
  "cellM tok p from i j \<noteq> NegInf \<Longrightarrow>
     \<exists>k \<le> j. cellD tok p from i k \<noteq> NegInf \<and> cellD tok p from i k = cellM tok p from i k"
proof (induction j)
  case 0
  then show ?case by auto
next
  case (Suc j)
  show ?case
  proof (cases "cellM tok p from i (Suc j) = cellD tok p from i (Suc j)")
    case True
    with Suc.prems show ?thesis by (intro exI [of _ "Suc j"]) (simp del: cellD.simps cellM.simps)
  next
    case False
    then have "cellM tok p from i (Suc j) = plus_fin (cellM tok p from i j) (gap_of (length tok) i)"
      by (simp add: max_def split: if_splits)
    with Suc.prems have "cellM tok p from i j \<noteq> NegInf" by auto
    with Suc.IH show ?thesis by (meson le_Suc_eq)
  qed
qed

lemma D_le_M: "cellD tok p from i j \<le> cellM tok p from i j"
  by (cases j) simp_all

lemma walk_back_valid:
  assumes "rows = map (cell_row tok p from) (rev [0 ..< Suc i])" "i < length tok"
    "j < length (ptext p) - from"
    "if required then cellD tok p from i j \<noteq> NegInf else cellM tok p from i j \<noteq> NegInf"
  shows "alignment p from (take (Suc i) tok) (walk_back rows required (Suc j)) \<and> last (walk_back rows required (Suc j)) \<le> j"
  using assms
proof (induction i arbitrary: rows j required)
  case 0
  let ?row = "cell_row tok p from 0"
  have cell: "?row ! k = (cellD tok p from 0 k, cellM tok p from 0 k)" if "k < length (ptext p) - from" for k
    using that by (simp add: cell_row_def del: cellD.simps cellM.simps)
  have "walk_row ?row required (Suc j) \<noteq> None"
  proof (cases required)
    case True
    with walk_row_top [of ?row j] cell [OF 0(3)] 0(4) show ?thesis by simp
  next
    case False
    with 0(4) cellM_source obtain k where "k \<le> j" "cellD tok p from 0 k \<noteq> NegInf" "cellD tok p from 0 k = cellM tok p from 0 k"
      by metis
    then show ?thesis by (intro walk_row_exists [of k]) (use cell [of k] 0(3) in simp_all)
  qed
  then obtain k where k: "walk_row ?row required (Suc j) = Some k" by blast
  with walk_row_Some [OF k] cell [of k] 0(3) have "k \<le> j" "cellD tok p from 0 k \<noteq> NegInf" by simp_all
  then have "ptext p ! (from + k) = tok ! 0" "from + k < length (ptext p)" using 0(3) by (auto split: if_splits)
  moreover have "take (Suc 0) tok = [tok ! 0]" using 0(2) by (simp add: take_Suc_conv_app_nth)
  ultimately show ?case using 0(1) k \<open>k \<le> j\<close> by (simp add: alignment_one)
next
  case (Suc i)
  let ?row = "cell_row tok p from (Suc i)" and ?up = "cell_row tok p from i"
  have cell: "cell_row tok p from q ! k = (cellD tok p from q k, cellM tok p from q k)"
    if "k < length (ptext p) - from" for q k
    using that by (simp add: cell_row_def del: cellD.simps cellM.simps)
  have "walk_row ?row required (Suc j) \<noteq> None"
  proof (cases required)
    case True
    with walk_row_top [of ?row j] cell [OF Suc.prems(3)] Suc.prems(4) show ?thesis by simp
  next
    case False
    with Suc.prems(4) cellM_source obtain k where "k \<le> j" "cellD tok p from (Suc i) k \<noteq> NegInf"
      "cellD tok p from (Suc i) k = cellM tok p from (Suc i) k"
      by metis
    then show ?thesis by (intro walk_row_exists [of k]) (use cell [of k] Suc.prems(3) in simp_all)
  qed
  then obtain k where k: "walk_row ?row required (Suc j) = Some k" by blast
  with walk_row_Some [OF k] cell [of k] Suc.prems(3) have kj: "k \<le> j" "cellD tok p from (Suc i) k \<noteq> NegInf" by simp_all
  then obtain l where l: "k = Suc l" by (cases k) simp_all
  with kj Suc.prems(3) have c: "ptext p ! (from + k) = tok ! Suc i" "from + k < length (ptext p)"
    "cellD tok p from (Suc i) k = max (plus_fin (cellM tok p from i l) (bonus_at p (from + k)))
       (plus_fin (cellD tok p from i l) MATCH_CONSECUTIVE)"
    by (auto split: if_splits)
  let ?req = "snd (?row ! k) = plus_fin (fst (?up ! l)) MATCH_CONSECUTIVE"
  have nonempty: "if ?req then cellD tok p from i l \<noteq> NegInf else cellM tok p from i l \<noteq> NegInf"
  proof (cases ?req)
    case True
    with cell [of k] cell [of l] kj(1) l Suc.prems(3)
    have "cellM tok p from (Suc i) k = plus_fin (cellD tok p from i l) MATCH_CONSECUTIVE" by simp
    moreover have "cellM tok p from (Suc i) k \<noteq> NegInf"
      using kj(2) D_le_M [of tok p "from" "Suc i" k] by (cases "cellD tok p from (Suc i) k") (auto simp: less_eq_score_def)
    ultimately have "cellD tok p from i l \<noteq> NegInf" by auto
    with True show ?thesis by simp
  next
    case False
    have "cellM tok p from i l \<noteq> NegInf"
    proof
      assume "cellM tok p from i l = NegInf"
      with D_le_M [of tok p "from" i l] have "cellD tok p from i l = NegInf"
        by (cases "cellD tok p from i l") (auto simp: less_eq_score_def)
      with c(3) \<open>cellM tok p from i l = NegInf\<close> kj(2) show False by simp
    qed
    with False show ?thesis by simp
  qed
  let ?rows = "map (cell_row tok p from) (rev [0 ..< Suc i])"
  have rows: "rows = ?row # ?rows" "?rows = ?up # map (cell_row tok p from) (rev [0 ..< i])"
    using Suc.prems(1) by simp_all
  have wb: "walk_back rows required (Suc j) = walk_back ?rows ?req (Suc l) @ [k]"
    unfolding rows(1) using k l by (subst walk_back.simps) (simp add: rows(2) del: walk_back.simps)
  have ih: "alignment p from (take (Suc i) tok) (walk_back ?rows ?req (Suc l)) \<and> last (walk_back ?rows ?req (Suc l)) \<le> l"
    by (rule Suc.IH [OF refl _ _ nonempty]) (use Suc.prems(2,3) kj l in simp_all)
  have "take (Suc (Suc i)) tok = take (Suc i) tok @ [tok ! Suc i]"
    using Suc.prems(2) by (simp add: take_Suc_conv_app_nth)
  with ih c(1,2) l kj show ?case unfolding wb by (simp add: alignment_snoc)
qed


subsection \<open>The three forms of \<open>fzy\<close>\<close>

lemma full_alignment:
  assumes "alignment p from tok ps" "length tok = length (ptext p) - from"
  shows "ps = [0 ..< length tok]"
proof -
  from assms(1) have s: "sorted_wrt (<) ps" "\<forall>j \<in> set ps. from + j < length (ptext p)"
    by (simp_all add: alignment_def)
  from s(1) have d: "distinct ps" "sorted ps" by (auto simp: strict_sorted_iff)
  from s(2) assms(2) have "set ps \<subseteq> {0 ..< length tok}" by fastforce
  moreover have "card (set ps) = length tok" using d(1) alignment_length [OF assms(1)] by (simp add: distinct_card)
  ultimately have "set ps = {0 ..< length tok}" by (metis card_atLeastLessThan card_subset_eq diff_zero finite_atLeastLessThan)
  with d show ?thesis by (metis atLeastLessThan_upt distinct_upt sorted_distinct_set_unique sorted_upt)
qed

lemma fzyPositions_score:
  assumes "tok \<noteq> []" "from < length (ptext p)"
  shows "snd (fzyPositions tok p from) = cellM tok p from (length tok - 1) (length (ptext p) - from - 1)"
proof -
  have m: "length (ptext p) - Suc from < length (ptext p) - from" using assms(2) by simp
  show ?thesis using assms(1) nth_map [of _ "[0 ..< length (ptext p) - from]"] m
    by (simp add: fzyPositions_def dp_matrix_cells cell_row_def last_map Let_def del: cellD.simps cellM.simps)
qed

lemma match_region:
  assumes "hasMatch tok (ptext p) from = Some lo" "tok \<noteq> []"
  shows "from < length (ptext p)"
  using leftmostD [OF hasMatch_leftmost [OF assms(1)], of 0] assms(2) by simp

text \<open>C35: When a token matches, the score \<open>fzy\<close> returns is that of a best alignment of the token in
  the region, over all alignments: for the banded two-row form whatever the reused scratch array held,
  for the one-character form, and for the form that keeps the whole matrix.\<close>

theorem fzy_score_best:
  assumes "hasMatch tok (ptext p) from = Some lo" "tok \<noteq> []" "length tok \<noteq> length (ptext p) - from"
  shows "\<exists>ps. best_alignment tok p from ps \<and> snd (fzy tok p from lo r want) = Fin (alignment_score p from ps)"
proof -
  let ?n = "length tok - 1" and ?m = "length (ptext p) - from"
  note lm = hasMatch_leftmost [OF assms(1)] and m = match_region [OF assms(1,2)]
  obtain ps where ps: "best_alignment tok p from ps" "cellM tok p from ?n (?m - 1) = Fin (alignment_score p from ps)"
    using last_cell_best [OF leftmost_alignment [OF lm] assms(2)] by blast
  consider "want" | "\<not> want" "length tok = 1" | "\<not> want" "length tok \<noteq> 1" by blast
  then show ?thesis
  proof cases
    case 1
    then have "snd (fzy tok p from lo r want) = cellM tok p from ?n (?m - 1)"
      using assms(3) fzyPositions_score [OF assms(2) m] by (simp add: fzy_def Let_def)
    with ps show ?thesis by metis
  next
    case 2
    then obtain c where c: "tok = [c]" by (metis One_nat_def length_0_conv length_Suc_conv)
    have "snd (fzy tok p from lo r want) =
        plus_fin (best_bonus c p (Some (hd lo)) NegInf) (GAP_TRAILING * (int ?m - 1))"
      using 2 c assms(3) by (simp add: fzy_def Let_def)
    with fzy_one [of c p "from" lo] lm c show ?thesis by metis
  next
    case 3
    have "lo ! ?n \<le> from + (?m - 1)" using leftmostD(2) [OF lm, of ?n] assms(2) m by simp
    then have "fzy_rows (length tok) ?m 0 p from tok lo (r 0) (r 1) (r 2) (r 3) (?m - 1) = cellM tok p from ?n (?m - 1)"
      by (intro fzy_rows_band [OF lm]) (use assms(2) m in simp_all)
    with 3 assms(3) ps show ?thesis by (auto simp: fzy_def Let_def)
  qed
qed

lemma fzy_score_best_witness:
  "\<exists>ps. best_alignment (js ''hu'') (prepare_label id id (\<lambda>_. False) (js ''a/hub.go'')) 2 ps
     \<and> snd (fzy (js ''hu'') (prepare_label id id (\<lambda>_. False) (js ''a/hub.go'')) 2 [2, 3] (\<lambda>_ _. PosInf) False)
       = Fin (alignment_score (prepare_label id id (\<lambda>_. False) (js ''a/hub.go'')) 2 ps)"
  by (rule fzy_score_best) code_simp+

text \<open>The positions \<open>fzy\<close> gives the highlight are an alignment of the token: as many as its
  characters, increasing, inside the region, each on a character equal to the token's.\<close>

theorem fzy_positions_align:
  assumes "hasMatch tok (ptext p) from = Some lo" "tok \<noteq> []"
  shows "\<exists>ps. fst (fzy tok p from lo r True) = map (\<lambda>j. from + j) ps \<and> alignment p from tok ps"
proof -
  let ?n = "length tok - 1" and ?m = "length (ptext p) - from"
  note la = leftmost_alignment [OF hasMatch_leftmost [OF assms(1)]] and m = match_region [OF assms]
  show ?thesis
  proof (cases "length tok = ?m")
    case True
    with full_alignment [OF la] la show ?thesis by (auto simp: fzy_def Let_def)
  next
    case False
    from last_cell_best [OF la assms(2)] have "cellM tok p from ?n (?m - 1) \<noteq> NegInf" by (metis score.distinct(1))
    then have "alignment p from (take (Suc ?n) tok)
        (walk_back (map (cell_row tok p from) (rev [0 ..< Suc ?n])) False (Suc (?m - 1)))"
      by (intro walk_back_valid [OF refl, THEN conjunct1]) (use assms(2) m in simp_all)
    moreover have "Suc ?n = length tok" "Suc (?m - 1) = ?m" using assms(2) m by simp_all
    ultimately have "alignment p from tok (walk_back (map (cell_row tok p from) (rev [0 ..< length tok])) False ?m)"
      by (simp only: take_all [OF order_refl])
    with False show ?thesis
      by (auto simp: fzy_def fzyPositions_def dp_matrix_cells rev_map Let_def)
  qed
qed

lemma fzy_positions_align_witness:
  "\<exists>ps. fst (fzy (js ''hu'') (prepare_label id id (\<lambda>_. False) (js ''a/hub.go'')) 2 [2, 3] (\<lambda>_ _. PosInf) True) = map (\<lambda>j. 2 + j) ps
     \<and> alignment (prepare_label id id (\<lambda>_. False) (js ''a/hub.go'')) 2 (js ''hu'') ps"
  by (rule fzy_positions_align) code_simp+

text \<open>The walk back can leave the best alignment. It decides whether a cell was reached by a
  consecutive match from the running best of the cell, also when the cell itself was forced by the
  match after it and is not that best. For the token "abc" in the name "abxabc" the score is that of
  "abc" at the end, and the positions are the first "a" with the "bc" at the end, which score less.\<close>

theorem fzy_walk_misses_best:
  "fzyPositions (js ''abc'') (prepare_label id id (\<lambda>_. False) (js ''abxabc'')) 0 = ([0, 4, 5], Fin 1985)
   \<and> alignment_score (prepare_label id id (\<lambda>_. False) (js ''abxabc'')) 0 [0, 4, 5] = 1870
   \<and> alignment (prepare_label id id (\<lambda>_. False) (js ''abxabc'')) 0 (js ''abc'') [3, 4, 5]
   \<and> alignment_score (prepare_label id id (\<lambda>_. False) (js ''abxabc'')) 0 [3, 4, 5] = 1985"
  by code_simp

end
