(* ===== verification/Fuzzy.thy ===== *)
theory Fuzzy
  imports FuzzyScore
begin

unbundle bit_operations_syntax

section \<open>Name search: tokens, typos and ranking (lib/fuzzy.ts)\<close>

text \<open>
  The second half of name search: parsing the query, one token against one label, the typo pass,
  the bounded insertion \<open>Top\<close>, the highlight ranges and \<open>search\<close>. The scratch array \<open>r\<close> is
  one arbitrary argument: theorem \<open>fzy_score_best\<close> shows no score depends on it. The parallel
  arrays of \<open>Top\<close> are one list of pairs.
\<close>

subsection \<open>Parsing the query\<close>

record Token =
  ttext :: jstr
  tmask :: "32 word"
  drops :: "(jstr \<times> 32 word) list"

record Query =
  whole :: jstr
  tokens :: "Token list"

text \<open>The loop over the deletions, with the set of those seen.\<close>

fun unseen :: "jstr list \<Rightarrow> jstr set \<Rightarrow> (jstr \<times> 32 word) list" where
  "unseen [] seen = []"
| "unseen (d # ds) seen = (if d \<in> seen then unseen ds seen else (d, maskOf d) # unseen ds (insert d seen))"

definition del_at :: "nat \<Rightarrow> 'a list \<Rightarrow> 'a list" where
  "del_at k t = take k t @ drop (Suc k) t"

definition parse_token :: "jstr \<Rightarrow> Token" where
  "parse_token t = \<lparr>ttext = t, tmask = maskOf t,
     drops = (if length t \<ge> MIN_TYPO_LEN then unseen (map (\<lambda>k. del_at k t) [0 ..< length t]) {} else [])\<rparr>"

definition parse :: "(jstr \<Rightarrow> jstr) \<Rightarrow> (jstr \<Rightarrow> jstr) \<Rightarrow> jstr \<Rightarrow> Query option" where
  "parse nfc lower query =
     (let w = foldQuery nfc lower query
      in if w = [] then None else Some \<lparr>whole = w, tokens = map parse_token (split_ws w)\<rparr>)"

subsection \<open>One token against one label\<close>

type_synonym scratch = "nat \<Rightarrow> nat \<Rightarrow> score"

definition scoreToken :: "scratch \<Rightarrow> jstr \<Rightarrow> 32 word \<Rightarrow> Prepared \<Rightarrow> bool \<Rightarrow> bool \<Rightarrow> nat list \<times> score" where
  "scoreToken r t mk p nameOnly want =
     (if mk AND NOT (pmask p) \<noteq> 0 then ([], NegInf)
      else case (if mk AND NOT (nameMask p) = 0 then hasMatch t (ptext p) (name p) else None) of
             Some lo \<Rightarrow> (case fzy t p (name p) lo r want of (ps, s) \<Rightarrow> (ps, plus_fin s NAME_BONUS))
           | None \<Rightarrow>
               if nameOnly then ([], NegInf)
               else (case hasMatch t (ptext p) 0 of None \<Rightarrow> ([], NegInf) | Some lo \<Rightarrow> fzy t p 0 lo r want))"

text \<open>\<open>nearMatch\<close>: the suffix array (-1 where the suffix does not fit after \<open>from\<close>), then the walk.\<close>

fun near_suffix :: "jstr \<Rightarrow> jstr \<Rightarrow> nat \<Rightarrow> int list" where
  "near_suffix [] s from = [int (length s)]"
| "near_suffix (c # cs) s from =
     (let sfx = near_suffix cs s from;
          at = (if hd sfx > int from
                then (case last_index_of c s (nat (hd sfx) - 1) of None \<Rightarrow> -1 | Some i \<Rightarrow> int i)
                else -1)
      in (if at < int from then -1 else at) # sfx)"

fun near_walk :: "jstr \<Rightarrow> int list \<Rightarrow> jstr \<Rightarrow> nat \<Rightarrow> bool" where
  "near_walk (c # cs) (after # sfx) s j =
     (if after \<ge> int j then True
      else case index_of c s j of None \<Rightarrow> False | Some i \<Rightarrow> near_walk cs sfx s (i + 1))"
| "near_walk _ _ s j = True"

definition nearMatch :: "jstr \<Rightarrow> jstr \<Rightarrow> nat \<Rightarrow> bool" where
  "nearMatch tok s from = near_walk tok (tl (near_suffix tok s from)) s from"

text \<open>The loop of \<open>scoreTypo\<close>: the best deletion and its score.\<close>

fun best_drop :: "scratch \<Rightarrow> (jstr \<times> 32 word) list \<Rightarrow> Prepared \<Rightarrow> bool \<Rightarrow> score \<Rightarrow> (jstr \<times> 32 word) option
    \<Rightarrow> score \<times> (jstr \<times> 32 word) option" where
  "best_drop r [] p nameOnly best bd = (best, bd)"
| "best_drop r ((t, m) # ds) p nameOnly best bd =
     (let s = snd (scoreToken r t m p nameOnly False)
      in if s > best then best_drop r ds p nameOnly s (Some (t, m)) else best_drop r ds p nameOnly best bd)"

definition scoreTypo :: "scratch \<Rightarrow> Token \<Rightarrow> Prepared \<Rightarrow> bool \<Rightarrow> bool \<Rightarrow> nat list \<times> score" where
  "scoreTypo r t p nameOnly want =
     (if \<not> nearMatch (ttext t) (ptext p) (if nameOnly then name p else 0) then ([], NegInf)
      else case best_drop r (drops t) p nameOnly NegInf None of
             (best, None) \<Rightarrow> ([], NegInf)
           | (best, Some (d, m)) \<Rightarrow>
               (if want then fst (scoreToken r d m p nameOnly True) else [], plus_fin best (- TYPO_PENALTY)))"

record Mode =
  nameOnly :: bool
  typo :: bool

text \<open>The loop of \<open>scoreLabel\<close> over the tokens, with the running tot.\<close>

fun score_tokens :: "scratch \<Rightarrow> Token list \<Rightarrow> Prepared \<Rightarrow> Mode \<Rightarrow> bool \<Rightarrow> score \<Rightarrow> bool \<Rightarrow> nat list
    \<Rightarrow> nat list \<times> (score \<times> bool) option" where
  "score_tokens r [] p m want tot forgiven pos = (pos, Some (tot, forgiven))"
| "score_tokens r (t # ts) p m want tot forgiven pos =
     (case scoreToken r (ttext t) (tmask t) p (nameOnly m) want of
        (ps, s) \<Rightarrow>
          if s = NegInf \<and> typo m \<and> \<not> forgiven then
            let missing = tmask t AND NOT (if nameOnly m then nameMask p else pmask p)
            in (case (if missing AND (missing - 1) = 0 then scoreTypo r t p (nameOnly m) want else ([], NegInf)) of
                  (qs, s') \<Rightarrow>
                    if s' = NegInf then (pos @ ps @ qs, None)
                    else score_tokens r ts p m want (plus_score tot s') True (pos @ ps @ qs))
          else if s = NegInf then (pos @ ps, None)
          else score_tokens r ts p m want (plus_score tot s) forgiven (pos @ ps))"

definition scoreLabel :: "scratch \<Rightarrow> Query \<Rightarrow> Prepared \<Rightarrow> Mode \<Rightarrow> bool \<Rightarrow> nat list \<times> score" where
  "scoreLabel r q p m want =
     (case score_tokens r (tokens q) p m want (Fin 0) False [] of
        (pos, None) \<Rightarrow> (pos, NegInf)
      | (pos, Some (tot, forgiven)) \<Rightarrow>
          if typo m \<and> \<not> forgiven then (pos, NegInf)
          else (pos, if whole q = stem p \<or> whole q = bname p then plus_fin tot EXACT_BONUS else tot))"

subsection \<open>Ranking\<close>

record Hit =
  hindex :: nat
  hscore :: score
  hranges :: "(nat \<times> nat) list"

text \<open>\<open>Top.better\<close>: does the hit \<open>(i, s)\<close> rank before the hit \<open>(k, t)\<close>?\<close>

definition better :: "Prepared list \<Rightarrow> nat \<times> score \<Rightarrow> nat \<times> score \<Rightarrow> bool" where
  "better items x y =
     (case (x, y) of ((i, s), (k, t)) \<Rightarrow>
        if s \<noteq> t then s > t
        else let a = length (label (items ! i)); b = length (label (items ! k))
             in if a \<noteq> b then a < b else i < k)"

text \<open>\<open>Top.add\<close>, over the test of its class: the scan from the end, the splice, the pop.\<close>

fun top_pos :: "('a \<Rightarrow> 'a \<Rightarrow> bool) \<Rightarrow> 'a \<Rightarrow> 'a list \<Rightarrow> nat \<Rightarrow> nat" where
  "top_pos rk x xs 0 = 0"
| "top_pos rk x xs (Suc k) = (if rk x (xs ! k) then top_pos rk x xs k else Suc k)"

definition top_add :: "('a \<Rightarrow> 'a \<Rightarrow> bool) \<Rightarrow> nat \<Rightarrow> 'a \<Rightarrow> 'a list \<Rightarrow> 'a list" where
  "top_add rk limit x xs =
     (let n = length xs
      in if n = limit \<and> \<not> (n > 0 \<and> rk x (xs ! (n - 1))) then xs
         else let k = top_pos rk x xs n;
                  ys = take k xs @ x # drop k xs
              in if length ys > limit then butlast ys else ys)"

definition add_all :: "('a \<Rightarrow> 'a \<Rightarrow> bool) \<Rightarrow> nat \<Rightarrow> 'a list \<Rightarrow> 'a list \<Rightarrow> 'a list" where
  "add_all rk limit xs t = foldl (\<lambda>t x. top_add rk limit x t) t xs"

subsection \<open>Highlight ranges\<close>

definition range_of :: "Prepared \<Rightarrow> nat \<Rightarrow> nat \<times> nat" where
  "range_of p i = (case pfrom p of Some fs \<Rightarrow> fs ! i | None \<Rightarrow> i, case pto p of Some ts \<Rightarrow> ts ! i | None \<Rightarrow> i + 1)"

definition add_range :: "(nat \<times> nat) list \<Rightarrow> nat \<times> nat \<Rightarrow> (nat \<times> nat) list" where
  "add_range acc ab =
     (case ab of (a, b) \<Rightarrow>
        if acc \<noteq> [] \<and> a \<le> snd (last acc) then butlast acc @ [(fst (last acc), max (snd (last acc)) b)]
        else acc @ [(a, b)])"

definition toRanges :: "nat list \<Rightarrow> Prepared \<Rightarrow> (nat \<times> nat) list" where
  "toRanges pos p = foldl (\<lambda>acc i. add_range acc (range_of p i)) [] (sort pos)"

subsection \<open>Search\<close>

definition scored :: "scratch \<Rightarrow> Query \<Rightarrow> Prepared list \<Rightarrow> Mode \<Rightarrow> nat list \<Rightarrow> (nat \<times> score) list" where
  "scored r q items m is =
     filter (\<lambda>(i, s). s \<noteq> NegInf) (map (\<lambda>i. (i, snd (scoreLabel r q (items ! i) m False))) is)"

definition clean_matches :: "scratch \<Rightarrow> Query \<Rightarrow> Prepared list \<Rightarrow> bool \<Rightarrow> (nat \<times> score) list" where
  "clean_matches r q items only = scored r q items \<lparr>nameOnly = only, typo = False\<rparr> [0 ..< length items]"

definition typo_mode :: "scratch \<Rightarrow> Query \<Rightarrow> Prepared list \<Rightarrow> bool \<Rightarrow> Mode" where
  "typo_mode r q items only = \<lparr>nameOnly = (only \<or> clean_matches r q items only \<noteq> []), typo = True\<rparr>"

text \<open>The forgiven rows that are shown: the best \<open>TYPO_ROWS\<close> of the labels the clean pass missed,
  less those that do not beat the best clean one.\<close>

definition typo_matches :: "scratch \<Rightarrow> Query \<Rightarrow> Prepared list \<Rightarrow> bool \<Rightarrow> nat \<Rightarrow> (nat \<times> score) list" where
  "typo_matches r q items only limit =
     (let missed = filter (\<lambda>i. snd (scoreLabel r q (items ! i) \<lparr>nameOnly = only, typo = False\<rparr> False) = NegInf)
            [0 ..< length items];
          forgiven = (if \<exists>t \<in> set (tokens q). drops t \<noteq> []
             then add_all (better items) TYPO_ROWS (scored r q items (typo_mode r q items only) missed) [] else []);
          found = clean_matches r q items only;
          clean = add_all (better items) limit found [];
          best = (if found \<noteq> [] \<and> clean \<noteq> [] then snd (hd clean) else NegInf)
      in if found \<noteq> [] \<and> clean = [] then [] else filter (\<lambda>(i, s). s > best) forgiven)"

definition search :: "scratch \<Rightarrow> (jstr \<Rightarrow> jstr) \<Rightarrow> (jstr \<Rightarrow> jstr) \<Rightarrow> jstr \<Rightarrow> Prepared list \<Rightarrow> nat \<Rightarrow> bool \<Rightarrow> Hit list \<times> nat" where
  "search r nfc lower query items limit only =
     (case parse nfc lower query of
        None \<Rightarrow> ([], 0)
      | Some q \<Rightarrow>
          let found = clean_matches r q items only;
              clean = add_all (better items) limit found [];
              rows = typo_matches r q items only limit;
              merged = add_all (better items) limit rows (add_all (better items) limit clean []);
              hit = (\<lambda>(i, s).
                let m = (if i \<in> set (map fst rows) then typo_mode r q items only else \<lparr>nameOnly = only, typo = False\<rparr>)
                in \<lparr>hindex = i, hscore = s, hranges = toRanges (fst (scoreLabel r q (items ! i) m True)) (items ! i)\<rparr>)
          in (map hit merged, length found + length rows))"


subsection \<open>The contract of \<open>Top\<close>\<close>

text \<open>
  \<open>t\<close> is the first \<open>limit\<close> of the candidates \<open>xs\<close> in rank order. The locale is what the class
  needs of its \<open>better\<close>: a strict total order.
\<close>

definition is_top :: "('a \<Rightarrow> 'a \<Rightarrow> bool) \<Rightarrow> nat \<Rightarrow> 'a list \<Rightarrow> 'a list \<Rightarrow> bool" where
  "is_top rk limit xs t \<longleftrightarrow> sorted_wrt rk t \<and> length t = min limit (length xs) \<and> set t \<subseteq> set xs
     \<and> (\<forall>x \<in> set xs - set t. \<forall>y \<in> set t. rk y x)"

locale ranking =
  fixes rk :: "'a \<Rightarrow> 'a \<Rightarrow> bool"
  assumes rk_irrefl: "\<not> rk x x"
    and rk_trans: "rk x y \<Longrightarrow> rk y z \<Longrightarrow> rk x z"
    and rk_total: "x \<noteq> y \<Longrightarrow> rk x y \<or> rk y x"
begin

lemma sorted_distinct: "sorted_wrt rk t \<Longrightarrow> distinct t"
  by (induction t) (auto simp: rk_irrefl)

lemma not_rk: "x \<noteq> y \<Longrightarrow> \<not> rk x y \<Longrightarrow> rk y x"
  using rk_total by blast

lemma top_pos_spec:
  "n \<le> length t \<Longrightarrow> top_pos rk x t n \<le> n \<and> (\<forall>j. top_pos rk x t n \<le> j \<and> j < n \<longrightarrow> rk x (t ! j))
     \<and> (top_pos rk x t n > 0 \<longrightarrow> \<not> rk x (t ! (top_pos rk x t n - 1)))"
  by (induction n) (auto simp: less_Suc_eq)

lemma insert_sorted:
  assumes "sorted_wrt rk t" "x \<notin> set t" "k = top_pos rk x t (length t)"
  shows "sorted_wrt rk (take k t @ x # drop k t)"
proof -
  note p = top_pos_spec [of "length t" t x, folded assms(3)]
  have "rk y x" if "y \<in> set (take k t)" for y
  proof -
    from that obtain j where j: "j < k" "j < length t" "y = t ! j" by (auto simp: in_set_conv_nth)
    let ?z = "t ! (k - 1)"
    from p j have k: "k - 1 < length t" "\<not> rk x ?z" by auto
    then have "?z \<in> set t" by simp
    with assms(2) k(2) have z: "rk ?z x" using not_rk [of x ?z] by metis
    from j k have "y = ?z \<or> rk y ?z"
      using sorted_wrt_nth_less [OF assms(1), of j "k - 1"] by (cases "j = k - 1") auto
    with z rk_trans show ?thesis by blast
  qed
  moreover have "rk x y" if "y \<in> set (drop k t)" for y
    using that p by (auto simp: in_set_conv_nth)
  ultimately show ?thesis
    using assms(1) rk_trans sorted_wrt_append [of rk "take k t" "drop k t"]
    by (auto simp: sorted_wrt_append)
qed

lemma top_add_is_top:
  assumes "is_top rk limit xs t" "x \<notin> set xs" "distinct xs"
  shows "is_top rk limit (xs @ [x]) (top_add rk limit x t)"
proof -
  let ?n = "length t" and ?k = "top_pos rk x t (length t)"
  let ?ys = "take ?k t @ x # drop ?k t"
  from assms have t: "sorted_wrt rk t" "?n = min limit (length xs)" "set t \<subseteq> set xs" "x \<notin> set t"
    "\<And>y z. z \<in> set xs \<Longrightarrow> z \<notin> set t \<Longrightarrow> y \<in> set t \<Longrightarrow> rk y z"
    by (auto simp: is_top_def)
  note p = top_pos_spec [of ?n t x]
  have ys: "sorted_wrt rk ?ys" using insert_sorted [OF t(1,4) refl] .
  have sys: "set ?ys = insert x (set t)" "length ?ys = Suc ?n"
    by (metis append_take_drop_id list.simps(15) set_append Un_insert_right) (use p in simp)
  consider (full) "?n = limit" "\<not> (?n > 0 \<and> rk x (t ! (?n - 1)))"
    | (room) "?n < limit" | (pop) "?n = limit" "?n > 0" "rk x (t ! (?n - 1))"
    using t(2) by linarith
  then show ?thesis
  proof cases
    case full
    have "rk y x" if y: "y \<in> set t" for y
    proof -
      from y obtain j where j: "j < ?n" "y = t ! j" by (metis in_set_conv_nth)
      then have "t ! (?n - 1) \<in> set t" "\<not> rk x (t ! (?n - 1))" using full by auto
      with t(4) have z: "rk (t ! (?n - 1)) x" using not_rk [of x] by metis
      have "y = t ! (?n - 1) \<or> rk y (t ! (?n - 1))"
        using sorted_wrt_nth_less [OF t(1), of j "?n - 1"] j by (cases "j = ?n - 1") auto
      with z rk_trans show ?thesis by blast
    qed
    with full t show ?thesis by (auto simp: is_top_def top_add_def)
  next
    case room
    with t(2) have n: "?n = length xs" by linarith
    with t(3) sorted_distinct [OF t(1)] assms(3) have "set t = set xs"
      by (metis card_subset_eq distinct_card finite_set)
    then have "is_top rk limit (xs @ [x]) ?ys"
      unfolding is_top_def using ys sys n room by auto
    moreover have "top_add rk limit x t = ?ys" using room sys(2) by (simp add: top_add_def Let_def)
    ultimately show ?thesis by simp
  next
    case pop
    let ?w = "last ?ys"
    have k: "?k \<le> ?n - 1" using p pop by (metis Suc_pred' le_Suc_eq order_refl diff_less less_numeral_extra(1))
    with pop(2) have "?k < ?n" by linarith
    then have "drop ?k t \<noteq> []" by simp
    then have w: "?w \<in> set t" by (metis in_set_dropD last_ConsR last_append last_in_set list.distinct(1))
    have bl: "?ys = butlast ?ys @ [?w]" by (rule append_butlast_last_id [symmetric]) simp
    have "sorted_wrt rk (butlast ?ys @ [?w])" by (rule subst [OF bl, of "sorted_wrt rk"]) (rule ys)
    note s = this [unfolded sorted_wrt_append, THEN conjunct1] this [unfolded sorted_wrt_append, THEN conjunct2, THEN conjunct2]
    have s2: "rk y ?w" if "y \<in> set (butlast ?ys)" for y using s(2) that by simp
    have "set ?ys = set (butlast ?ys @ [?w])" by (rule arg_cong [OF bl])
    then have sb: "set ?ys = insert ?w (set (butlast ?ys))" unfolding set_append by (simp only: list.set) blast
    have "is_top rk limit (xs @ [x]) (butlast ?ys)"
      unfolding is_top_def
    proof (intro conjI ballI)
      show "sorted_wrt rk (butlast ?ys)" by (rule s)
      show "length (butlast ?ys) = min limit (length (xs @ [x]))" using sys(2) pop t(2) by simp
      show "set (butlast ?ys) \<subseteq> set (xs @ [x])" using sb sys(1) t(3) unfolding set_append list.set by blast
      fix z y assume z: "z \<in> set (xs @ [x]) - set (butlast ?ys)" and y: "y \<in> set (butlast ?ys)"
      show "rk y z"
      proof (cases "z = ?w")
        case True with s2 [OF y] show ?thesis by simp
      next
        case False
        with z sb sys(1) have "z \<notin> insert x (set t)" by (metis Diff_iff insertE)
        with z have "z \<in> set xs" "z \<notin> set t" by auto
        with t(5) w have "rk ?w z" by blast
        with s2 [OF y] rk_trans show ?thesis by blast
      qed
    qed
    moreover have "top_add rk limit x t = butlast ?ys" using pop sys(2) by (simp add: top_add_def Let_def)
    ultimately show ?thesis by simp
  qed
qed

lemma add_all_is_top:
  "is_top rk limit ys t \<Longrightarrow> distinct (ys @ xs) \<Longrightarrow> is_top rk limit (ys @ xs) (add_all rk limit xs t)"
proof (induction xs arbitrary: ys t)
  case (Cons x xs)
  then have "is_top rk limit (ys @ [x]) (top_add rk limit x t)" by (intro top_add_is_top) auto
  from Cons.IH [OF this] Cons.prems(2) show ?case by (simp add: add_all_def)
qed (simp add: add_all_def)

lemma add_all_Nil: "distinct xs \<Longrightarrow> is_top rk limit xs (add_all rk limit xs [])"
  using add_all_is_top [of limit "[]" "[]" xs] by (simp add: is_top_def)

lemma is_top_distinct: "is_top rk limit xs t \<Longrightarrow> distinct t"
  using sorted_distinct by (auto simp: is_top_def)

lemma is_top_compose:
  assumes a: "is_top rk limit xs a" and t: "is_top rk limit (a @ ys) t" and d: "distinct (xs @ ys)"
  shows "is_top rk limit (xs @ ys) t"
proof -
  have la: "length a = min limit (length xs)" "set a \<subseteq> set xs" and lt: "length t = min limit (length a + length ys)" "set t \<subseteq> set a \<union> set ys"
    using a t by (auto simp: is_top_def)
  have "rk y z" if z: "z \<in> set (xs @ ys) - set t" and y: "y \<in> set t" for z y
  proof (cases "z \<in> set a \<union> set ys")
    case True
    with t z y show ?thesis by (auto simp: is_top_def)
  next
    case False
    with z have za: "z \<in> set xs" "z \<notin> set a" by auto
    then have "\<forall>c \<in> set a. rk c z" using a by (auto simp: is_top_def)
    show ?thesis
    proof (cases "y \<in> set a")
      case True with \<open>\<forall>c \<in> set a. rk c z\<close> show ?thesis by blast
    next
      case ny: False
      have "set a \<noteq> set xs" using za by blast
      with la have "length a = limit"
        by (metis a card_subset_eq d distinct_append distinct_card finite_set is_top_distinct min_def)
      with lt have "length t \<le> length a" by simp
      have "\<not> set a \<subseteq> set t"
      proof
        assume "set a \<subseteq> set t"
        with ny y have "card (set a) < card (set t)" by (intro psubset_card_mono) auto
        with \<open>length t \<le> length a\<close> is_top_distinct [OF a] is_top_distinct [OF t] show False
          by (simp add: distinct_card)
      qed
      then obtain c where c: "c \<in> set a" "c \<notin> set t" by blast
      with t y have "rk y c" by (auto simp: is_top_def)
      with \<open>\<forall>c \<in> set a. rk c z\<close> c(1) rk_trans show ?thesis by blast
    qed
  qed
  with t la lt show ?thesis by (auto simp: is_top_def)
qed

lemma is_top_best: "is_top rk limit xs t \<Longrightarrow> t \<noteq> [] \<Longrightarrow> x \<in> set xs \<Longrightarrow> x = hd t \<or> rk (hd t) x"
  by (cases t) (auto simp: is_top_def)

end

interpretation top: ranking "better items" for items
proof (unfold_locales, goal_cases)
  case (1 x)
  then show ?case by (auto simp: better_def split: prod.splits)
next
  case (2 x y z)
  then show ?case by (auto simp: better_def Let_def split: prod.splits if_splits)
next
  case (3 x y)
  then show ?case by (auto simp: better_def Let_def split: prod.splits if_splits)
qed


subsection \<open>What \<open>search\<close> returns\<close>

lemma scored_fst: "(i, s) \<in> set (scored r q items m is) \<Longrightarrow> i \<in> set is \<and> s = snd (scoreLabel r q (items ! i) m False) \<and> s \<noteq> NegInf"
  by (auto simp: scored_def)

lemma scored_distinct: "distinct is \<Longrightarrow> distinct (scored r q items m is)"
  unfolding scored_def by (rule distinct_filter) (simp add: distinct_map inj_on_def)

lemma typo_matches_sub:
  assumes "x \<in> set (typo_matches r q items only limit)"
  shows "fst x < length items \<and> snd (scoreLabel r q (items ! fst x) \<lparr>nameOnly = only, typo = False\<rparr> False) = NegInf"
proof -
  let ?missed = "filter (\<lambda>i. snd (scoreLabel r q (items ! i) \<lparr>nameOnly = only, typo = False\<rparr> False) = NegInf) [0 ..< length items]"
  let ?sc = "scored r q items (typo_mode r q items only) ?missed"
  have "distinct ?sc" by (rule scored_distinct) simp
  then have "set (add_all (better items) TYPO_ROWS ?sc []) \<subseteq> set ?sc"
    using top.add_all_Nil [of ?sc items TYPO_ROWS] by (simp add: is_top_def)
  with assms have "x \<in> set ?sc" by (auto simp: typo_matches_def Let_def split: if_splits)
  then show ?thesis using scored_fst [of "fst x" "snd x" r q items _ ?missed] by auto
qed

lemma typo_matches_distinct: "distinct (typo_matches r q items only limit)"
  unfolding typo_matches_def Let_def
  by (auto intro!: distinct_filter top.is_top_distinct [OF top.add_all_Nil] scored_distinct)

lemma typo_matches_above:
  assumes "(i, s) \<in> set (typo_matches r q items only limit)" "(k, t) \<in> set (clean_matches r q items only)"
  shows "t < s"
proof -
  let ?found = "clean_matches r q items only" and ?clean = "add_all (better items) limit (clean_matches r q items only) []"
  have d: "distinct ?found" unfolding clean_matches_def by (rule scored_distinct) simp
  from assms have c: "?clean \<noteq> []" "?found \<noteq> []" and s: "s > snd (hd ?clean)"
    by (auto simp: typo_matches_def Let_def split: if_splits)
  from top.is_top_best [OF top.add_all_Nil [OF d] c(1) assms(2)]
  have "t \<le> snd (hd ?clean)" by (cases "hd ?clean") (auto simp: better_def Let_def split: if_splits prod.splits)
  with s show ?thesis by simp
qed

text \<open>C14: The hits of a search are, in order, the first \<open>limit\<close> in rank order of all labels the clean
  pass matched and the forgiven rows shown: the bounded insertions lose nothing against sorting the
  whole tree. The total counts exactly those, every hit carries its score, and a forgiven row is shown
  only when it beats every clean match.\<close>

theorem search_ranks:
  assumes "parse nfc lower query = Some q"
  shows "is_top (better items) limit
           (clean_matches r q items only @ typo_matches r q items only limit)
           (map (\<lambda>h. (hindex h, hscore h)) (fst (search r nfc lower query items limit only)))
    \<and> snd (search r nfc lower query items limit only)
        = length (clean_matches r q items only @ typo_matches r q items only limit)
    \<and> (\<forall>x \<in> set (typo_matches r q items only limit). \<forall>y \<in> set (clean_matches r q items only). snd y < snd x)"
proof (intro conjI ballI)
  let ?found = "clean_matches r q items only" and ?rows = "typo_matches r q items only limit"
  let ?clean = "add_all (better items) limit ?found []"
  let ?merged = "add_all (better items) limit ?rows (add_all (better items) limit ?clean [])"
  have d: "distinct ?found" unfolding clean_matches_def by (rule scored_distinct) simp
  have disj: "x \<notin> set ?rows" if "x \<in> set ?found" for x
    using typo_matches_sub [of x r q items only limit] that
    by (auto simp: clean_matches_def scored_def)
  have dr: "distinct (?found @ ?rows)" using d typo_matches_distinct disj by auto
  note c = top.add_all_Nil [OF d, of items limit]
  note dc = top.is_top_distinct [OF c]
  have "set ?clean \<subseteq> set ?found" using c by (simp add: is_top_def)
  with dr dc have dcr: "distinct (?clean @ ?rows)" by auto
  have "is_top (better items) limit (?clean @ ?rows) ?merged"
    by (rule top.add_all_is_top [OF top.add_all_Nil [OF dc] dcr])
  from top.is_top_compose [OF c this dr]
  have "is_top (better items) limit (?found @ ?rows) ?merged" .
  moreover have "map (\<lambda>h. (hindex h, hscore h)) (fst (search r nfc lower query items limit only)) = ?merged"
    using assms by (simp add: search_def Let_def comp_def case_prod_beta)
  ultimately show "is_top (better items) limit (?found @ ?rows)
      (map (\<lambda>h. (hindex h, hscore h)) (fst (search r nfc lower query items limit only)))" by simp
  show "snd (search r nfc lower query items limit only) = length (?found @ ?rows)"
    using assms by (simp add: search_def Let_def)
  show "snd y < snd x" if "x \<in> set ?rows" "y \<in> set ?found" for x y
    using typo_matches_above that by (metis prod.collapse)
qed

subsection \<open>The typo pass\<close>

lemma subseq_Cons_drop:
  "subseq (c # cs) (drop j s) \<longleftrightarrow> (\<exists>p \<ge> j. p < length s \<and> s ! p = c \<and> subseq cs (drop (Suc p) s))"
proof
  assume "subseq (c # cs) (drop j s)"
  from list_emb_ConsD [OF this] obtain us vs where u: "drop j s = us @ c # vs" "subseq cs vs"
    by blast
  then have "length (drop j s) = length us + Suc (length vs)" by simp
  then have p: "j + length us < length s" by simp
  moreover have "drop j s ! length us = c" by (simp add: u(1))
  then have "s ! (j + length us) = c" using p by simp
  moreover have "drop (Suc (j + length us)) s = vs"
  proof -
    have "drop (Suc (length us)) (drop j s) = vs" by (simp add: u(1))
    then show ?thesis by (simp add: add.commute)
  qed
  ultimately show "\<exists>p \<ge> j. p < length s \<and> s ! p = c \<and> subseq cs (drop (Suc p) s)"
    using u(2) by (intro exI [of _ "j + length us"]) simp
next
  assume "\<exists>p \<ge> j. p < length s \<and> s ! p = c \<and> subseq cs (drop (Suc p) s)"
  then obtain p where p: "p \<ge> j" "p < length s" "s ! p = c" "subseq cs (drop (Suc p) s)" by blast
  from id_take_nth_drop [OF p(2)] p(1,2,3) have "drop j s = drop j (take p s @ c # drop (Suc p) s)" by simp
  also have "\<dots> = drop j (take p s) @ c # drop (Suc p) s" using p(1,2) by simp
  finally have "drop j s = drop j (take p s) @ c # drop (Suc p) s" .
  with p(4) show "subseq (c # cs) (drop j s)" by (simp add: list_emb_append2)
qed

lemma subseq_drop_mono: "j \<le> k \<Longrightarrow> subseq cs (drop k s) \<Longrightarrow> subseq cs (drop j s)"
  by (metis drop_drop le_add_diff_inverse2 subseq_order.order_trans suffix_drop suffix_imp_subseq)

lemma subseq_first:
  "subseq (c # cs) (drop j s) \<longleftrightarrow> (\<exists>i. index_of c s j = Some i \<and> subseq cs (drop (Suc i) s))"
proof
  assume "subseq (c # cs) (drop j s)"
  then obtain p where p: "p \<ge> j" "p < length s" "s ! p = c" "subseq cs (drop (Suc p) s)"
    by (auto simp: subseq_Cons_drop)
  then obtain i where i: "index_of c s j = Some i" by (metis index_of_None not_Some_eq)
  with index_of_Some(4) [OF i] p have "i \<le> p" by (metis linorder_not_le)
  then have "Suc i \<le> Suc p" by simp
  with i subseq_drop_mono [OF this p(4)] show "\<exists>i. index_of c s j = Some i \<and> subseq cs (drop (Suc i) s)" by blast
next
  assume "\<exists>i. index_of c s j = Some i \<and> subseq cs (drop (Suc i) s)"
  then show "subseq (c # cs) (drop j s)"
  proof
    fix i assume i: "index_of c s j = Some i \<and> subseq cs (drop (Suc i) s)"
    note f = index_of_Some(1-3) [OF i [THEN conjunct1]]
    from i f show ?thesis by (auto simp: subseq_Cons_drop)
  qed
qed


lemma last_index_of_Some:
  assumes "last_index_of c s j = Some i"
  shows "i \<le> j" "i < length s" "s ! i = c" "i < p \<Longrightarrow> p \<le> j \<Longrightarrow> p < length s \<Longrightarrow> s ! p \<noteq> c"
proof -
  from assms have i: "i < length (take (Suc j) s)" "take (Suc j) s ! i = c" "c \<notin> set (drop (Suc i) (take (Suc j) s))"
    by (simp_all add: last_index_of_def last_index_Some)
  then show "i \<le> j" "i < length s" "s ! i = c" by simp_all
  assume p: "i < p" "p \<le> j" "p < length s"
  then have "drop (Suc i) (take (Suc j) s) ! (p - Suc i) = s ! p" "p - Suc i < length (drop (Suc i) (take (Suc j) s))"
    by simp_all
  with i(3) show "s ! p \<noteq> c" by (metis nth_mem)
qed

lemma last_index_of_None:
  assumes "last_index_of c s j = None" "p \<le> j" "p < length s"
  shows "s ! p \<noteq> c"
proof -
  from assms(1) have "c \<notin> set (take (Suc j) s)" by (simp add: last_index_of_def last_index_None)
  moreover have "take (Suc j) s ! p = s ! p" "p < length (take (Suc j) s)" using assms(2,3) by simp_all
  ultimately show ?thesis by (metis nth_mem)
qed

text \<open>The suffix array: where a suffix still fits, seen from any place at \<open>from\<close> or after.\<close>

lemma near_suffix_spec:
  assumes "from \<le> length s"
  shows "hd (near_suffix cs s from) \<le> int (length s)
    \<and> (\<forall>j. from \<le> j \<and> j \<le> length s \<longrightarrow> (int j \<le> hd (near_suffix cs s from) \<longleftrightarrow> subseq cs (drop j s)))"
proof (induction cs)
  case (Cons c cs)
  define x where "x = hd (near_suffix cs s from)"
  have nx: "x \<le> int (length s)" "\<And>j. from \<le> j \<Longrightarrow> j \<le> length s \<Longrightarrow> int j \<le> x \<longleftrightarrow> subseq cs (drop j s)"
    using Cons by (auto simp: x_def)
  define at where "at = (if x > int from then (case last_index_of c s (nat x - 1) of None \<Rightarrow> -1 | Some i \<Rightarrow> int i) else -1)"
  have hd: "hd (near_suffix (c # cs) s from) = (if at < int from then -1 else at)"
    by (simp add: Let_def at_def x_def)
  have P: "subseq (c # cs) (drop j s) \<longleftrightarrow> (\<exists>p \<ge> j. int p < x \<and> s ! p = c)" if "from \<le> j" for j
  proof -
    have "p < length s \<and> s ! p = c \<and> subseq cs (drop (Suc p) s) \<longleftrightarrow> int p < x \<and> s ! p = c" if "p \<ge> j" for p
      using nx(1) nx(2) [of "Suc p"] that \<open>from \<le> j\<close> by auto
    then show ?thesis by (auto simp: subseq_Cons_drop)
  qed
  have at: "int j \<le> (if at < int from then -1 else at) \<longleftrightarrow> (\<exists>p \<ge> j. int p < x \<and> s ! p = c)" if j: "from \<le> j" for j
  proof (cases "x > int from")
    case False
    with j show ?thesis by (auto simp: at_def)
  next
    case True
    show ?thesis
    proof (cases "last_index_of c s (nat x - 1)")
      case None
      have "s ! p \<noteq> c" if "int p < x" for p
        by (rule last_index_of_None [OF None]) (use that nx(1) in linarith)+
      with True None show ?thesis by (auto simp: at_def)
    next
      case (Some i)
      note l = last_index_of_Some [OF Some]
      have "int i < x" using l(1) True by linarith
      moreover have "p \<le> i" if "int p < x" "s ! p = c" for p
      proof (rule ccontr)
        assume "\<not> p \<le> i"
        then have "i < p" "p \<le> nat x - 1" "p < length s" using that nx(1) by linarith+
        with l(4) that show False by blast
      qed
      ultimately have "(\<exists>p \<ge> j. int p < x \<and> s ! p = c) \<longleftrightarrow> j \<le> i"
        using l(3) order_trans by blast
      moreover have "at = int i" using True Some by (simp add: at_def)
      ultimately show ?thesis using j by auto
    qed
  qed
  have "at \<le> int (length s)" using last_index_of_Some(2) by (fastforce simp: at_def split: option.splits)
  with hd at P show ?case by auto
qed (use assms in simp)

lemma subseq_tl: "subseq (c # cs) ys \<Longrightarrow> subseq cs ys"
  by (metis list_emb_ConsD list_emb_append2 list_emb_Cons)

lemma near_walk_spec:
  assumes "from \<le> j" "j \<le> length s"
  shows "near_walk cs (tl (near_suffix cs s from)) s j \<longleftrightarrow> cs = [] \<or> (\<exists>k < length cs. subseq (del_at k cs) (drop j s))"
  using assms
proof (induction cs arbitrary: j)
  case (Cons c cs)
  have "near_suffix cs s from \<noteq> []" by (cases cs) (simp_all add: Let_def)
  then obtain a sfx where a: "near_suffix cs s from = a # sfx" by (cases "near_suffix cs s from") auto
  have tl: "tl (near_suffix (c # cs) s from) = a # sfx" by (simp add: Let_def a)
  from near_suffix_spec [of "from" s cs] a Cons.prems
  have first: "int j \<le> a \<longleftrightarrow> subseq (del_at 0 (c # cs)) (drop j s)" by (auto simp: del_at_def)
  have split: "(\<exists>k < length (c # cs). subseq (del_at k (c # cs)) (drop j s)) \<longleftrightarrow>
      int j \<le> a \<or> (\<exists>k < length cs. subseq (c # del_at k cs) (drop j s))"
    unfolding first by (auto simp: del_at_def Ex_less_Suc2)
  show ?case
  proof (cases "int j \<le> a")
    case True
    with split tl show ?thesis by simp
  next
    case False
    show ?thesis
    proof (cases "index_of c s j")
      case None
      with False split tl show ?thesis by (simp add: subseq_first)
    next
      case (Some i)
      note i = index_of_Some [OF Some]
      have "near_walk cs sfx s (Suc i) \<longleftrightarrow> cs = [] \<or> (\<exists>k < length cs. subseq (del_at k cs) (drop (Suc i) s))"
        using Cons.IH [of "Suc i"] i Cons.prems a by simp
      moreover have "cs \<noteq> []" using False a Cons.prems by auto
      ultimately show ?thesis using False split tl Some by (simp add: subseq_first)
    qed
  qed
qed simp

text \<open>C36: The two greedy walks of the typo pass decide exactly what trying every deletion would: the
  token matches when one of its characters can be left out so that the rest is a subsequence of the
  text from the given place on.\<close>

theorem nearMatch_iff:
  assumes "tok \<noteq> []" "from \<le> length s"
  shows "nearMatch tok s from \<longleftrightarrow> (\<exists>k < length tok. subseq (del_at k tok) (drop from s))"
  using near_walk_spec [of "from" "from" s tok] assms by (simp add: nearMatch_def)

lemma nearMatch_iff_witness:
  "nearMatch (js ''reamde'') (js ''readme.md'') 0 \<longleftrightarrow>
     (\<exists>k < length (js ''reamde''). subseq (del_at k (js ''reamde'')) (drop 0 (js ''readme.md'')))"
  by (rule nearMatch_iff) (simp_all add: js_def)


subsection \<open>Highlight ranges\<close>

lemma cp_len_bounds: "s \<noteq> [] \<Longrightarrow> 0 < cp_len s \<and> cp_len s \<le> length s"
  by (auto simp: cp_len_def split: list.splits)

lemma join_len_le: "join_len joins s \<le> length s"
proof (induction joins s rule: join_len.induct)
  case (1 joins s)
  show ?case
  proof (cases "s = [] \<or> \<not> joins (take (cp_len s) s)")
    case True
    then show ?thesis by (subst join_len.simps) simp
  next
    case False
    with 1 have "join_len joins (drop (cp_len s) s) \<le> length s - cp_len s" by simp
    with False cp_len_bounds [of s] have "cp_len s + join_len joins (drop (cp_len s) s) \<le> length s" by linarith
    with False show ?thesis by (subst join_len.simps) simp
  qed
qed

lemma fold_chunk_le: "s \<noteq> [] \<Longrightarrow> 0 < fold_chunk joins s \<and> fold_chunk joins s \<le> length s"
proof -
  assume "s \<noteq> []"
  note b = cp_len_bounds [OF this]
  have "join_len joins (drop (cp_len s) s) \<le> length s - cp_len s" using join_len_le [of joins "drop (cp_len s) s"] by simp
  with b show ?thesis unfolding fold_chunk_def by linarith
qed

lemma ranges_append:
  assumes "length fs = length t" "length ts = length t" "sorted fs" "\<forall>f \<in> set fs. j \<le> f"
    "\<forall>k < length t. fs ! k < ts ! k \<and> ts ! k \<le> m" "i < e" "e \<le> m" "i \<le> j" "length l = n"
  shows "length (replicate n i @ fs) = length (l @ t) \<and> length (replicate n e @ ts) = length (l @ t)
    \<and> sorted (replicate n i @ fs) \<and> (\<forall>f \<in> set (replicate n i @ fs). i \<le> f)
    \<and> (\<forall>k < length (l @ t). (replicate n i @ fs) ! k < (replicate n e @ ts) ! k \<and> (replicate n e @ ts) ! k \<le> m)"
  using assms by (auto simp: sorted_append nth_append)

lemma fold_loop_ranges:
  assumes "fold_loop nfc lower joins i s = (t, c, fs, ts)"
  shows "length fs = length t \<and> length ts = length t \<and> sorted fs \<and> (\<forall>f \<in> set fs. i \<le> f)
    \<and> (\<forall>k < length t. fs ! k < ts ! k \<and> ts ! k \<le> i + length s)"
  using assms
proof (induction nfc lower joins i s arbitrary: t c fs ts rule: fold_loop.induct)
  case (1 nfc lower joins i s)
  show ?case
  proof (cases "s = []")
    case True
    with 1(2) show ?thesis by (subst (asm) fold_loop.simps) simp
  next
    case False
    let ?k = "fold_chunk joins s" and ?n = "nfc (take (fold_chunk joins s) s)"
    obtain t' c' fs' ts' where r: "fold_loop nfc lower joins (i + ?k) (drop ?k s) = (t', c', fs', ts')"
      by (metis prod_cases4)
    have k: "0 < ?k" "?k \<le> length s" using fold_chunk_le [OF False] by simp_all
    note 1(1) [OF False refl refl refl refl refl r]
    then have ih: "length fs' = length t'" "length ts' = length t'" "sorted fs'" "\<forall>f \<in> set fs'. i + ?k \<le> f"
      "\<forall>q < length t'. fs' ! q < ts' ! q \<and> ts' ! q \<le> i + length s"
      using k by auto
    let ?l = "if length (lower ?n) \<noteq> length ?n then ?n else lower ?n"
      and ?e = "if length (take ?k s) = 1 \<and> length ?n = 1 then i + 1 else i + ?k"
    have e: "t = ?l @ t'" "fs = replicate (length ?n) i @ fs'" "ts = replicate (length ?n) ?e @ ts'"
      using 1(2) False r by (subst (asm) fold_loop.simps, simp add: Let_def)+
    have ie: "i < ?e" "?e \<le> i + length s" "i \<le> i + ?k" "length ?l = length ?n" using k by auto
    show ?thesis unfolding e by (rule ranges_append [OF ih ie])
  qed
qed

lemma range_of_prepared:
  assumes "p = prepare_label nfc lower joins lab" "i < length (ptext p)"
  shows "fst (range_of p i) < snd (range_of p i)" "snd (range_of p i) \<le> length lab"
    "i \<le> j \<Longrightarrow> j < length (ptext p) \<Longrightarrow> fst (range_of p i) \<le> fst (range_of p j)"
proof -
  have f: "ptext p = ftext (fold_label nfc lower joins lab)" "pfrom p = ffrom (fold_label nfc lower joins lab)"
    "pto p = fto (fold_label nfc lower joins lab)"
    using assms(1) by (simp_all add: prepare_label_def Let_def)
  have "fst (range_of p i) < snd (range_of p i) \<and> snd (range_of p i) \<le> length lab \<and>
     (i \<le> j \<and> j < length (ptext p) \<longrightarrow> fst (range_of p i) \<le> fst (range_of p j))"
  proof (cases "(list_all (\<lambda>u. u < 128) lab \<or> nfc lab = lab) \<and> length (lower lab) = length lab")
    case True
    with f assms(2) show ?thesis by (auto simp: fold_label_def range_of_def)
  next
    case False
    obtain t c fs ts where l: "fold_loop nfc lower joins 0 lab = (t, c, fs, ts)" by (metis prod_cases4)
    note r = fold_loop_ranges [OF l]
    from False l f have p: "ptext p = t" "pfrom p = Some fs" "pto p = Some ts"
      by (auto simp: fold_label_def)
    have i: "i < length t" "j < length (ptext p) \<Longrightarrow> j < length fs" using assms(2) p r by simp_all
    with r have "fs ! i < ts ! i" "ts ! i \<le> length lab" by simp_all
    moreover have "i \<le> j \<and> j < length (ptext p) \<longrightarrow> fs ! i \<le> fs ! j"
      using r i(2) by (simp add: sorted_nth_mono)
    ultimately show ?thesis unfolding range_of_def p by simp
  qed
  then show "fst (range_of p i) < snd (range_of p i)" "snd (range_of p i) \<le> length lab"
    "i \<le> j \<Longrightarrow> j < length (ptext p) \<Longrightarrow> fst (range_of p i) \<le> fst (range_of p j)" by auto
qed

definition covered :: "(nat \<times> nat) list \<Rightarrow> nat set" where
  "covered rs = (\<Union>(a, b) \<in> set rs. {a ..< b})"

definition separated :: "(nat \<times> nat) list \<Rightarrow> bool" where
  "separated rs \<longleftrightarrow> sorted_wrt (\<lambda>x y. snd x < fst y) rs \<and> (\<forall>x \<in> set rs. fst x < snd x)"

lemma add_range_ok:
  assumes "separated acc" "a < b" "acc \<noteq> [] \<Longrightarrow> fst (last acc) \<le> a"
  shows "separated (add_range acc (a, b)) \<and> covered (add_range acc (a, b)) = covered acc \<union> {a ..< b}
    \<and> fst (last (add_range acc (a, b))) \<le> a"
proof (cases acc rule: rev_cases)
  case Nil
  with assms show ?thesis by (simp add: add_range_def separated_def covered_def)
next
  case (snoc us u)
  obtain x y where u: "u = (x, y)" by fastforce
  have x: "x \<le> a" "x < y" using assms snoc u by (auto simp: separated_def)
  show ?thesis
  proof (cases "a \<le> y")
    case True
    then have "{x ..< max y b} = {x ..< y} \<union> {a ..< b}" using x assms(2) by auto
    with True snoc u assms x show ?thesis
      by (auto simp: add_range_def separated_def covered_def sorted_wrt_append)
  next
    case False
    then show ?thesis using snoc u assms x
      by (fastforce simp: add_range_def separated_def covered_def sorted_wrt_append)
  qed
qed

lemma ranges_fold:
  assumes "sorted ks" "\<And>i. i \<in> set ks \<Longrightarrow> fst (range_of p i) < snd (range_of p i)"
    "\<And>i j. i \<in> set ks \<Longrightarrow> j \<in> set ks \<Longrightarrow> i \<le> j \<Longrightarrow> fst (range_of p i) \<le> fst (range_of p j)"
    "separated acc" "\<And>i. i \<in> set ks \<Longrightarrow> acc \<noteq> [] \<Longrightarrow> fst (last acc) \<le> fst (range_of p i)"
  shows "separated (foldl (\<lambda>o' i. add_range o' (range_of p i)) acc ks)
    \<and> covered (foldl (\<lambda>o' i. add_range o' (range_of p i)) acc ks) = covered acc \<union> covered (map (range_of p) ks)"
  using assms
proof (induction ks arbitrary: acc)
  case (Cons i ks)
  obtain a b where r: "range_of p i = (a, b)" by fastforce
  have "a < b" and l: "acc \<noteq> [] \<Longrightarrow> fst (last acc) \<le> a" using Cons.prems(2,5) [of i] r by auto
  have ok: "separated (add_range acc (a, b)) \<and> covered (add_range acc (a, b)) = covered acc \<union> {a ..< b}
    \<and> fst (last (add_range acc (a, b))) \<le> a"
    using Cons.prems(4) \<open>a < b\<close> l by (rule add_range_ok)
  have "fst (last (add_range acc (a, b))) \<le> fst (range_of p k)" if "k \<in> set ks" for k
  proof (rule order_trans)
    show "fst (last (add_range acc (a, b))) \<le> a" using ok by (elim conjE)
    from Cons.prems(1) that have "i \<le> k" by simp
    from Cons.prems(3) [OF _ _ this] that r show "a \<le> fst (range_of p k)" by simp
  qed
  then have "separated (foldl (\<lambda>o' i. add_range o' (range_of p i)) (add_range acc (a, b)) ks)
    \<and> covered (foldl (\<lambda>o' i. add_range o' (range_of p i)) (add_range acc (a, b)) ks)
        = covered (add_range acc (a, b)) \<union> covered (map (range_of p) ks)"
  proof (intro Cons.IH)
    show "sorted ks" using Cons.prems(1) by simp
    show "separated (add_range acc (a, b))" using ok by blast
    show "fst (range_of p k) < snd (range_of p k)" if "k \<in> set ks" for k
      using Cons.prems(2) that by simp
    show "fst (range_of p k) \<le> fst (range_of p l)" if "k \<in> set ks" "l \<in> set ks" "k \<le> l" for k l
      using Cons.prems(3) that by simp
  qed
  with ok r show ?case by (auto simp: covered_def)
qed (simp add: covered_def)

text \<open>The highlight ranges of a label are sorted, nonempty, inside the label and pairwise apart
  (two that touch are one), and they cover exactly the code units of the label that the matched
  positions came from, whatever Unicode composition did to the indices.\<close>

theorem toRanges_cover:
  assumes "\<forall>i \<in> set pos. i < length (ptext (prepare_label nfc lower joins lab))"
  shows "separated (toRanges pos (prepare_label nfc lower joins lab))
    \<and> covered (toRanges pos (prepare_label nfc lower joins lab)) = covered (map (range_of (prepare_label nfc lower joins lab)) pos)
    \<and> covered (toRanges pos (prepare_label nfc lower joins lab)) \<subseteq> {0 ..< length lab}"
proof -
  let ?p = "prepare_label nfc lower joins lab"
  note r = range_of_prepared [OF refl, of _ nfc lower joins lab]
  have "separated (toRanges pos ?p) \<and> covered (toRanges pos ?p) = covered [] \<union> covered (map (range_of ?p) (sort pos))"
    unfolding toRanges_def by (rule ranges_fold) (use assms r in \<open>auto simp: separated_def\<close>)
  moreover have "covered (map (range_of ?p) (sort pos)) = covered (map (range_of ?p) pos)" "covered [] = {}"
    by (simp_all add: covered_def)
  moreover have "covered (map (range_of ?p) pos) \<subseteq> {0 ..< length lab}"
  proof
    fix x assume "x \<in> covered (map (range_of ?p) pos)"
    then obtain i where i: "i \<in> set pos" "x < snd (range_of ?p i)" by (auto simp: covered_def case_prod_beta)
    with assms r(2) [of i] show "x \<in> {0 ..< length lab}" by simp
  qed
  ultimately show ?thesis by simp
qed

lemma toRanges_cover_witness:
  "separated (toRanges [5, 2, 3] (prepare_label id id (\<lambda>_. False) (js ''a/hub.go'')))
    \<and> covered (toRanges [5, 2, 3] (prepare_label id id (\<lambda>_. False) (js ''a/hub.go'')))
      = covered (map (range_of (prepare_label id id (\<lambda>_. False) (js ''a/hub.go''))) [5, 2, 3])
    \<and> covered (toRanges [5, 2, 3] (prepare_label id id (\<lambda>_. False) (js ''a/hub.go''))) \<subseteq> {0 ..< length (js ''a/hub.go'')}"
  by (rule toRanges_cover) code_simp

lemma search_ranks_witness:
  "is_top (better [prepare_label id id (\<lambda>_. False) (js ''a/hub.go'')]) 40
           (clean_matches (\<lambda>_ _. NegInf) \<lparr>whole = js ''hu'', tokens = [parse_token (js ''hu'')]\<rparr> [prepare_label id id (\<lambda>_. False) (js ''a/hub.go'')] False
            @ typo_matches (\<lambda>_ _. NegInf) \<lparr>whole = js ''hu'', tokens = [parse_token (js ''hu'')]\<rparr> [prepare_label id id (\<lambda>_. False) (js ''a/hub.go'')] False 40)
           (map (\<lambda>h. (hindex h, hscore h)) (fst (search (\<lambda>_ _. NegInf) id id (js ''hu'') [prepare_label id id (\<lambda>_. False) (js ''a/hub.go'')] 40 False)))"
  by (rule search_ranks [THEN conjunct1]) code_simp

end
