(* ===== verification/Csv.thy ===== *)
theory Csv
  imports Prelude
begin

section \<open>Delimited text (lib/csv.ts)\<close>

text \<open>
  The parser of the table preview: one pass over the characters with the open row, the open cell
  and the quote state. The delimiter is one character. The reference is a printer that quotes
  every cell as RFC 4180 does.
\<close>

record Csv =
  rows :: "jstr list list"
  truncated :: nat

definition CSV_ROWS :: nat where
  "CSV_ROWS = 5000"

record Scan =
  kept :: "jstr list list"
  open_row :: "jstr list"
  cell :: jstr
  quoted :: bool
  dropped :: nat

definition endRow :: "nat \<Rightarrow> Scan \<Rightarrow> Scan" where
  "endRow cap s =
     (let r = open_row s @ [cell s]
      in if length (kept s) < cap then s\<lparr>cell := [], kept := kept s @ [r], open_row := []\<rparr>
         else s\<lparr>cell := [], dropped := dropped s + 1, open_row := []\<rparr>)"

text \<open>The loop; the character after the current one is the head of the rest.\<close>

fun csv_scan :: "nat \<Rightarrow> nat \<Rightarrow> Scan \<Rightarrow> jstr \<Rightarrow> Scan" where
  "csv_scan d cap s [] = s"
| "csv_scan d cap s [c] =
     (if quoted s then (if c \<noteq> 34 then s\<lparr>cell := cell s @ [c]\<rparr> else s\<lparr>quoted := False\<rparr>)
      else if c = 34 \<and> cell s = [] then s\<lparr>quoted := True\<rparr>
      else if c = d then s\<lparr>open_row := open_row s @ [cell s], cell := []\<rparr>
      else if c = 10 then endRow cap s
      else s\<lparr>cell := cell s @ [c]\<rparr>)"
| "csv_scan d cap s (c # c' # cs) =
     (if quoted s then
        (if c \<noteq> 34 then csv_scan d cap (s\<lparr>cell := cell s @ [c]\<rparr>) (c' # cs)
         else if c' = 34 then csv_scan d cap (s\<lparr>cell := cell s @ [34]\<rparr>) cs
         else csv_scan d cap (s\<lparr>quoted := False\<rparr>) (c' # cs))
      else if c = 34 \<and> cell s = [] then csv_scan d cap (s\<lparr>quoted := True\<rparr>) (c' # cs)
      else if c = d then csv_scan d cap (s\<lparr>open_row := open_row s @ [cell s], cell := []\<rparr>) (c' # cs)
      else if c = 10 then csv_scan d cap (endRow cap s) (c' # cs)
      else if c = 13 \<and> c' = 10 then csv_scan d cap s (c' # cs)
      else csv_scan d cap (s\<lparr>cell := cell s @ [c]\<rparr>) (c' # cs))"

definition start_scan :: Scan where
  "start_scan = \<lparr>kept = [], open_row = [], cell = [], quoted = False, dropped = 0\<rparr>"

definition parseDelimited :: "jstr \<Rightarrow> nat \<Rightarrow> nat \<Rightarrow> Csv option" where
  "parseDelimited t d cap =
     (let s = csv_scan d cap start_scan t
      in if quoted s then None
         else let s' = (if cell s \<noteq> [] \<or> open_row s \<noteq> [] then endRow cap s else s)
              in case kept s' of
                   [] \<Rightarrow> None
                 | r # rs \<Rightarrow> if length r < 2 then None else Some \<lparr>rows = kept s', truncated = dropped s'\<rparr>)"

subsection \<open>The printer\<close>

definition print_cell :: "jstr \<Rightarrow> jstr" where
  "print_cell c = 34 # concat (map (\<lambda>u. if u = 34 then [34, 34] else [u]) c) @ [34]"

definition print_row :: "nat \<Rightarrow> jstr list \<Rightarrow> jstr" where
  "print_row d r = join [d] (map print_cell r) @ [10]"

definition print_csv :: "nat \<Rightarrow> jstr list list \<Rightarrow> jstr" where
  "print_csv d rs = concat (map (print_row d) rs)"

lemma scan_cell_body:
  "quoted s \<Longrightarrow> rest \<noteq> [] \<Longrightarrow> hd rest \<noteq> 34 \<Longrightarrow>
     csv_scan d cap s (concat (map (\<lambda>u. if u = 34 then [34, 34] else [u]) c) @ 34 # rest) =
     csv_scan d cap (s\<lparr>cell := cell s @ c, quoted := False\<rparr>) rest"
proof (induction c arbitrary: s)
  case Nil
  then show ?case by (cases rest) simp_all
next
  case (Cons u c)
  let ?tail = "concat (map (\<lambda>u. if u = 34 then [34, 34] else [u]) c) @ 34 # rest"
  have ne: "?tail \<noteq> []" by simp
  show ?case
  proof (cases "u = 34")
    case True
    with Cons show ?thesis by simp
  next
    case False
    then have "csv_scan d cap s (u # ?tail) = csv_scan d cap (s\<lparr>cell := cell s @ [u]\<rparr>) ?tail"
      using Cons.prems(1) ne by (cases ?tail) simp_all
    with False Cons.IH [of "s\<lparr>cell := cell s @ [u]\<rparr>"] Cons.prems show ?thesis by simp
  qed
qed

lemma scan_cell:
  assumes "\<not> quoted s" "cell s = []" "rest \<noteq> []" "hd rest \<noteq> 34"
  shows "csv_scan d cap s (print_cell c @ rest) = csv_scan d cap (s\<lparr>cell := c\<rparr>) rest"
proof -
  let ?tail = "concat (map (\<lambda>u. if u = 34 then [34, 34] else [u]) c) @ 34 # rest"
  have "csv_scan d cap s (34 # ?tail) = csv_scan d cap (s\<lparr>quoted := True\<rparr>) ?tail"
    using assms(1,2) by (cases ?tail) simp_all
  also have "\<dots> = csv_scan d cap (s\<lparr>quoted := True, cell := cell s @ c, quoted := False\<rparr>) rest"
    using scan_cell_body [of "s\<lparr>quoted := True\<rparr>" rest d cap c] assms(3,4) by simp
  also have "s\<lparr>quoted := True, cell := cell s @ c, quoted := False\<rparr> = s\<lparr>cell := c\<rparr>" using assms(1,2) by simp
  finally show ?thesis by (simp add: print_cell_def)
qed

lemma scan_step:
  "\<not> quoted s \<Longrightarrow> d \<noteq> 34 \<Longrightarrow> csv_scan d cap s (d # rest) = csv_scan d cap (s\<lparr>open_row := open_row s @ [cell s], cell := []\<rparr>) rest"
  "\<not> quoted s \<Longrightarrow> d \<noteq> 10 \<Longrightarrow> csv_scan d cap s (10 # rest) = csv_scan d cap (endRow cap s) rest"
  by (cases rest; simp)+

lemma scan_row:
  assumes "\<not> quoted s" "cell s = []" "r \<noteq> []" "d \<noteq> 34" "d \<noteq> 10"
  shows "csv_scan d cap s (print_row d r @ rest) =
    csv_scan d cap (endRow cap (s\<lparr>open_row := open_row s @ butlast r, cell := last r\<rparr>)) rest"
  using assms
proof (induction r arbitrary: s)
  case (Cons c r)
  show ?case
  proof (cases r)
    case Nil
    with Cons scan_cell [of s "10 # rest" d cap c] scan_step(2) [of "s\<lparr>cell := c\<rparr>" d cap rest]
    show ?thesis by (simp add: print_row_def)
  next
    case (Cons c' r')
    then have "print_row d (c # r) @ rest = print_cell c @ d # print_row d r @ rest"
      by (simp add: print_row_def)
    moreover have "csv_scan d cap s (print_cell c @ d # print_row d r @ rest) =
        csv_scan d cap (s\<lparr>cell := c\<rparr>) (d # print_row d r @ rest)"
      using Cons.prems by (intro scan_cell) simp_all
    moreover have "\<dots> = csv_scan d cap (s\<lparr>open_row := open_row s @ [c], cell := []\<rparr>) (print_row d r @ rest)"
      using scan_step(1) [of "s\<lparr>cell := c\<rparr>" d cap "print_row d r @ rest"] Cons.prems by simp
    ultimately show ?thesis
      using Cons.IH [of "s\<lparr>open_row := open_row s @ [c], cell := []\<rparr>"] Cons.prems Cons by simp
  qed
qed simp

lemma scan_rows:
  assumes "\<forall>r \<in> set rs. r \<noteq> []" "\<not> quoted s" "cell s = []" "open_row s = []" "d \<noteq> 34" "d \<noteq> 10"
  shows "csv_scan d cap s (print_csv d rs) =
    s\<lparr>kept := kept s @ take (cap - length (kept s)) rs, dropped := dropped s + (length rs - (cap - length (kept s)))\<rparr>"
  using assms
proof (induction rs arbitrary: s)
  case (Cons r rs)
  let ?s = "endRow cap (s\<lparr>open_row := open_row s @ butlast r, cell := last r\<rparr>)"
  have s: "?s = (if length (kept s) < cap then s\<lparr>kept := kept s @ [r]\<rparr> else s\<lparr>dropped := dropped s + 1\<rparr>)"
    using Cons.prems by (simp add: endRow_def Let_def)
  have "csv_scan d cap s (print_csv d (r # rs)) = csv_scan d cap ?s (print_csv d rs)"
    using scan_row [of s r d cap "print_csv d rs"] Cons.prems by (simp add: print_csv_def)
  also have "\<dots> = ?s\<lparr>kept := kept ?s @ take (cap - length (kept ?s)) rs,
      dropped := dropped ?s + (length rs - (cap - length (kept ?s)))\<rparr>"
    by (rule Cons.IH) (use Cons.prems s in auto)
  finally show ?case unfolding s by (auto simp: take_Cons' Suc_diff_le)
qed (simp add: print_csv_def)

text \<open>C37: Reading back a printed table gives its first \<open>cap\<close> rows, cell for cell, and the count of
  the rows past the cap, for every content of the cells: delimiters, quotes and line breaks included.\<close>

theorem csv_roundtrip:
  assumes "rs \<noteq> []" "length (hd rs) \<ge> 2" "\<forall>r \<in> set rs. r \<noteq> []" "d \<noteq> 34" "d \<noteq> 10" "cap > 0"
  shows "parseDelimited (print_csv d rs) d cap = Some \<lparr>rows = take cap rs, truncated = length rs - cap\<rparr>"
proof -
  have "csv_scan d cap start_scan (print_csv d rs) =
      start_scan\<lparr>kept := take cap rs, dropped := length rs - cap\<rparr>"
    using scan_rows [of rs start_scan d cap] assms by (simp add: start_scan_def)
  with assms show ?thesis
    by (cases rs; cases cap) (simp_all add: parseDelimited_def start_scan_def Let_def)
qed

lemma csv_roundtrip_witness:
  "parseDelimited (print_csv 44 [[js ''a,b'', js ''c''], [js ''say \"hi\"'', []], [[10], js ''x'']]) 44 2 =
     Some \<lparr>rows = [[js ''a,b'', js ''c''], [js ''say \"hi\"'', []]], truncated = 1\<rparr>"
  using csv_roundtrip [of "[[js ''a,b'', js ''c''], [js ''say \"hi\"'', []], [[10], js ''x'']]" 44 2] by simp

end
