(* ===== verification/Runs.thy ===== *)
theory Runs
  imports Prelude
begin

section \<open>Agent runs in the history feed (lib/runs.ts)\<close>

text \<open>
  Grouping the entries of the feed into run cards. The map of runs is an association list in
  insertion order, keyed by the string the code builds; a card is the run with the position it is
  drawn at.
\<close>

record HistoryEntry =
  path :: jstr
  enote :: "jstr option"
  session :: "jstr option"
  device_id :: jstr

record Run =
  rnote :: jstr
  rsession :: "jstr option"
  entries :: "HistoryEntry list"
  idx :: "nat list"

datatype Item = Bare nat | Card Run nat

definition runFileCount :: "Run \<Rightarrow> nat" where
  "runFileCount run = length (remdups (map path (entries run)))"

definition key :: "HistoryEntry \<Rightarrow> jstr" where
  "key e = (if truthy (session e) then js ''s'' @ [0] @ the (session e) else js ''n'' @ [0] @ (case enote e of None \<Rightarrow> js ''undefined'' | Some n \<Rightarrow> n))
     @ [0] @ device_id e"

definition grouped :: "HistoryEntry \<Rightarrow> bool" where
  "grouped e \<longleftrightarrow> truthy (enote e) \<or> truthy (session e)"

definition new_run :: "HistoryEntry \<Rightarrow> nat \<Rightarrow> Run" where
  "new_run e i = \<lparr>rnote = (case enote e of None \<Rightarrow> [] | Some n \<Rightarrow> n), rsession = session e, entries = [e], idx = [i]\<rparr>"

text \<open>The body of the first loop: add the entry to its run, or set a new one.\<close>

definition add_entry :: "(jstr \<times> Run) list \<Rightarrow> HistoryEntry \<times> nat \<Rightarrow> (jstr \<times> Run) list" where
  "add_entry runs ei =
     (case ei of (e, i) \<Rightarrow>
        if \<not> grouped e then runs
        else case map_of runs (key e) of
               Some r \<Rightarrow> map (\<lambda>(k, r). (k, if k = key e then r\<lparr>entries := entries r @ [e], idx := idx r @ [i]\<rparr> else r)) runs
             | None \<Rightarrow> runs @ [(key e, new_run e i)])"

definition collect :: "HistoryEntry list \<Rightarrow> (jstr \<times> Run) list" where
  "collect es = foldl add_entry [] (zip es [0 ..< length es])"

text \<open>The second loop, with the keys of the runs that have their card.\<close>

fun lay_out :: "(jstr \<times> Run) list \<Rightarrow> (HistoryEntry \<times> nat) list \<Rightarrow> jstr list \<Rightarrow> Item list" where
  "lay_out runs [] carded = []"
| "lay_out runs ((e, i) # es) carded =
     (case (if grouped e then map_of runs (key e) else None) of
        None \<Rightarrow> Bare i # lay_out runs es carded
      | Some r \<Rightarrow>
          if runFileCount r < 2 then Bare i # lay_out runs es carded
          else if key e \<in> set carded then lay_out runs es carded
          else Card r i # lay_out runs es (key e # carded))"

definition groupRuns :: "HistoryEntry list \<Rightarrow> Item list" where
  "groupRuns es = lay_out (collect es) (zip es [0 ..< length es]) []"

subsection \<open>The runs in closed form\<close>

definition members :: "HistoryEntry list \<Rightarrow> jstr \<Rightarrow> nat list" where
  "members es k = filter (\<lambda>i. grouped (es ! i) \<and> key (es ! i) = k) [0 ..< length es]"

definition run_ok :: "HistoryEntry list \<Rightarrow> jstr \<Rightarrow> Run \<Rightarrow> bool" where
  "run_ok es k r \<longleftrightarrow> idx r = members es k \<and> entries r = map (\<lambda>i. es ! i) (idx r)"

lemma members_snoc:
  "members (es @ [e]) k = members es k @ (if grouped e \<and> key e = k then [length es] else [])"
proof -
  have "filter (\<lambda>i. grouped ((es @ [e]) ! i) \<and> key ((es @ [e]) ! i) = k) [0 ..< length es] = members es k"
    unfolding members_def by (rule filter_cong) (simp_all add: nth_append)
  then show ?thesis by (simp add: members_def)
qed

lemma collect_snoc: "collect (es @ [e]) = add_entry (collect es) (e, length es)"
  by (simp add: collect_def)

lemma map_of_update:
  "map_of (map (\<lambda>(k, r). (k, if k = q then f r else r)) xs) k = (if k = q then map_option f (map_of xs k) else map_of xs k)"
  by (induction xs) auto

lemma collect_ok:
  "(map_of (collect es) k = None \<longleftrightarrow> members es k = []) \<and> (\<forall>r. map_of (collect es) k = Some r \<longrightarrow> run_ok es k r)"
proof (induction es arbitrary: k rule: rev_induct)
  case Nil
  show ?case by (simp add: collect_def members_def)
next
  case (snoc e es)
  have old: "map (\<lambda>i. (es @ [e]) ! i) (members es k) = map (\<lambda>i. es ! i) (members es k)" for k
    by (auto simp: members_def nth_append)
  show ?case
  proof (cases "grouped e")
    case False
    with snoc [of k] old [of k] show ?thesis
      by (auto simp: collect_snoc add_entry_def members_snoc run_ok_def)
  next
    case True
    show ?thesis
    proof (cases "map_of (collect es) (key e)")
      case None
      with snoc [of "key e"] have "members es (key e) = []" by simp
      with None True snoc [of k] old [of k] show ?thesis
        by (auto simp: collect_snoc add_entry_def members_snoc run_ok_def new_run_def map_add_def split: option.splits)
    next
      case (Some r)
      with True snoc [of k] old [of k] show ?thesis
        by (auto simp: collect_snoc add_entry_def members_snoc run_ok_def map_of_update nth_append)
    qed
  qed
qed


text \<open>Whether the run of an entry is worth a card, and what an entry puts into the feed.\<close>

definition carded_run :: "HistoryEntry list \<Rightarrow> nat \<Rightarrow> bool" where
  "carded_run es i \<longleftrightarrow> grouped (es ! i) \<and>
     (case map_of (collect es) (key (es ! i)) of None \<Rightarrow> False | Some r \<Rightarrow> runFileCount r \<ge> 2)"

definition items_of :: "HistoryEntry list \<Rightarrow> nat \<Rightarrow> Item list" where
  "items_of es i =
     (if \<not> carded_run es i then [Bare i]
      else if i = hd (members es (key (es ! i))) then [Card (the (map_of (collect es) (key (es ! i)))) i] else [])"

lemma hd_members:
  assumes "i < length es" "grouped (es ! i)"
  shows "i \<in> set (members es (key (es ! i)))" "i = hd (members es (key (es ! i))) \<longleftrightarrow>
    (\<forall>l < i. \<not> (grouped (es ! l) \<and> key (es ! l) = key (es ! i)))"
proof -
  let ?ms = "members es (key (es ! i))"
  show m: "i \<in> set ?ms" using assms by (simp add: members_def)
  then have ne: "?ms \<noteq> []" by auto
  have s: "sorted ?ms" by (simp add: members_def sorted_wrt_filter)
  have h: "hd ?ms \<in> set ?ms" using ne by simp
  then have hg: "grouped (es ! hd ?ms) \<and> key (es ! hd ?ms) = key (es ! i)" by (simp add: members_def)
  have le: "hd ?ms \<le> l" if "l \<in> set ?ms" for l using that s ne by (cases ?ms) auto
  show "i = hd ?ms \<longleftrightarrow> (\<forall>l < i. \<not> (grouped (es ! l) \<and> key (es ! l) = key (es ! i)))"
  proof
    assume "i = hd ?ms"
    then have "i \<le> l" if "grouped (es ! l)" "key (es ! l) = key (es ! i)" "l < length es" for l
      using le [of l] that by (simp add: members_def)
    with assms(1) show "\<forall>l < i. \<not> (grouped (es ! l) \<and> key (es ! l) = key (es ! i))"
      by (metis less_trans linorder_not_le)
  next
    assume "\<forall>l < i. \<not> (grouped (es ! l) \<and> key (es ! l) = key (es ! i))"
    with hg le [OF m] show "i = hd ?ms" by (metis le_neq_implies_less)
  qed
qed

lemma lay_out_items:
  assumes "j \<le> length es"
    "\<And>k. k \<in> set carded \<longleftrightarrow> (\<exists>l < j. carded_run es l \<and> key (es ! l) = k)"
  shows "lay_out (collect es) (zip (drop j es) [j ..< length es]) carded = concat (map (items_of es) [j ..< length es])"
  using assms
proof (induction "length es - j" arbitrary: j carded)
  case (Suc q)
  then have j: "j < length es" by simp
  then have z: "zip (drop j es) [j ..< length es] = (es ! j, j) # zip (drop (Suc j) es) [Suc j ..< length es]"
    by (simp add: Cons_nth_drop_Suc [symmetric] upt_conv_Cons)
  have IH: "lay_out (collect es) (zip (drop (Suc j) es) [Suc j ..< length es]) c = concat (map (items_of es) [Suc j ..< length es])"
    if "\<And>k. k \<in> set c \<longleftrightarrow> (\<exists>l < Suc j. carded_run es l \<and> key (es ! l) = k)" for c
    by (rule Suc.hyps(1)) (use Suc.hyps(2) j that in auto)
  have r: "map_of (collect es) (key (es ! j)) \<noteq> None" if "grouped (es ! j)"
    using collect_ok [of es "key (es ! j)"] hd_members(1) [OF j that] by auto
  have split: "concat (map (items_of es) [j ..< length es]) = items_of es j @ concat (map (items_of es) [Suc j ..< length es])"
    using j by (simp add: upt_conv_Cons)
  show ?case
  proof (cases "carded_run es j")
    case False
    then have k: "k \<in> set carded \<longleftrightarrow> (\<exists>l < Suc j. carded_run es l \<and> key (es ! l) = k)" for k
      using Suc.prems(2) by (auto simp: less_Suc_eq)
    show ?thesis unfolding z split using False IH [OF k] r
      by (auto simp: items_of_def carded_run_def split: option.splits)
  next
    case True
    then obtain run where run: "grouped (es ! j)" "map_of (collect es) (key (es ! j)) = Some run" "\<not> runFileCount run < 2"
      by (auto simp: carded_run_def split: option.splits)
    have same: "carded_run es l" if "grouped (es ! l)" "key (es ! l) = key (es ! j)" for l
      using True that by (simp add: carded_run_def)
    have first: "j = hd (members es (key (es ! j))) \<longleftrightarrow> key (es ! j) \<notin> set carded"
    proof -
      have "(\<exists>l < j. carded_run es l \<and> key (es ! l) = key (es ! j)) \<longleftrightarrow>
          (\<exists>l < j. grouped (es ! l) \<and> key (es ! l) = key (es ! j))"
        using same by (metis carded_run_def)
      then show ?thesis unfolding hd_members(2) [OF j run(1)] Suc.prems(2) by blast
    qed
    show ?thesis
    proof (cases "key (es ! j) \<in> set carded")
      case in': True
      then have k: "k \<in> set carded \<longleftrightarrow> (\<exists>l < Suc j. carded_run es l \<and> key (es ! l) = k)" for k
        using Suc.prems(2) by (auto simp: less_Suc_eq)
      show ?thesis unfolding z split using in' first True run IH [OF k] by (simp add: items_of_def)
    next
      case out': False
      have k: "k \<in> set (key (es ! j) # carded) \<longleftrightarrow> (\<exists>l < Suc j. carded_run es l \<and> key (es ! l) = k)" for k
        using Suc.prems(2) True by (auto simp: less_Suc_eq)
      show ?thesis unfolding z split using out' first True run IH [OF k] by (simp add: items_of_def)
    qed
  qed
qed simp

lemma groupRuns_items: "groupRuns es = concat (map (items_of es) [0 ..< length es])"
  using lay_out_items [of 0 es "[]"] by (simp add: groupRuns_def)

fun item_entries :: "Item \<Rightarrow> nat list" where
  "item_entries (Bare i) = [i]"
| "item_entries (Card r i) = idx r"

text \<open>The item that shows an entry stands where the first entry of its run is.\<close>

definition shown_at :: "HistoryEntry list \<Rightarrow> nat \<Rightarrow> nat" where
  "shown_at es i = (if carded_run es i then hd (members es (key (es ! i))) else i)"

lemma count_distinct: "distinct xs \<Longrightarrow> count_list xs x = (if x \<in> set xs then 1 else 0)"
  by (induction xs) auto

lemma sum_one: "sum_list (map (\<lambda>j. if j = a then 1 else 0) [0 ..< n]) = (if a < n then 1 else (0 :: nat))"
  by (induction n) auto

lemma items_of_count:
  assumes "i < length es" "j < length es"
  shows "count_list (concat (map item_entries (items_of es j))) i = (if j = shown_at es i then 1 else 0)"
proof (cases "carded_run es j")
  case False
  have "shown_at es i \<noteq> j" if "carded_run es i"
  proof
    assume "shown_at es i = j"
    with that have "j = hd (members es (key (es ! i)))" "grouped (es ! i)" by (auto simp: shown_at_def carded_run_def)
    then have "j \<in> set (members es (key (es ! i)))" using hd_members(1) [OF assms(1)] by (metis hd_in_set list.set_cases list.distinct(1))
    then have "grouped (es ! j)" "key (es ! j) = key (es ! i)" by (auto simp: members_def)
    with that False show False by (simp add: carded_run_def)
  qed
  with False show ?thesis by (auto simp: items_of_def shown_at_def)
next
  case True
  then obtain r where r: "grouped (es ! j)" "map_of (collect es) (key (es ! j)) = Some r"
    by (auto simp: carded_run_def split: option.splits)
  with collect_ok [of es "key (es ! j)"] have ix: "idx r = members es (key (es ! j))" by (simp add: run_ok_def)
  let ?k = "key (es ! j)"
  have same: "carded_run es i \<longleftrightarrow> True" if "i \<in> set (members es ?k)"
    using that True by (auto simp: members_def carded_run_def)
  have d: "distinct (members es ?k)" by (simp add: members_def)
  have cnt: "count_list (members es ?k) i = (if i \<in> set (members es ?k) then 1 else 0)"
    using d by (rule count_distinct)
  show ?thesis
  proof (cases "j = hd (members es ?k)")
    case hd: True
    have "i \<in> set (members es ?k) \<longleftrightarrow> j = shown_at es i"
    proof
      assume i: "i \<in> set (members es ?k)"
      then have "key (es ! i) = ?k" by (simp add: members_def)
      with same [OF i] hd show "j = shown_at es i" by (simp add: shown_at_def)
    next
      assume j: "j = shown_at es i"
      show "i \<in> set (members es ?k)"
      proof (cases "carded_run es i")
        case True
        then have g: "grouped (es ! i)" by (simp add: carded_run_def)
        note m = hd_members(1) [OF assms(1) g]
        with j True have "j \<in> set (members es (key (es ! i)))"
          by (metis hd_in_set list.set_cases list.distinct(1) shown_at_def)
        then have "key (es ! i) = ?k" by (simp add: members_def)
        with m show ?thesis by simp
      next
        case False
        with j hd_members(1) [OF assms(2) r(1)] show ?thesis by (simp add: shown_at_def)
      qed
    qed
    with hd True r(2) ix cnt show ?thesis by (simp add: items_of_def)
  next
    case False
    have "j \<noteq> shown_at es i"
    proof
      assume j: "j = shown_at es i"
      show False
      proof (cases "carded_run es i")
        case ci: True
        then have g: "grouped (es ! i)" by (simp add: carded_run_def)
        with j ci have jh: "j = hd (members es (key (es ! i)))" by (simp add: shown_at_def)
        with hd_members(1) [OF assms(1) g] have "j \<in> set (members es (key (es ! i)))"
          by (metis hd_in_set list.set_cases list.distinct(1))
        then have "key (es ! i) = ?k" by (simp add: members_def)
        with jh False show False by simp
      next
        case False
        with j True show False by (simp add: shown_at_def)
      qed
    qed
    with False True show ?thesis by (simp add: items_of_def)
  qed
qed

lemma groupRuns_once:
  assumes "i < length es"
  shows "count_list (concat (map item_entries (groupRuns es))) i = 1"
proof -
  have sum: "count_list (concat (map item_entries (concat (map (items_of es) ks)))) i =
      sum_list (map (\<lambda>j. count_list (concat (map item_entries (items_of es j))) i) ks)" for ks
    by (induction ks) simp_all
  have "sum_list (map (\<lambda>j. count_list (concat (map item_entries (items_of es j))) i) [0 ..< length es]) =
      sum_list (map (\<lambda>j. if j = shown_at es i then 1 else 0) [0 ..< length es])"
    by (rule arg_cong [where f = sum_list]) (simp add: items_of_count [OF assms])
  also have "\<dots> = (if shown_at es i < length es then 1 else 0)"
    by (rule sum_one)
  also have "shown_at es i < length es"
  proof (cases "carded_run es i")
    case True
    then have g: "grouped (es ! i)" by (simp add: carded_run_def)
    then have "hd (members es (key (es ! i))) \<in> set (members es (key (es ! i)))"
      using hd_members(1) [OF assms g] by (metis hd_in_set list.set_cases list.distinct(1))
    with True show ?thesis by (simp add: shown_at_def members_def)
  qed (simp add: shown_at_def assms)
  then have "(if shown_at es i < length es then 1 else 0 :: nat) = 1" by simp
  finally show ?thesis unfolding groupRuns_items sum .
qed

text \<open>Every entry of the feed is shown exactly once: as a bare row or inside exactly one card, with
  no entry lost or doubled, however the runs interleave.\<close>

theorem groupRuns_partition:
  assumes "i < length es"
  shows "count_list (concat (map item_entries (groupRuns es))) i = 1"
  using assms by (rule groupRuns_once)

lemma groupRuns_partition_witness:
  "count_list (concat (map item_entries (groupRuns
     [\<lparr>path = js ''a'', enote = Some (js ''n''), session = None, device_id = js ''d''\<rparr>,
      \<lparr>path = js ''x'', enote = None, session = None, device_id = js ''d''\<rparr>,
      \<lparr>path = js ''b'', enote = Some (js ''n''), session = None, device_id = js ''d''\<rparr>]))) 2 = 1"
  by (rule groupRuns_partition) simp

text \<open>A run card never spans two devices or two sessions: with no NUL inside the identifiers, all
  entries of a card have the device of its first, and the same session (or, where none is recorded, the
  same note), it touches at least two files, and its rows are exactly the entries at its indices.\<close>

theorem groupRuns_one_writer:
  assumes "Card r i \<in> set (groupRuns es)"
    "\<forall>e \<in> set es. 0 \<notin> set (device_id e) \<and> 0 \<notin> set (str_or (session e) []) \<and> 0 \<notin> set (str_or (enote e) [])"
  shows "entries r = map (\<lambda>l. es ! l) (idx r) \<and> 2 \<le> runFileCount r \<and>
    (\<forall>a \<in> set (entries r). \<forall>b \<in> set (entries r). device_id a = device_id b \<and>
      (truthy (session a) \<longleftrightarrow> truthy (session b)) \<and>
      (if truthy (session a) then session a = session b else enote a = enote b))"
proof -
  from assms(1) obtain j where j: "j < length es" "carded_run es j"
    "r = the (map_of (collect es) (key (es ! j)))"
    by (auto simp: groupRuns_items items_of_def split: if_splits)
  then obtain r' where r': "map_of (collect es) (key (es ! j)) = Some r'" "runFileCount r' \<ge> 2"
    by (auto simp: carded_run_def split: option.splits)
  with j(3) collect_ok [of es "key (es ! j)"] have ok: "idx r = members es (key (es ! j))" "entries r = map (\<lambda>l. es ! l) (idx r)"
    "runFileCount r \<ge> 2" by (auto simp: run_ok_def)
  have grp: "grouped a \<and> key a = key (es ! j) \<and> a \<in> set es" if "a \<in> set (entries r)" for a
    using that ok(1,2) by (auto simp: members_def)
  have split0: "u = v \<and> u' = v'" if "u @ 0 # u' = v @ 0 # v'" "0 \<notin> set u" "0 \<notin> set v" for u v u' v' :: jstr
    using that by (metis append_eq_append_conv_if append_eq_conv_conj first_index_append list.inject option.inject append_same_eq same_append_eq)
  have "device_id a = device_id b \<and> (truthy (session a) \<longleftrightarrow> truthy (session b)) \<and>
      (if truthy (session a) then session a = session b else enote a = enote b)"
    if ab: "a \<in> set (entries r)" "b \<in> set (entries r)" for a b
  proof -
    from grp [OF ab(1)] grp [OF ab(2)] have k: "key a = key b" "grouped a" "grouped b" "a \<in> set es" "b \<in> set es" by auto
    note na = assms(2) [rule_format, OF k(4)] and nb = assms(2) [rule_format, OF k(5)]
    have form: "\<exists>t. (key e = js ''s'' @ [0] @ t @ [0] @ device_id e \<and> session e = Some t \<and> t \<noteq> []
        \<or> key e = js ''n'' @ [0] @ t @ [0] @ device_id e \<and> \<not> truthy (session e) \<and> enote e = Some t) \<and> 0 \<notin> set t"
      if "grouped e" "e \<in> set es" for e
      using that assms(2) by (cases "session e"; cases "enote e") (auto simp: key_def grouped_def truthy_def str_or_def split: if_splits)
    obtain t u where t: "key a = js ''s'' @ [0] @ t @ [0] @ device_id a \<and> session a = Some t \<and> t \<noteq> []
        \<or> key a = js ''n'' @ [0] @ t @ [0] @ device_id a \<and> \<not> truthy (session a) \<and> enote a = Some t" "0 \<notin> set t"
      and u: "key b = js ''s'' @ [0] @ u @ [0] @ device_id b \<and> session b = Some u \<and> u \<noteq> []
        \<or> key b = js ''n'' @ [0] @ u @ [0] @ device_id b \<and> \<not> truthy (session b) \<and> enote b = Some u" "0 \<notin> set u"
      using form [OF k(2,4)] form [OF k(3,5)] by blast
    have eq: "t = u \<and> device_id a = device_id b" if "t @ 0 # device_id a = u @ 0 # device_id b"
      using split0 [OF that] t(2) u(2) by blast
    from t(1) u(1) k(1) eq show ?thesis by (auto simp: js_def truthy_def)
  qed
  with ok show ?thesis by blast
qed

lemma groupRuns_one_writer_witness:
  "\<exists>r. groupRuns [\<lparr>path = js ''a'', enote = Some (js ''n''), session = None, device_id = js ''d''\<rparr>,
       \<lparr>path = js ''b'', enote = Some (js ''n''), session = None, device_id = js ''d''\<rparr>] = [Card r 0]
     \<and> 2 \<le> runFileCount r"
proof -
  let ?a = "\<lparr>path = js ''a'', enote = Some (js ''n''), session = None, device_id = js ''d''\<rparr>"
  let ?b = "\<lparr>path = js ''b'', enote = Some (js ''n''), session = None, device_id = js ''d''\<rparr>"
  let ?r = "\<lparr>rnote = js ''n'', rsession = None, entries = [?a, ?b], idx = [0, 1]\<rparr>"
  have g: "groupRuns [?a, ?b] = [Card ?r 0]" by code_simp
  have "2 \<le> runFileCount ?r"
    using groupRuns_one_writer [of ?r 0 "[?a, ?b]"] g by (simp add: js_def str_or_def)
  with g show ?thesis by blast
qed

end
