(* ===== verification/TreeView.thy ===== *)
theory TreeView
  imports Prelude Conflict Fuzzy "HOL-Library.Multiset"
begin

section \<open>The sidebar tree (lib/treeview.ts)\<close>

text \<open>
  What the sidebar shows of the project tree: the statistics of a walk over it, the rows of the
  expanded folders, and the filter by name. \<open>Date.parse\<close> is an argument (\<open>None\<close> is NaN). The maps
  of the code are HOL maps and its sets HOL sets; a set of node objects is a set of positions.
\<close>

datatype Node = Node (nname: jstr) (npath: jstr) (ndir: bool) (ntime: "jstr option") (nchildren: "Node list")

definition isSystemName :: "jstr \<Rightarrow> bool" where
  "isSystemName nm \<longleftrightarrow> starts_with nm (js ''.'') \<or> nm = js ''_lint.py''"

definition CHILD_CAP :: nat where
  "CHILD_CAP = 5"

definition systemKey :: "jstr \<Rightarrow> jstr" where
  "systemKey parent = [0] @ js ''sys:'' @ parent"

datatype TreeRow =
    NodeRow Node nat nat nat
  | SystemRow jstr nat nat bool
  | MoreRow jstr nat nat

record TreeStats =
  conflicts :: "jstr \<rightharpoonup> nat"
  fresh :: "jstr \<rightharpoonup> nat"
  latest :: "jstr \<rightharpoonup> int"

definition map_or :: "('a \<rightharpoonup> 'b) \<Rightarrow> 'a \<Rightarrow> 'b \<Rightarrow> 'b" where
  "map_or m k d = (case m k of None \<Rightarrow> d | Some v \<Rightarrow> v)"

definition time_of :: "(jstr \<Rightarrow> int option) \<Rightarrow> jstr option \<Rightarrow> int" where
  "time_of parse_date s = (if truthy s then (case parse_date (the s) of None \<Rightarrow> 0 | Some v \<Rightarrow> v) else 0)"

subsection \<open>Statistics\<close>

text \<open>The walk's closure state: the maps, the file paths and the conflict copies in visiting order.\<close>

record Walk =
  wfresh :: "jstr \<rightharpoonup> nat"
  wlatest :: "jstr \<rightharpoonup> int"
  files :: "jstr set"
  copies :: "jstr list"

definition visit_file :: "(jstr \<Rightarrow> int option) \<Rightarrow> Node \<Rightarrow> Walk \<Rightarrow> Walk" where
  "visit_file parse_date c w = w\<lparr>files := insert (npath c) (files w),
     copies := copies w @ (if parseConflict (npath c) \<noteq> None then [npath c] else []),
     wlatest := (wlatest w)(npath c \<mapsto> time_of parse_date (ntime c))\<rparr>"

fun walk :: "(jstr \<Rightarrow> int option) \<Rightarrow> int \<Rightarrow> Node \<Rightarrow> Walk \<Rightarrow> (nat \<times> int) \<times> Walk"
  and walk_kids :: "(jstr \<Rightarrow> int option) \<Rightarrow> int \<Rightarrow> Node list \<Rightarrow> nat \<times> int \<Rightarrow> Walk \<Rightarrow> (nat \<times> int) \<times> Walk" where
  "walk pd since (Node nm p d tm cs) w =
     (case walk_kids pd since cs (0, 0) w of
        ((f, l), w) \<Rightarrow>
          ((f, l), if p \<noteq> [] then w\<lparr>wfresh := (wfresh w)(p \<mapsto> f), wlatest := (wlatest w)(p \<mapsto> l)\<rparr> else w))"
| "walk_kids pd since [] fl w = (fl, w)"
| "walk_kids pd since (c # cs) (f, l) w =
     (if ndir c then
        (case walk pd since c w of ((cf, cl), w) \<Rightarrow> walk_kids pd since cs (f + cf, max l cl) w)
      else
        let ct = time_of pd (ntime c)
        in walk_kids pd since cs (if since > 0 \<and> ct > since then f + 1 else f, max l ct) (visit_file pd c w))"

definition count_copy :: "jstr set \<Rightarrow> (jstr \<rightharpoonup> nat) \<Rightarrow> jstr \<Rightarrow> (jstr \<rightharpoonup> nat)" where
  "count_copy fs m p =
     (let orig = original (the (parseConflict p))
      in if orig \<in> fs then m(orig \<mapsto> map_or m orig 0 + 1) else m)"

definition treeStats :: "(jstr \<Rightarrow> int option) \<Rightarrow> Node option \<Rightarrow> int \<Rightarrow> TreeStats" where
  "treeStats pd root since =
     (let w0 = \<lparr>wfresh = Map.empty, wlatest = Map.empty, files = {}, copies = []\<rparr>;
          w = (case root of None \<Rightarrow> w0 | Some r \<Rightarrow> snd (walk pd since r w0))
      in \<lparr>conflicts = foldl (count_copy (files w)) Map.empty (copies w), fresh = wfresh w, latest = wlatest w\<rparr>)"

definition isFoldedCopy :: "jstr \<Rightarrow> TreeStats \<Rightarrow> bool" where
  "isFoldedCopy p st = (case parseConflict p of None \<Rightarrow> False | Some c \<Rightarrow> conflicts st (original c) \<noteq> None)"

subsection \<open>Rows\<close>

record RowOpts =
  expanded :: "jstr set"
  showAll :: "jstr set"
  stats :: TreeStats
  keep :: jstr
  cap :: nat
  recent :: bool

definition latest_of :: "RowOpts \<Rightarrow> Node \<Rightarrow> int" where
  "latest_of op n = map_or (latest (stats op)) (npath n) 0"

definition onKeepPath :: "RowOpts \<Rightarrow> jstr \<Rightarrow> bool" where
  "onKeepPath op p \<longleftrightarrow> keep op = p \<or> starts_with (keep op) (p @ js ''/'')"

definition kids :: "RowOpts \<Rightarrow> Node \<Rightarrow> Node list" where
  "kids op parent = filter (\<lambda>c. \<not> isFoldedCopy (npath c) (stats op)) (nchildren parent)"

definition plain_kids :: "RowOpts \<Rightarrow> Node \<Rightarrow> Node list" where
  "plain_kids op parent =
     (let plain = filter (\<lambda>c. \<not> isSystemName (nname c)) (kids op parent)
      in if recent op then sort_key (\<lambda>n. - latest_of op n) plain else plain)"

definition system_kids :: "RowOpts \<Rightarrow> Node \<Rightarrow> Node list" where
  "system_kids op parent = filter (\<lambda>c. isSystemName (nname c)) (kids op parent)"

text \<open>The children of a capped level: which are shown, and how many are not.\<close>

definition by_recent :: "RowOpts \<Rightarrow> Node list \<Rightarrow> (nat \<times> Node) list" where
  "by_recent op plain = sort_key (\<lambda>(i, n). - latest_of op n) (zip [0 ..< length plain] plain)"

definition picked :: "RowOpts \<Rightarrow> Node list \<Rightarrow> nat set" where
  "picked op plain =
     (let br = by_recent op plain
      in set (map fst (take (cap op) br @ filter (\<lambda>(i, c). onKeepPath op (npath c)) (drop (cap op) br))))"

definition capped :: "RowOpts \<Rightarrow> Node list \<Rightarrow> Node list" where
  "capped op plain = map snd (filter (\<lambda>(i, c). i \<in> picked op plain) (zip [0 ..< length plain] plain))"

definition hidden :: "RowOpts \<Rightarrow> Node list \<Rightarrow> nat" where
  "hidden op plain =
     (let br = by_recent op plain
      in length plain - length (take (cap op) br) - length (filter (\<lambda>(i, c). onKeepPath op (npath c)) (drop (cap op) br)))"

definition is_capped :: "RowOpts \<Rightarrow> Node \<Rightarrow> nat \<Rightarrow> bool" where
  "is_capped op parent depth \<longleftrightarrow> depth > 0 \<and> length (plain_kids op parent) > cap op \<and> npath parent \<notin> showAll op"

definition level_nodes :: "RowOpts \<Rightarrow> Node \<Rightarrow> nat \<Rightarrow> Node list" where
  "level_nodes op parent depth =
     (if is_capped op parent depth then capped op (plain_kids op parent) else plain_kids op parent)"

definition system_open :: "RowOpts \<Rightarrow> Node \<Rightarrow> bool" where
  "system_open op parent \<longleftrightarrow> systemKey (npath parent) \<in> expanded op \<or>
     (\<exists>c \<in> set (system_kids op parent). onKeepPath op (npath c))"

definition node_row :: "RowOpts \<Rightarrow> Node \<Rightarrow> nat \<Rightarrow> TreeRow" where
  "node_row op n depth =
     NodeRow n depth (if ndir n then 0 else map_or (conflicts (stats op)) (npath n) 0)
       (if ndir n then map_or (fresh (stats op)) (npath n) 0 else 0)"

lemma set_capped: "set (capped op plain) \<subseteq> set plain"
  by (auto simp: capped_def dest: set_zip_rightD)

lemma child_size [termination_simp]:
  "c \<in> set (level_nodes op parent d) \<Longrightarrow> size c < size parent"
  "c \<in> set (system_kids op parent) \<Longrightarrow> size c < size parent"
proof -
  have ch: "size c < size parent" if "c \<in> set (nchildren parent)"
    using size_list_estimation' [OF that order_refl, of size] by (cases parent) simp
  have "set (plain_kids op parent) \<subseteq> set (nchildren parent)" by (auto simp: plain_kids_def kids_def Let_def)
  then have "set (level_nodes op parent d) \<subseteq> set (nchildren parent)"
    using set_capped [of op "plain_kids op parent"] by (auto simp: level_nodes_def)
  then show "c \<in> set (level_nodes op parent d) \<Longrightarrow> size c < size parent" using ch by blast
  show "c \<in> set (system_kids op parent) \<Longrightarrow> size c < size parent" using ch by (simp add: system_kids_def kids_def)
qed

text \<open>\<open>level\<close>, with \<open>emit\<close> as the concatenation over its nodes.\<close>

function level :: "RowOpts \<Rightarrow> Node \<Rightarrow> nat \<Rightarrow> TreeRow list" where
  "level op parent depth =
     concat (map (\<lambda>n. node_row op n depth #
         (if ndir n \<and> npath n \<in> expanded op then level op n (depth + 1) else [])) (level_nodes op parent depth))
     @ (if is_capped op parent depth then [MoreRow (npath parent) depth (hidden op (plain_kids op parent))] else [])
     @ (if system_kids op parent = [] then []
        else SystemRow (npath parent) depth (length (system_kids op parent)) (system_open op parent) #
          (if system_open op parent
           then concat (map (\<lambda>n. node_row op n (depth + 1) #
               (if ndir n \<and> npath n \<in> expanded op then level op n (depth + 2) else [])) (system_kids op parent))
           else []))"
  by pat_completeness auto
termination
  by (relation "measure (\<lambda>(op, n, d). size n)") (auto simp: child_size)

declare level.simps [simp del]

definition buildRows :: "RowOpts \<Rightarrow> Node option \<Rightarrow> TreeRow list" where
  "buildRows op root = (case root of None \<Rightarrow> [] | Some r \<Rightarrow> level op r 0)"

subsection \<open>Filter mode\<close>

record FilterHit =
  hpath :: jstr
  hname :: jstr
  hdir :: bool
  ranges :: "(int \<times> int) list"

record FilterResult =
  folders :: "FilterHit list"
  filter_files :: "FilterHit list"
  folderCount :: nat
  fileCount :: nat

definition FILTER_FOLDERS :: nat where "FILTER_FOLDERS = 5"
definition FILTER_FILES :: nat where "FILTER_FILES = 100"

definition filter_run :: "(nat \<Rightarrow> nat \<Rightarrow> score) \<Rightarrow> (jstr \<Rightarrow> jstr) \<Rightarrow> (jstr \<Rightarrow> jstr) \<Rightarrow> (jstr \<Rightarrow> bool) \<Rightarrow> jstr
    \<Rightarrow> jstr list \<Rightarrow> bool \<Rightarrow> nat \<Rightarrow> FilterHit list \<times> nat" where
  "filter_run r nfc lower joins query paths d limit =
     (case search r nfc lower query (map (prepare_label nfc lower joins) paths) limit True of
        (hits, n) \<Rightarrow>
          (map (\<lambda>h. let p = paths ! hindex h; cut = length (upto_last 47 p)
                in \<lparr>hpath = p, hname = drop cut p, hdir = d,
                    ranges = map (\<lambda>(a, b). (int a - int cut, int b - int cut)) (hranges h)\<rparr>) hits, n))"

definition filterTree :: "(nat \<Rightarrow> nat \<Rightarrow> score) \<Rightarrow> (jstr \<Rightarrow> jstr) \<Rightarrow> (jstr \<Rightarrow> jstr) \<Rightarrow> (jstr \<Rightarrow> bool) \<Rightarrow> jstr
    \<Rightarrow> jstr list \<Rightarrow> jstr list \<Rightarrow> FilterResult" where
  "filterTree r nfc lower joins query dirs fs =
     (case (filter_run r nfc lower joins query dirs True FILTER_FOLDERS,
            filter_run r nfc lower joins query (filter (\<lambda>p. parseConflict p = None) fs) False FILTER_FILES) of
        ((dl, dn), (fl, fn)) \<Rightarrow> \<lparr>folders = dl, filter_files = fl, folderCount = dn, fileCount = fn\<rparr>)"

definition parentOf :: "jstr \<Rightarrow> jstr" where
  "parentOf p = upto_last 47 p"

subsection \<open>What a capped level keeps\<close>

lemma picked_subset: "picked op plain \<subseteq> {0 ..< length plain}"
proof -
  have "set (by_recent op plain) \<subseteq> set (zip [0 ..< length plain] plain)" by (simp add: by_recent_def)
  then show ?thesis unfolding picked_def Let_def
    by (fastforce dest: in_set_takeD in_set_dropD set_zip_leftD)
qed


lemma by_recent_perm:
  "mset (by_recent op plain) = mset (zip [0 ..< length plain] plain)" "distinct (map fst (by_recent op plain))"
proof -
  show m: "mset (by_recent op plain) = mset (zip [0 ..< length plain] plain)" by (simp add: by_recent_def)
  then have "mset (map fst (by_recent op plain)) = mset (map fst (zip [0 ..< length plain] plain))"
    by (simp only: mset_map)
  then show "distinct (map fst (by_recent op plain))"
    by (metis distinct_upt map_fst_zip length_upt diff_zero mset_eq_imp_distinct_iff)
qed

lemma by_recent_nth: "(i, n) \<in> set (by_recent op plain) \<longleftrightarrow> i < length plain \<and> n = plain ! i"
proof -
  have "set (by_recent op plain) = set (zip [0 ..< length plain] plain)"
    using by_recent_perm(1) by (rule mset_eq_setD)
  moreover have "(i, n) \<in> set (zip [0 ..< length plain] plain) \<longleftrightarrow> i < length plain \<and> n = plain ! i"
    unfolding in_set_zip by (metis add_0 diff_zero fst_conv length_upt nth_upt snd_conv)
  ultimately show ?thesis by simp
qed

lemma length_capped: "length (capped op plain) = card (picked op plain)"
proof -
  have "filter (\<lambda>i. i \<in> picked op plain) [0 ..< length plain] =
      map fst (filter ((\<lambda>i. i \<in> picked op plain) \<circ> fst) (zip [0 ..< length plain] plain))"
    by (metis filter_map map_fst_zip length_upt diff_zero)
  then have "length (capped op plain) = length (filter (\<lambda>i. i \<in> picked op plain) [0 ..< length plain])"
    by (simp add: capped_def comp_def case_prod_beta')
  also have "\<dots> = card (set (filter (\<lambda>i. i \<in> picked op plain) [0 ..< length plain]))"
    by (subst distinct_card) simp_all
  also have "set (filter (\<lambda>i. i \<in> picked op plain) [0 ..< length plain]) = picked op plain"
    using picked_subset [of op plain] by auto
  finally show ?thesis .
qed

text \<open>Shown and hidden add up; what is on the way to the selected path is never hidden; and nothing
  hidden is newer than a shown child that is not on that way.\<close>

lemma capped_hidden: "length (capped op plain) + hidden op plain = length plain"
proof -
  let ?br = "by_recent op plain" and ?on = "\<lambda>(i :: nat, c). onKeepPath op (npath c)"
  let ?sel = "take (cap op) ?br @ filter ?on (drop (cap op) ?br)"
  have "set (map fst (take (cap op) ?br)) \<inter> set (map fst (drop (cap op) ?br)) = {}"
    and d: "distinct (map fst (take (cap op) ?br))" "distinct (map fst (drop (cap op) ?br))"
    using by_recent_perm(2) [of op plain] append_take_drop_id [of "cap op" ?br]
    by (metis distinct_append map_append)+
  then have "distinct (map fst ?sel)" by (auto simp: distinct_map inj_on_filter_key_eq intro: inj_on_subset)
  then have "card (picked op plain) = length (take (cap op) ?br) + length (filter ?on (drop (cap op) ?br))"
    unfolding picked_def Let_def by (subst distinct_card) simp_all
  moreover have "length (filter ?on (drop (cap op) ?br)) \<le> length ?br - cap op"
    using length_filter_le [of ?on "drop (cap op) ?br"] by simp
  moreover have "length ?br = length plain" using by_recent_perm(1) by (metis length_map length_zip size_mset length_upt diff_zero min.idem)
  ultimately show ?thesis by (simp add: length_capped hidden_def Let_def)
qed

lemma capped_keep:
  assumes "c \<in> set plain" "onKeepPath op (npath c)"
  shows "c \<in> set (capped op plain)"
proof -
  from assms(1) obtain i where i: "i < length plain" "c = plain ! i" by (metis in_set_conv_nth)
  then have "(i, c) \<in> set (by_recent op plain)" by (simp add: by_recent_nth)
  then have "(i, c) \<in> set (take (cap op) (by_recent op plain)) \<or> (i, c) \<in> set (drop (cap op) (by_recent op plain))"
    by (metis Un_iff append_take_drop_id set_append)
  with assms(2) have "i \<in> picked op plain" unfolding picked_def Let_def by force
  with i show ?thesis unfolding capped_def by (force simp: set_zip)
qed

lemma capped_recent:
  assumes "i < length plain" "i \<notin> picked op plain" "j \<in> picked op plain" "\<not> onKeepPath op (npath (plain ! j))"
  shows "latest_of op (plain ! i) \<le> latest_of op (plain ! j)"
proof -
  let ?br = "by_recent op plain"
  from assms(3,4) have j: "(j, plain ! j) \<in> set (take (cap op) ?br)"
  proof -
    from assms(3) have "\<exists>n. (j, n) \<in> set (take (cap op) ?br) \<or>
        (j, n) \<in> set (drop (cap op) ?br) \<and> onKeepPath op (npath n)"
      unfolding picked_def Let_def by fastforce
    then obtain n where n: "(j, n) \<in> set (take (cap op) ?br) \<or>
        (j, n) \<in> set (drop (cap op) ?br) \<and> onKeepPath op (npath n)" ..
    then have "n = plain ! j" using by_recent_nth [of j n op plain] in_set_takeD in_set_dropD by fast
    with n assms(4) show ?thesis by simp
  qed
  from assms(1) have "(i, plain ! i) \<in> set ?br" by (simp add: by_recent_nth)
  then have "(i, plain ! i) \<in> set (take (cap op) ?br) \<or> (i, plain ! i) \<in> set (drop (cap op) ?br)"
    by (metis Un_iff append_take_drop_id set_append)
  moreover have "i \<in> picked op plain" if "(i, plain ! i) \<in> set (take (cap op) ?br)"
    using that unfolding picked_def Let_def by force
  ultimately have i: "(i, plain ! i) \<in> set (drop (cap op) ?br)" using assms(2) by blast
  let ?f = "\<lambda>(i :: nat, n). - latest_of op n"
  have "sorted (map ?f ?br)" by (simp add: by_recent_def)
  then have "sorted (map ?f (take (cap op) ?br) @ map ?f (drop (cap op) ?br))"
    by (metis append_take_drop_id map_append)
  then have "\<forall>x \<in> ?f ` set (take (cap op) ?br). \<forall>y \<in> ?f ` set (drop (cap op) ?br). x \<le> y"
    unfolding sorted_append set_map by blast
  from bspec [OF bspec [OF this imageI [OF j]] imageI [OF i]] show ?thesis by simp
qed

subsection \<open>The selected path is reachable\<close>

fun chain :: "Node \<Rightarrow> Node list \<Rightarrow> bool" where
  "chain p [] = True"
| "chain p (c # cs) = (c \<in> set (nchildren p) \<and> chain c cs)"

lemma level_child:
  assumes "c \<in> set (kids op p)" "onKeepPath op (npath c)"
  shows "\<exists>d. set (node_row op c d # (if ndir c \<and> npath c \<in> expanded op then level op c (Suc d) else []))
    \<subseteq> set (level op p depth)"
proof (cases "isSystemName (nname c)")
  case True
  with assms have "c \<in> set (system_kids op p)" by (simp add: system_kids_def)
  moreover from this assms(2) have "system_open op p" "system_kids op p \<noteq> []" by (auto simp: system_open_def)
  ultimately show ?thesis
    by (intro exI [of _ "depth + 1"]) (subst (2) level.simps, auto)
next
  case False
  with assms(1) have "c \<in> set (plain_kids op p)" by (simp add: plain_kids_def Let_def)
  then have "c \<in> set (level_nodes op p depth)" using capped_keep assms(2) by (simp add: level_nodes_def)
  then show ?thesis by (intro exI [of _ depth]) (subst (2) level.simps, auto)
qed

lemma level_reaches:
  assumes "chain p cs" "cs \<noteq> []" "\<forall>c \<in> set cs. onKeepPath op (npath c) \<and> \<not> isFoldedCopy (npath c) (stats op)"
    "\<forall>c \<in> set (butlast cs). ndir c \<and> npath c \<in> expanded op"
  shows "\<exists>d. node_row op (last cs) d \<in> set (level op p depth)"
  using assms
proof (induction cs arbitrary: p depth)
  case (Cons c cs)
  then have k: "c \<in> set (kids op p)" "onKeepPath op (npath c)" by (simp_all add: kids_def)
  from level_child [OF k] obtain d where d: "set (node_row op c d #
      (if ndir c \<and> npath c \<in> expanded op then level op c (Suc d) else [])) \<subseteq> set (level op p depth)" by blast
  show ?case
  proof (cases "cs = []")
    case True
    with d show ?thesis by auto
  next
    case False
    with Cons.prems Cons.IH [of c "Suc d"] obtain e where "node_row op (last cs) e \<in> set (level op c (Suc d))" by auto
    with d False Cons.prems(4) show ?thesis by (auto simp: subset_iff)
  qed
qed simp

text \<open>The selected path is always reachable: when every folder above it is expanded and neither it
  nor a folder above is a folded conflict copy, its row is among the rows built, whatever the cap, the
  order, the age of its siblings and the state of the "System files" groups.\<close>

theorem tree_keep_reachable:
  assumes "chain root cs" "cs \<noteq> []" "\<forall>c \<in> set cs. onKeepPath op (npath c) \<and> \<not> isFoldedCopy (npath c) (stats op)"
    "\<forall>c \<in> set (butlast cs). ndir c \<and> npath c \<in> expanded op"
  shows "\<exists>d. node_row op (last cs) d \<in> set (buildRows op (Some root))"
  using level_reaches [OF assms] by (simp add: buildRows_def)

subsection \<open>Conflict copies\<close>

fun file_paths :: "Node \<Rightarrow> jstr list" and kid_paths :: "Node list \<Rightarrow> jstr list" where
  "file_paths (Node nm p d tm cs) = kid_paths cs"
| "kid_paths [] = []"
| "kid_paths (c # cs) = (if ndir c then file_paths c else [npath c]) @ kid_paths cs"

lemma walk_files:
  "files (snd (walk pd since n w)) = files w \<union> set (file_paths n)
     \<and> copies (snd (walk pd since n w)) = copies w @ filter (\<lambda>p. parseConflict p \<noteq> None) (file_paths n)"
  "files (snd (walk_kids pd since cs fl w)) = files w \<union> set (kid_paths cs)
     \<and> copies (snd (walk_kids pd since cs fl w)) = copies w @ filter (\<lambda>p. parseConflict p \<noteq> None) (kid_paths cs)"
proof (induction pd since n w and pd since cs fl w rule: walk_walk_kids.induct)
  case (1 pd since nm p d tm cs w)
  obtain f l w' where w: "walk_kids pd since cs (0, 0) w = ((f, l), w')" by (metis prod.collapse)
  with 1 show ?case by simp
next
  case (3 pd since c cs f l w)
  show ?case
  proof (cases "ndir c")
    case True
    obtain cf cl w' where w: "walk pd since c w = ((cf, cl), w')" by (metis prod.collapse)
    from 3(1) [OF True] w have c: "files w' = files w \<union> set (file_paths c)"
      "copies w' = copies w @ filter (\<lambda>p. parseConflict p \<noteq> None) (file_paths c)" by simp_all
    from 3(2) [OF True w [symmetric] refl] have
      "files (snd (walk_kids pd since cs (f + cf, max l cl) w')) = files w' \<union> set (kid_paths cs)"
      "copies (snd (walk_kids pd since cs (f + cf, max l cl) w')) = copies w' @ filter (\<lambda>p. parseConflict p \<noteq> None) (kid_paths cs)"
      by simp_all
    with c w True show ?thesis by (simp add: Un_assoc)
  next
    case False
    from 3(3) [OF False refl] False show ?thesis by (auto simp: visit_file_def Let_def)
  qed
qed simp

lemma count_copies:
  "foldl (count_copy fs) Map.empty ps q =
     (let k = length (filter (\<lambda>p. original (the (parseConflict p)) = q) ps)
      in if q \<in> fs \<and> k > 0 then Some k else None)"
  by (induction ps rule: rev_induct) (auto simp: count_copy_def map_or_def Let_def)

text \<open>The badge of a file counts exactly the conflict copies of it in the tree, only files of the tree
  carry one, and a copy is folded away only when its original is there to carry the badge.\<close>

theorem tree_conflicts:
  "conflicts (treeStats pd (Some root) since) q =
     (let k = length (filter (\<lambda>p. \<exists>c. parseConflict p = Some c \<and> original c = q) (file_paths root))
      in if q \<in> set (file_paths root) \<and> k > 0 then Some k else None)
   \<and> (isFoldedCopy p (treeStats pd (Some root) since) \<longrightarrow>
        (\<exists>c. parseConflict p = Some c \<and> original c \<in> set (file_paths root)))"
proof -
  let ?w = "snd (walk pd since root \<lparr>wfresh = Map.empty, wlatest = Map.empty, files = {}, copies = []\<rparr>)"
  have w: "files ?w = set (file_paths root)" "copies ?w = filter (\<lambda>p. parseConflict p \<noteq> None) (file_paths root)"
    by (simp_all add: walk_files)
  have f: "filter (\<lambda>p. original (the (parseConflict p)) = q) (filter (\<lambda>p. parseConflict p \<noteq> None) ps) =
      filter (\<lambda>p. \<exists>c. parseConflict p = Some c \<and> original c = q) ps" for ps q
    by (auto intro!: filter_cong)
  have c: "conflicts (treeStats pd (Some root) since) q =
     (let k = length (filter (\<lambda>p. \<exists>c. parseConflict p = Some c \<and> original c = q) (file_paths root))
      in if q \<in> set (file_paths root) \<and> k > 0 then Some k else None)" for q
  proof -
    have "conflicts (treeStats pd (Some root) since) = foldl (count_copy (files ?w)) Map.empty (copies ?w)"
      by (simp add: treeStats_def Let_def)
    then show ?thesis unfolding count_copies w f by simp
  qed
  moreover have "isFoldedCopy p (treeStats pd (Some root) since) \<longrightarrow>
        (\<exists>c. parseConflict p = Some c \<and> original c \<in> set (file_paths root))"
    by (auto simp: isFoldedCopy_def c Let_def split: option.splits if_splits)
  ultimately show ?thesis by blast
qed


definition w_file :: "string \<Rightarrow> Node" where
  "w_file s = Node (js s) (js (''d/'' @ s)) False None []"

definition w_tree :: Node where
  "w_tree = Node [] [] True None [Node (js ''d'') (js ''d'') True None [w_file ''a'', w_file ''b'', w_file ''c'']]"

definition w_opts :: RowOpts where
  "w_opts = \<lparr>expanded = {js ''d''}, showAll = {}, stats = treeStats (\<lambda>_. None) (Some w_tree) 0, keep = js ''d/c'', cap = 1, recent = True\<rparr>"

lemma tree_keep_reachable_witness:
  "\<exists>d. node_row w_opts (w_file ''c'') d \<in> set (buildRows w_opts (Some w_tree))"
proof -
  have "\<exists>d. node_row w_opts (last [Node (js ''d'') (js ''d'') True None [w_file ''a'', w_file ''b'', w_file ''c''], w_file ''c'']) d
      \<in> set (buildRows w_opts (Some w_tree))"
  proof (rule tree_keep_reachable)
    show "chain w_tree [Node (js ''d'') (js ''d'') True None [w_file ''a'', w_file ''b'', w_file ''c''], w_file ''c'']"
      by (simp add: w_tree_def)
    show "\<forall>c \<in> set [Node (js ''d'') (js ''d'') True None [w_file ''a'', w_file ''b'', w_file ''c''], w_file ''c''].
        onKeepPath w_opts (npath c) \<and> \<not> isFoldedCopy (npath c) (stats w_opts)"
      by code_simp
  qed (simp_all add: w_opts_def)
  then show ?thesis by simp
qed

lemma tree_conflicts_witness:
  "conflicts (treeStats (\<lambda>_. None) (Some w_tree) 0) (js ''d/a'') = None
   \<and> \<not> isFoldedCopy (js ''d/b'') (treeStats (\<lambda>_. None) (Some w_tree) 0)"
proof -
  note t = tree_conflicts [of "\<lambda>_. None" w_tree 0 "js ''d/a''" "js ''d/b''"]
  have "parseConflict (js ''d/a'') = None" "parseConflict (js ''d/b'') = None" "parseConflict (js ''d/c'') = None"
    by code_simp+
  then have "parseConflict (js ''d/b'') = None" "filter (\<lambda>p. \<exists>c. parseConflict p = Some c \<and> original c = js ''d/a'') (file_paths w_tree) = []"
    by (simp_all add: w_tree_def w_file_def)
  with t show ?thesis by simp
qed

end
