(* ===== verification/Http.thy ===== *)
theory Http
  imports Prelude Uri
begin

section \<open>Fetch helpers (api/http.ts)\<close>

text \<open>
  Every request of the app goes through these helpers. The server is an argument: a function from
  the request to its answer, \<open>None\<close> when the fetch itself fails. What a helper does to the browser
  is a state: the login marker in the session storage (which may be unavailable), the clock, the
  address, the page loads it caused and the product events it sent. Every throw is an outcome.
\<close>

record 'j Response =
  status :: nat
  body :: jstr
  json :: "'j option"

record Request =
  rmethod :: jstr
  rurl :: jstr
  headers :: "(jstr \<times> jstr) list"
  rbody :: "jstr option"

record Browser =
  storage :: bool
  bounce :: "jstr option"
  now :: int
  location :: jstr
  loads :: "(int \<times> jstr) list"
  events :: "jstr list"

datatype 'a Outcome = Ok 'a | HttpError nat jstr jstr | SigningIn | NetworkError | BadJson | UriError

definition r_ok :: "'j Response \<Rightarrow> bool" where
  "r_ok r \<longleftrightarrow> 200 \<le> status r \<and> status r < 300"

subsection \<open>Product events\<close>

text \<open>What follows one path segment after a literal: \<open>/^PRE[^\/]+\<dots>/\<close>.\<close>

definition seg_after :: "jstr \<Rightarrow> jstr \<Rightarrow> jstr option" where
  "seg_after pre key =
     (if starts_with key pre then
        (let rest = drop (length pre) key
         in if takeWhile (\<lambda>u. u \<noteq> 47) rest = [] then None else Some (dropWhile (\<lambda>u. u \<noteq> 47) rest))
      else None)"

definition line_end :: "nat \<Rightarrow> bool" where
  "line_end u \<longleftrightarrow> u = 10 \<or> u = 13 \<or> u = 8232 \<or> u = 8233"

definition then_char :: "jstr \<Rightarrow> jstr option \<Rightarrow> bool" where
  "then_char lit rest =
     (case rest of None \<Rightarrow> False
      | Some s \<Rightarrow> starts_with s lit \<and> (case drop (length lit) s of [] \<Rightarrow> False | u # _ \<Rightarrow> \<not> line_end u))"

definition PRODUCT_EVENTS :: "((jstr \<Rightarrow> bool) \<times> jstr) list" where
  "PRODUCT_EVENTS =
    [(\<lambda>k. k = js ''POST /api/projects'', js ''project_created''),
     (\<lambda>k. starts_with k (js ''DELETE /api/projects/''), js ''project_deleted''),
     (\<lambda>k. seg_after (js ''POST /api/p/'') k = Some (js ''/restore''), js ''file_restored''),
     (\<lambda>k. starts_with k (js ''DELETE /api/shares/''), js ''share_revoked''),
     (\<lambda>k. starts_with k (js ''PATCH /api/shares/''), js ''share_expiry_changed''),
     (\<lambda>k. seg_after (js ''POST /api/orgs/'') k = Some (js ''/invites''), js ''invite_created''),
     (\<lambda>k. case seg_after (js ''DELETE /api/orgs/'') k of None \<Rightarrow> False | Some s \<Rightarrow> starts_with s (js ''/invites/''), js ''invite_revoked''),
     (\<lambda>k. starts_with k (js ''POST /api/invites/''), js ''invite_accepted''),
     (\<lambda>k. then_char (js ''/permissions/'') (seg_after (js ''PUT /api/p/'') k), js ''project_access_granted''),
     (\<lambda>k. then_char (js ''/permissions/'') (seg_after (js ''DELETE /api/p/'') k), js ''project_access_revoked''),
     (\<lambda>k. seg_after (js ''POST /api/p/'') k = Some (js ''/comments''), js ''comment_created''),
     (\<lambda>k. case seg_after (js ''POST /api/p/'') k of None \<Rightarrow> False | Some s \<Rightarrow> seg_after (js ''/comments/'') s = Some [], js ''comment_updated''),
     (\<lambda>k. case seg_after (js ''DELETE /api/p/'') k of None \<Rightarrow> False | Some s \<Rightarrow> seg_after (js ''/comments/'') s = Some [], js ''comment_deleted'')]"

definition trackWrite :: "jstr \<Rightarrow> jstr \<Rightarrow> Browser \<Rightarrow> Browser" where
  "trackWrite meth url b =
     (let k = meth @ js '' '' @ hd (split_on 63 url)
      in case find (\<lambda>(re, _). re k) PRODUCT_EVENTS of
           None \<Rightarrow> b
         | Some (_, ev) \<Rightarrow> b\<lparr>events := events b @ [ev]\<rparr>)"

subsection \<open>The login bounce\<close>

definition BOUNCE_WINDOW_MS :: int where
  "BOUNCE_WINDOW_MS = 30000"

text \<open>\<open>Number\<close> of the marker: only this code writes it, always the decimal of a clock value; any
  other text counts as not a number, which is falsy like 0.\<close>

definition marker :: "jstr option \<Rightarrow> int" where
  "marker m = (case m of None \<Rightarrow> 0 | Some s \<Rightarrow> if s \<noteq> [] \<and> list_all is_digit s then int (digits_val s) else 0)"

definition rejected_twice :: jstr where
  "rejected_twice = js ''The server rejected your session, and signing in again did not help. ''
     @ js ''It is probably having a bad moment '' @ [8212] @ js '' wait a few seconds and reload.''"

definition toLogin :: "Browser \<Rightarrow> Browser \<times> 'a Outcome" where
  "toLogin b =
     (let bounced = (if storage b then marker (bounce b) else 0)
      in if bounced \<noteq> 0 \<and> now b - bounced < BOUNCE_WINDOW_MS then (b, HttpError 401 rejected_twice [])
         else let b' = (if storage b then b\<lparr>bounce := Some (nat_str (nat (now b)))\<rparr> else b)
              in (case encodeURIComponent (location b) of
                    None \<Rightarrow> (b', UriError)
                  | Some q \<Rightarrow> (b'\<lparr>loads := loads b' @ [(now b, js ''/auth/login?next='' @ q)]\<rparr>, SigningIn)))"

subsection \<open>Errors\<close>

definition capitalized :: "(jstr \<Rightarrow> jstr) \<Rightarrow> jstr \<Rightarrow> jstr" where
  "capitalized upper raw = upper (take 1 raw) @ drop 1 raw"

definition errorFor :: "(jstr \<Rightarrow> jstr) \<Rightarrow> nat \<Rightarrow> jstr \<Rightarrow> jstr" where
  "errorFor upper st bd =
     (let raw = trim bd
      in if st = 403 then
           (if includes_str raw (js ''seat'') then js ''This plan is out of seats. Upgrade to add more people.''
            else if includes_str raw (js ''owner'') then js ''Only owners can do that.''
            else js ''You don'' @ [39] @ js ''t have access to that.'')
         else if st = 409 then (if raw \<noteq> [] then capitalized upper raw else js ''That is managed outside this hub.'')
         else if st = 404 then js ''That is gone '' @ [8212] @ js '' it may have been removed already.''
         else if st = 413 then js ''This project is over its plan limit.''
         else if st = 429 then js ''Too many requests. Give it a moment.''
         else if st \<ge> 500 then js ''The server had a problem. Try again.''
         else if raw \<noteq> [] then capitalized upper raw else js ''Something went wrong.'')"

definition fail :: "(jstr \<Rightarrow> jstr) \<Rightarrow> 'j Response \<Rightarrow> 'a Outcome" where
  "fail upper r = HttpError (status r) (errorFor upper (status r) (body r)) (body r)"

definition json_of :: "'j Response \<Rightarrow> 'j Outcome" where
  "json_of r = (case json r of None \<Rightarrow> BadJson | Some j \<Rightarrow> Ok j)"

subsection \<open>The helpers\<close>

type_synonym 'j server = "Request \<Rightarrow> 'j Response option"

text \<open>The common tail: a 401 goes to the login page, any other refusal fails with its words, and
  \<open>go\<close> continues with an answer that is fine.\<close>

definition checked :: "(jstr \<Rightarrow> jstr) \<Rightarrow> 'j Response option \<Rightarrow> Browser \<Rightarrow> ('j Response \<Rightarrow> Browser \<times> 'a Outcome) \<Rightarrow> Browser \<times> 'a Outcome" where
  "checked upper ans b go =
     (case ans of
        None \<Rightarrow> (b, NetworkError)
      | Some r \<Rightarrow> if status r = 401 then toLogin b else if \<not> r_ok r then (b, fail upper r) else go r)"

definition getJSON :: "(jstr \<Rightarrow> jstr) \<Rightarrow> 'j server \<Rightarrow> jstr \<Rightarrow> Browser \<Rightarrow> Browser \<times> 'j Outcome" where
  "getJSON upper srv url b =
     checked upper (srv \<lparr>rmethod = js ''GET'', rurl = url, headers = [(js ''Accept'', js ''application/json'')], rbody = None\<rparr>) b
       (\<lambda>r. (b, json_of r))"

definition getResponse :: "(jstr \<Rightarrow> jstr) \<Rightarrow> 'j server \<Rightarrow> jstr \<Rightarrow> Browser \<Rightarrow> Browser \<times> 'j Response Outcome" where
  "getResponse upper srv url b =
     checked upper (srv \<lparr>rmethod = js ''GET'', rurl = url, headers = [], rbody = None\<rparr>) b (\<lambda>r. (b, Ok r))"

definition json_header :: "jstr \<times> jstr" where
  "json_header = (js ''Content-Type'', js ''application/json'')"

text \<open>\<open>api\<close>: no 401 handling; the answer 204 is the empty object. Bodies are the JSON texts.\<close>

definition api :: "(jstr \<Rightarrow> jstr) \<Rightarrow> 'j server \<Rightarrow> 'j \<Rightarrow> jstr \<Rightarrow> jstr \<Rightarrow> jstr option \<Rightarrow> Browser \<Rightarrow> Browser \<times> 'j Outcome" where
  "api upper srv empty_obj meth url bd b =
     (case srv \<lparr>rmethod = meth, rurl = url, headers = (if bd = None then [] else [json_header]), rbody = bd\<rparr> of
        None \<Rightarrow> (b, NetworkError)
      | Some r \<Rightarrow>
          if \<not> r_ok r then (b, fail upper r)
          else (trackWrite meth url b, if status r = 204 then Ok empty_obj else json_of r))"

definition desktopPost :: "'j server \<Rightarrow> jstr \<Rightarrow> jstr option \<Rightarrow> Browser \<Rightarrow> Browser \<times> 'j Response Outcome" where
  "desktopPost srv url bd b =
     (case srv \<lparr>rmethod = js ''POST'', rurl = url, headers = [(js ''X-Bdrive-Desktop'', js ''1''), json_header], rbody = bd\<rparr> of
        None \<Rightarrow> (b, NetworkError)
      | Some r \<Rightarrow> (if r_ok r then trackWrite (js ''POST'') url b else b, Ok r))"

definition postJSON :: "(jstr \<Rightarrow> jstr) \<Rightarrow> 'j server \<Rightarrow> jstr \<Rightarrow> jstr option \<Rightarrow> Browser \<Rightarrow> Browser \<times> 'j Outcome" where
  "postJSON upper srv url bd b =
     checked upper (srv \<lparr>rmethod = js ''POST'', rurl = url, headers = [json_header], rbody = Some (case bd of None \<Rightarrow> js ''{}'' | Some t \<Rightarrow> t)\<rparr>) b
       (\<lambda>r. (trackWrite (js ''POST'') url b, json_of r))"

definition put_headers :: "jstr option \<Rightarrow> bool \<Rightarrow> (jstr \<times> jstr) list" where
  "put_headers base confirmShrink =
     [(js ''Content-Type'', js ''text/plain; charset=utf-8'')]
     @ (if truthy base then [(js ''If-Match'', the base)] else [])
     @ (if confirmShrink then [(js ''X-Bdrive-Confirm-Shrink'', js ''1'')] else [])"

definition putText :: "(jstr \<Rightarrow> jstr) \<Rightarrow> 'j server \<Rightarrow> 'j \<Rightarrow> jstr \<Rightarrow> jstr \<Rightarrow> jstr option \<Rightarrow> bool \<Rightarrow> Browser \<Rightarrow> Browser \<times> 'j Outcome" where
  "putText upper srv empty_obj url t base confirmShrink b =
     checked upper (srv \<lparr>rmethod = js ''PUT'', rurl = url, headers = put_headers base confirmShrink, rbody = Some t\<rparr>) b
       (\<lambda>r. (trackWrite (js ''PUT'') url b, Ok (case json r of None \<Rightarrow> empty_obj | Some j \<Rightarrow> j)))"

subsection \<open>A session of requests\<close>

datatype Call =
    GetJSON jstr | GetResponse jstr | Api jstr jstr "jstr option" | Desktop jstr "jstr option"
  | PostJSON jstr "jstr option" | PutText jstr jstr "jstr option" bool

fun call :: "(jstr \<Rightarrow> jstr) \<Rightarrow> 'j server \<Rightarrow> 'j \<Rightarrow> Call \<Rightarrow> Browser \<Rightarrow> Browser" where
  "call upper srv e (GetJSON u) b = fst (getJSON upper srv u b)"
| "call upper srv e (GetResponse u) b = fst (getResponse upper srv u b)"
| "call upper srv e (Api m u bd) b = fst (api upper srv e m u bd b)"
| "call upper srv e (Desktop u bd) b = fst (desktopPost srv u bd b)"
| "call upper srv e (PostJSON u bd) b = fst (postJSON upper srv u bd b)"
| "call upper srv e (PutText u t base cs) b = fst (putText upper srv e u t base cs b)"

text \<open>Calls at given times, each to a server of its own: the answers of every call are arbitrary, and a
  page load in between keeps the session storage.\<close>

fun session :: "(jstr \<Rightarrow> jstr) \<Rightarrow> 'j \<Rightarrow> (int \<times> 'j server \<times> Call) list \<Rightarrow> Browser \<Rightarrow> Browser" where
  "session upper e [] b = b"
| "session upper e ((t, srv, c) # cs) b = session upper e cs (call upper srv e c (b\<lparr>now := t\<rparr>))"

lemma trackWrite_keeps [simp]:
  "loads (trackWrite m u b) = loads b" "bounce (trackWrite m u b) = bounce b" "storage (trackWrite m u b) = storage b"
  by (simp_all add: trackWrite_def Let_def split: option.splits)

lemma marker_written: "t > 0 \<Longrightarrow> marker (Some (nat_str (nat t))) = t"
  using nat_str_digits [of "nat t"] by (simp add: marker_def list_all_iff)

lemma toLogin_cases:
  assumes "storage b" "now b > 0"
  shows "(loads (fst (toLogin b)) = loads b \<and> bounce (fst (toLogin b)) = bounce b)
     \<or> (marker (bounce b) = 0 \<or> BOUNCE_WINDOW_MS \<le> now b - marker (bounce b))
       \<and> (loads (fst (toLogin b)) = loads b \<or> (\<exists>u. loads (fst (toLogin b)) = loads b @ [(now b, u)])) \<and> marker (bounce (fst (toLogin b))) = now b"
  using assms marker_written [of "now b"] by (auto simp: toLogin_def Let_def split: option.splits)

lemma toLogin_storage [simp]: "storage (fst (toLogin b)) = storage b"
  by (auto simp: toLogin_def Let_def split: option.splits)

lemma call_cases:
  "loads (call upper srv e c b) = loads b \<and> bounce (call upper srv e c b) = bounce b
     \<or> loads (call upper srv e c b) = loads (fst (toLogin b :: Browser \<times> 'z Outcome))
       \<and> bounce (call upper srv e c b) = bounce (fst (toLogin b :: Browser \<times> 'z Outcome))"
  "storage (call upper srv e c b) = storage b"
  by (cases c; auto simp: getJSON_def getResponse_def api_def desktopPost_def postJSON_def putText_def
      checked_def toLogin_def Let_def split: option.splits if_splits)+

text \<open>The marker is not before the last page load, and page loads are a window apart.\<close>

definition apart :: "Browser \<Rightarrow> bool" where
  "apart b \<longleftrightarrow> sorted_wrt (\<lambda>x y. BOUNCE_WINDOW_MS \<le> fst y - fst x) (loads b)
     \<and> (loads b \<noteq> [] \<longrightarrow> fst (last (loads b)) \<le> marker (bounce b) \<and> 0 < marker (bounce b))"

lemma apart_snoc:
  assumes "sorted_wrt (\<lambda>x y. BOUNCE_WINDOW_MS \<le> fst y - fst x) xs" "xs = [] \<or> BOUNCE_WINDOW_MS \<le> t - fst (last xs)"
  shows "sorted_wrt (\<lambda>x y. BOUNCE_WINDOW_MS \<le> fst y - fst x) (xs @ [(t, u)])"
proof (cases xs rule: rev_cases)
  case (snoc ys y)
  with assms show ?thesis by (force simp: sorted_wrt_append BOUNCE_WINDOW_MS_def)
qed simp

lemma call_apart:
  assumes "apart b" "storage b" "now b > 0"
  shows "apart (call upper srv e c b)"
proof -
  have "apart b'" if "loads b' = loads b" "bounce b' = bounce b" for b'
    using assms(1) unfolding apart_def that .
  moreover have "apart b'" if "loads b' = loads b" "marker (bounce b') = now b"
    "marker (bounce b) = 0 \<or> BOUNCE_WINDOW_MS \<le> now b - marker (bounce b)" for b'
    using assms that by (auto simp: apart_def BOUNCE_WINDOW_MS_def)
  moreover have "apart b'" if "loads b' = loads b @ [(now b, u)]" "marker (bounce b') = now b"
    "marker (bounce b) = 0 \<or> BOUNCE_WINDOW_MS \<le> now b - marker (bounce b)" for b' u
    using assms that apart_snoc [of "loads b" "now b" u] by (auto simp: apart_def BOUNCE_WINDOW_MS_def)
  ultimately show ?thesis
    using call_cases(1) [of upper srv e c b] toLogin_cases [OF assms(2,3)] by metis
qed

text \<open>The calls the server rejects, of the helpers that go to the login page.\<close>

fun rejected :: "'j server \<Rightarrow> Call \<Rightarrow> bool" where
  "rejected srv (Api m u bd) = False"
| "rejected srv (Desktop u bd) = False"
| "rejected srv (GetJSON u) =
     (map_option status (srv \<lparr>rmethod = js ''GET'', rurl = u, headers = [(js ''Accept'', js ''application/json'')], rbody = None\<rparr>) = Some 401)"
| "rejected srv (GetResponse u) =
     (map_option status (srv \<lparr>rmethod = js ''GET'', rurl = u, headers = [], rbody = None\<rparr>) = Some 401)"
| "rejected srv (PostJSON u bd) =
     (map_option status (srv \<lparr>rmethod = js ''POST'', rurl = u, headers = [json_header],
        rbody = Some (case bd of None \<Rightarrow> js ''{}'' | Some t \<Rightarrow> t)\<rparr>) = Some 401)"
| "rejected srv (PutText u t base cs) =
     (map_option status (srv \<lparr>rmethod = js ''PUT'', rurl = u, headers = put_headers base cs, rbody = Some t\<rparr>) = Some 401)"

definition recent_bounce :: "Browser \<Rightarrow> bool" where
  "recent_bounce b \<longleftrightarrow> storage b \<and> marker (bounce b) \<noteq> 0 \<and> now b - marker (bounce b) < BOUNCE_WINDOW_MS"

lemma toLogin_loads:
  assumes "encodeURIComponent (location b) = Some q"
  shows "loads (fst (toLogin b)) = loads b @ (if recent_bounce b then [] else [(now b, js ''/auth/login?next='' @ q)])"
  using assms by (auto simp: toLogin_def recent_bounce_def Let_def)

lemma checked_loads:
  assumes "encodeURIComponent (location b) = Some q" "\<And>r. loads (fst (go r)) = loads b"
  shows "loads (fst (checked upper ans b go)) = loads b @
     (if map_option status ans = Some 401 \<and> \<not> recent_bounce b then [(now b, js ''/auth/login?next='' @ q)] else [])"
  using assms(2) by (cases ans) (simp_all add: checked_def toLogin_loads [OF assms(1)])

lemma call_loads:
  assumes "encodeURIComponent (location b) = Some q"
  shows "loads (call upper srv e c b) = loads b @
     (if rejected srv c \<and> \<not> recent_bounce b then [(now b, js ''/auth/login?next='' @ q)] else [])"
  by (cases c) (simp_all add: getJSON_def getResponse_def postJSON_def putText_def checked_loads [OF assms]
      api_def desktopPost_def split: option.splits)

lemma toLogin_location [simp]: "location (fst (toLogin b)) = location b"
  by (auto simp: toLogin_def Let_def split: option.splits)

lemma trackWrite_location [simp]: "location (trackWrite m u b) = location b"
  by (simp add: trackWrite_def Let_def split: option.splits)

lemma call_location: "location (call upper srv e c b) = location b"
  by (cases c) (auto simp: getJSON_def getResponse_def api_def desktopPost_def postJSON_def putText_def checked_def split: option.splits)

lemma session_keeps: "storage (session upper e cs b) = storage b" "location (session upper e cs b) = location b"
  by (induction cs arbitrary: b) (auto simp: call_cases(2) call_location)

lemma session_apart:
  assumes "apart b" "storage b" "list_all (\<lambda>(t, srv, c). t > 0) cs"
  shows "apart (session upper e cs b)"
  using assms
proof (induction cs arbitrary: b)
  case (Cons tc cs)
  obtain t srv c where tc: "tc = (t, srv, c)" by (cases tc)
  let ?b = "b\<lparr>now := t\<rparr>"
  have b: "apart ?b" "storage ?b" "now ?b > 0" using Cons.prems tc by (auto simp: apart_def)
  then have "apart (call upper srv e c ?b)" "storage (call upper srv e c ?b)"
    by (auto intro!: call_apart simp: call_cases(2))
  from Cons.IH [OF this] Cons.prems(3) tc show ?case by simp
qed simp

text \<open>Without the storage nothing remembers a page load, and every rejection makes another.\<close>

lemma session_unguarded:
  assumes "\<not> storage b" "encodeURIComponent (location b) = Some q"
  shows "loads (session upper e cs b) = loads b
    @ map (\<lambda>(t, srv, c). (t, js ''/auth/login?next='' @ q)) (filter (\<lambda>(t, srv, c). rejected srv c) cs)"
  using assms
proof (induction cs arbitrary: b)
  case (Cons tc cs)
  obtain t srv c where tc: "tc = (t, srv, c)" by (cases tc)
  let ?b = "call upper srv e c (b\<lparr>now := t\<rparr>)"
  have "\<not> storage ?b" "encodeURIComponent (location ?b) = Some q"
    using Cons.prems by (simp_all add: call_cases(2) call_location)
  from Cons.IH [OF this] Cons.prems show ?case
    by (simp add: tc call_loads [where q = q] recent_bounce_def)
qed simp

text \<open>C38: No reload loop, where the session storage can be used. In any sequence of requests that starts
  without a page load, whatever the server answers to each: while the storage can be read and written, two
  page loads to the login page are never less than the window of 30 seconds apart; where it cannot, every
  rejection by the server (a 401 to one of the helpers that go to the login page) makes a page load, as
  the comment of the code says, so the loop is not prevented there. In both cases the next rejected call
  loads the login page, with the address to come back to, unless a load is remembered in the window, and
  no other call does.\<close>

theorem login_loads_apart:
  assumes "loads b = []" "encodeURIComponent (location b) = Some q" "list_all (\<lambda>(t, srv, c). t > 0) cs"
  shows "(if storage b then sorted_wrt (\<lambda>x y. BOUNCE_WINDOW_MS \<le> fst y - fst x) (loads (session upper e cs b))
      else loads (session upper e cs b)
        = map (\<lambda>(t, srv, c). (t, js ''/auth/login?next='' @ q)) (filter (\<lambda>(t, srv, c). rejected srv c) cs))
    \<and> loads (session upper e (cs @ [(t, srv, c)]) b) = loads (session upper e cs b)
        @ (if rejected srv c \<and> \<not> recent_bounce ((session upper e cs b)\<lparr>now := t\<rparr>) then [(t, js ''/auth/login?next='' @ q)] else [])"
proof
  have "apart b" using assms(1) by (simp add: apart_def)
  then show "if storage b then sorted_wrt (\<lambda>x y. BOUNCE_WINDOW_MS \<le> fst y - fst x) (loads (session upper e cs b))
      else loads (session upper e cs b)
        = map (\<lambda>(t, srv, c). (t, js ''/auth/login?next='' @ q)) (filter (\<lambda>(t, srv, c). rejected srv c) cs)"
    using session_apart [of b cs upper e] session_unguarded [of b q upper e cs] assms by (simp add: apart_def)
  have "session upper e (cs @ [(t, srv, c)]) b = call upper srv e c ((session upper e cs b)\<lparr>now := t\<rparr>)"
    by (induction cs arbitrary: b) auto
  then show "loads (session upper e (cs @ [(t, srv, c)]) b) = loads (session upper e cs b)
        @ (if rejected srv c \<and> \<not> recent_bounce ((session upper e cs b)\<lparr>now := t\<rparr>) then [(t, js ''/auth/login?next='' @ q)] else [])"
    using assms(2) by (simp add: call_loads [where q = q] session_keeps)
qed

definition w_browser :: "bool \<Rightarrow> Browser" where
  "w_browser st = \<lparr>storage = st, bounce = None, now = 0, location = js ''/p'', loads = [], events = []\<rparr>"

definition w_call :: "int \<Rightarrow> int \<times> unit server \<times> Call" where
  "w_call t = (t, \<lambda>_. Some \<lparr>status = 401, body = [], json = None\<rparr>, GetJSON (js ''/api''))"

lemma login_loads_apart_witness:
  "sorted_wrt (\<lambda>x y. BOUNCE_WINDOW_MS \<le> fst y - fst x) (loads (session id () (map w_call [1000, 1500]) (w_browser True)))
    \<and> map fst (loads (session id () (map w_call [1000, 1500] @ [w_call 31001]) (w_browser True))) = [1000, 31001]
    \<and> map fst (loads (session id () (map w_call [1000, 1500]) (w_browser False))) = [1000, 1500]"
proof (intro conjI)
  have q: "encodeURIComponent (location (w_browser st)) = Some (js ''%2Fp'')" for st by (cases st; code_simp)
  have c: "list_all (\<lambda>(t, srv :: unit server, c). t > 0) (map w_call [1000, 1500])" by (simp add: w_call_def)
  have n: "loads (w_browser st) = []" for st by (simp add: w_browser_def)
  show "sorted_wrt (\<lambda>x y. BOUNCE_WINDOW_MS \<le> fst y - fst x) (loads (session id () (map w_call [1000, 1500]) (w_browser True)))"
    using login_loads_apart [OF n q c, of True id "()"] by (simp add: w_browser_def)
  show "map fst (loads (session id () (map w_call [1000, 1500]) (w_browser False))) = [1000, 1500]"
    using login_loads_apart [OF n q c, of False id "()"] by (simp add: w_browser_def w_call_def)
  show "map fst (loads (session id () (map w_call [1000, 1500] @ [w_call 31001]) (w_browser True))) = [1000, 31001]" by code_simp
qed

lemma put_text_if_match:
  "(js ''If-Match'', v) \<in> set (put_headers base cs) \<longleftrightarrow> truthy base \<and> v = the base"
  by (auto simp: put_headers_def js_def)

lemma event_names:
  "set (events (trackWrite m u b)) \<subseteq> set (events b) \<union> snd ` set PRODUCT_EVENTS"
  by (auto simp: trackWrite_def Let_def dest!: find_SomeD split: option.splits prod.splits) force

end
