(* ===== verification/Visits.thy ===== *)
theory Visits
  imports Prelude
begin

section \<open>Per-browser memory: visits, pins, recent files (lib/visits.ts, lib/recents.ts)\<close>

text \<open>
  What the reader's browser remembers of a project. The local storage may refuse reads or writes;
  both refusals are caught by the code. The tab's state is the storage and the module-level caches,
  and a reload keeps the storage only. \<open>JSON.parse\<close> and \<open>JSON.stringify\<close> are arguments over the
  type of JSON values; \<open>Number\<close> is taken on decimal text, the only one this code stores.
\<close>

datatype Json = JNull | JBool bool | JNum int | JStr jstr | JArr "Json list" | JObj "(jstr \<times> Json) list"

record Recent =
  rpath :: jstr
  at :: int

record Tab =
  readable :: bool
  writable :: bool
  items :: "jstr \<rightharpoonup> jstr"
  baselines :: "jstr \<rightharpoonup> nat"
  pinCache :: "jstr \<rightharpoonup> jstr list"
  recentCache :: "jstr \<rightharpoonup> Recent list"
  emits :: nat

definition VISIT_KEY :: "jstr \<Rightarrow> jstr" where "VISIT_KEY pid = js ''bdrive.lastVisit.'' @ pid"
definition PINS_KEY :: "jstr \<Rightarrow> jstr" where "PINS_KEY pid = js ''bdrive.pins.'' @ pid"
definition RECENT_KEY :: "jstr \<Rightarrow> jstr" where "RECENT_KEY pid = js ''bdrive.recent.'' @ pid"
definition ORDER_KEY :: jstr where "ORDER_KEY = js ''bdrive.treeOrder''"

definition read :: "Tab \<Rightarrow> jstr \<Rightarrow> jstr option" where
  "read s k = (if readable s then items s k else None)"

definition store_item :: "jstr \<Rightarrow> jstr \<Rightarrow> Tab \<Rightarrow> Tab" where
  "store_item k v s = (if writable s then s\<lparr>items := (items s)(k \<mapsto> v)\<rparr> else s)"

definition emit :: "Tab \<Rightarrow> Tab" where
  "emit s = s\<lparr>emits := emits s + 1\<rparr>"

text \<open>A page load: the module state starts again, the storage stays.\<close>

definition reload :: "Tab \<Rightarrow> Tab" where
  "reload s = s\<lparr>baselines := Map.empty, pinCache := Map.empty, recentCache := Map.empty, emits := 0\<rparr>"

subsection \<open>Last visit\<close>

definition number :: "jstr option \<Rightarrow> nat" where
  "number m = (case m of None \<Rightarrow> 0 | Some s \<Rightarrow> if s \<noteq> [] \<and> list_all is_digit s then digits_val s else 0)"

definition visitBaseline :: "nat \<Rightarrow> jstr \<Rightarrow> Tab \<Rightarrow> nat \<times> Tab" where
  "visitBaseline now pid s =
     (case baselines s pid of
        Some b \<Rightarrow> (b, s)
      | None \<Rightarrow>
          let stored = number (read s (VISIT_KEY pid));
              b = (if stored > 0 then stored else now);
              s' = s\<lparr>baselines := (baselines s)(pid \<mapsto> b)\<rparr>
          in (b, if stored > 0 then s' else store_item (VISIT_KEY pid) (nat_str b) s'))"

definition noteLeaving :: "nat \<Rightarrow> jstr \<Rightarrow> Tab \<Rightarrow> Tab" where
  "noteLeaving now pid s =
     (let s' = store_item (VISIT_KEY pid) (nat_str now) s in s'\<lparr>baselines := (baselines s')(pid := None)\<rparr>)"

definition markAllSeen :: "nat \<Rightarrow> jstr \<Rightarrow> Tab \<Rightarrow> Tab" where
  "markAllSeen now pid s =
     emit (store_item (VISIT_KEY pid) (nat_str now) (s\<lparr>baselines := (baselines s)(pid \<mapsto> now)\<rparr>))"

definition useVisitBaseline :: "nat \<Rightarrow> jstr option \<Rightarrow> Tab \<Rightarrow> nat \<times> Tab" where
  "useVisitBaseline now pid s = (if truthy pid then visitBaseline now (the pid) s else (0, s))"

subsection \<open>Pins\<close>

definition parse_or_empty :: "(jstr \<Rightarrow> Json option) \<Rightarrow> jstr option \<Rightarrow> Json option" where
  "parse_or_empty parse raw = (if truthy raw then parse (the raw) else Some (JArr []))"

definition strings_of :: "Json option \<Rightarrow> jstr list" where
  "strings_of v = (case v of Some (JArr xs) \<Rightarrow> List.map_filter (\<lambda>x. case x of JStr t \<Rightarrow> Some t | _ \<Rightarrow> None) xs | _ \<Rightarrow> [])"

definition pinsOf :: "(jstr \<Rightarrow> Json option) \<Rightarrow> jstr \<Rightarrow> Tab \<Rightarrow> jstr list \<times> Tab" where
  "pinsOf parse pid s =
     (case pinCache s pid of
        Some p \<Rightarrow> (p, s)
      | None \<Rightarrow> let p = strings_of (parse_or_empty parse (read s (PINS_KEY pid)))
                in (p, s\<lparr>pinCache := (pinCache s)(pid \<mapsto> p)\<rparr>))"

definition toggled :: "jstr \<Rightarrow> jstr list \<Rightarrow> jstr list" where
  "toggled path cur = (if path \<in> set cur then filter (\<lambda>p. p \<noteq> path) cur else cur @ [path])"

definition togglePin :: "(jstr \<Rightarrow> Json option) \<Rightarrow> (Json \<Rightarrow> jstr) \<Rightarrow> jstr \<Rightarrow> jstr \<Rightarrow> Tab \<Rightarrow> Tab" where
  "togglePin parse print pid path s =
     (case pinsOf parse pid s of
        (cur, s) \<Rightarrow>
          let next = toggled path cur
          in emit (store_item (PINS_KEY pid) (print (JArr (map JStr next))) (s\<lparr>pinCache := (pinCache s)(pid \<mapsto> next)\<rparr>)))"

definition usePins :: "(jstr \<Rightarrow> Json option) \<Rightarrow> jstr option \<Rightarrow> Tab \<Rightarrow> jstr list \<times> Tab" where
  "usePins parse pid s = (if truthy pid then pinsOf parse (the pid) s else ([], s))"

subsection \<open>Tree order\<close>

definition useTreeOrder :: "Tab \<Rightarrow> jstr" where
  "useTreeOrder s = (if read s ORDER_KEY = Some (js ''recent'') then js ''recent'' else js ''name'')"

definition setTreeOrder :: "jstr \<Rightarrow> Tab \<Rightarrow> Tab" where
  "setTreeOrder order s = emit (store_item ORDER_KEY order s)"

subsection \<open>Recent files\<close>

definition RECENT_KEEP :: nat where
  "RECENT_KEEP = 12"

definition pushRecent :: "Recent list \<Rightarrow> jstr \<Rightarrow> int \<Rightarrow> nat \<Rightarrow> Recent list" where
  "pushRecent xs path t k = take k (\<lparr>rpath = path, at = t\<rparr> # filter (\<lambda>r. rpath r \<noteq> path) xs)"

definition recent_of :: "Json \<Rightarrow> Recent option" where
  "recent_of v =
     (case v of
        JObj fs \<Rightarrow> (case (map_of fs (js ''path''), map_of fs (js ''at'')) of
            (Some (JStr p), Some (JNum t)) \<Rightarrow> Some \<lparr>rpath = p, at = t\<rparr>
          | _ \<Rightarrow> None)
      | _ \<Rightarrow> None)"

definition parseRecents :: "(jstr \<Rightarrow> Json option) \<Rightarrow> jstr option \<Rightarrow> Recent list" where
  "parseRecents parse raw =
     (case parse_or_empty parse raw of Some (JArr xs) \<Rightarrow> List.map_filter recent_of xs | _ \<Rightarrow> [])"

definition recentsOf :: "(jstr \<Rightarrow> Json option) \<Rightarrow> jstr \<Rightarrow> Tab \<Rightarrow> Recent list \<times> Tab" where
  "recentsOf parse pid s =
     (case recentCache s pid of
        Some r \<Rightarrow> (r, s)
      | None \<Rightarrow> let r = parseRecents parse (read s (RECENT_KEY pid))
                in (r, s\<lparr>recentCache := (recentCache s)(pid \<mapsto> r)\<rparr>))"

definition json_recent :: "Recent \<Rightarrow> Json" where
  "json_recent r = JObj [(js ''path'', JStr (rpath r)), (js ''at'', JNum (at r))]"

definition noteOpened :: "(jstr \<Rightarrow> Json option) \<Rightarrow> (Json \<Rightarrow> jstr) \<Rightarrow> int \<Rightarrow> jstr \<Rightarrow> jstr \<Rightarrow> Tab \<Rightarrow> Tab" where
  "noteOpened parse print now pid path s =
     (case recentsOf parse pid s of
        (cur, s) \<Rightarrow>
          let next = pushRecent cur path now RECENT_KEEP
          in emit (store_item (RECENT_KEY pid) (print (JArr (map json_recent next))) (s\<lparr>recentCache := (recentCache s)(pid \<mapsto> next)\<rparr>)))"

definition useRecents :: "(jstr \<Rightarrow> Json option) \<Rightarrow> jstr option \<Rightarrow> Tab \<Rightarrow> Recent list \<times> Tab" where
  "useRecents parse pid s = (if truthy pid then recentsOf parse (the pid) s else ([], s))"

subsection \<open>The contract of a stored value with a cache\<close>

text \<open>
  Both lists are read through a cache and written through it. The contract: what is read after a
  write is what was written, at once and after a reload, and reading changes nothing that a reload
  would show.
\<close>

locale write_through =
  fixes get :: "Tab \<Rightarrow> 'v \<times> Tab" and put :: "'v \<Rightarrow> Tab \<Rightarrow> Tab" and ok :: "Tab \<Rightarrow> bool" and storable :: "'v \<Rightarrow> bool"
  assumes get_put: "fst (get (put v s)) = v"
    and reload_put: "ok s \<Longrightarrow> storable v \<Longrightarrow> fst (get (reload (put v s))) = v"
    and reload_get: "fst (get (reload (snd (get s)))) = fst (get (reload s))"
    and ok_put: "ok (put v s) = ok s" "ok (snd (get s)) = ok s"
begin

text \<open>A change computed from what is read, then a reload and another look: the change is there.\<close>

definition update :: "('v \<Rightarrow> 'v) \<Rightarrow> Tab \<Rightarrow> Tab" where
  "update f s = (case get s of (v, s') \<Rightarrow> put (f v) s')"

lemma update_now: "fst (get (update f s)) = f (fst (get s))"
  by (simp add: update_def get_put case_prod_beta)

lemma update_reload:
  assumes "ok s" "storable (f (fst (get s)))"
  shows "fst (get (reload (update f s))) = f (fst (get s))"
  using assms ok_put(2) [of s] reload_put [of "snd (get s)" "f (fst (get s))"]
  by (simp add: update_def case_prod_beta)

lemma update_look_reload:
  assumes "ok s" "storable (f (fst (get s)))"
  shows "fst (get (reload (snd (get (update f s))))) = f (fst (get s))"
  using update_reload [of s f] assms by (simp add: reload_get)

end

definition put_pins :: "(Json \<Rightarrow> jstr) \<Rightarrow> jstr \<Rightarrow> jstr list \<Rightarrow> Tab \<Rightarrow> Tab" where
  "put_pins print pid v s =
     emit (store_item (PINS_KEY pid) (print (JArr (map JStr v))) (s\<lparr>pinCache := (pinCache s)(pid \<mapsto> v)\<rparr>))"

definition put_recents :: "(Json \<Rightarrow> jstr) \<Rightarrow> jstr \<Rightarrow> Recent list \<Rightarrow> Tab \<Rightarrow> Tab" where
  "put_recents print pid v s =
     emit (store_item (RECENT_KEY pid) (print (JArr (map json_recent v))) (s\<lparr>recentCache := (recentCache s)(pid \<mapsto> v)\<rparr>))"

definition storage_ok :: "Tab \<Rightarrow> bool" where
  "storage_ok s \<longleftrightarrow> readable s \<and> writable s"

text \<open>The value survives the text form.\<close>

definition json_ok :: "(jstr \<Rightarrow> Json option) \<Rightarrow> (Json \<Rightarrow> jstr) \<Rightarrow> Json \<Rightarrow> bool" where
  "json_ok parse print v \<longleftrightarrow> print v \<noteq> [] \<and> parse (print v) = Some v"

lemma map_filter_id: "(\<And>x. f (g x) = Some x) \<Longrightarrow> List.map_filter f (map g xs) = xs"
  by (induction xs) (simp_all add: List.map_filter_def)

interpretation pins: write_through "pinsOf parse pid" "put_pins print pid" storage_ok
    "\<lambda>v. json_ok parse print (JArr (map JStr v))" for parse print pid
  by unfold_locales
    (auto simp: pinsOf_def put_pins_def emit_def store_item_def reload_def read_def storage_ok_def json_ok_def
      parse_or_empty_def truthy_def strings_of_def map_filter_id Let_def split: option.splits)

interpretation recents: write_through "recentsOf parse pid" "put_recents print pid" storage_ok
    "\<lambda>v. json_ok parse print (JArr (map json_recent v))" for parse print pid
  by unfold_locales
    (auto simp: recentsOf_def put_recents_def emit_def store_item_def reload_def read_def storage_ok_def json_ok_def
      parse_or_empty_def truthy_def parseRecents_def map_filter_id recent_of_def json_recent_def js_def Let_def split: option.splits)

lemma togglePin_update: "togglePin parse print pid path s = pins.update parse pid print (toggled path) s"
  by (simp add: togglePin_def pins.update_def put_pins_def Let_def)

lemma noteOpened_update:
  "noteOpened parse print now pid path s = recents.update parse pid print (\<lambda>c. pushRecent c path now RECENT_KEEP) s"
  by (simp add: noteOpened_def recents.update_def put_recents_def Let_def)


text \<open>Pins survive: after toggling a pin the list read at once is the old one with the path taken
  out, or put at its end, and with the storage available the same list is read after a reload, even
  when it is read again before; toggling twice a path that was not pinned gives back the old list.\<close>

theorem pins_survive:
  assumes "readable s" "writable s"
    "json_ok parse print (JArr (map JStr (toggled path (fst (pinsOf parse pid s)))))"
  shows "fst (pinsOf parse pid (togglePin parse print pid path s)) = toggled path (fst (pinsOf parse pid s))
    \<and> fst (pinsOf parse pid (reload (togglePin parse print pid path s))) = toggled path (fst (pinsOf parse pid s))
    \<and> fst (pinsOf parse pid (reload (snd (pinsOf parse pid (togglePin parse print pid path s))))) = toggled path (fst (pinsOf parse pid s))
    \<and> (path \<notin> set (fst (pinsOf parse pid s)) \<longrightarrow>
         toggled path (toggled path (fst (pinsOf parse pid s))) = fst (pinsOf parse pid s))"
proof -
  have "storage_ok s" using assms by (simp add: storage_ok_def)
  moreover have "filter (\<lambda>p. p \<noteq> path) xs = xs" if "path \<notin> set xs" for xs
    using that by (induction xs) auto
  ultimately show ?thesis using assms(3)
    by (simp add: togglePin_update pins.update_now pins.update_reload pins.update_look_reload toggled_def)
qed

lemma recents_survive:
  assumes "readable s" "writable s"
    "json_ok parse print (JArr (map json_recent (pushRecent (fst (recentsOf parse pid s)) path now RECENT_KEEP)))"
  shows "fst (recentsOf parse pid (reload (noteOpened parse print now pid path s)))
      = pushRecent (fst (recentsOf parse pid s)) path now RECENT_KEEP"
  using assms by (simp add: noteOpened_update recents.update_reload storage_ok_def)

lemma pushRecent_spec:
  assumes "k > 0" "distinct (map rpath xs)"
  shows "hd (pushRecent xs path t k) = \<lparr>rpath = path, at = t\<rparr>" "length (pushRecent xs path t k) \<le> k"
    "distinct (map rpath (pushRecent xs path t k))"
proof -
  show "hd (pushRecent xs path t k) = \<lparr>rpath = path, at = t\<rparr>" "length (pushRecent xs path t k) \<le> k"
    using assms(1) by (cases k; simp add: pushRecent_def)+
  have "distinct (map rpath (\<lparr>rpath = path, at = t\<rparr> # filter (\<lambda>r. rpath r \<noteq> path) xs))"
    using assms(2) by (auto simp: distinct_map_filter)
  then show "distinct (map rpath (pushRecent xs path t k))"
    unfolding pushRecent_def by (metis distinct_take take_map)
qed

definition w_tab :: Tab where
  "w_tab = \<lparr>readable = True, writable = True, items = Map.empty, baselines = Map.empty, pinCache = Map.empty, recentCache = Map.empty, emits = 0\<rparr>"

lemma pins_survive_witness:
  "fst (pinsOf (\<lambda>_. Some (JArr [JStr (js ''a.md'')])) (js ''p'')
     (reload (togglePin (\<lambda>_. Some (JArr [JStr (js ''a.md'')])) (\<lambda>_. js ''[\"a.md\"]'') (js ''p'') (js ''a.md'') w_tab))) = [js ''a.md'']"
proof -
  let ?parse = "\<lambda>_. Some (JArr [JStr (js ''a.md'')])" and ?print = "\<lambda>_. js ''[\"a.md\"]''"
  have e: "fst (pinsOf ?parse (js ''p'') w_tab) = []" "toggled (js ''a.md'') [] = [js ''a.md'']"
    by (simp_all add: pinsOf_def w_tab_def read_def parse_or_empty_def truthy_def strings_of_def toggled_def List.map_filter_def Let_def)
  show ?thesis
    using pins_survive [of w_tab ?parse ?print "js ''a.md''" "js ''p''"] e
    by (simp add: json_ok_def w_tab_def js_def)
qed

subsection \<open>The baseline\<close>

lemma number_nat_str [simp]: "number (Some (nat_str n)) = n"
  using nat_str_digits [of n] by (simp add: number_def list_all_iff)

lemma baseline_stable:
  "fst (visitBaseline t' pid (snd (visitBaseline t pid s))) = fst (visitBaseline t pid s)"
  by (auto simp: visitBaseline_def store_item_def Let_def split: option.splits)

lemma leave_and_return:
  "readable s \<Longrightarrow> writable s \<Longrightarrow> t > 0 \<Longrightarrow> fst (visitBaseline t' pid (noteLeaving t pid s)) = t"
  by (simp add: visitBaseline_def noteLeaving_def store_item_def read_def Let_def)

lemma seen_baseline: "fst (visitBaseline t' pid (markAllSeen t pid s)) = t"
  by (simp add: visitBaseline_def markAllSeen_def emit_def store_item_def)

lemma order_stored: "readable s \<Longrightarrow> writable s \<Longrightarrow> useTreeOrder (setTreeOrder (js ''recent'') s) = js ''recent''"
  by (simp add: useTreeOrder_def setTreeOrder_def store_item_def read_def emit_def)

end
