(* ===== verification/Page.thy ===== *)
theory Page
  imports Prelude
begin

section \<open>Page state: theme, scroll, sidebar search (lib/theme.ts, lib/scroll.ts, lib/sidebarSearch.ts)\<close>

text \<open>
  The small state machines of the page. The theme: the stored preference, the operating system's
  choice, the attribute on the page and the events that keep them in step. The scroll goal of a
  route. The query and the selected row of the sidebar's filter. Offsets are whole pixels.
\<close>

subsection \<open>Theme\<close>

datatype ThemePref = SystemPref | LightPref | DarkPref
datatype Theme = Light | Dark

definition pref_text :: "ThemePref \<Rightarrow> jstr" where
  "pref_text p = (case p of SystemPref \<Rightarrow> js ''system'' | LightPref \<Rightarrow> js ''light'' | DarkPref \<Rightarrow> js ''dark'')"

text \<open>The page: whether the storage may be read and written, what it holds under the key, the
  fallback of this page, the OS preference (\<open>None\<close> without \<open>matchMedia\<close>), the attribute and the number
  of notifications.\<close>

record ThemeState =
  tread :: bool
  twrite :: bool
  stored :: "jstr option"
  memoryPref :: ThemePref
  os_dark :: "bool option"
  attr :: "Theme option"
  started :: bool
  notified :: nat

definition getThemePref :: "ThemeState \<Rightarrow> ThemePref" where
  "getThemePref s =
     (if tread s then
        (if stored s = Some (js ''light'') then LightPref
         else if stored s = Some (js ''dark'') then DarkPref else SystemPref)
      else memoryPref s)"

definition resolveTheme :: "ThemeState \<Rightarrow> ThemePref \<Rightarrow> Theme" where
  "resolveTheme s p =
     (case p of LightPref \<Rightarrow> Light | DarkPref \<Rightarrow> Dark
      | SystemPref \<Rightarrow> (case os_dark s of None \<Rightarrow> Dark | Some d \<Rightarrow> if d then Dark else Light))"

definition currentTheme :: "ThemeState \<Rightarrow> Theme" where
  "currentTheme s = (if attr s = Some Light then Light else Dark)"

definition applyAndNotify :: "ThemeState \<Rightarrow> ThemeState" where
  "applyAndNotify s = s\<lparr>attr := Some (resolveTheme s (getThemePref s)), notified := notified s + 1\<rparr>"

definition setThemePref :: "ThemePref \<Rightarrow> ThemeState \<Rightarrow> ThemeState" where
  "setThemePref p s =
     (let s = s\<lparr>memoryPref := p\<rparr>;
          s = (if \<not> twrite s then s
               else if p = SystemPref then s\<lparr>stored := None\<rparr> else s\<lparr>stored := Some (pref_text p)\<rparr>)
      in applyAndNotify s)"

definition initTheme :: "ThemeState \<Rightarrow> ThemeState" where
  "initTheme s = (if started s then s else applyAndNotify (s\<lparr>started := True\<rparr>))"

text \<open>The listeners \<open>initTheme\<close> installs: the OS choice changes, another tab writes a key (\<open>None\<close> is a
  cleared storage).\<close>

definition on_media_change :: "ThemeState \<Rightarrow> ThemeState" where
  "on_media_change s = (if getThemePref s = SystemPref then applyAndNotify s else s)"

definition THEME_KEY :: jstr where
  "THEME_KEY = js ''bdrive-theme''"

definition on_storage :: "jstr option \<Rightarrow> ThemeState \<Rightarrow> ThemeState" where
  "on_storage k s = (if k = Some THEME_KEY \<or> k = None then applyAndNotify s else s)"

definition theme_snapshot :: "ThemeState \<Rightarrow> ThemePref \<times> Theme" where
  "theme_snapshot s = (getThemePref s, currentTheme s)"

text \<open>What can happen to a started page. Another tab's write changes the value under its key before the
  event arrives; an OS change likewise.\<close>

inductive theme_step :: "ThemeState \<Rightarrow> ThemeState \<Rightarrow> bool" where
  pick: "theme_step s (setThemePref p s)"
| again: "theme_step s (initTheme s)"
| media: "os_dark s \<noteq> None \<Longrightarrow> theme_step s (on_media_change (s\<lparr>os_dark := Some d\<rparr>))"
| other_tab: "theme_step s (on_storage (Some THEME_KEY) (s\<lparr>stored := v\<rparr>))"
| cleared: "theme_step s (on_storage None (s\<lparr>stored := None\<rparr>))"
| other_key: "k \<noteq> THEME_KEY \<Longrightarrow> theme_step s (on_storage (Some k) s)"

inductive theme_run :: "ThemeState \<Rightarrow> ThemeState \<Rightarrow> bool" where
  stay: "theme_run s s"
| more: "theme_run s t \<Longrightarrow> theme_step t u \<Longrightarrow> theme_run s u"

inductive_cases theme_stepE: "theme_step s t"

definition in_step :: "ThemeState \<Rightarrow> bool" where
  "in_step s \<longleftrightarrow> attr s = Some (resolveTheme s (getThemePref s)) \<and> currentTheme s = resolveTheme s (getThemePref s)"

lemma apply_keeps [simp]:
  "getThemePref (applyAndNotify s) = getThemePref s" "resolveTheme (applyAndNotify s) p = resolveTheme s p"
  "attr (applyAndNotify s) = Some (resolveTheme s (getThemePref s))"
proof -
  obtain a n where s: "applyAndNotify s = s\<lparr>attr := a, notified := n\<rparr>" by (simp add: applyAndNotify_def)
  show "getThemePref (applyAndNotify s) = getThemePref s" unfolding s by (simp add: getThemePref_def)
  show "resolveTheme (applyAndNotify s) p = resolveTheme s p" unfolding s by (cases p) (simp_all add: resolveTheme_def)
  show "attr (applyAndNotify s) = Some (resolveTheme s (getThemePref s))" by (simp add: applyAndNotify_def)
qed

lemma apply_in_step: "in_step (applyAndNotify s)"
  by (cases "resolveTheme s (getThemePref s)") (simp_all add: in_step_def currentTheme_def)

lemma step_in_step: "theme_step s t \<Longrightarrow> in_step s \<Longrightarrow> in_step t"
proof (induction rule: theme_step.induct)
  case (media s d)
  show ?case
  proof (cases "getThemePref (s\<lparr>os_dark := Some d\<rparr>) = SystemPref")
    case True
    then show ?thesis by (simp add: on_media_change_def apply_in_step)
  next
    case False
    with media show ?thesis
      by (auto simp: on_media_change_def in_step_def getThemePref_def resolveTheme_def currentTheme_def split: ThemePref.splits if_splits)
  qed
qed (auto simp: setThemePref_def initTheme_def on_storage_def Let_def apply_in_step)

text \<open>The painted theme never drifts: from the first \<open>initTheme\<close> on, after any sequence of choices in
  this tab, choices in other tabs, a cleared storage, changes of the operating system and repeated
  starts, with the storage readable, writable or neither, the attribute on the page is the resolution
  of the preference in force, and that is what the components are told.\<close>

theorem theme_in_step:
  assumes "theme_run (initTheme s) t" "\<not> started s"
  shows "attr t = Some (resolveTheme t (getThemePref t)) \<and> theme_snapshot t = (getThemePref t, resolveTheme t (getThemePref t))"
proof -
  have "in_step t"
    using assms(1)
  proof (induction "initTheme s" t rule: theme_run.induct)
    case stay
    with assms(2) show ?case by (simp add: initTheme_def apply_in_step)
  next
    case (more t u)
    then show ?case using step_in_step by blast
  qed
  then show ?thesis by (simp add: in_step_def theme_snapshot_def)
qed

definition w_theme :: ThemeState where
  "w_theme = \<lparr>tread = True, twrite = True, stored = None, memoryPref = SystemPref, os_dark = Some True, attr = None, started = False, notified = 0\<rparr>"

lemma theme_in_step_witness:
  "attr (setThemePref LightPref (initTheme w_theme)) = Some Light"
proof -
  let ?t = "setThemePref LightPref (initTheme w_theme)"
  have "theme_run (initTheme w_theme) ?t" by (rule more [OF stay pick])
  from theme_in_step [OF this] have "attr ?t = Some (resolveTheme ?t (getThemePref ?t))" by (simp add: w_theme_def)
  also have "resolveTheme ?t (getThemePref ?t) = Light" by code_simp
  finally show ?thesis .
qed

text \<open>A choice is in force at once when the storage can be read and written, or neither. When it can be
  read but not written (a full quota), the old stored value stays in force and the choice is lost.\<close>

lemma choice_in_force:
  "tread s = twrite s \<Longrightarrow> getThemePref (setThemePref p s) = p"
  by (cases p) (simp_all add: setThemePref_def getThemePref_def applyAndNotify_def pref_text_def js_def Let_def)

lemma choice_lost_on_full_storage:
  "getThemePref (setThemePref LightPref (w_theme\<lparr>twrite := False, stored := Some (js ''dark'')\<rparr>)) = DarkPref"
  by code_simp

subsection \<open>Scroll goals\<close>

record Goal =
  gkey :: jstr
  want :: int
  attempts :: nat

definition MAX_APPLY :: nat where "MAX_APPLY = 3"
definition SLOP :: int where "SLOP = 2"

definition armGoal :: "jstr \<Rightarrow> int \<Rightarrow> Goal" where
  "armGoal k w = \<lparr>gkey = k, want = w, attempts = 0\<rparr>"

definition applyGoal :: "jstr \<Rightarrow> Goal \<Rightarrow> int option \<times> Goal" where
  "applyGoal k g =
     (if gkey g \<noteq> k \<or> attempts g \<ge> MAX_APPLY then (None, g)
      else (Some (want g), g\<lparr>attempts := attempts g + 1\<rparr>))"

definition noteScroll :: "jstr \<Rightarrow> int \<Rightarrow> int \<Rightarrow> Goal \<Rightarrow> Goal" where
  "noteScroll k tp mx g =
     (if gkey g \<noteq> k then g
      else if \<bar>tp - want g\<bar> \<le> SLOP then g
      else if attempts g = 0 \<or> (tp \<ge> mx - SLOP \<and> tp < want g) then g
      else g\<lparr>gkey := []\<rparr>)"

datatype ScrollEvent = Rendered jstr | Scrolled jstr int int

text \<open>The offsets a sequence of events scrolls to.\<close>

fun scroll_run :: "ScrollEvent list \<Rightarrow> Goal \<Rightarrow> int list \<times> Goal" where
  "scroll_run [] g = ([], g)"
| "scroll_run (Rendered k # es) g =
     (case applyGoal k g of (r, g') \<Rightarrow>
        case scroll_run es g' of (ws, g'') \<Rightarrow> ((case r of None \<Rightarrow> ws | Some w \<Rightarrow> w # ws), g''))"
| "scroll_run (Scrolled k tp mx # es) g = scroll_run es (noteScroll k tp mx g)"

lemma noteScroll_keeps [simp]: "attempts (noteScroll k t m g) = attempts g" "want (noteScroll k t m g) = want g"
  by (simp_all add: noteScroll_def)

lemma scroll_run_bound:
  "length (fst (scroll_run es g)) + attempts g \<le> max MAX_APPLY (attempts g) \<and> set (fst (scroll_run es g)) \<subseteq> {want g}"
proof (induction es g rule: scroll_run.induct)
  case (2 k es g)
  then show ?case by (force simp: applyGoal_def split: prod.splits)
next
  case (3 k tp mx es g)
  then show ?case by simp
qed simp

lemma retired_stays:
  "gkey g = [] \<Longrightarrow> \<forall>e \<in> set es. (case e of Rendered k \<Rightarrow> k \<noteq> [] | Scrolled k _ _ \<Rightarrow> k \<noteq> []) \<Longrightarrow> fst (scroll_run es g) = []"
  by (induction es g rule: scroll_run.induct) (auto simp: applyGoal_def noteScroll_def)

text \<open>A scroll goal moves the reader at most three times, always to the armed offset; and once the
  reader has moved on their own after it was first applied (further off than the slop and not a clamp at
  the bottom), nothing that renders later moves them again.\<close>

theorem scroll_goal_retires:
  assumes "k \<noteq> []" "\<forall>e \<in> set (es @ es'). (case e of Rendered q \<Rightarrow> q \<noteq> [] | Scrolled q _ _ \<Rightarrow> q \<noteq> [])"
  shows "length (fst (scroll_run es (armGoal k w))) \<le> MAX_APPLY \<and> set (fst (scroll_run es (armGoal k w))) \<subseteq> {w}
    \<and> (let g = snd (scroll_run es (armGoal k w))
       in gkey g = k \<and> attempts g > 0 \<and> \<bar>tp - want g\<bar> > SLOP \<and> \<not> (tp \<ge> mx - SLOP \<and> tp < want g)
          \<longrightarrow> fst (scroll_run (Scrolled k tp mx # es') g) = [])"
proof -
  have "gkey (noteScroll k tp mx g) = []"
    if "gkey g = k" "attempts g > 0" "\<bar>tp - want g\<bar> > SLOP" "\<not> (tp \<ge> mx - SLOP \<and> tp < want g)" for g
    using that by (auto simp: noteScroll_def)
  then have "fst (scroll_run (Scrolled k tp mx # es') g) = []"
    if "gkey g = k" "attempts g > 0" "\<bar>tp - want g\<bar> > SLOP" "\<not> (tp \<ge> mx - SLOP \<and> tp < want g)" for g
    using that assms(2) retired_stays [of "noteScroll k tp mx g" es'] by auto
  moreover have "length (fst (scroll_run es (armGoal k w))) \<le> MAX_APPLY \<and> set (fst (scroll_run es (armGoal k w))) \<subseteq> {w}"
    using scroll_run_bound [of es "armGoal k w"] by (simp add: armGoal_def)
  ultimately show ?thesis unfolding Let_def by blast
qed

lemma scroll_goal_retires_witness:
  "fst (scroll_run [Scrolled (js ''/a'') 40 1000, Rendered (js ''/a'')] (snd (scroll_run [Rendered (js ''/a'')] (armGoal (js ''/a'') 500)))) = []"
proof -
  have "let g = snd (scroll_run [Rendered (js ''/a'')] (armGoal (js ''/a'') 500))
       in gkey g = js ''/a'' \<and> attempts g > 0 \<and> \<bar>40 - want g\<bar> > SLOP \<and> \<not> (40 \<ge> 1000 - SLOP \<and> 40 < want g)
          \<longrightarrow> fst (scroll_run (Scrolled (js ''/a'') 40 1000 # [Rendered (js ''/a'')]) g) = []"
    by (rule scroll_goal_retires [THEN conjunct2, THEN conjunct2]) (simp_all add: js_def)
  moreover have "let g = snd (scroll_run [Rendered (js ''/a'')] (armGoal (js ''/a'') 500))
       in gkey g = js ''/a'' \<and> attempts g > 0 \<and> \<bar>40 - want g\<bar> > SLOP \<and> \<not> (40 \<ge> 1000 - SLOP \<and> 40 < want g)"
    by code_simp
  ultimately show ?thesis by (simp add: Let_def)
qed

subsection \<open>The reading column\<close>

definition READ_DEFAULT :: int where "READ_DEFAULT = 768"
definition READ_MIN :: int where "READ_MIN = 600"

definition clampReadWidth :: "int \<Rightarrow> int \<Rightarrow> int" where
  "clampReadWidth w room = min (max w READ_MIN) (max room READ_MIN)"

lemma clamp_bounds:
  "READ_MIN \<le> clampReadWidth w room" "clampReadWidth w room \<le> max room READ_MIN"
  "clampReadWidth (clampReadWidth w room) room = clampReadWidth w room"
  by (auto simp: clampReadWidth_def)

subsection \<open>The sidebar's filter\<close>

record Filter =
  query :: jstr
  sel :: int
  rows :: int
  active :: bool
  calls :: "int list"
  heard :: nat

definition set_state :: "jstr \<Rightarrow> int \<Rightarrow> Filter \<Rightarrow> Filter" where
  "set_state q i f = f\<lparr>query := q, sel := i, heard := heard f + 1\<rparr>"

definition setFilterQuery :: "jstr \<Rightarrow> Filter \<Rightarrow> Filter" where
  "setFilterQuery q f = (if q \<noteq> query f then set_state q 0 f else f)"

definition clearFilter :: "Filter \<Rightarrow> Filter" where
  "clearFilter f = setFilterQuery [] f"

definition registerFilterResults :: "int \<Rightarrow> Filter \<Rightarrow> Filter" where
  "registerFilterResults n f =
     (let f = f\<lparr>rows := n, active := True\<rparr>
      in if sel f \<ge> n then set_state (query f) (max 0 (n - 1)) f else f)"

text \<open>\<open>%\<close> takes the sign of the dividend.\<close>

definition js_rem :: "int \<Rightarrow> int \<Rightarrow> int" where
  "js_rem a b = (if a < 0 then - ((- a) mod b) else a mod b)"

definition moveFilterSel :: "int \<Rightarrow> Filter \<Rightarrow> Filter" where
  "moveFilterSel d f = (if rows f = 0 then f else set_state (query f) (js_rem (sel f + d + rows f) (rows f)) f)"

definition setFilterSel :: "int \<Rightarrow> Filter \<Rightarrow> Filter" where
  "setFilterSel i f = (if i \<noteq> sel f then set_state (query f) i f else f)"

definition activateFilterSel :: "Filter \<Rightarrow> Filter" where
  "activateFilterSel f = (if active f then f\<lparr>calls := calls f @ [sel f]\<rparr> else f)"

definition sel_ok :: "Filter \<Rightarrow> bool" where
  "sel_ok f \<longleftrightarrow> 0 \<le> sel f \<and> 0 \<le> rows f \<and> sel f < max 1 (rows f)"

lemma sel_ok_ops:
  "sel_ok f \<Longrightarrow> sel_ok (setFilterQuery q f)"
  "sel_ok f \<Longrightarrow> n \<ge> 0 \<Longrightarrow> sel_ok (registerFilterResults n f)"
  "sel_ok f \<Longrightarrow> - rows f \<le> d \<Longrightarrow> sel_ok (moveFilterSel d f)"
  "sel_ok f \<Longrightarrow> 0 \<le> i \<Longrightarrow> i < rows f \<Longrightarrow> sel_ok (setFilterSel i f)"
  "sel_ok f \<Longrightarrow> sel_ok (activateFilterSel f)"
  by (auto simp: sel_ok_def setFilterQuery_def registerFilterResults_def moveFilterSel_def setFilterSel_def
      activateFilterSel_def set_state_def js_rem_def Let_def)

end
