(* ===== verification/Util.thy ===== *)
theory Util
  imports Prelude
begin

section \<open>Small pure modules (util.ts, nav.ts, lib/folders.ts, lib/sniff.ts, lib/secrets.ts, lib/prompt.ts)\<close>

text \<open>
  Paths, wikilinks, sizes and names as they are printed; the history router; the folder rule that
  governs a path; text or not; the wording of credential findings and of the agent prompt. Lower
  case and the UTF-8 decoder are arguments.
\<close>

subsection \<open>Extensions and sizes\<close>

text \<open>The class of regular expressions \<open>/\.(a|b|\<dots>)$/i\<close> over ASCII extensions: \<open>$\<close> is the end of the
  text, and the ASCII letters of the path are folded.\<close>

definition ascii_lower :: "jstr \<Rightarrow> jstr" where
  "ascii_lower s = map (\<lambda>u. if 65 \<le> u \<and> u \<le> 90 then u + 32 else u) s"

definition has_ext :: "string list \<Rightarrow> jstr \<Rightarrow> bool" where
  "has_ext es p \<longleftrightarrow> (\<exists>e \<in> set es. ends_with (ascii_lower p) (js (''.'' @ e)))"

definition MD_EXT :: "jstr \<Rightarrow> bool" where "MD_EXT = has_ext [''md'', ''markdown'']"
definition IMG_EXT :: "jstr \<Rightarrow> bool" where
  "IMG_EXT = has_ext [''png'', ''jpg'', ''jpeg'', ''gif'', ''svg'', ''webp'', ''ico'', ''bmp'', ''avif'']"
definition HTML_EXT :: "jstr \<Rightarrow> bool" where "HTML_EXT = has_ext [''htm'', ''html'']"
definition PDF_EXT :: "jstr \<Rightarrow> bool" where "PDF_EXT = has_ext [''pdf'']"
definition CSV_EXT :: "jstr \<Rightarrow> bool" where "CSV_EXT = has_ext [''csv'', ''tsv'']"
definition TEXT_EXT :: "jstr \<Rightarrow> bool" where
  "TEXT_EXT = has_ext [''txt'', ''log'', ''json'', ''yml'', ''yaml'', ''toml'', ''csv'', ''go'', ''py'', ''js'', ''ts'', ''jsx'', ''tsx'',
     ''sh'', ''bash'', ''zsh'', ''rb'', ''rs'', ''c'', ''h'', ''cpp'', ''java'', ''kt'', ''swift'', ''sql'', ''css'', ''xml'', ''ini'',
     ''conf'', ''env'', ''mod'', ''sum'', ''jsonl'']"

text \<open>The \<open>do\<close> loop of \<open>humanSize\<close>: the unit's index; the size is \<open>n / 1024 ^ (i + 1)\<close>.\<close>

definition unit_index :: "nat \<Rightarrow> nat" where
  "unit_index n = (if n < 1024 ^ 2 then 0 else if n < 1024 ^ 3 then 1 else if n < 1024 ^ 4 then 2 else 3)"

text \<open>\<open>toFixed(1)\<close> of the exact quotient: tenths, a tie upwards.\<close>

definition humanSize :: "nat \<Rightarrow> jstr" where
  "humanSize n =
     (if n < 1024 then nat_str n @ js '' B''
      else let d = 1024 ^ (unit_index n + 1); tenths = (20 * n + d) div (2 * d)
           in nat_str (tenths div 10) @ js ''.'' @ nat_str (tenths mod 10) @ js '' ''
              @ [js ''KB'', js ''MB'', js ''GB'', js ''TB''] ! unit_index n)"

subsection \<open>Paths and links\<close>

definition fold_segment :: "jstr list \<Rightarrow> jstr \<Rightarrow> jstr list" where
  "fold_segment acc s =
     (if s = [] \<or> s = js ''.'' then acc else if s = js ''..'' then butlast acc else acc @ [s])"

definition path_parts :: "jstr \<Rightarrow> jstr \<Rightarrow> jstr list" where
  "path_parts dir rel = foldl fold_segment [] ((if dir = [] then [] else split_on 47 dir) @ split_on 47 rel)"

definition joinPath :: "jstr \<Rightarrow> jstr \<Rightarrow> jstr" where
  "joinPath dir rel = join [47] (path_parts dir rel)"

text \<open>A folded path has no empty, dot or dot-dot segment, and folding it again changes nothing.\<close>

definition proper :: "jstr \<Rightarrow> bool" where
  "proper s \<longleftrightarrow> s \<noteq> [] \<and> s \<noteq> js ''.'' \<and> s \<noteq> js ''..'' \<and> 47 \<notin> set s"

lemma fold_proper:
  "\<forall>s \<in> set acc. proper s \<Longrightarrow> \<forall>s \<in> set ss. 47 \<notin> set s \<Longrightarrow> \<forall>s \<in> set (foldl fold_segment acc ss). proper s"
proof (induction ss arbitrary: acc)
  case (Cons s ss)
  have "proper x" if "x \<in> set (fold_segment acc s)" for x
  proof -
    from that have "x \<in> set acc \<or> x = s \<and> s \<noteq> [] \<and> s \<noteq> js ''.'' \<and> s \<noteq> js ''..''"
      by (auto simp: fold_segment_def dest: in_set_butlastD split: if_splits)
    with Cons.prems show ?thesis by (auto simp: proper_def)
  qed
  with Cons.IH [of "fold_segment acc s"] Cons.prems(2) show ?case by simp
qed simp

lemma path_parts_proper: "\<forall>s \<in> set (path_parts dir rel). proper s"
  unfolding path_parts_def by (rule fold_proper) (auto simp: split_on_parts)

lemma fold_proper_id: "\<forall>s \<in> set ss. proper s \<Longrightarrow> foldl fold_segment acc ss = acc @ ss"
  by (induction ss arbitrary: acc) (auto simp: fold_segment_def proper_def)

lemma joinPath_normal:
  "joinPath (joinPath dir rel) [] = joinPath dir rel"
  "split_on 47 (joinPath dir rel) = (if path_parts dir rel = [] then [[]] else path_parts dir rel)"
proof -
  let ?ps = "path_parts dir rel"
  have p: "\<forall>s \<in> set ?ps. proper s" by (rule path_parts_proper)
  show sp: "split_on 47 (joinPath dir rel) = (if ?ps = [] then [[]] else ?ps)"
    using p by (auto simp: joinPath_def split_on_join proper_def)
  have "path_parts (joinPath dir rel) [] = ?ps"
  proof (cases "?ps = []")
    case True
    then have "joinPath dir rel = []" by (simp add: joinPath_def)
    with True show ?thesis by (simp add: path_parts_def fold_segment_def)
  next
    case False
    have ne: "joinPath dir rel \<noteq> []"
    proof
      assume "joinPath dir rel = []"
      with sp False have "?ps = [[]]" by simp
      with p show False by (simp add: proper_def)
    qed
    have "path_parts (joinPath dir rel) [] = foldl fold_segment [] (?ps @ [[]])"
      unfolding path_parts_def [of "joinPath dir rel"] using ne sp False by simp
    also have "\<dots> = ?ps" using fold_proper_id [OF p, of "[]"] by (simp add: fold_segment_def)
    finally show ?thesis .
  qed
  then show "joinPath (joinPath dir rel) [] = joinPath dir rel" by (simp add: joinPath_def)
qed

record WikiFile =
  wpath :: jstr
  wname :: jstr

definition resolveWiki :: "(jstr \<Rightarrow> jstr) \<Rightarrow> jstr \<Rightarrow> WikiFile list \<Rightarrow> WikiFile option" where
  "resolveWiki lower target fs =
     (let want = lower target; hit = (\<lambda>t. lower t = want \<or> lower t = want @ js ''.md'')
      in case find (\<lambda>f. hit (wpath f)) fs of Some f \<Rightarrow> Some f | None \<Rightarrow> find (\<lambda>f. hit (wname f)) fs)"

lemma resolveWiki_exact_first:
  "f \<in> set fs \<Longrightarrow> lower (wpath f) = lower target \<Longrightarrow>
     \<exists>g. resolveWiki lower target fs = Some g \<and> (lower (wpath g) = lower target \<or> lower (wpath g) = lower target @ js ''.md'')"
  by (auto simp: resolveWiki_def Let_def find_None_iff split: option.splits dest!: find_SomeD)

subsection \<open>People\<close>

record Who =
  user :: "jstr option"
  user_name :: "jstr option"
  author :: "jstr option"

definition or_text :: "jstr option \<Rightarrow> jstr option \<Rightarrow> jstr option" where
  "or_text a b = (if truthy a then a else b)"

definition whoChanged :: "Who \<Rightarrow> jstr" where
  "whoChanged e =
     (if truthy (user_name e)
      then the (user_name e) @ js '' <'' @ (case user e of None \<Rightarrow> js ''undefined'' | Some u \<Rightarrow> u) @ js ''>''
      else str_or (or_text (user e) (author e)) (js ''unknown''))"

definition displayName :: "Who \<Rightarrow> jstr" where
  "displayName e =
     (if truthy (user_name e) then the (user_name e)
      else if truthy (user e)
      then (let p = hd (split_on 64 (the (user e))) in if p = [] then the (user e) else p)
      else str_or (author e) (js ''unknown''))"

lemma displayName_nonempty: "displayName e \<noteq> []"
  by (auto simp: displayName_def truthy_def str_or_def js_def Let_def split: option.splits)

subsection \<open>The last project\<close>

definition lastProject :: "bool \<Rightarrow> jstr option \<Rightarrow> jstr" where
  "lastProject readable stored = (if readable then str_or stored [] else [])"

definition rememberProject :: "bool \<Rightarrow> jstr \<Rightarrow> jstr option \<Rightarrow> jstr option" where
  "rememberProject writable pid stored = (if writable then Some pid else stored)"

subsection \<open>The history router (nav.ts)\<close>

datatype NavType = PUSH | REPLACE | POP

text \<open>The browser's session history around the current entry, and the module's state. A URL is what
  \<open>pathname + search\<close> reads after it.\<close>

record Nav =
  past :: "jstr list"
  cur :: jstr
  ahead :: "jstr list"
  navType :: NavType
  heard :: nat

definition navigate :: "jstr \<Rightarrow> bool \<Rightarrow> Nav \<Rightarrow> Nav" where
  "navigate url repl s =
     (if \<not> repl \<and> cur s = url then s
      else if repl then s\<lparr>cur := url, navType := REPLACE, heard := heard s + 1\<rparr>
      else s\<lparr>past := past s @ [cur s], cur := url, ahead := [], navType := PUSH, heard := heard s + 1\<rparr>)"

text \<open>The \<open>popstate\<close> listener, after the browser went one entry back or forward.\<close>

definition popstate :: "Nav \<Rightarrow> Nav" where
  "popstate s = s\<lparr>navType := POP, heard := heard s + 1\<rparr>"

definition go_back :: "Nav \<Rightarrow> Nav" where
  "go_back s = (if past s = [] then s
     else popstate (s\<lparr>past := butlast (past s), cur := last (past s), ahead := cur s # ahead s\<rparr>))"

definition internal_link :: "jstr \<Rightarrow> bool" where
  "internal_link href \<longleftrightarrow> starts_with href (js ''/'') \<and> \<not> starts_with href (js ''//'')"

record Click =
  prevented :: bool
  modified :: bool
  button :: nat

text \<open>What a click on a link does: the app's own routing, or the browser's.\<close>

definition click :: "jstr \<Rightarrow> Click \<Rightarrow> Nav \<Rightarrow> Nav option" where
  "click href c s =
     (if \<not> internal_link href then None
      else if prevented c \<or> modified c \<or> button c \<noteq> 0 then None
      else Some (navigate href False s))"

lemma navigate_no_duplicate:
  "past s = [] \<or> last (past s) \<noteq> cur s \<Longrightarrow> past (navigate u False s) = [] \<or> last (past (navigate u False s)) \<noteq> cur (navigate u False s)"
  by (auto simp: navigate_def)

lemma back_after_push: "cur s \<noteq> u \<Longrightarrow> cur (go_back (navigate u False s)) = cur s \<and> navType (go_back (navigate u False s)) = POP"
  by (simp add: navigate_def go_back_def popstate_def)

subsection \<open>Folder rules (lib/folders.ts)\<close>

definition ruleFor :: "(jstr \<times> 'r) list \<Rightarrow> jstr \<Rightarrow> (jstr \<times> 'r) option" where
  "ruleFor rules key =
     foldl (\<lambda>best r. if \<not> starts_with key (fst r) then best
        else case best of None \<Rightarrow> Some r | Some b \<Rightarrow> if length (fst r) > length (fst b) then Some r else Some b) None rules"

lemma ruleFor_longest:
  "case ruleFor rules key of
     None \<Rightarrow> \<forall>r \<in> set rules. \<not> starts_with key (fst r)
   | Some b \<Rightarrow> b \<in> set rules \<and> starts_with key (fst b) \<and>
       (\<forall>r \<in> set rules. starts_with key (fst r) \<longrightarrow> length (fst r) \<le> length (fst b))"
  by (induction rules rule: rev_induct) (auto simp: ruleFor_def split: option.splits)

lemma ruleFor_slash:
  "ruleFor rules key = Some (p @ js ''/'', r) \<Longrightarrow> \<exists>rest. key = p @ js ''/'' @ rest"
  using ruleFor_longest [of rules key] by (auto simp: starts_with_iff)

subsection \<open>Text or not (lib/sniff.ts)\<close>

datatype BlobText = TextBlob jstr | Binary | TooLarge nat

definition MAX_BYTES :: nat where "MAX_BYTES = 1048576"
definition SNIFF :: nat where "SNIFF = 8192"

definition sniffBytes :: "(nat list \<Rightarrow> jstr option) \<Rightarrow> nat list \<Rightarrow> BlobText" where
  "sniffBytes decode buf =
     (if length buf > MAX_BYTES then TooLarge (length buf)
      else if 0 \<in> set (take SNIFF buf) then Binary
      else case decode buf of None \<Rightarrow> Binary | Some t \<Rightarrow> TextBlob t)"

lemma sniff_text: "sniffBytes decode buf = TextBlob t \<Longrightarrow> decode buf = Some t \<and> length buf \<le> MAX_BYTES"
  by (auto simp: sniffBytes_def split: if_splits option.splits)

subsection \<open>Wording (lib/secrets.ts, lib/prompt.ts)\<close>

record SecretFinding =
  rule :: jstr
  line :: nat

definition SECRET_LABELS :: "(jstr \<times> jstr) list" where
  "SECRET_LABELS =
     [(js ''aws_access_key_id'', js ''an AWS access key''), (js ''openai_api_key'', js ''an OpenAI API key''),
      (js ''github_pat'', js ''a GitHub token''), (js ''slack_token'', js ''a Slack token''),
      (js ''private_key'', js ''a private key''), (js ''gitlab_pat'', js ''a GitLab token'')]"

definition phrase :: "SecretFinding \<Rightarrow> jstr" where
  "phrase f = (case map_of SECRET_LABELS (rule f) of None \<Rightarrow> rule f | Some l \<Rightarrow> l)
     @ js '' (line '' @ nat_str (line f) @ js '')''"

definition list_text :: "SecretFinding list \<Rightarrow> jstr" where
  "list_text fs =
     (let parts = map phrase fs
      in if length parts > 1 then join (js '', '') (butlast parts) @ js '' and '' @ last parts
         else case parts of [] \<Rightarrow> js ''something credential-shaped'' | p # _ \<Rightarrow> p)"

definition secretsMessage :: "SecretFinding list \<Rightarrow> jstr" where
  "secretsMessage fs =
     js ''BearDrive found '' @ list_text fs @ js '' in this file. The check covers the file at the moment you share it ''
     @ [8212] @ js '' a link always serves the file'' @ [39] @ js ''s latest content, so later changes are never checked. Share anyway?''"

definition secretsBadge :: "SecretFinding list \<Rightarrow> jstr" where
  "secretsBadge fs = js ''This file contains '' @ list_text fs @ js ''.''"

lemma phrase_nonempty: "phrase f \<noteq> []"
  by (simp add: phrase_def js_def)

lemma every_finding_named:
  "f \<in> set fs \<Longrightarrow> \<exists>a b. list_text fs = a @ phrase f @ b"
proof -
  assume f: "f \<in> set fs"
  have j: "\<exists>a b. join sep xs = a @ x @ b" if "x \<in> set xs" for sep x and xs :: "jstr list"
    using that
  proof (induction sep xs rule: join.induct)
    case (3 sep y z zs)
    show ?case
    proof (cases "x = y")
      case True
      then show ?thesis by (intro exI [of _ "[]"] exI [of _ "sep @ join sep (z # zs)"]) simp
    next
      case False
      with 3 obtain a b where "join sep (z # zs) = a @ x @ b" by auto
      then show ?thesis by (intro exI [of _ "y @ sep @ a"] exI [of _ b]) simp
    qed
  next
    case (2 sep y)
    then show ?case by (auto intro: exI [of _ "[]"])
  qed simp
  show ?thesis
  proof (cases "length fs > 1")
    case True
    then have ne: "map phrase fs \<noteq> []" by auto
    have "phrase f \<in> set (butlast (map phrase fs) @ [last (map phrase fs)])"
      unfolding append_butlast_last_id [OF ne] using f by simp
    then have "phrase f \<in> set (butlast (map phrase fs)) \<or> phrase f = last (map phrase fs)" by (simp only: set_append Un_iff list.set) blast
    then show ?thesis
    proof
      assume "phrase f \<in> set (butlast (map phrase fs))"
      from j [OF this, of "js '', ''"] obtain a b where "join (js '', '') (butlast (map phrase fs)) = a @ phrase f @ b" by blast
      with True show ?thesis by (auto simp: list_text_def Let_def)
    next
      assume "phrase f = last (map phrase fs)"
      with True show ?thesis
        by (intro exI [of _ "join (js '', '') (butlast (map phrase fs)) @ js '' and ''"] exI [of _ "[]"])
          (simp add: list_text_def Let_def)
    qed
  next
    case False
    with f obtain g where "fs = [g]" by (cases fs) auto
    with f show ?thesis by (auto simp: list_text_def intro: exI [of _ "[]"])
  qed
qed

record PromptOpts =
  project :: "(jstr \<times> jstr) option"
  folder :: "jstr option"
  existing :: bool

definition INSTALL_DOC :: jstr where
  "INSTALL_DOC = js ''https://raw.githubusercontent.com/runbear-io/beardrive/main/INSTALL_FOR_AGENTS.md''"

text \<open>The project is its id and its name.\<close>

definition agentPrompt :: "jstr \<Rightarrow> PromptOpts \<Rightarrow> jstr" where
  "agentPrompt origin opts =
     (let target = (case project opts of
            Some (i, _) \<Rightarrow> js ''BearDrive project '' @ i
          | None \<Rightarrow> if truthy (folder opts) then js ''the shared '' @ the (folder opts) @ js ''/ folder in my project''
                    else js ''a new BearDrive project'');
          ask = (if existing opts then js ''I already have a folder of notes '' @ [8212] @ js '' ask me which one to sync''
                 else js ''Ask me which folder to sync'');
          named = (case project opts of None \<Rightarrow> []
            | Some (_, nm) \<Rightarrow> js '' (the project is named '' @ [34] @ nm @ [34] @ js '')'')
      in js ''Follow '' @ INSTALL_DOC @ [10] @ js ''to set up '' @ target @ js '' on '' @ origin @ js ''. '' @ ask @ named @ js ''.'')"

text \<open>Every variant still asks which folder.\<close>

lemma prompt_asks:
  "(\<exists>a b. agentPrompt origin opts = a @ js ''Ask me which folder to sync'' @ b)
   \<or> (\<exists>a b. agentPrompt origin opts = a @ js '' ask me which one to sync'' @ b)"
proof -
  obtain t n where e: "agentPrompt origin opts = (js ''Follow '' @ INSTALL_DOC @ [10] @ js ''to set up '' @ t @ js '' on '' @ origin @ js ''. '')
      @ (if existing opts then (js ''I already have a folder of notes '' @ [8212]) @ js '' ask me which one to sync''
         else js ''Ask me which folder to sync'') @ (n @ js ''.'')"
    unfolding agentPrompt_def Let_def by (metis append_assoc)
  have "(\<exists>a b. p @ (if c then q @ x else y) @ w = a @ y @ b) \<or> (\<exists>a b. p @ (if c then q @ x else y) @ w = a @ x @ b)"
    for p q w x y :: jstr and c
  proof (cases c)
    case True
    then have "p @ (if c then q @ x else y) @ w = (p @ q) @ x @ w" by simp
    then show ?thesis by blast
  next
    case False
    then have "p @ (if c then q @ x else y) @ w = p @ y @ w" by simp
    then show ?thesis by blast
  qed
  then show ?thesis unfolding e .
qed

end
