(* ===== verification/Feed.thy ===== *)
theory Feed
  imports Complex_Main Prelude JsDate Conflict Router TreeView Runs
begin

section \<open>Activity, read heat and Home (lib/activity.ts, lib/heat.ts, lib/home.ts)\<close>

text \<open>
  The derivations behind the Activity feed, the read counts and the Home view. Times are time
  values; \<open>Date.parse\<close> is an argument, and so is the reader's zone: how local fields become an
  instant and back. Ages in days and fractions are rational numbers. The locale-aware formatters of
  the platform are arguments.
\<close>

subsection \<open>Entries of the feed\<close>

record Change = HistoryEntry +
  ctime :: jstr
  ckind :: jstr
  device_name :: jstr
  cuser :: "jstr option"
  seq :: nat

definition isAgent :: "'a HistoryEntry_scheme \<Rightarrow> bool" where
  "isAgent e \<longleftrightarrow> truthy (session e)"

definition diffBase :: "jstr \<Rightarrow> jstr option \<Rightarrow> jstr option" where
  "diffBase k prev = (if truthy prev then prev else if k = js ''add'' then Some [] else None)"

subsection \<open>Local days (lib/activity.ts)\<close>

text \<open>The reader's zone: the instant of a local midnight, and the local year, month (from 0) and day.\<close>

record Zone =
  midnight :: "int \<Rightarrow> int \<Rightarrow> int \<Rightarrow> int"
  lyear :: "int \<Rightarrow> int"
  lmonth :: "int \<Rightarrow> int"
  lday :: "int \<Rightarrow> int"

definition RANGE_LABEL :: "(jstr \<times> jstr) list" where
  "RANGE_LABEL = [(js ''today'', js ''Today''), (js ''7d'', js ''Last 7 days''), (js ''30d'', js ''Last 30 days'')]"

definition RANGE_DAYS :: "(jstr \<times> int) list" where
  "RANGE_DAYS = [(js ''today'', 1), (js ''7d'', 7), (js ''30d'', 30)]"

definition pad :: "nat \<Rightarrow> jstr \<Rightarrow> jstr" where
  "pad n s = replicate (n - length s) 48 @ s"

definition localDay :: "Zone \<Rightarrow> int \<Rightarrow> jstr" where
  "localDay z t = int_str (lyear z t) @ js ''-'' @ pad 2 (int_str (lmonth z t + 1)) @ js ''-'' @ pad 2 (int_str (lday z t))"

definition day_shape :: "jstr \<Rightarrow> bool" where
  "day_shape s \<longleftrightarrow> length s = 10 \<and> s ! 4 = 45 \<and> s ! 7 = 45
     \<and> list_all is_digit (take 4 s) \<and> list_all is_digit (Prelude.slice 5 7 s) \<and> list_all is_digit (drop 8 s)"

definition parseDay :: "Zone \<Rightarrow> jstr \<Rightarrow> int option" where
  "parseDay z s =
     (if \<not> day_shape s then None
      else let m = int (digits_val (Prelude.slice 5 7 s)) - 1;
               d = midnight z (int (digits_val (take 4 s))) m (int (digits_val (drop 8 s)))
           in if lmonth z d = m then Some d else None)"

text \<open>
  The tables are plain objects, so a lookup by a name of \<open>Object.prototype\<close> gives an inherited value:
  truthy, neither a number nor a text.
\<close>

datatype 'a Looked = Own 'a | Inherited | Missing

definition OBJECT_PROTOTYPE :: "jstr list" where
  "OBJECT_PROTOTYPE = [js ''constructor'', js ''__defineGetter__'', js ''__defineSetter__'', js ''hasOwnProperty'',
     js ''__lookupGetter__'', js ''__lookupSetter__'', js ''isPrototypeOf'', js ''propertyIsEnumerable'',
     js ''toString'', js ''valueOf'', js ''__proto__'', js ''toLocaleString'']"

definition look_up :: "(jstr \<times> 'a) list \<Rightarrow> jstr \<Rightarrow> 'a Looked" where
  "look_up tbl k = (case map_of tbl k of Some v \<Rightarrow> Own v | None \<Rightarrow> if k \<in> set OBJECT_PROTOTYPE then Inherited else Missing)"

definition look_range :: "(jstr \<times> 'a) list \<Rightarrow> HistoryFilters option \<Rightarrow> 'a Looked" where
  "look_range tbl f =
     (case f of None \<Rightarrow> Missing | Some f \<Rightarrow> if truthy (f_range f) then look_up tbl (the (f_range f)) else Missing)"

definition day_bound :: "Zone \<Rightarrow> (HistoryFilters \<Rightarrow> jstr option) \<Rightarrow> HistoryFilters option \<Rightarrow> int option" where
  "day_bound z field f =
     (case f of None \<Rightarrow> None | Some f \<Rightarrow> if truthy (field f) then parseDay z (the (field f)) else None)"

text \<open>The window's two instants, where present; the first is \<open>None\<close> for an invalid date.\<close>

definition dateWindow :: "Zone \<Rightarrow> HistoryFilters option \<Rightarrow> int \<Rightarrow> int option option \<times> int option" where
  "dateWindow z f now =
     (case look_range RANGE_DAYS f of
        Own days \<Rightarrow> (Some (Some (midnight z (lyear z now) (lmonth z now) (lday z now - days + 1))), None)
      | Inherited \<Rightarrow> (Some None, None)
      | Missing \<Rightarrow>
          (map_option Some (day_bound z f_since f),
           map_option (\<lambda>u. midnight z (lyear z u) (lmonth z u) (lday z u + 1)) (day_bound z f_until f)))"

text \<open>\<open>toISOString\<close>: years outside 0 to 9999 take a sign and six digits.\<close>

definition iso_year :: "int \<Rightarrow> jstr" where
  "iso_year y = (if 0 \<le> y \<and> y \<le> 9999 then pad 4 (int_str y)
     else (if y < 0 then js ''-'' else js ''+'') @ pad 6 (int_str \<bar>y\<bar>))"

definition iso_string :: "int \<Rightarrow> jstr" where
  "iso_string t = iso_year (utc_year t) @ js ''-'' @ pad 2 (int_str (utc_month t + 1)) @ js ''-'' @ pad 2 (int_str (utc_date t))
     @ js ''T'' @ pad 2 (int_str (utc_hours t)) @ js '':'' @ pad 2 (int_str (utc_minutes t)) @ js '':''
     @ pad 2 (int_str (utc_seconds t)) @ js ''.'' @ pad 3 (int_str (ms_of_day t mod 1000)) @ js ''Z''"

text \<open>The text ends in three digits and a Z, so the replacement puts the other six before the Z.\<close>

definition lastNanoBefore :: "int \<Rightarrow> jstr" where
  "lastNanoBefore d = butlast (iso_string (d - 1)) @ js ''999999Z''"

definition opt_pair :: "string \<Rightarrow> jstr option \<Rightarrow> (jstr \<times> jstr) list" where
  "opt_pair k v = (if truthy v then [(js k, the v)] else [])"

text \<open>\<open>None\<close> is the exception \<open>toISOString\<close> raises on an invalid date.\<close>

definition historyApiQuery :: "Zone \<Rightarrow> HistoryFilters option \<Rightarrow> int \<Rightarrow> jstr option" where
  "historyApiQuery z f now =
     (let w = dateWindow z f now;
          ps = (case f of None \<Rightarrow> [] | Some f \<Rightarrow>
                  opt_pair ''q'' (f_q f) @ opt_pair ''user'' (f_user f) @ opt_pair ''actor'' (f_actor f) @ opt_pair ''device'' (f_device f));
          rest = (\<lambda>since. let s = params_string (ps @ since @ (case snd w of None \<Rightarrow> [] | Some t \<Rightarrow> [(js ''until'', lastNanoBefore t)]))
                          in if s = [] then [] else js ''&'' @ s)
      in case fst w of
           None \<Rightarrow> Some (rest [])
         | Some None \<Rightarrow> None
         | Some (Some t) \<Rightarrow> Some (rest [(js ''since'', iso_string t)]))"

definition has_bound :: "HistoryFilters option \<Rightarrow> bool" where
  "has_bound f = (case f of None \<Rightarrow> False | Some f \<Rightarrow> truthy (f_since f) \<or> truthy (f_until f))"

definition isAllTime :: "HistoryFilters option \<Rightarrow> bool" where
  "isAllTime f \<longleftrightarrow> look_range RANGE_DAYS f = Missing \<and> \<not> has_bound f"

text \<open>\<open>None\<close> where the code hands pls the inherited value itself.\<close>

definition summaryDays :: "HistoryFilters option \<Rightarrow> int option" where
  "summaryDays f = (case look_range RANGE_DAYS f of Own d \<Rightarrow> Some d | Inherited \<Rightarrow> None | Missing \<Rightarrow> Some 30)"

definition summaryLabel :: "HistoryFilters option \<Rightarrow> jstr option" where
  "summaryLabel f =
     (case look_range RANGE_LABEL f of
        Own l \<Rightarrow> Some l
      | Inherited \<Rightarrow> None
      | Missing \<Rightarrow> Some (if has_bound f then js ''Custom range'' else js ''All time''))"

text \<open>The feed's query fails for exactly one kind of address: when the range parameter is a name of
  \<open>Object.prototype\<close>, which the table finds on its prototype. Every other filter set, whatever its
  fields hold, gives a query.\<close>

theorem query_fails_iff: "historyApiQuery z f now = None \<longleftrightarrow> look_range RANGE_DAYS f = Inherited"
  by (auto simp: historyApiQuery_def dateWindow_def Let_def split: Looked.splits option.splits)

definition dayLabel :: "Zone \<Rightarrow> (int \<Rightarrow> jstr) \<Rightarrow> jstr \<Rightarrow> int \<Rightarrow> jstr" where
  "dayLabel z long_day day now =
     (if day = localDay z now then js ''Today''
      else if day = localDay z (midnight z (lyear z now) (lmonth z now) (lday z now - 1)) then js ''Yesterday''
      else case parseDay z day of None \<Rightarrow> day | Some d \<Rightarrow> long_day d)"

text \<open>The hook's note: a label of ASCII letters, digits and dashes, the word session, an id.\<close>

definition alnum :: "nat \<Rightarrow> bool" where
  "alnum u \<longleftrightarrow> is_digit u \<or> (65 \<le> u \<and> u \<le> 90) \<or> (97 \<le> u \<and> u \<le> 122)"

definition note_label :: "jstr \<Rightarrow> jstr option" where
  "note_label s =
     (let l = takeWhile (\<lambda>u. alnum u \<or> u = 45) s; rest = drop (length l) s
      in if l \<noteq> [] \<and> alnum (hd l) \<and> length rest > 9 \<and> map (\<lambda>u. if 65 \<le> u \<and> u \<le> 90 then u + 32 else u) (take 9 rest) = js '' session ''
            \<and> list_all (\<lambda>u. \<not> is_ws u) (drop 9 rest)
         then Some l else None)"

definition cap_word :: "jstr \<Rightarrow> jstr" where
  "cap_word w = (case w of [] \<Rightarrow> [] | u # t \<Rightarrow> (if 97 \<le> u \<and> u \<le> 122 then u - 32 else u) # t)"

definition agentName :: "jstr option \<Rightarrow> jstr" where
  "agentName n =
     (case note_label (trim (str_or n [])) of
        None \<Rightarrow> js ''Agent''
      | Some l \<Rightarrow> join [32] (map cap_word (split_on 45 l)))"

definition spanLabel :: "nat \<Rightarrow> jstr" where
  "spanLabel ms =
     (let mins = (2 * ms + 60000) div 120000
      in if mins < 1 then [] else if mins < 60 then nat_str mins @ js '' min''
         else nat_str (mins div 60) @ js '' h'' @ (if mins mod 60 \<noteq> 0 then js '' '' @ nat_str (mins mod 60) @ js '' min'' else []))"

subsection \<open>Read heat (lib/heat.ts)\<close>

record HeatEntry =
  human :: nat
  agent :: nat
  share :: nat

type_synonym HeatMap = "(jstr \<times> HeatEntry) list"

definition heatTotal :: "HeatEntry \<Rightarrow> nat" where
  "heatTotal e = human e + agent e + share e"

definition under :: "jstr \<Rightarrow> HeatMap \<Rightarrow> HeatMap" where
  "under p h = filter (\<lambda>(q, e). starts_with q (p @ js ''/'')) h"

definition heatFor :: "HeatMap option \<Rightarrow> jstr \<Rightarrow> bool \<Rightarrow> HeatEntry option" where
  "heatFor h p isDir =
     (case h of
        None \<Rightarrow> None
      | Some h \<Rightarrow>
          if \<not> isDir then map_of h p
          else let agg = foldl (\<lambda>a (q, e). \<lparr>human = human a + human e, agent = agent a + agent e, share = share a + share e\<rparr>)
                           \<lparr>human = 0, agent = 0, share = 0\<rparr> (under p h)
               in if human agg \<noteq> 0 \<or> agent agg \<noteq> 0 \<or> share agg \<noteq> 0 then Some agg else None)"

definition heatText :: "HeatEntry \<Rightarrow> jstr" where
  "heatText e =
     (let tot = heatTotal e; s = nat_str tot @ (if tot = 1 then js '' read'' else js '' reads'')
      in if tot = 0 then [] else if agent e = 0 \<and> share e = 0 then s
         else s @ js '' ('' @ join (js '', '')
            ((if human e \<noteq> 0 then [nat_str (human e) @ js '' human''] else [])
             @ (if agent e \<noteq> 0 then [nat_str (agent e) @ js '' agent''] else [])
             @ (if share e \<noteq> 0 then [nat_str (share e) @ js '' shared''] else [])) @ js '')'')"

definition heatLevel :: "HeatEntry \<Rightarrow> nat" where
  "heatLevel e = (let tot = heatTotal e in if tot = 0 then 0 else if tot < 3 then 1 else if tot < 10 then 2 else if tot < 30 then 3 else 4)"

definition hotPathSplit :: "HeatEntry \<Rightarrow> rat \<times> rat \<times> rat" where
  "hotPathSplit e =
     (let tot = of_nat (heatTotal e)
      in if tot = 0 then (0, 0, 0) else (of_nat (agent e) / tot, of_nat (human e) / tot, of_nat (share e) / tot))"

fun insert_str :: "jstr \<Rightarrow> jstr list \<Rightarrow> jstr list" where
  "insert_str x [] = [x]"
| "insert_str x (y # ys) = (if str_less y x then y # insert_str x ys else x # y # ys)"

definition orphanPaths :: "HeatMap option \<Rightarrow> jstr set \<Rightarrow> jstr list" where
  "orphanPaths h known =
     (case h of None \<Rightarrow> [] | Some h \<Rightarrow> foldr insert_str (filter (\<lambda>p. p \<notin> known) (map fst h)) [])"

definition FLAT_AGE_SPREAD :: rat where "FLAT_AGE_SPREAD = 7"

definition ageRange :: "rat list \<Rightarrow> (rat \<times> rat) option" where
  "ageRange ds =
     (case ds of [] \<Rightarrow> None
      | d # _ \<Rightarrow> Some (foldl (\<lambda>m x. if x < m then x else m) d ds, foldl (\<lambda>m x. if x > m then x else m) d ds))"

definition isFlatRange :: "rat \<Rightarrow> rat \<Rightarrow> bool" where
  "isFlatRange mn mx \<longleftrightarrow> mx - mn < FLAT_AGE_SPREAD"

definition js_round :: "rat \<Rightarrow> int" where
  "js_round x = \<lfloor>x + 1 / 2\<rfloor>"

definition ageSpanLabel :: "rat \<Rightarrow> rat \<Rightarrow> jstr" where
  "ageSpanLabel mn mx =
     (let a = js_round mn; b = js_round mx
      in if a = b then int_str a @ js ''d'' else int_str a @ [8211] @ int_str b @ js ''d'')"

text \<open>The labels of the scatter plot.\<close>

definition LABEL_MAX :: nat where "LABEL_MAX = 6"
definition LABEL_LH :: rat where "LABEL_LH = 11"
definition LABEL_CH :: rat where "LABEL_CH = 11 / 2"

record Dot =
  dpath :: jstr
  reads :: nat
  cx :: rat
  cy :: rat
  r :: rat

record PlacedLabel =
  lpath :: jstr
  lname :: jstr
  lx :: rat
  ly :: rat
  at_end :: bool

definition free_at :: "PlacedLabel list \<Rightarrow> rat \<Rightarrow> bool" where
  "free_at pls v \<longleftrightarrow> (\<forall>l \<in> set pls. \<bar>ly l - v\<bar> \<ge> LABEL_LH)"

function slide_down :: "PlacedLabel list \<Rightarrow> rat \<Rightarrow> rat \<Rightarrow> rat" where
  "slide_down pls bottom y = (if y \<le> bottom \<and> \<not> free_at pls y then slide_down pls bottom (y + LABEL_LH) else y)"
  by pat_completeness auto
termination
proof (relation "measure (\<lambda>(pls, bottom, y). nat (\<lfloor>bottom - y\<rfloor> + 1))", simp, goal_cases)
  case (1 pls bottom y)
  have "\<lfloor>bottom - (y + LABEL_LH)\<rfloor> \<le> \<lfloor>bottom - y\<rfloor> - 1"
    by (simp add: LABEL_LH_def) linarith
  moreover have "0 \<le> \<lfloor>bottom - y\<rfloor>" using 1 by simp
  ultimately show ?case by (simp add: nat_less_iff)
qed

function slide_up :: "PlacedLabel list \<Rightarrow> rat \<Rightarrow> rat \<Rightarrow> rat" where
  "slide_up pls upper y = (if y \<ge> upper \<and> \<not> free_at pls y then slide_up pls upper (y - LABEL_LH) else y)"
  by pat_completeness auto
termination
proof (relation "measure (\<lambda>(pls, upper, y). nat (\<lfloor>y - upper\<rfloor> + 1))", simp, goal_cases)
  case (1 pls upper y)
  have "\<lfloor>y - LABEL_LH - upper\<rfloor> \<le> \<lfloor>y - upper\<rfloor> - 1"
    by (simp add: LABEL_LH_def) linarith
  moreover have "0 \<le> \<lfloor>y - upper\<rfloor>" using 1 by simp
  ultimately show ?case by (simp add: nat_less_iff)
qed

declare slide_down.simps [simp del] slide_up.simps [simp del]

definition place_one :: "rat \<Rightarrow> rat \<Rightarrow> rat \<Rightarrow> PlacedLabel list \<Rightarrow> Dot \<Rightarrow> PlacedLabel list" where
  "place_one right upper bottom pls d =
     (let nm = after_last 47 (dpath d);
          x0 = cx d + r d + 4;
          flip = x0 + of_nat (length nm) * LABEL_CH > right;
          x = (if flip then cx d - r d - 4 else x0);
          y1 = slide_down pls bottom (cy d);
          y = (if y1 > bottom then slide_up pls upper (cy d) else y1)
      in pls @ [\<lparr>lpath = dpath d, lname = nm, lx = x, ly = min bottom (max upper y), at_end = flip\<rparr>])"

definition placeLabels :: "Dot list \<Rightarrow> rat \<Rightarrow> rat \<Rightarrow> rat \<Rightarrow> PlacedLabel list" where
  "placeLabels dots right upper bottom =
     foldl (place_one right upper bottom) [] (take LABEL_MAX (sort_key (\<lambda>d. - int (reads d)) dots))"

lemma place_one_snoc:
  assumes "upper \<le> bottom"
  shows "\<exists>l. place_one right upper bottom pls d = pls @ [l] \<and> upper \<le> ly l \<and> ly l \<le> bottom"
proof -
  have "upper \<le> min bottom (max upper y) \<and> min bottom (max upper y) \<le> bottom" for y :: rat
    using assms by linarith
  then show ?thesis unfolding place_one_def Let_def by fastforce
qed

lemma placed_bounds:
  assumes "upper \<le> bottom"
  shows "\<forall>l \<in> set (placeLabels dots right upper bottom). upper \<le> ly l \<and> ly l \<le> bottom"
    "length (placeLabels dots right upper bottom) \<le> LABEL_MAX"
proof -
  have "\<exists>ls. foldl (place_one right upper bottom) pls ds = pls @ ls \<and> length ls = length ds
      \<and> (\<forall>l \<in> set ls. upper \<le> ly l \<and> ly l \<le> bottom)" for pls ds
  proof (induction ds arbitrary: pls)
    case (Cons d ds)
    obtain l where l: "place_one right upper bottom pls d = pls @ [l]" "upper \<le> ly l" "ly l \<le> bottom"
      using place_one_snoc [OF assms] by blast
    obtain ls where "foldl (place_one right upper bottom) (pls @ [l]) ds = (pls @ [l]) @ ls" "length ls = length ds"
      "\<forall>l \<in> set ls. upper \<le> ly l \<and> ly l \<le> bottom" using Cons.IH by blast
    with l show ?case by (intro exI [of _ "l # ls"]) simp
  qed simp
  from this [of "[]" "take LABEL_MAX (sort_key (\<lambda>d. - int (reads d)) dots)"]
  show "\<forall>l \<in> set (placeLabels dots right upper bottom). upper \<le> ly l \<and> ly l \<le> bottom"
    "length (placeLabels dots right upper bottom) \<le> LABEL_MAX"
    by (auto simp: placeLabels_def)
qed

lemma slide_down_free: "slide_down pls bottom y \<le> bottom \<Longrightarrow> free_at pls (slide_down pls bottom y)"
proof (induction pls bottom y rule: slide_down.induct)
  case (1 pls bottom y)
  show ?case
  proof (cases "y \<le> bottom \<and> \<not> free_at pls y")
    case True
    then have "slide_down pls bottom y = slide_down pls bottom (y + LABEL_LH)"
      by (simp add: slide_down.simps [of pls bottom y])
    with 1(1) [OF True] 1(2) show ?thesis by simp
  next
    case False
    then have "slide_down pls bottom y = y" by (subst slide_down.simps) (rule if_not_P [OF False])
    with False 1(2) show ?thesis by simp
  qed
qed

subsection \<open>Hot and stale (lib/heat.ts)\<close>

definition HOT_READS :: nat where "HOT_READS = 10"
definition STALE_DAYS :: rat where "STALE_DAYS = 30"

definition isDanger :: "nat \<Rightarrow> rat \<Rightarrow> bool" where
  "isDanger n days \<longleftrightarrow> n \<ge> HOT_READS \<and> days \<ge> STALE_DAYS"

definition daysSince :: "(jstr \<Rightarrow> int option) \<Rightarrow> jstr option \<Rightarrow> int \<Rightarrow> rat option" where
  "daysSince pd t now =
     (if \<not> truthy t then None
      else case pd (the t) of None \<Rightarrow> None | Some ms \<Rightarrow> Some (max 0 (of_int (now - ms) / 86400000)))"

definition agoLabel :: "(int \<Rightarrow> jstr \<Rightarrow> jstr) \<Rightarrow> rat \<Rightarrow> jstr" where
  "agoLabel rtf days =
     (if days < 30 then rtf (- js_round days) (js ''day'')
      else if days < 365 then rtf (- js_round (days / 30)) (js ''month'')
      else rtf (- js_round (days / 365)) (js ''year''))"

definition staleNote :: "(int \<Rightarrow> jstr \<Rightarrow> jstr) \<Rightarrow> (jstr \<Rightarrow> int option) \<Rightarrow> HeatEntry option \<Rightarrow> jstr option \<Rightarrow> int \<Rightarrow> jstr" where
  "staleNote rtf pd e t now =
     (case (e, daysSince pd t now) of
        (Some e, Some days) \<Rightarrow>
          if isDanger (heatTotal e) days then js ''stale '' @ [183] @ js '' last changed '' @ agoLabel rtf days else []
      | _ \<Rightarrow> [])"

subsection \<open>Home (lib/home.ts)\<close>

definition greeting :: "jstr option \<Rightarrow> nat \<Rightarrow> jstr" where
  "greeting nm h =
     (let part = (if h < 5 then js ''Good evening'' else if h < 12 then js ''Good morning''
                  else if h < 18 then js ''Good afternoon'' else js ''Good evening'');
          given = takeWhile (\<lambda>u. \<not> is_ws u) (trim (str_or nm []))
      in if given \<noteq> [] then part @ js '', '' @ given else part)"

record SinceSummary =
  changes :: nat
  sfiles :: nat
  sagent :: nat
  capped :: bool

definition sinceSummary :: "Change list \<Rightarrow> bool \<Rightarrow> SinceSummary" where
  "sinceSummary es pageFull =
     \<lparr>changes = length es, sfiles = card (set (map path es)), sagent = length (filter isAgent es), capped = pageFull\<rparr>"

definition entry_key :: "Change \<Rightarrow> jstr" where
  "entry_key e =
     (if seq e \<noteq> 0 then device_id e @ [0] @ nat_str (seq e)
      else ctime e @ [0] @ path e @ [0] @ ckind e @ [0] @ device_id e)"

text \<open>The comparator subtracts two parsed times; a time that does not parse counts as 0 here.\<close>

definition parsed :: "(jstr \<Rightarrow> int option) \<Rightarrow> jstr \<Rightarrow> int" where
  "parsed pd t = (case pd t of None \<Rightarrow> 0 | Some v \<Rightarrow> v)"

fun unseen_entries :: "jstr set \<Rightarrow> Change list \<Rightarrow> Change list" where
  "unseen_entries seen [] = []"
| "unseen_entries seen (e # es) =
     (if entry_key e \<in> seen then unseen_entries seen es
      else e # unseen_entries (insert (entry_key e) seen) es)"

definition mergeEntries :: "(jstr \<Rightarrow> int option) \<Rightarrow> Change list \<Rightarrow> Change list \<Rightarrow> Change list" where
  "mergeEntries pd a b = sort_key (\<lambda>e. - parsed pd (ctime e)) (unseen_entries {} (a @ b))"

record DeviceRow =
  did :: jstr
  dname :: jstr
  dlast :: int
  dagent :: "jstr option"
  you :: bool

definition note_device :: "Change \<Rightarrow> jstr option \<Rightarrow> DeviceRow \<Rightarrow> DeviceRow" where
  "note_device e me d =
     (let d = (if \<not> truthy (dagent d) \<and> isAgent e then d\<lparr>dagent := Some (agentName (enote e))\<rparr> else d)
      in if truthy me \<and> cuser e = me then d\<lparr>you := True\<rparr> else d)"

definition add_device :: "(jstr \<Rightarrow> int option) \<Rightarrow> jstr option \<Rightarrow> DeviceRow list \<Rightarrow> Change \<Rightarrow> DeviceRow list" where
  "add_device pd me ds e =
     (let i = (if device_id e = [] then device_name e else device_id e)
      in if i = [] then ds
         else let fresh = \<lparr>did = i, dname = (if device_name e = [] then i else device_name e), dlast = parsed pd (ctime e), dagent = None, you = False\<rparr>;
                  ds = (if i \<in> set (map did ds) then ds else ds @ [fresh])
              in map (\<lambda>d. if did d = i then note_device e me d else d) ds)"

definition devicesFrom :: "(jstr \<Rightarrow> int option) \<Rightarrow> Change list \<Rightarrow> jstr option \<Rightarrow> DeviceRow list" where
  "devicesFrom pd es me = sort_key (\<lambda>d. - dlast d) (foldl (add_device pd me) [] es)"

definition ACTIVE_MS :: int where "ACTIVE_MS = 15 * 60000"

datatype Attention = ConflictA jstr jstr jstr | CommentsA jstr nat | StaleA jstr nat rat

definition conflictsIn :: "Node list \<Rightarrow> Attention list" where
  "conflictsIn fs =
     concat (map (\<lambda>f. case parseConflict (npath f) of None \<Rightarrow> []
                       | Some c \<Rightarrow> [ConflictA (npath f) (original c) (device c)]) fs)"

definition stale_row :: "(jstr \<Rightarrow> int option) \<Rightarrow> HeatMap \<Rightarrow> int \<Rightarrow> Node \<Rightarrow> (jstr \<times> nat \<times> rat) list" where
  "stale_row pd h now f =
     (case (map_of h (npath f), daysSince pd (ntime f) now) of
        (Some e, Some days) \<Rightarrow> if isDanger (heatTotal e) days then [(npath f, heatTotal e, days)] else []
      | _ \<Rightarrow> [])"

definition staleHot :: "(jstr \<Rightarrow> int option) \<Rightarrow> Node list \<Rightarrow> HeatMap option \<Rightarrow> int \<Rightarrow> nat \<Rightarrow> Attention list" where
  "staleHot pd fs h now mx =
     (case h of None \<Rightarrow> []
      | Some h \<Rightarrow> map (\<lambda>(p, n, d). StaleA p n d)
          (take mx (sort_key (\<lambda>(p, n, d). - int n) (concat (map (stale_row pd h now) fs)))))"

datatype Freshness = Fresh | Aging | Stale

definition freshness :: "rat option \<Rightarrow> Freshness" where
  "freshness days = (case days of None \<Rightarrow> Stale | Some d \<Rightarrow> if d > 30 then Stale else if d > 7 then Aging else Fresh)"

record FolderReads =
  fname :: jstr
  freads :: nat
  ffresh :: Freshness

fun newest :: "(jstr \<Rightarrow> int option) \<Rightarrow> Node \<Rightarrow> int" where
  "newest pd (Node nm p d tm cs) =
     foldl max (if d then 0 else parsed pd (str_or tm [])) (map (newest pd) cs)"

definition folder_row :: "(jstr \<Rightarrow> int option) \<Rightarrow> HeatMap \<Rightarrow> int \<Rightarrow> Node \<Rightarrow> FolderReads list" where
  "folder_row pd h now c =
     (let n = (case heatFor (Some h) (npath c) True of None \<Rightarrow> 0 | Some e \<Rightarrow> heatTotal e); t = newest pd c
      in if \<not> ndir c \<or> n = 0 then []
         else [\<lparr>fname = nname c, freads = n,
                ffresh = freshness (if t \<noteq> 0 then Some (of_int (now - t) / 86400000) else None)\<rparr>])"

definition readsByFolder :: "(jstr \<Rightarrow> int option) \<Rightarrow> Node option \<Rightarrow> HeatMap option \<Rightarrow> int \<Rightarrow> FolderReads list" where
  "readsByFolder pd tree h now =
     (case (tree, h) of
        (Some nd, Some h) \<Rightarrow> sort_key (\<lambda>f. - int (freads f)) (concat (map (folder_row pd h now) (nchildren nd)))
      | _ \<Rightarrow> [])"

lemma unseen_entries_keys:
  "distinct (map entry_key (unseen_entries seen es))"
  "set (map entry_key (unseen_entries seen es)) = set (map entry_key es) - seen"
  by (induction seen es rule: unseen_entries.induct) auto

lemma unseen_entries_sub: "set (unseen_entries seen es) \<subseteq> set es"
  by (induction seen es rule: unseen_entries.induct) auto

lemma mergeEntries_once:
  fixes a b :: "Change list" and pd :: "jstr \<Rightarrow> int option"
  defines "m \<equiv> mergeEntries pd a b"
  shows "distinct (map entry_key m)" "entry_key ` set m = entry_key ` (set a \<union> set b)"
    "set m \<subseteq> set a \<union> set b" "sorted_wrt (\<lambda>x y. parsed pd (ctime x) \<ge> parsed pd (ctime y)) m"
proof -
  note k = unseen_entries_keys [of "{}" "a @ b"]
  have s: "set m = set (unseen_entries {} (a @ b))" by (simp add: m_def mergeEntries_def)
  show "entry_key ` set m = entry_key ` (set a \<union> set b)" using k(2) by (simp add: s image_Un)
  show "set m \<subseteq> set a \<union> set b" using unseen_entries_sub [of "{}" "a @ b"] by (simp add: s)
  have "inj_on entry_key (set m)" "distinct m"
    using k(1) by (simp_all add: s distinct_map m_def mergeEntries_def)
  then show "distinct (map entry_key m)" by (simp add: distinct_map)
  have "sorted (map (\<lambda>e. - parsed pd (ctime e)) m)" by (simp add: m_def mergeEntries_def)
  then show "sorted_wrt (\<lambda>x y. parsed pd (ctime x) \<ge> parsed pd (ctime y)) m"
    by (simp add: sorted_wrt_map)
qed

end
