(* ===== verification/VisualEdit.thy ===== *)
theory VisualEdit
  imports Prelude
begin

section \<open>Click-to-edit, the app's half (components/VisualEdit.tsx)\<close>

text \<open>
  One mount of the component's effect: the ranges the frame reports, the anchoring of them in the
  shared document once both halves are there, and the splice of a patch. The shared document is the
  CRDT library's: its text, its splice (delete and insert in one transaction) and its relative
  positions are arguments, and so is the digest. A promise that is awaited is a pending entry, so
  everything else can happen before it settles. React's re-render after \<open>setGen\<close> is \<open>remount\<close>.
\<close>

record ('d, 'r) Yjs =
  ytext :: "'d \<Rightarrow> jstr"
  ysplice :: "'d \<Rightarrow> nat \<Rightarrow> nat \<Rightarrow> jstr \<Rightarrow> 'd"
  yanchor :: "'d \<Rightarrow> nat \<Rightarrow> 'r"
  yresolve :: "'d \<Rightarrow> 'r \<Rightarrow> nat option"

record Span =
  sstart :: nat
  send :: nat

record 'r Anchor =
  afrom :: 'r
  ato :: 'r
  aspan :: int

record ('d, 'r) Visual =
  doc :: 'd
  ranges :: "Span list option"
  docReady :: bool
  srcHash :: jstr
  srcLen :: int
  anchored :: bool
  anchors :: "nat \<times> nat \<Rightarrow> 'r Anchor option"
  pending :: "jstr list"
  armed :: bool
  stuck :: bool
  warned :: bool
  attempt :: nat
  gen :: nat
  rendered :: nat

definition hex_digit :: "nat \<Rightarrow> nat" where
  "hex_digit n = (if n < 10 then 48 + n else 87 + n)"

text \<open>\<open>subtle\<close> is absent outside a secure context; the digest can also fail.\<close>

definition sha256Hex :: "(nat list \<Rightarrow> nat list option) option \<Rightarrow> (jstr \<Rightarrow> nat list) \<Rightarrow> jstr \<Rightarrow> jstr option" where
  "sha256Hex subtle encode s =
     (case subtle of None \<Rightarrow> None
      | Some digest \<Rightarrow> map_option (\<lambda>bs. concat (map (\<lambda>b. [hex_digit (b div 16), hex_digit (b mod 16)]) bs)) (digest (encode s)))"

definition visual_start :: "'d \<Rightarrow> ('d, 'r) Visual" where
  "visual_start d = \<lparr>doc = d, ranges = None, docReady = False, srcHash = [], srcLen = -1, anchored = False,
     anchors = (\<lambda>k. None), pending = [], armed = False, stuck = False, warned = False, attempt = 0, gen = 0, rendered = 0\<rparr>"

definition remount :: "'d \<Rightarrow> ('d, 'r) Visual \<Rightarrow> ('d, 'r) Visual" where
  "remount d s = (visual_start d)\<lparr>warned := warned s, attempt := attempt s, gen := gen s, rendered := rendered s\<rparr>"

definition rerender :: "('d, 'r) Visual \<Rightarrow> ('d, 'r) Visual" where
  "rerender s = s\<lparr>ranges := None, gen := gen s + 1\<rparr>"

definition out_of_document :: "jstr \<Rightarrow> Span \<Rightarrow> bool" where
  "out_of_document t r \<longleftrightarrow> send r > length t \<or> sstart r > send r"

text \<open>\<open>anchorRanges\<close> up to its await, and after it.\<close>

definition anchorRanges :: "('d, 'r) Yjs \<Rightarrow> ('d, 'r) Visual \<Rightarrow> ('d, 'r) Visual" where
  "anchorRanges y s =
     (case ranges s of
        None \<Rightarrow> s
      | Some rs \<Rightarrow>
          if anchored s \<or> \<not> docReady s then s
          else let t = ytext y (doc s)
               in if t = [] then s
                  else if list_ex (out_of_document t) rs then rerender s
                  else s\<lparr>pending := pending s @ [t]\<rparr>)"

definition moved :: "('d, 'r) Visual \<Rightarrow> jstr \<Rightarrow> jstr option \<Rightarrow> bool" where
  "moved s t digest =
     (case digest of Some h \<Rightarrow> h \<noteq> srcHash s | None \<Rightarrow> srcLen s \<ge> 0 \<and> int (length t) \<noteq> srcLen s)"

definition set_anchor :: "('d, 'r) Yjs \<Rightarrow> 'd \<Rightarrow> (nat \<times> nat \<Rightarrow> 'r Anchor option) \<Rightarrow> Span \<Rightarrow> (nat \<times> nat \<Rightarrow> 'r Anchor option)" where
  "set_anchor y d m r = m((sstart r, send r) \<mapsto>
     \<lparr>afrom = yanchor y d (sstart r), ato = yanchor y d (send r), aspan = int (send r) - int (sstart r)\<rparr>)"

text \<open>With the ranges dropped meanwhile, iterating them raises after the anchors are cleared.\<close>

definition anchor_ranges_hashed :: "('d, 'r) Yjs \<Rightarrow> jstr \<Rightarrow> jstr option \<Rightarrow> ('d, 'r) Visual \<Rightarrow> ('d, 'r) Visual" where
  "anchor_ranges_hashed y t digest s =
     (if moved s t digest then rerender s
      else case ranges s of
        None \<Rightarrow> s\<lparr>anchors := (\<lambda>k. None)\<rparr>
      | Some rs \<Rightarrow> s\<lparr>anchors := foldl (set_anchor y (doc s)) (\<lambda>k. None) rs, anchored := True, armed := True,
                     rendered := rendered s + 1\<rparr>)"

definition implausible :: "jstr \<Rightarrow> nat \<Rightarrow> nat \<Rightarrow> int \<Rightarrow> bool" where
  "implausible t f e stamped \<longleftrightarrow> (f = 0 \<and> e = length t \<and> stamped < int (length t)) \<or> int (e - f) > stamped * 4 + 256"

text \<open>The text changed, by whoever: the observer tries to anchor.\<close>

definition doc_changed :: "('d, 'r) Yjs \<Rightarrow> 'd \<Rightarrow> ('d, 'r) Visual \<Rightarrow> ('d, 'r) Visual" where
  "doc_changed y d s = anchorRanges y (s\<lparr>doc := d\<rparr>)"

definition on_ready :: "('d, 'r) Yjs \<Rightarrow> Span list \<Rightarrow> jstr \<Rightarrow> int \<Rightarrow> ('d, 'r) Visual \<Rightarrow> ('d, 'r) Visual" where
  "on_ready y rs h n s = anchorRanges y (s\<lparr>ranges := Some rs, srcHash := h, srcLen := n\<rparr>)"

definition on_patch :: "('d, 'r) Yjs \<Rightarrow> nat \<Rightarrow> nat \<Rightarrow> jstr \<Rightarrow> ('d, 'r) Visual \<Rightarrow> ('d, 'r) Visual" where
  "on_patch y st en html s =
     (case anchors s (st, en) of
        None \<Rightarrow> s
      | Some a \<Rightarrow>
          (case (yresolve y (doc s) (afrom a), yresolve y (doc s) (ato a)) of
             (Some f, Some e) \<Rightarrow>
               let t = ytext y (doc s)
               in if f > e then s
                  else if implausible t f e (aspan a) then s\<lparr>anchors := (\<lambda>k. None), anchored := False, gen := gen s + 1\<rparr>
                  else if slice f e t = html then s
                  else doc_changed y (ysplice y (doc s) f e html) s
           | _ \<Rightarrow> s))"

definition on_room_ready :: "('d, 'r) Yjs \<Rightarrow> ('d, 'r) Visual \<Rightarrow> ('d, 'r) Visual" where
  "on_room_ready y s = anchorRanges y (s\<lparr>docReady := True\<rparr>)"

definition on_solo :: "('d, 'r) Yjs \<Rightarrow> jstr \<Rightarrow> ('d, 'r) Visual \<Rightarrow> ('d, 'r) Visual" where
  "on_solo y seed s =
     on_room_ready y (if ytext y (doc s) = [] then doc_changed y (ysplice y (doc s) 0 0 seed) s else s)"

definition retry_timer :: "('d, 'r) Visual \<Rightarrow> ('d, 'r) Visual" where
  "retry_timer s = (if \<not> anchored s \<and> attempt s < 1 then s\<lparr>attempt := attempt s + 1, gen := gen s + 1\<rparr> else s)"

text \<open>The events of a mount. A message whose source is not the frame's window, or of another shape,
  does nothing; \<open>Hashed i\<close> settles the \<open>i\<close>-th outstanding digest.\<close>

datatype 'd Event =
    FrameReady "Span list" jstr int
  | FramePatch nat nat jstr
  | FrameClobbered
  | OtherMessage
  | RoomReady
  | RoomSolo jstr
  | DocChanged 'd
  | Hashed nat
  | RetryTimer
  | StuckTimer
  | Remount 'd

fun visual_step :: "('d, 'r) Yjs \<Rightarrow> (jstr \<Rightarrow> jstr option) \<Rightarrow> 'd Event \<Rightarrow> ('d, 'r) Visual \<Rightarrow> ('d, 'r) Visual" where
  "visual_step y hash (FrameReady rs h n) s = on_ready y rs h n s"
| "visual_step y hash (FramePatch st en html) s = on_patch y st en html s"
| "visual_step y hash FrameClobbered s = s\<lparr>warned := True\<rparr>"
| "visual_step y hash OtherMessage s = s"
| "visual_step y hash RoomReady s = on_room_ready y s"
| "visual_step y hash (RoomSolo seed) s = on_solo y seed s"
| "visual_step y hash (DocChanged d) s = doc_changed y d s"
| "visual_step y hash (Hashed i) s =
     (if i < length (pending s)
      then anchor_ranges_hashed y (pending s ! i) (hash (pending s ! i))
             (s\<lparr>pending := take i (pending s) @ drop (Suc i) (pending s)\<rparr>)
      else s)"
| "visual_step y hash RetryTimer s = retry_timer s"
| "visual_step y hash StuckTimer s = s\<lparr>stuck := True\<rparr>"
| "visual_step y hash (Remount d) s = (if gen s > 0 then remount d s else s)"

definition visual_run :: "('d, 'r) Yjs \<Rightarrow> (jstr \<Rightarrow> jstr option) \<Rightarrow> 'd Event list \<Rightarrow> ('d, 'r) Visual \<Rightarrow> ('d, 'r) Visual" where
  "visual_run y hash evs s = foldl (\<lambda>s ev. visual_step y hash ev s) s evs"

subsection \<open>What the library promises\<close>

text \<open>A splice replaces the range it names, and a position resolves to a place inside the text.\<close>

definition yjs_ok :: "('d, 'r) Yjs \<Rightarrow> bool" where
  "yjs_ok y \<longleftrightarrow>
     (\<forall>d f e html. f \<le> e \<longrightarrow> e \<le> length (ytext y d) \<longrightarrow>
        ytext y (ysplice y d f e html) = take f (ytext y d) @ html @ drop e (ytext y d))
     \<and> (\<forall>d r i. yresolve y d r = Some i \<longrightarrow> i \<le> length (ytext y d))"

subsection \<open>Invariant of a mount\<close>

text \<open>An anchor carries the width of the range it was stamped with, and there are none before the
  editor is armed; the automatic retry happens at most once over all mounts.\<close>

definition visual_inv :: "('d, 'r) Visual \<Rightarrow> bool" where
  "visual_inv s \<longleftrightarrow>
     (\<forall>st en a. anchors s (st, en) = Some a \<longrightarrow> aspan a = int en - int st \<and> armed s) \<and> attempt s \<le> 1"

lemma anchorRanges_keeps [simp]:
  "anchors (anchorRanges y s) = anchors s" "armed (anchorRanges y s) = armed s"
  "attempt (anchorRanges y s) = attempt s" "doc (anchorRanges y s) = doc s"
  by (simp_all add: anchorRanges_def rerender_def Let_def split: option.splits)

lemma set_anchors_span:
  "foldl (set_anchor y d) m rs (st, en) = Some a \<Longrightarrow>
     (\<And>a. m (st, en) = Some a \<Longrightarrow> aspan a = int en - int st) \<Longrightarrow> aspan a = int en - int st"
  by (induction rs arbitrary: m) (force simp: set_anchor_def split: if_splits)+

lemma set_anchors_lookup:
  assumes "r \<in> set rs"
  shows "foldl (set_anchor y d) m rs (sstart r, send r) =
    Some \<lparr>afrom = yanchor y d (sstart r), ato = yanchor y d (send r), aspan = int (send r) - int (sstart r)\<rparr>"
  using assms
proof (induction rs rule: rev_induct)
  case (snoc x xs)
  then show ?case by (auto simp: set_anchor_def)
qed simp

lemma visual_inv_step: "visual_inv s \<Longrightarrow> visual_inv (visual_step y hash ev s)"
proof (cases ev)
  case (Hashed i)
  moreover assume "visual_inv s"
  ultimately show ?thesis
    by (auto simp: visual_inv_def anchor_ranges_hashed_def rerender_def dest: set_anchors_span split: option.splits)
next
  case (FramePatch st en html)
  moreover assume "visual_inv s"
  ultimately show ?thesis
    by (auto simp: visual_inv_def on_patch_def doc_changed_def Let_def split: option.splits)
qed (auto simp: visual_inv_def on_ready_def on_room_ready_def on_solo_def doc_changed_def retry_timer_def
       remount_def visual_start_def)

lemma visual_inv_run: "visual_inv s \<Longrightarrow> visual_inv (visual_run y hash evs s)"
  unfolding visual_run_def by (induction evs arbitrary: s) (simp_all add: visual_inv_step)

lemma visual_inv_start [simp]: "visual_inv (visual_start d)"
  by (simp add: visual_inv_def visual_start_def)

subsection \<open>What a patch can do\<close>

text \<open>C3: A patch never swallows the document. In every state a mount can reach, with the frame free
  to send anything and the document free to change under it, a patch for a range leaves the text as
  it is or replaces one range of it, and only once the editor is armed: everything outside that range
  is kept, the range is at most four times the stamped width and 256 characters wide, and it is the
  whole text only if the stamped range was at least as long as the whole text.\<close>

theorem patch_never_swallows:
  assumes "yjs_ok y" and s: "s = visual_run y hash evs (visual_start d)"
    and t: "t = ytext y (doc s)" and t': "t' = ytext y (doc (visual_step y hash (FramePatch st en html) s))"
  shows "t' = t \<or>
    (armed s \<and> (\<exists>f e. f \<le> e \<and> e \<le> length t \<and> t' = take f t @ html @ drop e t
       \<and> int (e - f) \<le> 4 * (int en - int st) + 256
       \<and> (f = 0 \<and> e = length t \<longrightarrow> int (length t) \<le> int en - int st)))"
proof (cases "anchors s (st, en)")
  case None
  then show ?thesis by (simp add: t t' on_patch_def)
next
  case (Some a)
  have inv: "visual_inv s" unfolding s by (intro visual_inv_run visual_inv_start)
  have a: "aspan a = int en - int st" "armed s" using inv Some by (auto simp: visual_inv_def)
  show ?thesis
  proof (cases "yresolve y (doc s) (afrom a)")
    case None
    with Some show ?thesis by (simp add: t t' on_patch_def)
  next
    case f: (Some f)
    show ?thesis
    proof (cases "yresolve y (doc s) (ato a)")
      case None
      with Some f show ?thesis by (simp add: t t' on_patch_def)
    next
      case e: (Some e)
      show ?thesis
      proof (cases "f > e \<or> implausible t f e (aspan a) \<or> slice f e t = html")
        case True
        with Some f e show ?thesis by (auto simp: t t' on_patch_def Let_def)
      next
        case False
        have le: "e \<le> length t" using \<open>yjs_ok y\<close> e by (auto simp: yjs_ok_def t)
        have "t' = ytext y (ysplice y (doc s) f e html)"
          using Some f e False by (simp add: t t' on_patch_def doc_changed_def Let_def)
        then have "t' = take f t @ html @ drop e t"
          using \<open>yjs_ok y\<close> False le by (simp add: yjs_ok_def t)
        moreover have "f \<le> e" "int (e - f) \<le> 4 * (int en - int st) + 256"
          "f = 0 \<and> e = length t \<longrightarrow> int (length t) \<le> int en - int st"
          using False a(1) by (auto simp: implausible_def)
        ultimately show ?thesis using le a(2) by blast
      qed
    qed
  qed
qed

text \<open>C39: A patch edits exactly its element. When the ranges are anchored in the document whose digest
  was compared, the next patch for one of them replaces exactly the characters the range was stamped
  with: the text before the range and the text after it are untouched.\<close>

theorem patch_exact:
  assumes "yjs_ok y" and pos: "\<And>d i. i \<le> length (ytext y d) \<Longrightarrow> yresolve y d (yanchor y d i) = Some i"
    and t: "t = ytext y (doc s)" and ok: "\<not> moved s t digest" and rs: "ranges s = Some rs"
    and r: "r \<in> set rs" "sstart r \<le> send r" "send r \<le> length t"
  shows "ytext y (doc (on_patch y (sstart r) (send r) html (anchor_ranges_hashed y t digest s)))
    = take (sstart r) t @ html @ drop (send r) t"
proof -
  let ?s = "anchor_ranges_hashed y t digest s"
  have d: "doc ?s = doc s" using ok rs by (simp add: anchor_ranges_hashed_def)
  have a: "anchors ?s (sstart r, send r) = Some \<lparr>afrom = yanchor y (doc s) (sstart r), ato = yanchor y (doc s) (send r),
      aspan = int (send r) - int (sstart r)\<rparr>"
    using ok rs set_anchors_lookup [OF r(1)] by (simp add: anchor_ranges_hashed_def)
  have fe: "yresolve y (doc s) (yanchor y (doc s) (sstart r)) = Some (sstart r)"
    "yresolve y (doc s) (yanchor y (doc s) (send r)) = Some (send r)"
    using pos r by (simp_all add: t)
  have im: "\<not> implausible t (sstart r) (send r) (int (send r) - int (sstart r))"
    using r by (auto simp: implausible_def)
  have sp: "ytext y (ysplice y (doc s) (sstart r) (send r) html) = take (sstart r) t @ html @ drop (send r) t"
    using \<open>yjs_ok y\<close> r by (simp add: yjs_ok_def t)
  show ?thesis
  proof (cases "slice (sstart r) (send r) t = html")
    case True
    then have "take (sstart r) t @ html @ drop (send r) t = t"
      using r by (metis append_assoc append_take_drop_id le_add_diff_inverse slice_def take_add)
    with True show ?thesis using im r by (simp add: on_patch_def a d fe t [symmetric] Let_def)
  next
    case False
    then show ?thesis using im r by (simp add: on_patch_def a d fe sp t [symmetric] Let_def doc_changed_def)
  qed
qed

subsection \<open>A document for the witnesses: positions are indices\<close>

definition plain :: "(jstr, nat) Yjs" where
  "plain = \<lparr>ytext = (\<lambda>d. d), ysplice = (\<lambda>d f e html. take f d @ html @ drop e d), yanchor = (\<lambda>d i. i),
     yresolve = (\<lambda>d i. if i \<le> length d then Some i else None)\<rparr>"

lemma plain_ok: "yjs_ok plain" "i \<le> length (ytext plain d) \<Longrightarrow> yresolve plain d (yanchor plain d i) = Some i"
  by (simp_all add: yjs_ok_def plain_def)

lemma patch_never_swallows_witness:
  defines "s \<equiv> visual_run plain (\<lambda>t. Some [7]) [RoomReady, FrameReady [\<lparr>sstart = 1, send = 3\<rparr>] [7] 4, Hashed 0] (visual_start [1, 2, 3, 4])"
  shows "armed s \<and> doc (visual_step plain (\<lambda>t. Some [7]) (FramePatch 1 3 [9]) s) = [1, 9, 4]
    \<and> (\<exists>f e. f \<le> e \<and> e \<le> length (doc s) \<and> [1, 9, 4] = take f (doc s) @ [9] @ drop e (doc s)
         \<and> int (e - f) \<le> 4 * (int 3 - int 1) + 256)"
proof -
  have e: "doc s = [1, 2, 3, 4]" "doc (visual_step plain (\<lambda>t. Some [7]) (FramePatch 1 3 [9]) s) = [1, 9, 4]"
    unfolding s_def by code_simp+
  have "ytext plain d = d" for d by (simp add: plain_def)
  with patch_never_swallows [OF plain_ok(1) meta_eq_to_obj_eq [OF s_def] refl refl, of 1 3 "[9]"] e
  show ?thesis by auto
qed

lemma patch_exact_witness:
  "ytext plain (doc (on_patch plain 1 3 [9] (anchor_ranges_hashed plain [1, 2, 3, 4] (Some [7])
     ((visual_start [1, 2, 3, 4])\<lparr>ranges := Some [\<lparr>sstart = 1, send = 3\<rparr>], srcHash := [7]\<rparr>)))) = [1, 9, 4]"
proof -
  let ?s = "(visual_start [1, 2, 3, 4] :: (jstr, nat) Visual)\<lparr>ranges := Some [\<lparr>sstart = 1, send = 3\<rparr>], srcHash := [7]\<rparr>"
  have "ytext plain (doc (on_patch plain (sstart \<lparr>sstart = 1, send = 3\<rparr>) (send \<lparr>sstart = 1, send = 3\<rparr>) [9]
      (anchor_ranges_hashed plain [1, 2, 3, 4] (Some [7]) ?s)))
    = take (sstart \<lparr>sstart = 1, send = 3\<rparr>) [1, 2, 3, 4] @ [9] @ drop (send \<lparr>sstart = 1, send = 3\<rparr>) [1, 2, 3, 4]"
    by (rule patch_exact [where rs = "[\<lparr>sstart = 1, send = 3\<rparr>]"])
      (simp_all add: plain_ok, simp_all add: plain_def visual_start_def moved_def)
  then show ?thesis by simp
qed

text \<open>The digest is compared for the text read before the await, the anchors are taken in the document
  after it. A co-editor's update in between leaves them off by its length: the file was served as
  2, 3, 4 with the range of the 3, the 9 goes to the place of the 2, and the 3 stays.\<close>

lemma anchors_race:
  "doc (visual_run plain (\<lambda>t. Some t)
     [RoomReady, FrameReady [\<lparr>sstart = 1, send = 2\<rparr>] [2, 3, 4] 3, DocChanged [1, 2, 3, 4], Hashed 0, FramePatch 1 2 [9]]
     (visual_start [2, 3, 4])) = [1, 9, 3, 4]"
  by code_simp

end
