(* ===== verification/InlineEdit.thy ===== *)
theory InlineEdit
  imports Prelude
begin

section \<open>Click-to-edit, the frame's half (inline-edit.ts)\<close>

text \<open>
  The script in the sandboxed page: which elements may be edited, the one live editor, and the
  messages it posts. Elements are numbers; the page keeps their inner HTML and their range
  attribute. The editor library is a parser from inner HTML into its document (\<open>None\<close> where it
  throws) and a serializer, both arguments; \<open>num s\<close> is \<open>Number(s)\<close> where that is an integer. Caret
  placement and styles are left out.
\<close>

record 'n Editor =
  pm_parse :: "jstr \<Rightarrow> 'n option"
  pm_serialize :: "'n \<Rightarrow> jstr"
  num :: "jstr \<Rightarrow> int option"

datatype Msg = PatchMsg int int jstr | ClobberedMsg | ReadyMsg jstr int "(int \<times> int) list"

record 'n Frame =
  inner :: "nat \<Rightarrow> jstr"
  src_attr :: "nat \<Rightarrow> jstr option"
  verdicts :: "nat \<Rightarrow> bool option"
  edit_attr :: "nat \<Rightarrow> bool option"
  editing_attr :: "nat \<Rightarrow> bool"
  view :: "'n option"
  host :: "nat option"
  "range" :: "(int \<times> int) option"
  before :: jstr
  sent :: "Msg list"

definition roundTrips :: "'n Editor \<Rightarrow> jstr \<Rightarrow> bool" where
  "roundTrips ed html = (case pm_parse ed html of None \<Rightarrow> False | Some n \<Rightarrow> pm_serialize ed n = html)"

definition rangeOf :: "'n Editor \<Rightarrow> jstr option \<Rightarrow> (int \<times> int) option" where
  "rangeOf ed raw =
     (if \<not> truthy raw then None
      else case split_on 44 (the raw) of
        a # b # _ \<Rightarrow>
          (case (num ed a, num ed b) of (Some s, Some e) \<Rightarrow> if s > e then None else Some (s, e) | _ \<Rightarrow> None)
      | _ \<Rightarrow> None)"

definition post :: "Msg \<Rightarrow> 'n Frame \<Rightarrow> 'n Frame" where
  "post m s = s\<lparr>sent := sent s @ [m]\<rparr>"

definition editable :: "'n Editor \<Rightarrow> nat \<Rightarrow> 'n Frame \<Rightarrow> bool \<times> 'n Frame" where
  "editable ed el s =
     (case verdicts s el of
        Some v \<Rightarrow> (v, s)
      | None \<Rightarrow>
          let v = roundTrips ed (inner s el)
          in (v, s\<lparr>verdicts := (verdicts s)(el \<mapsto> v), edit_attr := (edit_attr s)(el \<mapsto> v)\<rparr>))"

definition currentHTML :: "'n Editor \<Rightarrow> 'n Frame \<Rightarrow> jstr option" where
  "currentHTML ed s = map_option (pm_serialize ed) (view s)"

definition flush :: "'n Editor \<Rightarrow> 'n Frame \<Rightarrow> 'n Frame" where
  "flush ed s =
     (case (host s, range s) of
        (Some el, Some (st, en)) \<Rightarrow>
          (case currentHTML ed s of
             None \<Rightarrow> s
           | Some html \<Rightarrow> if html = before s then s else post (PatchMsg st en html) (s\<lparr>before := html\<rparr>))
      | _ \<Rightarrow> s)"

text \<open>Destroying the view empties the element it was mounted on; its markup is put back.\<close>

definition unmount :: "'n Editor \<Rightarrow> 'n Frame \<Rightarrow> 'n Frame" where
  "unmount ed s =
     (if view s = None then s
      else let s = flush ed s; html = currentHTML ed s
           in case host s of
                None \<Rightarrow> s\<lparr>view := None, range := None\<rparr>
              | Some el \<Rightarrow>
                  s\<lparr>view := None, inner := (inner s)(el := (case html of None \<Rightarrow> [] | Some h \<Rightarrow> h)),
                    editing_attr := (editing_attr s)(el := False), verdicts := (verdicts s)(el := None),
                    edit_attr := (edit_attr s)(el := None), host := None, range := None\<rparr>)"

definition mount :: "'n Editor \<Rightarrow> nat \<Rightarrow> 'n Frame \<Rightarrow> 'n Frame" where
  "mount ed el s =
     (if host s = Some el then s
      else let s = unmount ed s
           in case rangeOf ed (src_attr s el) of
                None \<Rightarrow> s
              | Some r \<Rightarrow>
                  s\<lparr>host := Some el, range := Some r, before := inner s el,
                    editing_attr := (editing_attr s)(el := True), view := pm_parse ed (inner s el)\<rparr>)"

text \<open>A click with the nearest element that carries the range attribute, if any.\<close>

definition clicked :: "'n Editor \<Rightarrow> nat option \<Rightarrow> 'n Frame \<Rightarrow> 'n Frame" where
  "clicked ed target s =
     (case target of
        None \<Rightarrow> unmount ed s
      | Some el \<Rightarrow> (case editable ed el s of (ok, s) \<Rightarrow> if ok then mount ed el s else s))"

definition hovered :: "'n Editor \<Rightarrow> nat option \<Rightarrow> 'n Frame \<Rightarrow> 'n Frame" where
  "hovered ed target s = (case target of None \<Rightarrow> s | Some el \<Rightarrow> snd (editable ed el s))"

text \<open>A transaction of the live view that changes its document.\<close>

definition dispatched :: "'n Editor \<Rightarrow> 'n \<Rightarrow> 'n Frame \<Rightarrow> 'n Frame" where
  "dispatched ed n s = (if view s = None then s else flush ed (s\<lparr>view := Some n\<rparr>))"

definition host_detached :: "'n Frame \<Rightarrow> 'n Frame" where
  "host_detached s = (if host s = None then s
     else (post ClobberedMsg s)\<lparr>view := None, host := None, range := None\<rparr>)"

definition ready :: "'n Editor \<Rightarrow> jstr option \<Rightarrow> jstr option \<Rightarrow> nat list \<Rightarrow> 'n Frame \<Rightarrow> 'n Frame" where
  "ready ed hash n els s = post (ReadyMsg (case hash of None \<Rightarrow> [] | Some h \<Rightarrow> h)
     (case num ed (case n of None \<Rightarrow> js ''-1'' | Some l \<Rightarrow> l) of None \<Rightarrow> -1 | Some l \<Rightarrow> l)
     (List.map_filter (\<lambda>el. rangeOf ed (src_attr s el)) els)) s"

text \<open>What happens in the page. \<open>Escape\<close> unmounts; Enter is swallowed and a selection changes no
  document, so neither is an event. \<open>Scripted\<close> and \<open>Detached\<close> are the page's own scripts.\<close>

datatype 'n Event =
    Click "nat option"
  | Hover "nat option"
  | Typed 'n
  | Escape
  | Unload
  | Scripted nat jstr
  | Detached

fun frame_step :: "'n Editor \<Rightarrow> 'n Event \<Rightarrow> 'n Frame \<Rightarrow> 'n Frame" where
  "frame_step ed (Click t) s = clicked ed t s"
| "frame_step ed (Hover t) s = hovered ed t s"
| "frame_step ed (Typed n) s = dispatched ed n s"
| "frame_step ed Escape s = unmount ed s"
| "frame_step ed Unload s = unmount ed s"
| "frame_step ed (Scripted el html) s = s\<lparr>inner := (inner s)(el := html)\<rparr>"
| "frame_step ed Detached s = host_detached s"

definition frame_run :: "'n Editor \<Rightarrow> 'n Event list \<Rightarrow> 'n Frame \<Rightarrow> 'n Frame" where
  "frame_run ed evs s = foldl (\<lambda>s ev. frame_step ed ev s) s evs"

definition page :: "(nat \<Rightarrow> jstr) \<Rightarrow> (nat \<Rightarrow> jstr option) \<Rightarrow> 'n Frame" where
  "page html attr = \<lparr>inner = html, src_attr = attr, verdicts = (\<lambda>el. None), edit_attr = (\<lambda>el. None),
     editing_attr = (\<lambda>el. False), view = None, host = None, range = None, before = [], sent = []\<rparr>"

subsection \<open>What is on the page has been reported\<close>

definition shown :: "'n Editor \<Rightarrow> 'n Frame \<Rightarrow> nat \<Rightarrow> jstr" where
  "shown ed s el = (case view s of Some n \<Rightarrow> if host s = Some el then pm_serialize ed n else inner s el | None \<Rightarrow> inner s el)"

text \<open>What the app was last told of a range, over what the page held at first.\<close>

fun told :: "(int \<times> int) option \<Rightarrow> jstr \<Rightarrow> Msg list \<Rightarrow> jstr" where
  "told r h [] = h"
| "told r h (PatchMsg s e html # ms) = told r (if r = Some (s, e) then html else h) ms"
| "told r h (_ # ms) = told r h ms"

definition distinct_ranges :: "'n Editor \<Rightarrow> (nat \<Rightarrow> jstr option) \<Rightarrow> bool" where
  "distinct_ranges ed attr \<longleftrightarrow>
     (\<forall>x y. rangeOf ed (attr x) = rangeOf ed (attr y) \<longrightarrow> rangeOf ed (attr x) \<noteq> None \<longrightarrow> x = y)"

definition own_event :: "'n Event \<Rightarrow> bool" where
  "own_event ev = (case ev of Scripted el html \<Rightarrow> False | Detached \<Rightarrow> False | _ \<Rightarrow> True)"

lemma told_append: "told r h (ms @ ms') = told r (told r h ms) ms'"
  by (induction r h ms rule: told.induct) simp_all

text \<open>The invariant: a live editor has its host, the host's range and its document reported; an
  element judged editable still survives the round trip; every element shows what was reported.\<close>

definition frame_inv :: "'n Editor \<Rightarrow> (nat \<Rightarrow> jstr) \<Rightarrow> (nat \<Rightarrow> jstr option) \<Rightarrow> 'n Frame \<Rightarrow> bool" where
  "frame_inv ed html0 attr s \<longleftrightarrow> src_attr s = attr
     \<and> (view s = None \<longleftrightarrow> host s = None)
     \<and> (\<forall>el n. host s = Some el \<longrightarrow> view s = Some n \<longrightarrow>
          range s = rangeOf ed (attr el) \<and> range s \<noteq> None \<and> before s = pm_serialize ed n)
     \<and> (\<forall>el. verdicts s el = Some True \<longrightarrow> host s \<noteq> Some el \<longrightarrow> roundTrips ed (inner s el))
     \<and> (\<forall>el. shown ed s el = told (rangeOf ed (attr el)) (html0 el) (sent s))"

lemma frame_inv_page: "frame_inv ed html attr (page html attr)"
  by (simp add: frame_inv_def page_def shown_def)

lemma shown_told: "frame_inv ed h attr s \<Longrightarrow> told (rangeOf ed (attr x)) (h x) (sent s) = shown ed s x"
  by (simp add: frame_inv_def)

lemma editable_keeps:
  "shown ed (snd (editable ed el s)) = shown ed s" "sent (snd (editable ed el s)) = sent s"
  "src_attr (snd (editable ed el s)) = src_attr s" "view (snd (editable ed el s)) = view s"
  "host (snd (editable ed el s)) = host s" "range (snd (editable ed el s)) = range s"
  "before (snd (editable ed el s)) = before s" "inner (snd (editable ed el s)) = inner s"
  "verdicts (snd (editable ed el s)) x = (if x = el \<and> verdicts s el = None then Some (roundTrips ed (inner s el)) else verdicts s x)"
  by (auto simp: editable_def shown_def fun_eq_iff Let_def split: option.split)

lemma frame_inv_editable:
  assumes "frame_inv ed h attr s"
  shows "frame_inv ed h attr (snd (editable ed el s))"
    "fst (editable ed el s) \<Longrightarrow> verdicts (snd (editable ed el s)) el = Some True"
proof -
  show "frame_inv ed h attr (snd (editable ed el s))"
    using assms unfolding frame_inv_def editable_keeps by (simp split: if_split) metis
  show "fst (editable ed el s) \<Longrightarrow> verdicts (snd (editable ed el s)) el = Some True"
    by (auto simp: editable_def Let_def split: option.splits)
qed

lemma flush_reported:
  "frame_inv ed h attr s \<Longrightarrow> flush ed s = s"
  by (auto simp: frame_inv_def flush_def currentHTML_def split: option.splits)

lemma frame_inv_unmount:
  assumes "frame_inv ed h attr s"
  shows "frame_inv ed h attr (unmount ed s) \<and> host (unmount ed s) = None
    \<and> (\<forall>el. host s \<noteq> Some el \<longrightarrow> verdicts (unmount ed s) el = verdicts s el \<and> inner (unmount ed s) el = inner s el)"
proof (cases "view s")
  case None
  with assms show ?thesis by (simp add: unmount_def frame_inv_def)
next
  case (Some n)
  with assms obtain el where el: "host s = Some el" by (auto simp: frame_inv_def)
  have u: "unmount ed s = s\<lparr>view := None, inner := (inner s)(el := pm_serialize ed n), editing_attr := (editing_attr s)(el := False),
      verdicts := (verdicts s)(el := None), edit_attr := (edit_attr s)(el := None), host := None, range := None\<rparr>"
    using Some el by (simp add: unmount_def flush_reported [OF assms] currentHTML_def)
  have "shown ed (unmount ed s) = shown ed s"
    using Some el by (auto simp: u shown_def fun_eq_iff)
  with assms el show ?thesis unfolding frame_inv_def by (simp add: u)
qed

lemma frame_inv_mount:
  assumes "frame_inv ed h attr s" "verdicts s el = Some True"
  shows "frame_inv ed h attr (mount ed el s)"
proof (cases "host s = Some el")
  case True
  with assms show ?thesis by (simp add: mount_def)
next
  case False
  let ?u = "unmount ed s"
  from frame_inv_unmount [OF assms(1)] False assms(2)
  have u: "frame_inv ed h attr ?u" "host ?u = None" "verdicts ?u el = Some True" by auto
  then have "roundTrips ed (inner ?u el)" by (simp add: frame_inv_def)
  then obtain n where n: "pm_parse ed (inner ?u el) = Some n" "pm_serialize ed n = inner ?u el"
    by (auto simp: roundTrips_def split: option.splits)
  have v: "view ?u = None" and a: "src_attr ?u = attr" using u by (simp_all add: frame_inv_def)
  show ?thesis
  proof (cases "rangeOf ed (attr el)")
    case None
    with u False a show ?thesis by (simp add: mount_def Let_def)
  next
    case (Some r)
    with u n v show ?thesis unfolding frame_inv_def by (auto simp: mount_def False Let_def a shown_def)
  qed
qed

lemma frame_inv_typed:
  assumes "frame_inv ed h attr s" "distinct_ranges ed attr"
  shows "frame_inv ed h attr (dispatched ed n s)"
proof (cases "view s")
  case None
  with assms show ?thesis by (simp add: dispatched_def)
next
  case (Some m)
  with assms(1) obtain el st en where el: "host s = Some el" "range s = Some (st, en)" "rangeOf ed (attr el) = Some (st, en)"
    "before s = pm_serialize ed m" unfolding frame_inv_def by (metis not_None_eq surj_pair)
  have other: "rangeOf ed (attr x) = Some (st, en) \<Longrightarrow> x = el" for x
    using assms(2) el(3) unfolding distinct_ranges_def by (metis option.distinct(1))
  show ?thesis
  proof (cases "pm_serialize ed n = before s")
    case True
    then have d: "dispatched ed n s = s\<lparr>view := Some n\<rparr>"
      using Some el by (simp add: dispatched_def flush_def currentHTML_def)
    have "shown ed (s\<lparr>view := Some n\<rparr>) x = shown ed s x" for x
      using True Some el by (simp add: shown_def)
    with assms(1) True Some el show ?thesis unfolding frame_inv_def d by simp
  next
    case False
    then have d: "dispatched ed n s = s\<lparr>view := Some n, before := pm_serialize ed n, sent := sent s @ [PatchMsg st en (pm_serialize ed n)]\<rparr>"
      using Some el by (simp add: dispatched_def flush_def currentHTML_def post_def)
    have "shown ed (dispatched ed n s) x = told (rangeOf ed (attr x)) (h x) (sent (dispatched ed n s))" for x
      using shown_told [OF assms(1), of x] Some el other [of x] by (auto simp: d shown_def told_append)
    with assms(1) Some el show ?thesis unfolding frame_inv_def by (simp add: d)
  qed
qed

lemma frame_inv_step:
  assumes "frame_inv ed h attr s" "distinct_ranges ed attr" "own_event ev"
  shows "frame_inv ed h attr (frame_step ed ev s)"
proof (cases ev)
  case (Click t)
  show ?thesis
  proof (cases t)
    case None
    then show ?thesis using frame_inv_unmount [OF assms(1)] by (simp add: Click clicked_def)
  next
    case (Some el)
    note e = frame_inv_editable [OF assms(1), of el]
    show ?thesis using e(1) frame_inv_mount [OF e(1) e(2)] by (simp add: Click Some clicked_def case_prod_beta)
  qed
next
  case (Hover t)
  then show ?thesis using frame_inv_editable(1) [OF assms(1)] assms(1) by (simp add: hovered_def split: option.split)
next
  case (Typed n)
  then show ?thesis using frame_inv_typed [OF assms(1,2)] by simp
qed (use assms(3) frame_inv_unmount [OF assms(1)] in \<open>simp_all add: own_event_def\<close>)

lemma frame_inv_run:
  "frame_inv ed h attr s \<Longrightarrow> distinct_ranges ed attr \<Longrightarrow> \<forall>ev \<in> set evs. own_event ev \<Longrightarrow> frame_inv ed h attr (frame_run ed evs s)"
  unfolding frame_run_def by (induction evs arbitrary: s) (simp_all add: frame_inv_step)

lemma silent_step:
  assumes "frame_inv ed h attr s" "own_event ev" "\<And>n. ev \<noteq> Typed n"
  shows "sent (frame_step ed ev s) = sent s"
proof -
  have u: "sent (unmount ed x) = sent x" if "frame_inv ed h attr x" for x
    by (simp add: unmount_def flush_reported [OF that] Let_def split: option.split)
  have m: "sent (mount ed el x) = sent x" if "frame_inv ed h attr x" for x el
    using u [OF that] by (simp add: mount_def Let_def split: option.split)
  show ?thesis
  proof (cases ev)
    case (Click t)
    then show ?thesis
      by (cases t) (simp_all add: clicked_def case_prod_beta u [OF assms(1)] m [OF frame_inv_editable(1) [OF assms(1)]] editable_keeps)
  next
    case (Hover t)
    then show ?thesis by (simp add: hovered_def editable_keeps split: option.split)
  qed (use assms(2,3) u [OF assms(1)] in \<open>auto simp: own_event_def\<close>)
qed

lemma silent_run:
  "frame_inv ed h attr s \<Longrightarrow> distinct_ranges ed attr \<Longrightarrow> \<forall>ev \<in> set evs. own_event ev \<and> (\<forall>n. ev \<noteq> Typed n) \<Longrightarrow>
     sent (frame_run ed evs s) = sent s"
proof (induction evs arbitrary: s)
  case (Cons ev evs)
  have "frame_inv ed h attr (frame_step ed ev s)" using Cons.prems by (intro frame_inv_step) auto
  from Cons.IH [OF this Cons.prems(2)] Cons.prems silent_step [OF Cons.prems(1), of ev]
  show ?case by (simp add: frame_run_def)
qed (simp add: frame_run_def)

text \<open>C4: The app knows what the page shows. On a page whose own scripts leave its text alone, after any
  sequence of clicks, hovers, changes in the live editor, Escape and unloading, every element shows
  exactly what the last patch for its range said, or its first content when there was none: no
  keystroke lives only in the frame, also in the element being edited, and closing an editor never
  loses or alters markup. Without a change in an editor nothing is sent and the page is as it was.\<close>

theorem frame_shows_what_it_sent:
  assumes "distinct_ranges ed attr" "\<forall>ev \<in> set evs. own_event ev" and s: "s = frame_run ed evs (page html attr)"
  shows "shown ed s el = told (rangeOf ed (attr el)) (html el) (sent s)
    \<and> ((\<forall>n. Typed n \<notin> set evs) \<longrightarrow> sent s = [] \<and> shown ed s el = html el)"
proof (intro conjI impI)
  have inv: "frame_inv ed html attr s" unfolding s by (intro frame_inv_run frame_inv_page assms(1,2))
  then show told: "shown ed s el = told (rangeOf ed (attr el)) (html el) (sent s)" by (simp add: frame_inv_def)
  assume n: "\<forall>n. Typed n \<notin> set evs"
  have "sent s = sent (page html attr :: 'a Frame)"
    unfolding s using assms(2) n by (intro silent_run [OF frame_inv_page assms(1)]) auto
  then show "sent s = []" by (simp add: page_def)
  with told show "shown ed s el = html el" by simp
qed

subsection \<open>A concrete page\<close>

text \<open>A schema that drops the character 9, and a page of two elements.\<close>

definition toy_editor :: "jstr Editor" where
  "toy_editor = \<lparr>pm_parse = Some, pm_serialize = filter (\<lambda>u. u \<noteq> 9),
     num = (\<lambda>s. if s \<noteq> [] \<and> list_all is_digit s then Some (int (digits_val s)) else None)\<rparr>"

definition two_elements :: "nat \<Rightarrow> jstr option" where
  "two_elements el = (if el = 0 then Some (js ''1,3'') else if el = 1 then Some (js ''5,7'') else None)"

lemma two_ranges:
  "rangeOf toy_editor (two_elements 0) = Some (1, 3)" "rangeOf toy_editor (two_elements 1) = Some (5, 7)"
  by code_simp+

lemma two_only: "rangeOf toy_editor (two_elements el) = Some r \<Longrightarrow> el = 0 \<and> r = (1, 3) \<or> el = 1 \<and> r = (5, 7)"
proof (cases "el = 0 \<or> el = 1")
  case True
  moreover assume "rangeOf toy_editor (two_elements el) = Some r"
  ultimately show ?thesis using two_ranges by (elim disjE) simp_all
next
  case False
  moreover assume "rangeOf toy_editor (two_elements el) = Some r"
  ultimately show ?thesis by (simp add: two_elements_def rangeOf_def truthy_def)
qed

lemma two_distinct: "distinct_ranges toy_editor two_elements"
  unfolding distinct_ranges_def
proof (intro allI impI)
  fix x y
  assume e: "rangeOf toy_editor (two_elements x) = rangeOf toy_editor (two_elements y)"
    and n: "rangeOf toy_editor (two_elements x) \<noteq> None"
  obtain r where r: "rangeOf toy_editor (two_elements x) = Some r" using n by (rule not_None_eq [THEN iffD1, THEN exE])
  then have r': "rangeOf toy_editor (two_elements y) = Some r" by (simp only: e)
  show "x = y" using two_only [OF r] two_only [OF r'] by fastforce
qed

lemma frame_shows_what_it_sent_witness:
  defines "s \<equiv> frame_run toy_editor [Hover (Some 0), Click (Some 0), Typed [2, 2], Click (Some 1), Typed [5], Click None]
    (page (\<lambda>el. [el + 2]) two_elements)"
  shows "shown toy_editor s 0 = told (Some (1, 3)) [2] (sent s) \<and> sent s = [PatchMsg 1 3 [2, 2], PatchMsg 5 7 [5]]"
proof -
  have "shown toy_editor s 0 = told (rangeOf toy_editor (two_elements 0)) [0 + 2] (sent s)"
    by (rule frame_shows_what_it_sent [OF two_distinct _ meta_eq_to_obj_eq [OF s_def], THEN conjunct1]) (simp add: own_event_def)
  moreover have "sent s = [PatchMsg 1 3 [2, 2], PatchMsg 5 7 [5]]" unfolding s_def by code_simp
  ultimately show ?thesis by (simp add: two_ranges)
qed

text \<open>The verdict is kept while the page's own script changes the element: hovered when it still
  survived the round trip, rewritten, then clicked and left, it is sent without the character the
  schema cannot hold, and nothing was typed.\<close>

lemma stale_verdict_writes:
  "sent (frame_run toy_editor [Hover (Some 0), Scripted 0 [2, 9], Click (Some 0), Click None]
     (page (\<lambda>el. [2]) two_elements)) = [PatchMsg 1 3 [2]]"
proof -
  have "roundTrips toy_editor [2]" "pm_parse toy_editor [2, 9] = Some [2, 9]" "pm_serialize toy_editor [2, 9] = [2]"
    by code_simp+
  then show ?thesis
    by (simp add: frame_run_def page_def hovered_def clicked_def editable_def mount_def unmount_def flush_def post_def
        currentHTML_def two_ranges Let_def)
qed

end
