(* ===== verification/Live.thy ===== *)
theory Live
  imports Prelude Uri Util TreeView
begin

section \<open>What the browser keeps of the hub (hooks/useProjectEvents.ts, useBlob.ts, useBrowse.ts)\<close>

text \<open>
  The queries' cache is seen through what is done to it: the query keys that are invalidated, where
  a key stands for every query whose key begins with it. One tab of a project holds the event stream
  and relays its frames to the others over a broadcast channel; which one is decided by a web lock,
  granted in order to one waiter at a time. A relayed frame is delivered at once. \<open>JSON.parse\<close>,
  \<open>Number\<close> and the UTF-8 decoder are arguments, and an encoding error (\<open>URIError\<close>) is \<open>None\<close>.
\<close>

subsection \<open>Addresses and bodies (hooks/useBlob.ts)\<close>

definition opt_param :: "string \<Rightarrow> jstr option \<Rightarrow> jstr option" where
  "opt_param k v = (if truthy v then map_option (\<lambda>e. js (''&'' @ k @ ''='') @ e) (encodeURIComponent (the v)) else Some [])"

definition blobURL :: "jstr \<Rightarrow> jstr \<Rightarrow> jstr option \<Rightarrow> bool \<Rightarrow> jstr option" where
  "blobURL api sha nm download =
     (case (encodeURIComponent sha, opt_param ''name'' nm) of
        (Some s, Some n) \<Rightarrow> Some (api @ js ''blob?sha='' @ s @ n @ (if download then js ''&download=1'' else []))
      | _ \<Rightarrow> None)"

definition fileURLFor :: "jstr \<Rightarrow> jstr \<Rightarrow> jstr option \<Rightarrow> jstr option" where
  "fileURLFor api p version =
     (if truthy version then blobURL api (the version) (Some p) False
      else map_option (\<lambda>e. api @ js ''file?path='' @ e) (encodeURIComponent p))"

record BlobResponse =
  content_length :: "jstr option"
  plain_length :: "jstr option"
  etag :: "jstr option"
  bytes :: "nat list"

text \<open>\<open>etag.replace(/^W\/|"/g, "")\<close>.\<close>

definition bare_etag :: "jstr \<Rightarrow> jstr" where
  "bare_etag t = filter (\<lambda>u. u \<noteq> 34) (if starts_with t (js ''W/'') then drop 2 t else t)"

text \<open>\<open>num\<close> is \<open>Number\<close>, \<open>None\<close> for NaN; \<open>Number(null)\<close> is 0.\<close>

definition body_of :: "(nat list \<Rightarrow> jstr option) \<Rightarrow> BlobResponse \<Rightarrow> BlobText \<times> jstr option" where
  "body_of decode r =
     (let b = sniffBytes decode (bytes r); t = map_option bare_etag (etag r)
      in (b, case b of TextBlob _ \<Rightarrow> if truthy t then t else None | _ \<Rightarrow> None))"

definition fetchBlobText :: "(jstr \<Rightarrow> nat option) \<Rightarrow> (nat list \<Rightarrow> jstr option) \<Rightarrow> BlobResponse \<Rightarrow> BlobText \<times> jstr option" where
  "fetchBlobText num decode r =
     (case (case (case content_length r of Some l \<Rightarrow> Some l | None \<Rightarrow> plain_length r) of None \<Rightarrow> Some 0 | Some l \<Rightarrow> num l) of
        Some n \<Rightarrow> if n > MAX_BYTES then (TooLarge n, None) else body_of decode r
      | None \<Rightarrow> body_of decode r)"

text \<open>Retries: the error is an HTTP status, or \<open>None\<close> for anything else.\<close>

definition transient :: "nat option \<Rightarrow> bool" where
  "transient e = (case e of None \<Rightarrow> True | Some st \<Rightarrow> st = 429 \<or> st \<ge> 500)"

definition retry_text :: "bool \<Rightarrow> nat \<Rightarrow> nat option \<Rightarrow> bool" where
  "retry_text immutable n e \<longleftrightarrow> \<not> immutable \<and> n < 3 \<and> transient e"

definition retryDelay :: "nat \<Rightarrow> nat" where
  "retryDelay n = min (1000 * 2 ^ n) 8000"

text \<open>The frame URL: the minted one is its URL and its expiry.\<close>

definition frame_url :: "jstr option \<Rightarrow> bool \<Rightarrow> jstr \<Rightarrow> (jstr \<times> int) option \<Rightarrow> jstr option" where
  "frame_url version failed fileURL minted = (if truthy version \<or> failed then Some fileURL else map_option fst minted)"

definition refetches :: "jstr option \<Rightarrow> (jstr \<times> int) option \<Rightarrow> int \<Rightarrow> bool" where
  "refetches version minted now =
     (case minted of None \<Rightarrow> False | Some (_, expires) \<Rightarrow> \<not> truthy version \<and> \<not> expires - now > 600000)"

subsection \<open>The tree's lookups (hooks/useBrowse.ts)\<close>

definition child_path :: "jstr \<Rightarrow> jstr \<Rightarrow> jstr" where
  "child_path pre nm = (if pre \<noteq> [] then pre @ js ''/'' @ nm else nm)"

text \<open>The walk writes each node's path back and collects the files and the folders, in order.\<close>

fun repath :: "jstr \<Rightarrow> Node \<Rightarrow> Node" where
  "repath pre (Node nm p d t cs) =
     Node nm (child_path pre nm) d t (if d then map (repath (child_path pre nm)) cs else cs)"

fun flat_files :: "Node \<Rightarrow> Node list" where
  "flat_files (Node nm p d t cs) = (if d then concat (map flat_files cs) else [Node nm p d t cs])"

fun dir_index :: "Node \<Rightarrow> (jstr \<times> Node) list" where
  "dir_index (Node nm p d t cs) = (if d then (p, Node nm p d t cs) # concat (map dir_index cs) else [])"

definition tree_index :: "Node option \<Rightarrow> Node list \<times> (jstr \<rightharpoonup> Node)" where
  "tree_index r =
     (case r of None \<Rightarrow> ([], Map.empty)
      | Some n \<Rightarrow> let cs = map (repath []) (nchildren n)
          in (concat (map flat_files cs), foldl (\<lambda>m (k, v). m(k \<mapsto> v)) Map.empty (concat (map dir_index cs))))"

subsection \<open>One frame (hooks/useProjectEvents.ts)\<close>

record ChangeEvent =
  ctype :: jstr
  cpaths :: "jstr list option"
  cmore :: bool
  people :: "(jstr \<times> jstr option) list option"

datatype Did = Invalidate "jstr list" | Presence "(jstr \<times> jstr option) list" | Dispatched "jstr list"

text \<open>A tab: its effect is mounted or not; whether the browser can share; the stream, the channel and
  the lock it holds; the coalescing timer; what it did, and the frames it handled.\<close>

record Tab =
  mounted :: bool
  shares :: bool
  socket :: bool
  chan :: bool
  leading :: bool
  coalesce :: bool
  did :: "Did list"
  frames :: "jstr list"

definition does :: "Did list \<Rightarrow> Tab \<Rightarrow> Tab" where
  "does ds t = t\<lparr>did := did t @ ds\<rparr>"

definition fire_coalesced :: "jstr \<Rightarrow> Tab \<Rightarrow> Tab" where
  "fire_coalesced api t =
     (if coalesce t then does [Invalidate [js ''tree'', api], Invalidate [js ''history'', api], Invalidate [js ''emptied'', api]]
        (t\<lparr>coalesce := False\<rparr>) else t)"

text \<open>The loop over the paths; a path that cannot be encoded raises and ends it.\<close>

fun path_bodies :: "jstr \<Rightarrow> jstr list \<Rightarrow> Did list" where
  "path_bodies api [] = []"
| "path_bodies api (p # ps) =
     Invalidate [js ''render'', api, p]
     # (case fileURLFor api p None of None \<Rightarrow> [] | Some u \<Rightarrow> Invalidate [js ''text'', u] # path_bodies api ps)"

definition scope_frame :: "jstr \<Rightarrow> Did list" where
  "scope_frame api = map Invalidate
     [[js ''tree'', api], [js ''emptied'', api], [js ''folders''], [js ''permissions''], [js ''render'', api], [js ''text''],
      [js ''history'', api], [js ''homeHistory'', api]]"

definition truncated :: "ChangeEvent \<Rightarrow> bool" where
  "truncated ev \<longleftrightarrow> ctype ev = js ''resync'' \<or> cmore ev \<or> cpaths ev = None \<or> cpaths ev = Some []"

definition change_frame :: "jstr \<Rightarrow> ChangeEvent \<Rightarrow> Did list" where
  "change_frame api ev =
     Dispatched (case cpaths ev of None \<Rightarrow> [] | Some ps \<Rightarrow> ps)
     # (if truncated ev then [Invalidate [js ''render'', api], Invalidate [js ''text'']]
        else path_bodies api (case cpaths ev of None \<Rightarrow> [] | Some ps \<Rightarrow> ps))"

definition handle :: "(jstr \<Rightarrow> ChangeEvent option) \<Rightarrow> jstr \<Rightarrow> jstr \<Rightarrow> Tab \<Rightarrow> Tab" where
  "handle pj api data t0 =
     (let t = t0\<lparr>frames := frames t0 @ [data]\<rparr>
      in case pj data of
           None \<Rightarrow> t
         | Some ev \<Rightarrow>
             if ctype ev = js ''presence'' then does [Presence (case people ev of None \<Rightarrow> [] | Some ps \<Rightarrow> ps)] t
             else if ctype ev = js ''comments'' then does [Invalidate [js ''comments'', api]] t
             else if ctype ev = js ''scope'' then does (scope_frame api) t
             else does (change_frame api ev) (t\<lparr>coalesce := True\<rparr>))"

text \<open>Invalidating a key invalidates every query whose key begins with it.\<close>

definition hits :: "Did list \<Rightarrow> jstr list \<Rightarrow> bool" where
  "hits ds q \<longleftrightarrow> (\<exists>k. Invalidate k \<in> set ds \<and> starts_with q k)"

subsection \<open>The tabs of a project\<close>

record Tabs =
  tab :: "nat \<Rightarrow> Tab"
  holder :: "nat option"
  waiting :: "nat list"

definition connect :: "Tab \<Rightarrow> Tab" where
  "connect t = t\<lparr>socket := True\<rparr>"

definition mount_effect :: "nat \<Rightarrow> Tabs \<Rightarrow> Tabs" where
  "mount_effect i s =
     (let t = (tab s i)\<lparr>mounted := True\<rparr>
      in if \<not> shares t then s\<lparr>tab := (tab s)(i := connect t)\<rparr>
         else s\<lparr>tab := (tab s)(i := t\<lparr>chan := True\<rparr>), waiting := waiting s @ [i]\<rparr>)"

definition cleanup :: "nat \<Rightarrow> Tabs \<Rightarrow> Tabs" where
  "cleanup i s =
     s\<lparr>tab := (tab s)(i := (tab s i)\<lparr>mounted := False, socket := False, chan := False, leading := False\<rparr>),
       waiting := removeAll i (waiting s), holder := (if holder s = Some i then None else holder s)\<rparr>"

text \<open>The lock is granted: the callback leads, or resolves at once when it is already unmounted.\<close>

definition granted :: "nat \<Rightarrow> nat list \<Rightarrow> Tabs \<Rightarrow> Tabs" where
  "granted i rest s =
     (if mounted (tab s i)
      then s\<lparr>tab := (tab s)(i := connect ((tab s i)\<lparr>leading := True\<rparr>)), holder := Some i, waiting := rest\<rparr>
      else s\<lparr>waiting := rest\<rparr>)"

definition on_message :: "(jstr \<Rightarrow> ChangeEvent option) \<Rightarrow> jstr \<Rightarrow> nat \<Rightarrow> jstr \<Rightarrow> Tabs \<Rightarrow> Tabs" where
  "on_message pj api i data s =
     s\<lparr>tab := (\<lambda>j. if j = i \<or> chan (tab s i) \<and> chan (tab s j) then handle pj api data (tab s j) else tab s j)\<rparr>"

inductive live_step :: "(jstr \<Rightarrow> ChangeEvent option) \<Rightarrow> jstr \<Rightarrow> Tabs \<Rightarrow> Tabs \<Rightarrow> bool" for pj api where
  mount: "\<not> mounted (tab s i) \<Longrightarrow> live_step pj api s (mount_effect i s)"
| unmount: "mounted (tab s i) \<Longrightarrow> live_step pj api s (cleanup i s)"
| grant: "holder s = None \<Longrightarrow> waiting s = i # rest \<Longrightarrow> live_step pj api s (granted i rest s)"
| wire: "socket (tab s i) \<Longrightarrow> live_step pj api s (on_message pj api i data s)"
| timer: "live_step pj api s (s\<lparr>tab := (tab s)(i := fire_coalesced api (tab s i))\<rparr>)"

inductive live_reach :: "(jstr \<Rightarrow> ChangeEvent option) \<Rightarrow> jstr \<Rightarrow> Tabs \<Rightarrow> Tabs \<Rightarrow> bool" for pj api s where
  start: "live_reach pj api s s"
| step: "live_reach pj api s x \<Longrightarrow> live_step pj api x y \<Longrightarrow> live_reach pj api s y"

definition closed_tab :: "Tab \<Rightarrow> bool" where
  "closed_tab t \<longleftrightarrow> \<not> mounted t \<and> \<not> socket t \<and> \<not> chan t \<and> \<not> leading t"

definition no_tabs :: "Tabs \<Rightarrow> bool" where
  "no_tabs s \<longleftrightarrow> (\<forall>i. closed_tab (tab s i)) \<and> holder s = None \<and> waiting s = []"

text \<open>The part of the invariant that is about one tab, given the lock.\<close>

definition tab_ok :: "nat option \<Rightarrow> nat list \<Rightarrow> nat \<Rightarrow> Tab \<Rightarrow> bool" where
  "tab_ok hl ws i t \<longleftrightarrow>
     (mounted t \<and> shares t \<longrightarrow> chan t \<and> (socket t \<longleftrightarrow> hl = Some i) \<and> (hl \<noteq> Some i \<longrightarrow> i \<in> set ws))
     \<and> (mounted t \<and> \<not> shares t \<longrightarrow> socket t \<and> \<not> chan t)
     \<and> (\<not> mounted t \<longrightarrow> \<not> socket t \<and> \<not> chan t)
     \<and> ((hl = Some i \<or> i \<in> set ws) \<longrightarrow> mounted t \<and> shares t)"

definition live_inv :: "Tabs \<Rightarrow> bool" where
  "live_inv s \<longleftrightarrow> (\<forall>i. tab_ok (holder s) (waiting s) i (tab s i))
     \<and> distinct (waiting s) \<and> (\<forall>i. holder s = Some i \<longrightarrow> i \<notin> set (waiting s))"

lemma handle_keeps [simp]:
  "mounted (handle pj api data t) = mounted t" "shares (handle pj api data t) = shares t"
  "socket (handle pj api data t) = socket t" "chan (handle pj api data t) = chan t"
  "frames (handle pj api data t) = frames t @ [data]"
  by (simp_all add: handle_def does_def Let_def split: option.split)

lemma fire_keeps [simp]:
  "mounted (fire_coalesced api t) = mounted t" "shares (fire_coalesced api t) = shares t"
  "socket (fire_coalesced api t) = socket t" "chan (fire_coalesced api t) = chan t"
  by (simp_all add: fire_coalesced_def does_def)

lemma tab_ok_keeps [simp]:
  "tab_ok hl ws j (handle pj api data t) = tab_ok hl ws j t" "tab_ok hl ws j (fire_coalesced api t) = tab_ok hl ws j t"
  by (simp_all add: tab_ok_def)

lemma tab_ok_lock:
  "(hl = Some j \<longleftrightarrow> hl' = Some j) \<Longrightarrow> (j \<in> set ws \<longleftrightarrow> j \<in> set ws') \<Longrightarrow> tab_ok hl ws j t = tab_ok hl' ws' j t"
  by (simp add: tab_ok_def)

text \<open>A step that changes one tab and what the lock says of it.\<close>

lemma live_inv_one_tab:
  assumes "live_inv s" "tab s' = (tab s)(i := t)" "tab_ok (holder s') (waiting s') i t" "distinct (waiting s')"
    and "\<And>j. j \<noteq> i \<Longrightarrow> (holder s' = Some j \<longleftrightarrow> holder s = Some j) \<and> (j \<in> set (waiting s') \<longleftrightarrow> j \<in> set (waiting s))"
    and "holder s' = Some i \<Longrightarrow> i \<notin> set (waiting s')"
  shows "live_inv s'"
proof -
  have "tab_ok (holder s') (waiting s') j (tab s' j)" for j
  proof (cases "j = i")
    case True
    with assms(2,3) show ?thesis by simp
  next
    case False
    have "tab_ok (holder s) (waiting s) j (tab s j)" using assms(1) by (simp add: live_inv_def)
    with False assms(2) tab_ok_lock [of "holder s" j "holder s'" "waiting s" "waiting s'"] assms(5) [OF False]
    show ?thesis by simp
  qed
  moreover have "j \<notin> set (waiting s')" if "holder s' = Some j" for j
    using assms(1,5,6) that unfolding live_inv_def by (cases "j = i") blast+
  ultimately show ?thesis using assms(4) by (simp add: live_inv_def)
qed

lemma live_inv_step: "live_step pj api s s' \<Longrightarrow> live_inv s \<Longrightarrow> live_inv s'"
proof (induction rule: live_step.induct)
  case (mount s i)
  have ok: "tab_ok (holder s) (waiting s) i (tab s i)" "distinct (waiting s)" using mount(2) by (simp_all add: live_inv_def)
  with mount(1) have n: "i \<notin> set (waiting s)" "holder s \<noteq> Some i" by (auto simp: tab_ok_def)
  show ?case
  proof (cases "shares (tab s i)")
    case True
    show ?thesis
      by (rule live_inv_one_tab [OF mount(2), of _ i "(tab s i)\<lparr>mounted := True, chan := True\<rparr>"])
        (use True mount(1) ok n in \<open>simp_all add: mount_effect_def tab_ok_def Let_def\<close>)
  next
    case False
    show ?thesis
      by (rule live_inv_one_tab [OF mount(2), of _ i "connect ((tab s i)\<lparr>mounted := True\<rparr>)"])
        (use False mount(1) ok n in \<open>simp_all add: mount_effect_def tab_ok_def connect_def Let_def\<close>)
  qed
next
  case (unmount s i)
  have "distinct (waiting s)" using unmount(2) by (simp add: live_inv_def)
  then show ?case
    by (intro live_inv_one_tab [OF unmount(2), of _ i "(tab s i)\<lparr>mounted := False, socket := False, chan := False, leading := False\<rparr>"])
      (simp_all add: cleanup_def tab_ok_def distinct_removeAll)
next
  case (grant s i rest)
  have ok: "tab_ok (holder s) (waiting s) i (tab s i)" "distinct (waiting s)" using grant(3) by (simp_all add: live_inv_def)
  with grant have m: "mounted (tab s i)" "shares (tab s i)" "i \<notin> set rest" "distinct rest" "chan (tab s i)" by (auto simp: tab_ok_def)
  show ?case
    by (rule live_inv_one_tab [OF grant(3), of _ i "connect ((tab s i)\<lparr>leading := True\<rparr>)"])
      (use m grant in \<open>auto simp: granted_def tab_ok_def connect_def\<close>)
next
  case (wire s i data)
  then show ?case by (simp add: live_inv_def on_message_def)
next
  case (timer s i)
  then show ?case by (simp add: live_inv_def)
qed

lemma live_inv_reach: "live_reach pj api s s' \<Longrightarrow> live_inv s \<Longrightarrow> live_inv s'"
  by (induction rule: live_reach.induct) (auto intro: live_inv_step)

lemma live_inv_start: "no_tabs s \<Longrightarrow> live_inv s"
  by (simp add: live_inv_def no_tabs_def tab_ok_def closed_tab_def)

text \<open>C7: One stream for all tabs. Whatever order tabs are opened, closed and granted the lock in, at
  most one of the tabs that can share holds the event stream; while one is open, either one holds it
  or the next waiter is about to be granted it; and each frame the stream delivers is handled exactly
  once by every open tab, and by none that is closed.\<close>

theorem one_stream:
  assumes "no_tabs s" and r: "live_reach pj api s s'"
  shows "(\<forall>i j. socket (tab s' i) \<and> shares (tab s' i) \<and> socket (tab s' j) \<and> shares (tab s' j) \<longrightarrow> i = j)
    \<and> (\<forall>j. mounted (tab s' j) \<and> shares (tab s' j) \<longrightarrow>
         (\<exists>i. socket (tab s' i) \<and> shares (tab s' i)) \<or> (\<exists>i rest. holder s' = None \<and> waiting s' = i # rest \<and> mounted (tab s' i)))
    \<and> (\<forall>i data j. socket (tab s' i) \<and> shares (tab s' i) \<and> shares (tab s' j) \<longrightarrow>
         frames (tab (on_message pj api i data s') j) =
           frames (tab s' j) @ (if mounted (tab s' j) then [data] else []))"
proof -
  have ok: "tab_ok (holder s') (waiting s') i (tab s' i)" for i
    using live_inv_reach [OF r live_inv_start [OF assms(1)]] by (simp add: live_inv_def)
  have m: "mounted (tab s' i)" if "socket (tab s' i)" for i using ok [of i] that by (auto simp: tab_ok_def)
  have h: "holder s' = Some i" if "socket (tab s' i)" "shares (tab s' i)" for i
    using ok [of i] m [OF that(1)] that by (auto simp: tab_ok_def)
  have one: "i = j" if "socket (tab s' i)" "shares (tab s' i)" "socket (tab s' j)" "shares (tab s' j)" for i j
    using h [OF that(1,2)] h [OF that(3,4)] by simp
  have led: "(\<exists>i. socket (tab s' i) \<and> shares (tab s' i)) \<or> (\<exists>i rest. holder s' = None \<and> waiting s' = i # rest \<and> mounted (tab s' i))"
    if "mounted (tab s' j)" "shares (tab s' j)" for j
  proof (cases "holder s'")
    case (Some i)
    then have "socket (tab s' i) \<and> shares (tab s' i)" using ok [of i] by (auto simp: tab_ok_def)
    then show ?thesis by blast
  next
    case None
    then have "j \<in> set (waiting s')" using ok [of j] that by (simp add: tab_ok_def)
    then obtain i rest where w: "waiting s' = i # rest" by (cases "waiting s'") auto
    then have "mounted (tab s' i)" using ok [of i] by (simp add: tab_ok_def)
    with None w show ?thesis by blast
  qed
  have fr: "frames (tab (on_message pj api i data s') j) = frames (tab s' j) @ (if mounted (tab s' j) then [data] else [])"
    if "socket (tab s' i)" "shares (tab s' i)" "shares (tab s' j)" for i data j
    using ok [of i] ok [of j] m [OF that(1)] that by (auto simp: tab_ok_def on_message_def)
  show ?thesis using one led fr by blast
qed

text \<open>Two tabs of one browser, the first leading.\<close>

definition quiet_tabs :: Tabs where
  "quiet_tabs = \<lparr>tab = (\<lambda>i. \<lparr>mounted = False, shares = True, socket = False, chan = False, leading = False,
     coalesce = False, did = [], frames = []\<rparr>), holder = None, waiting = []\<rparr>"

definition two_tabs :: Tabs where
  "two_tabs = granted 0 [1] (mount_effect 1 (mount_effect 0 quiet_tabs))"

lemma two_tabs_eval:
  "mounted (tab two_tabs 0)" "mounted (tab two_tabs (Suc 0))" "shares (tab two_tabs i)" "socket (tab two_tabs 0)"
  "frames (tab two_tabs i) = []"
  by (simp_all add: two_tabs_def granted_def mount_effect_def quiet_tabs_def connect_def Let_def)

lemma two_tabs_reach: "live_reach pj api quiet_tabs two_tabs"
proof -
  have m0: "\<not> mounted (tab quiet_tabs 0)" and m1: "\<not> mounted (tab (mount_effect 0 quiet_tabs) 1)"
    by (simp_all add: quiet_tabs_def mount_effect_def Let_def)
  have g: "holder (mount_effect 1 (mount_effect 0 quiet_tabs)) = None" "waiting (mount_effect 1 (mount_effect 0 quiet_tabs)) = [0, 1]"
    by (simp_all add: quiet_tabs_def mount_effect_def Let_def)
  show ?thesis unfolding two_tabs_def
    by (rule live_reach.step [OF live_reach.step [OF live_reach.step [OF live_reach.start live_step.mount [OF m0]]
        live_step.mount [OF m1]] live_step.grant [OF g]])
qed

lemma one_stream_witness:
  "live_reach (\<lambda>d. None) [1] quiet_tabs two_tabs \<and> socket (tab two_tabs 0) \<and> \<not> socket (tab two_tabs 1)
   \<and> frames (tab (on_message (\<lambda>d. None) [1] 0 [5] two_tabs) 1) = [[5]]"
proof -
  have n: "no_tabs quiet_tabs" by (simp add: no_tabs_def quiet_tabs_def closed_tab_def)
  note st = one_stream [OF n two_tabs_reach [of "\<lambda>d. None" "[1]"]]
  have one: "socket (tab two_tabs i) \<and> shares (tab two_tabs i) \<and> socket (tab two_tabs j) \<and> shares (tab two_tabs j) \<Longrightarrow> i = j" for i j
    using st by blast
  have "frames (tab (on_message (\<lambda>d. None) [1] 0 [5] two_tabs) 1) = frames (tab two_tabs 1) @ (if mounted (tab two_tabs 1) then [[5]] else [])"
    using st two_tabs_eval by blast
  moreover have "\<not> socket (tab two_tabs 1)" using one [of 0 1] two_tabs_eval by auto
  ultimately show ?thesis using two_tabs_reach two_tabs_eval by simp
qed

subsection \<open>What a change frame refreshes\<close>

lemma encode_inj: "well_formed p \<Longrightarrow> well_formed q \<Longrightarrow> encodeURIComponent p = encodeURIComponent q \<Longrightarrow> p = q"
proof -
  assume e: "encodeURIComponent p = encodeURIComponent q"
  assume "well_formed p"
  then obtain a where a: "encodeURIComponent p = Some a" "decodeURIComponent a = Some p" by (rule component_roundtrip)
  assume "well_formed q"
  then obtain b where "encodeURIComponent q = Some b" "decodeURIComponent b = Some q" by (rule component_roundtrip)
  with a e show "p = q" by simp
qed

lemma live_url: "well_formed p \<Longrightarrow> \<exists>e. encodeURIComponent p = Some e \<and> fileURLFor api p None = Some (api @ js ''file?path='' @ e)"
  by (auto simp: fileURLFor_def truthy_def elim: component_roundtrip)

lemma path_bodies_set:
  "\<forall>p \<in> set ps. well_formed p \<Longrightarrow>
     set (path_bodies api ps) = (\<lambda>p. Invalidate [js ''render'', api, p]) ` set ps
       \<union> (\<lambda>p. Invalidate [js ''text'', the (fileURLFor api p None)]) ` set ps"
proof (induction ps)
  case (Cons p ps)
  obtain e where "fileURLFor api p None = Some (api @ js ''file?path='' @ e)"
    using live_url [of p api] Cons.prems by auto
  with Cons show ?case by auto
qed simp

lemma js_keys [simp]: "js ''text'' \<noteq> js ''render''" "js ''text'' \<noteq> js ''heat''" "js ''render'' \<noteq> js ''heat''"
  "js ''heat'' \<noteq> js ''text''" "js ''heat'' \<noteq> js ''render''" "js ''render'' \<noteq> js ''text''"
  by (simp_all add: js_def)

definition refreshed :: "jstr \<Rightarrow> ChangeEvent \<Rightarrow> jstr \<Rightarrow> bool" where
  "refreshed api ev p \<longleftrightarrow> hits (change_frame api ev) [js ''render'', api, p]
     \<and> hits (change_frame api ev) [js ''text'', the (fileURLFor api p None)]"

definition untouched :: "jstr \<Rightarrow> ChangeEvent \<Rightarrow> jstr \<Rightarrow> bool" where
  "untouched api ev p \<longleftrightarrow> \<not> hits (change_frame api ev) [js ''render'', api, p]
     \<and> \<not> hits (change_frame api ev) [js ''text'', the (fileURLFor api p None)]"

text \<open>C40: A change frame refreshes exactly what changed. For a frame that lists its paths, the cached
  render and the cached body of a file are invalidated when its path is listed and are kept when it
  is not, whatever the two names look like; a frame that is cut short invalidates those of every
  file; read counts are never invalidated, and the refetch of tree and history is scheduled.\<close>

theorem change_frame_exact:
  assumes parsed: "pj data = Some ev" and kind: "ctype ev \<notin> {js ''presence'', js ''comments'', js ''scope''}"
    and wf: "\<forall>ps. cpaths ev = Some ps \<longrightarrow> (\<forall>p \<in> set ps. well_formed p)" and p: "well_formed p"
  shows "did (handle pj api data t) = did t @ change_frame api ev \<and> coalesce (handle pj api data t)
    \<and> (if truncated ev \<or> p \<in> set (the (cpaths ev)) then refreshed api ev p else untouched api ev p)
    \<and> \<not> hits (change_frame api ev) [js ''heat'', api]"
proof -
  have h: "did (handle pj api data t) = did t @ change_frame api ev" "coalesce (handle pj api data t)"
    using parsed kind by (simp_all add: handle_def does_def Let_def)
  show ?thesis
  proof (cases "truncated ev")
    case True
    then have c: "set (change_frame api ev) = {Dispatched (case cpaths ev of None \<Rightarrow> [] | Some ps \<Rightarrow> ps),
        Invalidate [js ''render'', api], Invalidate [js ''text'']}"
      by (simp add: change_frame_def)
    have x: "hits (change_frame api ev) q \<longleftrightarrow> starts_with q [js ''render'', api] \<or> starts_with q [js ''text'']" for q
      by (simp add: hits_def c conj_disj_distribR ex_disj_distrib)
    have "refreshed api ev p" "\<not> hits (change_frame api ev) [js ''heat'', api]"
      by (simp_all add: refreshed_def x starts_with_def)
    with h True show ?thesis by simp
  next
    case False
    then obtain ps where ps: "cpaths ev = Some ps" by (auto simp: truncated_def)
    have c: "set (change_frame api ev) = insert (Dispatched ps) ((\<lambda>p. Invalidate [js ''render'', api, p]) ` set ps
       \<union> (\<lambda>p. Invalidate [js ''text'', the (fileURLFor api p None)]) ` set ps)"
      using False wf ps path_bodies_set [of ps api] by (simp add: change_frame_def)
    have inj: "q = p" if "q \<in> set ps" "the (fileURLFor api q None) = the (fileURLFor api p None)" for q
    proof -
      have "well_formed q" using wf ps that(1) by blast
      then show ?thesis using live_url [of q api] live_url [OF p, of api] that(2) encode_inj [OF _ p] by auto
    qed
    have "if p \<in> set ps then refreshed api ev p else untouched api ev p"
      using inj by (auto simp: refreshed_def untouched_def hits_def c starts_with_def)
    moreover have "\<not> hits (change_frame api ev) [js ''heat'', api]"
      by (auto simp: hits_def c starts_with_def)
    ultimately show ?thesis using h False ps by simp
  qed
qed

lemma change_frame_exact_witness:
  defines "ev \<equiv> \<lparr>ctype = js ''change'', cpaths = Some [js ''a.md''], cmore = False, people = None\<rparr>"
  shows "refreshed (js ''/'') ev (js ''a.md'') \<and> untouched (js ''/'') ev (js ''a.md2'')"
proof -
  have wf: "well_formed (js ''a.md'')" "well_formed (js ''a.md2'')" by code_simp+
  have k: "ctype ev \<notin> {js ''presence'', js ''comments'', js ''scope''}" by (simp add: ev_def js_def)
  have w: "\<forall>ps. cpaths ev = Some ps \<longrightarrow> (\<forall>p \<in> set ps. well_formed p)" using wf by (simp add: ev_def)
  have tr: "\<not> truncated ev" by (simp add: ev_def truncated_def js_def)
  have m: "js ''a.md'' \<in> set (the (cpaths ev))" "js ''a.md2'' \<notin> set (the (cpaths ev))" by (simp_all add: ev_def js_def)
  have "refreshed (js ''/'') ev (js ''a.md'')"
    using change_frame_exact [of "\<lambda>d. Some ev" "[]" ev, OF refl k w wf(1), of "js ''/''" "tab quiet_tabs 0"] tr m by simp
  moreover have "untouched (js ''/'') ev (js ''a.md2'')"
    using change_frame_exact [of "\<lambda>d. Some ev" "[]" ev, OF refl k w wf(2), of "js ''/''" "tab quiet_tabs 0"] tr m by simp
  ultimately show ?thesis by simp
qed

text \<open>Rebuilding the paths on the way down: every file of the lookup is found under a path that ends in
  its own name, and a path the hub sent as the walk builds it is kept.\<close>

fun sent_paths :: "jstr \<Rightarrow> Node \<Rightarrow> bool" where
  "sent_paths pre (Node nm p d t cs) \<longleftrightarrow> p = child_path pre nm \<and> (d \<longrightarrow> list_all (sent_paths p) cs)"

lemma repath_idle: "sent_paths pre n \<Longrightarrow> repath pre n = n"
proof (induction pre n rule: repath.induct)
  case (1 pre nm p d t cs)
  then show ?case by (auto simp: list_all_iff map_idI)
qed

lemma repath_sent: "sent_paths pre (repath pre n)"
  by (induction pre n rule: repath.induct) (auto simp: list_all_iff)

end
