(* ===== verification/Anchor.thy ===== *)
theory Anchor
  imports Prelude
begin

section \<open>Text-quote anchors of comments (lib/anchor.ts)\<close>

text \<open>
  A comment remembers the quoted text with some context and is found again by a match that ignores
  white space and case. \<open>lower\<close> is \<open>toLowerCase\<close> on a text of one code unit. Of the page the model has
  the text nodes in document order, each with the tag names and the ignore marks of the elements
  between it and the root; a DOM point is a place in one of them or an element boundary.
\<close>

record Anchor =
  quote :: "jstr option"
  pre :: "jstr option"
  suf :: "jstr option"
  aline :: "nat option"

definition CONTEXT :: nat where "CONTEXT = 48"

subsection \<open>Matching\<close>

definition kept :: "nat \<Rightarrow> bool" where
  "kept u \<longleftrightarrow> \<not> is_ws u \<and> u \<noteq> 8203 \<and> u \<noteq> 173"

definition fold_unit :: "(nat \<Rightarrow> jstr) \<Rightarrow> nat \<Rightarrow> nat" where
  "fold_unit lower u = (case lower u of [l] \<Rightarrow> l | _ \<Rightarrow> u)"

definition squash :: "(nat \<Rightarrow> jstr) \<Rightarrow> jstr \<Rightarrow> jstr \<times> nat list" where
  "squash lower s =
     (let ks = filter (\<lambda>i. kept (s ! i)) [0 ..< length s] in (map (\<lambda>i. fold_unit lower (s ! i)) ks, ks))"

fun agree :: "'a list \<Rightarrow> 'a list \<Rightarrow> nat" where
  "agree (x # xs) (y # ys) = (if x = y then Suc (agree xs ys) else 0)"
| "agree _ _ = 0"

definition context_score :: "jstr \<Rightarrow> jstr \<Rightarrow> jstr \<Rightarrow> jstr \<Rightarrow> nat \<Rightarrow> nat" where
  "context_score hay needle p q i = agree (rev (take i hay)) (rev p) + agree (drop (i + length needle) hay) q"

lemma index_from_Some: "index_from hay needle i = Some j \<Longrightarrow> i \<le> j \<and> j \<le> length hay \<and> occurs_at hay needle j"
  using find_SomeD [of "occurs_at hay needle" "[i ..< Suc (length hay)]" j] by (auto simp: index_from_def)

text \<open>The loop over the occurrences, with the best one and its score.\<close>

function match_loop :: "jstr \<Rightarrow> jstr \<Rightarrow> jstr \<Rightarrow> jstr \<Rightarrow> nat \<Rightarrow> (nat \<times> nat) option \<Rightarrow> (nat \<times> nat) option" where
  "match_loop hay needle p q i best =
     (case index_from hay needle i of
        None \<Rightarrow> best
      | Some j \<Rightarrow>
          let sc = context_score hay needle p q j
          in match_loop hay needle p q (Suc j)
               (case best of None \<Rightarrow> Some (j, sc) | Some (b, bs) \<Rightarrow> if sc > bs then Some (j, sc) else best))"
  by pat_completeness auto
termination
  by (relation "measure (\<lambda>(hay, needle, p, q, i, best). Suc (length hay) - i)") (auto dest: index_from_Some)

declare match_loop.simps [simp del]

definition bestMatch :: "jstr \<Rightarrow> jstr \<Rightarrow> jstr \<Rightarrow> jstr \<Rightarrow> nat option" where
  "bestMatch hay needle p q = (if needle = [] then None else map_option fst (match_loop hay needle p q 0 None))"

definition text_of :: "(nat \<Rightarrow> jstr) \<Rightarrow> jstr option \<Rightarrow> jstr" where
  "text_of lower s = fst (squash lower (str_or s []))"

definition locate :: "(nat \<Rightarrow> jstr) \<Rightarrow> jstr \<Rightarrow> Anchor \<Rightarrow> (nat \<times> nat) option" where
  "locate lower all a =
     (let q = text_of lower (quote a)
      in if q = [] then None
         else case squash lower all of (t, m) \<Rightarrow>
           (case bestMatch t q (text_of lower (pre a)) (text_of lower (suf a)) of
              None \<Rightarrow> None
            | Some i \<Rightarrow> Some (m ! i, m ! (i + length q - 1) + 1)))"

subsection \<open>Describing a selection\<close>

text \<open>\<open>s.replace(/\s+/g, " ")\<close>.\<close>

fun tidy :: "jstr \<Rightarrow> jstr" where
  "tidy [] = []"
| "tidy (u # s) = (if is_ws u then (case s of v # _ \<Rightarrow> if is_ws v then tidy s else 32 # tidy s | [] \<Rightarrow> [32]) else u # tidy s)"

definition contextAround :: "jstr \<Rightarrow> nat \<Rightarrow> nat \<Rightarrow> jstr \<times> jstr" where
  "contextAround all s e = (trim_start (tidy (slice (s - CONTEXT) s all)), trim_end (tidy (slice e (e + CONTEXT) all)))"

record TextNode =
  data :: jstr
  above :: "(jstr \<times> bool) list"

definition SKIP :: "jstr list" where
  "SKIP = [js ''SCRIPT'', js ''STYLE'', js ''NOSCRIPT'', js ''TEMPLATE'', js ''TEXTAREA'']"

definition visible :: "TextNode \<Rightarrow> bool" where
  "visible n \<longleftrightarrow> list_all (\<lambda>(tag, ignored). tag \<notin> set SKIP \<and> \<not> ignored) (above n)"

record TextIndex =
  all_text :: jstr
  nodes :: "TextNode list"
  starts :: "nat list"

definition add_node :: "TextIndex \<Rightarrow> TextNode \<Rightarrow> TextIndex" where
  "add_node ix n = \<lparr>all_text = all_text ix @ data n, nodes = nodes ix @ [n], starts = starts ix @ [length (all_text ix)]\<rparr>"

definition textIndex :: "TextNode list \<Rightarrow> TextIndex" where
  "textIndex ns = foldl add_node \<lparr>all_text = [], nodes = [], starts = []\<rparr> (filter visible ns)"

function search_point :: "nat list \<Rightarrow> nat \<Rightarrow> bool \<Rightarrow> nat \<Rightarrow> nat \<Rightarrow> nat" where
  "search_point st at e lo hi =
     (if lo < hi then
        let mid = (lo + hi + 1) div 2
        in if st ! mid < at \<or> (\<not> e \<and> st ! mid = at) then search_point st at e mid hi
           else search_point st at e lo (mid - 1)
      else lo)"
  by pat_completeness auto
termination
  by (relation "measure (\<lambda>(st, at, e, lo, hi). hi - lo)") auto

declare search_point.simps [simp del]

text \<open>A point is the node's position and an offset in it.\<close>

definition pointAt :: "TextIndex \<Rightarrow> nat \<Rightarrow> bool \<Rightarrow> (nat \<times> nat) option" where
  "pointAt ix at e =
     (if nodes ix = [] then None
      else let lo = search_point (starts ix) at e 0 (length (nodes ix) - 1)
           in Some (lo, min (at - starts ix ! lo) (length (data (nodes ix ! lo)))))"

definition rangeFor :: "(nat \<Rightarrow> jstr) \<Rightarrow> TextIndex \<Rightarrow> Anchor \<Rightarrow> ((nat \<times> nat) \<times> (nat \<times> nat)) option" where
  "rangeFor lower ix a =
     (case locate lower (all_text ix) a of
        None \<Rightarrow> None
      | Some (s, e) \<Rightarrow>
          (case (pointAt ix s False, pointAt ix e True) of (Some p, Some q) \<Rightarrow> Some (p, q) | _ \<Rightarrow> None))"

text \<open>An element boundary is given by the first text node at or after it.\<close>

datatype Point = InText nat nat | Boundary nat

definition offsetOf :: "TextIndex \<Rightarrow> Point \<Rightarrow> nat" where
  "offsetOf ix p =
     (case p of InText i off \<Rightarrow> starts ix ! i + off
      | Boundary k \<Rightarrow> if k < length (nodes ix) then starts ix ! k else length (all_text ix))"

definition describe :: "(nat \<Rightarrow> jstr) \<Rightarrow> TextIndex \<Rightarrow> Point \<Rightarrow> Point \<Rightarrow> jstr \<Rightarrow> bool \<Rightarrow> Anchor option" where
  "describe lower ix p q shown lines =
     (let s = offsetOf ix p; e = offsetOf ix q;
          quo = trim (if shown = [] then slice s e (all_text ix) else shown);
          c = contextAround (all_text ix) s e
      in if e \<le> s \<or> fst (squash lower quo) = [] then None
         else Some \<lparr>quote = Some quo, pre = Some (fst c), suf = Some (snd c),
           aline = (if lines then Some (length (split_on 10 (take s (all_text ix)))) else None)\<rparr>)"

text \<open>A path to an element: one entry per ancestor from the element up, with its lower-case tag, its
  id when that is plain, and its place among the siblings of its tag when it is not the only one.\<close>

record Elem =
  tag :: jstr
  eid :: "jstr option"
  nth_of_type :: "nat option"

fun css_parts :: "nat \<Rightarrow> Elem list \<Rightarrow> jstr list" where
  "css_parts k [] = []"
| "css_parts k (e # es) =
     (case eid e of
        Some i \<Rightarrow> [tag e @ js ''#'' @ i]
      | None \<Rightarrow>
          (let part = (case nth_of_type e of None \<Rightarrow> tag e | Some n \<Rightarrow> tag e @ js '':nth-of-type('' @ nat_str n @ js '')'')
           in if k + 1 \<ge> 8 then [part] else css_parts (k + 1) es @ [part]))"

definition cssPath :: "Elem list \<Rightarrow> jstr" where
  "cssPath es = join (js '' > '') (css_parts 0 es)"

subsection \<open>The squashed text\<close>

definition sq :: "(nat \<Rightarrow> jstr) \<Rightarrow> jstr \<Rightarrow> jstr" where
  "sq lower s = map (fold_unit lower) (filter kept s)"

definition places :: "jstr \<Rightarrow> nat list" where
  "places s = filter (\<lambda>i. kept (s ! i)) [0 ..< length s]"

lemma squash_eq: "squash lower s = (sq lower s, places s)"
proof -
  have "map (\<lambda>i. s ! i) (places s) = filter kept s"
    unfolding places_def by (simp add: filter_map [of kept "(!) s" "[0..<length s]", unfolded o_def, symmetric] map_nth)
  then have "map (fold_unit lower) (map (\<lambda>i. s ! i) (places s)) = sq lower s" by (simp add: sq_def)
  then show ?thesis by (simp add: squash_def places_def Let_def o_def)
qed

lemma sq_append [simp]: "sq lower (a @ b) = sq lower a @ sq lower b"
  by (simp add: sq_def)

lemma sq_Nil [simp]: "sq lower [] = []"
  by (simp add: sq_def)

lemma ws_not_kept [simp]: "is_ws u \<Longrightarrow> \<not> kept u"
  by (simp add: kept_def)

lemma sq_dropWhile [simp]: "sq lower (dropWhile is_ws s) = sq lower s"
  by (induction s) (auto simp: sq_def)

lemma sq_rev: "sq lower (rev s) = rev (sq lower s)"
  by (simp add: sq_def rev_map rev_filter)

lemma sq_trims [simp]: "sq lower (trim_start s) = sq lower s" "sq lower (trim_end s) = sq lower s" "sq lower (trim s) = sq lower s"
  by (simp_all add: trim_def trim_start_def trim_end_def sq_rev)

lemma sq_tidy [simp]: "sq lower (tidy s) = sq lower s"
proof -
  have n: "\<not> kept 32" by (simp add: kept_def is_ws_def)
  have "filter kept (tidy s) = filter kept s"
  proof (induction s)
    case (Cons u s)
    have "tidy (u # s) \<in> {tidy s, 32 # tidy s} \<and> is_ws u \<or> tidy (u # s) = u # tidy s"
      by (cases s) auto
    with Cons n show ?case by (auto simp del: tidy.simps)
  qed simp
  then show ?thesis by (simp add: sq_def)
qed

lemma length_places: "length (places s) = length (sq lower s)"
  using squash_eq [of lower s] by (simp add: squash_def Let_def places_def) (metis length_map)

lemma places_nth: "i < length (places s) \<Longrightarrow> places s ! i < length s \<and> kept (s ! (places s ! i))"
proof -
  assume "i < length (places s)"
  then have "places s ! i \<in> set (places s)" by simp
  then show ?thesis by (simp add: places_def)
qed

lemma filter_kept_nth: "filter kept s = map (\<lambda>i. s ! i) (places s)"
  unfolding places_def by (simp add: filter_map [of kept "(!) s" "[0..<length s]", unfolded o_def, symmetric] map_nth)

text \<open>Cutting at the place of the \<open>i\<close>-th kept character leaves \<open>i\<close> of them before the cut.\<close>

lemma kept_before: "i < length (places s) \<Longrightarrow> length (filter kept (take (places s ! i) s)) = i"
proof (induction s arbitrary: i rule: rev_induct)
  case (snoc x s)
  have p: "places (s @ [x]) = places s @ (if kept x then [length s] else [])"
    unfolding places_def by (auto simp: nth_append intro!: filter_cong)
  show ?case
  proof (cases "i < length (places s)")
    case True
    with places_nth [OF True] snoc show ?thesis by (simp add: p nth_append)
  next
    case False
    with snoc.prems have "kept x" "i = length (places s)" by (auto simp: p split: if_splits)
    then show ?thesis by (simp add: p nth_append filter_kept_nth)
  qed
qed (simp add: places_def)

lemma sq_before: "i < length (places s) \<Longrightarrow> sq lower (take (places s ! i) s) = take i (sq lower s)"
proof -
  assume i: "i < length (places s)"
  have "filter kept s = filter kept (take (places s ! i) s) @ filter kept (drop (places s ! i) s)"
    by (metis append_take_drop_id filter_append)
  then have "filter kept (take (places s ! i) s) = take i (filter kept s)"
    using kept_before [OF i] by (metis append_eq_conv_conj)
  then show ?thesis by (simp add: sq_def take_map)
qed

lemma sq_upto: "i < length (places s) \<Longrightarrow> sq lower (take (places s ! i + 1) s) = take (i + 1) (sq lower s)"
proof -
  assume i: "i < length (places s)"
  have p: "places s ! i < length s" "kept (s ! (places s ! i))" using places_nth [OF i] by simp_all
  have "sq lower (take (places s ! i + 1) s) = take i (sq lower s) @ [fold_unit lower (s ! (places s ! i))]"
    using p sq_before [OF i, of lower] by (simp add: take_Suc_conv_app_nth sq_def)
  also have "fold_unit lower (s ! (places s ! i)) = sq lower s ! i"
    using i by (simp add: sq_def filter_kept_nth)
  finally show ?thesis using i by (simp add: take_Suc_conv_app_nth length_places [of s lower])
qed

subsection \<open>The best occurrence\<close>

definition best_upto :: "jstr \<Rightarrow> jstr \<Rightarrow> (nat \<Rightarrow> nat) \<Rightarrow> nat \<Rightarrow> (nat \<times> nat) option \<Rightarrow> bool" where
  "best_upto hay nd sc i best \<longleftrightarrow>
     (case best of
        None \<Rightarrow> \<forall>j < i. \<not> occurs_at hay nd j
      | Some (b, bs) \<Rightarrow> b < i \<and> b \<le> length hay \<and> occurs_at hay nd b \<and> bs = sc b
          \<and> (\<forall>j < i. occurs_at hay nd j \<longrightarrow> sc j \<le> bs) \<and> (\<forall>j < b. occurs_at hay nd j \<longrightarrow> sc j < bs))"

lemma index_from_None: "index_from hay nd i = None \<Longrightarrow> i \<le> j \<Longrightarrow> j \<le> length hay \<Longrightarrow> \<not> occurs_at hay nd j"
  by (simp add: index_from_def find_None_iff) (metis le_neq_implies_less)

lemma index_from_first: "index_from hay nd i = Some k \<Longrightarrow> i \<le> j \<Longrightarrow> j < k \<Longrightarrow> \<not> occurs_at hay nd j"
proof -
  assume k: "index_from hay nd i = Some k" and j: "i \<le> j" "j < k"
  obtain n where n: "n < length [i ..< Suc (length hay)]" "k = [i ..< Suc (length hay)] ! n"
    "\<forall>m < n. \<not> occurs_at hay nd ([i ..< Suc (length hay)] ! m)"
    using k unfolding index_from_def find_Some_iff by blast
  have "[i ..< Suc (length hay)] ! (j - i) = j" "j - i < n" using n(1,2) j by (auto simp del: upt_Suc)
  with n(3) show "\<not> occurs_at hay nd j" by metis
qed

lemma match_loop_best:
  "best_upto hay nd (context_score hay nd p q) i best \<Longrightarrow>
     best_upto hay nd (context_score hay nd p q) (Suc (length hay)) (match_loop hay nd p q i best)"
proof (induction hay nd p q i best rule: match_loop.induct)
  case (1 hay nd p q i best)
  let ?sc = "context_score hay nd p q"
  show ?case
  proof (cases "index_from hay nd i")
    case None
    then have no: "\<not> occurs_at hay nd j" if "j < Suc (length hay)" "i \<le> j" for j
      using index_from_None [OF None that(2)] that(1) by simp
    have le: "occurs_at hay nd j \<Longrightarrow> j < Suc (length hay) \<Longrightarrow> j < i" for j using no [of j] by linarith
    show ?thesis
    proof (cases best)
      case None': None
      then show ?thesis using 1(2) le None by (auto simp: best_upto_def match_loop.simps)
    next
      case (Some bb)
      obtain b bs where bb: "bb = (b, bs)" by (cases bb)
      have m: "match_loop hay nd p q i best = best" using None by (simp add: match_loop.simps)
      show ?thesis unfolding m using 1(2) le unfolding Some bb best_upto_def by auto
    qed
  next
    case (Some j)
    let ?best = "case best of None \<Rightarrow> Some (j, ?sc j) | Some (b, bs) \<Rightarrow> if ?sc j > bs then Some (j, ?sc j) else best"
    have m: "match_loop hay nd p q i best = match_loop hay nd p q (Suc j) ?best"
      using Some by (subst match_loop.simps) (simp add: Let_def)
    have j: "i \<le> j" "occurs_at hay nd j" "\<And>k. i \<le> k \<Longrightarrow> k < j \<Longrightarrow> \<not> occurs_at hay nd k"
      using index_from_Some [OF Some] index_from_first [OF Some] by auto
    have jl: "j \<le> length hay" using index_from_Some [OF Some] by simp
    have up: "k < i \<or> k = j" if "k < Suc j" "occurs_at hay nd k" for k using j(3) [of k] that by (cases "k < i") (auto simp: less_Suc_eq)
    have "best_upto hay nd ?sc (Suc j) ?best"
    proof (cases best)
      case None
      with 1(2) have "\<forall>k < i. \<not> occurs_at hay nd k" by (simp add: best_upto_def)
      then have "k = j" if "k < Suc j" "occurs_at hay nd k" for k using up [OF that] that(2) by blast
      then have "\<forall>k < Suc j. occurs_at hay nd k \<longrightarrow> k = j" by blast
      then have "\<forall>k < Suc j. occurs_at hay nd k \<longrightarrow> ?sc k \<le> ?sc j" "\<forall>k < j. \<not> occurs_at hay nd k" by (auto simp: less_Suc_eq)
      then show ?thesis using None j(2) jl by (simp add: best_upto_def)
    next
      case (Some bb)
      obtain b bs where bb: "bb = (b, bs)" by (cases bb)
      have b: "b < i" "b \<le> length hay" "occurs_at hay nd b" "bs = ?sc b" "\<And>k. k < i \<Longrightarrow> occurs_at hay nd k \<Longrightarrow> ?sc k \<le> bs"
        "\<And>k. k < b \<Longrightarrow> occurs_at hay nd k \<Longrightarrow> ?sc k < bs" using 1(2) by (auto simp: best_upto_def Some bb)
      show ?thesis
      proof (cases "?sc j > bs")
        case True
        have "?sc k \<le> ?sc j" if "k < Suc j" "occurs_at hay nd k" for k
          using up [OF that] b(5) [of k] that(2) True by (elim disjE) auto
        moreover have "?sc k < ?sc j" if "k < j" "occurs_at hay nd k" for k
          using up [of k] b(5) [of k] that True by fastforce
        ultimately show ?thesis using True j(2) jl by (simp add: best_upto_def Some bb)
      next
        case False
        have "?sc k \<le> bs" if "k < Suc j" "occurs_at hay nd k" for k
          using up [OF that] b(5) [of k] that(2) False by (elim disjE) auto
        then show ?thesis using False j(1) b by (simp add: best_upto_def Some bb)
      qed
    qed
    then show ?thesis unfolding m by (rule 1(1) [OF Some refl])
  qed
qed

lemma bestMatch_best:
  assumes "bestMatch hay nd p q = Some i"
  shows "occurs_at hay nd i" "i \<le> length hay"
    "j \<le> length hay \<Longrightarrow> occurs_at hay nd j \<Longrightarrow> context_score hay nd p q j \<le> context_score hay nd p q i"
    "j < i \<Longrightarrow> occurs_at hay nd j \<Longrightarrow> context_score hay nd p q j < context_score hay nd p q i"
proof -
  have "best_upto hay nd (context_score hay nd p q) 0 None" by (simp add: best_upto_def)
  from match_loop_best [OF this] assms obtain bs where
    "best_upto hay nd (context_score hay nd p q) (Suc (length hay)) (Some (i, bs))"
    by (auto simp: bestMatch_def split: if_splits)
  then show "occurs_at hay nd i" "i \<le> length hay"
    "j \<le> length hay \<Longrightarrow> occurs_at hay nd j \<Longrightarrow> context_score hay nd p q j \<le> context_score hay nd p q i"
    "j < i \<Longrightarrow> occurs_at hay nd j \<Longrightarrow> context_score hay nd p q j < context_score hay nd p q i"
    by (auto simp: best_upto_def)
qed

lemma bestMatch_found:
  assumes "nd \<noteq> []" "occurs_at hay nd j" "j \<le> length hay"
  obtains i where "bestMatch hay nd p q = Some i"
proof -
  have "best_upto hay nd (context_score hay nd p q) 0 None" by (simp add: best_upto_def)
  from match_loop_best [OF this] have "match_loop hay nd p q 0 None \<noteq> None"
    using assms(2,3) unfolding best_upto_def by (metis (mono_tags, lifting) le_imp_less_Suc option.simps(4))
  with assms(1) that show thesis by (auto simp: bestMatch_def)
qed

lemma agree_le: "agree xs ys \<le> length ys"
  by (induction xs ys rule: agree.induct) auto

lemma agree_prefix: "agree (ys @ zs) ys = length ys"
  by (induction ys) auto

lemma agree_full: "agree xs ys = length ys \<Longrightarrow> \<exists>zs. xs = ys @ zs"
  by (induction xs ys rule: agree.induct) (auto split: if_splits)

text \<open>The score reaches its bound exactly where the whole context stands around the occurrence.\<close>

definition in_context :: "jstr \<Rightarrow> nat \<Rightarrow> nat \<Rightarrow> jstr \<Rightarrow> jstr \<Rightarrow> bool" where
  "in_context hay i n p q \<longleftrightarrow> ends_with (take i hay) p \<and> starts_with (drop (i + n) hay) q"

lemma context_score_le: "context_score hay nd p q i \<le> length p + length q"
  using agree_le [of "rev (take i hay)" "rev p"] agree_le [of "drop (i + length nd) hay" q] by (simp add: context_score_def)

lemma context_score_full: "context_score hay nd p q i = length p + length q \<longleftrightarrow> in_context hay i (length nd) p q"
proof
  assume e: "context_score hay nd p q i = length p + length q"
  have "agree (rev (take i hay)) (rev p) = length (rev p)" "agree (drop (i + length nd) hay) q = length q"
    using e agree_le [of "rev (take i hay)" "rev p"] agree_le [of "drop (i + length nd) hay" q] by (simp_all add: context_score_def)
  then obtain a b where "rev (take i hay) = rev p @ a" "drop (i + length nd) hay = q @ b"
    using agree_full by metis
  then have "take i hay = rev a @ p" "drop (i + length nd) hay = q @ b"
    by (metis rev_append rev_rev_ident) (rule \<open>drop (i + length nd) hay = q @ b\<close>)
  then show "in_context hay i (length nd) p q" by (auto simp: in_context_def ends_with_iff starts_with_iff)
next
  assume "in_context hay i (length nd) p q"
  then obtain a b where "take i hay = a @ p" "drop (i + length nd) hay = q @ b"
    by (auto simp: in_context_def ends_with_iff starts_with_iff)
  then show "context_score hay nd p q i = length p + length q"
    using agree_prefix [of "rev p" "rev a"] agree_prefix [of q b] by (simp add: context_score_def)
qed

subsection \<open>Finding a described selection again\<close>

lemma occurs_at_append: "occurs_at (a @ b @ c) b (length a)"
  by (simp add: occurs_at_def)

lemma slice_split3: "s \<le> e \<Longrightarrow> take s all @ slice s e all @ drop e all = all"
  unfolding slice_def by (metis append_assoc append_take_drop_id le_add_diff_inverse take_add)

lemma context_around:
  assumes "e \<le> length all" "s \<le> e"
  shows "ends_with (sq lower (take s all)) (sq lower (fst (contextAround all s e)))"
    "starts_with (sq lower (drop e all)) (sq lower (snd (contextAround all s e)))"
proof -
  have "take s all = take (s - CONTEXT) all @ slice (s - CONTEXT) s all"
    unfolding slice_def using slice_split3 [of "s - CONTEXT" s all]
    by (metis append_take_drop_id diff_le_self drop_take min.absorb1 take_take)
  then have "sq lower (take s all) = sq lower (take (s - CONTEXT) all) @ sq lower (slice (s - CONTEXT) s all)"
    by (metis sq_append)
  then show "ends_with (sq lower (take s all)) (sq lower (fst (contextAround all s e)))"
    by (auto simp: contextAround_def ends_with_iff)
  have "drop e all = slice e (e + CONTEXT) all @ drop CONTEXT (drop e all)" by (simp add: slice_def del: drop_drop)
  then have "sq lower (drop e all) = sq lower (slice e (e + CONTEXT) all) @ sq lower (drop CONTEXT (drop e all))"
    by (metis sq_append)
  then show "starts_with (sq lower (drop e all)) (sq lower (snd (contextAround all s e)))"
    by (auto simp: contextAround_def starts_with_iff)
qed

lemma located_span:
  assumes "occurs_at (sq lower all) q i" "q \<noteq> []" "i \<le> length (sq lower all)"
  defines "s \<equiv> places all ! i" and "e \<equiv> places all ! (i + length q - 1) + 1"
  shows "sq lower (take s all) = take i (sq lower all)" "sq lower (slice s e all) = q"
    "sq lower (drop e all) = drop (i + length q) (sq lower all)" "s < e" "e \<le> length all"
proof -
  have q: "take (length q) (drop i (sq lower all)) = q" using assms(1) by (simp add: occurs_at_def)
  have len: "i + length q \<le> length (sq lower all)" using arg_cong [OF q, of length] assms(3) by (simp add: min_def split: if_splits)
  have pos: "0 < length q" using assms(2) by simp
  then have suc: "i + length q - 1 + 1 = i + length q" by linarith
  have i: "i < length (places all)" "i + length q - 1 < length (places all)"
    using pos len by (simp_all add: length_places [of all lower], linarith+)
  show tk: "sq lower (take s all) = take i (sq lower all)" unfolding s_def by (rule sq_before [OF i(1)])
  have te: "sq lower (take e all) = take (i + length q) (sq lower all)"
    using sq_upto [OF i(2), of lower] unfolding e_def suc .
  have "sorted (places all)" unfolding places_def by (rule sorted_wrt_filter) simp
  then have "places all ! i \<le> places all ! (i + length q - 1)"
    using i pos by (intro sorted_nth_mono) linarith+
  then show se: "s < e" by (simp add: s_def e_def)
  show "e \<le> length all" using places_nth [OF i(2)] by (simp add: e_def)
  have "take e all = take s all @ slice s e all"
    using take_add [of s "e - s" all] se by (simp add: slice_def)
  then have "sq lower (take e all) = sq lower (take s all) @ sq lower (slice s e all)" by (simp only: sq_append)
  then have "take (i + length q) (sq lower all) = take i (sq lower all) @ sq lower (slice s e all)"
    by (simp only: te tk)
  then show "sq lower (slice s e all) = q" using q by (simp add: take_add)
  have "sq lower (take e all) @ sq lower (drop e all) = take (i + length q) (sq lower all) @ drop (i + length q) (sq lower all)"
    by (simp only: append_take_drop_id flip: sq_append)
  then show "sq lower (drop e all) = drop (i + length q) (sq lower all)" by (simp only: te same_append_eq)
qed

text \<open>Given an occurrence in the whole context, the chosen one has it too and is not a later one.\<close>

lemma best_in_context:
  assumes n: "n \<noteq> []" and o: "occurs_at t n k" and k: "k \<le> length t" and c: "in_context t k (length n) P S"
  obtains i where "bestMatch t n P S = Some i" "in_context t i (length n) P S" "i \<le> k"
proof -
  obtain i where i: "bestMatch t n P S = Some i" using bestMatch_found [OF n o k] by blast
  note best = bestMatch_best [OF i]
  have full: "context_score t n P S k = length P + length S" using c context_score_full by blast
  then have "context_score t n P S i = length P + length S"
    using best(3) [OF k o] context_score_le [of t n P S i] by simp
  then have ci: "in_context t i (length n) P S" using context_score_full by blast
  have "\<not> k < i" using best(4) [of k] o full \<open>context_score t n P S i = length P + length S\<close> by auto
  then show thesis using that [OF i ci] by simp
qed

text \<open>C8: A described selection is found again. The anchor taken of a selection is located in the same
  text, at a place that reads as the selection does once white space and case are left aside and that
  has all of the recorded context around it; it is the selection itself (there is as much kept text
  before it) unless the same quote already stands earlier in the same context. What the browser
  reports as selected may differ from the text nodes in white space and case.\<close>

theorem describe_locate:
  assumes d: "describe lower ix p q shown lines = Some a"
    and s: "s = offsetOf ix p" and e: "e = offsetOf ix q" and le: "e \<le> length (all_text ix)"
    and sh: "shown = [] \<or> sq lower shown = sq lower (slice s e (all_text ix))"
  shows "\<exists>s' e'. locate lower (all_text ix) a = Some (s', e') \<and> s' < e' \<and> e' \<le> length (all_text ix)
    \<and> sq lower (slice s' e' (all_text ix)) = sq lower (slice s e (all_text ix))
    \<and> ends_with (sq lower (take s' (all_text ix))) (text_of lower (pre a))
    \<and> starts_with (sq lower (drop e' (all_text ix))) (text_of lower (suf a))
    \<and> length (sq lower (take s' (all_text ix))) \<le> length (sq lower (take s (all_text ix)))
    \<and> ((\<forall>i < length (sq lower (take s (all_text ix))).
            \<not> (occurs_at (sq lower (all_text ix)) (text_of lower (quote a)) i
               \<and> in_context (sq lower (all_text ix)) i (length (text_of lower (quote a))) (text_of lower (pre a)) (text_of lower (suf a))))
        \<longrightarrow> sq lower (take s' (all_text ix)) = sq lower (take s (all_text ix)))"
proof -
  let ?all = "all_text ix" let ?t = "sq lower ?all" let ?i0 = "length (sq lower (take s ?all))"
  have tx: "text_of lower x = sq lower (str_or x [])" for x by (simp add: text_of_def squash_eq)
  have a: "text_of lower (quote a) = sq lower (slice s e ?all)" "sq lower (slice s e ?all) \<noteq> []" "s \<le> e"
    "text_of lower (pre a) = sq lower (fst (contextAround ?all s e))" "text_of lower (suf a) = sq lower (snd (contextAround ?all s e))"
    using d sh unfolding describe_def s [symmetric] e [symmetric]
    by (auto simp: tx str_or_def squash_eq Let_def split: if_splits)
  define n where "n = sq lower (slice s e ?all)"
  define P where "P = text_of lower (pre a)"
  define S where "S = text_of lower (suf a)"
  have t: "?t = sq lower (take s ?all) @ n @ sq lower (drop e ?all)"
    unfolding n_def by (metis slice_split3 [OF a(3)] sq_append)
  have o0: "occurs_at ?t n ?i0" unfolding t by (rule occurs_at_append)
  have l0: "?i0 \<le> length ?t" by (simp add: t)
  have c0: "in_context ?t ?i0 (length n) P S"
    using context_around [OF le a(3), of lower] by (simp add: in_context_def t P_def S_def a)
  have n: "n \<noteq> []" using a(2) by (simp add: n_def)
  obtain i where i: "bestMatch ?t n P S = Some i" and ci: "in_context ?t i (length n) P S" and ii: "i \<le> ?i0"
    by (rule best_in_context [OF n o0 l0 c0])
  note best = bestMatch_best [OF i]
  note sp = located_span [OF best(1) n best(2)]
  let ?s = "places ?all ! i" let ?e = "places ?all ! (i + length n - 1) + 1"
  have loc: "locate lower ?all a = Some (?s, ?e)"
    using i n by (simp add: locate_def squash_eq a(1) flip: n_def P_def S_def)
  have ctx: "ends_with (sq lower (take ?s ?all)) P" "starts_with (sq lower (drop ?e ?all)) S"
    using ci unfolding in_context_def sp(1,3) by simp_all
  have len: "length (sq lower (take ?s ?all)) = i" using sp(1) best(2) by simp
  have same: "sq lower (take ?s ?all) = sq lower (take s ?all)"
    if "\<forall>i < ?i0. \<not> (occurs_at ?t n i \<and> in_context ?t i (length n) P S)"
    using that best(1) ci ii sp(1) t by (metis append_eq_conv_conj le_neq_implies_less)
  show ?thesis
    unfolding a(1) n_def [symmetric] P_def [symmetric] S_def [symmetric]
  proof (intro exI conjI impI)
    show "locate lower ?all a = Some (?s, ?e)" by (rule loc)
    show "?s < ?e" "?e \<le> length ?all" "sq lower (slice ?s ?e ?all) = n" by (rule sp(4) sp(5) sp(2))+
    show "ends_with (sq lower (take ?s ?all)) P" "starts_with (sq lower (drop ?e ?all)) S" by (rule ctx)+
    show "length (sq lower (take ?s ?all)) \<le> ?i0" unfolding len by (rule ii)
    show "sq lower (take ?s ?all) = sq lower (take s ?all)"
      if "\<forall>i < ?i0. \<not> (occurs_at ?t n i \<and> in_context ?t i (length n) P S)" by (rule same [OF that])
  qed
qed

subsection \<open>Points\<close>

text \<open>The index: each visible node starts where the ones before it end.\<close>

definition index_ok :: "TextIndex \<Rightarrow> bool" where
  "index_ok ix \<longleftrightarrow> length (starts ix) = length (nodes ix) \<and> all_text ix = concat (map data (nodes ix))
     \<and> (\<forall>i < length (nodes ix). starts ix ! i = length (concat (map data (take i (nodes ix)))))"

lemma index_ok_add: "index_ok ix \<Longrightarrow> index_ok (add_node ix n)"
  by (auto simp: index_ok_def add_node_def nth_append less_Suc_eq)

lemma index_ok_textIndex: "index_ok (textIndex ns)" "nodes (textIndex ns) = filter visible ns"
proof -
  have "index_ok ix \<Longrightarrow> index_ok (foldl add_node ix ns) \<and> nodes (foldl add_node ix ns) = nodes ix @ ns" for ix ns
    by (induction ns arbitrary: ix) (simp_all add: index_ok_add, simp add: add_node_def)
  from this [of "\<lparr>all_text = [], nodes = [], starts = []\<rparr>" "filter visible ns"]
  show "index_ok (textIndex ns)" "nodes (textIndex ns) = filter visible ns"
    by (simp_all add: textIndex_def index_ok_def)
qed

text \<open>The binary search finds the last node that starts before the place, or at it for a start point.\<close>

definition starts_by :: "nat list \<Rightarrow> nat \<Rightarrow> bool \<Rightarrow> nat \<Rightarrow> bool" where
  "starts_by st at e i \<longleftrightarrow> st ! i < at \<or> \<not> e \<and> st ! i = at"

lemma search_point_last:
  assumes "sorted st" "lo \<le> hi" "hi < length st"
    and "lo = 0 \<or> starts_by st at e lo" "\<And>j. hi < j \<Longrightarrow> j < length st \<Longrightarrow> \<not> starts_by st at e j"
  defines "r \<equiv> search_point st at e lo hi"
  shows "lo \<le> r \<and> r \<le> hi \<and> (r = 0 \<or> starts_by st at e r) \<and> (\<forall>j. r < j \<longrightarrow> j < length st \<longrightarrow> \<not> starts_by st at e j)"
  using assms unfolding r_def
proof (induction st at e lo hi rule: search_point.induct)
  case (1 st at e lo hi)
  let ?mid = "(lo + hi + 1) div 2"
  show ?case
  proof (cases "lo < hi")
    case False
    with 1(4) have "lo = hi" by simp
    moreover have "search_point st at e lo hi = lo" using False by (subst search_point.simps) simp
    ultimately show ?thesis using 1(6,7) by auto
  next
    case lt: True
    show ?thesis
    proof (cases "starts_by st at e ?mid")
      case True
      have s: "search_point st at e lo hi = search_point st at e ?mid hi"
        using lt True by (subst search_point.simps) (simp add: starts_by_def Let_def)
      have "?mid \<le> search_point st at e ?mid hi \<and> search_point st at e ?mid hi \<le> hi
          \<and> (search_point st at e ?mid hi = 0 \<or> starts_by st at e (search_point st at e ?mid hi))
          \<and> (\<forall>j. search_point st at e ?mid hi < j \<longrightarrow> j < length st \<longrightarrow> \<not> starts_by st at e j)"
        using lt True 1(7) by (intro 1(1) refl 1(3,5)) (auto simp: starts_by_def)
      with lt show ?thesis unfolding s by auto
    next
      case False
      have s: "search_point st at e lo hi = search_point st at e lo (?mid - 1)"
        using lt False by (subst search_point.simps) (auto simp: starts_by_def Let_def)
      have up: "\<not> starts_by st at e j" if "?mid - 1 < j" "j < length st" for j
      proof -
        have "st ! ?mid \<le> st ! j" using 1(3) that by (intro sorted_nth_mono) auto
        with False show ?thesis by (auto simp: starts_by_def)
      qed
      have "lo \<le> search_point st at e lo (?mid - 1) \<and> search_point st at e lo (?mid - 1) \<le> ?mid - 1
          \<and> (search_point st at e lo (?mid - 1) = 0 \<or> starts_by st at e (search_point st at e lo (?mid - 1)))
          \<and> (\<forall>j. search_point st at e lo (?mid - 1) < j \<longrightarrow> j < length st \<longrightarrow> \<not> starts_by st at e j)"
        using lt False 1(5) up by (intro 1(2) refl 1(3,6)) (auto simp: starts_by_def)
      with lt show ?thesis unfolding s by auto
    qed
  qed
qed

lemma starts_sorted: "index_ok ix \<Longrightarrow> sorted (starts ix)"
proof (unfold sorted_iff_nth_mono, intro allI impI)
  fix i j assume ok: "index_ok ix" and ij: "i \<le> j" "j < length (starts ix)"
  have "take j (nodes ix) = take i (nodes ix) @ take (j - i) (drop i (nodes ix))"
    using take_add [of i "j - i" "nodes ix"] ij(1) by simp
  then have "length (concat (map data (take i (nodes ix)))) \<le> length (concat (map data (take j (nodes ix))))" by simp
  then show "starts ix ! i \<le> starts ix ! j" using ok ij by (simp add: index_ok_def)
qed

text \<open>The point stands for its place: the start of its node and the offset add up to it.\<close>

lemma pointAt_place:
  assumes "index_ok ix" "at \<le> length (all_text ix)" "pointAt ix at e = Some (k, off)"
  shows "k < length (nodes ix)" "starts ix ! k + off = at" "off \<le> length (data (nodes ix ! k))"
proof -
  have ne: "nodes ix \<noteq> []" and k: "k = search_point (starts ix) at e 0 (length (nodes ix) - 1)"
    and off: "off = min (at - starts ix ! k) (length (data (nodes ix ! k)))"
    using assms(3) by (auto simp: pointAt_def Let_def split: if_splits)
  have len: "length (starts ix) = length (nodes ix)" using assms(1) by (simp add: index_ok_def)
  have r: "0 \<le> k \<and> k \<le> length (nodes ix) - 1 \<and> (k = 0 \<or> starts_by (starts ix) at e k)
      \<and> (\<forall>j. k < j \<longrightarrow> j < length (starts ix) \<longrightarrow> \<not> starts_by (starts ix) at e j)"
    unfolding k using ne len starts_sorted [OF assms(1)]
    by (intro search_point_last) (auto simp: Suc_le_eq)
  then show kn: "k < length (nodes ix)" using ne by (cases "nodes ix") auto
  have st: "starts ix ! i = length (concat (map data (take i (nodes ix))))" if "i < length (nodes ix)" for i
    using assms(1) that by (simp add: index_ok_def)
  have next_start: "length (concat (map data (take (Suc k) (nodes ix)))) = starts ix ! k + length (data (nodes ix ! k))"
    using kn st [OF kn] by (simp add: take_Suc_conv_app_nth)
  have lo: "starts ix ! k \<le> at" using r st [OF kn] by (auto simp: starts_by_def)
  have hi: "at \<le> starts ix ! k + length (data (nodes ix ! k))"
  proof (cases "Suc k < length (nodes ix)")
    case True
    then have "\<not> starts_by (starts ix) at e (Suc k)" using r len by simp
    then have "at \<le> starts ix ! Suc k" by (auto simp: starts_by_def)
    with st [OF True] next_start show ?thesis by simp
  next
    case False
    then have "take (Suc k) (nodes ix) = nodes ix" using kn by simp
    with next_start assms(1,2) show ?thesis by (simp add: index_ok_def)
  qed
  show "off \<le> length (data (nodes ix ! k))" by (simp add: off)
  show "starts ix ! k + off = at" unfolding off min_def using lo hi by auto
qed

text \<open>A highlight shows its quote. Whatever anchor a comment carries, a range made for it in a page
  starts and ends inside visible text nodes, at offsets the nodes have, runs forward, and the text
  from its start to its end is the quote once white space and case are left aside.\<close>

theorem range_reads_quote:
  assumes "rangeFor lower (textIndex ns) a = Some ((k, x), (l, y))" and ix: "ix = textIndex ns"
  shows "k < length (nodes ix) \<and> l < length (nodes ix) \<and> visible (nodes ix ! k) \<and> visible (nodes ix ! l)
    \<and> x \<le> length (data (nodes ix ! k)) \<and> y \<le> length (data (nodes ix ! l))
    \<and> starts ix ! k + x < starts ix ! l + y
    \<and> sq lower (slice (starts ix ! k + x) (starts ix ! l + y) (all_text ix)) = text_of lower (quote a)"
proof -
  have ok: "index_ok ix" and vis: "i < length (nodes ix) \<Longrightarrow> visible (nodes ix ! i)" for i
    unfolding ix using index_ok_textIndex(1) by (auto simp: index_ok_textIndex(2) dest!: nth_mem)
  obtain s e where loc: "locate lower (all_text ix) a = Some (s, e)"
    and p: "pointAt ix s False = Some (k, x)" "pointAt ix e True = Some (l, y)"
    using assms(1) unfolding ix by (auto simp: rangeFor_def split: option.splits)
  define q where "q = text_of lower (quote a)"
  have q: "q \<noteq> []" using loc by (auto simp: locate_def q_def Let_def)
  obtain i where i: "bestMatch (sq lower (all_text ix)) q (text_of lower (pre a)) (text_of lower (suf a)) = Some i"
    "s = places (all_text ix) ! i" "e = places (all_text ix) ! (i + length q - 1) + 1"
    using loc q by (auto simp: locate_def squash_eq q_def Let_def split: option.splits)
  note sp = located_span [OF bestMatch_best(1) [OF i(1)] q bestMatch_best(2) [OF i(1)], folded i(2,3)]
  have s: "s \<le> length (all_text ix)" using sp(4,5) by simp
  note ps = pointAt_place [OF ok s p(1)] and pe = pointAt_place [OF ok sp(5) p(2)]
  show ?thesis unfolding ps(2) pe(2) q_def [symmetric] using ps(1,3) pe(1,3) vis sp(2,4) by blast
qed

text \<open>A page of two paragraphs and a script: the second \<open>B c\<close> is selected across two nodes.\<close>

definition small_page :: TextIndex where
  "small_page = textIndex [\<lparr>data = js ''a b c'', above = []\<rparr>, \<lparr>data = js ''x'', above = [(js ''SCRIPT'', False)]\<rparr>,
     \<lparr>data = js ''d B'', above = [(js ''P'', False)]\<rparr>, \<lparr>data = js '' c e'', above = []\<rparr>]"

definition ascii_fold :: "nat \<Rightarrow> jstr" where
  "ascii_fold u = [if 65 \<le> u \<and> u \<le> 90 then u + 32 else u]"

lemma describe_locate_witness:
  defines "a \<equiv> \<lparr>quote = Some (js ''B c''), pre = Some (js ''a b cd ''), suf = Some (js '' e''), aline = None\<rparr>"
  shows "describe ascii_fold small_page (InText 1 2) (InText 2 2) (js ''B c'') False = Some a
    \<and> (\<exists>s' e'. locate ascii_fold (all_text small_page) a = Some (s', e')
         \<and> sq ascii_fold (slice s' e' (all_text small_page)) = js ''bc'')
    \<and> locate ascii_fold (all_text small_page) a = Some (7, 10)"
proof -
  have d: "describe ascii_fold small_page (InText 1 2) (InText 2 2) (js ''B c'') False = Some a" unfolding a_def by code_simp
  have o: "7 = offsetOf small_page (InText 1 2)" "10 = offsetOf small_page (InText 2 2)" "10 \<le> length (all_text small_page)"
    "sq ascii_fold (js ''B c'') = sq ascii_fold (slice 7 10 (all_text small_page))"
    "sq ascii_fold (slice 7 10 (all_text small_page)) = js ''bc''" by code_simp+
  have "locate ascii_fold (all_text small_page) a = Some (7, 10)" unfolding a_def by code_simp
  with d describe_locate [OF d o(1,2,3) disjI2 [OF o(4)]] o(5) show ?thesis by fastforce
qed

lemma range_reads_quote_witness:
  defines "a \<equiv> \<lparr>quote = Some (js ''B c''), pre = Some (js ''a b cd ''), suf = Some (js '' e''), aline = None\<rparr>"
  defines "ns \<equiv> [\<lparr>data = js ''a b c'', above = []\<rparr>, \<lparr>data = js ''x'', above = [(js ''SCRIPT'', False)]\<rparr>,
     \<lparr>data = js ''d B'', above = [(js ''P'', False)]\<rparr>, \<lparr>data = js '' c e'', above = []\<rparr>]"
  shows "rangeFor ascii_fold (textIndex ns) a = Some ((1, 2), (2, 2))
    \<and> sq ascii_fold (slice (starts (textIndex ns) ! 1 + 2) (starts (textIndex ns) ! 2 + 2) (all_text (textIndex ns)))
        = text_of ascii_fold (quote a)"
proof -
  have "rangeFor ascii_fold (textIndex ns) a = Some ((1, 2), (2, 2))" unfolding a_def ns_def by code_simp
  with range_reads_quote [OF this refl] show ?thesis by blast
qed

end
