(* ===== verification/Treemap.thy ===== *)
theory Treemap
  imports Complex_Main Prelude "HOL-Library.Multiset"
begin

section \<open>Squarified treemap (squarify in components/Insights.tsx)\<close>

text \<open>
  The layout of the treemap: items sorted by value fill the rectangle in rows along its shorter
  side, a row grows while its worst aspect ratio does not get worse. Lengths are rational numbers
  where the code computes in floating point. An item's value is the argument \<open>val\<close>.
\<close>

record 'a Placed =
  pitem :: 'a
  px :: rat
  py :: rat
  pw :: rat
  ph :: rat

definition worst :: "rat list \<Rightarrow> rat \<Rightarrow> rat" where
  "worst row side =
     (let d = sum_list row / side
      in foldl (\<lambda>m a. let l = a / d in max m (max (l / d) (d / l))) 0 row)"

fun take_row :: "rat \<Rightarrow> ('a \<times> rat) list \<Rightarrow> ('a \<times> rat) list \<Rightarrow> ('a \<times> rat) list \<times> ('a \<times> rat) list" where
  "take_row side row [] = (row, [])"
| "take_row side row (r # rest) =
     (if worst (map snd (row @ [r])) side \<le> worst (map snd row) side
      then take_row side (row @ [r]) rest else (row, r # rest))"

fun lay_row :: "bool \<Rightarrow> rat \<Rightarrow> rat \<Rightarrow> rat \<Rightarrow> rat \<Rightarrow> ('a \<times> rat) list \<Rightarrow> 'a Placed list" where
  "lay_row horiz x y d off [] = []"
| "lay_row horiz x y d off (r # rs) =
     (let l = snd r / d
      in (if horiz then \<lparr>pitem = fst r, px = x, py = y + off, pw = d, ph = l\<rparr>
          else \<lparr>pitem = fst r, px = x + off, py = y, pw = l, ph = d\<rparr>)
         # lay_row horiz x y d (off + l) rs)"

lemma take_row_split: "fst (take_row side row rest) @ snd (take_row side row rest) = row @ rest"
  by (induction side row rest rule: take_row.induct) auto

lemma take_row_shorter: "length (snd (take_row side row rest)) \<le> length rest"
  by (induction side row rest rule: take_row.induct) auto

lemma take_row_grows: "\<exists>more. fst (take_row side row rest) = row @ more"
  by (induction side row rest rule: take_row.induct) auto

function squarify_rows :: "rat \<Rightarrow> rat \<Rightarrow> rat \<Rightarrow> rat \<Rightarrow> ('a \<times> rat) list \<Rightarrow> 'a Placed list" where
  "squarify_rows x y w h [] = []"
| "squarify_rows x y w h (r # rs) =
     (let horiz = (w \<ge> h);
          side = (if horiz then h else w);
          row = fst (take_row side [r] rs);
          rest = snd (take_row side [r] rs);
          d = sum_list (map snd row) / side
      in lay_row horiz x y d 0 row
         @ (if horiz then squarify_rows (x + d) y (w - d) h rest else squarify_rows x (y + d) w (h - d) rest))"
  by pat_completeness auto
termination
  by (relation "measure (\<lambda>(x, y, w, h, rs). length rs)") (simp_all add: take_row_shorter less_Suc_eq_le)

definition squarify :: "('a \<Rightarrow> nat) \<Rightarrow> 'a list \<Rightarrow> rat \<Rightarrow> rat \<Rightarrow> rat \<Rightarrow> rat \<Rightarrow> 'a Placed list" where
  "squarify val xs x y w h =
     (let tot = sum_list (map val xs)
      in if tot = 0 \<or> w \<le> 0 \<or> h \<le> 0 then []
         else squarify_rows x y w h
           (map (\<lambda>it. (it, of_nat (val it) / of_nat tot * w * h)) (sort_key (\<lambda>it. - int (val it)) xs)))"

subsection \<open>The cells tile the rectangle\<close>

definition area :: "'a Placed \<Rightarrow> rat" where
  "area p = pw p * ph p"

definition inside :: "rat \<Rightarrow> rat \<Rightarrow> rat \<Rightarrow> rat \<Rightarrow> 'a Placed \<Rightarrow> bool" where
  "inside x y w h p \<longleftrightarrow> x \<le> px p \<and> px p + pw p \<le> x + w \<and> y \<le> py p \<and> py p + ph p \<le> y + h \<and> 0 < pw p \<and> 0 < ph p"

definition apart :: "'a Placed \<Rightarrow> 'a Placed \<Rightarrow> bool" where
  "apart p q \<longleftrightarrow> px p + pw p \<le> px q \<or> px q + pw q \<le> px p \<or> py p + ph p \<le> py q \<or> py q + ph q \<le> py p"

text \<open>A layout of a list of areas in a rectangle: each item has its area, the cells lie inside and
  no two of them overlap.\<close>

definition lays_out :: "('a \<times> rat) list \<Rightarrow> rat \<Rightarrow> rat \<Rightarrow> rat \<Rightarrow> rat \<Rightarrow> 'a Placed list \<Rightarrow> bool" where
  "lays_out rs x y w h ps \<longleftrightarrow>
     map (\<lambda>p. (pitem p, area p)) ps = rs \<and> (\<forall>p \<in> set ps. inside x y w h p) \<and> sorted_wrt apart ps"

lemma lays_out_inside: "lays_out rs x y w h ps \<Longrightarrow> p \<in> set ps \<Longrightarrow> inside x y w h p"
  by (simp add: lays_out_def)

lemma lays_out_row:
  assumes "0 < d" "\<forall>r \<in> set row. 0 < snd r"
  shows "lays_out row x (y + off) d (sum_list (map snd row) / d) (lay_row True x y d off row)"
    and "lays_out row (x + off) y (sum_list (map snd row) / d) d (lay_row False x y d off row)"
proof -
  have pos: "0 \<le> sum_list (map snd rs) / d" if "\<forall>r \<in> set rs. 0 < snd r" for rs :: "('a \<times> rat) list"
    using that assms(1) by (intro divide_nonneg_pos sum_list_nonneg) (auto simp: less_imp_le)
  show "lays_out row x (y + off) d (sum_list (map snd row) / d) (lay_row True x y d off row)"
    using assms(2)
  proof (induction row arbitrary: off)
    case (Cons r row)
    let ?l = "snd r / d" and ?t = "sum_list (map snd row) / d"
    have IH: "lays_out row x (y + (off + ?l)) d ?t (lay_row True x y d (off + ?l) row)"
      using Cons by (simp add: add.assoc)
    have l: "0 < ?l" "0 \<le> ?t" using Cons.prems assms(1) pos [of row] by simp_all
    have "inside x (y + off) d (sum_list (map snd (r # row)) / d) q" "y + off + ?l \<le> py q"
      if "q \<in> set (lay_row True x y d (off + ?l) row)" for q
      using lays_out_inside [OF IH that] l by (auto simp: inside_def add_divide_distrib add.assoc)
    then show ?case using IH l assms(1)
      by (auto simp: lays_out_def Let_def area_def inside_def apart_def add_divide_distrib)
  qed (simp add: lays_out_def)
  show "lays_out row (x + off) y (sum_list (map snd row) / d) d (lay_row False x y d off row)"
    using assms(2)
  proof (induction row arbitrary: off)
    case (Cons r row)
    let ?l = "snd r / d" and ?t = "sum_list (map snd row) / d"
    have IH: "lays_out row (x + (off + ?l)) y ?t d (lay_row False x y d (off + ?l) row)"
      using Cons by (simp add: add.assoc)
    have l: "0 < ?l" "0 \<le> ?t" using Cons.prems assms(1) pos [of row] by simp_all
    have "inside (x + off) y (sum_list (map snd (r # row)) / d) d q" "x + off + ?l \<le> px q"
      if "q \<in> set (lay_row False x y d (off + ?l) row)" for q
      using lays_out_inside [OF IH that] l by (auto simp: inside_def add_divide_distrib add.assoc)
    then show ?case using IH l assms(1)
      by (auto simp: lays_out_def Let_def area_def inside_def apart_def add_divide_distrib)
  qed (simp add: lays_out_def)
qed

text \<open>Two layouts side by side, or one below the other.\<close>

lemma lays_out_beside:
  assumes "lays_out rs x y d h ps" "lays_out rs' (x + d) y w h qs" "0 \<le> d" "0 \<le> w"
  shows "lays_out (rs @ rs') x y (d + w) h (ps @ qs)"
proof -
  have "apart p q" if "p \<in> set ps" "q \<in> set qs" for p q
    using lays_out_inside [OF assms(1) that(1)] lays_out_inside [OF assms(2) that(2)]
    by (simp add: apart_def inside_def)
  moreover have "inside x y (d + w) h p" if "p \<in> set (ps @ qs)" for p
    using that lays_out_inside [OF assms(1), of p] lays_out_inside [OF assms(2), of p] assms(3,4)
    by (auto simp: inside_def)
  ultimately show ?thesis using assms(1,2) by (auto simp: lays_out_def sorted_wrt_append)
qed

lemma lays_out_below:
  assumes "lays_out rs x y w d ps" "lays_out rs' x (y + d) w h qs" "0 \<le> d" "0 \<le> h"
  shows "lays_out (rs @ rs') x y w (d + h) (ps @ qs)"
proof -
  have "apart p q" if "p \<in> set ps" "q \<in> set qs" for p q
    using lays_out_inside [OF assms(1) that(1)] lays_out_inside [OF assms(2) that(2)]
    by (simp add: apart_def inside_def)
  moreover have "inside x y w (d + h) p" if "p \<in> set (ps @ qs)" for p
    using that lays_out_inside [OF assms(1), of p] lays_out_inside [OF assms(2), of p] assms(3,4)
    by (auto simp: inside_def)
  ultimately show ?thesis using assms(1,2) by (auto simp: lays_out_def sorted_wrt_append)
qed

lemma lays_out_Nil: "lays_out [] x y w h []"
  by (simp add: lays_out_def)

lemma areas_nonneg: "\<forall>r \<in> set rs. 0 < snd r \<Longrightarrow> 0 \<le> sum_list (map snd rs)" for rs :: "('a \<times> rat) list"
  by (intro sum_list_nonneg) (auto simp: less_imp_le)

lemma areas_pos: "\<forall>r \<in> set rs. 0 < snd r \<Longrightarrow> rs \<noteq> [] \<Longrightarrow> 0 < sum_list (map snd rs)" for rs :: "('a \<times> rat) list"
  using areas_nonneg [of "tl rs"] by (cases rs) (auto simp: add_pos_nonneg)

lemma squarify_rows_layout:
  "\<forall>r \<in> set rs. 0 < snd r \<Longrightarrow> 0 < w \<Longrightarrow> 0 < h \<Longrightarrow> rs = [] \<or> sum_list (map snd rs) = w * h \<Longrightarrow>
     lays_out rs x y w h (squarify_rows x y w h rs)"
proof (induction x y w h rs rule: squarify_rows.induct)
  case (1 x y w h) then show ?case by (simp add: lays_out_Nil)
next
  case (2 x y w h r rs)
  define side where "side = (if w \<ge> h then h else w)"
  define row where "row = fst (take_row side [r] rs)"
  define rest where "rest = snd (take_row side [r] rs)"
  define d where "d = sum_list (map snd row) / side"
  have split: "r # rs = row @ rest" using take_row_split [of side "[r]" rs] by (simp add: row_def rest_def)
  have ne: "row \<noteq> []" using take_row_grows [of side "[r]" rs] by (auto simp: row_def)
  have pos: "\<forall>r \<in> set row. 0 < snd r" "\<forall>r \<in> set rest. 0 < snd r" using 2(3) split by auto
  have side: "0 < side" using 2(4,5) by (simp add: side_def)
  have d: "0 < d" using areas_pos [OF pos(1) ne] side by (simp add: d_def)
  have sum: "side * d = sum_list (map snd row)" "side * d + sum_list (map snd rest) = w * h"
    using 2(6) side split ne by (simp_all add: d_def flip: sum_list_append map_append)
  have len: "sum_list (map snd row) / d = side" using d sum(1) by (simp add: field_simps)
  show ?case
  proof (cases "w \<ge> h")
    case True
    then have s: "side = h" by (simp add: side_def)
    have rest_sum: "sum_list (map snd rest) = (w - d) * h" using sum(2) s by (simp add: algebra_simps)
    have "lays_out row x y d h (lay_row True x y d 0 row)"
      using lays_out_row(1) [OF d pos(1), of x y 0] len s by simp
    moreover have "lays_out rest (x + d) y (w - d) h (squarify_rows (x + d) y (w - d) h rest) \<and> 0 \<le> w - d"
    proof (cases "rest = []")
      case True
      then show ?thesis using rest_sum 2(5) by (simp add: lays_out_Nil)
    next
      case False
      then have "0 < w - d" using areas_pos [OF pos(2)] rest_sum 2(5) by (simp add: zero_less_mult_iff)
      with 2(1) [OF refl refl refl refl refl True] show ?thesis
        using pos(2) rest_sum 2(5) by (simp add: side_def [symmetric] s True rest_def row_def d_def)
    qed
    ultimately have "lays_out (row @ rest) x y (d + (w - d)) h
        (lay_row True x y d 0 row @ squarify_rows (x + d) y (w - d) h rest)"
      using d by (intro lays_out_beside) auto
    moreover have "squarify_rows x y w h (r # rs) = lay_row True x y d 0 row @ squarify_rows (x + d) y (w - d) h rest"
      using True by (simp add: Let_def row_def rest_def d_def s)
    ultimately show ?thesis by (simp add: split)
  next
    case False
    then have s: "side = w" by (simp add: side_def)
    have rest_sum: "sum_list (map snd rest) = w * (h - d)" using sum(2) s by (simp add: algebra_simps)
    have "lays_out row x y w d (lay_row False x y d 0 row)"
      using lays_out_row(2) [OF d pos(1), of x 0 y] len s by simp
    moreover have "lays_out rest x (y + d) w (h - d) (squarify_rows x (y + d) w (h - d) rest) \<and> 0 \<le> h - d"
    proof (cases "rest = []")
      case True
      then show ?thesis using rest_sum 2(4) by (simp add: lays_out_Nil)
    next
      case F: False
      then have "0 < h - d" using areas_pos [OF pos(2)] rest_sum 2(4) by (simp add: zero_less_mult_iff)
      with 2(2) [OF refl refl refl refl refl False] show ?thesis
        using pos(2) rest_sum 2(4) by (simp add: side_def [symmetric] s False rest_def row_def d_def)
    qed
    ultimately have "lays_out (row @ rest) x y w (d + (h - d))
        (lay_row False x y d 0 row @ squarify_rows x (y + d) w (h - d) rest)"
      using d by (intro lays_out_below) auto
    moreover have "squarify_rows x y w h (r # rs) = lay_row False x y d 0 row @ squarify_rows x (y + d) w (h - d) rest"
      using False by (simp add: Let_def row_def rest_def d_def s)
    ultimately show ?thesis by (simp add: split)
  qed
qed

lemma sum_list_areas:
  "tot \<noteq> 0 \<Longrightarrow> sum_list (map (\<lambda>it. of_nat (val it) / of_nat tot * w * h) xs) = of_nat (sum_list (map val xs)) / of_nat tot * w * (h :: rat)"
  by (induction xs) (simp_all add: algebra_simps add_divide_distrib)

lemma sum_list_sort_key: "sum_list (map val (sort_key f xs)) = sum_list (map val xs)" for val :: "'a \<Rightarrow> nat"
  by (metis mset_map mset_sort sum_mset_sum_list)

text \<open>C16: the treemap is a tiling: for items of positive value every item gets exactly one cell, the
  cell's share of the rectangle's area is the item's share of the total value, every cell lies
  inside the rectangle with positive sides, and no two cells overlap.\<close>

theorem squarify_tiles:
  assumes "0 < w" "0 < h" "list_all (\<lambda>it. 0 < val it) xs"
  shows "mset (map pitem (squarify val xs x y w h)) = mset xs
    \<and> (\<forall>p \<in> set (squarify val xs x y w h). inside x y w h p
         \<and> area p / (w * h) = of_nat (val (pitem p)) / of_nat (sum_list (map val xs)))
    \<and> sorted_wrt apart (squarify val xs x y w h)"
proof (cases "xs = []")
  case True
  then show ?thesis by (simp add: squarify_def)
next
  case False
  let ?tot = "sum_list (map val xs)"
  define share where "share = (\<lambda>it. of_nat (val it) / of_nat ?tot * w * h)"
  define rs where "rs = map (\<lambda>it. (it, share it)) (sort_key (\<lambda>it. - int (val it)) xs)"
  have "0 < val (hd xs)" "val (hd xs) \<le> ?tot"
    using assms(3) False by (cases xs; simp)+
  then have tot: "0 < ?tot" by simp
  have eq: "squarify val xs x y w h = squarify_rows x y w h rs"
    using tot assms(1,2) by (simp add: squarify_def rs_def share_def del: sum_list_eq_0_iff)
  have pos: "\<forall>r \<in> set rs. 0 < snd r"
    using assms tot by (auto simp: rs_def share_def list_all_iff)
  have "sum_list (map snd rs) = sum_list (map share (sort_key (\<lambda>it. - int (val it)) xs))" by (simp add: rs_def o_def)
  also have "\<dots> = of_nat ?tot / of_nat ?tot * w * h"
    unfolding share_def using tot by (subst sum_list_areas) (simp_all add: sum_list_sort_key del: sum_list_eq_0_iff)
  finally have "sum_list (map snd rs) = w * h" using tot by (simp del: sum_list_eq_0_iff)
  then have lay: "lays_out rs x y w h (squarify_rows x y w h rs)"
    using squarify_rows_layout [OF pos assms(1,2)] by simp
  then have map_eq: "map (\<lambda>p. (pitem p, area p)) (squarify_rows x y w h rs) = rs"
    by (simp add: lays_out_def)
  have "map pitem (squarify_rows x y w h rs) = map fst rs"
    by (subst map_eq [symmetric]) simp
  then have "mset (map pitem (squarify_rows x y w h rs)) = mset xs"
    by (simp add: rs_def o_def flip: mset_map)
  moreover have "area p / (w * h) = of_nat (val (pitem p)) / of_nat ?tot" if "p \<in> set (squarify_rows x y w h rs)" for p
  proof -
    from that have "(pitem p, area p) \<in> set rs" by (subst map_eq [symmetric]) force
    then have "area p = share (pitem p)" by (auto simp: rs_def)
    then show ?thesis using assms(1,2) by (simp add: share_def)
  qed
  ultimately show ?thesis using lay by (simp add: eq lays_out_def)
qed

lemma squarify_tiles_witness:
  "sorted_wrt apart (squarify id [1, 3] 0 0 4 2)
    \<and> map (\<lambda>p. (pitem p, px p, py p, pw p, ph p)) (squarify id [1, 3] 0 0 4 2)
      = [(3, 0, 0, 3, 2), (1, 3, 0, 1, 2)]"
proof
  show "sorted_wrt apart (squarify id [1, 3] 0 0 4 2)"
    using squarify_tiles [of 4 2 id "[1, 3]" 0 0] by simp
  show "map (\<lambda>p. (pitem p, px p, py p, pw p, ph p)) (squarify id [1, 3] 0 0 4 2)
      = [(3, 0, 0, 3, 2), (1, 3, 0, 1, 2)]"
    by code_simp
qed

end
