(* ===== verification/Insights.thy ===== *)
theory Insights
  imports Feed Util Visits Treemap "HOL-Library.Product_Lexorder" "HOL-Library.Multiset"
begin

section \<open>Insights: reads against freshness (components/Insights.tsx)\<close>

text \<open>
  The page joins the read counts with the files of the tree: one point per file, from which the
  numbers of the top row, the list of files to fix, the treemap, the hot paths, the scatter plot and
  the coverage matrix are derived. Ages and areas are rational numbers where the code computes in
  floating point. Counts are naturals (the hub's), so no value of the treemap is zero. A time that
  does not parse has age 0 here. Locale-aware number formatting is left out.
\<close>

subsection \<open>Thresholds\<close>

record Thresholds =
  hot :: int
  stale :: int

definition TH_KEY :: jstr where "TH_KEY = js ''bd.insights.thresholds.v2''"
definition TH_KEY_V1 :: jstr where "TH_KEY_V1 = js ''bd.insights.thresholds''"
definition V1_DEFAULT :: Thresholds where "V1_DEFAULT = \<lparr>hot = 3, stale = 30\<rparr>"

text \<open>\<open>+x\<close> on a JSON value; \<open>None\<close> is NaN. \<open>Number\<close> on a text is an argument. Numbers are whole,
  as the control below stores them. An array reads as its only element's text.\<close>

fun to_number :: "(jstr \<Rightarrow> int option) \<Rightarrow> Json \<Rightarrow> int option" where
  "to_number num JNull = Some 0"
| "to_number num (JBool b) = Some (if b then 1 else 0)"
| "to_number num (JNum n) = Some n"
| "to_number num (JStr s) = num s"
| "to_number num (JArr []) = Some 0"
| "to_number num (JArr [x]) = (case x of JBool b \<Rightarrow> None | _ \<Rightarrow> to_number num x)"
| "to_number num (JArr (x # y # zs)) = None"
| "to_number num (JObj fs) = None"

definition at_least_one :: "(jstr \<Rightarrow> int option) \<Rightarrow> Json option \<Rightarrow> int option" where
  "at_least_one num x =
     (case x of None \<Rightarrow> None
      | Some v \<Rightarrow> (case to_number num v of None \<Rightarrow> None | Some n \<Rightarrow> if n \<ge> 1 then Some n else None))"

text \<open>The outer \<open>None\<close> is the exception of \<open>JSON.parse\<close>, the inner one is \<open>null\<close>.\<close>

definition parseThresholds ::
  "(jstr \<Rightarrow> int option) \<Rightarrow> (jstr \<Rightarrow> Json option) \<Rightarrow> jstr option \<Rightarrow> Thresholds option option" where
  "parseThresholds num jparse raw =
     (case (if truthy raw then jparse (the raw) else Some JNull) of
        None \<Rightarrow> None
      | Some (JObj fs) \<Rightarrow>
          (case (at_least_one num (map_of fs (js ''hot'')), at_least_one num (map_of fs (js ''stale''))) of
             (Some h, Some st) \<Rightarrow> Some (Some \<lparr>hot = h, stale = st\<rparr>)
           | _ \<Rightarrow> Some None)
      | Some _ \<Rightarrow> Some None)"

definition default_thresholds :: Thresholds where
  "default_thresholds = \<lparr>hot = int HOT_READS, stale = 30\<rparr>"

lemma default_thresholds_STALE_DAYS: "of_int (stale default_thresholds) = STALE_DAYS"
  by (simp add: default_thresholds_def STALE_DAYS_def)

definition loadThresholds ::
  "(jstr \<Rightarrow> int option) \<Rightarrow> (jstr \<Rightarrow> Json option) \<Rightarrow> Tab \<Rightarrow> Thresholds \<times> Tab" where
  "loadThresholds num jparse s =
     (if \<not> readable s then (default_thresholds, s)
      else case parseThresholds num jparse (items s TH_KEY) of
        None \<Rightarrow> (default_thresholds, s)
      | Some (Some t) \<Rightarrow> (t, s)
      | Some None \<Rightarrow>
          (case parseThresholds num jparse (items s TH_KEY_V1) of
             None \<Rightarrow> (default_thresholds, s)
           | Some v1 \<Rightarrow>
               let s' = s\<lparr>items := (items s)(TH_KEY_V1 := None)\<rparr>
               in (case v1 of
                     Some t \<Rightarrow> (if hot t \<noteq> hot V1_DEFAULT \<or> stale t \<noteq> stale V1_DEFAULT then t else default_thresholds, s')
                   | None \<Rightarrow> (default_thresholds, s'))))"

text \<open>The effect that stores them.\<close>

definition json_thresholds :: "Thresholds \<Rightarrow> Json" where
  "json_thresholds t = JObj [(js ''hot'', JNum (hot t)), (js ''stale'', JNum (stale t))]"

definition saveThresholds :: "(Json \<Rightarrow> jstr) \<Rightarrow> Thresholds \<Rightarrow> Tab \<Rightarrow> Tab" where
  "saveThresholds print t s = store_item TH_KEY (print (json_thresholds t)) s"

text \<open>The number fields: \<open>Number(v)\<close> is the argument, \<open>None\<close> when it is not finite.\<close>

definition threshold_num :: "(jstr \<Rightarrow> rat option) \<Rightarrow> jstr \<Rightarrow> int \<Rightarrow> int" where
  "threshold_num num v fallback =
     (case num v of None \<Rightarrow> fallback | Some x \<Rightarrow> if js_round x \<ge> 1 then js_round x else fallback)"

definition set_stale :: "(jstr \<Rightarrow> rat option) \<Rightarrow> jstr \<Rightarrow> Thresholds \<Rightarrow> Thresholds" where
  "set_stale num v t = t\<lparr>stale := threshold_num num v (stale t)\<rparr>"

definition set_hot :: "(jstr \<Rightarrow> rat option) \<Rightarrow> jstr \<Rightarrow> Thresholds \<Rightarrow> Thresholds" where
  "set_hot num v t = t\<lparr>hot := threshold_num num v (hot t)\<rparr>"

definition th_ok :: "Thresholds \<Rightarrow> bool" where
  "th_ok t \<longleftrightarrow> 1 \<le> hot t \<and> 1 \<le> stale t"

lemma at_least_one_ge: "at_least_one num x = Some n \<Longrightarrow> 1 \<le> n"
  by (auto simp: at_least_one_def split: option.splits if_splits)

lemma parseThresholds_ok: "parseThresholds num jparse raw = Some (Some t) \<Longrightarrow> th_ok t"
  by (auto simp: parseThresholds_def th_ok_def dest: at_least_one_ge split: if_splits option.splits Json.splits)

lemma default_thresholds_ok: "th_ok default_thresholds"
  by (simp add: th_ok_def default_thresholds_def HOT_READS_def)

lemma th_ok_keeps [simp]:
  "th_ok t \<Longrightarrow> th_ok (set_hot num v t)" "th_ok t \<Longrightarrow> th_ok (set_stale num v t)"
  by (auto simp: th_ok_def set_hot_def set_stale_def threshold_num_def split: option.splits)

lemma loadThresholds_ok: "th_ok (fst (loadThresholds num jparse s))"
  using parseThresholds_ok default_thresholds_ok
  by (fastforce simp: loadThresholds_def Let_def split: option.splits)

text \<open>What is stored is what the next visit starts with, whatever an older version left behind.\<close>

lemma thresholds_survive:
  assumes "th_ok t" "readable s" "writable s" "print (json_thresholds t) \<noteq> []"
    "jparse (print (json_thresholds t)) = Some (json_thresholds t)"
  shows "fst (loadThresholds num jparse (reload (saveThresholds print t s))) = t"
  using assms
  by (simp add: loadThresholds_def saveThresholds_def store_item_def reload_def parseThresholds_def truthy_def
      json_thresholds_def at_least_one_def th_ok_def js_def)

subsection \<open>Files and points\<close>

datatype Lens = LAll | LHuman | LAgent | LShare
datatype Kind = KAgent | KHuman | KShare

definition LENS_ORDER :: "Lens list" where
  "LENS_ORDER = [LAll, LHuman, LAgent, LShare]"

fun LENS_LABEL :: "Lens \<Rightarrow> jstr" where
  "LENS_LABEL LAll = js ''All reads''"
| "LENS_LABEL LHuman = js ''People''"
| "LENS_LABEL LAgent = js ''Agents''"
| "LENS_LABEL LShare = js ''Share links''"

fun KIND_LABEL :: "Kind \<Rightarrow> jstr" where
  "KIND_LABEL KAgent = js ''agents''"
| "KIND_LABEL KHuman = js ''people''"
| "KIND_LABEL KShare = js ''share''"

record InFile =
  fpath :: jstr
  fsize :: "nat option"
  ftime :: "jstr option"
  fwho :: Who

record Pt =
  ppath :: jstr
  preads :: nat
  pagent :: nat
  phuman :: nat
  pshare :: nat
  ptotal :: nat
  pdays :: rat
  peditor :: jstr
  pdanger :: bool
  pempty :: bool
  porphan :: bool

fun kind_of :: "Kind \<Rightarrow> Pt \<Rightarrow> nat" where
  "kind_of KAgent p = pagent p"
| "kind_of KHuman p = phuman p"
| "kind_of KShare p = pshare p"

fun lens_kinds :: "Lens \<Rightarrow> Kind list" where
  "lens_kinds LAll = [KAgent, KHuman, KShare]"
| "lens_kinds LHuman = [KHuman]"
| "lens_kinds LAgent = [KAgent]"
| "lens_kinds LShare = [KShare]"

text \<open>The key under which the emptied files are asked for: the files of size zero or unknown.\<close>

definition emptied_key :: "InFile list \<Rightarrow> jstr" where
  "emptied_key fs =
     join [10] (map (\<lambda>f. fpath f @ js ''@'' @ str_or (ftime f) [])
       (filter (\<lambda>f. fsize f = None \<or> fsize f = Some 0) fs))"

definition inScope :: "jstr \<Rightarrow> jstr \<Rightarrow> bool" where
  "inScope scope p \<longleftrightarrow> scope = [] \<or> p = scope \<or> starts_with p (scope @ js ''/'')"

definition scoped_files :: "jstr \<Rightarrow> InFile list \<Rightarrow> InFile list" where
  "scoped_files scope fs = (if scope \<noteq> [] then filter (\<lambda>f. inScope scope (fpath f)) fs else fs)"

fun lensReads :: "Lens \<Rightarrow> HeatEntry \<Rightarrow> nat" where
  "lensReads LAll e = heatTotal e"
| "lensReads LHuman e = human e"
| "lensReads LAgent e = agent e"
| "lensReads LShare e = share e"

definition no_heat :: HeatEntry where
  "no_heat = \<lparr>human = 0, agent = 0, share = 0\<rparr>"

definition entry_for :: "HeatMap option \<Rightarrow> jstr \<Rightarrow> HeatEntry" where
  "entry_for h p = (case h of None \<Rightarrow> no_heat | Some h \<Rightarrow> (case map_of h p of None \<Rightarrow> no_heat | Some e \<Rightarrow> e))"

definition point ::
  "(jstr \<Rightarrow> int option) \<Rightarrow> int \<Rightarrow> Lens \<Rightarrow> Thresholds \<Rightarrow> jstr set \<Rightarrow> HeatMap option \<Rightarrow> InFile \<Rightarrow> Pt" where
  "point pd now lens th emptied h f =
     (let e = entry_for h (fpath f);
          days = (case daysSince pd (ftime f) now of None \<Rightarrow> 0 | Some d \<Rightarrow> d);
          n = lensReads lens e;
          emp = (fpath f \<in> emptied \<and> n > 0)
      in \<lparr>ppath = fpath f, preads = n, pagent = agent e, phuman = human e, pshare = share e,
          ptotal = heatTotal e, pdays = days,
          peditor = str_or (user_name (fwho f)) (str_or (user (fwho f)) (str_or (author (fwho f)) [])),
          pdanger = (\<not> emp \<and> int n \<ge> hot th \<and> days \<ge> of_int (stale th)), pempty = emp, porphan = False\<rparr>)"

definition orphan_point :: "Lens \<Rightarrow> HeatMap option \<Rightarrow> jstr \<Rightarrow> Pt" where
  "orphan_point lens h p =
     (let e = entry_for h p
      in \<lparr>ppath = p, preads = lensReads lens e, pagent = agent e, phuman = human e, pshare = share e,
          ptotal = heatTotal e, pdays = 0, peditor = [], pdanger = False, pempty = False, porphan = True\<rparr>)"

definition orphans :: "Lens \<Rightarrow> jstr \<Rightarrow> HeatMap option \<Rightarrow> InFile list \<Rightarrow> Pt list" where
  "orphans lens scope h flat =
     filter (\<lambda>p. preads p > 0)
       (map (orphan_point lens h) (filter (inScope scope) (orphanPaths h (set (map fpath flat)))))"

definition points ::
  "(jstr \<Rightarrow> int option) \<Rightarrow> int \<Rightarrow> Lens \<Rightarrow> Thresholds \<Rightarrow> jstr set \<Rightarrow> HeatMap option \<Rightarrow> jstr \<Rightarrow> InFile list \<Rightarrow> Pt list" where
  "points pd now lens th emptied h scope flat = map (point pd now lens th emptied h) (scoped_files scope flat)"

subsection \<open>Wording\<close>

definition plural :: "nat \<Rightarrow> jstr \<Rightarrow> jstr" where
  "plural n word = nat_str n @ js '' '' @ word @ (if n = 1 then [] else js ''s'')"

definition daysLabel :: "rat \<Rightarrow> jstr" where
  "daysLabel d =
     (let n = js_round d
      in if n = 0 then js ''today'' else if n = 1 then js ''1 day ago'' else int_str n @ js '' days ago'')"

definition DOT :: jstr where "DOT = js '' '' @ [183] @ js '' ''"
definition DASH :: jstr where "DASH = js '' '' @ [8212] @ js '' ''"
definition WARN :: jstr where "WARN = [9888] @ js '' ''"
definition STOP :: jstr where "STOP = [9940] @ js '' ''"

definition counts_text :: "nat \<Rightarrow> nat \<Rightarrow> nat \<Rightarrow> jstr" where
  "counts_text h a sh = nat_str h @ js '' people'' @ DOT @ nat_str a @ js '' agents'' @ DOT @ nat_str sh @ js '' share''"

definition kindsText :: "Pt \<Rightarrow> jstr" where
  "kindsText p = counts_text (phuman p) (pagent p) (pshare p)"

definition tip :: "Pt \<Rightarrow> jstr" where
  "tip p = join DASH
     ([ppath p, plural (preads p) (js ''read'') @ js ''/30d ('' @ kindsText p @ js '')'']
      @ (if porphan p then [js ''no longer in the project'']
         else [js ''changed '' @ daysLabel (pdays p) @ (if peditor p \<noteq> [] then js '' by '' @ peditor p else [])])
      @ (if pempty p then [STOP @ js ''empty but still read''] else if pdanger p then [WARN @ js ''hot + stale''] else []))"

datatype Mark = Emptied | HotStale

definition StatusMark :: "bool \<Rightarrow> bool \<Rightarrow> Mark option" where
  "StatusMark dng emp = (if emp then Some Emptied else if dng then Some HotStale else None)"

definition reasonFor :: "Pt \<Rightarrow> jstr" where
  "reasonFor p =
     (let t = of_nat (if ptotal p = 0 then 1 else ptotal p) :: rat
      in if pempty p then js ''Emptied, still opened''
         else if of_nat (pshare p) / t \<ge> 1 / 2 then js ''Mostly read via a public share link''
         else if of_nat (pagent p) / t \<ge> 95 / 100 then js ''Only agents read it''
         else if of_nat (pagent p) / t \<ge> 6 / 10 then js ''Agents rely on it, nobody updates it''
         else if of_nat (phuman p) / t \<ge> 95 / 100 then js ''Only people read it''
         else js ''Read a lot, maintained by nobody'')"

subsection \<open>The numbers of the top row\<close>

definition kind_total :: "Lens \<Rightarrow> Pt list \<Rightarrow> Kind \<Rightarrow> nat" where
  "kind_total lens ps k = sum_list (map (\<lambda>p. if lens = LAll \<or> lens_kinds lens = [k] then kind_of k p else 0) ps)"

record Kpi =
  k_human :: nat
  k_agent :: nat
  k_share :: nat
  k_reads :: nat
  k_read_files :: nat
  k_pct :: int
  k_stale :: nat
  k_empty :: nat
  k_empty_reads :: nat

definition Kpis :: "Pt list \<Rightarrow> Pt list \<Rightarrow> Lens \<Rightarrow> Kpi" where
  "Kpis pts orph lens =
     (let al = pts @ orph;
          hu = kind_total lens al KHuman; ag = kind_total lens al KAgent; sh = kind_total lens al KShare;
          read_files = length (filter (\<lambda>p. preads p > 0) pts);
          emp = filter pempty pts
      in \<lparr>k_human = hu, k_agent = ag, k_share = sh, k_reads = hu + ag + sh, k_read_files = read_files,
          k_pct = (if pts = [] then 0 else js_round (of_nat read_files / of_nat (length pts) * 100)),
          k_stale = length (filter pdanger pts), k_empty = length emp, k_empty_reads = sum_list (map preads emp)\<rparr>)"

definition kpi_stale_text :: "Thresholds \<Rightarrow> jstr" where
  "kpi_stale_text th =
     [8805] @ js '' '' @ int_str (hot th) @ js '' read'' @ (if hot th = 1 then [] else js ''s'')
     @ js '' and unchanged for '' @ int_str (stale th) @ js ''+ days''"

definition kpi_empty_text :: "Kpi \<Rightarrow> jstr" where
  "kpi_empty_text k =
     (if k_empty k \<noteq> 0 then js ''0-byte files opened '' @ plural (k_empty_reads k) (js ''time'')
      else js ''no empty file is being read'')"

subsection \<open>Fix these first\<close>

definition FIX_MAX :: nat where "FIX_MAX = 8"

definition fix_rows :: "Pt list \<Rightarrow> Pt list" where
  "fix_rows pts =
     sort_key (\<lambda>p. (\<not> pempty p, - (of_nat (preads p) * max 1 (pdays p)))) (filter (\<lambda>p. pdanger p \<or> pempty p) pts)"

definition fix_shown :: "Pt list \<Rightarrow> Pt list" where
  "fix_shown pts = take FIX_MAX (fix_rows pts)"

definition fix_max :: "Pt list \<Rightarrow> nat" where
  "fix_max pts = Max (set (1 # map preads (fix_shown pts)))"

definition fix_name :: "Pt \<Rightarrow> jstr \<times> jstr" where
  "fix_name p =
     (case last_index 47 (ppath p) of
        None \<Rightarrow> (ppath p, [])
      | Some i \<Rightarrow> (drop (Suc i) (ppath p), if i > 0 then take (Suc i) (ppath p) else []))"

datatype Action = OpenHistory jstr | OpenFile jstr

definition fix_action :: "Pt \<Rightarrow> Action" where
  "fix_action p = (if pempty p then OpenHistory (ppath p) else OpenFile (ppath p))"

definition fix_when :: "Pt \<Rightarrow> jstr" where
  "fix_when p = daysLabel (pdays p) @ (if pempty p then js '' '' @ [8594] @ js '' 0 B'' else [])"

definition KindBar :: "Pt \<Rightarrow> nat \<Rightarrow> Lens \<Rightarrow> rat \<times> (Kind \<times> nat) list" where
  "KindBar p mx lens =
     (max 4 (of_nat (preads p) / of_nat mx * 100),
      List.map_filter (\<lambda>k. if kind_of k p \<noteq> 0 then Some (k, kind_of k p) else None)
        (if lens = LAll then [KHuman, KAgent, KShare] else lens_kinds lens))"

definition fix_more :: "Pt list \<Rightarrow> jstr" where
  "fix_more pts =
     (if length (fix_rows pts) > length (fix_shown pts)
      then js ''+ '' @ nat_str (length (fix_rows pts) - length (fix_shown pts)) @ js '' more below the cut'' else [])"

text \<open>Emptied files come first, then the most reads times days; what is cut ranks below what is shown.\<close>

lemma fix_shown_ranks:
  assumes "p \<in> set (fix_shown pts)" "q \<in> set (fix_rows pts)" "q \<notin> set (fix_shown pts)"
  shows "pempty p \<or> \<not> pempty q"
    and "pempty p = pempty q \<Longrightarrow> of_nat (preads q) * max 1 (pdays q) \<le> of_nat (preads p) * max 1 (pdays p)"
proof -
  let ?k = "\<lambda>p. (\<not> pempty p, - (of_nat (preads p) * max 1 (pdays p)))"
  from assms(2,3) have q: "q \<in> set (drop FIX_MAX (fix_rows pts))"
    unfolding fix_shown_def by (metis Un_iff append_take_drop_id set_append)
  have "sorted (map ?k (take FIX_MAX (fix_rows pts) @ drop FIX_MAX (fix_rows pts)))"
    by (simp add: fix_rows_def)
  then have "?k p \<le> ?k q"
    using assms(1) q unfolding fix_shown_def map_append sorted_append by auto
  then show "pempty p \<or> \<not> pempty q"
    and "pempty p = pempty q \<Longrightarrow> of_nat (preads q) * max 1 (pdays q) \<le> of_nat (preads p) * max 1 (pdays p)"
    by (auto simp: less_eq_prod_def)
qed

lemma fix_max_bar: "p \<in> set (fix_shown pts) \<Longrightarrow> preads p \<le> fix_max pts"
  by (simp add: fix_max_def)

subsection \<open>Cells of the treemap\<close>

definition freshEdges :: "rat \<Rightarrow> int \<times> int \<times> int" where
  "freshEdges maxDays =
     (if maxDays \<ge> 60 then (3, 14, 30)
      else let m = max 4 maxDays;
               a = max 1 (js_round (m * (1 / 10)));
               b = max (a + 1) (js_round (m * (3 / 10)));
               c = max (b + 1) (js_round (m * (6 / 10)))
           in (a, b, c))"

definition binOf :: "rat \<Rightarrow> int \<times> int \<times> int \<Rightarrow> nat" where
  "binOf d e =
     (case e of (a, b, c) \<Rightarrow>
        if d \<le> of_int a then 1 else if d \<le> of_int b then 2 else if d \<le> of_int c then 3 else 4)"

lemma edges_increasing:
  "(let a = max 1 x; b = max (a + 1) y; c = max (b + 1) z in (a, b, c)) = (a', b', c') \<Longrightarrow> 1 \<le> a' \<and> a' < b' \<and> b' < (c' :: int)"
  unfolding Let_def prod.inject by (elim conjE, intro conjI) linarith+

lemma freshEdges_increasing:
  assumes "freshEdges m = (a, b, c)"
  shows "1 \<le> a \<and> a < b \<and> b < c"
proof (cases "m \<ge> 60")
  case True
  with assms show ?thesis by (auto simp: freshEdges_def)
next
  case False
  with assms show ?thesis unfolding freshEdges_def Let_def [of "max 4 m"]
    by (simp only: if_False) (rule edges_increasing)
qed

lemma binOf_mono: "freshEdges m = e \<Longrightarrow> d \<le> d' \<Longrightarrow> binOf d e \<le> binOf d' e"
  by (cases e) (auto simp: binOf_def)

definition median :: "rat list \<Rightarrow> rat" where
  "median xs = (let s = sort xs in if s = [] then 0 else s ! (length s div 2))"

lemma median_mem: "xs \<noteq> [] \<Longrightarrow> median xs \<in> set xs"
proof -
  assume "xs \<noteq> []"
  then have "length xs div 2 < length (sort xs)" by simp
  from nth_mem [OF this] \<open>xs \<noteq> []\<close> have "sort xs ! (length xs div 2) \<in> set xs" by simp
  moreover have "sort xs \<noteq> []" using \<open>length xs div 2 < length (sort xs)\<close> by (cases "sort xs") simp_all
  ultimately show ?thesis by (simp add: median_def Let_def)
qed

record Cell =
  ckey :: jstr
  clabel :: jstr
  cfile :: bool
  cvalue :: nat
  creads :: nat
  cdays :: rat
  cfiles :: "Pt list"
  cdanger :: bool
  cempty :: bool

definition groupKey :: "jstr \<Rightarrow> jstr \<Rightarrow> jstr" where
  "groupKey fp base =
     (let depth = (if base \<noteq> [] then length (split_on 47 base) else 0)
      in join [47] (take (depth + 2) (butlast (split_on 47 fp))))"

text \<open>The map of groups keeps the order in which its keys were first set.\<close>

fun group_push :: "'k \<Rightarrow> 'a \<Rightarrow> ('k \<times> 'a list) list \<Rightarrow> ('k \<times> 'a list) list" where
  "group_push k x [] = [(k, [x])]"
| "group_push k x ((j, g) # gs) = (if j = k then (j, g @ [x]) # gs else (j, g) # group_push k x gs)"

definition groups_of :: "('a \<Rightarrow> 'k) \<Rightarrow> 'a list \<Rightarrow> ('k \<times> 'a list) list" where
  "groups_of f xs = foldl (\<lambda>gs x. group_push (f x) x gs) [] xs"

definition folder_cell :: "jstr \<Rightarrow> jstr \<times> Pt list \<Rightarrow> Cell" where
  "folder_cell base = (\<lambda>(key, fs).
     let rd = filter (\<lambda>p. preads p > 0) fs
     in \<lparr>ckey = key,
         clabel = (if key = [] then js ''(root)'' else if key = base then js ''(files here)''
                   else drop (if base \<noteq> [] then length base + 1 else 0) key),
         cfile = False, cvalue = sum_list (map (\<lambda>p. preads p + 1) fs),
         creads = sum_list (map preads rd),
         cdays = median (map pdays (if rd \<noteq> [] then rd else fs)),
         cfiles = fs, cdanger = list_ex pdanger fs, cempty = list_ex pempty fs\<rparr>)"

definition folderCells :: "Pt list \<Rightarrow> jstr \<Rightarrow> Cell list" where
  "folderCells fs base = map (folder_cell base) (groups_of (\<lambda>p. groupKey (ppath p) base) fs)"

definition file_cell :: "jstr \<Rightarrow> Pt \<Rightarrow> Cell" where
  "file_cell base p =
     \<lparr>ckey = ppath p, clabel = (if base \<noteq> [] then drop (length base + 1) (ppath p) else ppath p),
      cfile = True, cvalue = preads p + 1, creads = preads p, cdays = pdays p, cfiles = [p],
      cdanger = pdanger p, cempty = pempty p\<rparr>"

definition fileCells :: "Pt list \<Rightarrow> jstr \<Rightarrow> Cell list" where
  "fileCells fs base = map (file_cell base) fs"

lemma map_of_group_push:
  "map_of (group_push k x gs) = (map_of gs)(k \<mapsto> (case map_of gs k of None \<Rightarrow> [] | Some g \<Rightarrow> g) @ [x])"
  by (induction k x gs rule: group_push.induct) (auto simp: fun_eq_iff)

lemma group_push_keys:
  "map fst (group_push k x gs) = (if k \<in> fst ` set gs then map fst gs else map fst gs @ [k])"
  by (induction k x gs rule: group_push.induct) auto

lemma groups_of_snoc: "groups_of f (xs @ [x]) = group_push (f x) x (groups_of f xs)"
  by (simp add: groups_of_def)

lemma groups_of_keys: "distinct (map fst (groups_of f xs)) \<and> fst ` set (groups_of f xs) = f ` set xs"
proof (induction xs rule: rev_induct)
  case (snoc x xs)
  have "fst ` set (groups_of f (xs @ [x])) = set (map fst (group_push (f x) x (groups_of f xs)))"
    by (simp add: groups_of_snoc)
  with snoc show ?case by (auto simp: groups_of_snoc group_push_keys)
qed (simp add: groups_of_def)

lemma groups_of_lookup:
  "map_of (groups_of f xs) k = (if k \<in> f ` set xs then Some (filter (\<lambda>x. f x = k) xs) else None)"
proof (induction xs rule: rev_induct)
  case (snoc x xs)
  have "filter (\<lambda>y. f y = f x) xs = []" if "f x \<notin> f ` set xs"
    using that unfolding filter_empty_conv by (metis image_eqI)
  with snoc show ?case by (auto simp: groups_of_snoc map_of_group_push)
qed (simp add: groups_of_def)

lemma groups_of_mem: "(k, g) \<in> set (groups_of f xs) \<longleftrightarrow> k \<in> f ` set xs \<and> g = filter (\<lambda>x. f x = k) xs"
proof -
  have "(k, g) \<in> set (groups_of f xs) \<longleftrightarrow> map_of (groups_of f xs) k = Some g"
    using groups_of_keys [of f xs] by (simp add: map_of_eq_Some_iff)
  then show ?thesis unfolding groups_of_lookup by (auto split: if_splits)
qed

lemma groups_of_mset: "mset (concat (map snd (groups_of f xs))) = mset xs"
proof -
  have push: "mset (concat (map snd (group_push k x gs))) = add_mset x (mset (concat (map snd gs)))" for k :: 'b and x :: 'a and gs
    by (induction k x gs rule: group_push.induct) auto
  show ?thesis by (induction xs rule: rev_induct) (auto simp: groups_of_snoc push groups_of_def)
qed

definition cellTip :: "Cell \<Rightarrow> jstr" where
  "cellTip c =
     (if cfile c then tip (hd (cfiles c))
      else let k = (\<lambda>kd. sum_list (map (kind_of kd) (cfiles c)))
           in join DASH
             ([(if ckey c = [] then js ''(root)'' else ckey c) @ js ''/'',
               plural (creads c) (js ''read'') @ js ''/30d ('' @ counts_text (k KHuman) (k KAgent) (k KShare) @ js '')'',
               plural (length (cfiles c)) (js ''file'') @ DOT @ js ''read files changed ~'' @ daysLabel (cdays c)]
              @ (if cdanger c then [WARN @ nat_str (length (filter pdanger (cfiles c))) @ js '' hot + stale''] else [])
              @ (if cempty c then [STOP @ nat_str (length (filter pempty (cfiles c))) @ js '' emptied''] else [])))"

subsection \<open>The treemap\<close>

definition TM_W :: rat where "TM_W = 600"
definition TM_H :: rat where "TM_H = 420"
definition TM_OUTLINES :: nat where "TM_OUTLINES = 8"

definition scope_dir :: "(jstr \<Rightarrow> bool) \<Rightarrow> jstr \<Rightarrow> jstr" where
  "scope_dir isFolder scope = (if scope \<noteq> [] \<and> isFolder scope then scope else [])"

definition in_drill :: "Pt list \<Rightarrow> jstr \<Rightarrow> jstr option \<Rightarrow> Pt list" where
  "in_drill pts sd drill =
     (case drill of None \<Rightarrow> pts | Some dr \<Rightarrow> filter (\<lambda>p. groupKey (ppath p) sd = dr) pts)"

definition tm_cells :: "Pt list \<Rightarrow> jstr \<Rightarrow> jstr option \<Rightarrow> Cell list" where
  "tm_cells pts sd drill =
     (case drill of
        None \<Rightarrow> folderCells pts sd
      | Some dr \<Rightarrow> fileCells (in_drill pts sd drill) (if dr \<noteq> [] then dr else sd))"

definition placed :: "Pt list \<Rightarrow> jstr \<Rightarrow> jstr option \<Rightarrow> Cell Placed list" where
  "placed pts sd drill = squarify cvalue (tm_cells pts sd drill) 0 0 TM_W TM_H"

definition outlined :: "Cell list \<Rightarrow> jstr set" where
  "outlined cells =
     set (map ckey (take TM_OUTLINES
       (sort_key (\<lambda>c. - (of_nat (creads c) * cdays c)) (filter (\<lambda>c. cdanger c \<and> \<not> cempty c) cells))))"

definition tm_flat :: "Pt list \<Rightarrow> bool" where
  "tm_flat pts = (case ageRange (map pdays pts) of None \<Rightarrow> False | Some (mn, mx) \<Rightarrow> isFlatRange mn mx)"

definition tm_edges :: "Pt list \<Rightarrow> int \<times> int \<times> int" where
  "tm_edges pts = freshEdges (case ageRange (map pdays pts) of None \<Rightarrow> 0 | Some (mn, mx) \<Rightarrow> mx)"

definition tm_class :: "Pt list \<Rightarrow> jstr set \<Rightarrow> Cell \<Rightarrow> jstr" where
  "tm_class pts outl c =
     js ''in-tm-cell '' @ (if tm_flat pts then js ''in-tm-flat'' else js ''in-tm-b'' @ nat_str (binOf (cdays c) (tm_edges pts)))
     @ (if cempty c then js '' flag-empty'' else if ckey c \<in> outl then js '' flag-stale'' else [])"

definition tm_fit :: "rat \<Rightarrow> int" where
  "tm_fit w = \<lfloor>(w - 10) / (62 / 10)\<rfloor>"

definition tm_label :: "jstr set \<Rightarrow> Cell \<Rightarrow> rat \<Rightarrow> jstr" where
  "tm_label outl c w =
     (let glyph = (if cempty c then STOP else if ckey c \<in> outl then WARN else []); nm = glyph @ clabel c
      in if int (length nm) > tm_fit w then take (nat (max 1 (tm_fit w - 1))) nm @ [8230] else nm)"

definition tm_label_shown :: "Cell Placed \<Rightarrow> bool" where
  "tm_label_shown p \<longleftrightarrow> pw p > 46 \<and> ph p > 22 \<and> tm_fit (pw p) \<ge> 4"

definition tm_sub :: "Cell Placed \<Rightarrow> jstr" where
  "tm_sub p =
     (if ph p > 36 then nat_str (creads (pitem p))
        @ (if cfile (pitem p) then [] else DOT @ plural (length (cfiles (pitem p))) (js ''file'')) else [])"

definition tm_rect :: "Cell Placed \<Rightarrow> rat \<times> rat \<times> rat \<times> rat" where
  "tm_rect p = (px p + 1, py p + 1, max (4 / 10) (pw p - 2), max (4 / 10) (ph p - 2))"

text \<open>The table instead of the chart, and a click: a file opens, a folder shows its files.\<close>

definition tm_flag :: "bool \<Rightarrow> bool \<Rightarrow> jstr" where
  "tm_flag dng emp = (if emp then STOP @ js ''emptied'' else if dng then WARN @ js ''hot + stale'' else [])"

definition tm_table :: "Cell list \<Rightarrow> (jstr \<times> nat \<times> nat \<times> jstr \<times> jstr) list" where
  "tm_table cells =
     map (\<lambda>c. (clabel c, creads c, length (cfiles c), daysLabel (cdays c), tm_flag (cdanger c) (cempty c)))
       (sort_key (\<lambda>c. - int (creads c)) cells)"

definition tm_click :: "Cell option \<Rightarrow> jstr option \<Rightarrow> jstr option \<times> Action option" where
  "tm_click hit drill =
     (case hit of None \<Rightarrow> (drill, None)
      | Some c \<Rightarrow> if cfile c then (drill, Some (OpenFile (ckey c))) else (Some (ckey c), None))"

definition legend_labels :: "int \<times> int \<times> int \<Rightarrow> jstr list" where
  "legend_labels e =
     (case e of (a, b, c) \<Rightarrow>
        [[8804] @ js '' '' @ int_str a @ js ''d'',
         int_str (a + 1) @ [8211] @ int_str b @ js ''d'',
         int_str (b + 1) @ [8211] @ int_str c @ js ''d'',
         js ''> '' @ int_str c @ js ''d''])"

definition legend_range :: "Pt list \<Rightarrow> jstr option" where
  "legend_range pts =
     map_option (\<lambda>(mn, mx).
       if tm_flat pts then js ''all files here: '' @ ageSpanLabel mn mx @ js '' old '' @ [8212] @ js '' colour off, not enough range to rank''
       else js ''observed: '' @ ageSpanLabel mn mx @ js '' old '' @ [8212] @ js '' bins fit this range'') (ageRange (map pdays pts))"

text \<open>A label that is drawn fits its cell.\<close>

lemma tm_label_fits: "tm_label_shown p \<Longrightarrow> int (length (tm_label outl (pitem p) (pw p))) \<le> tm_fit (pw p)"
  by (auto simp: tm_label_def tm_label_shown_def Let_def min_def)

lemma outlined_few: "finite (outlined cells) \<and> card (outlined cells) \<le> TM_OUTLINES"
proof -
  have "card (set (map ckey (take TM_OUTLINES xs))) \<le> TM_OUTLINES" for xs :: "Cell list"
    by (rule order_trans [OF card_length]) simp
  then show ?thesis by (simp only: outlined_def finite_set simp_thms)
qed

subsection \<open>Hot paths\<close>

definition HP_MAX :: nat where "HP_MAX = 8"

fun HOT_TITLE :: "Kind \<Rightarrow> jstr" where
  "HOT_TITLE KAgent = js ''What agents load''"
| "HOT_TITLE KHuman = js ''What people open''"
| "HOT_TITLE KShare = js ''What share links serve''"

definition hot_top :: "Kind \<Rightarrow> Pt list \<Rightarrow> Pt list" where
  "hot_top k pts =
     take HP_MAX (sort_key (\<lambda>p. (- int (kind_of k p), - pdays p)) (filter (\<lambda>p. kind_of k p > 0) pts))"

text \<open>The lists, \<open>None\<close> for the note that there are no reads.\<close>

definition HotPath :: "Pt list \<Rightarrow> Kind list \<Rightarrow> (Kind \<times> nat \<times> Pt list) list option" where
  "HotPath pts kinds =
     (let lists = filter (\<lambda>(k, tot, best). best \<noteq> [] \<or> length kinds > 1 \<and> k \<noteq> KShare)
                    (map (\<lambda>k. (k, sum_list (map (kind_of k) pts), hot_top k pts)) kinds)
      in if \<not> list_ex (\<lambda>(k, tot, best). best \<noteq> []) lists then None else Some lists)"

definition hot_open :: "Pt \<Rightarrow> Action" where
  "hot_open p = (if porphan p then OpenHistory (ppath p) else OpenFile (ppath p))"

definition hot_key :: "jstr \<Rightarrow> Pt \<Rightarrow> Action option" where
  "hot_key k p = (if k = js ''Enter'' \<or> k = js '' '' then Some (hot_open p) else None)"

definition hot_mark :: "Kind \<Rightarrow> Thresholds \<Rightarrow> Pt \<Rightarrow> Mark option" where
  "hot_mark k th p = StatusMark (pdanger p \<or> int (kind_of k p) \<ge> hot th \<and> pdanger p) (pempty p)"

text \<open>\<open>toFixed(1)\<close> of a number that is not negative.\<close>

definition to_fixed1 :: "rat \<Rightarrow> jstr" where
  "to_fixed1 x = (let t = nat (js_round (10 * x)) in nat_str (t div 10) @ js ''.'' @ nat_str (t mod 10))"

definition hot_width :: "Kind \<Rightarrow> Pt list \<Rightarrow> Pt \<Rightarrow> jstr" where
  "hot_width k best p =
     to_fixed1 (of_nat (kind_of k p) / of_nat (if best \<noteq> [] then kind_of k (hd best) else 1) * 100) @ js ''%''"

definition hot_table :: "Kind \<Rightarrow> Pt list \<Rightarrow> (jstr \<times> nat \<times> jstr) list" where
  "hot_table k best = map (\<lambda>p. (ppath p, kind_of k p, if porphan p then js ''deleted'' else daysLabel (pdays p))) best"

text \<open>No row's bar is longer than the first one's.\<close>

lemma hot_top_max: "p \<in> set (hot_top k pts) \<Longrightarrow> kind_of k p \<le> kind_of k (hd (hot_top k pts))"
proof -
  let ?f = "\<lambda>p. (- int (kind_of k p), - pdays p)"
  have "sorted (map ?f (hot_top k pts))"
    by (simp add: hot_top_def take_map [symmetric] sorted_wrt_take)
  then show "p \<in> set (hot_top k pts) \<Longrightarrow> ?thesis"
    by (cases "hot_top k pts") (auto simp: less_eq_prod_def)
qed

subsection \<open>The scatter plot\<close>

definition SC_W :: rat where "SC_W = 960"
definition SC_H :: rat where "SC_H = 340"
definition M_l :: rat where "M_l = 44"
definition M_r :: rat where "M_r = 16"
definition M_t :: rat where "M_t = 20"
definition M_b :: rat where "M_b = 34"
definition R_MAX :: rat where "R_MAX = 5"

definition sc_read :: "Pt list \<Rightarrow> Pt list" where
  "sc_read pts = filter (\<lambda>p. preads p > 0) pts"

definition maxDays :: "Pt list \<Rightarrow> Thresholds \<Rightarrow> rat" where
  "maxDays pts th = foldl max (of_int (stale th) * (3 / 2)) (map pdays (sc_read pts) @ [1])"

definition maxReads :: "Pt list \<Rightarrow> Thresholds \<Rightarrow> int" where
  "maxReads pts th = foldl max (hot th * 3) (map (\<lambda>p. int (preads p)) (sc_read pts))"

text \<open>The scales. \<open>Math.log10\<close> is the argument \<open>lg\<close>.\<close>

definition sc_X :: "rat \<Rightarrow> rat \<Rightarrow> rat" where
  "sc_X mx d = M_l + R_MAX + d / mx * (SC_W - M_l - M_r - 2 * R_MAX)"

definition sc_Y :: "(rat \<Rightarrow> rat) \<Rightarrow> int \<Rightarrow> int \<Rightarrow> rat" where
  "sc_Y lg mx n =
     SC_H - M_b - R_MAX - lg (of_int (n + 1)) / lg (of_int (mx + 1)) * (SC_H - M_t - M_b - 2 * R_MAX)"

definition sc_flagged :: "Pt list \<Rightarrow> Pt list" where
  "sc_flagged pts = filter (\<lambda>p. pdanger p \<or> pempty p) (sc_read pts)"

definition sc_labels :: "(rat \<Rightarrow> rat) \<Rightarrow> Pt list \<Rightarrow> Thresholds \<Rightarrow> PlacedLabel list" where
  "sc_labels lg pts th =
     placeLabels
       (map (\<lambda>p. \<lparr>dpath = ppath p, reads = preads p, cx = sc_X (maxDays pts th) (pdays p),
                  cy = sc_Y lg (maxReads pts th) (int (preads p)), r = 9 / 2\<rparr>) (sc_flagged pts))
       (SC_W - M_r) (M_t + 8) (SC_H - M_b - 4)"

definition xTicks :: "rat \<Rightarrow> int list" where
  "xTicks mx = map (\<lambda>f. js_round (f * mx)) [0, 1 / 4, 1 / 2, 3 / 4, 1]"

definition yTicks :: "int \<Rightarrow> int list" where
  "yTicks mx = filter (\<lambda>t. t \<le> mx) [1, 3, 10, 30, 100, 300, 1000, 3000]"

definition sc_table :: "Pt list \<Rightarrow> (jstr \<times> nat \<times> int \<times> jstr) list" where
  "sc_table pts =
     map (\<lambda>p. (ppath p, preads p, js_round (pdays p), tm_flag (pdanger p) (pempty p)))
       (sort_key (\<lambda>p. (\<not> pempty p, \<not> pdanger p, - int (preads p))) (sc_read pts))"

text \<open>The shaded rectangle: left, upper edge, width, height.\<close>

definition danger_zone :: "(rat \<Rightarrow> rat) \<Rightarrow> Pt list \<Rightarrow> Thresholds \<Rightarrow> rat \<times> rat \<times> rat \<times> rat" where
  "danger_zone lg pts th =
     (let x = sc_X (maxDays pts th) (of_int (stale th)); y = sc_Y lg (maxReads pts th) (hot th)
      in (x, M_t, max 0 (SC_W - M_r - x), max 0 (y - M_t)))"

text \<open>A dot's position, and what is drawn: it rounded to a tenth.\<close>

definition sc_dot :: "(rat \<Rightarrow> rat) \<Rightarrow> Pt list \<Rightarrow> Thresholds \<Rightarrow> Pt \<Rightarrow> rat \<times> rat" where
  "sc_dot lg pts th p = (sc_X (maxDays pts th) (pdays p), sc_Y lg (maxReads pts th) (int (preads p)))"

definition to_tenth :: "rat \<Rightarrow> rat" where
  "to_tenth x = of_int (js_round (10 * x)) / 10"

definition sc_drawn :: "rat \<times> rat \<Rightarrow> rat \<times> rat" where
  "sc_drawn d = (to_tenth (fst d), to_tenth (snd d))"

lemma to_tenth_near: "\<bar>to_tenth x - x\<bar> \<le> 1 / 20"
  unfolding to_tenth_def js_round_def by linarith

definition sc_radius :: "Pt \<Rightarrow> rat" where
  "sc_radius p = (if pdanger p \<or> pempty p then 9 / 2 else 7 / 2)"

definition sc_class :: "Pt \<Rightarrow> jstr" where
  "sc_class p = js ''in-pt'' @ (if pempty p then js '' empty'' else if pdanger p then js '' danger'' else [])"

definition in_zone :: "rat \<times> rat \<times> rat \<times> rat \<Rightarrow> rat \<times> rat \<Rightarrow> bool" where
  "in_zone z d = (case (z, d) of ((x, y, w, h), (a, b)) \<Rightarrow> x \<le> a \<and> a \<le> x + w \<and> y \<le> b \<and> b \<le> y + h)"

lemma maxDays_bounds:
  assumes "th_ok th"
  shows "of_int (stale th) < maxDays pts th" "0 < maxDays pts th" "p \<in> set (sc_read pts) \<Longrightarrow> pdays p \<le> maxDays pts th"
proof -
  have "of_int (stale th) * (3 / 2) \<le> maxDays pts th" unfolding maxDays_def by (rule foldl_max_ge(1))
  moreover have "1 \<le> (of_int (stale th) :: rat)" using assms by (simp add: th_ok_def)
  ultimately show "of_int (stale th) < maxDays pts th" "0 < maxDays pts th" by linarith+
  show "p \<in> set (sc_read pts) \<Longrightarrow> pdays p \<le> maxDays pts th"
    unfolding maxDays_def by (rule foldl_max_ge(2)) simp
qed

lemma maxReads_bounds:
  assumes "th_ok th"
  shows "hot th < maxReads pts th" "p \<in> set (sc_read pts) \<Longrightarrow> int (preads p) \<le> maxReads pts th"
proof -
  have "hot th * 3 \<le> maxReads pts th" unfolding maxReads_def by (rule foldl_max_ge(1))
  with assms show "hot th < maxReads pts th" by (simp add: th_ok_def)
  show "p \<in> set (sc_read pts) \<Longrightarrow> int (preads p) \<le> maxReads pts th"
    unfolding maxReads_def by (rule foldl_max_ge(2)) simp
qed

lemma sc_X_le: "0 < mx \<Longrightarrow> sc_X mx d \<le> sc_X mx d' \<longleftrightarrow> d \<le> d'"
  by (simp add: sc_X_def SC_W_def M_l_def M_r_def R_MAX_def divide_le_cancel)

lemma sc_X_right: "0 < mx \<Longrightarrow> d \<le> mx \<Longrightarrow> sc_X mx d \<le> SC_W - M_r"
  by (simp add: sc_X_def SC_W_def M_l_def M_r_def R_MAX_def field_simps)

text \<open>What the plot uses of \<open>Math.log10\<close>: it is zero at one and strictly increasing from there.\<close>

definition log_scale :: "(rat \<Rightarrow> rat) \<Rightarrow> bool" where
  "log_scale lg \<longleftrightarrow> lg 1 = 0 \<and> (\<forall>a b. 1 \<le> a \<and> a < b \<longrightarrow> lg a < lg b)"

lemma lg_pos: "log_scale lg \<Longrightarrow> 1 < a \<Longrightarrow> 0 < lg a"
  by (metis log_scale_def order_refl)

lemma lg_le: "log_scale lg \<Longrightarrow> 1 \<le> a \<Longrightarrow> 1 \<le> b \<Longrightarrow> lg a \<le> lg b \<longleftrightarrow> a \<le> b"
  by (metis log_scale_def leD linear order_le_less)

lemma Y_le:
  assumes "log_scale lg" "1 \<le> mx" "0 \<le> m" "0 \<le> n"
  shows "sc_Y lg mx m \<le> sc_Y lg mx n \<longleftrightarrow> n \<le> m"
proof -
  have "0 < lg (of_int (mx + 1))" using assms(1,2) by (intro lg_pos) simp_all
  moreover have "lg (of_int (n + 1)) \<le> lg (of_int (m + 1)) \<longleftrightarrow> n \<le> m"
    using assms lg_le [OF assms(1), of "of_int (n + 1)" "of_int (m + 1)"] by simp
  ultimately show ?thesis by (simp add: sc_Y_def SC_H_def M_t_def M_b_def R_MAX_def divide_le_cancel)
qed

lemma Y_upper:
  assumes "log_scale lg" "1 \<le> mx" "0 \<le> n" "n \<le> mx"
  shows "M_t \<le> sc_Y lg mx n"
proof -
  have "0 < lg (of_int (mx + 1))" using assms(1,2) by (intro lg_pos) simp_all
  moreover have "lg (of_int (n + 1)) \<le> lg (of_int (mx + 1))"
    using assms lg_le [OF assms(1), of "of_int (n + 1)" "of_int (mx + 1)"] by simp
  ultimately have "lg (of_int (n + 1)) / lg (of_int (mx + 1)) \<le> 1" by simp
  moreover have "20 \<le> 340 - 34 - 5 - q * (340 - 20 - 34 - 2 * 5)" if "q \<le> 1" for q :: rat
    using that by simp
  ultimately show ?thesis unfolding sc_Y_def SC_H_def M_t_def M_b_def R_MAX_def by blast
qed

lemma zone_iff:
  assumes "log_scale lg" "th_ok th" "p \<in> set (sc_read pts)"
  shows "in_zone (danger_zone lg pts th) (sc_dot lg pts th p) \<longleftrightarrow> hot th \<le> int (preads p) \<and> of_int (stale th) \<le> pdays p"
proof -
  note D = maxDays_bounds [OF assms(2), where pts = pts] and R = maxReads_bounds [OF assms(2), where pts = pts]
  have mx: "1 \<le> maxReads pts th" "0 \<le> hot th" using R(1) assms(2) by (auto simp: th_ok_def)
  have x: "sc_X (maxDays pts th) (of_int (stale th)) \<le> SC_W - M_r" "sc_X (maxDays pts th) (pdays p) \<le> SC_W - M_r"
    using D(1,2) D(3) [OF assms(3)] by (auto intro!: sc_X_right)
  have y: "M_t \<le> sc_Y lg (maxReads pts th) (hot th)" "M_t \<le> sc_Y lg (maxReads pts th) (int (preads p))"
    using mx R(1) R(2) [OF assms(3)] by (auto intro!: Y_upper [OF assms(1)])
  show ?thesis
    using x y sc_X_le [OF D(2)] Y_le [OF assms(1) mx(1), of "int (preads p)" "hot th"] mx
    by (auto simp: in_zone_def danger_zone_def sc_dot_def Let_def)
qed

subsection \<open>Coverage: which devices read which folders\<close>

record Device =
  did :: "jstr option"
  dname :: "jstr option"
  dfolders :: "(jstr \<times> nat) list"

definition covBin :: "int \<Rightarrow> nat" where
  "covBin v = (if v \<le> 0 then 0 else if v \<le> 5 then 1 else if v \<le> 20 then 2 else if v \<le> 50 then 3 else 4)"

text \<open>\<open>m.set(f, (m.get(f) || 0) + n)\<close> on a map that keeps its order.\<close>

fun bump :: "'k \<Rightarrow> nat \<Rightarrow> ('k \<times> nat) list \<Rightarrow> ('k \<times> nat) list" where
  "bump f n [] = [(f, n)]"
| "bump f n ((g, m) # xs) = (if g = f then (g, m + n) # xs else (g, m) # bump f n xs)"

definition folder_totals :: "Device list \<Rightarrow> (jstr \<times> nat) list" where
  "folder_totals ds = foldl (\<lambda>m d. foldl (\<lambda>m (f, n). bump f n m) m (dfolders d)) [] ds"

definition cov_cols :: "Device list \<Rightarrow> (jstr \<times> nat) list" where
  "cov_cols ds = take 10 (sort_key (\<lambda>(f, n). - int n) (folder_totals ds))"

definition cov_val :: "Device \<Rightarrow> jstr \<Rightarrow> nat" where
  "cov_val d c = (case map_of (dfolders d) c of None \<Rightarrow> 0 | Some n \<Rightarrow> n)"

definition device_total :: "Device \<Rightarrow> nat" where
  "device_total d = sum_list (map snd (dfolders d))"

definition device_label :: "Device \<Rightarrow> jstr" where
  "device_label d = str_or (dname d) (str_or (did d) [])"

definition cov_rows :: "Device list \<Rightarrow> Device list" where
  "cov_rows ds = take 12 (sort_key (\<lambda>d. - int (device_total d)) ds)"

definition coverageTakeaways :: "(jstr \<times> nat) list \<Rightarrow> (jstr \<times> nat) list \<Rightarrow> (jstr \<times> jstr \<times> jstr) list" where
  "coverageTakeaways rs cols =
     (let tot = sum_list (map snd rs)
      in if tot = 0 then []
         else let low = filter (\<lambda>(nm, n). of_nat n < (of_nat (snd (rs ! 0)) :: rat) * (1 / 10)) rs;
                  lst = last cols
              in take 3
                ((if length rs \<ge> 3
                  then [(js ''users'',
                     js ''2 devices do '' @ int_str (js_round (of_nat (snd (rs ! 0) + snd (rs ! 1)) / of_nat tot * 100)) @ js ''% of agent reading'',
                     fst (rs ! 0) @ js '' and '' @ fst (rs ! 1) @ js '': their agents'' @ [39] @ js '' context is the team'' @ [39] @ js ''s de-facto canon.'')]
                  else [])
                 @ (if low \<noteq> []
                  then [(js ''off'',
                     plural (length low) (js ''device'') @ js '' barely load'' @ (if length low = 1 then js ''s'' else []) @ js '' team context'',
                     js ''Under a tenth of the busiest device'' @ [39] @ js ''s agent reads'' @ DASH @ js ''check that the BearDrive hooks are installed there.'')]
                  else [])
                 @ (if length cols \<ge> 2
                  then [(js ''archive'',
                     (if fst lst = [] then js ''(root)'' else fst lst @ js ''/'') @ js '' is the least-read folder by agents'',
                     plural (snd lst) (js ''read'') @ js '' in 30 days'' @ DASH @ js ''a candidate to exclude from agent search, or to point agents at.'')]
                  else [])))"

text \<open>What the matrix shows: nothing under the lenses that have no agent reads.\<close>

definition off_lens :: "Lens \<Rightarrow> bool" where
  "off_lens lens \<longleftrightarrow> lens = LHuman \<or> lens = LShare"

definition off_note :: "Lens \<Rightarrow> jstr" where
  "off_note lens =
     js ''This matrix counts agent reads only'' @ DASH @ js ''the '' @ LENS_LABEL lens @ js '' lens has nothing to show here.''"

definition cov_cell :: "Device \<Rightarrow> jstr \<Rightarrow> nat \<times> jstr \<times> jstr" where
  "cov_cell d c =
     (let v = cov_val d c
      in (covBin (int v),
          device_label d @ js '' '' @ [215] @ js '' '' @ (if c = [] then js ''(root)'' else c) @ js '': '' @ plural v (js ''agent read'') @ js ''/30d'',
          if v = 0 then [183] else nat_str v))"

definition CoverageMatrix :: "Device list \<Rightarrow> Lens \<Rightarrow> ((jstr \<times> (nat \<times> jstr \<times> jstr) list \<times> nat) list \<times> (jstr \<times> jstr \<times> jstr) list) option" where
  "CoverageMatrix ds lens =
     (if off_lens lens then None
      else Some (map (\<lambda>d. (device_label d, map (\<lambda>c. cov_cell d (fst c)) (cov_cols ds), device_total d)) (cov_rows ds),
                 coverageTakeaways (map (\<lambda>d. (device_label d, device_total d)) (cov_rows ds)) (cov_cols ds)))"

definition scopedDevices :: "Device list option \<Rightarrow> jstr \<Rightarrow> Device list option" where
  "scopedDevices ds scope =
     (case ds of None \<Rightarrow> None
      | Some ds \<Rightarrow>
          if scope = [] then Some ds
          else Some (filter (\<lambda>d. dfolders d \<noteq> [])
                 (map (\<lambda>d. d\<lparr>dfolders := filter (\<lambda>(f, n). inScope scope f) (dfolders d)\<rparr>) ds)))"

lemma map_of_bump: "map_of (bump f n m) = (map_of m)(f \<mapsto> (case map_of m f of None \<Rightarrow> 0 | Some k \<Rightarrow> k) + n)"
  by (induction f n m rule: bump.induct) (auto simp: fun_eq_iff)

definition val_of :: "(jstr \<times> nat) list \<Rightarrow> jstr \<Rightarrow> nat" where
  "val_of m f = (case map_of m f of None \<Rightarrow> 0 | Some k \<Rightarrow> k)"

lemma val_of_bump [simp]: "val_of (bump f n m) g = val_of m g + (if g = f then n else 0)"
  by (simp add: val_of_def map_of_bump)

lemma cov_val_val_of: "cov_val d c = val_of (dfolders d) c"
  by (simp add: cov_val_def val_of_def)

lemma val_of_Cons: "f \<notin> fst ` set m \<Longrightarrow> val_of ((f, n) # m) g = (if g = f then n else val_of m g)"
  by (simp add: val_of_def)

lemma val_of_absent: "f \<notin> fst ` set m \<Longrightarrow> val_of m f = 0"
  by (simp add: val_of_def map_of_eq_None_iff [symmetric] del: map_of_eq_None_iff)

lemma val_of_foldl_bump:
  "distinct (map fst fs) \<Longrightarrow> val_of (foldl (\<lambda>m (f, n). bump f n m) m fs) g = val_of m g + val_of fs g"
  by (induction fs arbitrary: m) (auto simp: val_of_Cons val_of_absent val_of_def [of "[]"])

lemma bump_fst: "map fst (bump f n m) = (if f \<in> fst ` set m then map fst m else map fst m @ [f])"
  by (induction f n m rule: bump.induct) auto

lemma bump_keys: "distinct (map fst m) \<Longrightarrow> distinct (map fst (bump f n m))"
  unfolding bump_fst by auto

lemma folder_totals_snoc:
  "folder_totals (ds @ [d]) = foldl (\<lambda>m (f, n). bump f n m) (folder_totals ds) (dfolders d)"
  by (simp add: folder_totals_def)

lemma folder_totals_keys: "distinct (map fst (folder_totals ds))"
proof (induction ds rule: rev_induct)
  case (snoc d ds)
  have "distinct (map fst m) \<Longrightarrow> distinct (map fst (foldl (\<lambda>m (f, n). bump f n m) m fs))" for m and fs :: "(jstr \<times> nat) list"
    by (induction fs arbitrary: m) (auto simp: bump_keys)
  with snoc show ?case by (simp add: folder_totals_snoc)
qed (simp add: folder_totals_def)

lemma folder_totals_val:
  "list_all (\<lambda>d. distinct (map fst (dfolders d))) ds \<Longrightarrow> val_of (folder_totals ds) f = sum_list (map (\<lambda>d. cov_val d f) ds)"
  by (induction ds rule: rev_induct)
    (auto simp: folder_totals_snoc val_of_foldl_bump cov_val_val_of folder_totals_def val_of_def [of "[]"])

subsection \<open>The page\<close>

definition blank_page :: "bool \<Rightarrow> jstr \<Rightarrow> InFile list \<Rightarrow> (jstr \<times> jstr) option" where
  "blank_page loading scope flat =
     (if \<not> loading \<and> scoped_files scope flat = []
      then Some (if scope \<noteq> []
        then (js ''Nothing in '' @ scope @ js '' to chart yet.'', js ''No files under '' @ scope @ js '' are syncing here yet.'')
        else (js ''Nothing to chart yet.'',
              js ''This project has no files. Once a device syncs files here, the map, the reads '' @ [215]
              @ js '' freshness plot and the hot path fill in on their own.''))
      else None)"

definition orphan_note :: "Pt list \<Rightarrow> jstr" where
  "orphan_note os =
     (if os \<noteq> [] then plural (length os) (js ''file'') @ js '' with reads '' @ (if length os = 1 then js ''is'' else js ''are'')
        @ js '' no longer in the project'' @ DASH @ js ''see Hot path.'' else [])"

subsection \<open>Every read is on the page, and counted once\<close>

text \<open>The reads of one kind that the hub reports for a path, and those of the kinds a lens shows.\<close>

fun of_kind :: "Kind \<Rightarrow> HeatEntry \<Rightarrow> nat" where
  "of_kind KAgent e = agent e"
| "of_kind KHuman e = human e"
| "of_kind KShare e = share e"

definition reported :: "HeatMap option \<Rightarrow> HeatMap" where
  "reported h = (case h of None \<Rightarrow> [] | Some m \<Rightarrow> m)"

definition tallied :: "Kind \<Rightarrow> HeatMap option \<Rightarrow> jstr \<Rightarrow> nat" where
  "tallied k h p = sum_list (map (of_kind k \<circ> snd) (filter (\<lambda>r. fst r = p) (reported h)))"

definition through :: "Lens \<Rightarrow> (Kind \<Rightarrow> nat) \<Rightarrow> nat" where
  "through lens c = (case lens of LAll \<Rightarrow> c KHuman + c KAgent + c KShare | LHuman \<Rightarrow> c KHuman | LAgent \<Rightarrow> c KAgent | LShare \<Rightarrow> c KShare)"

definition counted :: "HeatMap option \<Rightarrow> Lens \<Rightarrow> jstr \<Rightarrow> Pt \<Rightarrow> bool" where
  "counted h lens q p \<longleftrightarrow> ppath p = q \<and> phuman p = tallied KHuman h q \<and> pagent p = tallied KAgent h q
     \<and> pshare p = tallied KShare h q \<and> ptotal p = through LAll (\<lambda>k. tallied k h q) \<and> preads p = through lens (\<lambda>k. tallied k h q)"

text \<open>The point of a file: its counts, its age in days, and its two flags, either exactly when it is due.\<close>

definition shows_file ::
  "(jstr \<Rightarrow> int option) \<Rightarrow> int \<Rightarrow> Lens \<Rightarrow> Thresholds \<Rightarrow> jstr set \<Rightarrow> HeatMap option \<Rightarrow> InFile \<Rightarrow> Pt \<Rightarrow> bool" where
  "shows_file pd now lens th emptied h f p \<longleftrightarrow> counted h lens (fpath f) p \<and> \<not> porphan p
     \<and> pdays p = (case Option.bind (ftime f) (\<lambda>t. if t = [] then None else pd t) of
                    None \<Rightarrow> 0 | Some ms \<Rightarrow> if ms \<le> now then of_int (now - ms) / 86400000 else 0)
     \<and> pempty p = (fpath f \<in> emptied \<and> 0 < preads p)
     \<and> pdanger p = (\<not> (fpath f \<in> emptied \<and> 0 < preads p) \<and> hot th \<le> int (preads p) \<and> of_int (stale th) \<le> pdays p)"

definition shows_gone :: "Lens \<Rightarrow> HeatMap option \<Rightarrow> Pt \<Rightarrow> bool" where
  "shows_gone lens h p \<longleftrightarrow> counted h lens (ppath p) p \<and> porphan p \<and> \<not> pempty p \<and> \<not> pdanger p"

lemma map_of_tally:
  assumes "distinct (map fst m)"
  shows "sum_list (map (g \<circ> snd) (filter (\<lambda>r. fst r = p) m)) = (case map_of m p of None \<Rightarrow> 0 | Some e \<Rightarrow> g e)"
  using assms
proof (induction m)
  case (Cons r m)
  show ?case
  proof (cases "fst r = p")
    case True
    then have "filter (\<lambda>r. fst r = p) m = []" using Cons.prems by (simp add: filter_empty_conv) (metis image_eqI)
    with True show ?thesis by (cases r) simp
  qed (use Cons in \<open>cases r; simp\<close>)
qed simp

lemma tallied_entry: "distinct (map fst (reported h)) \<Longrightarrow> tallied k h p = of_kind k (entry_for h p)"
  by (cases k) (auto simp: tallied_def map_of_tally reported_def entry_for_def no_heat_def split: option.splits)

lemma entry_reported: "entry_for h p = (case map_of (reported h) p of None \<Rightarrow> no_heat | Some e \<Rightarrow> e)"
  by (simp add: entry_for_def reported_def split: option.splits)

lemma entry_of_row: "distinct (map fst (reported h)) \<Longrightarrow> x \<in> set (reported h) \<Longrightarrow> entry_for h (fst x) = snd x"
  by (simp add: entry_reported map_of_is_SomeI [of _ "fst x" "snd x"])

lemma through_entry: "through lens (\<lambda>k. of_kind k e) = lensReads lens e"
  by (cases lens) (simp_all add: through_def heatTotal_def)

lemma file_shown: "distinct (map fst (reported h)) \<Longrightarrow> shows_file pd now lens th emptied h f (point pd now lens th emptied h f)"
  by (auto simp: shows_file_def counted_def point_def tallied_entry through_entry Let_def daysSince_def truthy_def max_def
      split: option.splits)

lemma gone_shown: "distinct (map fst (reported h)) \<Longrightarrow> p \<in> set (orphans lens scope h flat) \<Longrightarrow> shows_gone lens h p"
  by (auto simp: orphans_def shows_gone_def counted_def orphan_point_def tallied_entry through_entry Let_def)

lemma insert_str_mset: "mset (insert_str x ys) = add_mset x (mset ys)"
  by (induction ys) auto

lemma orphanPaths_mset: "mset (orphanPaths h known) = mset (filter (\<lambda>p. p \<notin> known) (map fst (reported h)))"
proof -
  have "mset (foldr insert_str xs []) = mset xs" for xs by (induction xs) (simp_all add: insert_str_mset)
  then show ?thesis by (simp add: orphanPaths_def reported_def split: option.splits)
qed

lemma orphanPaths_keys:
  assumes "distinct (map fst (reported h))"
  shows "distinct (orphanPaths h known)" "set (orphanPaths h known) = fst ` set (reported h) - known"
proof -
  have "distinct (filter (\<lambda>p. p \<notin> known) (map fst (reported h)))" using assms by simp
  then show "distinct (orphanPaths h known)" using mset_eq_imp_distinct_iff [OF orphanPaths_mset] by metis
  show "set (orphanPaths h known) = fst ` set (reported h) - known"
    using mset_eq_setD [OF orphanPaths_mset [of h known]] by auto
qed

lemma orphan_paths: "map ppath (orphans lens scope h flat)
    = filter (\<lambda>q. inScope scope q \<and> 0 < lensReads lens (entry_for h q)) (orphanPaths h (set (map fpath flat)))"
  by (simp add: orphans_def filter_map o_def orphan_point_def Let_def conj_commute)

text \<open>What the top row counts, over points that carry the reads of the lens, and over the page's.\<close>

lemma kpi_reads:
  assumes "list_all (\<lambda>p. preads p = through lens (\<lambda>k. kind_of k p)) (pts @ os)"
  shows "k_reads (Kpis pts os lens) = sum_list (map preads (pts @ os))"
proof -
  have "kind_total lens ps KHuman + kind_total lens ps KAgent + kind_total lens ps KShare = sum_list (map preads ps)"
    if "list_all (\<lambda>p. preads p = through lens (\<lambda>k. kind_of k p)) ps" for ps
    using that by (induction ps) (cases lens; simp add: kind_total_def through_def)+
  from this [OF assms] show ?thesis by (simp add: Kpis_def Let_def)
qed

lemma page_carries:
  "list_all (\<lambda>p. preads p = through lens (\<lambda>k. kind_of k p)) (points pd now lens th emptied h scope flat @ orphans lens scope h flat)"
  by (cases lens) (auto simp: list_all_iff points_def point_def orphans_def orphan_point_def through_def heatTotal_def Let_def)

lemma sum_nonzero: "sum_list (map g (filter (\<lambda>q. P q \<and> 0 < g q) qs)) = sum_list (map g (filter P qs))" for g :: "'a \<Rightarrow> nat"
  by (induction qs) auto

lemma reads_once:
  assumes "distinct (map fst (reported h))" "distinct (map fpath flat)"
  shows "sum_list (map preads (points pd now lens th emptied h scope flat @ orphans lens scope h flat))
    = sum_list (map (\<lambda>q. lensReads lens (entry_for h q)) (filter (inScope scope) (map fst (reported h))))"
proof -
  let ?g = "\<lambda>q. lensReads lens (entry_for h q)" and ?known = "set (map fpath flat)" and ?K = "fst ` set (reported h)"
  let ?S = "\<lambda>A. {q \<in> A. inScope scope q}"
  have scoped: "map fpath (scoped_files scope flat) = filter (inScope scope) (map fpath flat)"
    by (simp add: scoped_files_def filter_map o_def) (simp add: inScope_def)
  have sums: "sum_list (map ?g (filter (inScope scope) qs)) = sum ?g (?S (set qs))" if "distinct qs" for qs
    using that by (simp add: sum_list_distinct_conv_sum_set)
  have "map preads (points pd now lens th emptied h scope flat) = map ?g (map fpath (scoped_files scope flat))"
    by (simp add: points_def point_def Let_def)
  then have files: "sum_list (map preads (points pd now lens th emptied h scope flat)) = sum ?g (?S ?known)"
    using sums [OF assms(2)] by (simp only: scoped)
  have "map preads (orphans lens scope h flat) = map ?g (map ppath (orphans lens scope h flat))"
    by (auto simp: orphans_def orphan_point_def Let_def)
  then have gone: "sum_list (map preads (orphans lens scope h flat)) = sum ?g (?S (?K - ?known))"
    using sums [OF orphanPaths_keys(1) [OF assms(1)], of ?known] orphanPaths_keys(2) [OF assms(1), of ?known]
    by (simp only: orphan_paths sum_nonzero)
  have none: "?g q = 0" if "q \<notin> ?K" for q
  proof -
    have "map_of (reported h) q = None" using that by (simp add: map_of_eq_None_iff)
    then have "entry_for h q = no_heat" by (simp add: entry_reported)
    then show ?thesis by (cases lens) (simp_all add: no_heat_def heatTotal_def)
  qed
  have "sum ?g (?S ?known) = sum ?g (?S (?K \<inter> ?known))"
  proof (intro sum.mono_neutral_right ballI)
    show "?g q = 0" if "q \<in> ?S ?known - ?S (?K \<inter> ?known)" for q using that none [of q] by blast
  qed auto
  moreover have "sum ?g (?S (?K \<inter> ?known)) + sum ?g (?S (?K - ?known)) = sum ?g (?S ?K)"
    by (subst sum.union_disjoint [symmetric]) (auto intro!: arg_cong [where f = "sum ?g"])
  ultimately show ?thesis using files gone sums [OF assms(1)] by simp
qed

text \<open>C26: The page counts every read once and flags exactly the files it should. When the hub reports a
  path once and the tree holds it once, the points are, in the order of the tree, one for each file in
  scope, with the reads of each kind that the hub reports, those of the lens (all three kinds, or the one
  it names), the age in days, the emptied mark exactly when the hub names the file emptied and it is
  read under the lens, and hot and stale exactly when it is not emptied and passes both thresholds. The
  paths of the hub's report that left the tree are the rest, each once, those in scope with reads under
  the lens, and are never flagged. So the number of reads in the top row is the sum of the report in
  scope, under the lens: no read is lost, and none is counted twice.\<close>

theorem points_exact:
  assumes "distinct (map fst (reported h))" "distinct (map fpath flat)"
  shows "list_all2 (shows_file pd now lens th emptied h) (filter (\<lambda>f. inScope scope (fpath f)) flat)
        (points pd now lens th emptied h scope flat)
    \<and> list_all (shows_gone lens h) (orphans lens scope h flat) \<and> distinct (map ppath (orphans lens scope h flat))
    \<and> set (map ppath (orphans lens scope h flat))
      = {q \<in> fst ` set (reported h). inScope scope q \<and> q \<notin> fpath ` set flat \<and> 0 < through lens (\<lambda>k. tallied k h q)}
    \<and> k_reads (Kpis (points pd now lens th emptied h scope flat) (orphans lens scope h flat) lens)
      = sum_list (map (\<lambda>(q, e). through lens (\<lambda>k. of_kind k e)) (filter (\<lambda>(q, e). inScope scope q) (reported h)))"
proof (intro conjI)
  have scoped: "scoped_files scope flat = filter (\<lambda>f. inScope scope (fpath f)) flat" by (simp add: scoped_files_def inScope_def)
  show "list_all2 (shows_file pd now lens th emptied h) (filter (\<lambda>f. inScope scope (fpath f)) flat)
      (points pd now lens th emptied h scope flat)"
    by (simp add: points_def scoped list_all2_map2 list.rel_refl file_shown [OF assms(1)])
  show "list_all (shows_gone lens h) (orphans lens scope h flat)" using gone_shown [OF assms(1)] by (simp add: list_all_iff)
  show "distinct (map ppath (orphans lens scope h flat))" using orphanPaths_keys(1) [OF assms(1)] by (simp add: orphan_paths)
  show "set (map ppath (orphans lens scope h flat))
      = {q \<in> fst ` set (reported h). inScope scope q \<and> q \<notin> fpath ` set flat \<and> 0 < through lens (\<lambda>k. tallied k h q)}"
    using orphanPaths_keys(2) [OF assms(1)]
    by (auto simp: orphan_paths tallied_entry [OF assms(1)] through_entry)
  have "map (\<lambda>q. lensReads lens (entry_for h q)) (filter (inScope scope) (map fst (reported h)))
      = map (\<lambda>(q, e). through lens (\<lambda>k. of_kind k e)) (filter (\<lambda>(q, e). inScope scope q) (reported h))"
    using entry_of_row [OF assms(1)] by (simp add: filter_map o_def case_prod_beta' through_entry)
  then show "k_reads (Kpis (points pd now lens th emptied h scope flat) (orphans lens scope h flat) lens)
      = sum_list (map (\<lambda>(q, e). through lens (\<lambda>k. of_kind k e)) (filter (\<lambda>(q, e). inScope scope q) (reported h)))"
    using kpi_reads [OF page_carries] reads_once [OF assms] by simp
qed

text \<open>Under the agents' lens, in the folder d: a hot and stale file, an emptied one, one that only people
  read, one that left, and one outside the folder.\<close>

definition heat_row :: "string \<Rightarrow> nat \<Rightarrow> nat \<Rightarrow> nat \<Rightarrow> jstr \<times> HeatEntry" where
  "heat_row q hu ag sh = (js q, \<lparr>human = hu, agent = ag, share = sh\<rparr>)"

definition w_heat :: "HeatMap option" where
  "w_heat = Some [heat_row ''d/hot'' 1 12 0, heat_row ''d/emp'' 0 3 1, heat_row ''d/new'' 4 0 0,
     heat_row ''d/gone'' 0 2 0, heat_row ''top'' 9 9 9]"

definition w_tree_file :: "string \<Rightarrow> nat \<Rightarrow> InFile" where
  "w_tree_file q n = \<lparr>fpath = js q, fsize = Some n, ftime = Some (js ''t''),
     fwho = \<lparr>user = None, user_name = None, author = Some (js ''ana'')\<rparr>\<rparr>"

definition w_flat :: "InFile list" where
  "w_flat = [w_tree_file ''d/hot'' 5, w_tree_file ''d/emp'' 0, w_tree_file ''d/new'' 7, w_tree_file ''top'' 1]"

definition w_pts :: "Pt list" where
  "w_pts = points (\<lambda>_. Some 0) (40 * 86400000) LAgent default_thresholds {js ''d/emp'', js ''d/new''} w_heat (js ''d'') w_flat"

definition w_gone :: "Pt list" where
  "w_gone = orphans LAgent (js ''d'') w_heat w_flat"

lemma points_exact_witness:
  "list_all2 (shows_file (\<lambda>_. Some 0) (40 * 86400000) LAgent default_thresholds {js ''d/emp'', js ''d/new''} w_heat)
     (filter (\<lambda>f. inScope (js ''d'') (fpath f)) w_flat) w_pts
   \<and> map ppath w_gone = [js ''d/gone''] \<and> k_reads (Kpis w_pts w_gone LAgent) = 17
   \<and> map pdanger w_pts = [True, False, False] \<and> map pempty w_pts = [False, True, False]
   \<and> map preads w_pts = [12, 3, 0] \<and> map ptotal w_pts = [13, 4, 4]"
proof -
  have "distinct (map fst (reported w_heat))" "distinct (map fpath w_flat)" by code_simp+
  note points_exact [OF this, of "\<lambda>_. Some 0" "40 * 86400000" LAgent default_thresholds "{js ''d/emp'', js ''d/new''}" "js ''d''"]
  moreover have "sum_list (map (\<lambda>(q, e). through LAgent (\<lambda>k. of_kind k e)) (filter (\<lambda>(q, e). inScope (js ''d'') q) (reported w_heat))) = 17"
    by code_simp
  moreover have "map ppath w_gone = [js ''d/gone'']" by code_simp
  moreover have "map pdanger w_pts = [True, False, False]" "map pempty w_pts = [False, True, False]"
    "map preads w_pts = [12, 3, 0]" "map ptotal w_pts = [13, 4, 4]" by code_simp+
  ultimately show ?thesis unfolding w_pts_def w_gone_def by simp
qed

lemma sum_reads_filter: "sum_list (map preads (filter (\<lambda>p. preads p > 0) fs)) = sum_list (map preads fs)"
  by (induction fs) auto

text \<open>A folder of the treemap shows exactly what opening it shows: the cells of the first level
  have different keys, each holds exactly the points that are drawn when it is opened, its reads are
  theirs, and together the cells hold every point once.\<close>

theorem treemap_drill:
  "distinct (map ckey (tm_cells pts sd None))
   \<and> mset (concat (map cfiles (tm_cells pts sd None))) = mset pts
   \<and> list_all (\<lambda>c. cfiles c = in_drill pts sd (fst (tm_click (Some c) None)) \<and> cfiles c \<noteq> []
        \<and> creads c = sum_list (map creads (tm_cells pts sd (fst (tm_click (Some c) None)))))
       (tm_cells pts sd None)"
proof -
  let ?k = "\<lambda>p. groupKey (ppath p) sd"
  have cells: "tm_cells pts sd None = map (folder_cell sd) (groups_of ?k pts)" by (simp add: tm_cells_def folderCells_def)
  have parts: "ckey (folder_cell sd g) = fst g" "cfiles (folder_cell sd g) = snd g" "cfile (folder_cell sd g) = False"
    "creads (folder_cell sd g) = sum_list (map preads (snd g))" for g
    by (simp_all add: folder_cell_def case_prod_beta Let_def sum_reads_filter)
  have eqs: "map ckey (tm_cells pts sd None) = map fst (groups_of ?k pts)"
    "map cfiles (tm_cells pts sd None) = map snd (groups_of ?k pts)"
    by (simp_all add: cells parts)
  have "cfiles c = in_drill pts sd (fst (tm_click (Some c) None)) \<and> cfiles c \<noteq> []
      \<and> creads c = sum_list (map creads (tm_cells pts sd (fst (tm_click (Some c) None))))" if "c \<in> set (tm_cells pts sd None)" for c
  proof -
    from that obtain key g where g: "(key, g) \<in> set (groups_of ?k pts)" "c = folder_cell sd (key, g)"
      unfolding cells by auto
    then have "g = filter (\<lambda>p. ?k p = key) pts" "key \<in> ?k ` set pts" by (simp_all add: groups_of_mem)
    with g(2) show ?thesis
      by (auto simp: parts in_drill_def tm_cells_def tm_click_def fileCells_def o_def file_cell_def filter_empty_conv)
  qed
  then show ?thesis
    using groups_of_keys [of ?k pts] groups_of_mset [of ?k pts] unfolding eqs list_all_iff by blast
qed

text \<open>The shaded zone of the scatter plot is the verdict: for every file that is read and not
  emptied, its dot (before the rounding of the drawing to a tenth) lies in the shaded rectangle exactly when the file counts as hot and stale.\<close>

theorem danger_zone_exact:
  assumes "log_scale lg" "th_ok th" "p \<in> set (sc_read (points pd now lens th emptied h scope flat))" "\<not> pempty p"
  shows "in_zone (danger_zone lg (points pd now lens th emptied h scope flat) th)
           (sc_dot lg (points pd now lens th emptied h scope flat) th p) \<longleftrightarrow> pdanger p"
proof -
  from assms(3) obtain f where "p = point pd now lens th emptied h f" by (auto simp: sc_read_def points_def)
  with assms(4) have "pdanger p \<longleftrightarrow> hot th \<le> int (preads p) \<and> of_int (stale th) \<le> pdays p"
    by (simp add: point_def Let_def)
  with zone_iff [OF assms(1-3)] show ?thesis by simp
qed

lemma danger_zone_exact_witness:
  defines "f \<equiv> \<lparr>fpath = js ''a.md'', fsize = Some 1, ftime = Some (js ''t''), fwho = \<lparr>user = None, user_name = None, author = None\<rparr>\<rparr>"
  defines "ps \<equiv> points (\<lambda>t. Some 0) 4320000000 LAll default_thresholds {} (Some [(js ''a.md'', \<lparr>human = 9, agent = 3, share = 0\<rparr>)]) [] [f]"
  shows "in_zone (danger_zone (\<lambda>x. x - 1) ps default_thresholds) (sc_dot (\<lambda>x. x - 1) ps default_thresholds (hd ps))"
proof -
  have "list_all (\<lambda>p. preads p = 12 \<and> pdanger p \<and> \<not> pempty p) ps \<and> length ps = 1"
    unfolding ps_def f_def by code_simp
  then have p: "preads (hd ps) = 12" "pdanger (hd ps)" "\<not> pempty (hd ps)" "hd ps \<in> set ps"
    by (cases ps; simp)+
  have "log_scale (\<lambda>x. x - 1)" by (simp add: log_scale_def)
  from danger_zone_exact [OF this default_thresholds_ok, of "hd ps" "\<lambda>t. Some 0" 4320000000 LAll "{}"
      "Some [(js ''a.md'', \<lparr>human = 9, agent = 3, share = 0\<rparr>)]" "[]" "[f]", folded ps_def] p
  show ?thesis by (simp add: sc_read_def)
qed

text \<open>The total of a folder's column is the sum of the folder's counts over all devices.\<close>

theorem coverage_columns:
  assumes "list_all (\<lambda>d. distinct (map fst (dfolders d))) ds" "(f, n) \<in> set (cov_cols ds)"
  shows "n = sum_list (map (\<lambda>d. cov_val d f) ds)"
proof -
  have "(f, n) \<in> set (folder_totals ds)"
    using assms(2) by (auto simp: cov_cols_def dest: in_set_takeD)
  then have "val_of (folder_totals ds) f = n"
    using folder_totals_keys [of ds] by (simp add: val_of_def map_of_eq_Some_iff [THEN iffD2])
  with folder_totals_val [OF assms(1)] show ?thesis by simp
qed

end
