(* ===== verification/Threads.thy ===== *)
theory Threads
  imports Complex_Main Anchor Feed Uri "HOL-Library.Multiset"
begin

section \<open>Comment threads: cache, numbers, panel (hooks/useComments.ts, components/Comments.tsx)\<close>

text \<open>
  The threads of a file as the page holds them: the query cache with its optimistic updates, the
  numbers shared by pins and cards, the panel beside the page and the card of a thread. An action that
  awaits the hub is two definitions, the request and what happens with the answer. \<open>localeCompare\<close>
  on creation times is the order of the collation keys \<open>collate\<close>.
\<close>

record CAnchor = Anchor +
  element :: "jstr option"

record Message =
  mid :: jstr
  mauthor :: "jstr option"
  mname :: "jstr option"
  mbody :: jstr
  mtime :: jstr

record CommentThread =
  tid :: jstr
  tpath :: jstr
  tanchor :: CAnchor
  tauthor :: "jstr option"
  tcreated :: jstr
  tmessages :: "Message list"
  tresolved :: bool
  tresolved_by :: "jstr option"
  tresolved_name :: "jstr option"
  tresolved_at :: "jstr option"
  toutdated :: bool
  tmissing :: bool

subsection \<open>The cache\<close>

text \<open>A query's key is a list; its data are there or not. Invalidations are logged by key prefix.\<close>

record Cache =
  queries :: "(jstr list \<times> CommentThread list option) list"
  invalidated :: "jstr list list"

definition comments_key :: "jstr \<Rightarrow> jstr \<Rightarrow> jstr list" where
  "comments_key base p = [js ''comments'', base, p]"

definition comments_url :: "jstr \<Rightarrow> jstr \<Rightarrow> jstr option" where
  "comments_url base p = map_option (\<lambda>q. base @ js ''comments?status=all&path='' @ q) (encodeURIComponent p)"

definition open_counts_key :: "jstr \<Rightarrow> jstr list" where
  "open_counts_key base = [js ''comments'', base, js ''open-all'']"

definition open_counts_url :: "jstr \<Rightarrow> jstr" where
  "open_counts_url base = base @ js ''comments?status=open''"

text \<open>The threads of the file whose path is \<open>open-all\<close> and the open threads of the project share an
  entry of the cache, though they are asked for at different addresses.\<close>

lemma open_all_key_shared:
  "comments_key base (js ''open-all'') = open_counts_key base"
  "comments_url base (js ''open-all'') = Some (base @ js ''comments?status=all&path=open-all'')"
  by (simp add: comments_key_def open_counts_key_def) (unfold comments_url_def, code_simp)

definition replace_thread :: "CommentThread \<Rightarrow> CommentThread list \<Rightarrow> CommentThread list" where
  "replace_thread t xs =
     (case find (\<lambda>i. tid (xs ! i) = tid t) [0 ..< length xs] of None \<Rightarrow> xs | Some k \<Rightarrow> xs[k := t])"

definition place_list :: "CommentThread option \<Rightarrow> jstr option \<Rightarrow> jstr \<Rightarrow> CommentThread list \<Rightarrow> CommentThread list" where
  "place_list t drp p xs =
     (let xs = filter (\<lambda>c. Some (tid c) \<noteq> drp) xs
      in case t of None \<Rightarrow> xs
         | Some t \<Rightarrow> if list_ex (\<lambda>c. tid c = tid t) xs then replace_thread t xs
                    else if tpath t = p then xs @ [t] else xs)"

definition place :: "jstr \<Rightarrow> CommentThread option \<Rightarrow> jstr option \<Rightarrow> Cache \<Rightarrow> Cache" where
  "place base t drp c =
     c\<lparr>queries := map (\<lambda>(key, data).
         if take 2 key = [js ''comments'', base] \<and> length key = 3
         then (key, map_option (place_list t drp (key ! 2)) data) else (key, data)) (queries c)\<rparr>"

definition refetch :: "jstr \<Rightarrow> Cache \<Rightarrow> Cache" where
  "refetch base c = c\<lparr>invalidated := invalidated c @ [[js ''comments'', base]]\<rparr>"

definition create_done :: "jstr \<Rightarrow> CommentThread \<Rightarrow> Cache \<Rightarrow> Cache" where
  "create_done base t c = refetch base (place base (Some t) None c)"

definition act_done :: "jstr \<Rightarrow> CommentThread option \<Rightarrow> Cache \<Rightarrow> Cache" where
  "act_done base t c = refetch base (case t of None \<Rightarrow> c | Some t \<Rightarrow> place base (Some t) None c)"

text \<open>Removing: gone at once, and refetched whether or not the hub refuses.\<close>

definition remove_start :: "jstr \<Rightarrow> jstr \<Rightarrow> Cache \<Rightarrow> Cache" where
  "remove_start base i c = place base None (Some i) c"

definition remove_done :: "jstr \<Rightarrow> Cache \<Rightarrow> Cache" where
  "remove_done base c = refetch base c"

definition threads_of :: "jstr \<Rightarrow> jstr \<Rightarrow> Cache \<Rightarrow> CommentThread list option" where
  "threads_of base p c = (case map_of (queries c) (comments_key base p) of None \<Rightarrow> None | Some d \<Rightarrow> d)"

text \<open>Open threads per path, for the badges (hooks/useSidebar.ts).\<close>

definition open_counts :: "CommentThread list option \<Rightarrow> jstr \<rightharpoonup> nat" where
  "open_counts d =
     foldl (\<lambda>m t. m(tpath t \<mapsto> (case m (tpath t) of None \<Rightarrow> 0 | Some n \<Rightarrow> n) + 1)) Map.empty
       (case d of None \<Rightarrow> [] | Some xs \<Rightarrow> xs)"

subsection \<open>What placing does to one list\<close>

lemma replace_thread_map:
  assumes "distinct (map tid xs)"
  shows "replace_thread t xs = map (\<lambda>c. if tid c = tid t then t else c) xs"
proof (cases "find (\<lambda>i. tid (xs ! i) = tid t) [0 ..< length xs]")
  case None
  then have "tid (xs ! i) \<noteq> tid t" if "i < length xs" for i using that by (auto simp: find_None_iff)
  then have "map (\<lambda>c. if tid c = tid t then t else c) xs = xs"
    by (intro nth_equalityI) auto
  with None show ?thesis by (simp add: replace_thread_def)
next
  case (Some k)
  then have k: "k < length xs" "tid (xs ! k) = tid t" by (auto simp: find_Some_iff)
  have "tid (xs ! i) = tid t \<longleftrightarrow> i = k" if "i < length xs" for i
    using k that assms nth_eq_iff_index_eq [of "map tid xs" i k] by simp
  then have "xs[k := t] = map (\<lambda>c. if tid c = tid t then t else c) xs"
    by (intro nth_equalityI) (auto simp: nth_list_update)
  with Some show ?thesis by (simp add: replace_thread_def)
qed

lemma map_tid_replace: "map (tid \<circ> (\<lambda>c. if tid c = tid t then t else c)) xs = map tid xs"
  by (induction xs) auto

lemma place_list_distinct:
  assumes "distinct (map tid xs)"
  shows "distinct (map tid (place_list t drp p xs))"
proof -
  have d: "distinct (map tid (filter P xs))" for P using assms by (rule distinct_map_filter)
  show ?thesis
    using d [of "\<lambda>c. Some (tid c) \<noteq> drp"]
    by (auto simp: place_list_def Let_def list_ex_iff replace_thread_map [OF d] map_tid_replace split: option.splits)
qed

text \<open>The answer of the hub, in the list of its own file and in any other.\<close>

lemma place_answer:
  assumes "distinct (map tid xs)"
  shows "set (place_list (Some t) None p xs) =
    {c \<in> set xs. tid c \<noteq> tid t} \<union> (if tpath t = p \<or> tid t \<in> tid ` set xs then {t} else {})"
proof (cases "tid t \<in> tid ` set xs")
  case True
  then have "list_ex (\<lambda>c. tid c = tid t) xs" by (force simp: list_ex_iff)
  moreover have "set (map (\<lambda>c. if tid c = tid t then t else c) xs) = {c \<in> set xs. tid c \<noteq> tid t} \<union> {t}"
    using True by auto
  ultimately show ?thesis using assms True by (simp add: place_list_def replace_thread_map)
next
  case False
  then have n: "\<forall>c \<in> set xs. tid c \<noteq> tid t" by (metis imageI)
  then have "\<not> list_ex (\<lambda>c. tid c = tid t) xs" "{c \<in> set xs. tid c \<noteq> tid t} = set xs"
    by (auto simp: list_ex_iff)
  with False show ?thesis by (simp add: place_list_def)
qed

lemma place_removes: "set (place_list None (Some i) p xs) = {c \<in> set xs. tid c \<noteq> i}"
  by (auto simp: place_list_def)

lemma threads_of_place:
  "threads_of base p (place base t drp c) = map_option (place_list t drp p) (threads_of base p c)"
proof -
  let ?f = "\<lambda>(key, data). if take 2 key = [js ''comments'', base] \<and> length key = 3
         then (key, map_option (place_list t drp (key ! 2)) data) else (key, data)"
  have "map_of (map ?f qs) (comments_key base p) =
      map_option (map_option (place_list t drp p)) (map_of qs (comments_key base p))" for qs
    by (induction qs) (auto simp: comments_key_def numeral_2_eq_2 numeral_3_eq_3)
  then show ?thesis
    by (simp add: threads_of_def place_def option.case_eq_if) (auto split: option.splits)
qed

lemma threads_of_refetch [simp]: "threads_of base p (refetch base c) = threads_of base p c"
  by (simp add: threads_of_def refetch_def)

subsection \<open>Numbers\<close>

definition numberThreads :: "(jstr \<Rightarrow> nat) \<Rightarrow> CommentThread list \<Rightarrow> (CommentThread \<times> nat) list" where
  "numberThreads collate ts = zip (sort_key (\<lambda>t. collate (tcreated t)) ts) [1 ..< Suc (length ts)]"

definition shown_threads :: "(jstr \<Rightarrow> nat) \<Rightarrow> CommentThread list \<Rightarrow> (CommentThread \<times> nat) list" where
  "shown_threads collate ts = filter (\<lambda>(t, n). \<not> tresolved t \<and> \<not> tmissing t) (numberThreads collate ts)"

definition open_cards :: "(jstr \<Rightarrow> nat) \<Rightarrow> CommentThread list \<Rightarrow> (CommentThread \<times> nat) list" where
  "open_cards collate ts = filter (\<lambda>(t, n). \<not> tresolved t) (numberThreads collate ts)"

definition done_cards :: "(jstr \<Rightarrow> nat) \<Rightarrow> CommentThread list \<Rightarrow> (CommentThread \<times> nat) list" where
  "done_cards collate ts = filter (\<lambda>(t, n). tresolved t) (numberThreads collate ts)"

definition number_of :: "(jstr \<Rightarrow> nat) \<Rightarrow> jstr \<Rightarrow> CommentThread list \<Rightarrow> nat option" where
  "number_of collate i ts = map_of (map (\<lambda>(t, n). (tid t, n)) (numberThreads collate ts)) i"

lemma sort_key_map_same:
  "(\<And>x. x \<in> set xs \<Longrightarrow> k (f x) = k x) \<Longrightarrow> sort_key k (map f xs) = map f (sort_key k xs)"
proof (induction xs)
  case (Cons x xs)
  have ins: "insort_key k (f x) (map f ys) = map f (insort_key k x ys)" if "\<forall>y \<in> set ys. k (f y) = k y" for ys
    using that Cons.prems by (induction ys) auto
  show ?case using Cons ins [of "sort_key k xs"] by simp
qed simp

lemma number_of_map:
  assumes "\<And>t. t \<in> set ts \<Longrightarrow> tid (f t) = tid t \<and> tcreated (f t) = tcreated t"
  shows "number_of collate i (map f ts) = number_of collate i ts"
proof -
  have "sort_key (\<lambda>t. collate (tcreated t)) (map f ts) = map f (sort_key (\<lambda>t. collate (tcreated t)) ts)"
    using assms by (intro sort_key_map_same) simp
  moreover have "map (\<lambda>(t, n). (tid t, n)) (zip (map f ss) ns) = map (\<lambda>(t, n). (tid t, n)) (zip ss ns)"
    if "set ss \<subseteq> set ts" for ss and ns :: "nat list"
    using that assms by (induction ss ns rule: list_induct2') auto
  ultimately show ?thesis by (simp add: number_of_def numberThreads_def)
qed

text \<open>The hub's answer to a write is shown at once and moves no number: after the answer is placed,
  the list of a file has the thread as the hub has it exactly when it had it before or the thread is
  on that file, every other thread is as it was, no thread is listed twice, and when the answer keeps
  the thread's creation time every thread keeps its number, in the panel and on the page.\<close>

theorem answer_in_place:
  assumes "threads_of base p c = Some xs" "distinct (map tid xs)"
    "t\<^sub>0 \<in> set xs" "tid t = tid t\<^sub>0" "tcreated t = tcreated t\<^sub>0"
  shows "\<exists>ys. threads_of base p (act_done base (Some t) c) = Some ys \<and> distinct (map tid ys)
    \<and> set ys = insert t (set xs - {t\<^sub>0}) \<and> (\<forall>i. number_of collate i ys = number_of collate i xs)"
proof -
  let ?ys = "place_list (Some t) None p xs"
  have uniq: "c = t\<^sub>0" if "c \<in> set xs" "tid c = tid t" for c
    using that assms(2-4) by (simp add: distinct_map inj_on_def)
  have ex: "list_ex (\<lambda>c. tid c = tid t) xs" using assms(3,4) by (auto simp: list_ex_iff)
  have ys: "?ys = map (\<lambda>c. if tid c = tid t then t else c) xs"
    using ex by (simp add: place_list_def replace_thread_map [OF assms(2)])
  have "number_of collate i ?ys = number_of collate i xs" for i
    unfolding ys using uniq assms(5) by (intro number_of_map) auto
  moreover have "set ?ys = insert t (set xs - {t\<^sub>0})"
  proof -
    have "tid c = tid t \<longleftrightarrow> c = t\<^sub>0" if "c \<in> set xs" for c
      using uniq [OF that] assms(4) by auto
    then have "{c \<in> set xs. tid c \<noteq> tid t} = set xs - {t\<^sub>0}" by auto
    moreover have "tid t \<in> tid ` set xs" using assms(3,4) by simp
    ultimately show ?thesis using place_answer [OF assms(2), of t p] by simp
  qed
  ultimately show ?thesis
    using assms(1) place_list_distinct [OF assms(2)] by (simp add: act_done_def threads_of_place)
qed

definition w_thread :: "jstr \<Rightarrow> jstr \<Rightarrow> bool \<Rightarrow> CommentThread" where
  "w_thread i cr res =
     \<lparr>tid = i, tpath = js ''a.md'', tanchor = \<lparr>quote = None, pre = None, suf = None, aline = None, element = None\<rparr>, tauthor = None,
      tcreated = cr, tmessages = [], tresolved = res, tresolved_by = None, tresolved_name = None, tresolved_at = None,
      toutdated = False, tmissing = False\<rparr>"

lemma answer_in_place_witness:
  defines "xs \<equiv> [w_thread (js ''x'') (js ''2'') False, w_thread (js ''y'') (js ''1'') False]"
  defines "c \<equiv> \<lparr>queries = [(comments_key (js ''/b/'') (js ''a.md''), Some xs)], invalidated = []\<rparr>"
  shows "\<exists>ys. threads_of (js ''/b/'') (js ''a.md'') (act_done (js ''/b/'') (Some (w_thread (js ''x'') (js ''2'') True)) c) = Some ys
    \<and> number_of hd (js ''x'') ys = Some 2"
proof -
  have th: "threads_of (js ''/b/'') (js ''a.md'') c = Some xs" by (simp add: c_def threads_of_def)
  have d: "distinct (map tid xs)" by (simp add: xs_def w_thread_def js_def)
  have "number_of hd (js ''x'') xs = Some 2" unfolding xs_def by code_simp
  moreover have "w_thread (js ''x'') (js ''2'') False \<in> set xs" by (simp add: xs_def)
  note answer_in_place [OF th d this, of "w_thread (js ''x'') (js ''2'') True" hd]
  moreover have "tid (w_thread i k r) = i" "tcreated (w_thread i k r) = k" for i k r by (simp_all add: w_thread_def)
  ultimately show ?thesis by metis
qed

subsection \<open>The panel\<close>

record Panel =
  on_resolved :: bool
  general :: jstr
  pbusy :: bool

datatype Effect = PostComment jstr jstr "CAnchor option" | PostAction jstr jstr jstr | DeleteThread jstr
  | Focus "jstr option" | OpenPanel | Toast jstr | Confirm jstr jstr jstr

definition new_panel :: Panel where
  "new_panel = \<lparr>on_resolved = False, general = [], pbusy = False\<rparr>"

text \<open>The effect that follows a focused thread to the other tab.\<close>

definition follow_focus :: "CommentThread list \<Rightarrow> jstr option \<Rightarrow> Panel \<Rightarrow> Panel" where
  "follow_focus ts focus s =
     (if truthy focus \<and> list_ex (\<lambda>t. tresolved t \<and> Some (tid t) = focus) ts then s\<lparr>on_resolved := True\<rparr> else s)"

definition panel_list :: "(jstr \<Rightarrow> nat) \<Rightarrow> CommentThread list \<Rightarrow> Panel \<Rightarrow> (CommentThread \<times> nat) list" where
  "panel_list collate ts s = (if on_resolved s then done_cards collate ts else open_cards collate ts)"

definition postGeneral :: "jstr \<Rightarrow> Panel \<Rightarrow> Panel \<times> Effect list" where
  "postGeneral fp s =
     (if trim (general s) = [] \<or> pbusy s then (s, [])
      else (s\<lparr>pbusy := True\<rparr>, [PostComment fp (general s) None]))"

definition postGeneral_ok :: "CommentThread \<Rightarrow> Panel \<Rightarrow> Panel \<times> Effect list" where
  "postGeneral_ok t s = (s\<lparr>general := [], on_resolved := False, pbusy := False\<rparr>, [Focus (Some (tid t))])"

definition postGeneral_failed :: "jstr \<Rightarrow> Panel \<Rightarrow> Panel \<times> Effect list" where
  "postGeneral_failed msg s = (s\<lparr>pbusy := False\<rparr>, [Toast (js ''Could not save the comment: '' @ msg)])"

definition empty_text :: "bool \<Rightarrow> Panel \<Rightarrow> jstr" where
  "empty_text framed s =
     (if on_resolved s then js ''Nothing resolved yet.''
      else if framed then js ''No open comments. Select text on the page, or pick an element, to leave one.''
      else js ''No open comments. Select text on the page to leave one.'')"

definition toggle_focus :: "jstr \<Rightarrow> jstr option \<Rightarrow> jstr option" where
  "toggle_focus i focus = (if focus = Some i then None else Some i)"

definition canDelete :: "(jstr \<Rightarrow> jstr) \<Rightarrow> bool \<Rightarrow> jstr option \<Rightarrow> CommentThread \<Rightarrow> bool" where
  "canDelete lower admin me t \<longleftrightarrow> admin \<or> truthy me \<and> tauthor t = Some (lower (the me))"

text \<open>A thread that is focused is listed on the tab that is shown, unless it was asked for there and
  then reopened.\<close>

lemma focus_listed:
  assumes "t \<in> set ts" "focus = Some (tid t)" "tid t \<noteq> []" "tresolved t \<or> \<not> on_resolved s"
    "\<And>u. u \<in> set ts \<Longrightarrow> tid u = tid t \<Longrightarrow> u = t"
  shows "t \<in> fst ` set (panel_list collate ts (follow_focus ts focus s))"
proof -
  have "t \<in> fst ` set (numberThreads collate ts)"
  proof -
    have "map fst (numberThreads collate ts) = sort_key (\<lambda>t. collate (tcreated t)) ts"
      by (simp add: numberThreads_def map_fst_zip del: upt_Suc)
    with assms(1) show ?thesis by (metis set_map set_sort)
  qed
  moreover have "list_ex (\<lambda>u. tresolved u \<and> Some (tid u) = focus) ts \<longleftrightarrow> tresolved t"
    using assms(1,2,5) by (auto simp: list_ex_iff)
  ultimately show ?thesis
    using assms(2-4) by (force simp: panel_list_def follow_focus_def truthy_def done_cards_def open_cards_def)
qed

subsection \<open>A thread's card\<close>

record Card =
  reply :: jstr
  cbusy :: bool

datatype Act = Reply | Resolve | Reopen

fun act_name :: "Act \<Rightarrow> jstr" where
  "act_name Reply = js ''reply''"
| "act_name Resolve = js ''resolve''"
| "act_name Reopen = js ''reopen''"

definition anchored :: "CommentThread \<Rightarrow> bool" where
  "anchored t \<longleftrightarrow> (truthy (quote (tanchor t)) \<or> truthy (element (tanchor t))) \<and> \<not> tmissing t \<and> \<not> tresolved t"

definition card_send :: "CommentThread \<Rightarrow> Act \<Rightarrow> Card \<Rightarrow> Card \<times> Effect list" where
  "card_send t a s =
     (if cbusy s then (s, []) else (s\<lparr>cbusy := True\<rparr>, [PostAction (tid t) (act_name a) (reply s)]))"

definition card_sent :: "Card \<Rightarrow> Card" where
  "card_sent s = s\<lparr>reply := [], cbusy := False\<rparr>"

definition card_failed :: "jstr \<Rightarrow> Card \<Rightarrow> Card \<times> Effect list" where
  "card_failed msg s = (s\<lparr>cbusy := False\<rparr>, [Toast msg])"

definition card_key :: "CommentThread \<Rightarrow> bool \<Rightarrow> Card \<Rightarrow> Card \<times> Effect list" where
  "card_key t cmd_enter s = (if cmd_enter \<and> trim (reply s) \<noteq> [] then card_send t Reply s else (s, []))"

definition card_resolve :: "CommentThread \<Rightarrow> Card \<Rightarrow> Card \<times> Effect list" where
  "card_resolve t s = card_send t (if tresolved t then Reopen else Resolve) s"

definition resolve_label :: "CommentThread \<Rightarrow> Card \<Rightarrow> jstr" where
  "resolve_label t s =
     (if tresolved t then js ''Reopen'' else if trim (reply s) \<noteq> [] then js ''Reply & resolve'' else js ''Resolve'')"

definition card_delete :: "CommentThread \<Rightarrow> Card \<Rightarrow> Card \<times> Effect list" where
  "card_delete t s =
     (if cbusy s then (s, [])
      else (s\<lparr>cbusy := True\<rparr>, [Confirm (js ''Delete comment'') (js ''Delete this comment thread for everyone?'') (js ''Delete'')]))"

definition card_delete_answer :: "CommentThread \<Rightarrow> bool \<Rightarrow> Card \<Rightarrow> Card \<times> Effect list" where
  "card_delete_answer t ok s = (if ok then (s, [DeleteThread (tid t)]) else (s\<lparr>cbusy := False\<rparr>, []))"

definition card_flag :: "CommentThread \<Rightarrow> jstr option" where
  "card_flag t =
     (if toutdated t \<or> tmissing t
      then Some (if tmissing t then js ''The file no longer exists'' else js ''The file changed since this comment'') else None)"

definition queued_for_sweep :: "CommentThread \<Rightarrow> bool" where
  "queued_for_sweep t \<longleftrightarrow> \<not> tresolved t \<and> \<not> tmissing t"

definition resolved_by :: "CommentThread \<Rightarrow> jstr option" where
  "resolved_by t =
     (if tresolved t \<and> truthy (tresolved_at t)
      then Some (str_or (tresolved_name t) (str_or (tresolved_by t) (js ''someone''))) else None)"

definition who_wrote :: "Message \<Rightarrow> jstr" where
  "who_wrote m = str_or (mname m) (str_or (mauthor m) (js ''someone''))"

text \<open>\<open>name.trim().split(/[\s@._-]+/).filter(Boolean)\<close>: the runs of other characters.\<close>

fun words_of :: "jstr \<Rightarrow> jstr \<Rightarrow> jstr list" where
  "words_of w [] = (if w = [] then [] else [w])"
| "words_of w (u # s) =
     (if is_ws u \<or> u = 64 \<or> u = 46 \<or> u = 95 \<or> u = 45
      then (if w = [] then words_of [] s else w # words_of [] s) else words_of (w @ [u]) s)"

definition initials :: "(jstr \<Rightarrow> jstr) \<Rightarrow> jstr \<Rightarrow> jstr" where
  "initials upper nm =
     (case words_of [] (trim nm) of
        [] \<Rightarrow> js ''?''
      | [a] \<Rightarrow> upper [hd a]
      | a # b # _ \<Rightarrow> upper [hd a, hd b])"

lemma words_of_nonempty: "list_all (\<lambda>x. x \<noteq> []) (words_of w s)"
  by (induction w s rule: words_of.induct) auto

datatype Shown = WholeFile | Context jstr | Quoted jstr | ElementPath jstr

definition AnchorView :: "CAnchor \<Rightarrow> Shown list" where
  "AnchorView a =
     (if \<not> truthy (quote a) \<and> \<not> truthy (element a) then [WholeFile]
      else (if truthy (quote a)
            then (if truthy (pre a) then [Context (the (pre a))] else []) @ [Quoted (the (quote a))]
              @ (if truthy (suf a) then [Context (the (suf a))] else []) else [])
         @ (if truthy (element a) then [ElementPath (the (element a))] else []))"

text \<open>The hub keeps context only beside a quote; of an anchor it keeps, every text is on the card.\<close>

lemma anchor_shown_whole:
  assumes "truthy (quote a)"
  shows "truthy (pre a) \<Longrightarrow> Context (the (pre a)) \<in> set (AnchorView a)"
    "truthy (suf a) \<Longrightarrow> Context (the (suf a)) \<in> set (AnchorView a)"
    "Quoted (the (quote a)) \<in> set (AnchorView a)"
    "truthy (element a) \<Longrightarrow> ElementPath (the (element a)) \<in> set (AnchorView a)"
  using assms by (auto simp: AnchorView_def)

definition clampToViewport :: "int \<Rightarrow> int \<Rightarrow> rat \<Rightarrow> rat \<Rightarrow> rat \<Rightarrow> rat \<Rightarrow> rat \<times> rat" where
  "clampToViewport innerWidth innerHeight x y w h =
     (max 8 (min (x - w / 2) (of_int innerWidth - w - 8)), max 60 (min (y + 8) (of_int innerHeight - h - 8)))"

definition ago :: "(int \<Rightarrow> jstr \<Rightarrow> jstr) \<Rightarrow> (int \<Rightarrow> jstr) \<Rightarrow> int \<Rightarrow> int \<Rightarrow> jstr" where
  "ago rtf date now t =
     (let s = of_int (now - t) / 1000 :: rat
      in if s < 60 then js ''just now''
         else if s < 3600 then rtf (- js_round (s / 60)) (js ''minute'')
         else if s < 86400 then rtf (- js_round (s / 3600)) (js ''hour'')
         else if s < 86400 * 30 then rtf (- js_round (s / 86400)) (js ''day'')
         else date t)"

lemma clamp_inside:
  assumes "of_int iw \<ge> w + 16" "of_int ih \<ge> h + 68"
  shows "8 \<le> fst (clampToViewport iw ih x y w h) \<and> fst (clampToViewport iw ih x y w h) + w \<le> of_int iw - 8
    \<and> 60 \<le> snd (clampToViewport iw ih x y w h) \<and> snd (clampToViewport iw ih x y w h) + h \<le> of_int ih - 8"
  using assms unfolding clampToViewport_def fst_conv snd_conv by linarith

end
