(* ===== verification/CommentFrame.thy ===== *)
theory CommentFrame
  imports Threads "HOL-Library.AList"
begin

section \<open>Commenting inside the sandboxed frame (inline-comment.ts)\<close>

text \<open>
  The script that runs in the frame of an HTML file: the anchors the app sent down, the ranges and
  elements they were found at, pick mode, and the messages it posts up. Of the page the model has its
  text index, its selector engine (\<open>None\<close> throws) and the first box of a range or element, all
  arguments; positions are rationals. Elements are of any type.
\<close>

type_synonym dom_range = "(nat \<times> nat) \<times> (nat \<times> nat)"

record Rect =
  rx :: rat
  ry :: rat
  rw :: rat
  rh :: rat

record Numbered =
  nanchor :: CAnchor
  nid :: jstr
  nn :: nat

datatype Down = DAnchors "Numbered list" "jstr option" | DPick bool | DFocus jstr | DClear

datatype Up = UReady | USelect "CAnchor option" "Rect option" | UPicked CAnchor Rect | UOpen jstr | UPickoff

record 'e FPage =
  lowers :: "nat \<Rightarrow> jstr"
  index :: TextIndex
  query_one :: "jstr \<Rightarrow> 'e option option"
  range_box :: "dom_range \<Rightarrow> Rect option"
  element_box :: "'e \<Rightarrow> Rect"
  scroll_x :: rat
  scroll_y :: rat

record FPin =
  pin_id :: jstr
  pin_n :: nat
  pin_active :: bool
  pin_left :: rat
  pin_top :: rat

record 'e CFrame =
  fanchors :: "Numbered list"
  factive :: "jstr option"
  fpicking :: bool
  franges :: "(jstr \<times> dom_range) list"
  felements :: "(jstr \<times> 'e) list"
  fpins :: "FPin list"
  fhover :: "Rect option"
  fqueued :: bool

definition new_frame :: "'e CFrame" where
  "new_frame = \<lparr>fanchors = [], factive = None, fpicking = False, franges = [], felements = [], fpins = [],
     fhover = None, fqueued = False\<rparr>"

subsection \<open>Placing the anchors\<close>

definition text_anchor :: "CAnchor \<Rightarrow> Anchor" where
  "text_anchor a = \<lparr>quote = quote a, pre = pre a, suf = suf a, aline = aline a\<rparr>"

definition find_element :: "'e FPage \<Rightarrow> jstr \<Rightarrow> 'e option" where
  "find_element pg css =
     (case query_one pg (js ''body > '' @ css) of
        None \<Rightarrow> None
      | Some (Some el) \<Rightarrow> Some el
      | Some None \<Rightarrow> (case query_one pg css of None \<Rightarrow> None | Some g \<Rightarrow> g))"

definition anchor_places :: "'e FPage \<Rightarrow> Numbered list \<Rightarrow> (jstr \<times> dom_range) list \<times> (jstr \<times> 'e) list" where
  "anchor_places pg as =
     foldl (\<lambda>(rs, els) a.
       if truthy (quote (nanchor a)) then
         (case rangeFor (lowers pg) (index pg) (text_anchor (nanchor a)) of
            None \<Rightarrow> (rs, els) | Some g \<Rightarrow> (AList.update (nid a) g rs, els))
       else if truthy (element (nanchor a)) then
         (case find_element pg (the (element (nanchor a))) of
            None \<Rightarrow> (rs, els) | Some el \<Rightarrow> (rs, AList.update (nid a) el els))
       else (rs, els)) ([], []) as"

definition anchor_box :: "'e FPage \<Rightarrow> (jstr \<times> dom_range) list \<Rightarrow> (jstr \<times> 'e) list \<Rightarrow> jstr \<Rightarrow> Rect option" where
  "anchor_box pg rs els i =
     (case (case map_of rs i of None \<Rightarrow> None | Some g \<Rightarrow> range_box pg g) of
        Some b \<Rightarrow> Some b
      | None \<Rightarrow> map_option (element_box pg) (map_of els i))"

definition pin_for :: "'e FPage \<Rightarrow> jstr option \<Rightarrow> (jstr \<times> dom_range) list \<Rightarrow> (jstr \<times> 'e) list \<Rightarrow> Numbered \<Rightarrow> FPin option" where
  "pin_for pg act rs els a =
     map_option (\<lambda>b. \<lparr>pin_id = nid a, pin_n = nn a, pin_active = (Some (nid a) = act),
         pin_left = max 0 (rx b + scroll_x pg - 8), pin_top = max 0 (ry b + scroll_y pg - 20)\<rparr>)
       (anchor_box pg rs els (nid a))"

definition f_place :: "'e FPage \<Rightarrow> 'e CFrame \<Rightarrow> 'e CFrame" where
  "f_place pg s =
     (let (rs, els) = anchor_places pg (fanchors s)
      in s\<lparr>franges := rs, felements := els, fpins := List.map_filter (pin_for pg (factive s) rs els) (fanchors s)\<rparr>)"

text \<open>The painted ranges: those of the threads that are not active, and the active one.\<close>

definition highlights :: "'e CFrame \<Rightarrow> dom_range list \<times> dom_range option" where
  "highlights s =
     (List.map_filter (\<lambda>a. if Some (nid a) \<noteq> factive s then map_of (franges s) (nid a) else None) (fanchors s),
      if truthy (factive s) then map_of (franges s) (the (factive s)) else None)"

text \<open>Re-layout: one pass per animation frame.\<close>

definition f_replace :: "'e CFrame \<Rightarrow> 'e CFrame \<times> bool" where
  "f_replace s = (if fqueued s then (s, False) else (s\<lparr>fqueued := True\<rparr>, True))"

definition f_tick :: "'e FPage \<Rightarrow> 'e CFrame \<Rightarrow> 'e CFrame" where
  "f_tick pg s = f_place pg (s\<lparr>fqueued := False\<rparr>)"

subsection \<open>Selection and pick mode\<close>

text \<open>A selection: its two ends, its text and its box; \<open>None\<close> when it is collapsed.\<close>

type_synonym selection = "(Point \<times> Point \<times> jstr \<times> Rect) option"

definition describe_selection :: "'e FPage \<Rightarrow> Point \<Rightarrow> Point \<Rightarrow> jstr \<Rightarrow> CAnchor option" where
  "describe_selection pg p q shown =
     map_option (\<lambda>a. \<lparr>quote = quote a, pre = pre a, suf = suf a, aline = aline a, element = None\<rparr>) (describe (lowers pg) (index pg) p q shown False)"

definition reportSelection :: "'e FPage \<Rightarrow> selection \<Rightarrow> 'e CFrame \<Rightarrow> Up list" where
  "reportSelection pg sel s =
     (if fpicking s then []
      else case sel of
        None \<Rightarrow> [USelect None None]
      | Some (p, q, shown, b) \<Rightarrow>
          (let a = describe_selection pg p q shown in [USelect a (if a = None then None else Some b)]))"

definition setPick :: "bool \<Rightarrow> 'e CFrame \<Rightarrow> 'e CFrame" where
  "setPick on s = s\<lparr>fpicking := on, fhover := None\<rparr>"

datatype Key = Escape | Arrow | OtherKey

text \<open>The flag says that the selection will be reported.\<close>

definition f_keyup :: "Key \<Rightarrow> bool \<Rightarrow> 'e CFrame \<Rightarrow> 'e CFrame \<times> Up list \<times> bool" where
  "f_keyup k shift s =
     (if k = Escape \<and> fpicking s then (setPick False s, [UPickoff], False) else (s, [], shift \<or> k = Arrow))"

datatype 'e Target = NoTarget | HtmlTag | BodyTag | InPage 'e

definition f_mousemove :: "'e FPage \<Rightarrow> 'e Target \<Rightarrow> 'e CFrame \<Rightarrow> 'e CFrame" where
  "f_mousemove pg t s =
     (if \<not> fpicking s then s
      else case t of
        InPage el \<Rightarrow>
          let b = element_box pg el in s\<lparr>fhover := Some (b\<lparr>rx := rx b + scroll_x pg, ry := ry b + scroll_y pg\<rparr>)\<rparr>
      | _ \<Rightarrow> s\<lparr>fhover := None\<rparr>)"

text \<open>What a picked element is described by: its path, and its text when that is short.\<close>

definition picked_anchor :: "jstr \<Rightarrow> jstr \<Rightarrow> CAnchor" where
  "picked_anchor css shown =
     (let t = trim (tidy shown)
      in \<lparr>quote = (if t \<noteq> [] \<and> length t \<le> 160 then Some t else None), pre = None, suf = None, aline = None, element = Some css\<rparr>)"

definition hit_first :: "(dom_range \<Rightarrow> bool option) \<Rightarrow> (jstr \<times> dom_range) list \<Rightarrow> jstr option" where
  "hit_first contains rs = map_option fst (find (\<lambda>(i, g). contains g = Some True) rs)"

text \<open>A click: in pick mode on an element (its path, text and box), else on a highlighted range.\<close>

definition f_click ::
  "(jstr \<times> jstr \<times> Rect) option \<Rightarrow> bool \<Rightarrow> (dom_range \<Rightarrow> bool option) \<Rightarrow> 'e CFrame \<Rightarrow> 'e CFrame \<times> Up list" where
  "f_click el selecting contains s =
     (if fpicking s then
        (case el of None \<Rightarrow> (s, []) | Some (css, shown, b) \<Rightarrow> (setPick False s, [UPicked (picked_anchor css shown) b]))
      else if selecting then (s, [])
      else (s, case hit_first contains (franges s) of None \<Rightarrow> [] | Some i \<Rightarrow> [UOpen i]))"

definition f_pin_click :: "FPin \<Rightarrow> Up list" where
  "f_pin_click p = [UOpen (pin_id p)]"

subsection \<open>Messages from the app\<close>

definition f_receive :: "'e FPage \<Rightarrow> Down \<Rightarrow> 'e CFrame \<Rightarrow> 'e CFrame" where
  "f_receive pg m s =
     (case m of
        DAnchors as act \<Rightarrow> f_place pg (s\<lparr>fanchors := as, factive := act\<rparr>)
      | DPick on \<Rightarrow> setPick on s
      | DFocus i \<Rightarrow> f_place pg (s\<lparr>factive := Some i\<rparr>)
      | DClear \<Rightarrow> s)"

text \<open>Where \<open>bd-comment:focus\<close> scrolls to.\<close>

definition focus_scroll :: "'e FPage \<Rightarrow> rat \<Rightarrow> jstr \<Rightarrow> 'e CFrame \<Rightarrow> rat option" where
  "focus_scroll pg innerHeight i s =
     map_option (\<lambda>b. ry b + scroll_y pg - innerHeight / 3)
       (case map_of (franges s) i of Some g \<Rightarrow> range_box pg g | None \<Rightarrow> map_option (element_box pg) (map_of (felements s) i))"

definition f_message :: "'e FPage \<Rightarrow> bool \<Rightarrow> Down \<Rightarrow> 'e CFrame \<Rightarrow> 'e CFrame" where
  "f_message pg from_parent m s = (if from_parent then f_receive pg m s else s)"

text \<open>Placing, and moving over the page, leave what the app sent alone.\<close>

lemma f_place_keeps [simp]:
  "fanchors (f_place pg s) = fanchors s" "factive (f_place pg s) = factive s" "fpicking (f_place pg s) = fpicking s"
  by (simp_all add: f_place_def case_prod_beta)

lemma f_tick_keeps [simp]:
  "fanchors (f_tick pg s) = fanchors s" "factive (f_tick pg s) = factive s" "fpicking (f_tick pg s) = fpicking s"
  by (simp_all add: f_tick_def)

lemma f_mousemove_keeps [simp]:
  "fanchors (f_mousemove pg t s) = fanchors s" "factive (f_mousemove pg t s) = factive s"
  "fpicking (f_mousemove pg t s) = fpicking s"
  by (simp_all add: f_mousemove_def Let_def split: Target.splits)

lemma setPick_simps [simp]:
  "fanchors (setPick on s) = fanchors s" "factive (setPick on s) = factive s" "fpicking (setPick on s) = on"
  by (simp_all add: setPick_def)

lemma f_receive_view:
  "fanchors (f_receive pg m s) = (case m of DAnchors as act \<Rightarrow> as | _ \<Rightarrow> fanchors s)"
  "factive (f_receive pg m s) = (case m of DAnchors as act \<Rightarrow> act | DFocus i \<Rightarrow> Some i | _ \<Rightarrow> factive s)"
  "fpicking (f_receive pg m s) = (case m of DPick on \<Rightarrow> on | _ \<Rightarrow> fpicking s)"
  by (simp_all add: f_receive_def split: Down.splits)

text \<open>Every pin is that of an anchor the app sent, with its number.\<close>

lemma pins_are_anchors:
  "p \<in> set (fpins (f_place pg s)) \<Longrightarrow> \<exists>a \<in> set (fanchors s). pin_id p = nid a \<and> pin_n p = nn a
     \<and> (pin_active p \<longleftrightarrow> factive s = Some (nid a)) \<and> 0 \<le> pin_left p \<and> 0 \<le> pin_top p"
  by (fastforce simp: f_place_def case_prod_beta map_filter_def pin_for_def split: option.splits)

end
