(* ===== verification/Comments.thy ===== *)
theory Comments
  imports CommentFrame
begin

section \<open>Commenting on the page (CommentSurface in components/Comments.tsx)\<close>

text \<open>
  The state of the surface around a file, with the two pieces the page above holds for it (focus and
  pick mode); the composer; the pins of a text page; and the conversation with the frame of an HTML
  page, as a system of two parties and the messages in between. Pixels of the composer are rationals.
\<close>

record Draft =
  danchor :: CAnchor
  dx :: rat
  dy :: rat
  composing :: bool

record Surface =
  cpath :: jstr
  framed :: bool
  threads :: "CommentThread list"
  focus :: "jstr option"
  picking :: bool
  panel :: bool
  draft :: "Draft option"
  body :: jstr
  busy :: bool

definition drop_draft :: "Surface \<Rightarrow> Surface" where
  "drop_draft s = s\<lparr>draft := (case draft s of Some d \<Rightarrow> if composing d then Some d else None | None \<Rightarrow> None)\<rparr>"

definition clear_draft :: "Surface \<Rightarrow> Surface" where
  "clear_draft s = s\<lparr>draft := None, body := []\<rparr>"

text \<open>Another file: the effects of the surface and of the page above it (apps/Browser.tsx).\<close>

definition switch_file :: "jstr \<Rightarrow> bool \<Rightarrow> CommentThread list \<Rightarrow> Surface \<Rightarrow> Surface" where
  "switch_file p fr ts s = clear_draft (s\<lparr>cpath := p, framed := fr, threads := ts, focus := None, picking := False\<rparr>)"

definition open_thread :: "jstr \<Rightarrow> Surface \<Rightarrow> Surface" where
  "open_thread i s = s\<lparr>focus := Some i, panel := True\<rparr>"

subsection \<open>The text page\<close>

text \<open>A settled selection: \<open>None\<close> is a collapsed one, \<open>Some None\<close> one outside the page or without
  text, else its anchor and the right and lower edge of its box.\<close>

definition on_select :: "(CAnchor \<times> rat \<times> rat) option option \<Rightarrow> Surface \<Rightarrow> Surface" where
  "on_select sel s =
     (case sel of
        None \<Rightarrow> drop_draft s
      | Some None \<Rightarrow> s
      | Some (Some (a, x, y)) \<Rightarrow> s\<lparr>draft := Some \<lparr>danchor = a, dx = x, dy = y, composing = False\<rparr>\<rparr>)"

definition on_click :: "bool \<Rightarrow> bool \<Rightarrow> (dom_range \<Rightarrow> bool option) \<Rightarrow> (jstr \<times> dom_range) list \<Rightarrow> Surface \<Rightarrow> Surface" where
  "on_click ignored selecting contains rs s =
     (if ignored \<or> selecting then s
      else case hit_first contains rs of None \<Rightarrow> s | Some i \<Rightarrow> open_thread i s)"

definition page_ranges :: "(nat \<Rightarrow> jstr) \<Rightarrow> TextIndex \<Rightarrow> (CommentThread \<times> nat) list \<Rightarrow> (jstr \<times> dom_range) list" where
  "page_ranges lower ix shown =
     foldl (\<lambda>m (t, n).
       if truthy (quote (tanchor t)) then
         (case rangeFor lower ix (text_anchor (tanchor t)) of None \<Rightarrow> m | Some g \<Rightarrow> AList.update (tid t) g m)
       else m) [] shown"

record Pin =
  pid :: jstr
  pnum :: nat
  pcount :: nat
  pk :: nat
  pline :: int

text \<open>Pins of one line are stacked: \<open>k\<close> counts those above. \<open>line_of\<close> is the rounded middle of the
  first line of a thread's range, \<open>None\<close> where it has none.\<close>

fun stack_pins :: "(jstr \<Rightarrow> int option) \<Rightarrow> (int \<Rightarrow> nat) \<Rightarrow> (CommentThread \<times> nat) list \<Rightarrow> Pin list" where
  "stack_pins line_of per [] = []"
| "stack_pins line_of per ((t, n) # ts) =
     (case line_of (tid t) of
        None \<Rightarrow> stack_pins line_of per ts
      | Some y \<Rightarrow> \<lparr>pid = tid t, pnum = n, pcount = length (tmessages t), pk = per y, pline = y\<rparr>
          # stack_pins line_of (per(y := per y + 1)) ts)"

definition page_pins :: "(jstr \<Rightarrow> nat) \<Rightarrow> (jstr \<Rightarrow> int option) \<Rightarrow> CommentThread list \<Rightarrow> Pin list" where
  "page_pins collate line_of ts = stack_pins line_of (\<lambda>_. 0) (shown_threads collate ts)"

definition pin_title :: "Pin \<Rightarrow> jstr" where
  "pin_title p =
     js ''Comment '' @ nat_str (pnum p) @ js '' '' @ [183] @ js '' '' @ nat_str (pcount p) @ js '' message''
     @ (if pcount p = 1 then [] else js ''s'')"

lemma stack_pins_above: "p \<in> set (stack_pins line_of per ts) \<Longrightarrow> per (pline p) \<le> pk p"
proof (induction line_of per ts rule: stack_pins.induct)
  case (2 line_of per t n ts)
  note IH = 2(2)
  show ?case
  proof (cases "line_of (tid t)")
    case None with 2 show ?thesis by simp
  next
    case (Some y)
    with 2(3) consider "pline p = y" "pk p = per y" | "p \<in> set (stack_pins line_of (per(y := per y + 1)) ts)"
      by auto
    then show ?thesis
    proof cases
      case 2
      then have "(per(y := per y + 1)) (pline p) \<le> pk p" by (rule IH [OF Some])
      then show ?thesis by (cases "pline p = y") simp_all
    qed simp
  qed
qed simp

text \<open>No two pins are drawn on the same place.\<close>

lemma pins_apart: "distinct (map (\<lambda>p. (pline p, pk p)) (stack_pins line_of per ts))"
proof (induction line_of per ts rule: stack_pins.induct)
  case (2 line_of per t n ts)
  show ?case
  proof (cases "line_of (tid t)")
    case None with 2(1) show ?thesis by simp
  next
    case (Some y)
    have "(y, per y) \<notin> (\<lambda>p. (pline p, pk p)) ` set (stack_pins line_of (per(y := per y + 1)) ts)"
      using stack_pins_above [of _ line_of "per(y := per y + 1)" ts] by fastforce
    moreover have "distinct (map (\<lambda>p. (pline p, pk p)) (stack_pins line_of (per(y := per y + 1)) ts))"
      using 2(2) [OF Some] .
    ultimately show ?thesis using Some by simp
  qed
qed simp

subsection \<open>The composer\<close>

definition open_composer :: "Surface \<Rightarrow> Surface" where
  "open_composer s = s\<lparr>draft := map_option (\<lambda>d. d\<lparr>composing := True\<rparr>) (draft s)\<rparr>"

definition submit :: "Surface \<Rightarrow> Surface \<times> Effect list" where
  "submit s =
     (case draft s of
        None \<Rightarrow> (s, [])
      | Some d \<Rightarrow>
          if trim (body s) = [] \<or> busy s then (s, [])
          else (s\<lparr>busy := True\<rparr>, [PostComment (cpath s) (body s) (Some (danchor d))]))"

definition submitted :: "CommentThread \<Rightarrow> Surface \<Rightarrow> Surface" where
  "submitted t s = open_thread (tid t) (clear_draft (s\<lparr>busy := False\<rparr>))"

definition submit_failed :: "jstr \<Rightarrow> Surface \<Rightarrow> Surface \<times> Effect list" where
  "submit_failed msg s = (s\<lparr>busy := False\<rparr>, [Toast (js ''Could not save the comment: '' @ msg)])"

definition composer_key :: "bool \<Rightarrow> bool \<Rightarrow> Surface \<Rightarrow> Surface \<times> Effect list" where
  "composer_key cmd_enter esc s =
     (let (s, e) = (if cmd_enter then submit s else (s, [])) in (if esc then clear_draft s else s, e))"

definition draft_pos :: "int \<Rightarrow> int \<Rightarrow> Surface \<Rightarrow> (rat \<times> rat) option" where
  "draft_pos iw ih s =
     map_option (\<lambda>d. clampToViewport iw ih (dx d) (dy d) (if composing d then 320 else 120) (if composing d then 170 else 34)) (draft s)"

text \<open>One post at a time, of a text that is not blank, with the anchor the composer shows.\<close>

lemma submit_posts:
  "snd (submit s) = [e] \<Longrightarrow> \<not> busy s \<and> busy (fst (submit s)) \<and> trim (body s) \<noteq> []
     \<and> (\<exists>d. draft s = Some d \<and> e = PostComment (cpath s) (body s) (Some (danchor d)))"
  by (auto simp: submit_def split: option.splits if_splits)

text \<open>The answer to a post clears whatever is in the composer when it comes, on whatever file that is,
  and focuses the thread of the file it was posted on.\<close>

lemma late_answer_clears_other_draft:
  "draft (submitted t s) = None \<and> body (submitted t s) = [] \<and> focus (submitted t s) = Some (tid t)
   \<and> cpath (submitted t s) = cpath s"
  by (simp add: submitted_def open_thread_def clear_draft_def)

lemma draft_lost:
  fixes s :: Surface and d :: Draft and a :: CAnchor
  defines "s\<^sub>1 \<equiv> fst (submit (s\<lparr>draft := Some d, body := js ''first'', busy := False\<rparr>))"
  defines "s\<^sub>2 \<equiv> (open_composer (on_select (Some (Some (a, 0, 0))) (switch_file (js ''b.md'') False [] s\<^sub>1)))\<lparr>body := js ''second''\<rparr>"
  shows "draft s\<^sub>2 = Some \<lparr>danchor = a, dx = 0, dy = 0, composing = True\<rparr>" "cpath s\<^sub>2 = js ''b.md''" "body s\<^sub>2 = js ''second''"
    "snd (submit s\<^sub>2) = []" "draft (submitted t s\<^sub>2) = None" "body (submitted t s\<^sub>2) = []"
proof -
  have "trim (js ''first'') \<noteq> []" by code_simp
  then show "draft s\<^sub>2 = Some \<lparr>danchor = a, dx = 0, dy = 0, composing = True\<rparr>" "cpath s\<^sub>2 = js ''b.md''" "body s\<^sub>2 = js ''second''"
    "snd (submit s\<^sub>2) = []" "draft (submitted t s\<^sub>2) = None" "body (submitted t s\<^sub>2) = []"
    by (simp_all add: s\<^sub>2_def s\<^sub>1_def submit_def on_select_def open_composer_def switch_file_def clear_draft_def submitted_def open_thread_def)
qed

subsection \<open>From the frame\<close>

text \<open>The frame's place on the page is \<open>off\<close>. A message counts only when it comes from the frame's window.\<close>

definition frame_draft :: "rat \<times> rat \<Rightarrow> CAnchor \<Rightarrow> Rect \<Rightarrow> bool \<Rightarrow> Draft" where
  "frame_draft off a b cmp =
     \<lparr>danchor = a, dx = fst off + rx b + (if cmp then min (rw b) 320 else rw b),
      dy = snd off + ry b + (if cmp then min (rh b) 60 else rh b), composing = cmp\<rparr>"

definition from_frame :: "rat \<times> rat \<Rightarrow> Up \<Rightarrow> Surface \<Rightarrow> Surface" where
  "from_frame off m s =
     (case m of
        UReady \<Rightarrow> s
      | USelect (Some a) (Some b) \<Rightarrow> s\<lparr>draft := Some (frame_draft off a b False)\<rparr>
      | USelect _ _ \<Rightarrow> drop_draft s
      | UPicked a b \<Rightarrow> s\<lparr>picking := False, draft := Some (frame_draft off a b True)\<rparr>
      | UOpen i \<Rightarrow> open_thread i s
      | UPickoff \<Rightarrow> s\<lparr>picking := False\<rparr>)"

definition down_anchors :: "(jstr \<Rightarrow> nat) \<Rightarrow> Surface \<Rightarrow> Numbered list" where
  "down_anchors collate s = map (\<lambda>(t, n). \<lparr>nanchor = tanchor t, nid = tid t, nn = n\<rparr>) (shown_threads collate (threads s))"

definition anchorsDown :: "(jstr \<Rightarrow> nat) \<Rightarrow> Surface \<Rightarrow> Down" where
  "anchorsDown collate s = DAnchors (down_anchors collate s) (focus s)"

text \<open>The effects after a change of state, in their order; and the answer to \<open>ready\<close>.\<close>

definition effects :: "(jstr \<Rightarrow> nat) \<Rightarrow> Surface \<Rightarrow> Surface \<Rightarrow> Down list" where
  "effects collate s s' =
     (if threads s' \<noteq> threads s \<or> focus s' \<noteq> focus s then [anchorsDown collate s'] else [])
     @ (if picking s' \<noteq> picking s then [DPick (picking s')] else [])
     @ (if focus s' \<noteq> focus s \<and> truthy (focus s') then [DFocus (the (focus s'))] else [])"

definition answer :: "(jstr \<Rightarrow> nat) \<Rightarrow> Up \<Rightarrow> Surface \<Rightarrow> Down list" where
  "answer collate m s = (if m = UReady then [anchorsDown collate s, DPick (picking s)] else [])"

subsection \<open>The two sides together\<close>

text \<open>
  The app, the frame and the messages in between, in order in each direction. The frame's document can
  be replaced at any time (a new version, another file): its script is gone with what was sent to it
  and starts again with a \<open>ready\<close>. The page's own scripts may post anything up.
\<close>

record 'e Link =
  app :: Surface
  fr :: "'e CFrame"
  alive :: bool
  down :: "Down list"
  up :: "Up list"

definition app_change :: "(jstr \<Rightarrow> nat) \<Rightarrow> Surface \<Rightarrow> Down list \<Rightarrow> 'e Link \<Rightarrow> 'e Link" where
  "app_change collate s' ms l = l\<lparr>app := s', down := down l @ effects collate (app l) s' @ ms\<rparr>"

definition frame_does :: "'e CFrame \<times> Up list \<Rightarrow> 'e Link \<Rightarrow> 'e Link" where
  "frame_does fu l = l\<lparr>fr := fst fu, up := up l @ snd fu\<rparr>"

text \<open>What moves between the two: any change of the app's own (threads, focus, pick button, panel,
  composer), a click, a key or a pass in the frame, a forged message, a delivery, a new document.\<close>

inductive step :: "'e FPage \<Rightarrow> (jstr \<Rightarrow> nat) \<Rightarrow> 'e Link \<Rightarrow> 'e Link \<Rightarrow> bool" for pg collate where
  app_acts: "step pg collate l (app_change collate s' ms l)" if "ms = [] \<or> ms = [DClear]"
| frame_click: "step pg collate l (frame_does (f_click el selecting contains (fr l)) l)" if "alive l"
| frame_key: "step pg collate l (frame_does (let (f, u, _) = f_keyup k shift (fr l) in (f, u)) l)" if "alive l"
| frame_selects: "step pg collate l (frame_does (fr l, reportSelection pg sel (fr l)) l)" if "alive l"
| frame_moves: "step pg collate l (frame_does (f_mousemove pg t (fr l), []) l)" if "alive l"
| frame_ticks: "step pg collate l (frame_does (f_tick pg (fr l), []) l)" if "alive l"
| page_posts: "step pg collate l (frame_does (fr l, [m]) l)"
| deliver_down: "step pg collate l (l\<lparr>fr := (if alive l then f_message pg True m (fr l) else fr l), down := ms\<rparr>)"
    if "down l = m # ms"
| deliver_up: "step pg collate l
      (app_change collate (from_frame off m (app l)) (answer collate m (from_frame off m (app l))) (l\<lparr>up := ms\<rparr>))"
    if "up l = m # ms"
| unload: "step pg collate l (l\<lparr>fr := new_frame, alive := False\<rparr>)"
| boots: "step pg collate l (l\<lparr>fr := new_frame, alive := True, up := up l @ [UReady]\<rparr>)" if "\<not> alive l"

inductive_cases step_cases: "step pg collate l l'"

text \<open>What the frame will hold when it has read what was sent, and how that relates to the app.\<close>

type_synonym seen = "Numbered list \<times> jstr option \<times> bool"

definition seen_by :: "'e CFrame \<Rightarrow> seen" where
  "seen_by f = (fanchors f, factive f, fpicking f)"

fun see :: "Down \<Rightarrow> seen \<Rightarrow> seen" where
  "see (DAnchors as act) (a, b, c) = (as, act, c)"
| "see (DPick on) (a, b, c) = (a, b, on)"
| "see (DFocus i) (a, b, c) = (a, Some i, c)"
| "see DClear v = v"

definition wanted :: "(jstr \<Rightarrow> nat) \<Rightarrow> Surface \<Rightarrow> seen" where
  "wanted collate s = (down_anchors collate s, focus s, picking s)"

definition pick_ends :: "Up \<Rightarrow> bool" where
  "pick_ends m \<longleftrightarrow> m = UPickoff \<or> (\<exists>a b. m = UPicked a b)"

text \<open>In step: the app is about to hear \<open>ready\<close>, or the frame will see what the app wants, or it has
  left pick mode on its own and the app has yet to hear of it.\<close>

definition in_step :: "(jstr \<Rightarrow> nat) \<Rightarrow> Surface \<Rightarrow> Up list \<Rightarrow> seen \<Rightarrow> bool" where
  "in_step collate s us v \<longleftrightarrow>
     UReady \<in> set us \<or> v = wanted collate s
     \<or> v = (down_anchors collate s, focus s, False) \<and> (\<exists>m \<in> set us. pick_ends m)"

definition link_ok :: "(jstr \<Rightarrow> nat) \<Rightarrow> 'e Link \<Rightarrow> bool" where
  "link_ok collate l \<longleftrightarrow> \<not> alive l \<or> in_step collate (app l) (up l) (fold see (down l) (seen_by (fr l)))"

lemma seen_receive: "seen_by (f_receive pg m f) = see m (seen_by f)"
  by (cases m) (simp_all add: seen_by_def f_receive_view)

text \<open>Whatever the frame saw before, the messages of a change bring it from the old state to the new.\<close>

lemma fold_effects:
  "fold see (effects collate s s') (wanted collate s) = wanted collate s'"
  "fold see (effects collate s s') (down_anchors collate s, focus s, False) =
     (down_anchors collate s', focus s', if picking s' \<noteq> picking s then picking s' else False)"
  by (auto simp: effects_def wanted_def anchorsDown_def down_anchors_def truthy_def)

lemma fold_see_clear: "fold see (ms @ [DClear]) v = fold see ms v"
  by simp

lemma in_step_change:
  assumes "in_step collate s us v"
  shows "in_step collate s' us (fold see (effects collate s s') v)"
proof -
  consider "UReady \<in> set us" | "v = wanted collate s"
    | m where "v = (down_anchors collate s, focus s, False)" "m \<in> set us" "pick_ends m"
    using assms by (auto simp: in_step_def)
  then show ?thesis
  proof cases
    case 3
    then show ?thesis
      by (cases "picking s' = picking s") (auto simp: in_step_def fold_effects wanted_def)
  qed (auto simp: in_step_def fold_effects)
qed

text \<open>The app hears the next message.\<close>

lemma in_step_heard:
  assumes "in_step collate s (m # us) v"
  shows "in_step collate (from_frame off m s) us
    (fold see (effects collate s (from_frame off m s) @ answer collate m (from_frame off m s)) v)"
proof (cases "m = UReady")
  case True
  then show ?thesis
    by (cases v) (simp add: from_frame_def answer_def effects_def anchorsDown_def in_step_def wanted_def)
next
  case False
  let ?s = "from_frame off m s"
  have ans: "answer collate m ?s = []" using False by (simp add: answer_def)
  have off_after: "picking ?s = False" if "pick_ends m"
    using that by (auto simp: pick_ends_def from_frame_def)
  consider "UReady \<in> set us" | "v = wanted collate s"
    | m' where "v = (down_anchors collate s, focus s, False)" "m' = m \<or> m' \<in> set us" "pick_ends m'"
    using assms False by (auto simp: in_step_def)
  then show ?thesis
  proof cases
    case 3
    show ?thesis
    proof (cases "pick_ends m")
      case True
      from off_after [OF this] 3(1) show ?thesis by (auto simp: in_step_def fold_effects ans wanted_def)
    next
      case False
      with 3 have "in_step collate s us v" by (auto simp: in_step_def)
      from in_step_change [OF this, of ?s] show ?thesis by (simp add: ans)
    qed
  qed (auto simp: in_step_def fold_effects ans)
qed

text \<open>The frame leaves pick mode on its own, and says so.\<close>

lemma fold_see_split:
  obtains "\<And>b. fold see ms (a, f, b) = fold see ms (a, f, c)"
  | "\<And>b. snd (snd (fold see ms (a, f, b))) = b" "\<And>b. fst (fold see ms (a, f, b)) = fst (fold see ms (a, f, c))"
    "\<And>b. fst (snd (fold see ms (a, f, b))) = fst (snd (fold see ms (a, f, c)))"
proof (cases "\<exists>on. DPick on \<in> set ms")
  case True
  then have "fold see ms (a, f, b) = fold see ms (a, f, c)" for b
  proof (induction ms arbitrary: a f b c)
    case (Cons m ms)
    show ?case
    proof (cases "\<exists>on. m = DPick on")
      case False
      with Cons.prems have "\<exists>on. DPick on \<in> set ms" by auto
      note IH = Cons.IH [OF this]
      show ?thesis by (cases m) (simp_all, (rule IH)+)
    qed auto
  qed simp
  then show thesis by (rule that(1))
next
  case False
  then have "snd (snd (fold see ms (a, f, b))) = b \<and> fst (fold see ms (a, f, b)) = fst (fold see ms (a, f, c))
      \<and> fst (snd (fold see ms (a, f, b))) = fst (snd (fold see ms (a, f, c)))" for b
  proof (induction ms arbitrary: a f)
    case (Cons m ms) then show ?case by (cases m) auto
  qed simp
  then show thesis by (intro that(2)) auto
qed

lemma in_step_leaves:
  assumes "in_step collate s us (fold see ms (a, f, True))" "pick_ends m"
  shows "in_step collate s (us @ [m]) (fold see ms (a, f, False))"
  using fold_see_split [of ms a f True]
proof cases
  case 1
  with assms(1) show ?thesis by (auto simp: in_step_def)
next
  case 2
  have "fold see ms (a, f, False) = (fst (fold see ms (a, f, True)), fst (snd (fold see ms (a, f, True))), False)"
    using 2 by (simp add: prod_eq_iff)
  with assms 2(1) [of True] show ?thesis by (auto simp: in_step_def wanted_def)
qed

lemma in_step_more: "in_step collate s us v \<Longrightarrow> in_step collate s (us @ ms) v"
  by (auto simp: in_step_def)

lemma frame_click_cases:
  obtains "fst (f_click el sl ct f) = f"
  | m where "fpicking f" "fst (f_click el sl ct f) = setPick False f" "snd (f_click el sl ct f) = [m]" "pick_ends m"
  by (cases "fpicking f"; cases el) (auto simp: f_click_def pick_ends_def intro: that split: option.splits)

lemma step_link_ok: "step pg collate l l' \<Longrightarrow> link_ok collate l \<Longrightarrow> link_ok collate l'"
proof (induction rule: step.induct)
  case (app_acts ms l s')
  then show ?case
    using in_step_change [of collate "app l" "up l" "fold see (down l) (seen_by (fr l))" s'] by (auto simp: link_ok_def app_change_def)
next
  case (frame_click l el selecting contains)
  then have ok: "in_step collate (app l) (up l) (fold see (down l) (seen_by (fr l)))" by (simp add: link_ok_def)
  show ?case
  proof (cases rule: frame_click_cases [of el selecting contains "fr l"])
    case 1 with ok show ?thesis by (simp add: link_ok_def frame_does_def in_step_more)
  next
    case (2 m)
    with ok have "in_step collate (app l) (up l) (fold see (down l) (fanchors (fr l), factive (fr l), True))"
      by (simp add: seen_by_def)
    from in_step_leaves [OF this 2(4)] 2 show ?thesis by (simp add: link_ok_def frame_does_def seen_by_def)
  qed
next
  case (frame_key l k shift)
  then have ok: "in_step collate (app l) (up l) (fold see (down l) (seen_by (fr l)))" by (simp add: link_ok_def)
  show ?case
  proof (cases "k = Escape \<and> fpicking (fr l)")
    case False
    with ok show ?thesis by (auto simp: link_ok_def frame_does_def f_keyup_def)
  next
    case True
    with ok have "in_step collate (app l) (up l) (fold see (down l) (fanchors (fr l), factive (fr l), True))"
      by (simp add: seen_by_def)
    from in_step_leaves [OF this, of UPickoff] True show ?thesis
      by (simp add: link_ok_def frame_does_def seen_by_def f_keyup_def pick_ends_def)
  qed
next
  case (deliver_down l m ms)
  then show ?case by (simp add: link_ok_def f_message_def seen_receive)
next
  case (deliver_up l m ms off)
  then show ?case
    using in_step_heard [of collate "app l" m ms "fold see (down l) (seen_by (fr l))" off]
    by (auto simp: link_ok_def app_change_def)
next
  case (boots l)
  then show ?case by (simp add: link_ok_def in_step_def)
qed (simp_all add: link_ok_def frame_does_def in_step_more seen_by_def)

definition start_link :: "Surface \<Rightarrow> 'e Link" where
  "start_link s = \<lparr>app = s, fr = new_frame, alive = False, down = [], up = []\<rparr>"

lemma reachable_link_ok:
  assumes "(step pg collate)\<^sup>*\<^sup>* (start_link s) l" shows "link_ok collate l"
  using assms
proof (induction rule: rtranclp_induct)
  case base
  show ?case by (simp add: link_ok_def start_link_def)
next
  case (step y z)
  then show ?case by (blast intro: step_link_ok)
qed

text \<open>C10: page and frame agree: whatever the reader does on either side, in whatever order the
  messages are delivered, however often the frame's document is replaced and whatever its own scripts
  post, once nothing is in flight the running frame holds exactly the anchors of the open threads with
  their numbers, the focused thread, and the pick mode of the page around it.\<close>

theorem frame_in_step:
  assumes "(step pg collate)\<^sup>*\<^sup>* (start_link s) l" "alive l" "down l = []" "up l = []"
  shows "fanchors (fr l) = down_anchors collate (app l) \<and> factive (fr l) = focus (app l)
    \<and> fpicking (fr l) = picking (app l)"
  using reachable_link_ok [OF assms(1)] assms(2-4)
  by (simp add: link_ok_def in_step_def wanted_def seen_by_def)

definition w_page :: "nat FPage" where
  "w_page = \<lparr>lowers = \<lambda>u. [u], index = textIndex [], query_one = \<lambda>_. None, range_box = \<lambda>_. None,
     element_box = \<lambda>_. \<lparr>rx = 0, ry = 0, rw = 0, rh = 0\<rparr>, scroll_x = 0, scroll_y = 0\<rparr>"

definition w_surface :: Surface where
  "w_surface = \<lparr>cpath = js ''a.html'', framed = True, threads = [w_thread (js ''x'') (js ''2'') False], focus = None,
     picking = True, panel = True, draft = None, body = [], busy = False\<rparr>"

lemma frame_in_step_witness:
  "\<exists>l. (step w_page hd)\<^sup>*\<^sup>* (start_link w_surface) l \<and> fpicking (fr l) \<and> map nid (fanchors (fr l)) = [js ''x''] \<and> app l = w_surface"
proof -
  let ?l0 = "start_link w_surface :: nat Link"
  let ?m = "[anchorsDown hd w_surface, DPick True]"
  define l1 where "l1 = ?l0\<lparr>fr := new_frame, alive := True, up := up ?l0 @ [UReady]\<rparr>"
  have s1: "step w_page hd ?l0 l1" unfolding l1_def by (rule boots) (simp add: start_link_def)
  define l2 where "l2 = app_change hd (from_frame (0, 0) UReady (app l1)) (answer hd UReady (from_frame (0, 0) UReady (app l1))) (l1\<lparr>up := []\<rparr>)"
  have s2: "step w_page hd l1 l2" unfolding l2_def by (rule deliver_up) (simp add: l1_def start_link_def)
  have a1: "app l1 = w_surface" by (simp add: l1_def start_link_def)
  have d2: "down l2 = ?m" "alive l2" "app l2 = w_surface" "up l2 = []"
    by (simp_all add: l2_def app_change_def a1 from_frame_def answer_def effects_def w_surface_def) (simp_all add: l1_def start_link_def)
  define l3 where "l3 = l2\<lparr>fr := f_message w_page True (hd ?m) (fr l2), down := [DPick True]\<rparr>"
  have s3: "step w_page hd l2 l3"
    using deliver_down [of l2 "hd ?m" "[DPick True]" w_page hd] d2 by (simp add: l3_def)
  define l4 where "l4 = l3\<lparr>fr := f_message w_page True (DPick True) (fr l3), down := []\<rparr>"
  have s4: "step w_page hd l3 l4"
    using deliver_down [of l3 "DPick True" "[]" w_page hd] d2 by (simp add: l4_def l3_def)
  have run: "(step w_page hd)\<^sup>*\<^sup>* ?l0 l4"
    using s1 s2 s3 s4 by (meson rtranclp.rtrancl_into_rtrancl rtranclp.rtrancl_refl)
  have l4: "alive l4" "down l4 = []" "up l4 = []" "app l4 = w_surface" by (simp_all add: l4_def l3_def d2)
  have "map nid (down_anchors hd w_surface) = [js ''x'']" by code_simp
  moreover have "picking w_surface" by (simp add: w_surface_def)
  ultimately show ?thesis
    using frame_in_step [OF run l4(1-3)] run l4(4) by (intro exI [of _ l4]) simp
qed

end
