(* ===== verification/Ambient.thy ===== *)
theory Ambient
  imports Threads Router Live
begin

section \<open>What the page asks for on its own (api/bootRequests.ts, hooks/useSidebar.ts, usePresence.ts, analytics.ts)\<close>

text \<open>
  The requests started before the app mounts, the queries of the hooks they are for, the sidebar's
  ambient numbers, the roster of readers, and product analytics. \<open>None\<close> as a result is the exception of
  \<open>encodeURIComponent\<close>; \<open>Date.parse\<close> and \<open>toISOString\<close> are arguments, as is the third-party script.
\<close>

subsection \<open>Queries: a key and the address it is read from\<close>

type_synonym query = "jstr list \<times> jstr"

definition api_base :: "jstr \<Rightarrow> jstr" where
  "api_base pid = js ''/api/p/'' @ pid @ js ''/''"

definition tree_query :: "jstr \<Rightarrow> query" where
  "tree_query base = ([js ''tree'', base], base @ js ''tree?slim=1'')"

definition heat_query :: "jstr \<Rightarrow> query" where
  "heat_query base = ([js ''heat'', base], base @ js ''heat?days=30'')"

definition render_query :: "jstr \<Rightarrow> jstr \<Rightarrow> jstr option \<Rightarrow> query option" where
  "render_query base p v =
     map_option (\<lambda>q. ([js ''render'', base, p, str_or v []],
         base @ js ''render?path='' @ q @ (if truthy v then js ''&sha='' @ the v else []))) (encodeURIComponent p)"

definition comments_query :: "jstr \<Rightarrow> jstr \<Rightarrow> query option" where
  "comments_query base p = map_option (\<lambda>u. (comments_key base p, u)) (comments_url base p)"

definition folder_history_query :: "jstr \<Rightarrow> jstr \<Rightarrow> query option" where
  "folder_history_query base fld =
     map_option (\<lambda>q. ([js ''history'', base, js ''prefix'', fld, js ''20''], base @ js ''history?prefix='' @ q @ js ''&n=20'')) (encodeURIComponent fld)"

definition ACTIVITY_CAP :: nat where "ACTIVITY_CAP = 100"

definition since_query :: "(nat \<Rightarrow> jstr) \<Rightarrow> jstr option \<Rightarrow> nat \<Rightarrow> query option" where
  "since_query toISO pid since =
     (if \<not> truthy pid \<or> since = 0 then None
      else map_option (\<lambda>q. ([js ''history'', api_base (the pid), js ''since'', nat_str since],
             api_base (the pid) @ js ''history?n='' @ nat_str ACTIVITY_CAP @ js ''&since='' @ q)) (encodeURIComponent (toISO since)))"

subsection \<open>Boot requests\<close>

definition hex_unit :: "nat \<Rightarrow> bool" where
  "hex_unit u \<longleftrightarrow> is_digit u \<or> 97 \<le> u \<and> u \<le> 102"

text \<open>The two alternatives of the expression: groups of 8, 4, 4, 4 and 12 hexadecimal digits between
  hyphens, or \<open>p-\<close> and eight.\<close>

definition PROJECT_ID :: "jstr \<Rightarrow> bool" where
  "PROJECT_ID s \<longleftrightarrow>
     (let gs = split_on 45 s
      in map length gs = [8, 4, 4, 4, 12] \<and> list_all (list_all hex_unit) gs
       \<or> length gs = 2 \<and> hd gs = js ''p'' \<and> length (gs ! 1) = 8 \<and> list_all hex_unit (gs ! 1))"

record BootRoute =
  b_project :: "jstr option"
  b_path :: jstr
  b_view :: "jstr option"
  b_version :: "jstr option"
  b_editing :: bool

definition bootRequests :: "BootRoute \<Rightarrow> (jstr \<Rightarrow> bool) \<Rightarrow> query list option" where
  "bootRequests route isMarkdown =
     (case b_project route of
        None \<Rightarrow> Some []
      | Some proj \<Rightarrow>
          if proj = [] \<or> \<not> PROJECT_ID proj then Some []
          else
            let apiBase = js ''/api/p/'' @ proj @ js ''/'';
                out0 = [([js ''projects''], js ''/api/projects''), ([js ''orgs''], js ''/api/orgs''),
                        ([js ''tree'', apiBase], apiBase @ js ''tree?slim=1'')];
                heat = ([js ''heat'', apiBase], apiBase @ js ''heat?days=30'');
                p = b_path route
            in if p = [] \<or> truthy (b_view route) \<or> truthy (b_version route) \<or> b_editing route \<or> \<not> isMarkdown p
               then Some (out0 @ [heat])
               else map_option (\<lambda>q. out0 @
                      [([js ''render'', apiBase, p, []], apiBase @ js ''render?path='' @ q),
                       heat,
                       ([js ''comments'', apiBase, p], apiBase @ js ''comments?status=all&path='' @ q)]) (encodeURIComponent p))"

fun view_name :: "ViewName \<Rightarrow> jstr" where
  "view_name VDashboard = js ''dashboard''"
| "view_name VHistory = js ''history''"
| "view_name VInstall = js ''install''"
| "view_name VSettings = js ''settings''"

definition boot_route :: "Route \<Rightarrow> BootRoute" where
  "boot_route g =
     \<lparr>b_project = Route.project g, b_path = rpath g, b_view = map_option view_name (view g), b_version = version g, b_editing = editing g\<rparr>"

definition prefetchForURL :: "jstr \<Rightarrow> query list option" where
  "prefetchForURL url = bootRequests (boot_route (parseRoute url True)) MD_EXT"

text \<open>What is asked for before the app mounts is what the hooks will ask for: every request
  started from a URL has the key and the address of one of the hooks' queries for that project and
  path, at the version the page shows, and a URL whose project segment is not a project id starts none.\<close>

theorem boot_joins_hooks:
  assumes "bootRequests route isMarkdown = Some qs" "q \<in> set qs"
  shows "\<exists>pid. b_project route = Some pid \<and> PROJECT_ID pid \<and>
    (q \<in> {([js ''projects''], js ''/api/projects''), ([js ''orgs''], js ''/api/orgs''),
           tree_query (api_base pid), heat_query (api_base pid)}
     \<or> Some q = render_query (api_base pid) (b_path route) (b_version route)
     \<or> Some q = comments_query (api_base pid) (b_path route))"
proof -
  from assms obtain pid where pid: "b_project route = Some pid" "PROJECT_ID pid"
    by (auto simp: bootRequests_def split: option.splits if_splits)
  have "q \<in> {([js ''projects''], js ''/api/projects''), ([js ''orgs''], js ''/api/orgs''),
           tree_query (api_base pid), heat_query (api_base pid)}
     \<or> \<not> truthy (b_version route) \<and> (\<exists>e. encodeURIComponent (b_path route) = Some e \<and>
         (q = ([js ''render'', api_base pid, b_path route, []], api_base pid @ js ''render?path='' @ e)
          \<or> q = ([js ''comments'', api_base pid, b_path route], api_base pid @ js ''comments?status=all&path='' @ e)))"
    using assms pid
    by (auto simp: bootRequests_def Let_def tree_query_def heat_query_def api_base_def split: if_splits)
  moreover have "str_or v [] = []" if "\<not> truthy v" for v
    using that by (auto simp: truthy_def str_or_def split: option.splits)
  ultimately have "q \<in> {([js ''projects''], js ''/api/projects''), ([js ''orgs''], js ''/api/orgs''),
           tree_query (api_base pid), heat_query (api_base pid)}
     \<or> Some q = render_query (api_base pid) (b_path route) (b_version route)
     \<or> Some q = comments_query (api_base pid) (b_path route)"
    by (auto simp: render_query_def comments_query_def comments_url_def comments_key_def)
  with pid show ?thesis by blast
qed

lemma boot_joins_hooks_witness:
  "render_query (api_base (js ''p-0123abcd'')) (js ''a.md'') None
     = Some ([js ''render'', js ''/api/p/p-0123abcd/'', js ''a.md'', []], js ''/api/p/p-0123abcd/render?path=a.md'')
   \<and> comments_url (api_base (js ''p-0123abcd'')) (js ''a.md'') \<noteq> None"
proof -
  let ?route = "\<lparr>b_project = Some (js ''p-0123abcd''), b_path = js ''a.md'', b_view = None, b_version = None, b_editing = False\<rparr>"
  let ?q = "([js ''render'', js ''/api/p/p-0123abcd/'', js ''a.md'', []], js ''/api/p/p-0123abcd/render?path=a.md'')"
  have "bootRequests ?route MD_EXT \<noteq> None \<and> ?q \<in> set (the (bootRequests ?route MD_EXT))" by code_simp
  then obtain qs where "bootRequests ?route MD_EXT = Some qs" "?q \<in> set qs" by auto
  note joins = boot_joins_hooks [OF this]
  have "Some ?q \<noteq> comments_query b p" for b p
    by (cases "comments_url b p") (simp_all add: comments_query_def comments_key_def)
  with joins have "Some ?q = render_query (api_base (js ''p-0123abcd'')) (js ''a.md'') None"
    by (auto simp: tree_query_def heat_query_def)
  moreover have "comments_url (api_base (js ''p-0123abcd'')) (js ''a.md'') \<noteq> None" by code_simp
  ultimately show ?thesis by simp
qed

subsection \<open>The sidebar's numbers\<close>

definition activityCount :: "'a list option option \<Rightarrow> nat option" where
  "activityCount dat = map_option (\<lambda>es. case es of None \<Rightarrow> 0 | Some es \<Rightarrow> length es) dat"

text \<open>The newest change in the tree; a missing or unparsable time counts as 0.\<close>

definition synced :: "(jstr \<Rightarrow> int option) \<Rightarrow> jstr option list \<Rightarrow> int option" where
  "synced pd stamps =
     (let mx = foldl (\<lambda>m t. max m (if truthy t then (case pd (the t) of None \<Rightarrow> 0 | Some v \<Rightarrow> v) else 0)) 0 stamps
      in if mx = 0 then None else Some mx)"

definition sync_devices :: "nat option \<Rightarrow> nat option" where
  "sync_devices n = (if n = Some 0 then None else n)"

definition agoText :: "int \<Rightarrow> int \<Rightarrow> jstr" where
  "agoText ms now =
     (let s = max 0 (js_round (of_int (now - ms) / 1000))
      in if s < 60 then js ''just now''
         else let m = js_round (of_int s / 60)
              in if m < 60 then int_str m @ js ''m ago''
                 else let h = js_round (of_int m / 60)
                      in if h < 48 then int_str h @ js ''h ago'' else int_str (js_round (of_int h / 24)) @ js ''d ago'')"

lemma synced_newest:
  assumes "synced pd stamps = Some v"
  shows "0 < v" "t \<in> set stamps \<Longrightarrow> truthy t \<Longrightarrow> pd (the t) = Some u \<Longrightarrow> u \<le> v"
proof -
  let ?f = "\<lambda>t. if truthy t then (case pd (the t) of None \<Rightarrow> 0 | Some v \<Rightarrow> v) else (0 :: int)"
  have ge: "m \<le> foldl (\<lambda>m t. max m (?f t)) m ts \<and> (\<forall>t \<in> set ts. ?f t \<le> foldl (\<lambda>m t. max m (?f t)) m ts)" for m ts
    by (induction ts arbitrary: m) (simp_all, meson max.bounded_iff)
  from assms have v: "foldl (\<lambda>m t. max m (?f t)) 0 stamps = v" "v \<noteq> 0"
    by (auto simp: synced_def Let_def split: if_splits)
  with ge [of 0 stamps] show "0 < v" by simp
  show "t \<in> set stamps \<Longrightarrow> truthy t \<Longrightarrow> pd (the t) = Some u \<Longrightarrow> u \<le> v"
    using ge [of 0 stamps] v(1) by fastforce
qed

subsection \<open>Who else is here\<close>

record Person =
  pname :: jstr
  page :: "jstr option"

record Presence =
  people :: "Person list"
  path_ref :: jstr
  live :: "nat option"
  runs :: nat
  posted :: "(jstr \<times> bool) list"

text \<open>One run of the effect announces the path the tab is on; leaving the run kills its answer.\<close>

definition announce :: "bool \<Rightarrow> Presence \<Rightarrow> Presence" where
  "announce enabled s =
     (if \<not> enabled then s
      else s\<lparr>runs := runs s + 1, live := Some (runs s), posted := posted s @ [(path_ref s, False)]\<rparr>)"

definition cleanup_run :: "Presence \<Rightarrow> Presence" where
  "cleanup_run s = s\<lparr>live := None\<rparr>"

definition presence_moves :: "bool \<Rightarrow> jstr \<Rightarrow> Presence \<Rightarrow> Presence" where
  "presence_moves enabled p s = announce enabled (cleanup_run (s\<lparr>path_ref := p\<rparr>))"

definition announced :: "nat \<Rightarrow> Person list option \<Rightarrow> Presence \<Rightarrow> Presence" where
  "announced k ps s = (if live s = Some k then s\<lparr>people := (case ps of None \<Rightarrow> [] | Some xs \<Rightarrow> xs)\<rparr> else s)"

definition on_roster :: "Person list \<Rightarrow> Presence \<Rightarrow> Presence" where
  "on_roster ps s = s\<lparr>people := ps\<rparr>"

definition leave :: "bool \<Rightarrow> Presence \<Rightarrow> Presence" where
  "leave enabled s = (if enabled then s\<lparr>posted := posted s @ [(path_ref s, True)]\<rparr> else s)"

text \<open>An answer to an earlier announcement is not taken, and moving never says goodbye.\<close>

definition presence_ok :: "Presence \<Rightarrow> bool" where
  "presence_ok s \<longleftrightarrow> (case live s of None \<Rightarrow> True | Some k \<Rightarrow> runs s = k + 1)"

lemma presence_keeps:
  "presence_ok s \<Longrightarrow> presence_ok (presence_moves e p s)" "presence_ok s \<Longrightarrow> presence_ok (announced k qs s)"
  "presence_ok s \<Longrightarrow> presence_ok (on_roster ps s)" "presence_ok s \<Longrightarrow> presence_ok (leave e s)"
  by (auto simp: presence_ok_def presence_moves_def announce_def cleanup_run_def announced_def on_roster_def leave_def split: option.splits)

lemma late_answer_ignored:
  "presence_ok s \<Longrightarrow> k < runs s \<Longrightarrow> announced k ps (presence_moves True p s) = presence_moves True p s"
  by (simp add: presence_ok_def presence_moves_def announce_def cleanup_run_def announced_def)

lemma moving_is_not_leaving:
  "posted (presence_moves e p s) = posted s @ (if e then [(p, False)] else [])"
  by (simp add: presence_moves_def announce_def cleanup_run_def)

subsection \<open>Analytics and notices\<close>

record AnalyticsConfig =
  akey :: jstr
  ahost :: jstr
  me_email :: "jstr option"
  me_name :: jstr
  plan :: "jstr option"

datatype Call = Init jstr jstr | Identify jstr jstr "jstr option" | Capture jstr

record Analytics =
  started :: bool
  scripts :: "jstr list"
  loaded :: bool
  calls :: "Call list"

text \<open>\<open>s.replace(a, b)\<close> on texts: the first occurrence.\<close>

definition replace_first :: "jstr \<Rightarrow> jstr \<Rightarrow> jstr \<Rightarrow> jstr" where
  "replace_first a b s =
     (case index_from s a 0 of None \<Rightarrow> s | Some i \<Rightarrow> take i s @ b @ drop (i + length a) s)"

definition initAnalytics :: "AnalyticsConfig option \<Rightarrow> Analytics \<Rightarrow> Analytics" where
  "initAnalytics cfg s =
     (case cfg of None \<Rightarrow> s
      | Some a \<Rightarrow>
          if akey a = [] \<or> started s then s
          else s\<lparr>started := True, scripts := scripts s @
            [replace_first (js ''.i.posthog.com'') (js ''-assets.i.posthog.com'') (ahost a) @ js ''/static/array.js'']\<rparr>)"

definition script_loaded :: "AnalyticsConfig \<Rightarrow> bool \<Rightarrow> Analytics \<Rightarrow> Analytics" where
  "script_loaded a defined s =
     (if \<not> defined then s
      else s\<lparr>loaded := True, calls := calls s @ [Init (akey a) (ahost a)]
        @ (case me_email a of None \<Rightarrow> [] | Some e \<Rightarrow> [Identify e (me_name a) (plan a)])\<rparr>)"

definition track :: "jstr \<Rightarrow> Analytics \<Rightarrow> Analytics" where
  "track ev s = (if loaded s then s\<lparr>calls := calls s @ [Capture ev]\<rparr> else s)"

text \<open>Without a configuration nothing is loaded and nothing is sent; and the script is added once.\<close>

lemma no_config_no_request: "initAnalytics None s = s" "\<not> loaded s \<Longrightarrow> track ev s = s"
  by (simp_all add: initAnalytics_def track_def)

lemma analytics_once: "initAnalytics c (initAnalytics (Some a) s) = initAnalytics (Some a) s" if "akey a \<noteq> []"
  using that by (simp add: initAnalytics_def split: option.splits)

datatype Notice = Passing jstr | Sticky jstr

definition toast :: "jstr \<Rightarrow> bool \<Rightarrow> Notice" where
  "toast msg isErr = (if isErr then Sticky msg else Passing msg)"

end
