(* ===== verification/HistoryFeed.thy ===== *)
theory HistoryFeed
  imports Feed Util Live
begin

section \<open>The history view and its filters (components/HistoryView.tsx, HistoryFilters.tsx)\<close>

text \<open>
  The feed of changes as the page keeps it: a window of entries, newest first, grown page by page.
  What a row restores, the order the keys walk, the day heads, the totals above the feed, the panel of
  the selected change and the run cards are derived from the window. Clock labels, \<open>localeCompare\<close> and
  \<open>Date.parse\<close> are arguments; a time that does not parse counts as 0.
\<close>

subsection \<open>Entries\<close>

record HEntry = Change +
  blob :: "jstr option"
  prev :: "jstr option"
  hsize :: "nat option"
  huser_name :: "jstr option"
  hauthor :: "jstr option"
  hos :: "jstr option"

definition who_of :: "HEntry \<Rightarrow> Who" where
  "who_of e = \<lparr>user = cuser e, user_name = huser_name e, author = hauthor e\<rparr>"

definition deletes :: "HEntry \<Rightarrow> bool" where
  "deletes e \<longleftrightarrow> ckind e = js ''delete''"

subsection \<open>The request\<close>

text \<open>\<open>None\<close> is an exception: of \<open>encodeURIComponent\<close>, or of the query of the filters.\<close>

definition scope :: "jstr \<Rightarrow> bool \<Rightarrow> jstr option" where
  "scope target isF =
     (if target = [] then Some (js ''prefix='')
      else if isF then map_option (\<lambda>q. js ''prefix='' @ q) (encodeURIComponent (target @ js ''/''))
      else map_option (\<lambda>q. js ''path='' @ q) (encodeURIComponent target))"

definition feed_qs :: "Zone \<Rightarrow> jstr \<Rightarrow> bool \<Rightarrow> HistoryFilters option \<Rightarrow> int \<Rightarrow> jstr option" where
  "feed_qs z target isF f now =
     (case (scope target isF, historyApiQuery z f now) of (Some s, Some q) \<Rightarrow> Some (s @ q) | _ \<Rightarrow> None)"

definition page_url :: "jstr \<Rightarrow> jstr \<Rightarrow> jstr option \<Rightarrow> jstr option" where
  "page_url api qs cursor =
     (if truthy cursor then map_option (\<lambda>c. api @ js ''history?'' @ qs @ js ''&n=100'' @ js ''&cursor='' @ c) (encodeURIComponent (the cursor))
      else Some (api @ js ''history?'' @ qs @ js ''&n=100''))"

text \<open>A page of the answer is its entries, where it has any.\<close>

definition window_of :: "HEntry list option list \<Rightarrow> HEntry list" where
  "window_of pages = concat (map (\<lambda>p. case p of None \<Rightarrow> [] | Some es \<Rightarrow> es) pages)"

definition HISTORY_TIMEOUT_MS :: nat where "HISTORY_TIMEOUT_MS = 10000"

record Load =
  pending :: bool
  failed :: bool
  loaded :: bool
  slow :: bool
  attempt :: nat
  waiting :: "nat option"

text \<open>The effect that runs when \<open>isPending\<close>, the query or the attempt change, and the timer's turn; the
  timer is the time it has left.\<close>

definition slow_effect :: "Load \<Rightarrow> Load" where
  "slow_effect l = l\<lparr>slow := False, waiting := (if pending l then Some HISTORY_TIMEOUT_MS else None)\<rparr>"

definition elapse :: "nat \<Rightarrow> Load \<Rightarrow> Load" where
  "elapse ms l =
     (case waiting l of
        None \<Rightarrow> l
      | Some left \<Rightarrow> if left \<le> ms then l\<lparr>slow := True, waiting := None\<rparr> else l\<lparr>waiting := Some (left - ms)\<rparr>)"

definition retry_load :: "Load \<Rightarrow> Load" where
  "retry_load l = slow_effect (l\<lparr>attempt := attempt l + 1, pending := True, failed := False, loaded := False\<rparr>)"

datatype Body = Rows | Trouble bool | Skeleton | Blank

definition load_body :: "Load \<Rightarrow> Body" where
  "load_body l =
     (if loaded l then Rows
      else if failed l \<or> slow l then Trouble (\<not> failed l)
      else if pending l then Skeleton else Blank)"

definition trouble_text :: "bool \<Rightarrow> jstr" where
  "trouble_text timedOut =
     (if timedOut then js ''The history service didn't respond within 10 seconds.'' else js ''The history service returned an error.'')"

text \<open>A pending request is shown as a failure once ten seconds have passed, not before, and asking again
  shows the skeleton.\<close>

lemma slow_after_timeout:
  "load_body (elapse b (elapse a (retry_load l))) = (if a < HISTORY_TIMEOUT_MS \<and> a + b < HISTORY_TIMEOUT_MS then Skeleton else Trouble True)"
  by (auto simp: load_body_def elapse_def retry_load_def slow_effect_def)

subsection \<open>The choices the filters offer\<close>

definition see_author :: "jstr list \<Rightarrow> jstr option \<Rightarrow> jstr list" where
  "see_author as a = (if truthy a \<and> the a \<notin> set as then as @ [the a] else as)"

definition authorsOf :: "jstr option list \<Rightarrow> jstr list" where
  "authorsOf us = foldr insert_str (foldl see_author [] us) []"

definition see_authors :: "jstr list \<Rightarrow> HEntry list \<Rightarrow> jstr list" where
  "see_authors seen es = foldl see_author seen (map Some (authorsOf (map cuser es)))"

definition see_device :: "(jstr \<times> jstr) list \<Rightarrow> HEntry \<Rightarrow> (jstr \<times> jstr) list" where
  "see_device ds e =
     (if device_id e \<noteq> [] \<and> device_id e \<notin> fst ` set ds
      then ds @ [(device_id e, if device_name e \<noteq> [] then device_name e else device_id e)] else ds)"

definition see_devices :: "(jstr \<times> jstr) list \<Rightarrow> HEntry list \<Rightarrow> (jstr \<times> jstr) list" where
  "see_devices seen es = foldl see_device seen es"

text \<open>A stable sort by the comparison of names.\<close>

fun insert_by :: "('a \<Rightarrow> 'a \<Rightarrow> bool) \<Rightarrow> 'a \<Rightarrow> 'a list \<Rightarrow> 'a list" where
  "insert_by after x [] = [x]"
| "insert_by after x (y # ys) = (if after x y then y # insert_by after x ys else x # y # ys)"

definition device_options :: "(jstr \<Rightarrow> jstr \<Rightarrow> int) \<Rightarrow> (jstr \<times> jstr) list \<Rightarrow> (jstr \<times> jstr) list" where
  "device_options compare ds = foldr (insert_by (\<lambda>a b. compare (snd a) (snd b) > 0)) ds []"

lemma insert_by_set [simp]: "set (insert_by g x ys) = insert x (set ys)"
  by (induction ys) auto

lemma device_options_set: "set (device_options c ds) = set ds"
  unfolding device_options_def by (induction ds) auto

lemma see_device_grows: "set ds \<subseteq> set (see_device ds e)"
  by (auto simp: see_device_def)

lemma devices_stay: "set ds \<subseteq> set (see_devices ds es)"
  unfolding see_devices_def by (induction es arbitrary: ds) (use see_device_grows in fastforce)+

text \<open>A device once offered is offered after every later window, whatever the filter leaves of the feed.\<close>

lemma device_choice_stays: "d \<in> set (device_options c ds) \<Longrightarrow> d \<in> set (device_options c (see_devices ds es))"
  using devices_stay by (auto simp: device_options_set)

subsection \<open>What a row compares with and restores\<close>

definition prevBlob :: "HEntry list \<Rightarrow> nat \<Rightarrow> jstr option" where
  "prevBlob es i =
     (if truthy (prev (es ! i)) \<or> deletes (es ! i) then (if truthy (prev (es ! i)) then prev (es ! i) else None)
      else case find (\<lambda>e. path e = path (es ! i) \<and> \<not> deletes e) (drop (i + 1) es) of None \<Rightarrow> None | Some e \<Rightarrow> blob e)"

definition head_step :: "(jstr \<rightharpoonup> jstr) \<Rightarrow> HEntry \<Rightarrow> (jstr \<rightharpoonup> jstr)" where
  "head_step m e =
     (if m (path e) \<noteq> None then m
      else m(path e \<mapsto> (if deletes e then [] else case blob e of None \<Rightarrow> [] | Some b \<Rightarrow> b)))"

definition headBlob :: "HEntry list \<Rightarrow> jstr \<rightharpoonup> jstr" where
  "headBlob es = foldl head_step Map.empty es"

definition restoreSha :: "HEntry list \<Rightarrow> nat \<Rightarrow> jstr option" where
  "restoreSha es i =
     (let sha = (if deletes (es ! i) then prevBlob es i else blob (es ! i))
      in if truthy sha \<and> sha = headBlob es (path (es ! i)) then None else sha)"

definition recreates :: "HEntry list \<Rightarrow> nat \<Rightarrow> bool" where
  "recreates es i \<longleftrightarrow> headBlob es (path (es ! i)) = Some []"

definition restorePrev :: "HEntry list \<Rightarrow> nat \<Rightarrow> jstr option" where
  "restorePrev es i =
     (let sha = prevBlob es i in if truthy sha \<and> sha \<noteq> headBlob es (path (es ! i)) then sha else None)"

lemma foldl_head_step: "foldl head_step m es q = (case m q of Some b \<Rightarrow> Some b | None \<Rightarrow> headBlob es q)"
proof (induction es arbitrary: m)
  case Nil
  then show ?case by (auto simp: headBlob_def split: option.split)
next
  case (Cons e es)
  have "headBlob (e # es) q = foldl head_step (head_step Map.empty e) es q" by (simp add: headBlob_def)
  also have "\<dots> = (case head_step Map.empty e q of Some b \<Rightarrow> Some b | None \<Rightarrow> headBlob es q)" by (rule Cons)
  finally have h: "headBlob (e # es) q = \<dots>" .
  have f: "foldl head_step m (e # es) q = (case head_step m e q of Some b \<Rightarrow> Some b | None \<Rightarrow> headBlob es q)"
    using Cons [of "head_step m e"] by simp
  show ?case unfolding h f by (auto simp: head_step_def split: option.split)
qed

lemma headBlob_Cons:
  "headBlob (e # es) q = (if q = path e then Some (if deletes e then [] else case blob e of None \<Rightarrow> [] | Some b \<Rightarrow> b) else headBlob es q)"
proof -
  have "headBlob (e # es) q = foldl head_step (head_step Map.empty e) es q" by (simp add: headBlob_def)
  then show ?thesis by (simp add: foldl_head_step head_step_def)
qed

text \<open>The specification: the files of a project after its changes, replayed from the first one.\<close>

definition apply_change :: "HEntry \<Rightarrow> (jstr \<rightharpoonup> jstr) \<Rightarrow> (jstr \<rightharpoonup> jstr)" where
  "apply_change e fs = fs(path e := (if deletes e then None else blob e))"

definition replay :: "HEntry list \<Rightarrow> jstr \<rightharpoonup> jstr" where
  "replay es = foldr apply_change es Map.empty"

text \<open>The content a path last had, a delete since then or not.\<close>

fun last_content :: "HEntry list \<Rightarrow> jstr \<Rightarrow> jstr option" where
  "last_content [] q = None"
| "last_content (e # es) q = (if path e = q \<and> \<not> deletes e then blob e else last_content es q)"

text \<open>What the hub promises (history.go, \<open>HistoryEntry\<close>; histindex.go, \<open>buildHistIndex\<close>): a change that
  leaves content names it, and adds where the path was gone; \<open>prev\<close> is the content the path last had
  before the change, across a delete too, and is absent where there was none and on a delete of a
  path already gone.\<close>

fun hub_feed :: "HEntry list \<Rightarrow> bool" where
  "hub_feed [] = True"
| "hub_feed (e # es) = ((deletes e \<or> truthy (blob e) \<and> ckind e = (if replay es (path e) = None then js ''add'' else js ''edit''))
     \<and> prev e = (if deletes e \<and> replay es (path e) = None then None else last_content es (path e)) \<and> hub_feed es)"

lemma replay_Cons: "replay (e # es) q = (if q = path e then (if deletes e then None else blob e) else replay es q)"
  by (simp add: replay_def apply_change_def)

lemma replay_truthy: "hub_feed es \<Longrightarrow> replay es q \<noteq> Some []"
  by (induction es) (auto simp: replay_def apply_change_def truthy_def)

lemma replay_last: "replay es q = Some b \<Longrightarrow> last_content es q = Some b"
  by (induction es) (auto simp: replay_Cons replay_def [of "[]"] split: if_splits)

lemma last_truthy: "hub_feed es \<Longrightarrow> last_content es q \<noteq> Some []"
  by (induction es) (auto simp: truthy_def)

lemma last_none: "hub_feed es \<Longrightarrow> last_content es q = None \<Longrightarrow> e \<in> set es \<Longrightarrow> path e = q \<Longrightarrow> deletes e"
  by (induction es) (auto simp: truthy_def split: if_splits)

lemma headBlob_replay:
  "hub_feed hist \<Longrightarrow> q \<in> path ` set (take n hist) \<Longrightarrow> headBlob (take n hist) q = Some (case replay hist q of None \<Rightarrow> [] | Some b \<Rightarrow> b)"
proof (induction hist arbitrary: n)
  case (Cons e es)
  obtain k where n: "n = Suc k" using Cons.prems(2) by (cases n) auto
  show ?case
  proof (cases "q = path e")
    case True
    then show ?thesis by (simp add: n headBlob_Cons replay_Cons)
  next
    case False
    then have "q \<in> path ` set (take k es)" using Cons.prems(2) n by auto
    with False Cons.IH Cons.prems(1) show ?thesis by (simp add: n headBlob_Cons replay_Cons)
  qed
qed simp

text \<open>The content a row stands for: what its change left, or what its delete removed.\<close>

definition row_content :: "HEntry list \<Rightarrow> nat \<Rightarrow> jstr option" where
  "row_content hist i = (if deletes (hist ! i) then replay (drop (i + 1) hist) (path (hist ! i)) else replay (drop i hist) (path (hist ! i)))"

text \<open>The content before a row's change: what a delete removed, and what any other change replaced.\<close>

definition row_before :: "HEntry list \<Rightarrow> nat \<Rightarrow> jstr option" where
  "row_before hist i =
     (if deletes (hist ! i) then replay (drop (i + 1) hist) (path (hist ! i)) else last_content (drop (i + 1) hist) (path (hist ! i)))"

lemma hub_feed_drop: "hub_feed hist \<Longrightarrow> hub_feed (drop i hist)"
  by (induction hist arbitrary: i) (auto simp: drop_Cons split: nat.split)

lemma hub_feed_at:
  assumes "hub_feed hist" "i < length hist"
  shows "deletes (hist ! i) \<or> truthy (blob (hist ! i))" "prev (hist ! i) = row_before hist i"
    "truthy (prev (hist ! i)) \<longleftrightarrow> prev (hist ! i) \<noteq> None"
proof -
  have f: "hub_feed (hist ! i # drop (i + 1) hist)"
    using hub_feed_drop [OF assms(1), of i] assms(2) by (simp add: Cons_nth_drop_Suc)
  then show "deletes (hist ! i) \<or> truthy (blob (hist ! i))" by auto
  show p: "prev (hist ! i) = row_before hist i"
  proof (cases "replay (drop (i + 1) hist) (path (hist ! i))")
    case None
    then show ?thesis using f by (auto simp: row_before_def)
  next
    case (Some b)
    then show ?thesis using f replay_last [OF Some] by (auto simp: row_before_def)
  qed
  have d: "hub_feed (drop (i + 1) hist)" by (rule hub_feed_drop [OF assms(1)])
  have "row_before hist i \<noteq> Some []"
    using replay_truthy [OF d] last_truthy [OF d] by (simp add: row_before_def)
  then show "truthy (prev (hist ! i)) \<longleftrightarrow> prev (hist ! i) \<noteq> None" unfolding p by (auto simp: truthy_def)
qed

lemma row_content_alt:
  assumes "hub_feed hist" "i < length hist"
  shows "row_content hist i = (if deletes (hist ! i) then prev (hist ! i) else blob (hist ! i))"
  using hub_feed_at [OF assms] assms(2)
  by (simp add: row_content_def row_before_def Cons_nth_drop_Suc [symmetric] replay_Cons del: drop_Suc_Cons)

lemma prevBlob_at:
  assumes "hub_feed hist" "i < n" "n \<le> length hist"
  shows "prevBlob (take n hist) i = row_before hist i"
proof -
  have i: "i < length hist" using assms(2,3) by simp
  note at = hub_feed_at [OF assms(1) i]
  show ?thesis
  proof (cases "deletes (hist ! i) \<or> prev (hist ! i) \<noteq> None")
    case True
    then show ?thesis using at(2,3) assms(2) by (auto simp: prevBlob_def)
  next
    case False
    then have "\<not> deletes (hist ! i)" "row_before hist i = None" using at(2) by simp_all
    then have l: "last_content (drop (i + 1) hist) (path (hist ! i)) = None" by (simp add: row_before_def)
    have "find (\<lambda>e. path e = path (hist ! i) \<and> \<not> deletes e) (drop (i + 1) (take n hist)) = None"
      using last_none [OF hub_feed_drop [OF assms(1)] l] by (auto simp: find_None_iff drop_take dest: in_set_takeD)
    then show ?thesis using False at(2) assms(2) by (simp add: prevBlob_def truthy_def)
  qed
qed

lemma head_at:
  assumes "hub_feed hist" "i < n" "n \<le> length hist"
  shows "headBlob (take n hist) (path (hist ! i)) = Some (case replay hist (path (hist ! i)) of None \<Rightarrow> [] | Some b \<Rightarrow> b)"
proof (rule headBlob_replay [OF assms(1)])
  have "take n hist ! i \<in> set (take n hist)" using assms by (intro nth_mem) simp
  then show "path (hist ! i) \<in> path ` set (take n hist)" using assms by simp
qed

text \<open>C11: In an unfiltered feed that comes in the order of the journal, however few of its pages are loaded,
  a row offers to restore exactly the content it stands for when the project holds something else at
  its path now, and nothing otherwise; the prompt says the file is brought back exactly when the
  project no longer has it; and the panel offers the content before the change, the one a new file of
  an old name replaces included, under the same condition.\<close>

theorem restore_offers_change:
  assumes "hub_feed hist" "i < n" "n \<le> length hist"
  shows "restoreSha (take n hist) i = (if row_content hist i = replay hist (path (hist ! i)) then None else row_content hist i)
    \<and> recreates (take n hist) i = (replay hist (path (hist ! i)) = None)
    \<and> restorePrev (take n hist) i = (if row_before hist i = replay hist (path (hist ! i)) then None else row_before hist i)"
proof -
  have i: "i < length hist" using assms(2,3) by simp
  note at = hub_feed_at [OF assms(1) i] and h = head_at [OF assms] and c = row_content_alt [OF assms(1) i]
    and p = prevBlob_at [OF assms]
  have r: "replay hist (path (hist ! i)) \<noteq> Some []" by (rule replay_truthy [OF assms(1)])
  have b: "truthy (row_before hist i) \<longleftrightarrow> row_before hist i \<noteq> None" using at(2,3) by simp
  have "restoreSha (take n hist) i = (if row_content hist i = replay hist (path (hist ! i)) then None else row_content hist i)"
    using p at r assms(2) unfolding restoreSha_def c h Let_def
    by (cases "replay hist (path (hist ! i))") (auto simp: h truthy_def)
  moreover have "recreates (take n hist) i = (replay hist (path (hist ! i)) = None)"
    using r assms(2) by (auto simp: recreates_def h split: option.splits)
  moreover have "restorePrev (take n hist) i = (if row_before hist i = replay hist (path (hist ! i)) then None else row_before hist i)"
    using p b assms(2) r unfolding restorePrev_def Let_def
    by (cases "replay hist (path (hist ! i))"; cases "row_before hist i") (auto simp: h truthy_def)
  ultimately show ?thesis by blast
qed

definition w_entry :: "string \<Rightarrow> string \<Rightarrow> string \<Rightarrow> string \<Rightarrow> HEntry" where
  "w_entry k p b pr =
     \<lparr>path = js p, enote = None, session = None, device_id = js ''d'', ctime = js ''t'', ckind = js k, device_name = [], cuser = None, seq = 0,
      blob = (if b = '''' then None else Some (js b)), prev = (if pr = '''' then None else Some (js pr)), hsize = None,
      huser_name = None, hauthor = None, hos = None\<rparr>"

definition w_feed :: "HEntry list" where
  "w_feed = [w_entry ''delete'' ''a'' '''' ''B'', w_entry ''edit'' ''a'' ''B'' ''A'', w_entry ''add'' ''a'' ''A'' '''']"

text \<open>A file written twice, deleted and written anew: the new one names what was there before the delete.\<close>

definition w_readd :: "HEntry list" where
  "w_readd = w_entry ''add'' ''a'' ''C'' ''B'' # w_feed"

lemma restore_offers_change_witness:
  "restoreSha (take 2 w_readd) 1 = Some (js ''B'') \<and> \<not> recreates (take 2 w_readd) 1
     \<and> restorePrev (take 2 w_readd) 0 = Some (js ''B'') \<and> restoreSha (take 2 w_readd) 0 = None"
proof -
  have h: "hub_feed w_readd" by code_simp
  have l: "(0 :: nat) < 2" "(1 :: nat) < 2" "2 \<le> length w_readd" by (simp_all add: w_readd_def w_feed_def)
  have e: "row_content w_readd 0 = Some (js ''C'')" "row_before w_readd 0 = Some (js ''B'')"
    "replay w_readd (path (w_readd ! 0)) = Some (js ''C'')" "js ''B'' \<noteq> js ''C''"
    "row_content w_readd 1 = Some (js ''B'')" "replay w_readd (path (w_readd ! 1)) = Some (js ''C'')" by code_simp+
  show ?thesis using restore_offers_change [OF h l(1,3)] restore_offers_change [OF h l(2,3)] by (simp only: e simp_thms if_False if_True option.simps)
qed

text \<open>In a feed filtered by the hub the window is not a prefix of the history: the newest change that
  passes the filter is taken for the file's content. A row whose content the project no longer has then
  offers no restore.\<close>

lemma filtered_feed_hides_restore:
  "hub_feed w_feed \<and> restoreSha (filter (\<lambda>e. \<not> deletes e) w_feed) 0 = None
   \<and> \<not> recreates (filter (\<lambda>e. \<not> deletes e) w_feed) 0
   \<and> row_content w_feed 1 = Some (js ''B'') \<and> replay w_feed (js ''a'') = None"
  by code_simp

subsection \<open>Moving through the feed with the keys\<close>

definition items_of_feed :: "HEntry list \<Rightarrow> Item list" where
  "items_of_feed es = groupRuns (map HistoryEntry.truncate es)"

definition row_order :: "HEntry list \<Rightarrow> nat list" where
  "row_order es = concat (map item_entries (items_of_feed es))"

record KeyPress =
  pressed :: jstr
  modified :: bool
  taken :: bool
  in_field :: bool

definition row_index :: "nat list \<Rightarrow> nat option \<Rightarrow> int" where
  "row_index order sel =
     (case sel of None \<Rightarrow> -1 | Some x \<Rightarrow> if x \<in> set order then int (length (takeWhile (\<lambda>y. y \<noteq> x) order)) else -1)"

text \<open>The selection after a key, and whether its default was prevented.\<close>

definition on_key :: "nat list \<Rightarrow> nat option \<Rightarrow> KeyPress \<Rightarrow> nat option \<times> bool" where
  "on_key order sel ev =
     (if modified ev \<or> taken ev then (sel, False)
      else if in_field ev then (sel, False)
      else if pressed ev = js ''Escape'' \<and> sel \<noteq> None then (None, False)
      else if pressed ev \<noteq> js ''j'' \<and> pressed ev \<noteq> js ''k'' then (sel, False)
      else if order = [] then (sel, False)
      else let i = row_index order sel;
               nxt = (if pressed ev = js ''j'' then min (int (length order) - 1) (i + 1)
                      else max 0 (if i = -1 then 0 else i - 1))
           in (Some (order ! nat nxt), True))"

text \<open>The panel's own arrows.\<close>

definition panel_prev :: "nat list \<Rightarrow> nat option \<Rightarrow> nat option" where
  "panel_prev order sel = (let i = row_index order sel in if i > 0 then Some (order ! nat (i - 1)) else None)"

definition panel_next :: "nat list \<Rightarrow> nat option \<Rightarrow> nat option" where
  "panel_next order sel = (let i = row_index order sel in if i < int (length order) - 1 then Some (order ! nat (i + 1)) else None)"

lemma count_one_distinct: "(\<And>x. count_list xs x \<le> 1) \<Longrightarrow> distinct xs"
proof (induction xs)
  case (Cons y ys)
  have "count_list ys x \<le> 1" for x using Cons.prems [of x] by (simp split: if_splits)
  moreover have "y \<notin> set ys" using Cons.prems [of y] count_list_0_iff [of ys y] by simp
  ultimately show ?case using Cons.IH by simp
qed simp

lemma row_order_set: "set (row_order es) \<supseteq> {..< length es}"
proof
  fix i assume "i \<in> {..< length es}"
  then have "count_list (row_order es) i = 1"
    unfolding row_order_def items_of_feed_def by (intro groupRuns_once) simp
  then show "i \<in> set (row_order es)" using count_notin by fastforce
qed

lemma row_index_nth: "distinct order \<Longrightarrow> k < length order \<Longrightarrow> row_index order (Some (order ! k)) = int k"
proof (induction order arbitrary: k)
  case (Cons a order)
  show ?case
  proof (cases k)
    case (Suc j)
    have m: "order ! j \<in> set order" using Cons.prems(2) Suc by (intro nth_mem) simp
    have "row_index order (Some (order ! j)) = int j" using Cons.IH [of j] Cons.prems Suc by simp
    moreover have "a \<noteq> order ! j" using m Cons.prems(1) by auto
    ultimately show ?thesis using m Suc by (simp add: row_index_def)
  qed (simp add: row_index_def)
qed simp

lemma card_rows:
  assumes "Card rn i \<in> set (groupRuns es)" "x \<in> set (idx rn)"
  shows "x < length es"
proof -
  from assms(1) obtain j where j: "j < length es" "carded_run es j" "rn = the (map_of (collect es) (key (es ! j)))"
    by (auto simp: groupRuns_items items_of_def split: if_splits)
  then obtain q where "map_of (collect es) (key (es ! j)) = Some q" by (auto simp: carded_run_def split: option.splits)
  with j(3) collect_ok [of es "key (es ! j)"] have "idx rn = members es (key (es ! j))" by (auto simp: run_ok_def)
  with assms(2) show ?thesis by (auto simp: members_def)
qed

lemma bare_rows: "Bare i \<in> set (groupRuns es) \<Longrightarrow> i < length es"
  by (auto simp: groupRuns_items items_of_def split: if_splits)

lemma row_order_bounds: "set (row_order es) \<subseteq> {..< length es}"
proof
  fix x assume "x \<in> set (row_order es)"
  then obtain it where it: "it \<in> set (groupRuns (map HistoryEntry.truncate es))" "x \<in> set (item_entries it)"
    by (auto simp: row_order_def items_of_feed_def)
  have "x < length (map HistoryEntry.truncate es)"
  proof (cases it)
    case (Bare i)
    then show ?thesis using it bare_rows [of i "map HistoryEntry.truncate es"] by simp
  next
    case (Card rn i)
    then show ?thesis using it card_rows [of rn i "map HistoryEntry.truncate es" x] by simp
  qed
  then show "x \<in> {..< length es}" by simp
qed

lemma row_order_distinct: "distinct (row_order es)"
proof (rule count_one_distinct)
  fix x
  show "count_list (row_order es) x \<le> 1"
  proof (cases "x < length es")
    case True
    then have "count_list (row_order es) x = 1"
      unfolding row_order_def items_of_feed_def by (intro groupRuns_once) simp
    then show ?thesis by simp
  next
    case False
    then have "x \<notin> set (row_order es)" using row_order_bounds by fastforce
    then show ?thesis by simp
  qed
qed

lemma row_order_perm: "distinct (row_order es) \<and> set (row_order es) = {..< length es} \<and> length (row_order es) = length es"
proof -
  have s: "set (row_order es) = {..< length es}" using row_order_set row_order_bounds by blast
  with row_order_distinct [of es] have "length (row_order es) = card {..< length es}" by (metis distinct_card)
  with s row_order_distinct show ?thesis by simp
qed

definition press :: "jstr \<Rightarrow> KeyPress" where
  "press k = \<lparr>pressed = k, modified = False, taken = False, in_field = False\<rparr>"

definition step_down :: "nat list \<Rightarrow> nat option \<Rightarrow> nat option" where
  "step_down order sel = fst (on_key order sel (press (js ''j'')))"

definition step_up :: "nat list \<Rightarrow> nat option \<Rightarrow> nat option" where
  "step_up order sel = fst (on_key order sel (press (js ''k'')))"

lemma step_down_at:
  assumes "distinct order" "k < length order"
  shows "step_down order (Some (order ! k)) = Some (order ! min (length order - 1) (k + 1))"
proof -
  have n: "nat (min (int (length order) - 1) (int k + 1)) = min (length order - 1) (k + 1)" using assms(2) by linarith
  have "order \<noteq> []" using assms(2) by auto
  then show ?thesis by (simp add: step_down_def on_key_def press_def row_index_nth [OF assms] js_def n [simplified])
qed

lemma step_up_at:
  assumes "distinct order" "k < length order"
  shows "step_up order (Some (order ! k)) = Some (order ! (k - 1))"
proof -
  have n: "nat (max 0 (int k - 1)) = k - 1" by simp
  have "order \<noteq> []" using assms(2) by auto
  then show ?thesis by (simp add: step_up_def on_key_def press_def row_index_nth [OF assms] js_def n)
qed

lemma step_down_none: "order \<noteq> [] \<Longrightarrow> step_down order None = Some (order ! 0)"
  by (cases order) (simp_all add: step_down_def on_key_def press_def row_index_def js_def)

lemma down_to:
  assumes "distinct order" "k < length order"
  shows "(step_down order ^^ Suc k) None = Some (order ! k)"
  using assms(2)
proof (induction k)
  case 0
  then show ?case using step_down_none [of order] by auto
next
  case (Suc k)
  then have "(step_down order ^^ Suc (Suc k)) None = step_down order (Some (order ! k))" by simp
  then show ?case using step_down_at [OF assms(1), of k] Suc.prems by (simp add: min_absorb2)
qed

text \<open>The keys reach every change. From nothing selected, pressing J as many times as there are rows
  before it selects any given entry of the loaded feed, whether it stands alone or in a run's card, in at
  most as many presses as there are entries, and K from the row after it comes back to it.\<close>

theorem jk_reaches_every_row:
  assumes "i < length es"
  shows "\<exists>k < length es. (step_down (row_order es) ^^ Suc k) None = Some i \<and>
    step_up (row_order es) (step_down (row_order es) (Some i)) = (if Suc k < length es then Some i else Some (row_order es ! (k - 1)))"
proof -
  note perm = row_order_perm [of es]
  then obtain k where k: "k < length es" "row_order es ! k = i"
    using assms by (metis in_set_conv_nth lessThan_iff)
  have d: "distinct (row_order es)" and l: "k < length (row_order es)" using perm k by auto
  have down: "(step_down (row_order es) ^^ Suc k) None = Some i" using down_to [OF d l] k(2) by simp
  have "step_up (row_order es) (step_down (row_order es) (Some i)) = (if Suc k < length es then Some i else Some (row_order es ! (k - 1)))"
  proof (cases "Suc k < length es")
    case True
    then have "step_down (row_order es) (Some i) = Some (row_order es ! Suc k)"
      using step_down_at [OF d l] perm k(2) by (simp add: min_absorb2)
    then show ?thesis using True step_up_at [OF d, of "Suc k"] perm k(2) by simp
  next
    case False
    with k(1) have "min (length (row_order es) - 1) (k + 1) = k" using perm by simp
    then have "step_down (row_order es) (Some i) = Some i" using step_down_at [OF d l] k(2) by simp
    then show ?thesis using False step_up_at [OF d l] k(2) by simp
  qed
  with k(1) down show ?thesis by blast
qed

lemma jk_reaches_every_row_witness:
  "\<exists>k < 3. (step_down (row_order w_feed) ^^ Suc k) None = Some 2"
proof -
  have l: "length w_feed = 3" by (simp add: w_feed_def)
  then have "(2 :: nat) < length w_feed" by simp
  from jk_reaches_every_row [OF this] l show ?thesis by auto
qed

subsection \<open>Day heads\<close>

definition entry_day :: "Zone \<Rightarrow> (jstr \<Rightarrow> int option) \<Rightarrow> HEntry \<Rightarrow> jstr" where
  "entry_day z pd e = localDay z (parsed pd (ctime e))"

definition count_day :: "(jstr \<rightharpoonup> nat) \<Rightarrow> jstr \<Rightarrow> (jstr \<rightharpoonup> nat)" where
  "count_day m d = m(d \<mapsto> (case m d of None \<Rightarrow> 0 | Some n \<Rightarrow> n) + 1)"

definition dayCount :: "(HEntry \<Rightarrow> jstr) \<Rightarrow> HEntry list \<Rightarrow> jstr \<rightharpoonup> nat" where
  "dayCount day es = foldl count_day Map.empty (map day es)"

fun item_at :: "Item \<Rightarrow> nat" where
  "item_at (Bare i) = i"
| "item_at (Card rn i) = i"

text \<open>The head of a day's first item: the day, its count, and whether more of it may still be to come.\<close>

record DayHead =
  hd_day :: jstr
  hd_count :: "nat option"
  hd_more :: bool

definition day_head :: "(HEntry \<Rightarrow> jstr) \<Rightarrow> HEntry list \<Rightarrow> bool \<Rightarrow> jstr \<Rightarrow> DayHead" where
  "day_head day es hasNext d =
     \<lparr>hd_day = d, hd_count = dayCount day es d, hd_more = (hasNext \<and> d = day (es ! (length es - 1)))\<rparr>"

fun feed_rows :: "(HEntry \<Rightarrow> jstr) \<Rightarrow> HEntry list \<Rightarrow> bool \<Rightarrow> Item list \<Rightarrow> jstr \<Rightarrow> (DayHead option \<times> Item) list" where
  "feed_rows day es hasNext [] lastDay = []"
| "feed_rows day es hasNext (it # its) lastDay =
     (let d = day (es ! item_at it)
      in ((if d \<noteq> lastDay then Some (day_head day es hasNext d) else None), it) # feed_rows day es hasNext its d)"

definition head_text :: "(jstr \<Rightarrow> jstr) \<Rightarrow> DayHead \<Rightarrow> jstr \<times> jstr" where
  "head_text lbl h =
     (let n = (case hd_count h of None \<Rightarrow> js ''undefined'' | Some n \<Rightarrow> nat_str n)
      in (lbl (hd_day h), [183] @ js '' '' @ n @ js '' change'' @ (if hd_count h = Some 1 then [] else js ''s'') @ (if hd_more h then js ''+'' else [])))"

lemma dayCount_count: "dayCount day es d = (let n = count_list (map day es) d in if n = 0 then None else Some n)"
proof -
  have "foldl count_day m ds d = (case m d of None \<Rightarrow> (let n = count_list ds d in if n = 0 then None else Some n) | Some k \<Rightarrow> Some (k + count_list ds d))" for m ds
    by (induction ds arbitrary: m) (auto simp: count_day_def Let_def split: option.splits)
  from this [of Map.empty "map day es"] show ?thesis by (simp add: dayCount_def)
qed

end
