(* ===== verification/HistoryRows.thy ===== *)
theory HistoryRows
  imports HistoryFeed TextDiff
begin

section \<open>Filters, totals, run cards, rows and diffs of the history view\<close>

text \<open>
  The filter bar (HistoryFilters.tsx) with its delayed path box, the totals and the panel beside the
  feed (HistoryView.tsx), the rows (HistoryRow.tsx) and the three ways to read a change (DiffView.tsx).
  An action the page does not offer is \<open>None\<close>, an offered one carries what is in flight. Date and
  number formatting of the platform is an argument.
\<close>

subsection \<open>The filter bar\<close>

definition filters_or_none :: "HistoryFilters option \<Rightarrow> HistoryFilters" where
  "filters_or_none f = (case f of None \<Rightarrow> no_filters | Some g \<Rightarrow> g)"

text \<open>\<open>set\<close>: patch the filters and drop those left empty.\<close>

definition set_filters :: "HistoryFilters option \<Rightarrow> (HistoryFilters \<Rightarrow> HistoryFilters) \<Rightarrow> HistoryFilters" where
  "set_filters f patch = norm_filters (patch (filters_or_none f))"

definition q_text :: "HistoryFilters option \<Rightarrow> jstr" where
  "q_text f = (case f_q (filters_or_none f) of None \<Rightarrow> [] | Some q \<Rightarrow> q)"

text \<open>The bar: the filters of the URL, the path box, and the timer with the filters of the render that
  started it.\<close>

record Bar =
  cur :: "HistoryFilters option"
  box :: jstr
  typed :: bool
  armed :: "HistoryFilters option option"

definition new_bar :: "HistoryFilters option \<Rightarrow> Bar" where
  "new_bar f = \<lparr>cur = f, box = q_text f, typed = False, armed = None\<rparr>"

definition type_box :: "Bar \<Rightarrow> jstr \<Rightarrow> Bar" where
  "type_box b v = (if v = box b then b\<lparr>typed := True\<rparr> else b\<lparr>typed := True, box := v, armed := Some (cur b)\<rparr>)"

text \<open>The page renders the bar with other filters: the box follows unless it is being typed in, and a box
  that changes stops the timer.\<close>

definition render_bar :: "HistoryFilters option \<Rightarrow> Bar \<Rightarrow> Bar" where
  "render_bar f b =
     (let b' = b\<lparr>cur := f\<rparr>
      in if f_q (filters_or_none f) = f_q (filters_or_none (cur b)) \<or> typed b then b'
         else if q_text f = box b then b' else b'\<lparr>box := q_text f, armed := None\<rparr>)"

definition bar_set :: "(HistoryFilters \<Rightarrow> HistoryFilters) \<Rightarrow> Bar \<Rightarrow> Bar" where
  "bar_set patch b = render_bar (Some (set_filters (cur b) patch)) b"

definition bar_clear :: "Bar \<Rightarrow> Bar" where
  "bar_clear b = render_bar (Some no_filters) b"

definition bar_fire :: "Bar \<Rightarrow> Bar" where
  "bar_fire b =
     (case armed b of
        None \<Rightarrow> b
      | Some f \<Rightarrow>
          let b' = b\<lparr>typed := False, armed := None\<rparr>
          in if box b \<noteq> q_text f then render_bar (Some (set_filters f (\<lambda>g. g\<lparr>f_q := Some (box b)\<rparr>))) b' else b')"

lemma norm_norm [simp]: "norm_filters (norm_filters f) = norm_filters f"
  by (simp add: norm_filters_def Let_def)

lemma type_box_new: "v \<noteq> box b \<Longrightarrow> type_box b v = b\<lparr>typed := True, box := v, armed := Some (cur b)\<rparr>"
  by (simp add: type_box_def)

lemma typed_boxes:
  "distinct_adj (box b # vs) \<Longrightarrow> vs \<noteq> [] \<Longrightarrow>
     foldl type_box b vs = b\<lparr>typed := True, box := last vs, armed := Some (cur b)\<rparr>"
proof (induction vs arbitrary: b)
  case (Cons v vs)
  have v: "v \<noteq> box b" "distinct_adj (v # vs)" using Cons.prems by (auto simp: distinct_adj_Cons_Cons)
  show ?case
  proof (cases "vs = []")
    case False
    then show ?thesis using Cons.IH [of "type_box b v"] v by (simp add: type_box_new)
  qed (simp add: type_box_new v(1))
qed simp

text \<open>Typing in the path box and pausing, with no other control touched meanwhile, navigates at most
  once: to the filters as they were with the path set to the text that was last typed, or without a path
  when the box was emptied; and it leaves the box as it was typed, no longer ahead of the address.\<close>

theorem pause_applies_box:
  assumes "distinct_adj (q_text f # vs)" "vs \<noteq> []" "norm_filters (filters_or_none f) = filters_or_none f"
  shows "let b = bar_fire (foldl type_box (new_bar f) vs)
    in filters_or_none (cur b) = norm_filters ((filters_or_none f)\<lparr>f_q := Some (last vs)\<rparr>)
       \<and> box b = last vs \<and> q_text (cur b) = last vs \<and> \<not> typed b \<and> armed b = None"
proof -
  define g where "g = filters_or_none f"
  have t: "foldl type_box (new_bar f) vs = (new_bar f)\<lparr>typed := True, box := last vs, armed := Some f\<rparr>"
    using typed_boxes [of "new_bar f" vs] assms(1,2) by (simp add: new_bar_def)
  have q: "(case f_q (norm_filters (g\<lparr>f_q := Some (last vs)\<rparr>)) of None \<Rightarrow> [] | Some q \<Rightarrow> q) = last vs"
    by (auto simp: norm_filters_def Let_def truthy_def)
  show ?thesis
  proof (cases "last vs = q_text f")
    case True
    have "norm_filters (g\<lparr>f_q := Some (last vs)\<rparr>) = norm_filters g"
      using True by (auto simp: norm_filters_def Let_def truthy_def q_text_def g_def split: option.splits)
    then show ?thesis unfolding t using True assms(3) by (simp add: bar_fire_def new_bar_def g_def)
  next
    case False
    then show ?thesis unfolding t using q
      by (auto simp: bar_fire_def new_bar_def render_bar_def set_filters_def q_text_def g_def [symmetric] Let_def)
        (auto simp: filters_or_none_def)
  qed
qed

definition w_filters :: HistoryFilters where
  "w_filters = no_filters\<lparr>f_actor := Some (js ''agent'')\<rparr>"

lemma pause_applies_box_witness:
  "q_text (cur (bar_fire (foldl type_box (new_bar (Some w_filters)) [js ''a'', js ''ab'']))) = js ''ab''"
proof -
  have "distinct_adj (q_text (Some w_filters) # [js ''a'', js ''ab''])" "[js ''a'', js ''ab''] \<noteq> []"
    "norm_filters (filters_or_none (Some w_filters)) = filters_or_none (Some w_filters)" by code_simp+
  from pause_applies_box [OF this] show ?thesis by (simp add: Let_def)
qed

text \<open>The timer keeps the filters of the render that started it: another control used within its 250 ms is
  undone when it fires, and so is Clear.\<close>

lemma stale_timer_undoes_filter:
  "cur (bar_fire (bar_set (\<lambda>g. g\<lparr>f_actor := Some (js ''agent'')\<rparr>) (type_box (new_bar None) (js ''a'')))) = Some (no_filters\<lparr>f_q := Some (js ''a'')\<rparr>)
   \<and> cur (bar_fire (bar_clear (type_box (new_bar (Some w_filters)) (js ''a'')))) = Some (w_filters\<lparr>f_q := Some (js ''a'')\<rparr>)"
  by code_simp

definition SEGMENTS :: "(jstr \<times> jstr) list" where
  "SEGMENTS = [([], js ''Everyone''), (js ''agent'', js ''Agents''), (js ''human'', js ''People'')]"

definition custom_dates :: "bool \<Rightarrow> HistoryFilters option \<Rightarrow> bool" where
  "custom_dates customOpen f \<longleftrightarrow> customOpen \<or> truthy (f_since (filters_or_none f)) \<or> truthy (f_until (filters_or_none f))"

definition range_value :: "bool \<Rightarrow> HistoryFilters option \<Rightarrow> jstr" where
  "range_value customOpen f =
     (case f_range (filters_or_none f) of Some v \<Rightarrow> v | None \<Rightarrow> if custom_dates customOpen f then js ''custom'' else [])"

definition author_options :: "HistoryFilters option \<Rightarrow> jstr list \<Rightarrow> jstr list" where
  "author_options f authors =
     (let u = f_user (filters_or_none f) in if truthy u \<and> the u \<notin> set authors then the u # authors else authors)"

definition dev_options :: "HistoryFilters option \<Rightarrow> (jstr \<times> jstr) list \<Rightarrow> (jstr \<times> jstr) list" where
  "dev_options f ds =
     (let d = f_device (filters_or_none f) in if truthy d \<and> the d \<notin> fst ` set ds then (the d, the d) # ds else ds)"

definition who_value :: "HistoryFilters option \<Rightarrow> jstr" where
  "who_value f =
     (let g = filters_or_none f
      in if truthy (f_device g) then js ''d:'' @ the (f_device g) else if truthy (f_user g) then js ''u:'' @ the (f_user g) else [])"

definition pick_who :: "jstr \<Rightarrow> HistoryFilters \<Rightarrow> HistoryFilters" where
  "pick_who v g =
     g\<lparr>f_device := (if starts_with v (js ''d:'') then Some (drop 2 v) else None),
       f_user := (if starts_with v (js ''u:'') then Some (drop 2 v) else None)\<rparr>"

text \<open>The date control: the custom mode, and the patch it makes, if any.\<close>

definition pick_range :: "jstr \<Rightarrow> HistoryFilters option \<Rightarrow> bool \<times> (HistoryFilters \<Rightarrow> HistoryFilters) option" where
  "pick_range v f =
     (if v = js ''custom'' then (True, if truthy (f_range (filters_or_none f)) then Some (\<lambda>g. g\<lparr>f_range := None\<rparr>) else None)
      else (False, Some (\<lambda>g. g\<lparr>f_range := Some v, f_since := None, f_until := None\<rparr>)))"

definition pick_since :: "jstr \<Rightarrow> HistoryFilters \<Rightarrow> HistoryFilters" where
  "pick_since v g = g\<lparr>f_since := Some v, f_range := None\<rparr>"

definition pick_until :: "jstr \<Rightarrow> HistoryFilters \<Rightarrow> HistoryFilters" where
  "pick_until v g = g\<lparr>f_until := Some v, f_range := None\<rparr>"

text \<open>What the control of people and devices shows after a choice is the choice.\<close>

lemma who_shown: "v = [] \<or> (\<exists>x. x \<noteq> [] \<and> (v = js ''d:'' @ x \<or> v = js ''u:'' @ x)) \<Longrightarrow> who_value (Some (set_filters f (pick_who v))) = v"
  by (auto simp: who_value_def set_filters_def pick_who_def norm_filters_def filters_or_none_def Let_def js_def truthy_def starts_with_def)

text \<open>A chip is its label and the filters without it; a label looked up on the prototype of the table is
  not a text.\<close>

type_synonym chip = "jstr option \<times> HistoryFilters"

definition chip_if :: "bool \<Rightarrow> jstr option \<Rightarrow> HistoryFilters \<Rightarrow> chip list" where
  "chip_if on l rest = (if on then [(l, rest)] else [])"

definition range_chip :: "jstr option \<Rightarrow> jstr option" where
  "range_chip v = (case look_up RANGE_LABEL (str_or v []) of Own l \<Rightarrow> Some l | Inherited \<Rightarrow> None | Missing \<Rightarrow> v)"

definition chips_of :: "HistoryFilters \<Rightarrow> (jstr \<times> jstr) list \<Rightarrow> chip list" where
  "chips_of f ds =
     chip_if (truthy (f_q f)) (Some (js ''path: '' @ str_or (f_q f) [])) (f\<lparr>f_q := None\<rparr>)
     @ chip_if (truthy (f_actor f)) (Some (if f_actor f = Some (js ''agent'') then js ''Agents'' else js ''People'')) (f\<lparr>f_actor := None\<rparr>)
     @ chip_if (truthy (f_device f)) (case map_of ds (str_or (f_device f) []) of Some (u # us) \<Rightarrow> Some (u # us) | _ \<Rightarrow> f_device f) (f\<lparr>f_device := None\<rparr>)
     @ chip_if (truthy (f_user f)) (f_user f) (f\<lparr>f_user := None\<rparr>)
     @ chip_if (truthy (f_range f)) (range_chip (f_range f)) (f\<lparr>f_range := None\<rparr>)
     @ chip_if (truthy (f_since f) \<or> truthy (f_until f))
         (Some (str_or (f_since f) [8230] @ [32, 8211, 32] @ str_or (f_until f) [8230])) (f\<lparr>f_since := None, f_until := None\<rparr>)"

definition filterChips :: "HistoryFilters option \<Rightarrow> (jstr \<times> jstr) list \<Rightarrow> chip list" where
  "filterChips f ds = (case f of None \<Rightarrow> [] | Some g \<Rightarrow> chips_of g ds)"

text \<open>There is a chip exactly when a filter is active, and each chip removes one filter and no other, so
  taking the chips away one after another ends with the whole feed.\<close>

lemma chips_iff: "filterChips f ds = [] \<longleftrightarrow> \<not> hasHistoryFilters f"
  by (auto simp: filterChips_def chips_of_def chip_if_def hasHistoryFilters_def filter_values_def split: option.splits)

lemma chips_length:
  "length (chips_of f ds) = of_bool (truthy (f_q f)) + of_bool (truthy (f_actor f)) + of_bool (truthy (f_device f))
     + of_bool (truthy (f_user f)) + of_bool (truthy (f_range f)) + of_bool (truthy (f_since f) \<or> truthy (f_until f))"
  by (simp add: chips_of_def chip_if_def)

lemma chip_removes_one:
  assumes "(l, g) \<in> set (chips_of f ds)"
  shows "length (chips_of f ds) = Suc (length (chips_of g ds))"
proof -
  have "truthy (f_q f) \<and> g = f\<lparr>f_q := None\<rparr> \<or> truthy (f_actor f) \<and> g = f\<lparr>f_actor := None\<rparr>
      \<or> truthy (f_device f) \<and> g = f\<lparr>f_device := None\<rparr> \<or> truthy (f_user f) \<and> g = f\<lparr>f_user := None\<rparr>
      \<or> truthy (f_range f) \<and> g = f\<lparr>f_range := None\<rparr>
      \<or> (truthy (f_since f) \<or> truthy (f_until f)) \<and> g = f\<lparr>f_since := None, f_until := None\<rparr>"
    using assms unfolding chips_of_def chip_if_def set_append Un_iff by (simp split: if_splits; blast)
  moreover have "\<not> truthy None" by (simp add: truthy_def)
  ultimately show ?thesis unfolding chips_length by (elim disjE conjE) simp_all
qed

text \<open>The empty feed: the wider range is offered when a narrower one is set.\<close>

definition widen_offered :: "HistoryFilters option \<Rightarrow> bool" where
  "widen_offered f \<longleftrightarrow> f_range (filters_or_none f) \<noteq> Some (js ''30d'')
     \<and> (truthy (f_range (filters_or_none f)) \<or> truthy (f_since (filters_or_none f)) \<or> truthy (f_until (filters_or_none f)))"

definition widen :: "HistoryFilters option \<Rightarrow> HistoryFilters" where
  "widen f = (filters_or_none f)\<lparr>f_range := Some (js ''30d''), f_since := None, f_until := None\<rparr>"

definition empty_feed_text :: "HistoryFilters option \<Rightarrow> jstr" where
  "empty_feed_text f = (if hasHistoryFilters f then js ''No changes match these filters.'' else js ''No history yet.'')"

subsection \<open>The totals above the feed\<close>

record DayTotal =
  d_date :: jstr
  d_agent :: nat
  d_human :: nat

record Totals =
  t_total :: nat
  t_agent :: nat
  t_human :: nat
  t_devices :: nat
  t_days :: "DayTotal list"

text \<open>The request: \<open>offset\<close> is \<open>getTimezoneOffset\<close>, \<open>tz\<close> the zone's name, empty where there is none.\<close>

definition summary_qs :: "Zone \<Rightarrow> jstr \<Rightarrow> HistoryFilters option \<Rightarrow> int \<Rightarrow> int \<Rightarrow> jstr \<Rightarrow> jstr option" where
  "summary_qs z sc f now offset tz =
     (case (historyApiQuery z f now, summaryDays f, if tz = [] then Some [] else map_option (\<lambda>t. js ''&tz='' @ t) (encodeURIComponent tz)) of
        (Some rest, Some ds, Some t) \<Rightarrow>
          Some (sc @ rest @ (if isAllTime f then js ''&all=1'' else []) @ js ''&days='' @ int_str ds @ js ''&offset='' @ int_str (- offset) @ t)
      | _ \<Rightarrow> None)"

definition max_day :: "DayTotal list \<Rightarrow> nat" where
  "max_day ds = foldl max 1 (map (\<lambda>d. d_agent d + d_human d) ds)"

definition bar_height :: "DayTotal list \<Rightarrow> nat \<Rightarrow> rat" where
  "bar_height ds n = 100 * of_nat n / of_nat (max_day ds)"

definition agent_share :: "Totals \<Rightarrow> int" where
  "agent_share t = (if t_total t \<noteq> 0 then js_round (100 * of_nat (t_agent t) / of_nat (t_total t)) else 0)"

text \<open>A date of the hub as a local midnight; its parts are digits.\<close>

definition hub_day :: "Zone \<Rightarrow> jstr \<Rightarrow> int" where
  "hub_day z d =
     (let p = split_on 45 d
      in midnight z (int (digits_val (p ! 0))) (int (digits_val (p ! 1)) - 1) (int (digits_val (p ! 2))))"

definition summary_span :: "Zone \<Rightarrow> (int \<Rightarrow> jstr) \<Rightarrow> DayTotal list \<Rightarrow> jstr" where
  "summary_span z short ds =
     (let f = (\<lambda>d. short (hub_day z (d_date d)))
      in if ds = [] then [] else if length ds = 1 then f (hd ds) else f (hd ds) @ [32, 8211, 32] @ f (last ds))"

definition dense_bars :: "DayTotal list \<Rightarrow> bool" where
  "dense_bars ds \<longleftrightarrow> length ds > 14"

text \<open>The label under the bar of day \<open>i\<close>: \<open>one_day\<close> names a lone day, \<open>weekday\<close> formats one.\<close>

definition bar_label :: "Zone \<Rightarrow> (jstr \<Rightarrow> jstr) \<Rightarrow> (int \<Rightarrow> jstr) \<Rightarrow> jstr \<Rightarrow> DayTotal list \<Rightarrow> nat \<Rightarrow> jstr" where
  "bar_label z one_day weekday todayKey ds i =
     (let d = d_date (ds ! i); t = hub_day z d
      in if length ds = 1 then one_day d
         else if dense_bars ds then (if i mod 5 = 0 \<or> d = todayKey then int_str (lday z t) else [])
         else weekday t)"

definition bar_title :: "(nat \<Rightarrow> jstr) \<Rightarrow> jstr \<Rightarrow> DayTotal \<Rightarrow> jstr" where
  "bar_title num day d = day @ js '': '' @ num (d_agent d) @ js '' by agents, '' @ num (d_human d) @ js '' by people''"

text \<open>The two parts of a day's bar fit its column: together they are at most its full height, and
  where the window has any change some day's bar fills it.\<close>

theorem bars_fit_column:
  assumes "d \<in> set ds"
  shows "0 \<le> bar_height ds (d_agent d) \<and> bar_height ds (d_agent d) + bar_height ds (d_human d) \<le> 100
    \<and> (\<exists>e \<in> set ds. bar_height ds (d_agent e) + bar_height ds (d_human e) = 100 \<or> (\<forall>f \<in> set ds. d_agent f + d_human f = 0))"
proof -
  let ?m = "max_day ds" and ?ns = "map (\<lambda>d. d_agent d + d_human d) ds"
  have sum: "bar_height ds (d_agent e) + bar_height ds (d_human e) = 100 * of_nat (d_agent e + d_human e) / of_nat ?m" for e
    by (simp add: bar_height_def add_divide_distrib distrib_left)
  have one: "1 \<le> ?m" and le: "d_agent e + d_human e \<le> ?m" if "e \<in> set ds" for e
    using foldl_max_ge(1) [of 1 ?ns] foldl_max_ge(2) [of "d_agent e + d_human e" ?ns 1] that by (auto simp: max_day_def)
  have pos: "0 < (of_nat ?m :: rat)" using one [OF assms] by simp
  have fits: "100 * of_nat n / of_nat ?m \<le> (100 :: rat)" if "n \<le> ?m" for n
    using pos that by (simp add: divide_le_eq)
  show ?thesis
  proof (cases "\<forall>f \<in> set ds. d_agent f + d_human f = 0")
    case False
    then obtain f where f: "f \<in> set ds" "1 \<le> d_agent f + d_human f" by auto
    have "?m \<in> set ?ns"
    proof (cases "?m = 1")
      case True
      then show ?thesis using f le [OF f(1)] by (force simp: image_iff)
    next
      case False
      then show ?thesis using foldl_max_in [of 1 ?ns, THEN conjunct1] by (auto simp: max_day_def)
    qed
    then obtain e where "e \<in> set ds" "d_agent e + d_human e = ?m" by auto
    then have "bar_height ds (d_agent e) + bar_height ds (d_human e) = 100" using pos unfolding sum by simp
    then show ?thesis using \<open>e \<in> set ds\<close> fits [OF le [OF assms]] unfolding sum by (auto simp: bar_height_def)
  next
    case True
    then show ?thesis using assms fits [OF le [OF assms]] unfolding sum by (auto simp: bar_height_def)
  qed
qed

lemma bars_fit_column_witness:
  "bar_height [\<lparr>d_date = [], d_agent = 2, d_human = 1\<rparr>] 2 + bar_height [\<lparr>d_date = [], d_agent = 2, d_human = 1\<rparr>] 1 \<le> 100"
  using bars_fit_column [of "\<lparr>d_date = [], d_agent = 2, d_human = 1\<rparr>" "[\<lparr>d_date = [], d_agent = 2, d_human = 1\<rparr>]"] by simp

subsection \<open>The panel of the selected change\<close>

definition base_name :: "jstr \<Rightarrow> jstr" where
  "base_name p = (let b = last (split_on 47 p) in if b \<noteq> [] then b else p)"

definition panel_who :: "HEntry \<Rightarrow> jstr" where
  "panel_who e = (if isAgent e then agentName (enote e) else displayName (who_of e))"

definition dev_name :: "HEntry \<Rightarrow> jstr" where
  "dev_name e = (if device_name e \<noteq> [] then device_name e else device_id e)"

definition panel_open :: "HEntry \<Rightarrow> jstr option" where
  "panel_open e = (if \<not> deletes e \<and> truthy (blob e) then blob e else None)"

definition panel_busy :: "jstr option \<Rightarrow> HEntry \<Rightarrow> jstr option \<Rightarrow> bool" where
  "panel_busy restore e rp \<longleftrightarrow> truthy restore \<and> truthy rp \<and> the restore = path e @ the rp"

definition panel_restore :: "jstr option \<Rightarrow> HEntry \<Rightarrow> jstr option \<Rightarrow> (jstr \<times> bool) option" where
  "panel_restore restore e rp =
     (if restore \<noteq> None \<and> truthy rp
      then Some (if panel_busy restore e rp then js ''Restoring'' @ [8230] else if deletes e then js ''Restore file'' else js ''Restore previous'',
                 panel_busy restore e rp)
      else None)"

definition panel_link :: "HEntry \<Rightarrow> jstr option \<Rightarrow> (jstr \<times> jstr) option" where
  "panel_link e pb =
     (if deletes e then (if truthy pb then Some (path e, the pb) else None)
      else if truthy (blob e) then Some (path e, the (blob e)) else None)"

definition historyTitle :: "jstr \<Rightarrow> (jstr \<Rightarrow> bool) \<Rightarrow> jstr" where
  "historyTitle target isF =
     (if target = [] then js ''all changes'' else if isF target then target @ js ''/ (folder)'' else target)"

subsection \<open>A run's card\<close>

definition reads_url :: "jstr \<Rightarrow> HEntry \<Rightarrow> jstr option" where
  "reads_url api first =
     (if truthy (session first) \<and> device_id first \<noteq> []
      then case (encodeURIComponent (the (session first)), encodeURIComponent (device_id first)) of
             (Some s, Some d) \<Rightarrow> Some (api @ js ''heat?session='' @ s @ js ''&device='' @ d)
           | _ \<Rightarrow> None
      else None)"

definition read_only :: "jstr list \<Rightarrow> HEntry list \<Rightarrow> jstr list" where
  "read_only reads_list es = foldr insert_str (filter (\<lambda>p. p \<notin> path ` set es) (remdups reads_list)) []"

definition run_from :: "(jstr \<Rightarrow> int option) \<Rightarrow> HEntry list \<Rightarrow> int" where
  "run_from pd es = Min (set (map (\<lambda>e. parsed pd (ctime e)) es))"

definition run_to :: "(jstr \<Rightarrow> int option) \<Rightarrow> HEntry list \<Rightarrow> int" where
  "run_to pd es = Max (set (map (\<lambda>e. parsed pd (ctime e)) es))"

definition lasted :: "(jstr \<Rightarrow> int option) \<Rightarrow> HEntry list \<Rightarrow> jstr" where
  "lasted pd es = spanLabel (nat (run_to pd es - run_from pd es))"

text \<open>The clock formats: \<open>clock\<close> the time of day, \<open>stamp_text\<close> date and time, \<open>day_text\<close> the date.\<close>

definition fmtSpan :: "(int \<Rightarrow> jstr) \<Rightarrow> (int \<Rightarrow> jstr) \<Rightarrow> (int \<Rightarrow> jstr) \<Rightarrow> int \<Rightarrow> int \<Rightarrow> jstr" where
  "fmtSpan clock stamp_text day_text a b =
     (if day_text a \<noteq> day_text b then stamp_text a @ [32, 8211, 32] @ stamp_text b
      else if a = b then clock b else clock a @ [32, 8211, 32] @ clock b)"

definition run_undoing :: "jstr option \<Rightarrow> Run \<Rightarrow> bool" where
  "run_undoing busy run \<longleftrightarrow> truthy busy \<and> the busy = str_or (rsession run) (rnote run)"

definition before_lt :: "jstr \<Rightarrow> jstr" where
  "before_lt s = (case index_from s (js '' <'') 0 of None \<Rightarrow> s | Some i \<Rightarrow> take i s)"

definition run_who :: "Run \<Rightarrow> HEntry \<Rightarrow> jstr" where
  "run_who run first = (if truthy (rsession run) then agentName (Some (rnote run)) else before_lt (whoChanged (who_of first)))"

definition run_counts :: "nat \<Rightarrow> nat \<Rightarrow> jstr" where
  "run_counts nreads n =
     (if nreads > 0 then js ''read '' @ nat_str nreads @ js '' '' @ [183] @ js '' changed '' @ nat_str n
      else nat_str n @ js '' file'' @ (if n = 1 then [] else js ''s''))"

text \<open>The card lists a path the run read exactly when the run did not change it, once.\<close>

lemma insert_str_props: "set (insert_str x ys) = insert x (set ys)" "length (insert_str x ys) = Suc (length ys)"
  by (induction ys) auto

lemma insert_strs: "set (foldr insert_str xs []) = set xs \<and> length (foldr insert_str xs []) = length xs"
  by (induction xs) (auto simp: insert_str_props)

lemma read_only_exact: "set (read_only ps es) = set ps - path ` set es \<and> distinct (read_only ps es)"
proof -
  let ?xs = "filter (\<lambda>p. p \<notin> path ` set es) (remdups ps)"
  have r: "set (read_only ps es) = set ?xs" "length (read_only ps es) = length ?xs"
    unfolding read_only_def using insert_strs [of ?xs] by auto
  have "card (set (read_only ps es)) = length (read_only ps es)"
    unfolding r by (rule distinct_card) simp
  then have "distinct (read_only ps es)" by (rule card_distinct)
  with r(1) show ?thesis by auto
qed

end
