(* ===== verification/Changes.thy ===== *)
theory Changes
  imports HistoryRows
begin

section \<open>A change as a row, and the three ways to read it (components/HistoryRow.tsx, DiffView.tsx)\<close>

text \<open>
  What a row of the feed offers, with its note and the controls drawn on it, and the states of the diff
  view, the tabs of the panel and the counts on a row. A fetched version is what \<open>useBlobText\<close> holds:
  nothing yet, or a body.
\<close>

subsection \<open>Notes\<close>

text \<open>The split by \<open>(https?:\/\/\S+)\<close>: a piece that is matched runs to the next white space.\<close>

definition scheme_len :: "jstr \<Rightarrow> nat" where
  "scheme_len s = (if starts_with s (js ''http://'') then 7 else if starts_with s (js ''https://'') then 8 else 0)"

definition url_len :: "jstr \<Rightarrow> nat" where
  "url_len s =
     (let k = scheme_len s; n = length (takeWhile (\<lambda>u. \<not> is_ws u) (drop k s))
      in if k = 0 \<or> n = 0 then 0 else k + n)"

text \<open>\<open>acc\<close> is the text since the last match, in reverse.\<close>

function split_urls :: "jstr \<Rightarrow> jstr \<Rightarrow> jstr list" where
  "split_urls acc [] = [rev acc]"
| "split_urls acc (u # s) =
     (if url_len (u # s) = 0 then split_urls (u # acc) s
      else rev acc # take (url_len (u # s)) (u # s) # split_urls [] (drop (url_len (u # s)) (u # s)))"
  by pat_completeness auto
termination by (relation "measure (\<lambda>(acc, s). length s)") auto

declare split_urls.simps(2) [simp del]

definition NoteText :: "jstr \<Rightarrow> (bool \<times> jstr) list" where
  "NoteText s = map (\<lambda>p. (scheme_len p \<noteq> 0, p)) (split_urls [] s)"

lemma split_urls_concat: "concat (split_urls acc s) = rev acc @ s"
  by (induction acc s rule: split_urls.induct) (simp_all add: split_urls.simps(2))

lemma scheme_len_append: "scheme_len x \<noteq> 0 \<Longrightarrow> scheme_len (x @ y) = scheme_len x \<and> scheme_len x \<le> length x"
  by (auto simp: scheme_len_def starts_with_iff js_def split: if_splits)

lemma url_len_append: "url_len x \<noteq> 0 \<Longrightarrow> url_len (x @ y) \<noteq> 0"
  using scheme_len_append [of x y] by (auto simp: url_len_def Let_def takeWhile_append split: if_splits)

lemma scheme_len_take: "url_len s \<noteq> 0 \<Longrightarrow> scheme_len (take (url_len s) s) \<noteq> 0"
  by (auto simp: url_len_def scheme_len_def starts_with_def js_def Let_def min_def split: if_splits)

definition no_url :: "jstr \<Rightarrow> bool" where
  "no_url p \<longleftrightarrow> list_all (\<lambda>i. url_len (drop i p) = 0) [0 ..< length p]"

lemma split_urls_pieces:
  "list_all (\<lambda>i. url_len (drop i (rev acc @ s)) = 0) [0 ..< length acc] \<Longrightarrow>
     list_all (\<lambda>p. scheme_len p \<noteq> 0 \<or> no_url p) (split_urls acc s)"
proof (induction acc s rule: split_urls.induct)
  case (1 acc)
  then show ?case by (simp add: no_url_def)
next
  case (2 acc u s)
  have pre: "no_url (rev acc)"
    unfolding no_url_def list_all_iff
  proof
    fix i assume i: "i \<in> set [0 ..< length (rev acc)]"
    then have "url_len (drop i (rev acc) @ u # s) = 0" using 2(3) by (auto simp: list_all_iff drop_append)
    then show "url_len (drop i (rev acc)) = 0" using url_len_append by blast
  qed
  show ?case
  proof (cases "url_len (u # s) = 0")
    case True
    then have "list_all (\<lambda>i. url_len (drop i (rev (u # acc) @ s)) = 0) [0 ..< length (u # acc)]"
      using 2(3) by (simp add: list_all_iff less_Suc_eq)
    then show ?thesis using 2(1) [OF True] True by (simp add: split_urls.simps(2))
  next
    case False
    then show ?thesis using 2(2) [OF False] pre scheme_len_take [of "u # s"] by (simp add: split_urls.simps(2))
  qed
qed

text \<open>A note is shown whole and in order: the pieces put together are the note; a piece is a link
  exactly when it begins with \<open>http://\<close> or \<open>https://\<close>, and no address is left in a piece that is not.\<close>

theorem note_shown_whole:
  "concat (map snd (NoteText s)) = s \<and> list_all (\<lambda>(link, p). link = (scheme_len p \<noteq> 0)) (NoteText s)
   \<and> list_all (\<lambda>(link, p). link \<or> no_url p) (NoteText s)"
proof -
  have "list_all (\<lambda>(link, p). link \<or> no_url p) (NoteText s)"
    using split_urls_pieces [of "[]" s] by (simp add: NoteText_def list_all_iff)
  then show ?thesis by (simp add: NoteText_def comp_def split_urls_concat list_all_iff)
qed

text \<open>The piece before the first match is tested for the scheme alone: a note that begins with the scheme
  and a space is a link as a whole.\<close>

lemma whole_note_linked: "NoteText (js ''http:// see log'') = [(True, js ''http:// see log'')]"
  by code_simp

subsection \<open>What a row offers\<close>

definition KIND_LABEL :: "(jstr \<times> jstr) list" where
  "KIND_LABEL = [(js ''add'', js ''added''), (js ''edit'', js ''edited''), (js ''delete'', js ''deleted'')]"

definition row_kind :: "HEntry \<Rightarrow> jstr" where
  "row_kind e = (if ckind e = js ''put'' then js ''edit'' else ckind e)"

definition kind_text :: "jstr \<Rightarrow> jstr option" where
  "kind_text k = (case look_up KIND_LABEL k of Own l \<Rightarrow> Some l | Inherited \<Rightarrow> None | Missing \<Rightarrow> Some k)"

definition row_dev :: "HEntry \<Rightarrow> jstr" where
  "row_dev e = join [32, 183, 32] (filter (\<lambda>s. s \<noteq> []) [dev_name e, str_or (hos e) []])"

definition clickable :: "HEntry \<Rightarrow> bool" where
  "clickable e \<longleftrightarrow> row_kind e \<noteq> js ''delete''"

definition diffable :: "HEntry \<Rightarrow> bool" where
  "diffable e \<longleftrightarrow> row_kind e \<noteq> js ''delete'' \<and> truthy (blob e)"

definition createdByRun :: "bool \<Rightarrow> HEntry \<Rightarrow> bool" where
  "createdByRun inRun e \<longleftrightarrow> inRun \<and> row_kind e = js ''add''"

definition restorable :: "jstr option \<Rightarrow> jstr option \<Rightarrow> bool \<Rightarrow> HEntry \<Rightarrow> bool" where
  "restorable restore sha inRun e \<longleftrightarrow> restore \<noteq> None \<and> truthy sha \<and> \<not> createdByRun inRun e"

definition removable :: "jstr option \<Rightarrow> bool \<Rightarrow> HEntry \<Rightarrow> bool" where
  "removable remove inRun e \<longleftrightarrow> remove \<noteq> None \<and> createdByRun inRun e"

definition row_busy :: "jstr option \<Rightarrow> jstr option \<Rightarrow> HEntry \<Rightarrow> bool" where
  "row_busy restore sha e \<longleftrightarrow> truthy restore \<and> the restore = path e @ (case sha of None \<Rightarrow> js ''undefined'' | Some s \<Rightarrow> s)"

definition row_removing :: "jstr option \<Rightarrow> HEntry \<Rightarrow> bool" where
  "row_removing remove e \<longleftrightarrow> truthy remove \<and> the remove = path e"

definition versioned :: "HEntry \<Rightarrow> bool" where
  "versioned e \<longleftrightarrow> clickable e \<and> truthy (blob e)"

definition row_download :: "jstr \<Rightarrow> HEntry \<Rightarrow> jstr option" where
  "row_download api e =
     map_option (\<lambda>n. api @ js ''blob?sha='' @ (case blob e of None \<Rightarrow> js ''undefined'' | Some b \<Rightarrow> b) @ js ''&name='' @ n @ js ''&download=1'')
       (encodeURIComponent (base_name (path e)))"

definition row_conflict :: "HEntry \<Rightarrow> Conflict option" where
  "row_conflict e = (if row_kind e \<noteq> js ''delete'' then parseConflict (path e) else None)"

text \<open>What a click on the row, and a key on it, open: the path and the version.\<close>

definition row_open :: "bool \<Rightarrow> HEntry \<Rightarrow> (jstr \<times> jstr option) option" where
  "row_open on_link e = (if on_link then None else if clickable e then Some (path e, blob e) else None)"

definition row_key :: "jstr \<Rightarrow> HEntry \<Rightarrow> (jstr \<times> jstr option) option" where
  "row_key k e = (if clickable e \<and> (k = js ''Enter'' \<or> k = js '' '') then Some (path e, blob e) else None)"

definition note_click :: "bool \<Rightarrow> bool \<Rightarrow> bool" where
  "note_click on_link isOpen = (if on_link then isOpen else \<not> isOpen)"

definition note_key :: "jstr \<Rightarrow> bool \<Rightarrow> bool" where
  "note_key k isOpen = (if k = js ''Enter'' \<or> k = js '' '' then \<not> isOpen else isOpen)"

definition note_shown :: "bool \<Rightarrow> HEntry \<Rightarrow> bool" where
  "note_shown inRun e \<longleftrightarrow> truthy (enote e) \<and> \<not> inRun"

text \<open>The controls of a row, in the order they are drawn.\<close>

datatype Control = CGone | CResolve jstr | CDetails | CRestore bool | CRemove bool | CDiff | CFirst | COpenVersion | CDownload

definition row_controls ::
  "jstr option \<Rightarrow> jstr option \<Rightarrow> jstr option \<Rightarrow> bool \<Rightarrow> jstr option \<Rightarrow> bool \<Rightarrow> HEntry \<Rightarrow> Control list" where
  "row_controls restore remove sha inRun pb selectable e =
     (if row_kind e = js ''delete'' \<and> restorable restore sha inRun e then [CGone] else [])
     @ (case row_conflict e of None \<Rightarrow> [] | Some c \<Rightarrow> [CResolve (original c)])
     @ (if selectable then [CDetails] else [])
     @ (if restorable restore sha inRun e then [CRestore (row_busy restore sha e)] else [])
     @ (if removable remove inRun e then [CRemove (row_removing remove e)] else [])
     @ (if diffable e then [if truthy pb then CDiff else CFirst] else [])
     @ (if versioned e then [COpenVersion, CDownload] else [])"

text \<open>A row never offers both to put its content back and to take its file away.\<close>

lemma restore_or_remove: "\<not> (restorable restore sha inRun e \<and> removable remove inRun e)"
  by (auto simp: restorable_def removable_def)

subsection \<open>Counts on a row (useDiffStat)\<close>

definition stat_fetches :: "bool \<Rightarrow> jstr option \<Rightarrow> bool \<times> bool" where
  "stat_fetches enabled bs = (enabled \<and> truthy bs, enabled \<and> bs \<noteq> None)"

definition useDiffStat :: "jstr option \<Rightarrow> BlobText option \<Rightarrow> BlobText option \<Rightarrow> diff_text option" where
  "useDiffStat bs a b =
     (case (bs, b) of
        (Some base, Some (TextBlob tb)) \<Rightarrow>
          if base = [] then Some (diffText [] tb)
          else (case a of Some (TextBlob ta) \<Rightarrow> Some (diffText ta tb) | _ \<Rightarrow> None)
      | _ \<Rightarrow> None)"

definition row_stat_enabled :: "bool \<Rightarrow> HEntry \<Rightarrow> bool" where
  "row_stat_enabled stat e \<longleftrightarrow> stat \<and> row_kind e \<noteq> js ''delete'' \<and> truthy (blob e)"

definition DiffStat :: "nat \<Rightarrow> nat \<Rightarrow> jstr list" where
  "DiffStat a d = (if a > 0 then [js ''+'' @ nat_str a] else []) @ (if d > 0 then [[8722] @ nat_str d] else [])"

subsection \<open>The diff (DiffView)\<close>

datatype DiffState = DFailed | DLoading | DTooLarge | DBinary | DLines diff_text

definition too_large :: "BlobText \<Rightarrow> bool" where
  "too_large b = (case b of TooLarge _ \<Rightarrow> True | _ \<Rightarrow> False)"

definition DiffView :: "bool \<Rightarrow> bool \<Rightarrow> BlobText option \<Rightarrow> BlobText option \<Rightarrow> DiffState" where
  "DiffView ea eb a b =
     (if ea \<or> eb then DFailed
      else case (a, b) of
        (Some (TextBlob ta), Some (TextBlob tb)) \<Rightarrow> DLines (diffText ta tb)
      | (Some x, Some y) \<Rightarrow> if too_large x \<or> too_large y then DTooLarge else DBinary
      | _ \<Rightarrow> DLoading)"

definition no_line_changes :: "diff_text \<Rightarrow> bool" where
  "no_line_changes d \<longleftrightarrow> add_count d = 0 \<and> del_count d = 0"

record DiffRow =
  dv_class :: jstr
  dv_old :: jstr
  dv_new :: jstr
  dv_mark :: jstr
  dv_text :: jstr

definition opt_nat :: "nat option \<Rightarrow> jstr" where
  "opt_nat n = (case n of None \<Rightarrow> [] | Some k \<Rightarrow> nat_str k)"

definition diff_row :: "jstr DiffLine \<Rightarrow> DiffRow" where
  "diff_row l =
     \<lparr>dv_class = js ''dv-line dv-'' @ (case op l of Keep \<Rightarrow> js ''ctx'' | Plus \<Rightarrow> js ''ins'' | Minus \<Rightarrow> js ''rm''),
      dv_old = opt_nat (an l), dv_new = opt_nat (bn l),
      dv_mark = (case op l of Keep \<Rightarrow> js '' '' | Plus \<Rightarrow> js ''+'' | Minus \<Rightarrow> js ''-''),
      dv_text = (if line l = [] then js '' '' else line l)\<rparr>"

definition downloads :: "jstr \<Rightarrow> jstr \<Rightarrow> jstr \<Rightarrow> jstr \<Rightarrow> jstr option \<times> jstr option" where
  "downloads api p pb sha = (blobURL api pb (Some (after_last 47 p)) True, blobURL api sha (Some (after_last 47 p)) True)"

subsection \<open>The panel's tabs (DiffTabs)\<close>

datatype DTab = TChanges | TRendered | TFull

datatype TabBody = BDiff jstr jstr | BMessage jstr | BRendered jstr | BFull jstr | BNothing

definition DiffTabs :: "DTab \<Rightarrow> jstr \<Rightarrow> jstr option \<Rightarrow> jstr option \<Rightarrow> TabBody" where
  "DiffTabs dtab k pb sha =
     (let shown = (if truthy sha then sha else pb)
      in case dtab of
           TChanges \<Rightarrow>
             (if truthy sha \<and> truthy pb then BDiff (the pb) (the sha)
              else BMessage (if \<not> truthy sha then js ''This change deleted the file.''
                             else if diffBase k pb = Some [] then js ''First version'' @ [32, 8212, 32] @ js ''nothing to compare against.''
                             else js ''Earlier version not loaded'' @ [32, 8212, 32] @ js ''nothing to compare against here.''))
         | TRendered \<Rightarrow> if truthy shown then BRendered (the shown) else BNothing
         | TFull \<Rightarrow> if truthy shown then BFull (the shown) else BNothing)"

definition panel_tab :: "DTab \<Rightarrow> HEntry list \<Rightarrow> nat \<Rightarrow> TabBody" where
  "panel_tab dtab es i = DiffTabs dtab (ckind (es ! i)) (prevBlob es i) (if deletes (es ! i) then None else blob (es ! i))"

text \<open>A rendered version: \<open>None\<close> while it is fetched, \<open>err\<close> when that did not succeed.\<close>

datatype RenderState = RImage "jstr option" | RNoView | RFailed | RWaiting | RHtml jstr

definition render_kinds :: "jstr \<Rightarrow> bool" where
  "render_kinds = has_ext [''png'', ''jpg'', ''jpeg'', ''gif'', ''webp'', ''svg'']"

definition Rendered :: "jstr \<Rightarrow> jstr \<Rightarrow> jstr \<Rightarrow> bool \<Rightarrow> jstr option \<Rightarrow> RenderState" where
  "Rendered api p sha err html =
     (if render_kinds p then RImage (blobURL api sha (Some (after_last 47 p)) False)
      else if \<not> MD_EXT p then RNoView
      else if err then RFailed
      else case html of None \<Rightarrow> RWaiting | Some h \<Rightarrow> RHtml h)"

datatype FullState = FFailed | FLoading | FTooLarge | FBinary | FLines "jstr list"

definition FullFile :: "bool \<Rightarrow> BlobText option \<Rightarrow> FullState" where
  "FullFile err t =
     (if err then FFailed
      else case t of None \<Rightarrow> FLoading | Some (TextBlob s) \<Rightarrow> FLines (map (\<lambda>l. if l = [] then js '' '' else l) (split_on 10 s))
        | Some (TooLarge _) \<Rightarrow> FTooLarge | Some Binary \<Rightarrow> FBinary)"

text \<open>The row says that an edit is the first version when its predecessor is merely not named and not
  loaded; the panel of the same change says that it is not loaded.\<close>

lemma row_calls_edit_first:
  "row_controls None None None False (prevBlob [w_entry ''edit'' ''a'' ''B'' ''''] 0) False (w_entry ''edit'' ''a'' ''B'' '''')
     = [CFirst, COpenVersion, CDownload]
   \<and> panel_tab TChanges [w_entry ''edit'' ''a'' ''B'' ''''] 0
     = BMessage (js ''Earlier version not loaded'' @ [32, 8212, 32] @ js ''nothing to compare against here.'')"
  by code_simp

end
