(* ===== verification/Browser.thy ===== *)
theory Browser
  imports HistoryRows Page Visits
begin

section \<open>The page of a project (apps/Browser.tsx): what the address shows and what the reader may do\<close>

text \<open>
  Everything the page derives from the address, the tree, the project and the folder rules, and the
  state it keeps: the expanded folders, the scroll memo, the fullscreen entry, comments and overlays.
  The tree is seen through its lookups: the folders and the files, by path. An address that cannot be
  encoded is \<open>None\<close>.
\<close>

subsection \<open>Permissions (api/types.ts)\<close>

definition PERM_RANK :: "(jstr \<times> nat) list" where
  "PERM_RANK = [(js ''read'', 1), (js ''write'', 2), (js ''admin'', 3)]"

text \<open>The table is a plain object: a name of \<open>Object.prototype\<close> compares as NaN.\<close>

definition rank_of :: "jstr \<Rightarrow> nat option" where
  "rank_of s = (case look_up PERM_RANK s of Own n \<Rightarrow> Some n | Inherited \<Rightarrow> None | Missing \<Rightarrow> Some 0)"

definition atLeast :: "jstr option \<Rightarrow> string \<Rightarrow> bool" where
  "atLeast have lvl =
     (case (rank_of (str_or have []), rank_of (js lvl)) of (Some h, Some w) \<Rightarrow> h \<ge> w | _ \<Rightarrow> False)"

subsection \<open>The page's inputs\<close>

record Proj =
  pr_id :: jstr
  pr_name :: jstr
  pr_perm :: "jstr option"

record Desk =
  hub :: bool
  proj :: "Proj option"
  rt :: Route
  has_panel :: bool
  tree_loaded :: bool
  dirs :: "jstr list"
  fls :: "jstr list"
  rules :: "(jstr \<times> jstr option) list"
  reads_on :: bool
  comments_cfg :: bool
  upload_on :: bool
  auth_on :: bool

definition in_project :: "Desk \<Rightarrow> bool" where
  "in_project d \<longleftrightarrow> hub d \<and> proj d \<noteq> None"

definition pid_of :: "Desk \<Rightarrow> jstr option" where
  "pid_of d = map_option pr_id (proj d)"

definition perm_of :: "Desk \<Rightarrow> jstr option" where
  "perm_of d = (case proj d of None \<Rightarrow> None | Some p \<Rightarrow> pr_perm p)"

definition dpath_of :: "Desk \<Rightarrow> jstr" where
  "dpath_of d = Route.rpath (rt d)"

definition isHome :: "Desk \<Rightarrow> bool" where
  "isHome d \<longleftrightarrow> in_project d \<and> dpath_of d = [] \<and> view (rt d) = None"

definition heat_refreshed :: "Desk \<Rightarrow> bool" where
  "heat_refreshed d \<longleftrightarrow> view (rt d) = Some VDashboard \<or> isHome d"

definition page_version :: "Desk \<Rightarrow> jstr option" where
  "page_version d = (if view (rt d) = None then version (rt d) else None)"

definition treePath :: "Desk \<Rightarrow> jstr" where
  "treePath d =
     (if dpath_of d \<noteq> [] then dpath_of d
      else if view (rt d) = Some VDashboard \<or> view (rt d) = Some VHistory then str_or (viewTarget (rt d)) [] else [])"

definition isDir :: "Desk \<Rightarrow> bool" where
  "isDir d \<longleftrightarrow> dpath_of d \<noteq> [] \<and> dpath_of d \<in> set (dirs d)"

definition isFile :: "Desk \<Rightarrow> bool" where
  "isFile d \<longleftrightarrow> dpath_of d \<noteq> [] \<and> tree_loaded d \<and> \<not> isDir d \<and> dpath_of d \<in> set (fls d)"

definition isMissing :: "Desk \<Rightarrow> bool" where
  "isMissing d \<longleftrightarrow> dpath_of d \<noteq> [] \<and> tree_loaded d \<and> \<not> isDir d \<and> \<not> isFile d \<and> \<not> truthy (page_version d)"

definition listingShowing :: "Desk \<Rightarrow> bool" where
  "listingShowing d \<longleftrightarrow> isDir d \<and> view (rt d) = None"

definition strip_slash :: "jstr \<Rightarrow> jstr" where
  "strip_slash p = (if p \<noteq> [] \<and> last p = 47 then butlast p else p)"

definition restrictedDirs :: "Desk \<Rightarrow> jstr set" where
  "restrictedDirs d = set (map (\<lambda>(p, m). strip_slash p) (rules d))"

text \<open>The project and path whose opening is noted, and whether the content is fetched before the tree.\<close>

definition noted_open :: "Desk \<Rightarrow> (jstr \<times> jstr) option" where
  "noted_open d =
     (if hub d \<and> isFile d \<and> \<not> truthy (page_version d) then map_option (\<lambda>p. (pr_id p, dpath_of d)) (proj d) else None)"

definition early_render :: "Desk \<Rightarrow> bool" where
  "early_render d \<longleftrightarrow> (\<not> hub d \<or> proj d \<noteq> None) \<and> \<not> tree_loaded d \<and> dpath_of d \<noteq> [] \<and> view (rt d) = None \<and> MD_EXT (dpath_of d)"

subsection \<open>An address whose file moved\<close>

definition resolve_url :: "jstr \<Rightarrow> Desk \<Rightarrow> jstr option" where
  "resolve_url api d = map_option (\<lambda>q. api @ js ''resolve?path='' @ q) (encodeURIComponent (dpath_of d))"

definition moved_effect :: "jstr option \<Rightarrow> Desk \<Rightarrow> ((jstr \<times> jstr) \<times> jstr option) option" where
  "moved_effect answer d =
     (if \<not> isMissing d \<or> \<not> truthy answer then None
      else Some ((dpath_of d, the answer), urlForPath (the answer) (pid_of d) None (full (rt d)) (editing (rt d))))"

definition moved_banner :: "(jstr \<times> jstr) option \<Rightarrow> Desk \<Rightarrow> jstr option" where
  "moved_banner m d = (case m of None \<Rightarrow> None | Some (a, b) \<Rightarrow> if b = dpath_of d then Some a else None)"

subsection \<open>What the reader may do\<close>

definition folderPerm :: "Desk \<Rightarrow> jstr \<Rightarrow> jstr option" where
  "folderPerm d p = (case ruleFor (rules d) p of None \<Rightarrow> None | Some (k, m) \<Rightarrow> m)"

text \<open>\<open>folderPerm(p) ?? project.perm\<close>\<close>

definition perm_at :: "Desk \<Rightarrow> jstr \<Rightarrow> jstr option" where
  "perm_at d p = (case folderPerm d p of None \<Rightarrow> perm_of d | Some m \<Rightarrow> Some m)"

definition canShare :: "Desk \<Rightarrow> bool" where
  "canShare d \<longleftrightarrow> \<not> has_panel d \<and> in_project d \<and> (isFile d \<or> isDir d) \<and> atLeast (perm_of d) ''write''"

definition canEdit :: "Desk \<Rightarrow> bool" where
  "canEdit d \<longleftrightarrow> \<not> has_panel d \<and> isFile d \<and> \<not> truthy (page_version d)
     \<and> (\<not> hub d \<or> proj d \<noteq> None \<and> atLeast (perm_at d (dpath_of d)) ''write'')"

definition is_editing :: "Desk \<Rightarrow> bool" where
  "is_editing d \<longleftrightarrow> editing (rt d) \<and> canEdit d"

definition preloads_editor :: "Desk \<Rightarrow> bool" where
  "preloads_editor d \<longleftrightarrow> canEdit d \<and> isFile d \<and> \<not> is_editing d"

definition commentsOn :: "Desk \<Rightarrow> bool" where
  "commentsOn d \<longleftrightarrow> \<not> has_panel d \<and> in_project d \<and> comments_cfg d \<and> isFile d \<and> \<not> truthy (page_version d) \<and> \<not> editing (rt d)"

definition in_full :: "Desk \<Rightarrow> bool" where
  "in_full d \<longleftrightarrow> full (rt d) \<and> view (rt d) = None \<and> dpath_of d \<noteq> [] \<and> \<not> isDir d \<and> \<not> has_panel d"

definition canHistory :: "Desk \<Rightarrow> bool" where
  "canHistory d \<longleftrightarrow> \<not> has_panel d \<and> in_project d"

definition canFull :: "Desk \<Rightarrow> bool" where
  "canFull d \<longleftrightarrow> \<not> has_panel d \<and> isFile d \<and> view (rt d) = None"

definition canDownload :: "Desk \<Rightarrow> bool" where
  "canDownload d \<longleftrightarrow> \<not> has_panel d \<and> isFile d"

definition canCopy :: "Desk \<Rightarrow> bool" where
  "canCopy d \<longleftrightarrow> canDownload d \<and> \<not> IMG_EXT (dpath_of d) \<and> \<not> PDF_EXT (dpath_of d) \<and> \<not> HTML_EXT (dpath_of d)"

definition canPrint :: "Desk \<Rightarrow> bool" where
  "canPrint d \<longleftrightarrow> canDownload d \<and> \<not> PDF_EXT (dpath_of d) \<and> \<not> is_editing d"

definition canMore :: "Desk \<Rightarrow> bool" where
  "canMore d \<longleftrightarrow> \<not> has_panel d \<and> (isFile d \<or> in_project d \<and> isDir d)"

definition canRestore :: "Desk \<Rightarrow> bool" where
  "canRestore d \<longleftrightarrow> in_project d \<and> atLeast (perm_of d) ''write''"

definition canWrite :: "Desk \<Rightarrow> bool" where
  "canWrite d \<longleftrightarrow> in_project d \<and> upload_on d \<and> atLeast (perm_of d) ''write''"

definition canCreateIn :: "Desk \<Rightarrow> jstr \<Rightarrow> bool" where
  "canCreateIn d fld \<longleftrightarrow> proj d \<noteq> None \<and> atLeast (perm_at d (if fld \<noteq> [] then fld @ js ''/'' else [])) ''write''"

definition downloadURL :: "jstr \<Rightarrow> Desk \<Rightarrow> jstr option" where
  "downloadURL api d =
     map_option (\<lambda>q. if truthy (page_version d) then api @ js ''blob?sha='' @ the (page_version d) @ js ''&name='' @ q @ js ''&download=1''
                     else api @ js ''download?path='' @ q) (encodeURIComponent (dpath_of d))"

definition printURL :: "jstr \<Rightarrow> Desk \<Rightarrow> jstr option" where
  "printURL api d = map_option (\<lambda>u. u @ js ''&print=1'') (fileURLFor api (dpath_of d) (page_version d))"

text \<open>The identity on the caret: the colour is a hash of the name, a hue.\<close>

definition identity_name :: "jstr option \<Rightarrow> jstr option \<Rightarrow> jstr" where
  "identity_name nm email = str_or nm (str_or email (js ''Someone''))"

definition hue :: "jstr \<Rightarrow> nat" where
  "hue who = foldl (\<lambda>h c. (h * 31 + c) mod 360) 0 who"

lemma hue_range: "hue who < 360"
proof -
  have "h < 360 \<Longrightarrow> foldl (\<lambda>h c. (h * 31 + c) mod 360) h who < 360" for h
    by (induction who arbitrary: h) auto
  then show ?thesis by (simp add: hue_def)
qed

subsection \<open>The view\<close>

datatype PageView = PanelBody | InsightsPage | HistoryPage | LoadingFile | LoadingText | NotFound | Listing
  | FilePage bool "Conflict option" bool | HomePage | PickAFile

definition shown_view :: "Desk \<Rightarrow> PageView" where
  "shown_view d =
     (if has_panel d then PanelBody
      else if view (rt d) = Some VDashboard then InsightsPage
      else if view (rt d) = Some VHistory then HistoryPage
      else if dpath_of d \<noteq> [] then
        (if \<not> tree_loaded d then (if MD_EXT (dpath_of d) then LoadingFile else LoadingText)
         else if isMissing d then NotFound
         else if isDir d then Listing
         else FilePage (truthy (page_version d)) (parseConflict (dpath_of d)) (commentsOn d))
      else if isHome d then HomePage else PickAFile)"

datatype PageWidth = App | Wide | Read

definition page_width :: "Desk \<Rightarrow> PageWidth" where
  "page_width d =
     (case shown_view d of
        InsightsPage \<Rightarrow> Wide
      | HistoryPage \<Rightarrow> Wide
      | FilePage _ _ _ \<Rightarrow> if HTML_EXT (dpath_of d) \<or> PDF_EXT (dpath_of d) then Wide else Read
      | HomePage \<Rightarrow> if fls d \<noteq> [] then Wide else App
      | _ \<Rightarrow> App)"

definition page_class :: "Desk \<Rightarrow> jstr option" where
  "page_class d =
     (case shown_view d of
        HistoryPage \<Rightarrow> Some (js ''activity-page'')
      | FilePage _ _ _ \<Rightarrow> Some (js ''markdown'' @ (if in_full d \<and> \<not> MD_EXT (dpath_of d) then js '' bleed'' else []))
      | _ \<Rightarrow> None)"

definition comment_lines :: "Desk \<Rightarrow> bool" where
  "comment_lines d \<longleftrightarrow> \<not> MD_EXT (dpath_of d) \<and> \<not> HTML_EXT (dpath_of d) \<and> \<not> CSV_EXT (dpath_of d)"

datatype Crumb = PanelCrumb | PathCrumb bool | TextCrumb jstr | NoCrumb

definition crumb :: "Desk \<Rightarrow> Crumb" where
  "crumb d =
     (if has_panel d then PanelCrumb
      else if dpath_of d \<noteq> [] then PathCrumb (hub d \<and> isFile d \<and> \<not> truthy (page_version d) \<and> \<not> is_editing d)
      else if view (rt d) = Some VDashboard
      then TextCrumb (js ''Insights '' @ [8212] @ js '' '' @ str_or (viewTarget (rt d)) (case proj d of None \<Rightarrow> [] | Some p \<Rightarrow> pr_name p))
      else if view (rt d) = Some VHistory
      then TextCrumb (js ''Activity '' @ [8212] @ js '' '' @ historyTitle (str_or (viewTarget (rt d)) []) (\<lambda>p. p \<in> set (dirs d)))
      else if isHome d then TextCrumb (case proj d of None \<Rightarrow> [] | Some p \<Rightarrow> pr_name p)
      else NoCrumb)"

text \<open>The buttons of the top bar, and the items of its menu, in order.\<close>

datatype Tool = TComments | THistory | TEdit bool | TSource bool | TShare | TFullscreen | TMore

definition tools :: "Desk \<Rightarrow> bool \<Rightarrow> Tool list" where
  "tools d editSource =
     (if commentsOn d then [TComments] else [])
     @ (if canHistory d \<and> (isFile d \<or> dpath_of d = [] \<and> view (rt d) = None) then [THistory] else [])
     @ (if canEdit d then [TEdit (is_editing d)] else [])
     @ (if is_editing d \<and> HTML_EXT (dpath_of d) then [TSource editSource] else [])
     @ (if canShare d then [TShare] else [])
     @ (if canFull d then [TFullscreen] else [])
     @ (if canMore d then [TMore] else [])"

datatype MoreItem = MHistory | MDownload | MPrint | MWebLink | MCopy | MInsights

definition more_items :: "Desk \<Rightarrow> jstr option \<Rightarrow> MoreItem list" where
  "more_items d webBase =
     (if canHistory d then [MHistory] else [])
     @ (if canDownload d then [MDownload] else [])
     @ (if canPrint d then [MPrint] else [])
     @ (if truthy webBase then [MWebLink] else [])
     @ (if canCopy d then [MCopy] else [])
     @ (if in_project d then [MInsights] else [])"

text \<open>Every state of the page has one view, and a file's page is never put in front of content that is
  not there: it is shown only for an address without a view, once the tree is loaded, and then for a path
  that the tree has as a file or whose exact version is named. In that view the editor and its controls
  exist only on the current version of a file in the tree that the reader may write, and comments only
  where the editor is not.\<close>

theorem file_page_exact:
  "((\<exists>v c m. shown_view d = FilePage v c m) =
      (\<not> has_panel d \<and> view (rt d) \<noteq> Some VDashboard \<and> view (rt d) \<noteq> Some VHistory \<and> dpath_of d \<noteq> [] \<and> tree_loaded d \<and> \<not> isDir d
        \<and> (dpath_of d \<in> set (fls d) \<or> truthy (page_version d))))
   \<and> (if TEdit b \<in> set (tools d s)
      then dpath_of d \<in> set (fls d) \<and> \<not> truthy (page_version d) \<and> (\<not> hub d \<or> atLeast (perm_at d (dpath_of d)) ''write'')
           \<and> (if b then shown_view d \<noteq> FilePage True c True \<and> TComments \<notin> set (tools d s) else True) else True)"
  by (auto simp: shown_view_def isMissing_def isFile_def tools_def canEdit_def is_editing_def commentsOn_def)

end
