(* ===== verification/Surface.thy ===== *)
theory Surface
  imports Browser
begin

section \<open>The page's own state (apps/Browser.tsx)\<close>

text \<open>
  The expanded folders, the scroll memo, fullscreen, comments and overlays; the actions of the page as
  what they send and show (\<open>Fx\<close>), given the reader's confirmation and the hub's answer; and the
  candidates of the palette.
\<close>

subsection \<open>Expanded folders\<close>

fun ancestors_from :: "jstr \<Rightarrow> jstr list \<Rightarrow> jstr list" where
  "ancestors_from acc (x # y # zs) =
     (let a = (if acc \<noteq> [] then acc @ js ''/'' @ x else x) in a # ancestors_from a (y # zs))"
| "ancestors_from acc _ = []"

definition ancestorsOf :: "jstr \<Rightarrow> jstr list" where
  "ancestorsOf p = ancestors_from [] (split_on 47 p)"

text \<open>The first tree opens a lone folder at the root; the flag says whether it is still to come.\<close>

definition first_tree :: "Node option \<Rightarrow> bool \<Rightarrow> jstr set \<Rightarrow> bool \<times> jstr set" where
  "first_tree tree firstLoad ex =
     (case tree of
        None \<Rightarrow> (firstLoad, ex)
      | Some t \<Rightarrow>
          if \<not> firstLoad then (firstLoad, ex)
          else case filter ndir (nchildren t) of [d] \<Rightarrow> (False, insert (npath d) ex) | _ \<Rightarrow> (False, ex))"

definition unfold_to :: "jstr set \<Rightarrow> jstr \<Rightarrow> bool \<Rightarrow> jstr set \<Rightarrow> jstr set" where
  "unfold_to dirSet p isLoaded ex =
     (if p = [] \<or> \<not> isLoaded then ex
      else ex \<union> set (ancestorsOf p) \<union> (if p \<in> dirSet then {p} else {}))"

definition onToggle :: "jstr \<Rightarrow> jstr set \<Rightarrow> jstr set" where
  "onToggle p ex = (if p \<in> ex then ex - {p} else insert p ex)"

text \<open>The tree as \<open>useTree\<close> hands it on: below the root every path is rebuilt from the names.\<close>

definition repathed :: "Node \<Rightarrow> Node" where
  "repathed n = Node (nname n) (npath n) (ndir n) (ntime n) (map (repath []) (nchildren n))"

fun names_ok :: "Node \<Rightarrow> bool" where
  "names_ok (Node nm p d t cs) = (nm \<noteq> [] \<and> 47 \<notin> set nm \<and> (d \<or> cs = []) \<and> list_all names_ok cs)"

fun paths_ok :: "jstr \<Rightarrow> Node list \<Rightarrow> bool" where
  "paths_ok pre [] = True"
| "paths_ok pre (c # cs) = (npath c = child_path pre (nname c) \<and> nname c \<noteq> [] \<and> 47 \<notin> set (nname c) \<and> paths_ok (npath c) cs)"

lemma repath_simps [simp]: "npath (repath pre n) = child_path pre (nname n)" "nname (repath pre n) = nname n"
  "nchildren (repath pre n) = (if ndir n then map (repath (child_path pre (nname n))) (nchildren n) else nchildren n)"
  by (cases n; simp)+

lemma chain_paths:
  "chain n cs \<Longrightarrow> nchildren n = map (repath pre) ks \<Longrightarrow> list_all names_ok ks \<Longrightarrow> paths_ok pre cs"
proof (induction cs arbitrary: n pre ks)
  case (Cons c cs)
  then obtain k where k: "k \<in> set ks" "c = repath pre k" by auto
  with Cons.prems(3) have ok: "names_ok k" by (simp add: list_all_iff)
  then have names: "nname k \<noteq> []" "47 \<notin> set (nname k)" "list_all names_ok (nchildren k)" "ndir k \<or> nchildren k = []"
    by (cases k; simp)+
  have "nchildren c = map (repath (npath c)) (nchildren k)" using k(2) names(4) by auto
  then have "paths_ok (npath c) cs" using Cons.IH [of c "npath c" "nchildren k"] Cons.prems(1) names(3) by simp
  then show ?case using k(2) names by simp
qed simp

lemma child_path_ne: "nm \<noteq> [] \<Longrightarrow> child_path pre nm \<noteq> []"
  by (simp add: child_path_def)

lemma ancestors_paths: "paths_ok pre cs \<Longrightarrow> ancestors_from pre (map nname cs) = map npath (butlast cs)"
proof (induction cs arbitrary: pre)
  case (Cons c cs)
  then show ?case by (cases cs) (auto simp: child_path_def Let_def split: if_splits)
qed simp

lemma last_path: "paths_ok pre cs \<Longrightarrow> cs \<noteq> [] \<Longrightarrow> npath (last cs) = child_path pre (join [47] (map nname cs))"
proof (induction cs arbitrary: pre)
  case (Cons c cs)
  show ?case
  proof (cases cs)
    case (Cons e es)
    with Cons.prems Cons.IH [of "npath c"] show ?thesis by (auto simp: child_path_def js_def)
  qed (use Cons.prems in simp)
qed simp

lemma last_extends:
  "paths_ok pre cs \<Longrightarrow> c \<in> set cs \<Longrightarrow> npath (last cs) = npath c \<or> starts_with (npath (last cs)) (npath c @ js ''/'')"
proof (induction cs arbitrary: pre)
  case (Cons e es)
  show ?case
  proof (cases "c = e \<and> es \<noteq> []")
    case True
    then have "npath (last es) = child_path (npath e) (join [47] (map nname es))"
      using last_path Cons.prems(1) by auto
    moreover have "npath e \<noteq> []" using Cons.prems(1) child_path_ne by auto
    ultimately show ?thesis using True by (simp add: child_path_def starts_with_iff)
  next
    case False
    then show ?thesis using Cons by auto
  qed
qed simp

lemma split_names: "list_all (\<lambda>x. 47 \<notin> set x) ns \<Longrightarrow> ns \<noteq> [] \<Longrightarrow> split_on 47 (join [47] ns) = ns"
  by (rule split_on_join) (auto simp: list_all_iff)

text \<open>C13: Opening a path leads the sidebar to it: for any file or folder of the tree as it was loaded, once
  the page has unfolded the way to it the rows of the sidebar hold its row, whatever was folded before,
  however the tree is sorted and capped; only a conflict copy folded into its original has none.\<close>

theorem open_path_has_row:
  assumes "list_all names_ok (nchildren tr)" "chain (repathed tr) cs" "cs \<noteq> []"
    "list_all (\<lambda>c. \<not> isFoldedCopy (npath c) (stats ro)) cs" "list_all ndir (butlast cs)"
  shows "\<exists>d. node_row (ro\<lparr>keep := npath (last cs), expanded := unfold_to dirSet (npath (last cs)) True ex\<rparr>) (last cs) d
    \<in> set (buildRows (ro\<lparr>keep := npath (last cs), expanded := unfold_to dirSet (npath (last cs)) True ex\<rparr>) (Some (repathed tr)))"
proof -
  let ?p = "npath (last cs)"
  let ?op = "ro\<lparr>keep := ?p, expanded := unfold_to dirSet ?p True ex\<rparr>"
  have ok: "paths_ok [] cs" by (rule chain_paths [OF assms(2) _ assms(1)]) (simp add: repathed_def)
  have names: "list_all (\<lambda>x. 47 \<notin> set x) (map nname cs)"
  proof -
    have "paths_ok pre cs \<Longrightarrow> list_all (\<lambda>x. 47 \<notin> set x) (map nname cs)" for pre cs
      by (induction pre cs rule: paths_ok.induct) auto
    with ok show ?thesis by blast
  qed
  have p: "?p = join [47] (map nname cs)" using last_path [OF ok assms(3)] by (simp add: child_path_def)
  have ne: "?p \<noteq> []"
  proof -
    obtain c es where cs: "cs = c # es" using assms(3) by (cases cs) auto
    then have "npath c \<noteq> []" using ok child_path_ne by auto
    with last_extends [OF ok, of c] cs show ?thesis by (auto simp: starts_with_iff)
  qed
  have "ancestorsOf ?p = map npath (butlast cs)"
    unfolding ancestorsOf_def p using split_names [OF names] ancestors_paths [OF ok] assms(3) by simp
  then have "\<forall>c \<in> set (butlast cs). ndir c \<and> npath c \<in> expanded ?op"
    using assms(5) ne by (auto simp: unfold_to_def list_all_iff)
  moreover have "\<forall>c \<in> set cs. onKeepPath ?op (npath c) \<and> \<not> isFoldedCopy (npath c) (stats ?op)"
    using assms(4) last_extends [OF ok] by (auto simp: onKeepPath_def list_all_iff)
  ultimately show ?thesis
    using level_reaches [OF assms(2,3), of ?op 0] by (simp add: buildRows_def)
qed

definition w_root :: Node where
  "w_root = Node [] [] True None
     [Node (js ''d'') [] True None [Node (js ''a'') [] False None [], Node (js ''b'') [] False None []], Node (js ''e'') [] True None []]"

definition w_ops :: RowOpts where
  "w_ops = \<lparr>expanded = {}, showAll = {}, stats = treeStats (\<lambda>_. None) None 0, keep = [], cap = 1, recent = False\<rparr>"

lemma open_path_has_row_witness:
  "\<exists>n d. npath n = js ''d/b'' \<and> NodeRow n d 0 0 \<in> set (buildRows (w_ops\<lparr>keep := js ''d/b'', expanded := unfold_to {} (js ''d/b'') True {}\<rparr>) (Some (repathed w_root)))"
proof -
  let ?b = "Node (js ''b'') (js ''d/b'') False None []"
  let ?d = "Node (js ''d'') (js ''d'') True None [Node (js ''a'') (js ''d/a'') False None [], ?b]"
  have r: "nchildren (repathed w_root) = [?d, Node (js ''e'') (js ''e'') True None []]" by code_simp
  have h: "list_all names_ok (nchildren w_root)" "list_all (\<lambda>c. \<not> isFoldedCopy (npath c) (stats w_ops)) [?d, ?b]" by code_simp+
  have c: "chain (repathed w_root) [?d, ?b]" by (simp add: r)
  obtain d where d: "node_row (w_ops\<lparr>keep := js ''d/b'', expanded := unfold_to {} (js ''d/b'') True {}\<rparr>) ?b d
      \<in> set (buildRows (w_ops\<lparr>keep := js ''d/b'', expanded := unfold_to {} (js ''d/b'') True {}\<rparr>) (Some (repathed w_root)))"
    using open_path_has_row [OF h(1) c _ h(2), of "{}" "{}"] by auto
  have z: "conflicts (stats w_ops) (js ''d/b'') = None" by code_simp
  then have "node_row (w_ops\<lparr>keep := js ''d/b'', expanded := unfold_to {} (js ''d/b'') True {}\<rparr>) ?b d = NodeRow ?b d 0 0"
    by (simp add: node_row_def map_or_def)
  with d show ?thesis by (intro exI [of _ ?b] exI [of _ d]) simp
qed

subsection \<open>Scroll memo\<close>

record Scroll =
  memo :: "jstr \<rightharpoonup> int"
  goal :: Goal

definition scroll_rendered :: "jstr \<Rightarrow> Scroll \<Rightarrow> int option \<times> Scroll" where
  "scroll_rendered k s = (case applyGoal k (goal s) of (t, g) \<Rightarrow> (t, s\<lparr>goal := g\<rparr>))"

definition scroll_arrive :: "jstr \<Rightarrow> NavType \<Rightarrow> Scroll \<Rightarrow> int option \<times> Scroll" where
  "scroll_arrive k nt s =
     scroll_rendered k (s\<lparr>goal := armGoal k (if nt = POP then (case memo s k of Some v \<Rightarrow> v | None \<Rightarrow> 0) else 0)\<rparr>)"

definition on_scroll :: "jstr \<Rightarrow> int \<Rightarrow> int \<Rightarrow> Scroll \<Rightarrow> Scroll" where
  "on_scroll k tp mx s = s\<lparr>memo := (memo s)(k \<mapsto> tp), goal := noteScroll k tp mx (goal s)\<rparr>"

datatype AtPage = Landed | Moved int int

definition at_page :: "jstr \<Rightarrow> AtPage \<Rightarrow> Scroll \<Rightarrow> Scroll" where
  "at_page k ev s = (case ev of Landed \<Rightarrow> snd (scroll_rendered k s) | Moved tp mx \<Rightarrow> on_scroll k tp mx s)"

lemma at_page_memo: "j \<noteq> k \<Longrightarrow> memo (foldl (\<lambda>s ev. at_page j ev s) s evs) k = memo s k"
proof (induction evs arbitrary: s)
  case (Cons ev evs)
  then have "memo (at_page j ev s) k = memo s k"
    by (auto simp: at_page_def scroll_rendered_def on_scroll_def split: AtPage.split prod.split)
  with Cons show ?case by simp
qed simp

text \<open>Back returns the reader to where they were: after scrolling a page to an offset, opening another
  page and doing anything there, going back scrolls to that offset, whatever goal the page left behind
  was still trying to reach.\<close>

theorem back_returns_to_offset:
  assumes "j \<noteq> k"
  shows "fst (scroll_arrive k POP (foldl (\<lambda>s ev. at_page j ev s) (snd (scroll_arrive j PUSH (on_scroll k y mx s))) evs)) = Some y"
proof -
  let ?s = "foldl (\<lambda>s ev. at_page j ev s) (snd (scroll_arrive j PUSH (on_scroll k y mx s))) evs"
  have "memo ?s k = memo (snd (scroll_arrive j PUSH (on_scroll k y mx s))) k" by (rule at_page_memo [OF assms])
  also have "\<dots> = Some y"
    by (simp add: scroll_arrive_def scroll_rendered_def on_scroll_def split: prod.split)
  finally show ?thesis by (simp add: scroll_arrive_def scroll_rendered_def applyGoal_def armGoal_def MAX_APPLY_def)
qed

lemma back_returns_to_offset_witness:
  "fst (scroll_arrive (js ''/a'') POP (foldl (\<lambda>s ev. at_page (js ''/b'') ev s)
     (snd (scroll_arrive (js ''/b'') PUSH (on_scroll (js ''/a'') 240 900 \<lparr>memo = Map.empty, goal = armGoal [] 0\<rparr>))) [Landed, Moved 5 10])) = Some 240"
  by (rule back_returns_to_offset) (simp add: js_def)

subsection \<open>Fullscreen\<close>

record Screen =
  nav :: Nav
  pushed :: bool

definition shown_path :: "Screen \<Rightarrow> jstr" where
  "shown_path s = Route.rpath (parseRoute (Nav.cur (nav s)) True)"

text \<open>The effect on the path: another file than before forgets who entered fullscreen.\<close>

definition settle_path :: "jstr \<Rightarrow> Screen \<Rightarrow> Screen" where
  "settle_path old s = (if shown_path s = old then s else s\<lparr>pushed := False\<rparr>)"

definition enterFull :: "jstr \<Rightarrow> Screen \<Rightarrow> Screen" where
  "enterFull fullUrl s = settle_path (shown_path s) (s\<lparr>pushed := True, nav := navigate fullUrl False (nav s)\<rparr>)"

definition exitFull :: "jstr \<Rightarrow> Screen \<Rightarrow> Screen" where
  "exitFull plainUrl s =
     settle_path (shown_path s)
       (if pushed s then s\<lparr>pushed := False, nav := go_back (nav s)\<rparr> else s\<lparr>nav := navigate plainUrl True (nav s)\<rparr>)"

definition screen_open :: "jstr \<Rightarrow> Screen \<Rightarrow> Screen" where
  "screen_open u s = settle_path (shown_path s) (s\<lparr>nav := navigate u False (nav s)\<rparr>)"

definition screen_back :: "Screen \<Rightarrow> Screen" where
  "screen_back s = settle_path (shown_path s) (s\<lparr>nav := go_back (nav s)\<rparr>)"

definition esc_exits :: "bool \<Rightarrow> bool \<Rightarrow> jstr \<Rightarrow> bool" where
  "esc_exits isFull paletteOpen k \<longleftrightarrow> isFull \<and> k = js ''Escape'' \<and> \<not> paletteOpen"

text \<open>Leaving a fullscreen that was entered by the button is back at the entry it was entered from, with
  no entry added in between.\<close>

lemma exit_undoes_enter:
  assumes "fullUrl \<noteq> Nav.cur (nav s)" "Route.rpath (parseRoute fullUrl True) = shown_path s"
  shows "Nav.cur (nav (exitFull plain (enterFull fullUrl s))) = Nav.cur (nav s) \<and> past (nav (exitFull plain (enterFull fullUrl s))) = past (nav s)"
  using assms by (simp add: exitFull_def enterFull_def settle_path_def shown_path_def navigate_def go_back_def popstate_def)

text \<open>The note of who entered outlives the entry: with the address of a fullscreen file opened first, the
  plain page of the same file after it, fullscreen entered and left by Back, and Back again, Exit goes
  back once more and stays in fullscreen, or leaves the site.\<close>

lemma exit_goes_too_far:
  "let s0 = \<lparr>nav = \<lparr>past = [], cur = js ''/p-0a1b2c3d/a.md?full=1'', ahead = [], navType = POP, heard = 0\<rparr>, pushed = False\<rparr>;
       s1 = enterFull (js ''/p-0a1b2c3d/a.md?full=1'') (screen_open (js ''/p-0a1b2c3d/a.md'') s0);
       s2 = screen_back (screen_back s1)
   in Nav.cur (nav s2) = js ''/p-0a1b2c3d/a.md?full=1'' \<and> pushed s2
      \<and> Nav.cur (nav (exitFull (js ''/p-0a1b2c3d/a.md'') s2)) = js ''/p-0a1b2c3d/a.md?full=1''"
  by code_simp

subsection \<open>Comments, overlays\<close>

record Review =
  r_open :: bool
  r_focus :: "jstr option"
  r_pick :: bool

definition review_path :: "Review \<Rightarrow> Review" where
  "review_path s = s\<lparr>r_focus := None, r_pick := False\<rparr>"

definition review_link :: "jstr option \<Rightarrow> Review \<Rightarrow> Review" where
  "review_link c s = (if truthy c then s\<lparr>r_open := True, r_focus := c\<rparr> else s)"

definition review_toggle :: "Review \<Rightarrow> Review" where
  "review_toggle s = s\<lparr>r_open := \<not> r_open s\<rparr>"

definition review_close :: "Review \<Rightarrow> Review" where
  "review_close s = s\<lparr>r_open := False, r_pick := False\<rparr>"

definition comments_title :: "nat \<Rightarrow> jstr" where
  "comments_title n =
     (if n \<noteq> 0 then nat_str n @ js '' open comment'' @ (if n = 1 then [] else js ''s'') else js ''Comments'')"

text \<open>The palette: whether it is open, and what it starts with.\<close>

definition palette_key :: "bool \<Rightarrow> jstr \<Rightarrow> bool \<times> jstr \<Rightarrow> bool \<times> jstr" where
  "palette_key modi k s = (if modi \<and> ascii_lower k = js ''k'' then (\<not> fst s, []) else s)"

definition palette_request :: "jstr option \<Rightarrow> bool \<times> jstr" where
  "palette_request q = (True, case q of None \<Rightarrow> [] | Some t \<Rightarrow> t)"

definition historyNow :: "Desk \<Rightarrow> jstr option" where
  "historyNow d =
     urlForView VHistory (pid_of d) (Some (if dpath_of d = [] then [] else if isDir d then dpath_of d @ js ''/'' else dpath_of d)) None"

end
