(* ===== verification/PageActions.thy ===== *)
theory PageActions
  imports Surface
begin

section \<open>The page's actions (apps/Browser.tsx) and the sidebar's rows (components/FileTree.tsx)\<close>

text \<open>
  An action is the list of what it does, in order, given the reader's confirmation and the hub's answers:
  asking, marking itself busy, posting, dropping cached queries, a notice, navigating. An answer is an
  error text or a value.
\<close>

datatype Fx = Ask jstr jstr jstr bool | Busy jstr | Posted jstr "(jstr \<times> jstr) list" | PutEmpty jstr | Drop "jstr list"
  | Notify jstr bool | GoTo "jstr option" | CloseDrawer | ClosePanel | OpenShare | CopyText jstr

subsection \<open>Restore and remove\<close>

definition dropped :: "jstr \<Rightarrow> jstr list \<Rightarrow> Fx list" where
  "dropped api rend =
     [Drop [js ''history'', api], Drop [js ''tree'', api], Drop ([js ''render'', api] @ rend), Drop [js ''text'']]"

definition restore_body :: "bool \<Rightarrow> jstr" where
  "restore_body recr =
     js ''It syncs to every device as a new change. ''
     @ (if recr then js ''The file comes back on every device. Removing it again isn't available from History yet.''
        else js ''You can restore any other version afterwards.'')"

definition synced_note :: "string \<Rightarrow> jstr \<Rightarrow> jstr" where
  "synced_note verb p = js verb @ js '' '' @ p @ js '' '' @ [8212] @ js '' it syncs to every device like any other change.''"

definition onRestore :: "jstr \<Rightarrow> bool \<Rightarrow> jstr option \<Rightarrow> jstr \<Rightarrow> jstr \<Rightarrow> bool \<Rightarrow> Fx list" where
  "onRestore api sure err p sha recr =
     Ask (js ''Restore this version of '' @ p @ js ''?'') (restore_body recr) (js ''Restore'') False
     # (if \<not> sure then []
        else Busy (p @ sha) # Posted (api @ js ''restore'') [(js ''path'', p), (js ''sha'', sha)]
          # (case err of None \<Rightarrow> dropped api [p] @ [Notify (synced_note ''Restored'' p) False]
             | Some m \<Rightarrow> [Notify (js ''Restore failed: '' @ m) True]) @ [Busy []])"

definition onRemove :: "jstr \<Rightarrow> bool \<Rightarrow> jstr option \<Rightarrow> jstr \<Rightarrow> Fx list" where
  "onRemove api sure err p =
     Ask (js ''Remove '' @ p @ js ''?'')
       (js ''It disappears from every synced device. History keeps it '' @ [8212] @ js '' you can restore it from the DELETED row afterwards.'')
       (js ''Remove file'') True
     # (if \<not> sure then []
        else Busy p # Posted (api @ js ''remove'') [(js ''path'', p)]
          # (case err of None \<Rightarrow> dropped api [p] @ [Notify (synced_note ''Removed'' p) False]
             | Some m \<Rightarrow> [Notify (js ''Remove failed: '' @ m) True]) @ [Busy []])"

subsection \<open>Undoing a run\<close>

record Plan =
  undone :: "(jstr \<times> jstr) list"
  skipped :: "jstr list"
  refused :: "jstr list"
  changed_after :: "jstr list"

definition plur :: "nat \<Rightarrow> string \<Rightarrow> string \<Rightarrow> jstr" where
  "plur n one many = (if n = 1 then js one else js many)"

definition undo_row :: "Plan \<Rightarrow> jstr \<times> jstr \<Rightarrow> jstr" where
  "undo_row pl a =
     fst a @ (if fst a \<in> set (changed_after pl) then js ''changed after this run'' else [])
     @ (if snd a = js ''remove'' then js ''remove (the run created it)'' else js ''restore to pre-run version'')"

text \<open>The lines of the dialog.\<close>

definition undo_dialog :: "Run \<Rightarrow> Plan \<Rightarrow> jstr list" where
  "undo_dialog run pl =
     (let n = length (undone pl); k = length (remdups (changed_after pl)); s = length (skipped pl); f = length (refused pl)
      in [(if rnote run \<noteq> [] then rnote run else str_or (rsession run) (rnote run)) @ [32, 8212, 32] @ nat_str n @ js '' file'' @ plur n '''' ''s'']
         @ map (undo_row pl) (undone pl)
         @ (if k > 0 then [nat_str k @ js '' file'' @ plur k '' was'' ''s were'' @ js '' changed by someone else after this run. Undoing overwrites ''
               @ plur k ''that change'' ''those changes'' @ js '' too.''] else [])
         @ (if s > 0 then [nat_str s @ js '' already hold'' @ plur s ''s'' '''' @ js '' its pre-run content and will be left alone.''] else [])
         @ (if f > 0 then [nat_str f @ js '' path'' @ plur f '''' ''s'' @ js '' can't be written by the hub and will be left alone: ''
               @ join (js '', '') (refused pl) @ js ''.''] else []))"

definition run_select :: "Run \<Rightarrow> (jstr \<times> jstr) list" where
  "run_select run =
     (if truthy (rsession run) then [(js ''session'', the (rsession run))] else [(js ''note'', rnote run)])
     @ (case Run.entries run of [] \<Rightarrow> [] | e # es \<Rightarrow> if device_id e = [] then [] else [(js ''device'', device_id e)])"

definition onUndoRun :: "jstr \<Rightarrow> (jstr + Plan) \<Rightarrow> bool \<Rightarrow> (jstr + Plan) \<Rightarrow> Run \<Rightarrow> Fx list" where
  "onUndoRun api preview sure answer run =
     Busy (str_or (rsession run) (rnote run))
     # Posted (api @ js ''undo-run'') (run_select run @ [(js ''preview'', js ''true'')])
     # (case preview of
          Inl m \<Rightarrow> [Notify (js ''Undo failed: '' @ m) True]
        | Inr pl \<Rightarrow>
            if undone pl = []
            then [Notify (js ''Nothing to undo '' @ [8212] @ js '' every file this run touched already holds its pre-run content.'') False]
            else Ask (js ''Undo this run?'') (concat (undo_dialog run pl)) (js ''Undo run'') True
              # (if \<not> sure then []
                 else Posted (api @ js ''undo-run'') (run_select run)
                   # (case answer of
                        Inl m \<Rightarrow> [Notify (js ''Undo failed: '' @ m) True]
                      | Inr done_pl \<Rightarrow>
                          dropped api [] @ [Notify (js ''Undid '' @ nat_str (length (undone done_pl)) @ js '' file'' @ plur (length (undone done_pl)) '''' ''s''
                            @ (if skipped done_pl = [] then [] else js '', skipped '' @ nat_str (length (skipped done_pl)) @ js '' (already current)'') @ js ''.'') False])))
     @ [Busy []]"

text \<open>What a request asks the hub to write: not the preview.\<close>

fun writes :: "Fx \<Rightarrow> bool" where
  "writes (Posted u b) = (js ''preview'' \<notin> fst ` set b)"
| "writes (PutEmpty u) = True"
| "writes _ = False"

text \<open>Everything before the first write of a list of effects.\<close>

definition before_write :: "Fx list \<Rightarrow> Fx list" where
  "before_write fs = takeWhile (\<lambda>f. \<not> writes f) fs"

definition asked :: "Fx list \<Rightarrow> bool" where
  "asked fs \<longleftrightarrow> list_ex (\<lambda>f. case f of Ask _ _ _ _ \<Rightarrow> True | _ \<Rightarrow> False) fs"

definition confirmed_write :: "bool \<Rightarrow> Fx list \<Rightarrow> bool" where
  "confirmed_write sure fs \<longleftrightarrow> (if list_ex writes fs then sure \<and> asked (before_write fs) else True)"

lemma run_select_no_preview: "js ''preview'' \<notin> fst ` set (run_select run)"
  by (auto simp: run_select_def js_def split: list.split)

lemma dropped_reads: "\<not> list_ex writes (dropped api q)" "list_ex writes (dropped api q @ fs) = list_ex writes fs"
  by (simp_all add: dropped_def)

text \<open>C12: No action of the history writes before the reader confirmed it: restoring, removing and undoing a
  run ask first and send nothing that writes when the answer is no, the run's preview writes nothing and
  a preview with nothing to undo, or that failed, ends there; and each leaves no button marked busy,
  whether the hub answers with success or with an error.\<close>

theorem writes_are_confirmed:
  "confirmed_write sure (onRestore api sure err p sha recr) \<and> confirmed_write sure (onRemove api sure err p)
   \<and> confirmed_write sure (onUndoRun api preview sure answer run)
   \<and> (case preview of Inl m \<Rightarrow> \<not> list_ex writes (onUndoRun api preview sure answer run)
      | Inr q \<Rightarrow> (if undone q = [] then \<not> list_ex writes (onUndoRun api preview sure answer run) else True))
   \<and> last (onUndoRun api preview sure answer run) = Busy []
   \<and> (if sure then last (onRestore api sure err p sha recr) = Busy [] \<and> last (onRemove api sure err p) = Busy []
      else list_all (\<lambda>f. case f of Busy b \<Rightarrow> False | _ \<Rightarrow> True) (onRestore api sure err p sha recr @ onRemove api sure err p))"
proof -
  have w: "\<not> writes (Ask a b c e)" "\<not> writes (Busy t)" "\<not> writes (Notify t f)" for a b c e t f by simp_all
  have pv: "\<not> writes (Posted u (run_select run @ [(js ''preview'', v)]))" for u v by simp
  have r: "confirmed_write sure (onRestore api sure err p sha recr)" "confirmed_write sure (onRemove api sure err p)"
    by (auto simp: confirmed_write_def onRestore_def onRemove_def before_write_def asked_def js_def)
  have u: "confirmed_write sure (onUndoRun api preview sure answer run)"
    using pv run_select_no_preview
    by (auto simp: confirmed_write_def onUndoRun_def before_write_def asked_def dropped_reads split: sum.split)
  have n: "case preview of Inl m \<Rightarrow> \<not> list_ex writes (onUndoRun api preview sure answer run)
      | Inr q \<Rightarrow> (if undone q = [] then \<not> list_ex writes (onUndoRun api preview sure answer run) else True)"
    by (auto simp: onUndoRun_def split: sum.split)
  have b: "last (onUndoRun api preview sure answer run) = Busy []" by (simp add: onUndoRun_def)
  have c: "if sure then last (onRestore api sure err p sha recr) = Busy [] \<and> last (onRemove api sure err p) = Busy []
      else list_all (\<lambda>f. case f of Busy b \<Rightarrow> False | _ \<Rightarrow> True) (onRestore api sure err p sha recr @ onRemove api sure err p)"
    by (simp add: onRestore_def onRemove_def)
  show ?thesis using r u n b c by simp
qed

subsection \<open>Copying, sharing, new files\<close>

text \<open>The copy of the open file: the fetched body or an error, and whether the clipboard took it.\<close>

definition copyNow :: "(jstr + BlobText) \<Rightarrow> bool \<Rightarrow> jstr \<Rightarrow> Fx list" where
  "copyNow body ok p =
     (case body of
        Inl m \<Rightarrow> [Notify (js ''Copy failed: '' @ m) True]
      | Inr (TextBlob t) \<Rightarrow>
          [CopyText t, Notify (if ok then js ''Copied '' @ p else js ''Copy failed '' @ [8212] @ js '' the clipboard needs a secure (https) origin.'') (\<not> ok)]
      | Inr (TooLarge _) \<Rightarrow> [Notify (js ''Too large to copy '' @ [8212] @ js '' use Download.'') True]
      | Inr Binary \<Rightarrow> [Notify (js ''That file isn't text '' @ [8212] @ js '' use Download.'') True])"

definition webBase :: "bool \<Rightarrow> jstr option \<Rightarrow> (jstr \<times> jstr) list \<Rightarrow> jstr option" where
  "webBase desktop pid mounts = (if desktop then case pid of None \<Rightarrow> None | Some i \<Rightarrow> map_of mounts i else None)"

definition copyWebLink :: "jstr option \<Rightarrow> jstr \<Rightarrow> bool \<Rightarrow> Fx list" where
  "copyWebLink b pathname ok =
     (if \<not> truthy b then [] else let u = the b @ pathname in [CopyText u, Notify (if ok then js ''Web link copied'' else u) (\<not> ok)])"

definition copyPath :: "jstr \<Rightarrow> bool \<Rightarrow> Fx list" where
  "copyPath p ok = [CopyText p, Notify (if ok then js ''Path copied'' else p) (\<not> ok)]"

definition openPath :: "Desk \<Rightarrow> jstr \<Rightarrow> jstr option \<Rightarrow> Fx list" where
  "openPath d p v = [GoTo (urlForPath p (pid_of d) v False False), CloseDrawer]"

definition tree_open :: "Desk \<Rightarrow> jstr \<Rightarrow> Fx list" where
  "tree_open d p = ClosePanel # openPath d p None"

definition copyShareLink :: "Desk \<Rightarrow> (jstr \<times> jstr) list \<Rightarrow> bool \<Rightarrow> jstr \<Rightarrow> Fx list" where
  "copyShareLink d links ok p =
     (case map_of links p of
        Some u \<Rightarrow> [CopyText u, Notify (if ok then js ''Share link copied'' else u) (\<not> ok)]
      | None \<Rightarrow> ClosePanel # openPath d p None @ [OpenShare])"

definition new_name :: "jstr option \<Rightarrow> jstr" where
  "new_name input = (case input of None \<Rightarrow> [] | Some t \<Rightarrow> strip_start 47 (trim t))"

definition newFile :: "jstr \<Rightarrow> Desk \<Rightarrow> jstr \<Rightarrow> jstr option \<Rightarrow> jstr option \<Rightarrow> Fx list" where
  "newFile api d fld input err =
     (let nm = new_name input; p = (if fld \<noteq> [] then fld @ js ''/'' else []) @ nm
      in if nm = [] then []
         else if p \<in> set (fls d) \<or> p \<in> set (dirs d) then [Notify (p @ js '' already exists'') True]
         else case encodeURIComponent p of
                None \<Rightarrow> [Notify (js ''Could not create '' @ p @ js '': URI malformed'') True]
              | Some q \<Rightarrow>
                  PutEmpty (api @ js ''upload/content?path='' @ q)
                  # (case err of
                       Some m \<Rightarrow> [Notify (js ''Could not create '' @ p @ js '': '' @ m) True]
                     | None \<Rightarrow> [Drop [js ''tree'', api], GoTo (urlForPath p (pid_of d) None False True), CloseDrawer]))"

text \<open>A new file never empties one that the page's tree has, and a name of slashes and spaces alone does
  nothing.\<close>

lemma new_file_spares_tree:
  "PutEmpty u \<in> set (newFile api d fld input err) \<Longrightarrow>
     new_name input \<noteq> [] \<and> (if fld \<noteq> [] then fld @ js ''/'' else []) @ new_name input \<notin> set (fls d) \<union> set (dirs d)"
  by (auto simp: newFile_def Let_def split: if_splits option.splits)

text \<open>Which row actions the tree gets.\<close>

record RowActs =
  a_new :: bool
  a_pin :: bool
  a_share :: bool
  a_history :: bool
  a_insights :: bool
  a_remove :: bool

definition treeActions :: "Desk \<Rightarrow> RowActs" where
  "treeActions d =
     \<lparr>a_new = canWrite d, a_pin = (in_project d \<and> truthy (pid_of d)), a_share = (in_project d \<and> atLeast (perm_of d) ''write''),
      a_history = in_project d, a_insights = in_project d, a_remove = canRestore d\<rparr>"

subsection \<open>The palette's candidates\<close>

datatype Chosen = AGo "jstr option" | ANavigate jstr | AShare | AHistory | ADownload | APrint | ACopy | ASignOut | AOpen jstr

record PItem =
  p_icon :: jstr
  p_label :: jstr
  p_hint :: "jstr option"
  p_kind :: jstr
  p_group :: "jstr option"
  p_act :: Chosen

definition go_item :: "string \<Rightarrow> string \<Rightarrow> jstr option \<Rightarrow> PItem" where
  "go_item icon lbl u =
     \<lparr>p_icon = js icon, p_label = js lbl, p_hint = None, p_kind = js ''page'', p_group = Some (js ''Go to''), p_act = AGo u\<rparr>"

definition page_items :: "Desk \<Rightarrow> PItem list" where
  "page_items d =
     (case (hub d, proj d) of
        (True, Some p) \<Rightarrow>
          [\<lparr>p_icon = js ''home'', p_label = pr_name p, p_hint = Some (js ''Home''), p_kind = js ''project'', p_group = Some (js ''Go to''),
            p_act = AGo (Some (47 # pr_id p))\<rparr>,
           go_item ''activity'' ''Activity'' (urlForView VHistory (Some (pr_id p)) None None),
           go_item ''insights'' ''Insights'' (urlForView VDashboard (Some (pr_id p)) None None),
           go_item ''gear'' ''Settings'' (urlForView VSettings (Some (pr_id p)) None None),
           go_item ''laptop'' ''Connect a device'' (urlForView VInstall (Some (pr_id p)) None None)]
      | _ \<Rightarrow> [])"

definition act_item :: "jstr \<Rightarrow> string \<Rightarrow> string \<Rightarrow> Chosen \<Rightarrow> PItem" where
  "act_item nm icon lbl a =
     \<lparr>p_icon = js icon, p_label = js lbl, p_hint = Some nm, p_kind = js ''action'', p_group = Some nm, p_act = a\<rparr>"

definition file_items :: "Desk \<Rightarrow> PItem list" where
  "file_items d =
     (let nm = after_last 47 (dpath_of d)
      in if \<not> in_project d \<or> dpath_of d = [] then []
         else (if canShare d then [act_item nm ''share'' ''Share'' AShare] else [])
           @ [act_item nm ''hist'' ''History'' AHistory]
           @ (if isFile d then [act_item nm ''download'' ''Download'' ADownload] else [])
           @ (if canPrint d then [act_item nm ''printer'' ''Print'' APrint] else [])
           @ (if canCopy d then [act_item nm ''copy'' ''Copy'' ACopy] else []))"

definition project_items :: "Desk \<Rightarrow> (jstr \<times> jstr) list \<Rightarrow> PItem list" where
  "project_items d projects =
     (if hub d
      then map (\<lambda>(i, nm). \<lparr>p_icon = js ''folder'', p_label = nm, p_hint = None, p_kind = js ''project'', p_group = Some (js ''Projects''), p_act = ANavigate (47 # i)\<rparr>)
             (filter (\<lambda>(i, nm). pid_of d \<noteq> Some i) projects)
      else [])"

definition tree_items :: "Desk \<Rightarrow> PItem list" where
  "tree_items d =
     map (\<lambda>p. \<lparr>p_icon = js ''folder'', p_label = p, p_hint = None, p_kind = js ''folder'', p_group = None, p_act = AOpen p\<rparr>) (dirs d)
     @ map (\<lambda>p. \<lparr>p_icon = js ''doc'', p_label = p, p_hint = None, p_kind = js ''file'', p_group = None, p_act = AOpen p\<rparr>)
         (filter (\<lambda>p. parseConflict p = None) (fls d))"

definition paletteCandidates :: "Desk \<Rightarrow> (jstr \<times> jstr) list \<Rightarrow> PItem list" where
  "paletteCandidates d projects =
     page_items d @ file_items d @ project_items d projects
     @ (if auth_on d then [\<lparr>p_icon = js ''power'', p_label = js ''Sign out'', p_hint = None, p_kind = js ''action'', p_group = Some (js ''Account''), p_act = ASignOut\<rparr>] else [])
     @ tree_items d"

definition paletteRecent :: "Desk \<Rightarrow> jstr list \<Rightarrow> jstr list" where
  "paletteRecent d recents = filter (\<lambda>p. p \<noteq> dpath_of d) recents"

definition pinExists :: "Desk \<Rightarrow> jstr \<Rightarrow> bool" where
  "pinExists d p \<longleftrightarrow> p \<in> set (fls d) \<or> p \<in> set (dirs d)"

text \<open>On any address, one that does not resolve included, the palette leads to the project's own pages.\<close>

lemma palette_has_way_out: "in_project d \<Longrightarrow> map p_group (take 5 (paletteCandidates d projects)) = replicate 5 (Some (js ''Go to''))"
  by (auto simp: in_project_def paletteCandidates_def page_items_def go_item_def numeral_eq_Suc)

subsection \<open>A row of the tree (components/FileTree.tsx)\<close>

datatype MenuItem = MIOpen bool | MINew jstr | MIPin bool | MISep | MICopyPath | MICopyLink | MIHist | MIInsights | MIDelete

definition menu_folder :: "jstr \<Rightarrow> bool \<Rightarrow> jstr" where
  "menu_folder p isD = (if isD then p else strip_slash (parentOf p))"

definition RowMenuItems :: "RowActs \<Rightarrow> (jstr \<Rightarrow> bool) \<Rightarrow> (jstr \<Rightarrow> bool) \<Rightarrow> jstr \<Rightarrow> bool \<Rightarrow> MenuItem list" where
  "RowMenuItems a canCreate isPinned p isD =
     [MIOpen isD]
     @ (if a_new a \<and> canCreate (menu_folder p isD) then [MINew (menu_folder p isD)] else [])
     @ (if a_pin a then [MIPin (isPinned p)] else [])
     @ [MISep, MICopyPath]
     @ (if a_share a \<and> \<not> isD then [MICopyLink] else [])
     @ (if a_history a \<or> a_insights a then [MISep] else [])
     @ (if a_history a then [MIHist] else [])
     @ (if a_insights a then [MIInsights] else [])
     @ (if a_remove a \<and> \<not> isD then [MISep, MIDelete] else [])"

text \<open>The menus and the touch that opened one: the pointer of the last press, and the row whose release
  click is still to be swallowed.\<close>

record RowMenus =
  menuFor :: "jstr option"
  contextFor :: "jstr option"
  menuTop :: int
  pointer :: jstr
  pressOpened :: "jstr option"

definition pointer_down :: "jstr \<Rightarrow> RowMenus \<Rightarrow> RowMenus" where
  "pointer_down k s = s\<lparr>pointer := k, pressOpened := None\<rparr>"

definition context_menu_event :: "jstr \<Rightarrow> RowMenus \<Rightarrow> RowMenus" where
  "context_menu_event p s = (if pointer s = js ''touch'' then s\<lparr>pressOpened := Some p\<rparr> else s)"

definition context_open :: "int \<Rightarrow> jstr \<Rightarrow> bool \<Rightarrow> RowMenus \<Rightarrow> RowMenus" where
  "context_open tp p opens s =
     (if opens
      then s\<lparr>menuTop := tp, pressOpened := (if pointer s \<noteq> [] \<and> pointer s \<noteq> js ''mouse'' then Some p else pressOpened s), contextFor := Some p\<rparr>
      else s\<lparr>pressOpened := (if pressOpened s = Some p then None else pressOpened s),
             contextFor := (if contextFor s = Some p then None else contextFor s)\<rparr>)"

definition dropdown_open :: "int \<Rightarrow> jstr \<Rightarrow> bool \<Rightarrow> RowMenus \<Rightarrow> RowMenus" where
  "dropdown_open tp p opens s = (if opens then s\<lparr>menuTop := tp, menuFor := Some p\<rparr> else s\<lparr>menuFor := None\<rparr>)"

text \<open>A scroll closes a menu once it passed 28 pixels: the drop-down by its state, the context menu by an
  Escape of its own.\<close>

definition tree_scroll :: "int \<Rightarrow> RowMenus \<Rightarrow> RowMenus \<times> bool" where
  "tree_scroll tp s =
     (if menuFor s = None \<and> contextFor s = None \<or> \<bar>tp - menuTop s\<bar> < 28 then (s, False)
      else (s\<lparr>menuFor := None\<rparr>, contextFor s \<noteq> None))"

datatype Clicked = Swallowed | Folded | Opened bool

definition row_click :: "jstr \<Rightarrow> bool \<Rightarrow> jstr \<Rightarrow> bool \<Rightarrow> RowMenus \<Rightarrow> Clicked \<times> RowMenus" where
  "row_click p isD current listing s =
     (if pressOpened s = Some p then (Swallowed, s\<lparr>pressOpened := None\<rparr>)
      else if isD \<and> current = p \<and> listing then (Folded, s)
      else (Opened (\<not> isD), s))"

text \<open>What a key on the row does: the context menu, or a click.\<close>

definition row_activates :: "bool \<Rightarrow> jstr \<Rightarrow> bool \<Rightarrow> bool option" where
  "row_activates on_row k shift =
     (if \<not> on_row then None
      else if k = js ''F10'' \<and> shift \<or> k = js ''ContextMenu'' then Some False
      else if k = js ''Enter'' \<or> k = js '' '' then Some True else None)"

definition row_index_of :: "TreeRow list \<Rightarrow> jstr \<Rightarrow> nat option" where
  "row_index_of rws p =
     (let hit = (\<lambda>i. case rws ! i of NodeRow n _ _ _ \<Rightarrow> npath n = p | _ \<Rightarrow> False)
      in if p = [] then None else find hit [0 ..< length rws])"

text \<open>A long press never opens the row it was made on: whichever of the two ways the platform opens the
  menu, the click of the finger that lifts is swallowed, that one click only, and closing the menu before
  it leaves the row as it was, so the next tap opens it.\<close>

theorem long_press_swallows_once:
  "let held = (if native then context_menu_event p (pointer_down (js ''touch'') s) else context_open tp p True (pointer_down (js ''touch'') s))
   in fst (row_click p isD current listing held) = Swallowed
      \<and> fst (row_click p isD current listing (snd (row_click p isD current listing held))) \<noteq> Swallowed
      \<and> fst (row_click p isD current listing (context_open tp p False held)) \<noteq> Swallowed
      \<and> fst (row_click p isD current listing (pointer_down k held)) \<noteq> Swallowed"
  by (auto simp: row_click_def context_menu_event_def context_open_def pointer_down_def js_def Let_def)

subsection \<open>Filter mode (TreeFilter)\<close>

definition FOLDER_LIMIT :: nat where "FOLDER_LIMIT = 5"
definition FILE_LIMIT :: nat where "FILE_LIMIT = 8"

definition shown_hits :: "bool \<Rightarrow> FilterResult \<Rightarrow> FilterHit list" where
  "shown_hits moreFiles fr = take FOLDER_LIMIT (folders fr) @ (if moreFiles then filter_files fr else take FILE_LIMIT (filter_files fr))"

definition more_files :: "bool \<Rightarrow> FilterResult \<Rightarrow> nat option" where
  "more_files moreFiles fr =
     (if \<not> moreFiles \<and> length (filter_files fr) > FILE_LIMIT then Some (length (filter_files fr) - FILE_LIMIT) else None)"

text \<open>What activating a row does: open a hit, or hand the query to the palette.\<close>

datatype HitAct = HOpen jstr bool | HSearch jstr

definition activate_hit :: "FilterHit list \<Rightarrow> jstr \<Rightarrow> nat \<Rightarrow> HitAct" where
  "activate_hit flat q i = (if i < length flat then HOpen (hpath (flat ! i)) (\<not> hdir (flat ! i)) else HSearch (trim q))"

end
