(* ===== verification/FilePage.thy ===== *)
theory FilePage
  imports SharedFile Collab Router Live Csv Meeting
begin

section \<open>The file page: readers and the editing page (components/FileView.tsx)\<close>

text \<open>
  Which reader a file gets and what each shows, the editing page around the shared file, and the links of
  rendered markdown. The cache entry of the file's text is modelled as what it holds: readers and the
  editing page share its key and store different values. The HTML parser is outside: an image is its
  source, a link its address, and the rewriting is a function on them.
\<close>

subsection \<open>The reader of a file\<close>

datatype FileShown = SymlinkShown jstr | EditShown | MarkdownShown | HtmlShown | PdfShown | ImageShown | TextShown "nat option" | SniffShown

definition FileView :: "jstr option \<Rightarrow> bool \<Rightarrow> jstr \<Rightarrow> FileShown" where
  "FileView link edits p =
     (if truthy link then SymlinkShown (the link)
      else if edits then EditShown
      else if MD_EXT p then MarkdownShown
      else if HTML_EXT p then HtmlShown
      else if PDF_EXT p then PdfShown
      else if IMG_EXT p then ImageShown
      else if CSV_EXT p then TextShown (Some (if has_ext [''tsv''] p then 9 else 44))
      else if TEXT_EXT p then TextShown None
      else SniffShown)"

text \<open>A module loaded on demand: whether it is here, whether its import is out, and the view's own state. A
  failed import is forgotten.\<close>

record Module =
  here :: bool
  importing :: bool
  mod_seen :: bool
  mod_failed :: bool
  mod_tries :: nat

definition load_module :: "Module \<Rightarrow> Module" where
  "load_module m = (if here m \<or> importing m then m else m\<lparr>importing := True\<rparr>)"

definition module_effect :: "Module \<Rightarrow> Module" where
  "module_effect m = (if mod_seen m then m else load_module m)"

definition import_ok :: "Module \<Rightarrow> Module" where
  "import_ok m = (if importing m then m\<lparr>here := True, importing := False, mod_seen := True\<rparr> else m)"

definition import_failed :: "Module \<Rightarrow> Module" where
  "import_failed m = (if importing m then m\<lparr>importing := False, mod_failed := True\<rparr> else m)"

definition retry_module :: "Module \<Rightarrow> Module" where
  "retry_module m = module_effect (m\<lparr>mod_failed := False, mod_tries := mod_tries m + 1\<rparr>)"

text \<open>After a failed import trying again starts a new one, and its success shows the editor.\<close>

lemma retry_loads: "importing m \<Longrightarrow> \<not> mod_seen m \<Longrightarrow> \<not> here m \<Longrightarrow> mod_seen (import_ok (retry_module (import_failed m)))"
  by (simp add: import_ok_def retry_module_def import_failed_def module_effect_def load_module_def)

subsection \<open>Symbolic links\<close>

fun link_walk :: "jstr list \<Rightarrow> jstr list \<Rightarrow> jstr list option" where
  "link_walk dir [] = Some dir"
| "link_walk dir (seg # segs) =
     (if seg = [] \<or> seg = js ''.'' then link_walk dir segs
      else if seg = js ''..'' then (if dir = [] then None else link_walk (butlast dir) segs)
      else link_walk (dir @ [seg]) segs)"

definition resolveLink :: "jstr \<Rightarrow> jstr \<Rightarrow> jstr option" where
  "resolveLink fromPath target =
     (if starts_with target (js ''/'') then None
      else map_option (join [47]) (link_walk (butlast (split_on 47 fromPath)) (split_on 47 target)))"

definition link_in_project :: "jstr list \<Rightarrow> jstr option \<Rightarrow> bool" where
  "link_in_project fs resolved \<longleftrightarrow> resolved \<noteq> None \<and> the resolved \<in> set fs"

lemma link_walk_proper:
  "link_walk dir segs = Some res \<Longrightarrow> list_all proper dir \<Longrightarrow> list_all (\<lambda>s. 47 \<notin> set s) segs \<Longrightarrow> list_all proper res"
proof (induction dir segs rule: link_walk.induct)
  case (2 dir seg segs)
  have b: "list_all proper (butlast dir)" using 2(5) by (auto simp: list_all_iff dest: in_set_butlastD)
  show ?case using 2 b by (auto simp: proper_def [of seg] split: if_splits)
qed simp

text \<open>The specification counts: how far below the root a list of segments leads, from a given depth, and
  whether some beginning of it leads above the root.\<close>

definition rise :: "jstr \<Rightarrow> int" where
  "rise seg = (if seg = [] \<or> seg = js ''.'' then 0 else if seg = js ''..'' then -1 else 1)"

definition climbs :: "int \<Rightarrow> jstr list \<Rightarrow> bool" where
  "climbs d segs \<longleftrightarrow> list_ex (\<lambda>n. d + sum_list (map rise (take n segs)) < 0) [0..<Suc (length segs)]"

lemma climbs_iff: "climbs d segs \<longleftrightarrow> (\<exists>n \<le> length segs. d + sum_list (map rise (take n segs)) < 0)"
  unfolding climbs_def list_ex_iff by (auto simp: less_Suc_eq_le simp del: upt_Suc)

lemma climbs_below: "d < 0 \<Longrightarrow> climbs d segs"
  unfolding climbs_iff by (intro exI [of _ 0]) simp

lemma climbs_Cons:
  assumes "0 \<le> d" shows "climbs d (seg # segs) \<longleftrightarrow> climbs (d + rise seg) segs"
proof
  assume "climbs d (seg # segs)"
  then obtain n where n: "n \<le> Suc (length segs)" "d + sum_list (map rise (take n (seg # segs))) < 0" by (auto simp: climbs_iff)
  then obtain m where "n = Suc m" using assms by (cases n) auto
  with n show "climbs (d + rise seg) segs" unfolding climbs_iff by (intro exI [of _ m]) simp
next
  assume "climbs (d + rise seg) segs"
  then obtain n where "n \<le> length segs" "d + rise seg + sum_list (map rise (take n segs)) < 0" by (auto simp: climbs_iff)
  then show "climbs d (seg # segs)" unfolding climbs_iff by (intro exI [of _ "Suc n"]) simp
qed

lemma link_walk_depth:
  "case link_walk dir segs of
     None \<Rightarrow> climbs (int (length dir)) segs
   | Some res \<Rightarrow> \<not> climbs (int (length dir)) segs \<and> int (length res) = int (length dir) + sum_list (map rise segs)"
proof (induction dir segs rule: link_walk.induct)
  case (1 dir)
  then show ?case by (simp add: climbs_iff)
next
  case (2 dir seg segs)
  have dots: "js ''..'' \<noteq> []" "js ''..'' \<noteq> js ''.''" by (simp_all add: js_def)
  consider (skip) "seg = [] \<or> seg = js ''.''" | (top) "seg = js ''..''" "dir = []" | (up) "seg = js ''..''" "dir \<noteq> []"
    | (down) "\<not> (seg = [] \<or> seg = js ''.'')" "seg \<noteq> js ''..''" by blast
  then show ?case
  proof cases
    case skip
    then have "rise seg = 0" by (simp add: rise_def)
    then show ?thesis using 2(1) [OF skip] skip by (simp add: climbs_Cons split: option.splits)
  next
    case top
    then show ?thesis using dots climbs_below [of "-1" segs] by (simp add: climbs_Cons rise_def)
  next
    case up
    then have "int (length dir) + rise seg = int (length (butlast dir))"
      using dots by (cases dir rule: rev_cases) (simp_all add: rise_def)
    then have "climbs (int (length dir)) (seg # segs) = climbs (int (length (butlast dir))) segs"
      "int (length dir) + sum_list (map rise (seg # segs)) = int (length (butlast dir)) + sum_list (map rise segs)"
      using climbs_Cons [of "int (length dir)" seg segs] by simp_all
    then show ?thesis using 2(2) up dots by (simp del: length_butlast split: option.splits)
  next
    case down
    then have "rise seg = 1" by (simp add: rise_def)
    then show ?thesis using 2(3) down by (simp add: climbs_Cons add.commute add.left_commute split: option.splits)
  qed
qed

text \<open>C18: A symbolic link never leads out of the project: it resolves to nothing exactly when its target is
  absolute or some beginning of the target climbs above the root of the project; otherwise, from a file
  whose path has only proper segments, the address it is resolved to has none but proper segments
  either, so no part of it climbs, and lies as deep as the link's folder and the segments of the target
  say.\<close>

theorem link_stays_inside:
  assumes "list_all proper (butlast (split_on 47 fromPath))"
  shows "case resolveLink fromPath target of
      None \<Rightarrow> starts_with target (js ''/'') \<or> climbs (int (length (butlast (split_on 47 fromPath)))) (split_on 47 target)
    | Some p \<Rightarrow> \<not> starts_with target (js ''/'') \<and> \<not> climbs (int (length (butlast (split_on 47 fromPath)))) (split_on 47 target)
        \<and> (p = [] \<or> list_all proper (split_on 47 p))
        \<and> int (if p = [] then 0 else length (split_on 47 p))
            = int (length (butlast (split_on 47 fromPath))) + sum_list (map rise (split_on 47 target))"
proof (cases "starts_with target (js ''/'')")
  case False
  let ?dir = "butlast (split_on 47 fromPath)" and ?segs = "split_on 47 target"
  show ?thesis
  proof (cases "link_walk ?dir ?segs")
    case None
    then show ?thesis using link_walk_depth [of ?dir ?segs] by (simp add: resolveLink_def)
  next
    case (Some res)
    have o: "list_all proper res"
      by (rule link_walk_proper [OF Some assms]) (auto simp: list_all_iff dest: split_on_part)
    have sp: "res = [] \<or> split_on 47 (join [47] res) = res"
      using o by (auto simp: list_all_iff proper_def intro!: split_on_join)
    have ne: "join [47] res = [] \<longleftrightarrow> res = []"
      using o by (auto simp: join_Nil_iff proper_def)
    from o sp ne show ?thesis using Some False link_walk_depth [of ?dir ?segs] by (auto simp: resolveLink_def)
  qed
qed (simp add: resolveLink_def)

lemma link_stays_inside_witness:
  "resolveLink (js ''a/b/l'') (js ''../c/./d'') = Some (js ''a/c/d'') \<and> list_all proper (split_on 47 (js ''a/c/d''))"
proof -
  have r: "resolveLink (js ''a/b/l'') (js ''../c/./d'') = Some (js ''a/c/d'')" by code_simp
  have "list_all proper (butlast (split_on 47 (js ''a/b/l'')))" by code_simp
  from link_stays_inside [OF this, of "js ''../c/./d''"] r show ?thesis by (auto simp: js_def)
qed

subsection \<open>Readers\<close>

text \<open>The cache entry of a file's text: the readers of text store a string, the rest a body.\<close>

datatype Cached = AsString jstr | AsBody BlobText "jstr option"

datatype Reader = LoadFailed jstr | Nothing | Plain jstr | Table Csv | Card jstr | Broken

definition LoadError :: "jstr option \<Rightarrow> jstr \<Rightarrow> jstr" where
  "LoadError vers m = (if truthy vers then js ''That vers isn't available.'' else js ''Could not load file: '' @ m)"

definition SniffView :: "jstr option \<Rightarrow> jstr option \<Rightarrow> BlobText option \<Rightarrow> Reader" where
  "SniffView vers err t =
     (case err of
        Some m \<Rightarrow> LoadFailed (LoadError vers m)
      | None \<Rightarrow> (case t of
            None \<Rightarrow> Nothing
          | Some (TextBlob s) \<Rightarrow> Plain s
          | Some (TooLarge n) \<Rightarrow> Card (js ''Too large to preview ('' @ humanSize n @ js '').'')
          | Some Binary \<Rightarrow> Card (js ''No preview for this file type.'')))"

text \<open>\<open>Broken\<close> is an exception while rendering, which takes the page down to its error boundary.\<close>

definition TextView :: "jstr option \<Rightarrow> nat option \<Rightarrow> jstr option \<Rightarrow> Cached option \<Rightarrow> Reader" where
  "TextView vers delim err c =
     (case err of
        Some m \<Rightarrow> LoadFailed (LoadError vers m)
      | None \<Rightarrow> (case c of
            None \<Rightarrow> Nothing
          | Some (AsBody b sha) \<Rightarrow> Broken
          | Some (AsString s) \<Rightarrow>
              (case (case delim of None \<Rightarrow> None | Some d \<Rightarrow> parseDelimited s d CSV_ROWS) of None \<Rightarrow> Plain s | Some t \<Rightarrow> Table t)))"

definition edit_read :: "BlobText \<times> jstr option \<Rightarrow> Cached" where
  "edit_read r = AsBody (fst r) (snd r)"

text \<open>Reading a text file, then editing it and pressing Done: the entry holds the editing page's value, and
  the reader breaks on it.\<close>

lemma done_breaks_text: "TextView None delim None (Some (edit_read r)) = Broken"
  by (simp add: TextView_def edit_read_def)

definition csv_cols :: "Csv \<Rightarrow> nat" where
  "csv_cols c = foldl (\<lambda>m r. max m (length r)) 0 (Csv.rows c)"

definition csv_cells :: "nat \<Rightarrow> jstr list \<Rightarrow> jstr list" where
  "csv_cells cols row = map (\<lambda>i. if i < length row then row ! i else []) [0 ..< cols]"

definition CsvTable :: "Csv \<Rightarrow> jstr list \<times> jstr list list" where
  "CsvTable c =
     (case Csv.rows c of [] \<Rightarrow> ([], []) | h # body \<Rightarrow> (csv_cells (csv_cols c) h, map (csv_cells (csv_cols c)) body))"

definition csv_note :: "(nat \<Rightarrow> jstr) \<Rightarrow> Csv \<Rightarrow> jstr option" where
  "csv_note num c =
     (if Csv.truncated c > 0
      then Some (js ''showing '' @ num (length (Csv.rows c)) @ js '' of '' @ num (length (Csv.rows c) + Csv.truncated c)
             @ js '' rows '' @ [8212] @ js '' Download for the rest'')
      else None)"

text \<open>Every row of the table has a cell per column, and the cells of a row begin with its own.\<close>

lemma csv_cols_max: "row \<in> set (Csv.rows c) \<Longrightarrow> length row \<le> csv_cols c"
proof -
  have "m \<le> foldl (\<lambda>m r. max m (length r)) m rs \<and> (row \<in> set rs \<longrightarrow> length row \<le> foldl (\<lambda>m r. max m (length r)) m rs)" for m and rs :: "jstr list list"
  proof (induction rs arbitrary: m)
    case (Cons q rs)
    from Cons [of "max m (length q)"] show ?case by auto
  qed simp
  then show "row \<in> set (Csv.rows c) \<Longrightarrow> ?thesis" by (simp add: csv_cols_def)
qed

lemma csv_row_kept: "row \<in> set (Csv.rows c) \<Longrightarrow> length (csv_cells (csv_cols c) row) = csv_cols c \<and> take (length row) (csv_cells (csv_cols c) row) = row"
  using csv_cols_max [of row c] by (auto simp: csv_cells_def intro!: nth_equalityI)

definition card_download :: "jstr \<Rightarrow> jstr \<Rightarrow> jstr \<Rightarrow> jstr option \<Rightarrow> jstr option" where
  "card_download api fileURL p vers =
     (if truthy vers then Some (fileURL @ js ''&download=1'')
      else map_option (\<lambda>q. api @ js ''download?path='' @ q) (encodeURIComponent p))"

text \<open>The HTML frame: its address, and its revision on a change of the file.\<close>

definition html_src :: "bool \<Rightarrow> jstr \<Rightarrow> jstr" where
  "html_src commentable u = (if commentable then u @ (if 63 \<in> set u then js ''&'' else js ''?'') @ js ''comment=1'' else u)"

definition html_changed :: "jstr list option \<Rightarrow> jstr \<Rightarrow> nat \<Rightarrow> nat" where
  "html_changed paths p n = (case paths of None \<Rightarrow> n | Some ps \<Rightarrow> if p \<in> set ps then n + 1 else n)"

text \<open>The diagrams of a page: those on screen, and the page they are of.\<close>

definition diagram_effect :: "(jstr \<Rightarrow> bool) \<Rightarrow> jstr \<Rightarrow> jstr option \<times> jstr option \<Rightarrow> (jstr option \<times> jstr option) \<times> bool" where
  "diagram_effect hasMermaid html s = ((if snd s \<noteq> Some html then None else fst s, Some html), hasMermaid html)"

definition page_html :: "jstr \<Rightarrow> jstr option \<Rightarrow> jstr" where
  "page_html html diagrams = (case diagrams of None \<Rightarrow> html | Some d \<Rightarrow> d)"

subsection \<open>The editing page: what seeds the session\<close>

text \<open>The address last read again, the cached text with the time it was fetched, and when the address at
  hand was opened. A reading that is out belongs to the address it was started for.\<close>

record Seed =
  at_url :: jstr
  openedAt :: int
  revalidated :: "jstr option"
  texts :: "jstr \<rightharpoonup> (BlobText \<times> int)"
  asking :: "jstr option"

definition EDIT_PREVIEW_MAX_AGE_MS :: int where "EDIT_PREVIEW_MAX_AGE_MS = 2000"

text \<open>Mounting the editing page, and moving it to another address: the effect asks again.\<close>

definition seed_mount :: "jstr \<Rightarrow> int \<Rightarrow> (jstr \<rightharpoonup> (BlobText \<times> int)) \<Rightarrow> Seed" where
  "seed_mount u now c = \<lparr>at_url = u, openedAt = now, revalidated = None, texts = c, asking = Some u\<rparr>"

definition seed_move :: "jstr \<Rightarrow> int \<Rightarrow> Seed \<Rightarrow> Seed" where
  "seed_move u now s = (if u = at_url s then s else s\<lparr>at_url := u, openedAt := now, asking := Some u\<rparr>)"

definition seed_answer :: "BlobText option \<Rightarrow> int \<Rightarrow> Seed \<Rightarrow> Seed" where
  "seed_answer r now s =
     (case asking s of
        None \<Rightarrow> s
      | Some u \<Rightarrow>
          (case r of
             None \<Rightarrow> s\<lparr>asking := None\<rparr>
           | Some t \<Rightarrow> s\<lparr>asking := None, revalidated := Some u, texts := (texts s)(u \<mapsto> (t, now))\<rparr>))"

definition seed_data :: "Seed \<Rightarrow> BlobText option" where
  "seed_data s = (if revalidated s = Some (at_url s) then map_option fst (texts s (at_url s)) else None)"

definition glimpse :: "Seed \<Rightarrow> BlobText option" where
  "glimpse s =
     (case texts s (at_url s) of None \<Rightarrow> None | Some (t, at_t) \<Rightarrow> if at_t \<ge> openedAt s - EDIT_PREVIEW_MAX_AGE_MS then Some t else None)"

text \<open>On one address the session is seeded only from a reading that answered after the page opened there,
  never from what the cache held.\<close>

lemma seeded_by_a_read:
  "seed_data (seed_mount u now c) = None"
  "seed_data (seed_answer None t (seed_mount u now c)) = None"
  "seed_data (seed_answer (Some b) t (seed_mount u now c)) = Some b"
  by (simp_all add: seed_data_def seed_mount_def seed_answer_def)

text \<open>Coming back to an address the page was at before, with the other one's reading not answered, the
  session is seeded from the copy the cache kept: the guard compares addresses, not visits.\<close>

lemma stale_seed_after_return:
  "u \<noteq> v \<Longrightarrow> seed_data (seed_move u t3 (seed_move v t2 (seed_answer (Some b) t1 (seed_mount u t0 c)))) = Some b"
  by (simp add: seed_data_def seed_mount_def seed_answer_def seed_move_def)

datatype EditBody = EFailed | EGlimpse jstr | ELoading | ENotText | EModuleFailed | EModuleLoading | EVisual jstr | ESource jstr

definition edit_body :: "bool \<Rightarrow> bool \<Rightarrow> Module \<Rightarrow> bool \<Rightarrow> Seed \<Rightarrow> EditBody" where
  "edit_body visual err m framed s =
     (case seed_data s of
        None \<Rightarrow> if err then EFailed else (case glimpse s of Some (TextBlob t) \<Rightarrow> EGlimpse t | _ \<Rightarrow> ELoading)
      | Some (TextBlob t) \<Rightarrow>
          if mod_failed m then EModuleFailed
          else if \<not> mod_seen m \<or> visual \<and> \<not> framed then EModuleLoading
          else if visual then EVisual t else ESource t
      | Some _ \<Rightarrow> ENotText)"

definition is_visual :: "jstr \<Rightarrow> bool \<Rightarrow> bool" where
  "is_visual p editSource \<longleftrightarrow> HTML_EXT p \<and> \<not> editSource"

text \<open>A failed refetch never takes away a session that has its text.\<close>

lemma error_keeps_editor: "seed_data s = Some (TextBlob t) \<Longrightarrow> edit_body visual True m framed s = edit_body visual False m framed s"
  by (simp add: edit_body_def)

subsection \<open>The editing page: status and the banner\<close>

definition edits_word :: "nat \<Rightarrow> jstr" where
  "edits_word n = nat_str n @ js '' '' @ (if n = 1 then js ''edit'' else js ''edits'')"

definition edit_label :: "(int \<Rightarrow> jstr) \<Rightarrow> CollabStatus \<Rightarrow> nat \<Rightarrow> SaveState \<Rightarrow> int option \<Rightarrow> jstr" where
  "edit_label ago c pend st savedAt =
     (if c = Offline \<and> pend > 0 then js ''Offline '' @ [183] @ js '' '' @ edits_word pend @ js '' pending''
      else if c = Offline then js ''Offline '' @ [183] @ js '' reconnecting''
      else case st of
             Saving \<Rightarrow> js ''Saving'' @ [8230]
           | Dirty \<Rightarrow> (if c = CollabStatus.Live then js ''Live '' @ [183] @ js '' unsaved'' else js ''Unsaved'')
           | Error \<Rightarrow> js ''Not saved '' @ [8212] @ js '' still trying''
           | Clean \<Rightarrow> (if c = CollabStatus.Live then js ''Live '' @ [183] @ js '' '' else []) @ js ''saved''
               @ (case savedAt of None \<Rightarrow> [] | Some t \<Rightarrow> js '' '' @ ago t))"

definition offline_banner :: "CollabStatus \<Rightarrow> nat \<Rightarrow> bool \<Rightarrow> jstr option" where
  "offline_banner c pend meeting =
     (if c \<noteq> Offline then None
      else Some ((if pend > 0
                  then js ''Your '' @ nat_str pend @ (if pend = 1 then js '' edit is'' else js '' edits are'') @ js '' kept in this tab and will merge when you're back.''
                  else js ''Edits you make are kept in this tab and merge when you're back.'')
                 @ (if meeting then js '' Only your own section can be edited until then.'' else [])))"

text \<open>The banner: raised by a change of the file while the page edits it visually, unless it is one of its
  own writes coming back or a co-editor's. \<open>mine\<close> counts the writes announced and not yet claimed.\<close>

record Watch =
  w_visual :: bool
  mine :: nat
  w_peers :: nat
  peerWrote :: bool

datatype WatchEv = Writing | Changed | PeersNow nat | SourceToggled bool | External MergeResult

fun watch :: "Watch \<Rightarrow> WatchEv \<Rightarrow> Watch" where
  "watch s Writing = s\<lparr>mine := mine s + 1\<rparr>"
| "watch s Changed =
     (if \<not> w_visual s then s
      else if mine s > 0 then s\<lparr>mine := mine s - 1\<rparr>
      else if w_peers s > 0 then s
      else s\<lparr>peerWrote := True\<rparr>)"
| "watch s (PeersNow n) = s\<lparr>w_peers := n\<rparr>"
| "watch s (SourceToggled src) = s\<lparr>w_visual := \<not> src\<rparr>"
| "watch s (External mr) = s\<lparr>peerWrote := (mr = Blocked)\<rparr>"






text \<open>The count goes up for saves of the source editor too, and nothing claims those: after saving the
  markup and going back to the page, that many changes by others pass without a word.\<close>

lemma source_saves_swallow_peers:
  "\<not> peerWrote (foldl watch \<lparr>w_visual = False, mine = 0, w_peers = 0, peerWrote = False\<rparr> [Writing, Changed, SourceToggled False, Changed])"
  by simp

subsection \<open>Links and images of rendered markdown\<close>

text \<open>\<open>/^([a-z]+:)/i\<close> at the start of an address.\<close>

definition ascii_letter :: "nat \<Rightarrow> bool" where
  "ascii_letter u \<longleftrightarrow> (65 \<le> u \<and> u \<le> 90) \<or> (97 \<le> u \<and> u \<le> 122)"

definition has_scheme :: "jstr \<Rightarrow> bool" where
  "has_scheme u = (let l = takeWhile ascii_letter u; rest = drop (length l) u in l \<noteq> [] \<and> rest \<noteq> [] \<and> hd rest = 58)"

definition after_ws_starts :: "string \<Rightarrow> jstr \<Rightarrow> bool" where
  "after_ws_starts w u = starts_with (ascii_lower (dropWhile is_ws u)) (js w)"

definition doc_dir :: "jstr \<Rightarrow> jstr" where
  "doc_dir p = (if 47 \<in> set p then butlast (upto_last 47 p) else [])"

text \<open>An image's source after the rewriting: the outer \<open>None\<close> is an encoding error, the inner one a source
  taken away.\<close>

definition rewrite_img :: "jstr \<Rightarrow> jstr \<Rightarrow> jstr \<Rightarrow> jstr option option" where
  "rewrite_img api p src =
     (if after_ws_starts ''data:image/svg'' src then Some None
      else if \<not> has_scheme src \<and> \<not> starts_with src (js ''/'')
      then map_option (\<lambda>q. Some (api @ js ''file?path='' @ q)) (encodeURIComponent (joinPath (doc_dir p) src))
      else Some (Some src))"

record Link =
  href :: "jstr option"
  wiki :: "jstr option"
  blank :: bool
  missing :: bool

definition plain_link :: "jstr option \<Rightarrow> Link" where
  "plain_link h = \<lparr>href = h, wiki = None, blank = False, missing = False\<rparr>"

definition rewrite_link :: "(jstr \<Rightarrow> jstr) \<Rightarrow> WikiFile list \<Rightarrow> jstr option \<Rightarrow> jstr \<Rightarrow> Link option" where
  "rewrite_link lower fs pid h =
     (if starts_with h (js ''wiki:'')
      then (case decodeURIComponent (drop 5 h) of
              None \<Rightarrow> None
            | Some t \<Rightarrow>
                (case resolveWiki lower t fs of
                   Some f \<Rightarrow> map_option (\<lambda>u. \<lparr>href = Some u, wiki = Some (wpath f), blank = False, missing = False\<rparr>)
                     (urlForPath (wpath f) pid None False False)
                 | None \<Rightarrow> Some \<lparr>href = None, wiki = None, blank = False, missing = True\<rparr>))
      else if after_ws_starts ''data:'' h then Some (plain_link None)
      else if starts_with (ascii_lower h) (js ''http:'') \<or> starts_with (ascii_lower h) (js ''https:'') then Some ((plain_link (Some h))\<lparr>blank := True\<rparr>)
      else Some (plain_link (Some h)))"

text \<open>A click: the outer \<open>None\<close> leaves it to the browser, the inner one is the exception of the decoder, which
  comes after the default was prevented.\<close>

definition handleLinkClick :: "jstr \<Rightarrow> bool \<Rightarrow> Link \<Rightarrow> jstr option option" where
  "handleLinkClick p modi l =
     (if modi then None
      else case wiki l of
        Some w \<Rightarrow> Some (Some w)
      | None \<Rightarrow>
          let h = (case href l of None \<Rightarrow> [] | Some u \<Rightarrow> u)
          in if \<not> has_scheme h \<and> \<not> starts_with h (js ''/'') \<and> \<not> starts_with h (js ''#'')
             then Some (map_option (joinPath (doc_dir p)) (decodeURIComponent h)) else None)"

text \<open>A link of a rendered document never targets a document of its own making, and never keeps the
  marker of a wikilink: after the rewriting its address is an in-app one of a file of the project, or the
  author's own, which is then no data: address in any case and after any white space; a wikilink whose
  file is not there has no address; and a plain click on a wikilink opens the very file its address
  names.\<close>

theorem rewritten_link_safe:
  assumes "rewrite_link lower fs pid h = Some l"
  shows "case wiki l of
      Some w \<Rightarrow> w \<in> wpath ` set fs \<and> href l = urlForPath w pid None False False \<and> handleLinkClick p False l = Some (Some w)
    | None \<Rightarrow> href l = None \<or> href l = Some h \<and> \<not> after_ws_starts ''data:'' h \<and> \<not> starts_with h (js ''wiki:'')"
proof (cases "starts_with h (js ''wiki:'')")
  case True
  then obtain t where t: "decodeURIComponent (drop 5 h) = Some t"
    using assms by (auto simp: rewrite_link_def split: option.splits)
  show ?thesis
  proof (cases "resolveWiki lower t fs")
    case None
    then have "l = \<lparr>href = None, wiki = None, blank = False, missing = True\<rparr>" using assms True t by (simp add: rewrite_link_def)
    then show ?thesis by simp
  next
    case (Some f)
    have "f \<in> set fs" using Some by (auto simp: resolveWiki_def Let_def split: option.splits dest!: find_SomeD)
    then show ?thesis using assms True t Some by (auto simp: rewrite_link_def handleLinkClick_def)
  qed
next
  case False
  then show ?thesis using assms by (auto simp: rewrite_link_def plain_link_def split: if_splits)
qed

lemma rewritten_link_safe_witness:
  "\<exists>l. rewrite_link id [\<lparr>wpath = js ''d/n.md'', wname = js ''n.md''\<rparr>] (Some (js ''p'')) (js ''wiki:n'') = Some l
     \<and> handleLinkClick (js ''x.md'') False l = Some (Some (js ''d/n.md''))"
proof -
  let ?l = "\<lparr>href = Some (js ''/p/d/n.md''), wiki = Some (js ''d/n.md''), blank = False, missing = False\<rparr>"
  have r: "rewrite_link id [\<lparr>wpath = js ''d/n.md'', wname = js ''n.md''\<rparr>] (Some (js ''p'')) (js ''wiki:n'') = Some ?l"
    by code_simp
  have "handleLinkClick (js ''x.md'') False ?l = Some (Some (js ''d/n.md''))"
    using rewritten_link_safe [OF r, of "js ''x.md''"] unfolding Link.select_convs option.case by (elim conjE)
  with r show ?thesis by blast
qed

text \<open>A wikilink that is not there keeps no address, so a click on it goes to the folder of the page: the
  empty address is taken for a relative one.\<close>

lemma missing_wiki_opens_folder:
  "handleLinkClick (js ''d/x.md'') False \<lparr>href = None, wiki = None, blank = False, missing = True\<rparr> = Some (Some (js ''d''))"
  by code_simp

end
