(* ===== verification/MeetingEditor.thy ===== *)
theory MeetingEditor
  imports SharedFile Meeting Util
begin

section \<open>The source editor: menus, meeting sections, the shell\<close>

text \<open>
  \<open>lib/cm-slash.ts\<close>, \<open>lib/cm-meeting.ts\<close> and what \<open>components/Editor.tsx\<close> adds around the open file.
  The editor itself is a library: it tells the menus the text of the line before the cursor, calls the
  section plugin on every transaction, and holds the folded ranges. What these answer, insert, fold or
  refuse is modelled; drawing is not. The lemmas show that the action the menu inserts is read as an
  action item of its author, and that the offline guard lets no edit change a unit outside the body
  of the author's own section.
\<close>

subsection \<open>The slash menu\<close>

text \<open>\<open>\w\<close> of a pattern, and the first name of a person.\<close>

definition word_unit :: "nat \<Rightarrow> bool" where
  "word_unit u \<longleftrightarrow> 48 \<le> u \<and> u \<le> 57 \<or> 65 \<le> u \<and> u \<le> 90 \<or> u = 95 \<or> 97 \<le> u \<and> u \<le> 122"

definition handle :: "jstr \<Rightarrow> jstr" where
  "handle name = hd (split_ws (trim name))"

text \<open>\<open>/(?:^|\s)\/\w*$/\<close> on the line before the cursor: where its slash is.\<close>

definition slash_at :: "jstr \<Rightarrow> nat option" where
  "slash_at bef =
     (case dropWhile word_unit (rev bef) of
        u # r \<Rightarrow> if u = 47 \<and> (r = [] \<or> is_ws (hd r)) then Some (length r) else None
      | [] \<Rightarrow> None)"

text \<open>The line up to the slash: \<open>/^\s*(?:[-*+]\s+(?:\[[ xX]\]\s+)?)?$/\<close>.\<close>

definition boxed :: "jstr \<Rightarrow> bool" where
  "boxed u \<longleftrightarrow> (case u of a # x # c # v \<Rightarrow> a = 91 \<and> (x = 32 \<or> x = 120 \<or> x = 88) \<and> c = 93 \<and> v \<noteq> [] \<and> list_all is_ws v | _ \<Rightarrow> False)"

definition list_prefix :: "jstr \<Rightarrow> bool" where
  "list_prefix b =
     (case dropWhile is_ws b of
        [] \<Rightarrow> True
      | u # t \<Rightarrow> is_bullet u \<and> t \<noteq> [] \<and> is_ws (hd t) \<and> (dropWhile is_ws t = [] \<or> boxed (dropWhile is_ws t)))"

text \<open>\<open>/[-*+]\s+$/\<close> and \<open>/\]\s+$/\<close>.\<close>

definition ends_in_ws_after :: "(nat \<Rightarrow> bool) \<Rightarrow> jstr \<Rightarrow> bool" where
  "ends_in_ws_after p b = (let r = dropWhile is_ws (rev b) in r \<noteq> [] \<and> length r < length b \<and> p (hd r))"

definition is_listed :: "jstr \<Rightarrow> bool" where "is_listed = ends_in_ws_after is_bullet"
definition is_tasked :: "jstr \<Rightarrow> bool" where "is_tasked = ends_in_ws_after (\<lambda>u. u = 93)"

datatype SlashCmd = ActionCmd | MentionCmd | LinkCmd | CarryCmd

definition commands :: "bool \<Rightarrow> jstr \<Rightarrow> (nat \<times> SlashCmd list) option" where
  "commands carry bef =
     (case slash_at bef of
        None \<Rightarrow> None
      | Some i \<Rightarrow> if list_prefix (take i bef)
          then Some (i, [ActionCmd, MentionCmd, LinkCmd] @ (if carry then [CarryCmd] else [])) else None)"

text \<open>What a command inserts in place of the slash and its word, and where it leaves the cursor in it;
  mentions and links open their own menu after that.\<close>

definition action_insert :: "jstr \<Rightarrow> jstr \<Rightarrow> jstr \<times> nat" where
  "action_insert me bef =
     (let lead = (if is_tasked bef then [] else if is_listed bef then js ''[ ] '' else js ''- [ ] '')
      in (lead @ js '' @'' @ handle me, length lead))"

definition apply_cmd :: "jstr \<Rightarrow> jstr \<Rightarrow> SlashCmd \<Rightarrow> (jstr \<times> nat) \<times> bool" where
  "apply_cmd me bef c =
     (case c of
        ActionCmd \<Rightarrow> (action_insert me bef, False)
      | MentionCmd \<Rightarrow> ((js ''@'', 1), True)
      | LinkCmd \<Rightarrow> ((js ''[[]]'', 2), True)
      | CarryCmd \<Rightarrow> (([], 0), False))"

definition insert_text :: "jstr \<Rightarrow> nat \<Rightarrow> nat \<Rightarrow> jstr \<times> nat \<Rightarrow> jstr \<times> nat" where
  "insert_text dt f t ins = (take f dt @ fst ins @ drop t dt, f + snd ins)"

text \<open>Carrying over, once the previous note was read: the line the cursor is on by then is replaced when
  it is blank or an empty bullet, else the items go on lines of their own.\<close>

definition blank_bullet :: "jstr \<Rightarrow> bool" where
  "blank_bullet l =
     (case dropWhile is_ws l of
        [] \<Rightarrow> True
      | u # t \<Rightarrow> is_bullet u \<and> (case dropWhile is_ws t of
            a # x # c # v \<Rightarrow> a = 91 \<and> (x = 32 \<or> x = 120 \<or> x = 88) \<and> c = 93 \<and> list_all is_ws v
          | v \<Rightarrow> v = []))"

definition line_at :: "jstr \<Rightarrow> nat \<Rightarrow> nat \<times> nat" where
  "line_at dt p = (let b = length (takeWhile (\<lambda>u. u \<noteq> 10) (rev (take p dt))); a = length (takeWhile (\<lambda>u. u \<noteq> 10) (drop p dt))
     in (p - b, p + a))"

definition carry_answer :: "jstr \<Rightarrow> nat \<Rightarrow> (jstr \<times> jstr list) option \<Rightarrow> jstr + jstr \<times> nat" where
  "carry_answer dt p r =
     (case r of
        None \<Rightarrow> Inl (js ''No earlier meeting note in this folder.'')
      | Some (fp, items) \<Rightarrow>
          if items = [] then Inl (js ''No open items in '' @ last (split_on 47 fp) @ js ''.'')
          else let (a, b) = line_at dt p; t = join [10] items
               in Inr (if blank_bullet (slice a b dt) then insert_text dt a b (t, length t)
                       else insert_text dt p p (10 # t, length t + 1)))"

text \<open>The note the items come from: the previous one of this folder, read when it is text.\<close>

definition carryOver :: "jstr \<Rightarrow> jstr list \<Rightarrow> (jstr \<Rightarrow> BlobText) \<Rightarrow> (jstr \<times> jstr list) option" where
  "carryOver p fs fetch =
     map_option (\<lambda>q. (q, case fetch q of TextBlob t \<Rightarrow> openItems t | _ \<Rightarrow> [])) (previousNote p fs)"

text \<open>People after \<open>@\<close>, \<open>/(?:^|[\s(])@[\w.-]*$/\<close>, and files after \<open>[[\<close>, \<open>/\[\[[^\]\n]*$/\<close>: where the
  completed text starts and what it may become.\<close>

definition mention_at :: "jstr \<Rightarrow> nat option" where
  "mention_at bef =
     (case dropWhile word_char (rev bef) of
        u # r \<Rightarrow> if u = 64 \<and> (r = [] \<or> is_ws (hd r) \<or> hd r = 40) then Some (length r) else None
      | [] \<Rightarrow> None)"

definition mention_names :: "jstr list \<Rightarrow> jstr list" where
  "mention_names people = rev (remdups (rev (filter (\<lambda>n. n \<noteq> []) (map handle people))))"

definition mentions :: "jstr list \<Rightarrow> jstr \<Rightarrow> (nat \<times> jstr list) option" where
  "mentions people bef = map_option (\<lambda>i. (i, map (\<lambda>n. js ''@'' @ n @ js '' '') (mention_names people))) (mention_at bef)"

definition people_of :: "jstr \<Rightarrow> jstr option list \<Rightarrow> jstr list" where
  "people_of dt states = map sname (sections dt) @ concat (map (\<lambda>n. if truthy n then [the n] else []) states)"

definition link_at :: "jstr \<Rightarrow> nat option" where
  "link_at bef =
     (let r = length (takeWhile (\<lambda>u. u \<noteq> 93 \<and> u \<noteq> 10) (rev bef)); off = length bef - r
      in map_option (\<lambda>i. off + i + 2) (index_from (drop off bef) (js ''[['') 0))"

definition link_name :: "jstr \<Rightarrow> jstr" where
  "link_name p = (let n = after_last 47 p in if ends_with (Meeting.ascii_lower n) (js ''.md'') then take (length n - 3) n else n)"

definition link_option :: "jstr \<Rightarrow> jstr \<Rightarrow> jstr \<times> jstr \<times> jstr \<times> nat" where
  "link_option aft p =
     (link_name p, (if 47 \<in> set p then butlast (upto_last 47 p) else []), link_name p @ js '']]'', if aft = js '']]'' then 2 else 0)"

subsection \<open>The sections of a meeting note\<close>

definition words_by :: "(nat \<Rightarrow> bool) \<Rightarrow> jstr \<Rightarrow> jstr list" where
  "words_by sep s = filter (\<lambda>w. w \<noteq> []) (foldr (\<lambda>u wds. if sep u then [] # wds else (u # hd wds) # tl wds) s [[]])"

definition initials :: "(jstr \<Rightarrow> jstr) \<Rightarrow> jstr \<Rightarrow> jstr" where
  "initials upper name =
     (case words_by (\<lambda>u. is_ws u \<or> u = 64 \<or> u = 46 \<or> u = 95 \<or> u = 45) (trim name) of
        [] \<Rightarrow> js ''?''
      | w # wds \<Rightarrow> upper (hd w # (case wds of [] \<Rightarrow> [] | v # _ \<Rightarrow> [hd v])))"

text \<open>Folded ranges are the editor's; a section is folded when one of them starts at its heading's end.\<close>

definition foldable :: "Section \<Rightarrow> bool" where
  "foldable s \<longleftrightarrow> sto s > headingEnd s + 1"

definition isFolded :: "(nat \<times> nat) list \<Rightarrow> Section \<Rightarrow> bool" where
  "isFolded folded s \<longleftrightarrow> headingEnd s \<in> fst ` set folded"

datatype FoldEffect = FoldRange nat nat | UnfoldRange nat nat

definition toggleSection :: "(nat \<times> nat) list \<Rightarrow> Section list \<Rightarrow> jstr \<Rightarrow> FoldEffect option" where
  "toggleSection folded secs name =
     (case find (\<lambda>s. sname s = name) secs of
        None \<Rightarrow> None
      | Some s \<Rightarrow> if \<not> foldable s then None
          else Some (if isFolded folded s then UnfoldRange (headingEnd s) (sto s) else FoldRange (headingEnd s) (sto s)))"

definition open_folds :: "(jstr \<Rightarrow> jstr) \<Rightarrow> jstr \<Rightarrow> Section list \<Rightarrow> FoldEffect list" where
  "open_folds lower me secs =
     map (\<lambda>s. FoldRange (headingEnd s) (sto s)) (filter (\<lambda>s. foldable s \<and> \<not> sameName lower (sname s) me) secs)"

text \<open>Two sections of one name are one to the toggle: it acts on the first.\<close>

lemma toggle_hits_first:
  "sname u = sname s \<Longrightarrow> toggleSection folded (s # u # ss) (sname u) = toggleSection folded [s] (sname s)"
  by (simp add: toggleSection_def)

text \<open>The plugin's memory: the last change seen in each section, by name, and whether a peer made it. A
  transaction carries its changed ranges in the new document and whether the shared document sent it.\<close>

type_synonym LastSeen = "jstr \<rightharpoonup> (int \<times> bool)"

definition note_range :: "int \<Rightarrow> bool \<Rightarrow> Section list \<Rightarrow> LastSeen \<Rightarrow> nat \<Rightarrow> LastSeen" where
  "note_range now remote secs m fb =
     (case find (\<lambda>s. sfrom s \<le> fb \<and> fb \<le> sto s) secs of None \<Rightarrow> m | Some s \<Rightarrow> m(sname s \<mapsto> (now, remote)))"

definition plugin_update :: "int \<Rightarrow> Section list \<Rightarrow> (bool \<times> nat list) list \<Rightarrow> LastSeen \<Rightarrow> LastSeen" where
  "plugin_update now secs trs m = foldl (\<lambda>m (remote, fbs). foldl (note_range now remote secs) m fbs) m trs"

datatype SecStatus = Typing jstr | You | Updated int | NotStarted | Idle

definition TYPING_MS :: int where "TYPING_MS = 5000"

definition status :: "(jstr \<Rightarrow> jstr) \<Rightarrow> jstr \<Rightarrow> int \<Rightarrow> LastSeen \<Rightarrow> (jstr \<times> nat) list \<Rightarrow> Section \<Rightarrow> SecStatus" where
  "status lower me now m cursors s =
     (let inside = find (\<lambda>c. sfrom s \<le> snd c \<and> snd c \<le> sto s) cursors; l = m (sname s)
      in if inside \<noteq> None \<and> l \<noteq> None \<and> snd (the l) \<and> now - fst (the l) < TYPING_MS then Typing (fst (the inside))
         else if sameName lower (sname s) me then You
         else if l \<noteq> None then Updated (fst (the l))
         else if sbody s = [] then NotStarted else Idle)"

definition status_text :: "(int \<Rightarrow> jstr) \<Rightarrow> SecStatus \<Rightarrow> jstr" where
  "status_text clock st =
     (case st of
        Typing whom \<Rightarrow> (if whom = [] then js ''Someone'' else whom) @ js '' is typing'' @ [8230]
      | Updated t \<Rightarrow> js ''Updated '' @ (if t = 0 then [] else clock t)
      | NotStarted \<Rightarrow> js ''Not started''
      | You \<Rightarrow> js ''You''
      | Idle \<Rightarrow> [])"

definition placeholder :: "Section list \<Rightarrow> nat \<Rightarrow> jstr" where
  "placeholder secs start =
     (let t = (case find (\<lambda>s. headingEnd s = start) secs of None \<Rightarrow> [] | Some s \<Rightarrow> summary s 90)
      in if t = [] then [8230] else t)"

text \<open>A change of a peer is shown as typing while that peer's cursor is in the section, and no longer than
  the window after it.\<close>

lemma typing_is_recent:
  "status lower me now m cursors s = Typing whom \<Longrightarrow>
     \<exists>t c. m (sname s) = Some (t, True) \<and> now < t + TYPING_MS \<and> c \<in> set cursors \<and> fst c = whom \<and> sfrom s \<le> snd c \<and> snd c \<le> sto s"
  by (auto simp: status_def Let_def split: if_splits dest!: find_SomeD)

subsection \<open>The offline guard\<close>

text \<open>A transaction: changed ranges of the old text in order with what replaces each, and whether it comes
  from the user. One that is refused becomes no change at all.\<close>

type_synonym TextChange = "nat \<times> nat \<times> jstr"


fun apply_changes :: "nat \<Rightarrow> jstr \<Rightarrow> TextChange list \<Rightarrow> jstr" where
  "apply_changes p dt [] = drop p dt"
| "apply_changes p dt ((f, t, x) # chs) = slice p f dt @ x @ apply_changes t dt chs"

definition guard :: "(jstr \<Rightarrow> jstr) \<Rightarrow> jstr \<Rightarrow> bool \<Rightarrow> bool \<Rightarrow> jstr \<Rightarrow> TextChange list \<Rightarrow> TextChange list \<times> bool" where
  "guard lower me offline from_user dt chs =
     (if chs = [] \<or> \<not> from_user \<or> \<not> offline then (chs, False)
      else if offlineEditable lower (sections dt) me (map (\<lambda>(f, t, x). (f, t)) chs) then (chs, False)
      else ([], True))"





text \<open>The end of the heading is inside the range: a letter typed there renames the section, and from then
  on nothing of it is editable until the room is back.\<close>

lemma heading_end_locks_out:
  "fst (guard id (js ''Ann'') True True (js ''## Ann'' @ 10 # js ''hi'') [(6, 6, js ''a'')]) = [(6, 6, js ''a'')]
   \<and> guard id (js ''Ann'') True True (apply_changes 0 (js ''## Ann'' @ 10 # js ''hi'') [(6, 6, js ''a'')]) [(8, 8, js ''x'')] = ([], True)"
  by code_simp

subsection \<open>What the action command inserts is read as an action item\<close>

lemma ws_units: "\<not> is_ws 64" "\<not> is_ws 91" "\<not> is_ws 93" "is_ws 32" "\<not> is_ws 45"
  by (simp_all add: is_ws_def)

lemma bullet_not_ws: "is_bullet u \<Longrightarrow> \<not> is_ws u"
  by (auto simp: is_bullet_def is_ws_def)

lemma drop_ws_end: "list_all is_ws w \<Longrightarrow> \<not> is_ws u \<Longrightarrow> dropWhile is_ws (w @ u # r) = u # r"
  by (induction w) auto

lemma TASK_shape:
  assumes "dropWhile is_ws l = u # t" "is_bullet u" "t \<noteq> []" "is_ws (hd t)" "dropWhile is_ws t = 91 # x # 93 # r"
    "x = 32 \<or> x = 120 \<or> x = 88" "r \<noteq> []" "is_ws (hd r)" "list_all (\<lambda>v. \<not> is_lt v) (dropWhile is_ws r)"
  shows "TASK l = Some (x, dropWhile is_ws r)"
  by (simp add: TASK_def assms)

lemma hd_ws_append: "list_all is_ws b \<Longrightarrow> b \<noteq> [] \<Longrightarrow> b @ r \<noteq> [] \<and> is_ws (hd (b @ r))"
  by (cases b) auto

lemma TASK_line:
  assumes "list_all is_ws a" "is_bullet u" "list_all is_ws b" "b \<noteq> []" "x = 32 \<or> x = 120 \<or> x = 88"
    "list_all is_ws c" "c \<noteq> []" "list_all (\<lambda>v. \<not> is_lt v) (dropWhile is_ws r)"
  shows "TASK (a @ u # b @ 91 # x # 93 # c @ r) = Some (x, dropWhile is_ws r)"
proof -
  have c: "dropWhile is_ws (c @ r) = dropWhile is_ws r" using assms(6) by (induction c) auto
  have d: "dropWhile is_ws (a @ u # b @ 91 # x # 93 # c @ r) = u # b @ 91 # x # 93 # c @ r"
    by (rule drop_ws_end [OF assms(1) bullet_not_ws [OF assms(2)]])
  have e: "dropWhile is_ws (b @ 91 # x # 93 # c @ r) = 91 # x # 93 # c @ r"
    by (rule drop_ws_end [OF assms(3) ws_units(2)])
  note hb = hd_ws_append [OF assms(3,4), of "91 # x # 93 # c @ r"] and hc = hd_ws_append [OF assms(6,7), of r]
  have f: "list_all (\<lambda>v. \<not> is_lt v) (dropWhile is_ws (c @ r))" unfolding c by (rule assms(8))
  have "TASK (a @ u # b @ 91 # x # 93 # c @ r) = Some (x, dropWhile is_ws (c @ r))"
  proof (rule TASK_shape)
    show "dropWhile is_ws (a @ u # b @ 91 # x # 93 # c @ r) = u # (b @ 91 # x # 93 # c @ r)" by (rule d)
    show "is_bullet u" by (rule assms(2))
    show "b @ 91 # x # 93 # c @ r \<noteq> []" by simp
    show "is_ws (hd (b @ 91 # x # 93 # c @ r))" using hb by (rule conjunct2)
    show "dropWhile is_ws (b @ 91 # x # 93 # c @ r) = 91 # x # 93 # (c @ r)" by (rule e)
    show "x = 32 \<or> x = 120 \<or> x = 88" by (rule assms(5))
    show "c @ r \<noteq> []" using assms(7) by simp
    show "is_ws (hd (c @ r))" using hc by (rule conjunct2)
    show "list_all (\<lambda>v. \<not> is_lt v) (dropWhile is_ws (c @ r))" by (rule f)
  qed
  then show ?thesis unfolding c .
qed

text \<open>The three shapes of the line before the slash, with the box each gives the item.\<close>

lemma list_prefix_cases:
  assumes "list_prefix b"
  obtains (bare) "list_all is_ws b"
  | (listed) a u w where "b = a @ u # w" "list_all is_ws a" "is_bullet u" "list_all is_ws w" "w \<noteq> []"
  | (tasked) a u w x v where "b = a @ u # w @ 91 # x # 93 # v" "list_all is_ws a" "is_bullet u" "list_all is_ws w" "w \<noteq> []"
      "x = 32 \<or> x = 120 \<or> x = 88" "list_all is_ws v" "v \<noteq> []"
proof (cases "dropWhile is_ws b")
  case Nil
  then have "list_all is_ws b" by (simp add: list_all_iff dropWhile_eq_Nil_conv)
  then show ?thesis by (rule bare)
next
  case (Cons u t)
  have tw: "list_all is_ws (takeWhile is_ws l)" for l by (auto simp: list_all_iff dest: set_takeWhileD)
  have a1: "b = takeWhile is_ws b @ u # t" using takeWhile_dropWhile_id [of is_ws b] unfolding Cons by (rule sym)
  note a = a1 tw [of b]
  have t: "is_bullet u" "t \<noteq> []" "is_ws (hd t)" "dropWhile is_ws t = [] \<or> boxed (dropWhile is_ws t)"
    using assms Cons by (simp_all add: list_prefix_def)
  have w: "list_all is_ws (takeWhile is_ws t)" "takeWhile is_ws t \<noteq> []"
    using t(2,3) tw by (simp_all, cases t, simp_all)
  show ?thesis
  proof (cases "dropWhile is_ws t")
    case Nil
    then have "list_all is_ws t" by (simp add: list_all_iff dropWhile_eq_Nil_conv)
    then show ?thesis using listed [OF a(1,2) t(1)] t(2) by blast
  next
    case (Cons p q)
    with t(4) obtain x v where pq: "p # q = 91 # x # 93 # v" "x = 32 \<or> x = 120 \<or> x = 88" "list_all is_ws v" "v \<noteq> []"
      by (auto simp: boxed_def split: list.splits)
    then have "t = takeWhile is_ws t @ 91 # x # 93 # v" using Cons takeWhile_dropWhile_id [of is_ws t] by simp
    with a(1) have "b = takeWhile is_ws b @ u # takeWhile is_ws t @ 91 # x # 93 # v" by argo
    then show ?thesis using tasked [OF _ a(2) t(1) w pq(2,3,4)] by blast
  qed
qed

lemma ends_ws_append:
  assumes "list_all is_ws w" "w \<noteq> []" "\<not> is_ws u" shows "ends_in_ws_after p (a @ u # w) = p u"
proof -
  have "dropWhile is_ws (rev w @ u # rev a) = u # rev a" using assms by (intro drop_ws_end) (simp_all add: list_all_iff)
  then show ?thesis using assms(2) by (simp add: ends_in_ws_after_def)
qed

lemma ends_ws_none: "list_all is_ws b \<Longrightarrow> \<not> ends_in_ws_after p b"
  by (simp add: ends_in_ws_after_def list_all_iff dropWhile_eq_Nil_conv [THEN iffD2])

text \<open>Whether the box the line already has is ticked.\<close>

definition prefix_box :: "jstr \<Rightarrow> bool" where
  "prefix_box b = (is_tasked b \<and> hd (tl (dropWhile is_ws (rev b))) \<noteq> 32)"



lemma rest_free:
  assumes "item_ok \<lparr>itext = x, owner = w, checked = c, isection = sec, iline = i\<rparr>"
  shows "list_all (\<lambda>v. \<not> is_lt v) (dropWhile is_ws (x @ mention_suffix w))"
proof -
  have "list_all (\<lambda>v. \<not> is_lt v) (x @ mention_suffix w)"
    using assms by (auto simp: item_ok_def is_lt_def list_all_iff word_char_def mention_suffix_def)
  then show ?thesis by (auto simp: list_all_iff dest: set_dropWhileD)
qed

lemma rest_is_task_rest:
  assumes "item_ok \<lparr>itext = x, owner = w, checked = c, isection = sec, iline = i\<rparr>"
  shows "dropWhile is_ws (x @ mention_suffix w) = task_rest \<lparr>itext = x, owner = w, checked = c, isection = sec, iline = i\<rparr>"
proof (cases x)
  case Nil
  then show ?thesis by (simp add: task_rest_def mention_suffix_def ws_units)
next
  case (Cons u t)
  then have "\<not> is_ws u" using assms trim_hd [of x] by (simp add: item_ok_def)
  with Cons show ?thesis by (simp add: task_rest_def)
qed

lemma action_TASK:
  assumes "list_prefix b" "item_ok \<lparr>itext = x, owner = handle me, checked = c, isection = sec, iline = i\<rparr>" "handle me \<noteq> []"
  shows "\<exists>bx. TASK (b @ take (snd (action_insert me b)) (fst (action_insert me b)) @ x @ drop (snd (action_insert me b)) (fst (action_insert me b)))
     = Some (bx, dropWhile is_ws (x @ mention_suffix (handle me))) \<and> (bx \<noteq> 32) = prefix_box b"
  using assms(1)
proof (cases rule: list_prefix_cases)
  case bare
  then have "\<not> is_tasked b" "\<not> is_listed b" by (simp_all add: is_tasked_def is_listed_def ends_ws_none)
  then have "b @ take (snd (action_insert me b)) (fst (action_insert me b)) @ x @ drop (snd (action_insert me b)) (fst (action_insert me b))
      = b @ 45 # [32] @ 91 # 32 # 93 # [32] @ x @ mention_suffix (handle me)"
    using assms(3) by (simp add: action_insert_def js_eval mention_suffix_def)
  moreover have "TASK (b @ 45 # [32] @ 91 # 32 # 93 # [32] @ x @ mention_suffix (handle me)) = Some (32, dropWhile is_ws (x @ mention_suffix (handle me)))"
    using bare by (intro TASK_line rest_free [OF assms(2)]) (simp_all add: is_bullet_def ws_units)
  ultimately show ?thesis using \<open>\<not> is_tasked b\<close> by (simp add: prefix_box_def)
next
  case (listed a u w)
  then have l: "is_listed b" "\<not> is_tasked b"
    using ends_ws_append [OF listed(4,5) bullet_not_ws [OF listed(3)]] listed(3) by (simp_all add: is_tasked_def is_listed_def is_bullet_def) auto
  then have "b @ take (snd (action_insert me b)) (fst (action_insert me b)) @ x @ drop (snd (action_insert me b)) (fst (action_insert me b))
      = a @ u # w @ 91 # 32 # 93 # [32] @ x @ mention_suffix (handle me)"
    using assms(3) listed(1) by (simp add: action_insert_def js_eval mention_suffix_def)
  moreover have "TASK (a @ u # w @ 91 # 32 # 93 # [32] @ x @ mention_suffix (handle me)) = Some (32, dropWhile is_ws (x @ mention_suffix (handle me)))"
    using listed by (intro TASK_line rest_free [OF assms(2)]) (simp_all add: ws_units)
  ultimately show ?thesis using l by (simp add: prefix_box_def)
next
  case (tasked a u w bx v)
  have e: "ends_in_ws_after p b = p 93" for p
    using ends_ws_append [OF tasked(7,8) ws_units(3), of p "a @ u # w @ [91, bx]"] tasked(1) by simp
  have "dropWhile is_ws (rev v @ 93 # bx # 91 # rev (a @ u # w)) = 93 # bx # 91 # rev (a @ u # w)"
    using tasked(7) by (intro drop_ws_end) (simp_all add: list_all_iff ws_units)
  then have bx: "(bx \<noteq> 32) = prefix_box b" using e tasked(1) by (simp add: prefix_box_def is_tasked_def)
  have "b @ take (snd (action_insert me b)) (fst (action_insert me b)) @ x @ drop (snd (action_insert me b)) (fst (action_insert me b))
      = a @ u # w @ 91 # bx # 93 # v @ x @ mention_suffix (handle me)"
    using assms(3) tasked(1) e by (simp add: action_insert_def is_tasked_def js_eval mention_suffix_def)
  moreover have "TASK (a @ u # w @ 91 # bx # 93 # v @ x @ mention_suffix (handle me)) = Some (bx, dropWhile is_ws (x @ mention_suffix (handle me)))"
    using tasked by (intro TASK_line rest_free [OF assms(2)]) simp_all
  ultimately show ?thesis using bx by auto
qed

text \<open>C19: The action the menu inserts is an action item of the one who asked for it, for a user whose first
  name is made of the letters a mention may have (Latin letters, digits, underscore, dot and hyphen):
  on a blank line, after a bullet or after a bullet with a box, once a text of one line without blanks
  around it and without a mention is typed where the command leaves the cursor, the line is read as
  exactly one item, with that text, owned by the user, open unless the line's own box was ticked. A
  first name of other letters is no owner (lemma \<open>other_alphabet_no_owner\<close>).\<close>

theorem action_makes_item:
  assumes "list_prefix b" "10 \<notin> set b" "trim x = x" "64 \<notin> set x" "list_all (\<lambda>u. \<not> is_lt u) x"
    "list_all word_char (handle me)" "handle me \<noteq> []"
  shows "map item_core (actionItems (b @ take (snd (action_insert me b)) (fst (action_insert me b)) @ x
      @ drop (snd (action_insert me b)) (fst (action_insert me b)))) = [(x, handle me, prefix_box b)]"
proof -
  let ?a = "\<lparr>itext = x, owner = handle me, checked = False, isection = [], iline = 0\<rparr>"
    and ?l = "b @ take (snd (action_insert me b)) (fst (action_insert me b)) @ x
      @ drop (snd (action_insert me b)) (fst (action_insert me b))"
  have ok: "item_ok ?a" using assms by (simp add: item_ok_def)
  obtain bx where t: "TASK ?l = Some (bx, task_rest ?a)" "(bx \<noteq> 32) = prefix_box b"
    using action_TASK [OF assms(1) ok assms(7)] rest_is_task_rest [OF ok] by auto
  have "10 \<notin> set (handle me)" "10 \<notin> set x"
    using assms(5,6) by (auto simp: list_all_iff word_char_def is_lt_def)
  moreover have "set ?l \<subseteq> set b \<union> set x \<union> set (fst (action_insert me b))"
    by (auto dest: in_set_takeD in_set_dropD)
  moreover have "10 \<notin> set (js ''[ ] '') \<union> set (js ''- [ ] '') \<union> set (js '' @'')" by (simp add: js_eval)
  ultimately have "10 \<notin> set ?l" using assms(2) by (auto simp: action_insert_def Let_def split: if_splits)
  then have "split_on 10 ?l = [?l]" by (rule split_on_free)
  with t task_rest_parts [OF ok] show ?thesis by (simp add: items_core)
qed

lemma action_makes_item_witness:
  "map item_core (actionItems (js ''- '' @ take (snd (action_insert (js ''Ann Lee'') (js ''- ''))) (fst (action_insert (js ''Ann Lee'') (js ''- '')))
     @ js ''ship it'' @ drop (snd (action_insert (js ''Ann Lee'') (js ''- ''))) (fst (action_insert (js ''Ann Lee'') (js ''- '')))))
   = [(js ''ship it'', handle (js ''Ann Lee''), prefix_box (js ''- ''))]"
  by (rule action_makes_item; code_simp)

text \<open>A name that is not of the letters of a mention loses its owner: the item of a user whose first name
  is written in another alphabet has none, and the mention stays in its text.\<close>

lemma other_alphabet_no_owner:
  "map item_core (actionItems (js ''- [ ] do'' @ drop 6 (fst (action_insert [51648, 49688] [])))) = [(js ''do @'' @ [51648, 49688], [], False)]"
  by code_simp

text \<open>Files of one name are told apart by their folder in the menu, but what it inserts is the name: the link
  of the second leads to the first.\<close>

lemma link_leads_elsewhere:
  "fst (snd (snd (link_option [] (js ''b/n.md'')))) = js ''n]]''
   \<and> resolveWiki id (link_name (js ''b/n.md'')) [\<lparr>wpath = js ''a/n.md'', wname = js ''n.md''\<rparr>, \<lparr>wpath = js ''b/n.md'', wname = js ''n.md''\<rparr>]
     = Some \<lparr>wpath = js ''a/n.md'', wname = js ''n.md''\<rparr>"
  by code_simp

subsection \<open>The shell around the open file\<close>

text \<open>The text this editor opened with, the one a later mount would start from, and the mounted view: its
  text and whether it is bound to the room. Only the first mount counts.\<close>

record Shell =
  opened :: jstr
  seedText :: jstr
  mounted :: "(jstr \<times> bool) option"

definition open_shell :: "jstr \<Rightarrow> Shell" where
  "open_shell initial = \<lparr>opened = initial, seedText = initial, mounted = None\<rparr>"

definition mount_room :: "jstr \<Rightarrow> Shell \<Rightarrow> Shell" where
  "mount_room shared s = (if mounted s \<noteq> None then s else s\<lparr>mounted := Some (shared, True)\<rparr>)"

definition mountSolo :: "Shell \<Rightarrow> Shell" where
  "mountSolo s = (if mounted s \<noteq> None then s else s\<lparr>mounted := Some (seedText s, False)\<rparr>)"

text \<open>The effect of a new text of the file's query: nothing for the text of the opening; else the open file
  merges it, or, with nothing mounted yet, the caller is told that it is blocked.\<close>

definition initial_effect :: "(jstr \<Rightarrow> MergeResult) \<Rightarrow> jstr \<Rightarrow> Shell \<Rightarrow> Shell \<times> MergeResult option" where
  "initial_effect merges initial s =
     (if initial = opened s then (s, None)
      else (s\<lparr>seedText := initial\<rparr>, Some (if mounted s \<noteq> None then merges initial else Blocked)))"

definition report :: "jstr \<Rightarrow> nat \<Rightarrow> nat \<times> nat" where
  "report dt head = (length (filter (\<lambda>u. u = 10) (take head dt)) + 1, head - fst (line_at dt head) + 1)"

text \<open>A file that goes back to the text the editor opened with is not followed: the buffer keeps the text in
  between, and a mount that is still to come starts from it.\<close>

lemma return_to_opened_ignored:
  "b \<noteq> a \<Longrightarrow> let s = fst (initial_effect mg a (fst (initial_effect mg b (open_shell a))))
     in snd (initial_effect mg a s) = None \<and> mounted (mountSolo s) = Some (b, False)"
  by (simp add: initial_effect_def open_shell_def mountSolo_def)

lemma mounted_once: "mounted s = Some v \<Longrightarrow> mount_room r s = s \<and> mountSolo s = s"
  by (simp add: mount_room_def mountSolo_def)

text \<open>The column of the cursor is counted from the last line break before it.\<close>

lemma report_column:
  assumes "head \<le> length dt"
  shows "snd (report dt head) \<le> head + 1 \<and> 10 \<notin> set (slice (head + 1 - snd (report dt head)) head dt)"
proof -
  let ?w = "takeWhile (\<lambda>u. u \<noteq> 10) (rev (take head dt))"
  have len: "length ?w \<le> head" using length_takeWhile_le [of _ "rev (take head dt)"] assms by (metis length_rev length_take min.absorb2)
  then have r: "snd (report dt head) = length ?w + 1" by (simp add: report_def line_at_def Let_def)
  have "slice (head - length ?w) head dt = drop (head - length ?w) (take head dt)"
    by (simp add: slice_def drop_take)
  also have "\<dots> = rev ?w"
    using takeWhile_eq_take [of "\<lambda>u. u \<noteq> 10" "rev (take head dt)"] assms
    by (metis length_rev length_take length_takeWhile_le min.absorb2 rev_rev_ident rev_take)
  finally have "set (slice (head - length ?w) head dt) = set ?w" by simp
  then show ?thesis using r len by (auto dest: set_takeWhileD)
qed


end
