(* ===== verification/Address.thy ===== *)
theory Address
  imports Router
begin

section \<open>Addresses as the browser resolves them\<close>

text \<open>
  \<open>navigate\<close> and \<open>Redirect\<close> (nav.ts) hand a URL to the session history, and the application then
  reads \<open>location.pathname + location.search\<close>. In between the browser parses the URL as the URL
  standard says: blanks at the ends and tabs and line ends go, the fragment goes, a backslash
  separates like a slash, dot segments are taken out, encoded or not, and what may not stand in a
  path or in a query is escaped. \<open>browser_url\<close> is that parse for a URL that starts with a slash.
  The lemmas say what it makes of the URLs the router builds.
\<close>

subsection \<open>The parse\<close>

definition url_trim :: "nat list \<Rightarrow> nat list" where
  "url_trim s = rev (dropWhile (\<lambda>c. c \<le> 32) (rev (dropWhile (\<lambda>c. c \<le> 32) s)))"

text \<open>What a path and a query may hold as it stands.\<close>

definition path_kept :: "nat \<Rightarrow> bool" where
  "path_kept c \<longleftrightarrow> 32 < c \<and> c < 127 \<and> c \<notin> set (js ''#<>?^`{}'') \<and> c \<noteq> 34"

definition query_kept :: "nat \<Rightarrow> bool" where
  "query_kept c \<longleftrightarrow> 32 < c \<and> c < 127 \<and> c \<notin> set (js ''#<>'') \<and> c \<noteq> 34 \<and> c \<noteq> 39"

definition url_encode :: "(nat \<Rightarrow> bool) \<Rightarrow> nat list \<Rightarrow> jstr" where
  "url_encode kept cs = concat (map (\<lambda>c. if kept c then [c] else concat (map pct (utf8 c))) cs)"

definition SINGLE_DOTS :: "jstr list" where
  "SINGLE_DOTS = [js ''.'', js ''%2e'', js ''%2E'']"

definition DOUBLE_DOTS :: "jstr list" where
  "DOUBLE_DOTS = [js ''..'', js ''.%2e'', js ''.%2E'', js ''%2e.'', js ''%2E.'',
     js ''%2e%2e'', js ''%2e%2E'', js ''%2E%2e'', js ''%2E%2E'']"

definition single_dot :: "jstr \<Rightarrow> bool" where
  "single_dot s \<longleftrightarrow> s \<in> set SINGLE_DOTS"

definition double_dot :: "jstr \<Rightarrow> bool" where
  "double_dot s \<longleftrightarrow> s \<in> set DOUBLE_DOTS"

text \<open>The segments of the path with the dot segments taken out; \<open>acc\<close> holds the ones kept, the last first.\<close>

fun dot_segments :: "jstr list \<Rightarrow> jstr list \<Rightarrow> jstr list" where
  "dot_segments acc [] = rev acc"
| "dot_segments acc (s # ss) =
     (if double_dot s then dot_segments (if ss = [] then [] # tl acc else tl acc) ss
      else if single_dot s then dot_segments (if ss = [] then [] # acc else acc) ss
      else dot_segments (s # acc) ss)"

text \<open>\<open>None\<close>: the URL names another host, or does not start with a slash.\<close>

definition browser_url :: "jstr \<Rightarrow> jstr option" where
  "browser_url u =
     (let t = takeWhile (\<lambda>c. c \<noteq> 35) (filter (\<lambda>c. c \<notin> set [9, 10, 13]) (url_trim (usv u)));
          p = takeWhile (\<lambda>c. c \<noteq> 63) t; q = drop (Suc (length p)) t
      in case split_on 47 (map (\<lambda>c. if c = 92 then 47 else c) p) of
           [] # s # ss \<Rightarrow>
             if s = [] \<and> ss \<noteq> [] then None
             else Some (47 # join [47] (dot_segments [] (map (url_encode path_kept) (s # ss)))
               @ (if q = [] then [] else 63 # url_encode query_kept q))
         | _ \<Rightarrow> None)"

subsection \<open>What it keeps\<close>

lemma code_points_Cons: "u < 128 \<Longrightarrow> code_points (u # s) = u # code_points s"
  by (cases s) (auto simp: hi_sur_def)

lemma usv_ascii: "list_all (\<lambda>u. u < 128) a \<Longrightarrow> usv (a @ s) = a @ usv s"
  by (induction a) (auto simp: usv_def code_points_Cons scalar_def)

lemma usv_all_scalar: "c \<in> set (usv s) \<Longrightarrow> scalar c"
  by (auto simp: usv_def scalar_def)

lemma trim_append:
  assumes "a \<noteq> []" "list_all (\<lambda>c. 32 < c) a"
  shows "url_trim (a @ y) = a @ rev (dropWhile (\<lambda>c. c \<le> 32) (rev y))"
proof -
  have "dropWhile (\<lambda>c. c \<le> 32) (a @ y) = a @ y" using assms by (cases a) auto
  moreover have "dropWhile (\<lambda>c. c \<le> 32) (rev a) = rev a"
    using assms by (cases a rule: rev_cases) auto
  ultimately show ?thesis by (simp add: url_trim_def dropWhile_append)
qed

text \<open>The characters of the paths the router builds.\<close>

definition addr_char :: "nat \<Rightarrow> bool" where
  "addr_char u \<longleftrightarrow> unreserved u \<or> u = 37 \<or> u = 47"

lemma addr_char_kept: "addr_char u \<Longrightarrow> path_kept u \<and> u < 127 \<and> 32 < u \<and> u \<noteq> 35 \<and> u \<noteq> 63 \<and> u \<noteq> 92"
  by (auto simp: addr_char_def path_kept_def unreserved_def js_def)

lemma query_kept_char: "query_kept c \<Longrightarrow> 32 < c \<and> c < 128 \<and> c \<noteq> 35"
  by (simp add: query_kept_def js_def)

lemma url_encode_kept: "list_all kept s \<Longrightarrow> url_encode kept s = s"
  by (induction s) (simp_all add: url_encode_def)

lemma url_encode_ascii:
  assumes "list_all scalar cs" "\<And>c. kept c \<Longrightarrow> c < 128"
  shows "list_all (\<lambda>u. u < 128) (url_encode kept cs)"
proof -
  have "u < 128" if "c \<in> set cs" "b \<in> set (utf8 c)" "u \<in> set (pct b)" for c b u
    using that assms(1) utf8_bytes [of c b] pct_chars [of u b] by (auto simp: list_all_iff)
  then show ?thesis using assms(2) by (auto simp: url_encode_def list_all_iff split: if_splits)
qed

text \<open>A path of such characters is kept but for its dot segments; the query stays a query.\<close>

lemma resolve_shape:
  assumes e: "list_all addr_char e" "e = [] \<or> hd e \<noteq> 47" and q: "q = [] \<or> hd q = 63"
  obtains q' where "browser_url (47 # e @ q) = Some (47 # join [47] (dot_segments [] (split_on 47 e)) @ q')"
    "q' = [] \<or> hd q' = 63" "list_all (\<lambda>u. u < 128) q'"
    "\<And>r. q = 63 # r \<Longrightarrow> r \<noteq> [] \<Longrightarrow> list_all query_kept r \<Longrightarrow> q' = q" "q = [] \<Longrightarrow> q' = []"
proof -
  let ?a = "47 # e" and ?t = "takeWhile (\<lambda>c. c \<noteq> 35) (filter (\<lambda>c. c \<notin> set [9, 10, 13]) (url_trim (usv (47 # e @ q))))"
  have ek: "path_kept u" "u < 127" "32 < u" "u \<noteq> 35" "u \<noteq> 63" "u \<noteq> 92" if "u \<in> set ?a" for u
    using that e(1) addr_char_kept [of u] by (auto simp: list_all_iff path_kept_def js_def)
  have a128: "list_all (\<lambda>u. u < 128) ?a" and a32: "list_all (\<lambda>u. 32 < u) ?a" unfolding list_all_iff using ek by force+
  have clean: "filter (\<lambda>c. c \<notin> set [9, 10, 13]) s = s" "takeWhile (\<lambda>c. c \<noteq> 35) (s @ y) = s @ takeWhile (\<lambda>c. c \<noteq> 35) y"
    if "list_all (\<lambda>c. 32 < c \<and> c \<noteq> 35) s" for s y :: "nat list"
    using that by (auto simp: list_all_iff filter_id_conv)
  have ac: "list_all (\<lambda>c. 32 < c \<and> c \<noteq> 35) ?a" unfolding list_all_iff using ek by blast
  obtain r' where t: "?t = ?a \<and> q = [] \<and> r' = [] \<or> ?t = ?a @ 63 # r' \<and> q \<noteq> []" and r': "list_all scalar r'"
    and same: "\<And>r. q = 63 # r \<Longrightarrow> list_all query_kept r \<Longrightarrow> r' = r"
  proof (cases q)
    case Nil
    have "?t = ?a" unfolding Nil
      using usv_ascii [OF a128, of "[]"] trim_append [OF _ a32, of "[]"] clean(1) [OF ac] clean(2) [OF ac, of "[]"] by (simp add: usv_def)
    then show thesis using that [of "[]"] Nil by simp
  next
    case (Cons x r)
    then have x: "q = 63 # r" using q by simp
    let ?b = "?a @ [63]" and ?y = "rev (dropWhile (\<lambda>c. c \<le> 32) (rev (usv r)))"
    let ?r = "takeWhile (\<lambda>c. c \<noteq> 35) (filter (\<lambda>c. c \<notin> set [9, 10, 13]) ?y)"
    have b: "list_all (\<lambda>u. u < 128) ?b" "list_all (\<lambda>u. 32 < u) ?b" "list_all (\<lambda>c. 32 < c \<and> c \<noteq> 35) ?b"
      using a128 a32 ac by simp_all
    have "url_trim (usv (47 # e @ q)) = ?b @ ?y"
      using usv_ascii [OF b(1), of r] trim_append [OF _ b(2), of "usv r"] x by simp
    then have "?t = ?a @ 63 # ?r" using clean(1) [OF b(3)] clean(2) [OF b(3)] by simp
    moreover have "set ?r \<subseteq> set (usv r)"
      by (auto dest!: set_takeWhileD set_dropWhileD)
    then have "list_all scalar ?r" using usv_all_scalar by (auto simp: list_all_iff)
    moreover have "?r = r" if k: "list_all query_kept r"
    proof -
      have k': "c < 128" "32 < c" "c \<noteq> 35" if "c \<in> set r" for c
        using that k query_kept_char [of c] by (simp_all add: list_all_iff)
      then have "list_all (\<lambda>u. u < 128) r" by (auto simp: list_all_iff)
      from usv_ascii [OF this, of "[]"] have u: "usv r = r" by (simp add: usv_def)
      have "dropWhile (\<lambda>c. c \<le> 32) (rev r) = rev r"
      proof (cases r rule: rev_cases)
        case (snoc ys y)
        then show ?thesis using k'(2) [of y] by simp
      qed simp
      moreover have "list_all (\<lambda>c. 32 < c \<and> c \<noteq> 35) r" using k' by (auto simp: list_all_iff)
      from clean(1) [OF this] clean(2) [OF this, of "[]"] have "takeWhile (\<lambda>c. c \<noteq> 35) (filter (\<lambda>c. c \<notin> set [9, 10, 13]) r) = r" by simp
      ultimately show ?thesis by (simp add: u)
    qed
    ultimately show thesis using that [of ?r] x by simp
  qed
  have p: "takeWhile (\<lambda>c. c \<noteq> 63) ?t = ?a" "drop (Suc (length ?a)) ?t = r'"
  proof -
    have "takeWhile (\<lambda>c. c \<noteq> 63) (?a @ y) = ?a @ takeWhile (\<lambda>c. c \<noteq> 63) y" for y
      by (rule takeWhile_append2) (use ek in blast)
    from this [of "[]"] this [of "63 # r'"] t show "takeWhile (\<lambda>c. c \<noteq> 63) ?t = ?a" by auto
    show "drop (Suc (length ?a)) ?t = r'" using t by auto
  qed
  have bs: "map (\<lambda>c. if c = 92 then 47 else c) ?a = ?a" by (rule map_idI) (use ek in auto)
  obtain s ss where sp: "split_on 47 e = s # ss" using split_on_neq_Nil by (metis list.exhaust)
  have not2: "\<not> (s = [] \<and> ss \<noteq> [])" using sp e(2) by (cases e) (auto split: list.splits if_splits)
  have "list_all path_kept w" if "w \<in> set (split_on 47 e)" for w
    using split_on_part_sub [OF that] ek(1) by (auto simp: list_all_iff)
  then have enc: "map (url_encode path_kept) (s # ss) = s # ss" using sp by (intro map_idI url_encode_kept) simp
  let ?q = "if r' = [] then [] else 63 # url_encode query_kept r'"
  have "split_on 47 ?a = [] # s # ss" using sp by simp
  then have "browser_url (47 # e @ q) = Some (47 # join [47] (dot_segments [] (split_on 47 e)) @ ?q)"
    using not2 enc sp unfolding browser_url_def Let_def p(1) p(2) bs by simp
  moreover have "list_all (\<lambda>u. u < 128) ?q" using url_encode_ascii [OF r', of query_kept] by (auto simp: query_kept_def)
  moreover have "?q = q" if "q = 63 # r" "r \<noteq> []" "list_all query_kept r" for r
    using same [OF that(1,3)] that url_encode_kept [of query_kept r] by simp
  moreover have "?q = []" if "q = []" using t that by auto
  ultimately show ?thesis by (intro that [of ?q]) auto
qed

subsection \<open>Dot segments\<close>

lemma dot_segments_sub:
  "s \<in> set (dot_segments acc ss) \<Longrightarrow> s = [] \<or> s \<in> set acc \<or> s \<in> set ss \<and> \<not> single_dot s \<and> \<not> double_dot s"
proof (induction acc ss rule: dot_segments.induct)
  case (2 acc s' ss)
  have "x \<in> set (tl acc) \<Longrightarrow> x \<in> set acc" for x by (cases acc) auto
  then show ?case using 2 by (auto split: if_splits)
qed simp

lemma dot_segments_id: "\<forall>s \<in> set ss. \<not> single_dot s \<and> \<not> double_dot s \<Longrightarrow> dot_segments acc ss = rev acc @ ss"
  by (induction acc ss rule: dot_segments.induct) auto

lemma dot_segments_ne: "ss \<noteq> [] \<or> acc \<noteq> [] \<Longrightarrow> dot_segments acc ss \<noteq> []"
proof (induction acc ss rule: dot_segments.induct)
  case (2 acc s ss)
  then show ?case by (cases ss) auto
qed simp

text \<open>The encoded segments: only the dots themselves are encoded to a dot segment.\<close>

definition dots :: "jstr \<Rightarrow> bool" where
  "dots w \<longleftrightarrow> w = js ''.'' \<or> w = js ''..''"

definition enc_seg :: "jstr \<Rightarrow> bool" where
  "enc_seg s \<longleftrightarrow> (\<exists>w. well_formed w \<and> 47 \<notin> set w \<and> encodeURIComponent w = Some s)"

definition ok_seg :: "jstr \<Rightarrow> bool" where
  "ok_seg s \<longleftrightarrow> 47 \<notin> set (decodeSegment s) \<and> \<not> dots (decodeSegment s)"

lemma dots_encode:
  assumes "dots w" shows "encodeURIComponent w = Some w"
proof -
  have e: "encodeURIComponent (js ''.'') = Some (js ''.'')" "encodeURIComponent (js ''..'') = Some (js ''..'')"
    by (simp_all add: encodeURIComponent_def scalar_def enc_point_def unreserved_def hi_sur_def js_def)
  from assms show ?thesis unfolding dots_def by (elim disjE) (simp_all only: e)
qed

lemma dots_decode:
  assumes "single_dot s \<or> double_dot s" shows "dots (decodeSegment s)"
proof -
  have "list_all (\<lambda>s. dots (decodeSegment s)) (SINGLE_DOTS @ DOUBLE_DOTS)"
    by (simp add: SINGLE_DOTS_def DOUBLE_DOTS_def decodeSegment_def decodeURIComponent.simps escaped_point_def escape_def
        hex_val_def utf16_def dots_def js_def)
  moreover have "s \<in> set (SINGLE_DOTS @ DOUBLE_DOTS)" using assms by (simp add: single_dot_def double_dot_def)
  ultimately show ?thesis unfolding list_all_iff by (rule bspec)
qed

lemma dots_dotted:
  assumes "dots s" shows "single_dot s \<or> double_dot s"
proof -
  have e: "single_dot (js ''.'')" "double_dot (js ''..'')" by code_simp+
  from assms show ?thesis unfolding dots_def by (elim disjE) (simp_all only: e simp_thms)
qed

lemma enc_seg_decode:
  assumes "well_formed w" "encodeURIComponent w = Some s" shows "decodeSegment s = w"
proof -
  obtain e where "encodeURIComponent w = Some e" "decodeURIComponent e = Some w"
    using assms(1) by (rule component_roundtrip)
  then show ?thesis using assms(2) by (simp add: decodeSegment_def)
qed

lemma enc_seg_ok:
  assumes "enc_seg s" shows "ok_seg s \<longleftrightarrow> \<not> single_dot s \<and> \<not> double_dot s"
proof -
  obtain w where w: "well_formed w" "47 \<notin> set w" "encodeURIComponent w = Some s" using assms by (auto simp: enc_seg_def)
  have d: "decodeSegment s = w" by (rule enc_seg_decode [OF w(1,3)])
  show ?thesis
  proof (cases "dots w")
    case True
    then have "s = w" using dots_encode w(3) by simp
    then show ?thesis using True dots_dotted d by (auto simp: ok_seg_def)
  next
    case False
    then have "\<not> (single_dot s \<or> double_dot s)" using dots_decode d by metis
    then show ?thesis using False w(2) d by (simp add: ok_seg_def)
  qed
qed

lemma hex_digit_safe: "n < 16 \<Longrightarrow> unreserved (hex_digit n)"
  by (auto simp: hex_digit_def unreserved_def)

lemma pct_addr: "b < 256 \<Longrightarrow> u \<in> set (pct b) \<Longrightarrow> addr_char u"
proof -
  assume "b < 256" "u \<in> set (pct b)"
  moreover from this have "b div 16 < 16" "b mod 16 < 16" by auto
  ultimately show "addr_char u" using hex_digit_safe by (auto simp: pct_def addr_char_def)
qed

lemma component_addr:
  assumes "encodeURIComponent w = Some s" shows "list_all addr_char s"
proof -
  have sc: "list_all scalar (code_points w)" and s: "s = concat (map enc_point (code_points w))"
    using assms by (auto simp: encodeURIComponent_def split: if_splits)
  have "addr_char u" if "scalar c" "u \<in> set (enc_point c)" for c u
    using that utf8_bytes [of c] pct_addr by (auto simp: enc_point_def split: if_splits) (simp add: addr_char_def)
  with sc show ?thesis by (auto simp: s list_all_iff)
qed

subsection \<open>Paths by their segments\<close>

definition segs_all :: "(jstr \<Rightarrow> bool) \<Rightarrow> jstr \<Rightarrow> bool" where
  "segs_all P s \<longleftrightarrow> list_all P (split_on 47 s)"

lemma split_on_mid: "split_on c (a @ c # b) = split_on c a @ split_on c b"
  by (induction a) (auto split: list.splits)

lemma segs_append: "segs_all P (a @ 47 # b) \<longleftrightarrow> segs_all P a \<and> segs_all P b"
  by (simp add: segs_all_def split_on_mid)

lemma segs_slash: "segs_all P (47 # b) \<longleftrightarrow> P [] \<and> segs_all P b"
  by (simp add: segs_all_def)

lemma strip_slashes: obtains k where "p = strip_end 47 p @ replicate k (47 :: nat)"
proof -
  have "p = strip_end 47 p @ rev (takeWhile (\<lambda>u. u = 47) (rev p))"
    unfolding strip_end_def by (metis rev_append rev_rev_ident takeWhile_dropWhile_id)
  moreover have "rev (takeWhile (\<lambda>u. u = 47) (rev p)) = replicate (length (takeWhile (\<lambda>u. u = 47) (rev p))) 47"
    by (metis (mono_tags, lifting) length_rev replicate_length_same set_rev set_takeWhileD)
  ultimately show ?thesis using that by metis
qed

lemma segs_strip_end: "segs_all P s \<Longrightarrow> segs_all P (strip_end 47 s)"
proof -
  obtain k where k: "s = strip_end 47 s @ replicate k 47" by (rule strip_slashes)
  show "segs_all P s \<Longrightarrow> segs_all P (strip_end 47 s)"
  proof (cases k)
    case 0
    then show "segs_all P s \<Longrightarrow> ?thesis" using k by simp
  next
    case (Suc n)
    then have "s = strip_end 47 s @ 47 # replicate n 47" using k by simp
    then show "segs_all P s \<Longrightarrow> ?thesis" using segs_append by metis
  qed
qed

lemma segs_strip_start: "segs_all P s \<Longrightarrow> segs_all P (strip_start 47 s)"
  by (induction s) (auto simp: strip_start_def segs_slash)

lemma segs_after: "segs_all P s \<Longrightarrow> first_index 47 s = Some i \<Longrightarrow> segs_all P (drop (Suc i) s)"
proof -
  assume "segs_all P s" "first_index 47 s = Some i"
  moreover from this have "s = take i s @ 47 # drop (Suc i) s" using first_index_split by metis
  ultimately show ?thesis using segs_append by metis
qed

text \<open>A decoded path without dot segments and without slashes at its end.\<close>

definition dot_free :: "jstr \<Rightarrow> bool" where
  "dot_free p \<longleftrightarrow> segs_all (\<lambda>w. \<not> dots w) p \<and> strip_end 47 p = p"

lemma dot_free_Nil: "dot_free []"
  by (simp add: dot_free_def segs_all_def dots_def strip_end_def js_def)

lemma decodeSegment_Nil: "decodeSegment s = [] \<longleftrightarrow> s = []"
proof (cases s)
  case (Cons u t)
  have "utf16 c \<noteq> []" for c by (simp add: utf16_def)
  then have "decodeURIComponent (u # t) \<noteq> Some []"
    by (auto simp: decodeURIComponent.simps(2) split: option.splits prod.splits)
  then show ?thesis using Cons by (auto simp: decodeSegment_def split: option.splits)
qed (simp add: decodeSegment_def)

lemma last_split_Nil: "last (split_on c s) = [] \<longleftrightarrow> s = [] \<or> last s = c"
proof (induction s)
  case (Cons x xs)
  obtain w ws where "split_on c xs = w # ws" using split_on_neq_Nil by (metis list.exhaust)
  moreover from this have "ws = [] \<Longrightarrow> xs = w \<and> c \<notin> set w"
    by (metis join.simps(2) join_split_on list.set_intros(1) split_on_part)
  ultimately show ?case using Cons by (cases xs) auto
qed simp

lemma decodePath_dot_free:
  assumes "segs_all ok_seg s" "strip_end 47 s = s"
  shows "dot_free (decodePath s)"
proof -
  let ?ws = "map decodeSegment (split_on 47 s)"
  have sp: "split_on 47 (decodePath s) = ?ws" unfolding decodePath_def
    using assms(1) by (intro split_on_join) (auto simp: segs_all_def ok_seg_def list_all_iff)
  have d: "segs_all (\<lambda>w. \<not> dots w) (decodePath s)"
    using assms(1) unfolding segs_all_def sp by (auto simp: ok_seg_def list_all_iff)
  have "last ?ws = [] \<longleftrightarrow> last (split_on 47 s) = []" by (simp add: last_map decodeSegment_Nil)
  then have "decodePath s = [] \<or> last (decodePath s) = 47 \<longleftrightarrow> s = [] \<or> last s = 47"
    using last_split_Nil [of 47 s] last_split_Nil [of 47 "decodePath s"] sp by simp
  moreover have "s = [] \<or> last s \<noteq> 47" using assms(2) strip_end_last [of 47 s] by simp
  moreover have "decodePath [] = []" by (simp add: decodePath_def decodeSegment_def)
  ultimately have "strip_end 47 (decodePath s) = decodePath s" by (intro strip_end_id) auto
  with d show ?thesis by (simp add: dot_free_def)
qed

lemma dot_free_after: "dot_free p \<Longrightarrow> dot_free (after_first p)"
proof (cases "first_index 47 p")
  case None
  then show ?thesis by (simp add: after_first_def dot_free_Nil)
next
  case (Some i)
  assume "dot_free p"
  then have "segs_all (\<lambda>w. \<not> dots w) (strip_end 47 (drop (Suc i) p))"
    using segs_strip_end [OF segs_after [OF _ Some]] by (simp add: dot_free_def)
  moreover have "strip_end 47 (strip_end 47 s) = strip_end 47 s" for s :: jstr
    using strip_end_last [of 47 s] by (rule strip_end_id)
  ultimately show ?thesis using Some by (simp add: after_first_def dot_free_def)
qed

text \<open>What an address without dot segments is parsed to has none either.\<close>

lemma takeView_dot_free:
  assumes "dot_free (rpath r)" "viewTarget r = None"
  shows "dot_free (rpath (takeView r))" "viewTarget (takeView r) = Some t \<Longrightarrow> dot_free t"
proof -
  have ed: "dot_free (strip_end 47 (drop 5 (rpath r)))" if "first_segment (rpath r) = js ''edit''"
  proof (cases "first_index 47 (rpath r)")
    case None
    then have "rpath r = js ''edit''" using that by (simp add: first_segment_def)
    then show ?thesis using dot_free_Nil by (simp add: js_def strip_end_def)
  next
    case (Some i)
    then have "rpath r = js ''edit'' @ 47 # drop (Suc i) (rpath r)" using that first_index_split [OF Some] by (simp add: first_segment_def)
    then obtain z where z: "rpath r = js ''edit'' @ 47 # z" "z = drop (Suc i) (rpath r)" by blast
    have "drop 5 (js ''edit'' @ 47 # z) = z" by (simp add: js_def)
    then have "drop 5 (rpath r) = z" by (simp only: z(1))
    then have "drop 5 (rpath r) = drop (Suc i) (rpath r)" by (rule trans [OF _ z(2)])
    then show ?thesis using dot_free_after [OF assms(1)] Some by (simp add: after_first_def)
  qed
  show "dot_free (rpath (takeView r))"
    using assms ed dot_free_Nil by (auto simp: takeView_def takeEdit_def Let_def)
  show "viewTarget (takeView r) = Some t \<Longrightarrow> dot_free t"
    using assms dot_free_after [OF assms(1)] by (auto simp: takeView_def takeEdit_def Let_def split: if_splits)
qed

lemma parsePath_dot_free:
  assumes "segs_all ok_seg x"
  shows "dot_free (rpath (parsePath x True)) \<and> (\<forall>t. viewTarget (parsePath x True) = Some t \<longrightarrow> dot_free t)"
proof -
  let ?raw = "strip_start 47 x"
  have raw: "segs_all ok_seg ?raw" using assms by (rule segs_strip_start)
  have st: "strip_end 47 (strip_end 47 s) = strip_end 47 s" for s :: jstr using strip_end_last [of 47 s] by (rule strip_end_id)
  show ?thesis
  proof (cases "first_index 47 ?raw")
    case None
    then show ?thesis using dot_free_Nil by (simp add: parsePath_def Let_def new_route_def)
  next
    case (Some i)
    let ?w = "withPath (new_route\<lparr>Route.project := Some (take i ?raw)\<rparr>) (drop (Suc i) ?raw)"
    have "dot_free (rpath ?w)" "viewTarget ?w = None"
      using decodePath_dot_free [OF segs_strip_end [OF segs_after [OF raw Some]] st] dot_free_Nil
      by (simp_all add: withPath_def Let_def new_route_def)
    note v = takeView_dot_free [OF this]
    have "dot_free []" by (rule dot_free_Nil)
    with v show ?thesis using Some by (simp add: parsePath_def Let_def new_route_def)
  qed
qed

subsection \<open>The URLs of the router\<close>

text \<open>A project's id as the hub makes it (a UUID) or a package's (letters, digits and hyphens).\<close>

definition plain_id :: "jstr \<Rightarrow> bool" where
  "plain_id pid \<longleftrightarrow> project_id pid
     \<and> list_all (\<lambda>u. 48 \<le> u \<and> u \<le> 57 \<or> 65 \<le> u \<and> u \<le> 90 \<or> 97 \<le> u \<and> u \<le> 122 \<or> u = 45) pid"

lemma plain_seg:
  assumes "list_all (\<lambda>u. 48 \<le> u \<and> u \<le> 57 \<or> 65 \<le> u \<and> u \<le> 90 \<or> 97 \<le> u \<and> u \<le> 122 \<or> u = 45) w"
  shows "enc_seg w" "ok_seg w"
proof -
  have k: "u < 128" "unreserved u" "u \<noteq> 47" "u \<noteq> 46" "u \<noteq> 37" if "u \<in> set w" for u
    using that assms by (auto simp: list_all_iff unreserved_def js_def)
  have a: "list_all (\<lambda>u. u < 128) w" using k by (auto simp: list_all_iff)
  have cp: "code_points w = w" by (rule code_points_ascii [OF a])
  have "map enc_point w = map (\<lambda>u. [u]) w" using k by (intro map_cong) (simp_all add: enc_point_def)
  then have "concat (map enc_point w) = w" by (simp only: concat_map_singleton map_ident)
  then have "encodeURIComponent w = Some w"
    using a by (auto simp: encodeURIComponent_def cp list_all_iff scalar_def)
  moreover have "well_formed w" by (rule ascii_well_formed [OF a])
  moreover have n: "47 \<notin> set w" using k by auto
  ultimately show "enc_seg w" by (auto simp: enc_seg_def)
  have "37 \<notin> set w" using k(5) by blast
  then have "decodeSegment w = w" by (simp add: decodeSegment_def decode_plain)
  moreover have "\<not> dots w" using k(4) by (auto simp: dots_def js_def)
  ultimately show "ok_seg w" using n by (simp add: ok_seg_def)
qed

lemma enc_seg_chars:
  assumes "enc_seg s" shows "list_all addr_char s" "47 \<notin> set s"
  using assms component_addr component_chars(1) by (auto simp: enc_seg_def)

lemma enc_path_chars: "segs_all enc_seg e \<Longrightarrow> list_all addr_char e"
proof -
  assume e: "segs_all enc_seg e"
  have "set (join [47] (split_on 47 e)) \<subseteq> insert 47 (\<Union> (set ` set (split_on 47 e)))" by (rule join_set)
  then have "set e \<subseteq> insert 47 (\<Union> (set ` set (split_on 47 e)))" by simp
  moreover have "addr_char u" if "s \<in> set (split_on 47 e)" "u \<in> set s" for s u
    using that e enc_seg_chars(1) by (auto simp: segs_all_def list_all_iff)
  ultimately show "list_all addr_char e" by (auto simp: list_all_iff) (auto simp: addr_char_def)
qed

lemma encodePath_segs:
  assumes "well_formed p" "encodePath p = Some e"
  shows "segs_all enc_seg e" "segs_all (\<lambda>w. \<not> dots w) p \<Longrightarrow> segs_all ok_seg e"
proof -
  let ?es = "map (\<lambda>w. the (encodeURIComponent w)) (split_on 47 p)"
  have w: "well_formed w" "47 \<notin> set w" if "w \<in> set (split_on 47 p)" for w
    using well_formed_parts [OF _ assms(1) that] split_on_part [OF that] by simp_all
  have enc: "enc_seg (the (encodeURIComponent w))" "decodeSegment (the (encodeURIComponent w)) = w"
    if h: "w \<in> set (split_on 47 p)" for w
  proof -
    obtain x where x: "encodeURIComponent w = Some x" "decodeURIComponent x = Some w"
      using w(1) [OF h] by (rule component_roundtrip)
    then show "enc_seg (the (encodeURIComponent w))" "decodeSegment (the (encodeURIComponent w)) = w"
      using w [OF h] by (auto simp: enc_seg_def decodeSegment_def)
  qed
  have e: "e = join [47] ?es"
    using assms(2) by (auto simp: encodePath_def seq_option_def o_def split: if_splits)
  have sp: "split_on 47 e = ?es" unfolding e
    using enc(1) enc_seg_chars(2) by (intro split_on_join) auto
  show "segs_all enc_seg e" using enc(1) by (simp add: segs_all_def sp list_all_iff)
  show "segs_all ok_seg e" if "segs_all (\<lambda>w. \<not> dots w) p"
    using that enc(2) w(2) by (simp add: segs_all_def sp list_all_iff ok_seg_def)
qed

text \<open>What the browser makes of such a URL: a path without dot segments, the same one if it had none.\<close>

lemma resolve_built:
  assumes e: "segs_all enc_seg e" "e \<noteq> []" "hd e \<noteq> 47" and q: "q = [] \<or> hd q = 63"
  obtains y q' where "browser_url (47 # e @ q) = Some (47 # y @ q')" "segs_all ok_seg y" "list_all addr_char y"
    "q' = [] \<or> hd q' = 63" "list_all (\<lambda>u. u < 128) q'" "segs_all ok_seg e \<Longrightarrow> y = e"
    "\<And>r. q = 63 # r \<Longrightarrow> r \<noteq> [] \<Longrightarrow> list_all query_kept r \<Longrightarrow> q' = q" "q = [] \<Longrightarrow> q' = []"
proof -
  let ?ss = "dot_segments [] (split_on 47 e)"
  let ?y = "join [47] ?ss"
  obtain q' where r: "browser_url (47 # e @ q) = Some (47 # ?y @ q')" "q' = [] \<or> hd q' = 63" "list_all (\<lambda>u. u < 128) q'"
    "\<And>r. q = 63 # r \<Longrightarrow> r \<noteq> [] \<Longrightarrow> list_all query_kept r \<Longrightarrow> q' = q" "q = [] \<Longrightarrow> q' = []"
    using resolve_shape [OF enc_path_chars [OF e(1)] _ q] e(3) by metis
  have en: "enc_seg s" if "s \<in> set (split_on 47 e)" for s using that e(1) by (simp add: segs_all_def list_all_iff)
  have ss: "47 \<notin> set s" "ok_seg s" "list_all addr_char s" if "s \<in> set ?ss" for s
  proof -
    have "s = [] \<or> enc_seg s \<and> \<not> single_dot s \<and> \<not> double_dot s"
      using dot_segments_sub [OF that] en by auto
    then show "47 \<notin> set s" "ok_seg s" "list_all addr_char s"
      using enc_seg_chars [of s] enc_seg_ok [of s] by (auto simp: ok_seg_def dots_def decodeSegment_def js_def)
  qed
  have sp: "split_on 47 ?y = ?ss" by (rule split_on_join) (use ss dot_segments_ne in auto)
  have "segs_all ok_seg ?y" using ss by (simp add: segs_all_def sp list_all_iff)
  moreover have "set ?y \<subseteq> insert 47 (\<Union> (set ` set ?ss))" by (rule join_set)
  then have "list_all addr_char ?y" using ss(3) by (fastforce simp: list_all_iff addr_char_def)
  moreover have "?y = e" if "segs_all ok_seg e"
  proof -
    have "\<forall>s \<in> set (split_on 47 e). \<not> single_dot s \<and> \<not> double_dot s"
      using that en enc_seg_ok by (simp add: segs_all_def list_all_iff)
    from dot_segments_id [OF this, of "[]"] show ?thesis by simp
  qed
  ultimately show ?thesis using r by (intro that [of ?y q']) auto
qed

text \<open>The queries the router writes are kept.\<close>

lemma form_byte_kept: "b < 256 \<Longrightarrow> u \<in> set (form_byte b) \<Longrightarrow> query_kept u"
proof -
  assume b: "b < 256" "u \<in> set (form_byte b)"
  have safe: "query_kept u" if "form_safe u" for u using that by (auto simp: form_safe_def query_kept_def js_def)
  have hex: "form_safe (hex_digit n)" if "n < 16" for n using that by (auto simp: hex_digit_def form_safe_def)
  have "b div 16 < 16" "b mod 16 < 16" using b(1) by auto
  then have "query_kept (hex_digit (b div 16))" "query_kept (hex_digit (b mod 16))" by (simp_all add: hex safe)
  moreover have "query_kept 43" "query_kept 37" by (simp_all add: query_kept_def js_def)
  ultimately show ?thesis using b(2) safe [of b] by (auto simp: form_byte_def pct_def split: if_splits)
qed

lemma form_kept: "list_all query_kept (form_encode s)"
proof -
  have "b < 256" if "b \<in> set (utf8_string s)" for b
    using that utf8_bytes usv_all_scalar by (auto simp: utf8_string_def)
  then show ?thesis using form_byte_kept by (auto simp: form_encode_def list_all_iff)
qed

lemma params_kept: "list_all query_kept (params_string ps)"
proof -
  have kc: "query_kept 38" "query_kept 61" by (simp_all add: query_kept_def js_def)
  have "query_kept u" if "w \<in> set (map (\<lambda>(k, v). form_encode k @ 61 # form_encode v) ps)" "u \<in> set w" for w u
    using that form_kept kc by (auto simp: list_all_iff)
  then show ?thesis using join_set [of 38 "map (\<lambda>(k, v). form_encode k @ 61 # form_encode v) ps"]
    unfolding params_string_def list_all_iff using kc by blast
qed

end
