(* ===== verification/HubPage.thy ===== *)
theory HubPage
  imports Router Util Browser Address
begin

section \<open>The hub application\<close>

text \<open>
  \<open>apps/HubApp.tsx\<close>: which project an address shows, which addresses are rewritten and to what, which
  page stands in front of the project, and what joining and creating do. The queries' answers (projects,
  organisations) are arguments. The lemmas show that the rewriting of addresses ends: any address of a
  browser is at its page after at most three hops, each of them resolved by the browser (theory
  Address) before it is parsed again.
\<close>

subsection \<open>Onboarding and invites\<close>

definition url_path :: "jstr \<Rightarrow> jstr" where
  "url_path loc = takeWhile (\<lambda>u. u \<noteq> 63) loc"

definition setupStep :: "bool \<Rightarrow> jstr \<Rightarrow> jstr option" where
  "setupStep desk loc =
     (let p = url_path loc
      in if \<not> desk then None
         else if p = js ''/setup'' \<or> p = js ''/setup/'' then Some (js ''welcome'')
         else find (\<lambda>w. p = js ''/setup/'' @ w \<or> p = js ''/setup/'' @ w @ [47]) [js ''connect'', js ''syncing'', js ''done''])"

definition joinToken :: "jstr \<Rightarrow> jstr option" where
  "joinToken loc =
     (let p = url_path loc; r = drop 6 p; t = (if r \<noteq> [] \<and> last r = 47 then butlast r else r)
      in if starts_with p (js ''/join/'') \<and> t \<noteq> [] \<and> list_all hex_lower t then Some t else None)"

definition joinProject :: "jstr \<Rightarrow> jstr" where
  "joinProject loc = str_or (param_get (parse_params (takeWhile (\<lambda>u. u \<noteq> 63) (drop (length (url_path loc) + 1) loc))) (js ''p'')) []"

subsection \<open>The project shown\<close>

record HubProj = Proj +
  pr_org :: "jstr option"

definition current_project :: "HubProj list \<Rightarrow> jstr option \<Rightarrow> jstr option \<Rightarrow> jstr \<Rightarrow> HubProj option" where
  "current_project ps pid joined lastp =
     (case find (\<lambda>p. Some (pr_id p) = pid) ps of
        Some p \<Rightarrow> Some p
      | None \<Rightarrow>
          (case (if truthy joined then find (\<lambda>p. pr_org p = joined) ps else None) of
             Some p \<Rightarrow> Some p
           | None \<Rightarrow>
               (case find (\<lambda>p. pr_id p = lastp) ps of
                  Some p \<Rightarrow> Some p
                | None \<Rightarrow> (case ps of [] \<Rightarrow> None | p # _ \<Rightarrow> Some p))))"

text \<open>On the desktop the level of access is the hub's, once its answer is in.\<close>

definition effective_perm :: "bool \<Rightarrow> jstr option \<Rightarrow> HubProj \<Rightarrow> HubProj" where
  "effective_perm desk hub_me p = (if desk \<and> hub_me \<noteq> None then p\<lparr>pr_perm := hub_me\<rparr> else p)"

subsection \<open>What an address shows\<close>

record HubEnv =
  e_desktop :: bool
  e_projects :: "HubProj list option"
  e_orgs :: "jstr list option"
  e_joined :: "jstr option"
  e_last :: jstr
  e_panel :: bool
  e_billing :: bool
  e_mcp :: bool

datatype HubView =
  JoinPage jstr | SetupPage jstr | LoadingPage | NoProjects | ProjectNotFound jstr jstr
| HubAdminPanel jstr | OrgNotFound jstr | OrgPage jstr jstr | BillingPage bool jstr | ConnectionsPage bool jstr
| SettingsPage jstr | InstallPage bool jstr | ProjectPage jstr

text \<open>A redirect's address may fail to be encoded.\<close>

datatype HubStep = RedirectTo "jstr option" | Shown HubView

definition hub_panel :: "HubEnv \<Rightarrow> Route \<Rightarrow> jstr \<Rightarrow> HubView" where
  "hub_panel env ro cid =
     (if e_panel env then HubAdminPanel cid
      else if truthy (org ro) then
        (if the (org ro) \<in> set (the (e_orgs env)) then OrgPage (the (org ro)) cid else OrgNotFound cid)
      else if billing ro then BillingPage (e_billing env) cid
      else if connections ro then ConnectionsPage (e_mcp env) cid
      else if view ro = Some VSettings then SettingsPage cid
      else if view ro = Some VInstall then InstallPage (connect_q ro = Some (js ''existing'')) cid
      else ProjectPage cid)"

definition hub_route :: "(jstr \<Rightarrow> jstr) \<Rightarrow> HubEnv \<Rightarrow> HubProj list \<Rightarrow> Route \<Rightarrow> HubStep" where
  "hub_route lower env ps ro =
     (case current_project ps (Route.project ro) (e_joined env) (e_last env) of
        None \<Rightarrow> Shown NoProjects
      | Some cp \<Rightarrow>
          let cid = pr_id cp; dest = (\<lambda>pid. if view ro \<noteq> None then urlForView (the (view ro)) (Some pid) (viewTarget ro) (Route.filters ro)
                else urlForPath (Route.rpath ro) (Some pid) (Route.version ro) (Route.full ro) (Route.editing ro))
          in if truthy (Route.project ro) \<and> the (Route.project ro) \<notin> pr_id ` set ps then
               (case projectByName lower (map (\<lambda>p. (pr_id p, pr_name p)) ps) (the (Route.project ro)) of
                  Some pid \<Rightarrow> RedirectTo (dest pid)
                | None \<Rightarrow> Shown (ProjectNotFound (decodePath (the (Route.project ro))) cid))
             else if \<not> truthy (org ro) \<and> \<not> billing ro \<and> \<not> connections ro \<and> Route.project ro \<noteq> Some cid then RedirectTo (Some (47 # cid))
             else if is_legacyView ro \<and> view ro \<noteq> None then RedirectTo (urlForView (the (view ro)) (Some cid) (viewTarget ro) (Route.filters ro))
             else if queryTarget ro \<and> view ro \<noteq> None then RedirectTo (urlForView (the (view ro)) (Some cid) (viewTarget ro) (Route.filters ro))
             else if trailingSlash ro \<and> Route.rpath ro \<noteq> [] then
               RedirectTo (urlForPath (Route.rpath ro) (Some cid) (Route.version ro) (Route.full ro) (Route.editing ro))
             else Shown (hub_panel env ro cid))"

definition hub_step :: "(jstr \<Rightarrow> jstr) \<Rightarrow> HubEnv \<Rightarrow> jstr \<Rightarrow> HubStep" where
  "hub_step lower env loc =
     (case joinToken loc of
        Some t \<Rightarrow> Shown (JoinPage t)
      | None \<Rightarrow>
          (case setupStep (e_desktop env) loc of
             Some w \<Rightarrow> Shown (SetupPage w)
           | None \<Rightarrow>
               (case (e_projects env, e_orgs env) of
                  (Some ps, Some os) \<Rightarrow>
                    if e_desktop env \<and> ps = [] then RedirectTo (Some (js ''/setup''))
                    else hub_route lower env ps (parseRoute loc True)
                | _ \<Rightarrow> Shown LoadingPage)))"

text \<open>A visit follows redirects, a given number of them at most. A redirect's address goes through the
  browser: the page is drawn again from the location the browser made of it.\<close>

fun hub_visit :: "(jstr \<Rightarrow> HubStep) \<Rightarrow> nat \<Rightarrow> jstr \<Rightarrow> HubStep" where
  "hub_visit f 0 loc = f loc"
| "hub_visit f (Suc n) loc =
     (case f loc of
        RedirectTo (Some u) \<Rightarrow> (case browser_url u of Some l \<Rightarrow> hub_visit f n l | None \<Rightarrow> RedirectTo (Some u))
      | s \<Rightarrow> s)"

subsection \<open>Text of addresses is well formed\<close>

lemma code_points_utf16:
  "list_all scalar ks \<Longrightarrow> code_points (concat (map utf16 ks)) = ks"
  by (induction ks) (simp_all add: scalar_utf16)

lemma utf16_units: "scalar c \<Longrightarrow> u \<in> set (utf16 c) \<Longrightarrow> u < 65536"
proof -
  assume c: "scalar c" "u \<in> set (utf16 c)"
  have "(c - 65536) div 1024 < 1024" "(c - 65536) mod 1024 < 1024" using c(1) by (auto simp: scalar_def less_mult_imp_div_less)
  then show ?thesis using c(2) by (auto simp: utf16_def split: if_splits)
qed

lemma well_formed_scalars: "list_all scalar ks \<Longrightarrow> well_formed (concat (map utf16 ks))"
  by (auto simp: well_formed_def code_points_utf16 list_all_iff dest: utf16_units)

lemma well_formed_utf16: "scalar c \<Longrightarrow> well_formed s \<Longrightarrow> well_formed (utf16 c @ s)"
  by (auto simp: well_formed_def scalar_utf16 list_all_iff dest: utf16_units)

lemma well_formed_ascii_Cons: "u < 128 \<Longrightarrow> well_formed s \<Longrightarrow> well_formed (u # s)"
  using well_formed_cut [of u "[]" s] by (simp add: well_formed_def)

lemma escaped_scalar: "escaped_point s = Some (c, t) \<Longrightarrow> scalar c"
  by (auto simp: escaped_point_def scalar_def split: option.splits if_splits)

text \<open>An escape is taken off the front of a string in ASCII units.\<close>

definition ascii_prefix :: "jstr \<Rightarrow> jstr \<Rightarrow> bool" where
  "ascii_prefix t s \<longleftrightarrow> (\<exists>a. s = a @ t \<and> list_all (\<lambda>u. u < 128) a)"

lemma ascii_prefix_trans: "ascii_prefix t s \<Longrightarrow> ascii_prefix u t \<Longrightarrow> ascii_prefix u s"
  unfolding ascii_prefix_def by (metis append.assoc list_all_append)

lemma hex_val_ascii: "hex_val u = Some n \<Longrightarrow> u < 128"
  by (auto simp: hex_val_def split: if_splits)

lemma escape_rest: "escape s = Some (b, t) \<Longrightarrow> ascii_prefix t s"
proof -
  assume e: "escape s = Some (b, t)"
  then obtain p u v where "s = p # u # v # t" "p = 37" "\<exists>n. hex_val u = Some n" "\<exists>n. hex_val v = Some n"
    by (auto simp: escape_def split: list.splits option.splits if_splits)
  then show ?thesis unfolding ascii_prefix_def by (intro exI [of _ "[p, u, v]"]) (auto dest: hex_val_ascii)
qed

lemma conts_rest: "conts n c s = Some (d, t) \<Longrightarrow> ascii_prefix t s"
proof (induction n c s rule: conts.induct)
  case (2 n c s)
  then obtain b r where e: "escape s = Some (b, r)" "128 \<le> b \<and> b \<le> 191" "conts n (c * 64 + (b - 128)) r = Some (d, t)"
    by (auto split: option.splits if_splits)
  from "2.IH" [OF e(1) refl e(2,3)] escape_rest [OF e(1)] show ?case by (metis ascii_prefix_trans)
qed (auto simp: ascii_prefix_def)

lemma escaped_rest:
  assumes "escaped_point s = Some (c, t)" shows "ascii_prefix t s"
proof -
  have "\<exists>b t0. escape s = Some (b, t0) \<and> (t = t0 \<or> (\<exists>n x d. conts n x t0 = Some (d, t)))"
    using assms by (auto simp: escaped_point_def simp del: conts.simps split: option.splits if_splits)
  then obtain b t0 where e: "escape s = Some (b, t0)" "t = t0 \<or> (\<exists>n x d. conts n x t0 = Some (d, t))" by blast
  then show ?thesis using escape_rest [OF e(1)] conts_rest ascii_prefix_trans by blast
qed

lemma well_formed_rest: "ascii_prefix t s \<Longrightarrow> well_formed s \<Longrightarrow> well_formed t"
proof -
  have "list_all (\<lambda>u. u < 128) a \<Longrightarrow> well_formed (a @ t) \<Longrightarrow> well_formed t" for a
  proof (induction a)
    case (Cons u a)
    then show ?case using well_formed_cut [of u "[]" "a @ t"] by simp
  qed simp
  then show "ascii_prefix t s \<Longrightarrow> well_formed s \<Longrightarrow> well_formed t" by (auto simp: ascii_prefix_def)
qed

lemma decode_unit: "scalar c \<Longrightarrow> c \<noteq> 37 \<Longrightarrow> decodeURIComponent (utf16 c @ s) = map_option (append (utf16 c)) (decodeURIComponent s)"
  by (cases "decodeURIComponent s") (auto simp: utf16_def decodeURIComponent.simps(2))

lemma decoded_well_formed: "well_formed s \<Longrightarrow> decodeURIComponent s = Some d \<Longrightarrow> well_formed d"
proof (induction "length s" arbitrary: s d rule: less_induct)
  case less
  show ?case
  proof (cases s)
    case Nil
    with less.prems show ?thesis by simp
  next
    case (Cons u r)
    have "code_points s \<noteq> []" using Cons by (cases s rule: code_points.cases) (auto split: if_splits)
    then obtain c ks where k: "code_points s = c # ks" by (meson neq_Nil_conv)
    have sc: "scalar c" "list_all scalar ks" using less.prems(1) k by (simp_all add: well_formed_def)
    have s: "s = utf16 c @ concat (map utf16 ks)"
      using utf16_code_points [of s] less.prems(1) k by (simp add: well_formed_def)
    have w: "well_formed (concat (map utf16 ks))" by (rule well_formed_scalars [OF sc(2)])
    have ne: "utf16 c \<noteq> []" by (simp add: utf16_def)
    show ?thesis
    proof (cases "c = 37")
      case False
      then obtain d' where "decodeURIComponent (concat (map utf16 ks)) = Some d'" "d = utf16 c @ d'"
        using less.prems(2) s decode_unit [OF sc(1) False] by auto
      with less.hyps [OF _ w] s ne sc(1) show ?thesis by (simp add: well_formed_utf16)
    next
      case True
      then have "s = 37 # concat (map utf16 ks)" using s by (simp add: utf16_def)
      then obtain x t d' where e: "escaped_point s = Some (x, t)" "decodeURIComponent t = Some d'" "d = utf16 x @ d'"
        using less.prems(2) by (auto simp: decodeURIComponent.simps(2) split: option.splits prod.splits)
      have "well_formed t" using well_formed_rest [OF escaped_rest [OF e(1)] less.prems(1)] .
      then have "well_formed d'" using less.hyps [OF escaped_shorter [OF e(1)] _ e(2)] by simp
      then show ?thesis using e(3) escaped_scalar [OF e(1)] by (simp add: well_formed_utf16)
    qed
  qed
qed

lemma join_well_formed: "\<forall>w \<in> set wds. well_formed w \<Longrightarrow> well_formed (join [47] wds)"
proof (induction "[47 :: nat]" wds rule: join.induct)
  case (3 w v wds)
  then show ?case by (simp add: well_formed_cut)
qed (simp_all add: well_formed_def)

lemma decodePath_well_formed:
  assumes "well_formed s" shows "well_formed (decodePath s)"
proof -
  have "well_formed (decodeSegment w)" if "w \<in> set (split_on 47 s)" for w
  proof -
    have "well_formed w" by (rule well_formed_parts [OF _ assms that]) simp
    then show ?thesis using decoded_well_formed [of w] by (auto simp: decodeSegment_def split: option.splits)
  qed
  then show ?thesis unfolding decodePath_def by (intro join_well_formed) auto
qed

text \<open>The decoder of query strings gives code points only: what the bytes still to come can give is one.\<close>

fun pending_ok :: "nat \<Rightarrow> nat \<Rightarrow> nat \<Rightarrow> nat \<Rightarrow> bool" where
  "pending_ok 0 c lo hi = True"
| "pending_ok (Suc n) c lo hi = (\<forall>b. lo \<le> b \<and> b \<le> hi \<longrightarrow>
     (if n = 0 then scalar (c * 64 + (b - 128)) else pending_ok n (c * 64 + (b - 128)) 128 191))"

lemma lead_two: "b \<le> 223 \<Longrightarrow> pending_ok 1 (b - 192) 128 191"
  by (auto simp: scalar_def)

lemma lead_three:
  assumes "224 \<le> b" "b \<le> 239"
  shows "pending_ok 2 (b - 224) (if b = 224 then 160 else 128) (if b = 237 then 159 else 191)"
proof -
  have "scalar (((b - 224) * 64 + (x - 128)) * 64 + (y - 128))"
    if "(if b = 224 then 160 else 128) \<le> x" "x \<le> (if b = 237 then 159 else 191)" "128 \<le> y" "y \<le> 191" for x y
  proof (cases "b = 237")
    case False
    then have "b - 224 \<le> 12 \<or> 14 \<le> b - 224 \<and> b - 224 \<le> 15" using assms by linarith
    moreover have "128 \<le> x" using that(1) by (simp split: if_splits)
    ultimately show ?thesis using that False unfolding scalar_def by auto
  qed (use that in \<open>auto simp: scalar_def\<close>)
  then show ?thesis by (simp only: numeral_2_eq_2 pending_ok.simps nat.simps if_False if_True refl) blast
qed

lemma lead_four:
  assumes "240 \<le> b" "b \<le> 244"
  shows "pending_ok 3 (b - 240) (if b = 240 then 144 else 128) (if b = 244 then 143 else 191)"
proof -
  have "scalar ((((b - 240) * 64 + (x - 128)) * 64 + (y - 128)) * 64 + (z - 128))"
    if "(if b = 240 then 144 else 128) \<le> x" "x \<le> (if b = 244 then 143 else 191)" "128 \<le> y" "y \<le> 191" "128 \<le> z" "z \<le> 191" for x y z
  proof -
    consider "b = 240" | "b = 244" | "241 \<le> b" "b \<le> 243" using assms by linarith
    then show ?thesis using that by cases (auto simp: scalar_def)
  qed
  then show ?thesis by (simp only: numeral_3_eq_3 pending_ok.simps nat.simps if_False if_True refl) blast
qed

lemma utf8_decode_scalar: "pending_ok n c lo hi \<Longrightarrow> list_all scalar (utf8_decode n c lo hi bs)"
proof (induction n c lo hi bs rule: utf8_decode.induct)
  case (3 c lo hi b bs)
  have leads: "pending_ok 1 (b - 192) 128 191" if "b \<le> 223" using lead_two [OF that] .
  show ?case using 3 leads lead_three [of b] lead_four [of b] by (simp add: scalar_def)
next
  case (4 n c lo hi b bs)
  then show ?case by (auto simp: Let_def scalar_def)
qed (simp_all add: scalar_def)

lemma form_decode_well_formed: "well_formed (form_decode s)"
  unfolding form_decode_def by (intro well_formed_scalars utf8_decode_scalar) simp

lemma param_well_formed:
  assumes "param_get (parse_params s) k = Some v" shows "well_formed v"
proof -
  have "(k, v) \<in> set (parse_params s)" using assms by (auto simp: param_get_def dest: map_of_SomeD)
  then obtain w where "(k, v) = parse_pair w" by (auto simp: parse_params_def Let_def)
  then show ?thesis using form_decode_well_formed by (auto simp: parse_pair_def well_formed_def split: option.splits)
qed

lemma well_formed_append_slash: "well_formed (s @ replicate k 47) \<longleftrightarrow> well_formed s"
proof (induction k)
  case (Suc k)
  have "s @ replicate (Suc k) 47 = (s @ replicate k 47) @ 47 # []" by (simp add: replicate_append_same)
  then show ?case using Suc well_formed_cut [of 47 "s @ replicate k 47" "[]"] by (simp add: well_formed_def)
qed simp

lemma well_formed_strip: "well_formed (strip_end 47 p) \<longleftrightarrow> well_formed p"
  using strip_slashes [of p] well_formed_append_slash by metis

lemma well_formed_tail: "well_formed (u @ 47 # v) \<Longrightarrow> well_formed v"
  by (simp add: well_formed_cut)

subsection \<open>Addresses of paths\<close>

lemma encode_slashes:
  "encodePath (p @ replicate k 47) = map_option (\<lambda>e. e @ replicate k 47) (encodePath p)"
proof (induction k)
  case (Suc k)
  have split: "split_on 47 (q @ [47]) = split_on 47 q @ [[]]" for q :: jstr
    by (induction q) (auto split: list.splits)
  have snoc: "encodePath (q @ [47]) = map_option (\<lambda>e. e @ [47]) (encodePath q)" for q
  proof -
    have "seq_option (map encodeURIComponent (split_on 47 q) @ [Some []])
        = map_option (\<lambda>es. es @ [[]]) (seq_option (map encodeURIComponent (split_on 47 q)))"
      by (simp add: seq_option_def)
    moreover have "join [47] (es @ [[]]) = join [47] es @ [47]" if "es \<noteq> []" for es :: "jstr list"
      using join_snoc [OF that, of "[47]" "[]"] by simp
    moreover have "es \<noteq> []" if "seq_option (map encodeURIComponent (split_on 47 q)) = Some es" for es
      using that by (auto simp: seq_option_def split: if_splits)
    ultimately show ?thesis
      by (cases "seq_option (map encodeURIComponent (split_on 47 q))")
        (simp_all add: encodePath_def split encodeURIComponent_def)
  qed
  have "p @ replicate (Suc k) 47 = (p @ replicate k 47) @ [47]" by (simp add: replicate_append_same)
  then show ?case using Suc snoc [of "p @ replicate k 47"]
    by (cases "encodePath p") (simp_all add: replicate_append_same)
qed (simp add: option.map_ident)

lemma strip_replicate: "strip_end 47 (e @ replicate k 47) = strip_end 47 e"
  by (simp add: strip_end_def, induction k) simp_all

lemma encodePath_strip:
  assumes "well_formed p"
  obtains e k where "encodePath p = Some (e @ replicate k 47)" "strip_end 47 e = e" "decodePath e = strip_end 47 p"
    "e = [] \<longleftrightarrow> strip_end 47 p = []" "63 \<notin> set e" "p = strip_end 47 p @ replicate k 47"
proof -
  obtain k where k: "p = strip_end 47 p @ replicate k 47" by (rule strip_slashes)
  have w: "well_formed (strip_end 47 p)" using assms by (simp add: well_formed_strip)
  obtain e where e: "encodePath (strip_end 47 p) = Some e" "decodePath e = strip_end 47 p" "63 \<notin> set e"
    "e = [] \<longleftrightarrow> strip_end 47 p = []" "strip_end 47 p = [] \<or> last (strip_end 47 p) \<noteq> 47 \<Longrightarrow> strip_end 47 e = e"
    using encodePath_ok [OF w] by metis
  have "encodePath p = Some (e @ replicate k 47)" using encode_slashes [of "strip_end 47 p" k] k e(1) by simp
  then show ?thesis using that e strip_end_last [of 47 p] k by blast
qed

lemma parse_any:
  assumes "project_id pid"
  shows "parsePath (47 # pid @ 47 # raw) True = takeView (withPath (new_route\<lparr>Route.project := Some pid\<rparr>) raw)"
proof -
  have "first_index 47 (pid @ 47 # raw) = Some (length pid)"
    using assms by (simp add: first_index_append project_id_def)
  then show ?thesis
    using not_reserved_head [OF assms, of raw] by (simp add: parsePath_def project_first [OF assms] Let_def)
qed

lemma parse_split:
  assumes "63 \<notin> set x" "q = [] \<or> hd q = 63"
  shows "\<exists>qs. parseRoute (x @ q) True = route_query qs (parsePath x True)"
proof (cases q)
  case Nil
  then show ?thesis using parseRoute_plain [OF assms(1)] by auto
next
  case (Cons u t)
  then show ?thesis using assms first_index_append [OF assms(1), of t] by (auto simp: parseRoute_def)
qed

lemma route_query_keeps:
  assumes "view ro \<noteq> Some VHistory"
  shows "Route.project (route_query qs ro) = Route.project ro" "Route.rpath (route_query qs ro) = Route.rpath ro"
    "view (route_query qs ro) = view ro" "is_legacyView (route_query qs ro) = is_legacyView ro"
    "queryTarget (route_query qs ro) = queryTarget ro" "trailingSlash (route_query qs ro) = trailingSlash ro"
    "Route.editing (route_query qs ro) = Route.editing ro"
  using assms by (simp_all add: route_query_def Let_def)

lemma reserved_Nil: "\<not> reserved (first_segment [])"
  by (simp add: reserved_def first_segment_def segmentView_def legacyView_def SEGMENT_VIEWS_def LEGACY_VIEWS_def js_def)

lemma first_segment_strip: "first_segment (strip_end 47 p) = first_segment p"
proof -
  obtain k where k: "p = strip_end 47 p @ replicate k 47" by (rule strip_slashes)
  let ?s = "strip_end 47 p"
  have "first_segment (?s @ replicate k 47) = first_segment ?s"
  proof (cases "47 \<in> set ?s")
    case True
    then obtain a b where s: "?s = a @ 47 # b" "47 \<notin> set a" by (metis split_list_first)
    then show ?thesis by (simp add: first_segment_def first_index_append)
  next
    case False
    then show ?thesis by (cases k) (simp_all add: first_segment_def first_index_append first_index_None [THEN iffD2])
  qed
  with k show ?thesis by simp
qed

text \<open>The route of an address built for a path: the path without the slashes at its end, with nothing left to
  rewrite unless there were some.\<close>

definition path_route :: "jstr \<Rightarrow> jstr \<Rightarrow> Route \<Rightarrow> bool" where
  "path_route pid p ro \<longleftrightarrow> Route.project ro = Some pid \<and> view ro = None \<and> \<not> queryTarget ro
     \<and> Route.rpath ro = strip_end 47 p \<and> (trailingSlash ro \<longrightarrow> p \<noteq> strip_end 47 p)
     \<and> (Route.editing ro \<or> \<not> reserved (first_segment (Route.rpath ro)))"

lemma path_parse:
  assumes pid: "project_id pid" and e: "strip_end 47 e = e" "decodePath e = strip_end 47 p" "e = [] \<longleftrightarrow> strip_end 47 p = []"
    and k: "p = strip_end 47 p @ replicate k 47" and ok: "edit \<or> \<not> reserved (first_segment p)"
    and tail: "tail = (if e @ replicate k 47 \<noteq> [] \<and> edit then js ''edit/'' @ e @ replicate k 47 else e @ replicate k 47)"
  shows "path_route pid p (parsePath (47 # pid @ (if tail \<noteq> [] then 47 # tail else [])) True)"
proof -
  consider (none) "tail = []" | (plain) "tail \<noteq> []" "\<not> edit" | (edit) "tail \<noteq> []" "edit" "e \<noteq> []" | (bare) "tail \<noteq> []" "edit" "e = []" by blast
  then show ?thesis
  proof cases
    case none
    then have "e = []" "k = 0" using tail by (auto simp: js_def split: if_splits)
    then have p: "strip_end 47 p = []" "p = []" using e(3) k by simp_all
    show ?thesis using none reserved_Nil by (simp add: parse_bare [OF pid] path_route_def new_route_def p strip_end_def)
  next
    case plain
    let ?ro = "withPath (new_route\<lparr>Route.project := Some pid\<rparr>) tail"
    have t: "tail = e @ replicate k 47" using tail plain by simp
    have w: "Route.rpath ?ro = strip_end 47 p" "trailingSlash ?ro = (k \<noteq> 0)" "Route.project ?ro = Some pid" "view ?ro = None" "\<not> queryTarget ?ro"
      using e by (auto simp: withPath_def Let_def t strip_replicate new_route_def)
    have "\<not> reserved (first_segment (Route.rpath ?ro))" using ok plain w(1) first_segment_strip [of p] by simp
    then show ?thesis using plain w k parse_any [OF pid, of tail] by (auto simp: path_route_def takeView_plain)
  next
    case edit
    let ?ro = "withPath (new_route\<lparr>Route.project := Some pid\<rparr>) tail"
    have t: "tail = (js ''edit/'' @ e) @ replicate k 47" using tail edit by (auto split: if_splits)
    have st: "strip_end 47 tail = js ''edit/'' @ e" unfolding t strip_replicate by (rule strip_edit [OF e(1) edit(3)])
    have ne: "js ''edit/'' @ e \<noteq> []" and tr: "(js ''edit/'' @ e \<noteq> tail) = (k \<noteq> 0)" by (simp add: edit(3)) (simp add: t)
    have w: "Route.rpath ?ro = js ''edit/'' @ strip_end 47 p" "trailingSlash ?ro = (k \<noteq> 0)" "Route.project ?ro = Some pid" "view ?ro = None" "\<not> queryTarget ?ro"
      using ne tr by (simp_all add: withPath_def Let_def st decode_edit e(2) new_route_def)
    have "takeView ?ro = ?ro\<lparr>Route.editing := True, Route.rpath := strip_end 47 p\<rparr>"
      using w(1) strip_end_last [of 47 p] by (rule takeView_edit)
    then show ?thesis using edit w k parse_any [OF pid, of tail] by (auto simp: path_route_def)
  next
    case bare
    let ?ro = "withPath (new_route\<lparr>Route.project := Some pid\<rparr>) tail"
    have t: "tail = (js ''edit/'') @ replicate k 47" "k \<noteq> 0" using tail bare by (auto simp: js_def split: if_splits)
    have "strip_end 47 tail = js ''edit''" unfolding t(1) strip_replicate by code_simp
    moreover have "decodePath (js ''edit'') = js ''edit''" by code_simp
    ultimately have w: "Route.rpath ?ro = js ''edit''" "Route.project ?ro = Some pid" "view ?ro = None" "\<not> queryTarget ?ro"
      by (simp_all add: withPath_def Let_def new_route_def js_def)
    have "first_segment (js ''edit'') = js ''edit''" "hd (split_on 47 (js ''edit'')) = js ''edit''" "strip_end 47 (drop 5 (js ''edit'')) = []"
      by code_simp+
    then have "takeView ?ro = ?ro\<lparr>Route.editing := True, Route.rpath := []\<rparr>"
      by (simp add: takeView_def takeEdit_def Let_def w(1))
    moreover have "p \<noteq> strip_end 47 p" "strip_end 47 p = []" using k t(2) e(3) bare(3) by auto
    ultimately show ?thesis using bare w parse_any [OF pid, of tail] by (simp add: path_route_def)
  qed
qed

lemma path_route_query: "path_route pid p ro \<Longrightarrow> path_route pid p (route_query qs ro)"
  using route_query_keeps [of ro qs] by (auto simp: path_route_def)

text \<open>The URL of a path, as a path of encoded segments and a query.\<close>

lemma path_url_shape:
  assumes pid: "plain_id pid" and p: "well_formed p" and ok: "edit \<or> \<not> reserved (first_segment p)"
  obtains e q where "urlForPath p (Some pid) ver fl edit = Some (47 # e @ q)" "q = [] \<or> hd q = 63"
    "segs_all enc_seg e" "e \<noteq> []" "hd e \<noteq> 47" "path_route pid p (parsePath (47 # e) True)"
    "dot_free p \<Longrightarrow> segs_all ok_seg e"
proof -
  have pp: "project_id pid" using pid by (simp add: plain_id_def)
  have ps: "enc_seg pid" "ok_seg pid" using pid plain_seg [of pid] by (simp_all add: plain_id_def)
  have es: "enc_seg (js ''edit'')" "ok_seg (js ''edit'')" using plain_seg [of "js ''edit''"] by (simp_all add: js_def)
  obtain e k where e: "encodePath p = Some (e @ replicate k 47)" "strip_end 47 e = e" "decodePath e = strip_end 47 p"
    "e = [] \<longleftrightarrow> strip_end 47 p = []" "63 \<notin> set e" "p = strip_end 47 p @ replicate k 47"
    using encodePath_strip [OF p] by metis
  let ?tail = "if e @ replicate k 47 \<noteq> [] \<and> edit then js ''edit/'' @ e @ replicate k 47 else e @ replicate k 47"
  let ?e = "pid @ (if ?tail \<noteq> [] then 47 # ?tail else [])"
    and ?q = "(if truthy ver then js ''?v='' @ the ver else []) @ (if fl then (if truthy ver then js ''&'' else js ''?'') @ js ''full=1'' else [])"
  have tail: "segs_all P ?tail" if "segs_all P (e @ replicate k 47)" "P (js ''edit'')" for P
  proof -
    have "js ''edit/'' = js ''edit'' @ [47]" by (simp add: js_def)
    moreover have "segs_all P (js ''edit'')" using that(2) by (simp add: segs_all_def js_def)
    ultimately show ?thesis using that(1) by (simp add: segs_append)
  qed
  have whole: "segs_all P ?e" if "segs_all P (e @ replicate k 47)" "P (js ''edit'')" "P pid" for P
  proof -
    have "segs_all P pid" using that(3) pp by (simp add: segs_all_def split_on_free project_id_def)
    then show ?thesis using tail [OF that(1,2)] by (simp add: segs_append)
  qed
  have u: "urlForPath p (Some pid) ver fl edit = Some (47 # ?e @ ?q)"
    using e(1) pp unfolding urlForPath_def by (simp add: Let_def truthy_def project_id_def)
  have q: "?q = [] \<or> hd ?q = 63" by (auto simp: js_def)
  have enc: "segs_all enc_seg ?e" by (rule whole [OF encodePath_segs(1) [OF p e(1)] es(1) ps(1)])
  have ne: "?e \<noteq> []" "hd ?e \<noteq> 47" using pp by (cases pid; auto simp: project_id_def)+
  have r: "path_route pid p (parsePath (47 # ?e) True)"
    using path_parse [OF pp e(2,3,4,6) ok refl] by simp
  have df: "segs_all ok_seg ?e" if "dot_free p"
    using that whole [OF encodePath_segs(2) [OF p e(1)] es(2) ps(2)] by (simp add: dot_free_def)
  show ?thesis by (rule that [OF u q enc ne r df])
qed

subsection \<open>Addresses of views\<close>

definition san :: "jstr \<Rightarrow> jstr" where
  "san s = concat (map utf16 (usv s))"

lemma usv_scalar: "list_all scalar (usv s)"
  by (auto simp: usv_def list_all_iff scalar_def)

lemma usv_id: "list_all scalar ks \<Longrightarrow> map (\<lambda>c. if scalar c then c else 65533) ks = ks"
  by (induction ks) auto

lemma san_ok: "well_formed (san s)" "form_encode (san s) = form_encode s" "san s = [] \<longleftrightarrow> s = []"
proof -
  show "well_formed (san s)" unfolding san_def by (rule well_formed_scalars [OF usv_scalar])
  have "usv (san s) = usv s"
    unfolding san_def usv_def [of "concat (map utf16 (usv s))"] code_points_utf16 [OF usv_scalar] by (rule usv_id [OF usv_scalar])
  then show "form_encode (san s) = form_encode s" by (simp add: form_encode_def utf8_string_def)
  have "usv s = [] \<longleftrightarrow> s = []" unfolding usv_def by (cases s rule: code_points.cases) auto
  moreover have "concat (map utf16 ks) = [] \<longleftrightarrow> ks = []" for ks by (cases ks) (auto simp: utf16_def)
  ultimately show "san s = [] \<longleftrightarrow> s = []" unfolding san_def by simp
qed

definition san_filters :: "HistoryFilters \<Rightarrow> HistoryFilters" where
  "san_filters f = (let n = map_option san in
     \<lparr>f_q = n (f_q f), f_user = n (f_user f), f_actor = n (f_actor f), f_device = n (f_device f), f_range = n (f_range f),
      f_since = n (f_since f), f_until = n (f_until f)\<rparr>)"

lemma truthy_san: "truthy (map_option san v) = truthy v"
  by (cases v) (auto simp: truthy_def san_ok)

lemma san_filters_ok: "filters_ok (san_filters f)"
  by (auto simp: filters_ok_def san_filters_def Let_def filter_values_def truthy_san san_ok(1)
      dest: truthy_san [THEN iffD1] split: option.splits) (auto simp: truthy_def san_ok(1) split: option.splits)

lemma san_pairs: "map (\<lambda>(k, v). form_encode k @ 61 # form_encode v) (filter_pairs (san_filters f))
    = map (\<lambda>(k, v). form_encode k @ 61 # form_encode v) (filter_pairs f)"
proof -
  have v: "form_encode (the (map_option san v)) = form_encode (the v)" if "truthy v" for v
    using that by (cases v) (simp_all add: truthy_def san_ok(2))
  show ?thesis
    by (simp add: filter_pairs_def san_filters_def Let_def filter_values_def HISTORY_FILTER_KEYS_def truthy_san v)
qed

lemma san_query: "historyFilterQuery (map_option san_filters fs) = historyFilterQuery fs"
  by (cases fs) (simp_all add: historyFilterQuery_def params_string_def san_pairs)

definition view_route :: "jstr \<Rightarrow> ViewName \<Rightarrow> Route \<Rightarrow> bool" where
  "view_route pid v ro \<longleftrightarrow> Route.project ro = Some pid \<and> view ro = Some v \<and> \<not> is_legacyView ro \<and> \<not> queryTarget ro \<and> Route.rpath ro = []"

lemma view_hop:
  assumes pid: "project_id pid" and t: "\<forall>p. target = Some p \<longrightarrow> well_formed p"
  obtains u where "urlForView v (Some pid) target fs = Some u" "view_route pid v (parseRoute u True)"
proof -
  let ?fs = "map_option san_filters fs"
  have fs: "urlForView v (Some pid) tg fs = urlForView v (Some pid) tg ?fs" for tg
    by (simp add: urlForView_def san_query)
  have ok: "\<forall>f. ?fs = Some f \<longrightarrow> filters_ok f" using san_filters_ok by auto
  have "\<exists>u. urlForView v (Some pid) target ?fs = Some u \<and> view_route pid v (parseRoute u True)"
  proof (cases "strip_end 47 (str_or target []) = [] \<and> truthy target")
    case False
    define tg where "tg = (if truthy target then Some (strip_end 47 (the target)) else None)"
    have same: "urlForView v (Some pid) target ?fs = urlForView v (Some pid) tg ?fs"
      using False by (auto simp: tg_def urlForView_def truthy_def str_or_def)
    have "\<forall>p. tg = Some p \<longrightarrow> tree_path p"
      using t strip_end_last [of 47 "the target"] by (auto simp: tg_def tree_path_def truthy_def well_formed_strip)
    from view_url_parse [OF pid this ok, of v] show ?thesis
      unfolding same by (auto simp: view_route_def new_route_def)
  next
    case True
    let ?x = "47 # pid @ 47 # (VIEW_SEGMENTS v @ [47])"
    have url: "urlForView v (Some pid) target ?fs = Some (?x @ query_of (view_filters v ?fs))"
    proof -
      have "encodePath [] = Some []" by code_simp
      moreover have "strip_end 47 (the target) = []" using True by (cases target) (auto simp: truthy_def str_or_def)
      ultimately show ?thesis using True pid unfolding urlForView_def view_query
        by (simp add: Let_def truthy_def project_id_def)
    qed
    have x: "63 \<notin> set ?x" using pid view_segment(6) [of v] by (auto simp: project_id_def)
    have q: "query_of ps = [] \<or> hd (query_of ps) = 63" for ps by (simp add: query_of_def)
    let ?ro = "withPath (new_route\<lparr>Route.project := Some pid\<rparr>) (VIEW_SEGMENTS v @ [47])"
    have "strip_end 47 (VIEW_SEGMENTS v @ [47]) = VIEW_SEGMENTS v"
      using strip_replicate [of "VIEW_SEGMENTS v" 1] view_segment(5,7) [of v]
      by (simp add: strip_end_id) (metis last_in_set strip_end_id)
    moreover have "decodePath (VIEW_SEGMENTS v) = VIEW_SEGMENTS v"
      using view_segment(4,5) [of v] by (simp add: decodePath_def split_on_free)
    ultimately have w: "Route.rpath ?ro = VIEW_SEGMENTS v" "Route.project ?ro = Some pid" "\<not> queryTarget ?ro"
      using view_segment(7) [of v] by (simp_all add: withPath_def Let_def new_route_def)
    have "takeView ?ro = ?ro\<lparr>view := Some v, is_legacyView := False, viewTarget := Some [], Route.rpath := []\<rparr>"
      by (rule takeView_view) (simp_all add: w)
    then have r0: "view_route pid v (parsePath ?x True)"
      using w parse_any [OF pid, of "VIEW_SEGMENTS v @ [47]"] by (simp add: view_route_def)
    have "parseRoute (?x @ query_of (view_filters v ?fs)) True = route_query (view_filters v ?fs) (parsePath ?x True)"
    proof (rule parseRoute_of [OF x])
      show "\<forall>(k, w) \<in> set (view_filters v ?fs). well_formed k \<and> well_formed w"
      proof (cases "v = VHistory \<and> fs \<noteq> None")
        case True
        then obtain f where "fs = Some f" by blast
        then have "view_filters v ?fs = filter_pairs (san_filters f)" using True by (simp add: view_filters_def)
        then show ?thesis by (metis filter_pairs_ok san_filters_ok)
      next
        case False
        then have "view_filters v ?fs = []" by (cases fs) (simp_all add: view_filters_def)
        then show ?thesis by simp
      qed
    qed
    then have "view_route pid v (parseRoute (?x @ query_of (view_filters v ?fs)) True)"
      using r0 by (simp add: route_query_view view_route_def)
    with url show ?thesis by blast
  qed
  then obtain u where "urlForView v (Some pid) target fs = Some u" "view_route pid v (parseRoute u True)"
    unfolding fs [of target] by blast
  then show ?thesis by (rule that)
qed

lemma view_url_shape:
  assumes pid: "plain_id pid" and t: "\<forall>p. target = Some p \<longrightarrow> well_formed p"
  obtains e where "urlForView v (Some pid) target fs = Some (47 # e @ query_of (view_filters v (map_option san_filters fs)))"
    "segs_all enc_seg e" "e \<noteq> []" "hd e \<noteq> 47" "\<forall>p. target = Some p \<longrightarrow> dot_free p \<Longrightarrow> segs_all ok_seg e"
proof -
  have pp: "project_id pid" using pid by (simp add: plain_id_def)
  have ps: "enc_seg pid" "ok_seg pid" using pid plain_seg [of pid] by (simp_all add: plain_id_def)
  have vs: "enc_seg (VIEW_SEGMENTS v)" "ok_seg (VIEW_SEGMENTS v)"
    using plain_seg [of "VIEW_SEGMENTS v"] by (cases v; simp add: VIEW_SEGMENTS_def js_def)+
  let ?q = "query_of (view_filters v (map_option san_filters fs))"
  have qq: "(if v = VHistory then historyFilterQuery fs else []) = ?q" using view_query [of v "map_option san_filters fs"] by (simp only: san_query)
  obtain tl where tl: "(if truthy target then map_option (\<lambda>e. 47 # e) (encodePath (strip_end 47 (the target))) else Some []) = Some tl"
    and te: "tl = [] \<or> (\<exists>x. tl = 47 # x \<and> segs_all enc_seg x \<and> ((\<forall>p. target = Some p \<longrightarrow> dot_free p) \<longrightarrow> segs_all ok_seg x))"
  proof (cases "truthy target")
    case True
    then obtain p where p: "target = Some p" by (cases target) (auto simp: truthy_def)
    then have w: "well_formed (strip_end 47 p)" using t by (simp add: well_formed_strip)
    then obtain x where x: "encodePath (strip_end 47 p) = Some x" using encodePath_ok by metis
    have "segs_all ok_seg x" if "dot_free p"
      using that encodePath_segs(2) [OF w x] segs_strip_end by (simp add: dot_free_def)
    then show thesis using that [of "47 # x"] True p x encodePath_segs(1) [OF w x] by simp
  qed (use that [of "[]"] in simp)
  let ?e = "pid @ 47 # VIEW_SEGMENTS v @ tl"
  have u: "urlForView v (Some pid) target fs = Some (47 # ?e @ ?q)"
    using pp tl unfolding urlForView_def qq by (simp add: Let_def truthy_def project_id_def)
  have whole: "segs_all P ?e" if "tl = [] \<or> (\<exists>x. tl = 47 # x \<and> segs_all P x)" "P pid" "P (VIEW_SEGMENTS v)" for P
  proof -
    have "segs_all P pid" "segs_all P (VIEW_SEGMENTS v)"
      using that(2,3) pp view_segment(5) [of v] by (simp_all add: segs_all_def split_on_free project_id_def)
    then show ?thesis using that(1) by (auto simp: segs_append)
  qed
  show ?thesis
  proof (rule that [OF u])
    show "segs_all enc_seg ?e" by (rule whole) (use te ps vs in auto)
    show "?e \<noteq> []" by simp
    show "hd ?e \<noteq> 47" using pp by (cases pid) (auto simp: project_id_def)
    show "segs_all ok_seg ?e" if "\<forall>p. target = Some p \<longrightarrow> dot_free p" by (rule whole) (use te ps vs that in auto)
  qed
qed

subsection \<open>The rewriting of addresses ends\<close>

lemma current_listed:
  assumes "pid \<in> pr_id ` set ps"
  obtains p where "current_project ps (Some pid) joined lastp = Some p" "pr_id p = pid"
proof -
  obtain q where "find (\<lambda>p. Some (pr_id p) = Some pid) ps = Some q"
    using assms by (cases "find (\<lambda>p. Some (pr_id p) = Some pid) ps") (auto simp: find_None_iff)
  with that find_SomeD [OF this] show ?thesis by (auto simp: current_project_def)
qed

lemma listed_step:
  assumes "Route.project ro = Some pid" "pid \<in> pr_id ` set ps" "pid \<noteq> []"
  shows "hub_route lower env ps ro =
    (if is_legacyView ro \<and> view ro \<noteq> None \<or> queryTarget ro \<and> view ro \<noteq> None
     then RedirectTo (urlForView (the (view ro)) (Some pid) (viewTarget ro) (Route.filters ro))
     else if trailingSlash ro \<and> Route.rpath ro \<noteq> [] then
       RedirectTo (urlForPath (Route.rpath ro) (Some pid) (Route.version ro) (Route.full ro) (Route.editing ro))
     else Shown (hub_panel env ro pid))"
proof -
  obtain p where "current_project ps (Some pid) (e_joined env) (e_last env) = Some p" "pr_id p = pid"
    using assms(2) by (rule current_listed)
  then show ?thesis using assms by (auto simp: hub_route_def truthy_def)
qed

lemma hub_step_parsed:
  "(\<exists>v. hub_step lower env loc = Shown v) \<or> (\<exists>ps. e_projects env = Some ps \<and>
     hub_step lower env loc = (if e_desktop env \<and> ps = [] then RedirectTo (Some (js ''/setup'')) else hub_route lower env ps (parseRoute loc True)))"
  by (auto simp: hub_step_def split: option.splits)

lemma shown_visit: "f u = Shown v \<Longrightarrow> hub_visit f n u = Shown v"
  by (cases n) simp_all

lemma settled_view:
  assumes "view_route pid v (parseRoute u True)" "project_id pid" "\<And>ps. e_projects env = Some ps \<Longrightarrow> pid \<in> pr_id ` set ps"
  shows "\<exists>w. hub_step lower env u = Shown w"
  using hub_step_parsed [of lower env u]
proof (elim disjE exE conjE)
  fix ps assume ps: "e_projects env = Some ps"
    "hub_step lower env u = (if e_desktop env \<and> ps = [] then RedirectTo (Some (js ''/setup'')) else hub_route lower env ps (parseRoute u True))"
  have "pid \<in> pr_id ` set ps" "pid \<noteq> []" using assms(2,3) ps(1) by (simp_all add: project_id_def)
  then show ?thesis using listed_step [of "parseRoute u True" pid ps lower env] assms(1) ps(2) by (auto simp: view_route_def)
qed blast

lemma settled_path:
  assumes "path_route pid p (parseRoute u True)" "strip_end 47 p = p" "project_id pid" "\<And>ps. e_projects env = Some ps \<Longrightarrow> pid \<in> pr_id ` set ps"
  shows "\<exists>v. hub_step lower env u = Shown v"
  using hub_step_parsed [of lower env u]
proof (elim disjE exE conjE)
  fix ps assume ps: "e_projects env = Some ps"
    "hub_step lower env u = (if e_desktop env \<and> ps = [] then RedirectTo (Some (js ''/setup'')) else hub_route lower env ps (parseRoute u True))"
  have "pid \<in> pr_id ` set ps" "pid \<noteq> []" using assms(3,4) ps(1) by (simp_all add: project_id_def)
  then show ?thesis using listed_step [of "parseRoute u True" pid ps lower env] assms(1,2) ps(2) by (auto simp: path_route_def)
qed blast

text \<open>What holds of every route an address is parsed to.\<close>

definition route_ok :: "Route \<Rightarrow> bool" where
  "route_ok ro \<longleftrightarrow> well_formed (Route.rpath ro) \<and> (\<forall>t. viewTarget ro = Some t \<longrightarrow> well_formed t)
     \<and> (view ro = None \<longrightarrow> Route.editing ro \<or> \<not> reserved (first_segment (Route.rpath ro)))
     \<and> (view ro \<noteq> None \<longrightarrow> Route.rpath ro = [])"

lemma well_formed_after_first:
  assumes "well_formed p" shows "well_formed (after_first p)"
proof (cases "first_index 47 p")
  case None
  then show ?thesis by (simp add: after_first_def well_formed_def)
next
  case (Some i)
  then have "p = take i p @ 47 # drop (Suc i) p" using first_index_split [OF Some] by simp
  then have "well_formed (drop (Suc i) p)" using assms well_formed_tail by metis
  then show ?thesis using Some by (simp add: after_first_def well_formed_strip)
qed

lemma first_segment_hd: "hd (split_on 47 p) = first_segment p"
proof (cases "first_index 47 p")
  case None
  then have "47 \<notin> set p" using first_index_None by metis
  then have "split_on 47 p = [p]" by (rule split_on_free)
  then show ?thesis unfolding first_segment_def None by simp
next
  case (Some i)
  then have "p = take i p @ 47 # drop (Suc i) p" "47 \<notin> set (take i p)" using first_index_split [OF Some] by simp_all
  then have "split_on 47 p = take i p # split_on 47 (drop (Suc i) p)" by (metis split_on_append)
  then show ?thesis using Some by (simp add: first_segment_def)
qed

lemma takeView_ok:
  assumes "well_formed (Route.rpath ro)" "viewTarget ro = None" "view ro = None"
  shows "route_ok (takeView ro)"
proof (cases "first_segment (Route.rpath ro) = js ''edit''")
  case True
  have "well_formed (strip_end 47 (drop 5 (Route.rpath ro)))"
  proof (cases "first_index 47 (Route.rpath ro)")
    case None
    then have "Route.rpath ro = js ''edit''" using True by (simp add: first_segment_def)
    then show ?thesis by (simp add: js_def strip_end_def well_formed_def)
  next
    case (Some i)
    then have i: "take i (Route.rpath ro) = js ''edit''" using True by (simp add: first_segment_def)
    have sp: "Route.rpath ro = take i (Route.rpath ro) @ 47 # drop (Suc i) (Route.rpath ro)" using first_index_split [OF Some] by simp
    then have "Route.rpath ro = js ''edit'' @ 47 # drop (Suc i) (Route.rpath ro)" using i by simp
    then obtain z where z: "Route.rpath ro = js ''edit'' @ 47 # z" by blast
    then have "well_formed z" using assms(1) well_formed_tail by metis
    then show ?thesis using z by (simp add: js_def well_formed_strip)
  qed
  moreover have "hd (split_on 47 (Route.rpath ro)) = first_segment (Route.rpath ro)"
    by (metis first_segment_hd)
  ultimately show ?thesis using True assms by (simp add: takeView_def takeEdit_def Let_def route_ok_def)
next
  case False
  then show ?thesis using assms well_formed_after_first [OF assms(1)] reserved_Nil
    by (auto simp: takeView_def Let_def route_ok_def reserved_def first_segment_def well_formed_def)
qed

lemma well_formed_strip_start: "well_formed s \<Longrightarrow> well_formed (strip_start 47 s)"
proof -
  have "ascii_prefix (dropWhile (\<lambda>u. u = 47) s) s"
    unfolding ascii_prefix_def
    by (intro exI [of _ "takeWhile (\<lambda>u. u = 47) s"]) (auto simp: list_all_iff dest: set_takeWhileD)
  then show "well_formed s \<Longrightarrow> well_formed (strip_start 47 s)"
    unfolding strip_start_def by (rule well_formed_rest)
qed

lemma new_route_ok: "Route.rpath ro = [] \<Longrightarrow> viewTarget ro = None \<Longrightarrow> view ro = None \<Longrightarrow> route_ok ro"
  using reserved_Nil by (simp add: route_ok_def well_formed_def)

lemma parsePath_ok:
  assumes "well_formed x" shows "route_ok (parsePath x True)"
proof -
  let ?raw = "strip_start 47 x"
  have raw: "well_formed ?raw" using assms by (rule well_formed_strip_start)
  show ?thesis
  proof (cases "first_index 47 ?raw")
    case None
    then show ?thesis by (auto simp: parsePath_def Let_def new_route_def intro!: new_route_ok)
  next
    case (Some i)
    let ?ro = "withPath (new_route\<lparr>Route.project := Some (take i ?raw)\<rparr>) (drop (Suc i) ?raw)"
    have "?raw = take i ?raw @ 47 # drop (Suc i) ?raw" using first_index_split [OF Some] by simp
    then have "well_formed (drop (Suc i) ?raw)" using raw well_formed_tail by metis
    then have "well_formed (Route.rpath ?ro)"
      by (auto simp: withPath_def Let_def well_formed_def [of "[]"] intro!: decodePath_well_formed) (simp add: well_formed_strip)
    moreover have "viewTarget ?ro = None" "view ?ro = None" by (simp_all add: withPath_def Let_def new_route_def)
    ultimately have "route_ok (takeView ?ro)" by (rule takeView_ok)
    then show ?thesis using Some by (auto simp: parsePath_def Let_def new_route_def intro!: new_route_ok)
  qed
qed

lemma route_query_ok:
  assumes "route_ok ro" "\<And>k v. param_get qs k = Some v \<Longrightarrow> well_formed v"
  shows "route_ok (route_query qs ro)"
proof -
  have sp: "well_formed v" if "some_param qs k = Some v" for k v
    using that assms(2) by (auto simp: some_param_def split: option.splits if_splits)
  have t: "well_formed (decodePath (strip_end 47 (strip_start 47 (case some_param qs (js ''path'') of Some t \<Rightarrow> t | None \<Rightarrow> str_or (param_get qs (js ''prefix'')) []))))"
    by (intro decodePath_well_formed well_formed_strip [THEN iffD2] well_formed_strip_start)
      (auto simp: str_or_def well_formed_def [of "[]"] dest: sp assms(2) split: option.splits)
  show ?thesis using assms(1) t by (auto simp: route_query_def Let_def route_ok_def)
qed

lemma parseRoute_ok:
  assumes "well_formed url" shows "route_ok (parseRoute url True)"
proof (cases "first_index 63 url")
  case None
  then show ?thesis using parsePath_ok [OF assms] by (auto simp: parseRoute_def param_get_def intro!: route_query_ok)
next
  case (Some i)
  have sp: "url = take i url @ 63 # drop (Suc i) url" using first_index_split [OF Some] by simp
  have "well_formed (take i url @ 63 # drop (Suc i) url) \<longleftrightarrow> well_formed (take i url) \<and> well_formed (drop (Suc i) url)"
    by (rule well_formed_cut) simp
  then have "well_formed (take i url)" using assms sp by argo
  from parsePath_ok [OF this] show ?thesis
    using Some by (auto simp: parseRoute_def intro!: route_query_ok dest: param_well_formed)
qed

lemma current_member:
  assumes "current_project ps pid joined lastp = Some p" shows "p \<in> set ps"
  using assms by (auto simp: current_project_def split: option.splits list.splits if_splits dest!: find_SomeD)

lemma sole_hit: "length (filter P xs) = 1 \<Longrightarrow> hd (filter P xs) \<in> set xs"
  by (metis filter_is_subset hd_in_set list.size(3) subsetD zero_neq_one)

lemma named_member:
  assumes "projectByName lower (map (\<lambda>p. (pr_id p, pr_name p)) ps) seg = Some pid"
  obtains p where "p \<in> set ps" "pr_id p = pid"
proof -
  define pairs where "pairs = map (\<lambda>p. (pr_id p, pr_name p)) ps"
  define hit where "hit = filter (\<lambda>p. lower (snd p) = lower (decodePath seg)) pairs"
  have h: "length hit = 1" "fst (hd hit) = pid"
    using assms by (simp_all add: projectByName_def Let_def hit_def pairs_def split: if_splits)
  then have "hd hit \<in> set pairs" unfolding hit_def by (intro sole_hit)
  then obtain p where "p \<in> set ps" "hd hit = (pr_id p, pr_name p)" by (auto simp: pairs_def)
  with h(2) that show ?thesis by simp
qed

lemma hub_route_cases:
  obtains (rest) v where "hub_route lower env ps ro = Shown v"
  | (landing) p where "p \<in> set ps" "hub_route lower env ps ro = RedirectTo (Some (47 # pr_id p))"
  | (to_view) p v where "p \<in> set ps" "hub_route lower env ps ro = RedirectTo (urlForView v (Some (pr_id p)) (viewTarget ro) (Route.filters ro))"
  | (to_path) p where "p \<in> set ps" "view ro = None \<or> Route.rpath ro \<noteq> []"
      "hub_route lower env ps ro = RedirectTo (urlForPath (Route.rpath ro) (Some (pr_id p)) (Route.version ro) (Route.full ro) (Route.editing ro))"
proof (cases "current_project ps (Route.project ro) (e_joined env) (e_last env)")
  case None
  then show ?thesis using rest by (simp add: hub_route_def)
next
  case (Some cp)
  note m = current_member [OF Some]
  show ?thesis
  proof (cases "truthy (Route.project ro) \<and> the (Route.project ro) \<notin> pr_id ` set ps")
    case True
    show ?thesis
    proof (cases "projectByName lower (map (\<lambda>p. (pr_id p, pr_name p)) ps) (the (Route.project ro))")
      case None
      then show ?thesis using rest Some True by (simp add: hub_route_def Let_def)
    next
      case named: (Some pid)
      obtain p where p: "p \<in> set ps" "pr_id p = pid" using named by (rule named_member)
      show ?thesis
      proof (cases "view ro")
        case None
        then show ?thesis using to_path [OF p(1)] p(2) named Some True by (simp add: hub_route_def Let_def)
      next
        case (Some v)
        then show ?thesis using to_view [OF p(1), of v] p(2) named \<open>current_project _ _ _ _ = Some cp\<close> True
          by (simp add: hub_route_def Let_def)
      qed
    qed
  next
    case False
    note simps = hub_route_def Let_def
    show ?thesis
    proof (cases "\<not> truthy (org ro) \<and> \<not> billing ro \<and> \<not> connections ro \<and> Route.project ro \<noteq> Some (pr_id cp)")
      case True
      then show ?thesis using Some False by (intro landing [OF m]) (auto simp: simps)
    next
      case here: False
      show ?thesis
      proof (cases "view ro \<noteq> None \<and> (is_legacyView ro \<or> queryTarget ro)")
        case True
        then show ?thesis using Some False here by (intro to_view [OF m, of "the (view ro)"]) (auto simp: simps)
      next
        case canonical: False
        show ?thesis
        proof (cases "trailingSlash ro \<and> Route.rpath ro \<noteq> []")
          case True
          then show ?thesis using Some False here canonical by (intro to_path [OF m]) (auto simp: simps)
        next
          case plain: False
          show ?thesis
            by (rule rest [of "hub_panel env ro (pr_id cp)"]) (use Some False here canonical plain in \<open>auto simp: simps\<close>)
        qed
      qed
    qed
  qed
qed

lemma setup_shown: "e_desktop env \<Longrightarrow> hub_step lower env (js ''/setup'') = Shown (SetupPage (js ''welcome''))"
proof -
  have "joinToken (js ''/setup'') = None" "setupStep True (js ''/setup'') = Some (js ''welcome'')" by code_simp+
  then show "e_desktop env \<Longrightarrow> hub_step lower env (js ''/setup'') = Shown (SetupPage (js ''welcome''))" by (simp add: hub_step_def)
qed

definition listed :: "HubEnv \<Rightarrow> jstr \<Rightarrow> bool" where
  "listed env pid \<longleftrightarrow> plain_id pid \<and> (\<forall>ps. e_projects env = Some ps \<longrightarrow> pid \<in> pr_id ` set ps)"

definition arrives :: "(jstr \<Rightarrow> HubStep) \<Rightarrow> nat \<Rightarrow> jstr \<Rightarrow> bool" where
  "arrives f n loc \<longleftrightarrow> (\<exists>v. hub_visit f n loc = Shown v)"

lemma arrives_shown: "f loc = Shown v \<Longrightarrow> arrives f n loc"
  using shown_visit by (auto simp: arrives_def)

lemma arrives_step: "f loc = RedirectTo (Some u) \<Longrightarrow> browser_url u = Some l \<Longrightarrow> arrives f n l \<Longrightarrow> arrives f (Suc n) loc"
  by (simp add: arrives_def)

lemma arrives_iff:
  "arrives f (Suc n) loc \<longleftrightarrow> (\<exists>v. f loc = Shown v)
     \<or> (\<exists>u l. f loc = RedirectTo (Some u) \<and> browser_url u = Some l \<and> arrives f n l)"
  by (auto simp: arrives_def split: HubStep.splits option.splits)

lemma arrives_Suc: "arrives f n loc \<Longrightarrow> arrives f (Suc n) loc"
proof (induction n arbitrary: loc)
  case 0
  then show ?case by (auto simp: arrives_def)
next
  case (Suc n)
  then show ?case unfolding arrives_iff [of f n] arrives_iff [of f "Suc n"] by blast
qed

text \<open>Where a step leads, for the hub's project ids.\<close>

definition plain_ids :: "HubEnv \<Rightarrow> bool" where
  "plain_ids env \<longleftrightarrow> (case e_projects env of None \<Rightarrow> True | Some ps \<Rightarrow> list_all (\<lambda>p. plain_id (pr_id p)) ps)"

lemma hub_step_cases:
  assumes ids: "plain_ids env" and loc: "well_formed loc"
  obtains (rest) v where "hub_step lower env loc = Shown v"
  | (onboard) "e_desktop env" "hub_step lower env loc = RedirectTo (Some (js ''/setup''))"
  | (to_path) pid p ver fl edit where "listed env pid" "hub_step lower env loc = RedirectTo (urlForPath p (Some pid) ver fl edit)"
      "well_formed p" "edit \<or> \<not> reserved (first_segment p)" "p = [] \<or> p = Route.rpath (parseRoute loc True)"
  | (to_view) pid v fs where "listed env pid" "hub_step lower env loc = RedirectTo (urlForView v (Some pid) (viewTarget (parseRoute loc True)) fs)"
      "\<forall>t. viewTarget (parseRoute loc True) = Some t \<longrightarrow> well_formed t"
  using hub_step_parsed [of lower env loc]
proof (elim disjE exE conjE)
  fix v assume "hub_step lower env loc = Shown v"
  then show ?thesis by (rule rest)
next
  let ?ro = "parseRoute loc True"
  fix ps assume ps: "e_projects env = Some ps"
    "hub_step lower env loc = (if e_desktop env \<and> ps = [] then RedirectTo (Some (js ''/setup'')) else hub_route lower env ps ?ro)"
  have l: "listed env (pr_id p)" if "p \<in> set ps" for p using ids ps(1) that by (auto simp: plain_ids_def listed_def list_all_iff)
  have ok: "route_ok ?ro" by (rule parseRoute_ok [OF loc])
  show ?thesis
  proof (cases "e_desktop env \<and> ps = []")
    case True
    then show ?thesis using ps(2) by (intro onboard) simp_all
  next
    case False
    then have st: "hub_step lower env loc = hub_route lower env ps ?ro" using ps(2) by auto
    from hub_route_cases [of lower env ps ?ro] show ?thesis
    proof cases
      case (rest v)
      then show ?thesis using st by (intro that(1) [of v]) simp
    next
      case (landing p)
      have "urlForPath [] (Some (pr_id p)) None False False = Some (47 # pr_id p)"
        using l [OF landing(1)] by (simp add: listed_def plain_id_def urlForPath_def truthy_def project_id_def encodePath_def seq_option_def encodeURIComponent_def)
      then show ?thesis using st landing reserved_Nil
        by (intro that(3) [OF l [OF landing(1)], of "[]" None False False]) (simp_all add: well_formed_def)
    next
      case (to_view p v)
      then show ?thesis using st ok by (intro that(4) [OF l [OF to_view(1)]]) (simp_all add: route_ok_def)
    next
      case (to_path p)
      then have "view ?ro = None" using ok by (auto simp: route_ok_def)
      then show ?thesis using st ok to_path by (intro that(3) [OF l [OF to_path(1)]]) (auto simp: route_ok_def)
    qed
  qed
qed

text \<open>Addresses as the browser leaves them after a redirect: no dot segment and no encoded slash in the path;
  and those a view's address gives, whose query names filters only.\<close>

definition clean :: "jstr \<Rightarrow> bool" where
  "clean u \<longleftrightarrow> (\<exists>y q. u = 47 # y @ q \<and> segs_all ok_seg y \<and> list_all addr_char y
     \<and> (q = [] \<or> hd q = 63) \<and> list_all (\<lambda>u. u < 128) q)"

definition clean_view :: "jstr \<Rightarrow> bool" where
  "clean_view u \<longleftrightarrow> (\<exists>y v fs. u = 47 # y @ query_of (view_filters v (map_option san_filters fs)) \<and> segs_all ok_seg y \<and> list_all addr_char y)"

lemma addr_path:
  assumes "list_all addr_char y" shows "63 \<notin> set (47 # y)" "list_all (\<lambda>u. u < 128) (47 # y)"
proof -
  have "addr_char 47" by (simp add: addr_char_def)
  then have "list_all addr_char (47 # y)" using assms by simp
  then show "63 \<notin> set (47 # y)" "list_all (\<lambda>u. u < 128) (47 # y)" using addr_char_kept by (fastforce simp: list_all_iff)+
qed

lemma ok_path: "segs_all ok_seg y \<Longrightarrow> segs_all ok_seg (47 # y)"
  by (simp add: segs_slash ok_seg_def dots_def decodeSegment_def js_def)

lemma clean_parse:
  assumes "clean u" shows "well_formed u" "dot_free (Route.rpath (parseRoute u True))"
proof -
  obtain y q where u: "u = 47 # y @ q" "segs_all ok_seg y" "list_all addr_char y" "q = [] \<or> hd q = 63" "list_all (\<lambda>u. u < 128) q"
    using assms by (auto simp: clean_def)
  have "list_all (\<lambda>u. u < 128) ((47 # y) @ q)" using addr_path(2) [OF u(3)] u(5) by (simp only: list_all_append)
  then show "well_formed u" using u(1) by (intro ascii_well_formed) simp
  obtain qs where "parseRoute ((47 # y) @ q) True = route_query qs (parsePath (47 # y) True)"
    using parse_split [OF addr_path(1) [OF u(3)] u(4)] by blast
  moreover have "Route.rpath (route_query qs ro) = Route.rpath ro" for ro by (simp add: route_query_def Let_def)
  ultimately show "dot_free (Route.rpath (parseRoute u True))"
    using parsePath_dot_free [OF ok_path [OF u(2)]] u(1) by simp
qed

lemma view_filters_clean:
  "\<forall>(k, w) \<in> set (view_filters v (map_option san_filters fs)). well_formed k \<and> well_formed w"
proof (cases "v = VHistory \<and> fs \<noteq> None")
  case True
  then obtain f where "view_filters v (map_option san_filters fs) = filter_pairs (san_filters f)" by (auto simp: view_filters_def)
  then show ?thesis by (metis filter_pairs_ok san_filters_ok)
next
  case False
  then have "view_filters v (map_option san_filters fs) = []" by (cases fs) (auto simp: view_filters_def)
  then show ?thesis by simp
qed

lemma clean_view_parse:
  assumes "clean_view u" shows "clean u" "viewTarget (parseRoute u True) = Some t \<Longrightarrow> dot_free t"
proof -
  obtain y v fs where u: "u = 47 # y @ query_of (view_filters v (map_option san_filters fs))" "segs_all ok_seg y" "list_all addr_char y"
    using assms by (auto simp: clean_view_def)
  let ?q = "query_of (view_filters v (map_option san_filters fs))"
  have "list_all (\<lambda>u. u < 128) ?q"
    using params_kept [of "view_filters v (map_option san_filters fs)"] query_kept_char by (fastforce simp: query_of_def list_all_iff)
  then show "clean u" using u unfolding clean_def by (intro exI [of _ y] exI [of _ ?q]) (simp add: query_of_def)
  have "parseRoute ((47 # y) @ ?q) True = route_query (view_filters v (map_option san_filters fs)) (parsePath (47 # y) True)"
    by (rule parseRoute_of [OF addr_path(1) [OF u(3)] view_filters_clean])
  then have "viewTarget (parseRoute u True) = viewTarget (parsePath (47 # y) True)" using u(1) by (simp add: route_query_view)
  then show "dot_free t" if "viewTarget (parseRoute u True) = Some t"
    using that parsePath_dot_free [OF ok_path [OF u(2)]] by simp
qed

lemma path_lands:
  assumes "plain_id pid" "well_formed p" "edit \<or> \<not> reserved (first_segment p)"
  obtains u l where "urlForPath p (Some pid) ver fl edit = Some u" "browser_url u = Some l" "clean l"
    "dot_free p \<Longrightarrow> path_route pid p (parseRoute l True)"
proof -
  obtain e q where e: "urlForPath p (Some pid) ver fl edit = Some (47 # e @ q)" "q = [] \<or> hd q = 63"
    "segs_all enc_seg e" "e \<noteq> []" "hd e \<noteq> 47" "path_route pid p (parsePath (47 # e) True)" "dot_free p \<Longrightarrow> segs_all ok_seg e"
    using path_url_shape [OF assms, of ver fl] by blast
  obtain y q' where l: "browser_url (47 # e @ q) = Some (47 # y @ q')" "segs_all ok_seg y" "list_all addr_char y"
    "q' = [] \<or> hd q' = 63" "list_all (\<lambda>u. u < 128) q'" "segs_all ok_seg e \<Longrightarrow> y = e"
    using resolve_built [OF e(3,4,5,2)] by metis
  have "clean (47 # y @ q')" unfolding clean_def using l(2-5) by blast
  moreover have "path_route pid p (parseRoute (47 # y @ q') True)" if "dot_free p"
  proof -
    have "y = e" using l(6) e(7) that by blast
    moreover obtain qs where "parseRoute ((47 # y) @ q') True = route_query qs (parsePath (47 # y) True)"
      using parse_split [OF addr_path(1) [OF l(3)] l(4)] by blast
    ultimately show ?thesis using path_route_query [OF e(6)] by simp
  qed
  ultimately show ?thesis by (rule that [OF e(1) l(1)])
qed

lemma query_of_kept: "query_of ps = [] \<or> (\<exists>r. query_of ps = 63 # r \<and> r \<noteq> [] \<and> list_all query_kept r)"
  using params_kept by (simp add: query_of_def)

lemma view_lands:
  assumes "plain_id pid" "\<forall>p. target = Some p \<longrightarrow> well_formed p"
  obtains u l where "urlForView v (Some pid) target fs = Some u" "browser_url u = Some l" "clean_view l"
    "\<forall>p. target = Some p \<longrightarrow> dot_free p \<Longrightarrow> l = u"
proof -
  let ?q = "query_of (view_filters v (map_option san_filters fs))"
  obtain e where e: "urlForView v (Some pid) target fs = Some (47 # e @ ?q)" "segs_all enc_seg e" "e \<noteq> []" "hd e \<noteq> 47"
    "\<forall>p. target = Some p \<longrightarrow> dot_free p \<Longrightarrow> segs_all ok_seg e"
    using view_url_shape [OF assms, of v fs] by metis
  have q: "?q = [] \<or> hd ?q = 63" by (simp add: query_of_def)
  obtain y q' where l: "browser_url (47 # e @ ?q) = Some (47 # y @ q')" "segs_all ok_seg y" "list_all addr_char y"
    "segs_all ok_seg e \<Longrightarrow> y = e" "\<And>r. ?q = 63 # r \<Longrightarrow> r \<noteq> [] \<Longrightarrow> list_all query_kept r \<Longrightarrow> q' = ?q" "?q = [] \<Longrightarrow> q' = []"
    using resolve_built [OF e(2,3,4) q] by metis
  have q': "q' = ?q" using query_of_kept [of "view_filters v (map_option san_filters fs)"] l(5,6) by metis
  have "clean_view (47 # y @ q')" unfolding clean_view_def q' using l(2,3) by blast
  moreover have "47 # y @ q' = 47 # e @ ?q" if "\<forall>p. target = Some p \<longrightarrow> dot_free p" using l(4) e(5) [OF that] q' by simp
  ultimately show ?thesis by (rule that [OF e(1) l(1)])
qed

text \<open>An address a view's redirect left is one hop from rest, one a path's redirect left two.\<close>

lemma path_settles:
  assumes "listed env pid" "well_formed p" "edit \<or> \<not> reserved (first_segment p)" "dot_free p"
    "hub_step lower env loc = RedirectTo (urlForPath p (Some pid) ver fl edit)"
  shows "arrives (hub_step lower env) 1 loc"
proof -
  have l: "plain_id pid" "project_id pid" "\<And>ps. e_projects env = Some ps \<Longrightarrow> pid \<in> pr_id ` set ps"
    using assms(1) by (simp_all add: listed_def plain_id_def)
  obtain u x where u: "urlForPath p (Some pid) ver fl edit = Some u" "browser_url u = Some x" "path_route pid p (parseRoute x True)"
    using path_lands [OF l(1) assms(2,3), of ver fl] assms(4) by metis
  have "strip_end 47 p = p" using assms(4) by (simp add: dot_free_def)
  then obtain v where "hub_step lower env x = Shown v" using settled_path [OF u(3) _ l(2,3)] by blast
  then have "arrives (hub_step lower env) 0 x" by (rule arrives_shown)
  then show ?thesis using arrives_step [OF _ u(2)] assms(5) u(1) by simp
qed

lemma setup_arrives:
  assumes "e_desktop env" "hub_step lower env loc = RedirectTo (Some (js ''/setup''))"
  shows "arrives (hub_step lower env) 1 loc"
proof -
  have r: "browser_url (js ''/setup'') = Some (js ''/setup'')" by code_simp
  have "arrives (hub_step lower env) 0 (js ''/setup'')" using setup_shown [OF assms(1)] by (rule arrives_shown)
  with assms(2) r have "arrives (hub_step lower env) (Suc 0) loc" by (rule arrives_step)
  then show ?thesis by simp
qed

lemma view_left:
  assumes "plain_ids env" "clean_view loc" shows "arrives (hub_step lower env) 1 loc"
proof -
  note c = clean_view_parse [OF assms(2)]
  note p = clean_parse [OF c(1)]
  from assms(1) p(1) show ?thesis
  proof (cases rule: hub_step_cases [where lower = lower])
    case (rest v)
    then show ?thesis by (rule arrives_shown)
  next
    case onboard
    then show ?thesis by (rule setup_arrives)
  next
    case (to_path pid pt ver fl edit)
    then have "dot_free pt" using p(2) dot_free_Nil by auto
    with to_path show ?thesis by (intro path_settles)
  next
    case (to_view pid v fs)
    have df: "\<forall>t. viewTarget (parseRoute loc True) = Some t \<longrightarrow> dot_free t" using c(2) by blast
    have l: "plain_id pid" "project_id pid" "\<And>ps. e_projects env = Some ps \<Longrightarrow> pid \<in> pr_id ` set ps"
      using to_view(1) by (simp_all add: listed_def plain_id_def)
    obtain u where u: "urlForView v (Some pid) (viewTarget (parseRoute loc True)) fs = Some u" "browser_url u = Some u"
      using view_lands [OF l(1) to_view(3), of v fs] df by metis
    have "view_route pid v (parseRoute u True)" using view_hop [OF l(2) to_view(3), of v fs] u(1) by auto
    then obtain w where "hub_step lower env u = Shown w" using settled_view [OF _ l(2,3)] by blast
    then have "arrives (hub_step lower env) 0 u" by (rule arrives_shown)
    then show ?thesis using arrives_step [OF _ u(2)] to_view(2) u(1) by simp
  qed
qed

lemma view_arrives:
  assumes "plain_ids env" "listed env pid" "\<forall>t. target = Some t \<longrightarrow> well_formed t"
    "hub_step lower env loc = RedirectTo (urlForView v (Some pid) target fs)"
  shows "arrives (hub_step lower env) 2 loc"
proof -
  have "plain_id pid" using assms(2) by (simp add: listed_def)
  from view_lands [OF this assms(3), of v fs] obtain u l where
    u: "urlForView v (Some pid) target fs = Some u" "browser_url u = Some l" "clean_view l" by metis
  show ?thesis using arrives_step [OF _ u(2) view_left [OF assms(1) u(3)]] assms(4) u(1) by (simp add: numeral_2_eq_2)
qed

lemma path_left:
  assumes "plain_ids env" "clean loc" shows "arrives (hub_step lower env) 2 loc"
proof -
  note p = clean_parse [OF assms(2)]
  from assms(1) p(1) show ?thesis
  proof (cases rule: hub_step_cases [where lower = lower])
    case (rest v)
    then show ?thesis by (rule arrives_shown)
  next
    case onboard
    from arrives_Suc [OF setup_arrives [OF this]] show ?thesis by (simp add: numeral_2_eq_2)
  next
    case (to_path pid pt ver fl edit)
    then have "dot_free pt" using p(2) dot_free_Nil by auto
    with to_path have "arrives (hub_step lower env) 1 loc" by (intro path_settles)
    from arrives_Suc [OF this] show ?thesis by (simp add: numeral_2_eq_2)
  next
    case (to_view pid v fs)
    then show ?thesis by (intro view_arrives [OF assms(1)])
  qed
qed

text \<open>C9: The rewriting of addresses ends: from any address whatever (an old view name, a query in place of a
  path, slashes at the end, dot segments, encoded or not, a project's name in place of its id, no project at
  all), for any list of projects with the ids the hub gives out (letters, digits and hyphens), any
  organisations and on either platform, the page is at rest after at most three redirects, each resolved by
  the browser before it is read again, and none of them fails to be written.\<close>

theorem redirects_end:
  assumes ids: "plain_ids env" and loc: "well_formed loc"
  shows "\<exists>v. hub_visit (hub_step lower env) 3 loc = Shown v"
proof -
  have "arrives (hub_step lower env) 3 loc"
    using ids loc
  proof (cases rule: hub_step_cases [where lower = lower])
    case (rest v)
    then show ?thesis by (rule arrives_shown)
  next
    case onboard
    from arrives_Suc [OF arrives_Suc [OF setup_arrives [OF this]]] show ?thesis by (simp add: numeral_3_eq_3)
  next
    case (to_path pid pt ver fl edit)
    then have "plain_id pid" by (simp add: listed_def)
    from path_lands [OF this to_path(3,4), of ver fl] obtain u l where
      u: "urlForPath pt (Some pid) ver fl edit = Some u" "browser_url u = Some l" "clean l" by metis
    show ?thesis using arrives_step [OF _ u(2) path_left [OF ids u(3)]] to_path(2) u(1) by (simp add: numeral_3_eq_3)
  next
    case (to_view pid v fs)
    from arrives_Suc [OF view_arrives [OF ids to_view(1,3,2)]] show ?thesis by (simp add: numeral_3_eq_3)
  qed
  then show ?thesis by (simp add: arrives_def)
qed

text \<open>Three are needed: a name in place of an id, encoded dot segments and a query smuggled into the version
  make the page go to the old view's name, from there to its query's target, and from there to the file.\<close>

definition far_env :: HubEnv where
  "far_env = \<lparr>e_desktop = False, e_projects = Some [\<lparr>pr_id = js ''p1'', pr_name = js ''docs'', pr_perm = None, pr_org = None\<rparr>],
     e_orgs = Some [], e_joined = None, e_last = [], e_panel = False, e_billing = False, e_mcp = False\<rparr>"

definition far_loc :: jstr where
  "far_loc = js ''/docs/a/..%2F..%2F..%2Fdocs%2Fhistory?v=1%26path%3D..%2F..''"

lemma three_redirects: "\<exists>u. hub_visit (hub_step id far_env) 2 far_loc = RedirectTo (Some u)"
proof -
  have "case hub_visit (hub_step id far_env) 2 far_loc of RedirectTo (Some u) \<Rightarrow> True | _ \<Rightarrow> False" by code_simp
  then show ?thesis by (auto split: HubStep.splits option.splits)
qed

lemma redirects_end_witness:
  "plain_ids far_env \<and> (\<exists>v. hub_visit (hub_step id far_env) 3 far_loc = Shown v)"
proof -
  have "plain_ids far_env" "well_formed far_loc" by code_simp+
  then show ?thesis using redirects_end by blast
qed

subsection \<open>Addresses that name nothing\<close>

text \<open>An address whose first segment is neither a project's id nor, alone, a project's name is never rewritten:
  whatever follows it, the page says so and keeps it.\<close>

lemma unknown_project_stays:
  assumes "truthy (Route.project ro)" "the (Route.project ro) \<notin> pr_id ` set ps"
    "projectByName lower (map (\<lambda>p. (pr_id p, pr_name p)) ps) (the (Route.project ro)) = None"
  shows "\<exists>v. hub_route lower env ps ro = Shown v"
  using assms by (auto simp: hub_route_def Let_def split: option.splits)

text \<open>The title of that page is another project's: it is taken from the project the sidebar falls back to.\<close>

definition hub_title :: "Route \<Rightarrow> HubProj option \<Rightarrow> jstr option \<Rightarrow> jstr" where
  "hub_title ro cp brand_name =
     (case cp of Some p \<Rightarrow> titleForRoute ro (pr_name p) | None \<Rightarrow> str_or brand_name (js ''BearDrive''))"

lemma missing_project_title:
  "let ps = [\<lparr>pr_id = js ''p1'', pr_name = js ''Docs'', pr_perm = None, pr_org = None\<rparr>]; ro = parseRoute (js ''/p9/notes.md'') True
   in hub_title ro (current_project ps (Route.project ro) None []) None = js ''notes '' @ 8212 # js '' Docs''"
  by code_simp

subsection \<open>Joining\<close>

text \<open>The invite's answer: which organisation was joined, and where the page goes once the list was read
  again: to the project of the invite only when the list has it.\<close>

datatype InviteAnswer = Accepted jstr jstr | Bounced | Refused jstr

definition invite_done :: "bool \<Rightarrow> InviteAnswer \<Rightarrow> (jstr \<times> bool) option \<times> jstr option option" where
  "invite_done cancelled a =
     (if cancelled then (None, None)
      else case a of
        Accepted oid oname \<Rightarrow>
          (Some (js ''Welcome '' @ 8212 # js '' you joined the '' @ 8220 # oname @ 8221 # js '' team. Opening its projects'' @ [8230], False), Some (Some oid))
      | Bounced \<Rightarrow> (None, None)
      | Refused why \<Rightarrow> (Some (js ''Could not accept the invite: '' @ why, True), Some None))"

definition join_lands :: "jstr \<Rightarrow> jstr list option \<Rightarrow> jstr" where
  "join_lands hint ids =
     (if hint \<noteq> [] \<and> ids \<noteq> None \<and> hint \<in> set (the ids) then 47 # hint @ js ''/install'' else js ''/'')"

text \<open>Whatever the address of the invite carries, it leads nowhere but to a project of the account.\<close>

lemma join_lands_at_home:
  "join_lands hint ids = js ''/'' \<or> (\<exists>pid \<in> set (the ids). join_lands hint ids = 47 # pid @ js ''/install'')"
  by (auto simp: join_lands_def)

subsection \<open>Creating a project\<close>

datatype NewProject = ToConnect | OpenDialog

definition newProject :: "bool \<Rightarrow> NewProject" where
  "newProject desk = (if desk then ToConnect else OpenDialog)"

definition EXISTING :: jstr where "EXISTING = js ''__existing__''"

text \<open>What is posted, and on success the address opened and the note; the dialog closes only then.\<close>

definition create_body :: "jstr \<Rightarrow> jstr \<Rightarrow> jstr \<times> jstr" where
  "create_body pname template = (pname, if template = EXISTING then [] else template)"

definition create_done :: "jstr \<Rightarrow> jstr + jstr \<times> jstr \<Rightarrow> (jstr \<times> bool) \<times> jstr option \<times> bool" where
  "create_done template a =
     (case a of
        Inr (pid, pname) \<Rightarrow> ((js ''Created '' @ 8220 # pname @ 8221 # js ''.'', False),
          Some (47 # pid @ (if template = EXISTING then js ''?connect=existing'' else [])), True)
      | Inl why \<Rightarrow> ((js ''Could not create the project: '' @ why, True), None, False))"

text \<open>The folder of one's own is told to the page in its address and to nobody else: the page that opens is
  the project's home, with the answer in its query.\<close>

lemma created_opens_home:
  assumes "project_id pid" "create_done EXISTING (Inr (pid, pname)) = (note, Some u, True)"
  shows "Route.project (parseRoute u True) = Some pid \<and> Route.rpath (parseRoute u True) = [] \<and> view (parseRoute u True) = None
     \<and> connect_q (parseRoute u True) = Some (js ''existing'')"
proof -
  have u: "u = (47 # pid) @ 63 # params_string [(js ''connect'', js ''existing'')]"
    using assms(2) by (auto simp: create_done_def) code_simp
  have x: "63 \<notin> set (47 # pid)" using assms(1) by (simp add: project_id_def)
  have w: "\<forall>(k, v) \<in> set [(js ''connect'', js ''existing'')]. well_formed k \<and> well_formed v" by code_simp
  show ?thesis unfolding u parseRoute_query [OF x w] parse_bare [OF assms(1)]
    by (simp add: route_query_def Let_def new_route_def some_param_def param_get_def js_def)
qed

subsection \<open>The menus of the sidebar\<close>

datatype MenuKey = MHome | MInsights | MActivity | MSettings

definition menu_active :: "bool \<Rightarrow> Route \<Rightarrow> MenuKey option" where
  "menu_active panel_up ro =
     (if panel_up then None
      else if view ro = None \<and> Route.rpath ro = [] then Some MHome
      else if view ro = Some VDashboard \<and> \<not> truthy (viewTarget ro) then Some MInsights
      else if view ro = Some VHistory \<and> \<not> truthy (viewTarget ro) then Some MActivity
      else if view ro = Some VSettings then Some MSettings
      else None)"

definition menu_nav :: "jstr \<Rightarrow> MenuKey \<Rightarrow> jstr option" where
  "menu_nav pid k =
     (case k of
        MHome \<Rightarrow> Some (47 # pid)
      | MActivity \<Rightarrow> urlForView VHistory (Some pid) None None
      | MInsights \<Rightarrow> urlForView VDashboard (Some pid) None None
      | MSettings \<Rightarrow> urlForView VSettings (Some pid) None None)"

text \<open>The item chosen is the item lit on the page it opens.\<close>

lemma menu_lights_its_page:
  assumes "project_id pid" shows "\<exists>u. menu_nav pid k = Some u \<and> menu_active False (parseRoute u True) = Some k"
proof -
  have lit: "\<exists>u. urlForView v (Some pid) None None = Some u \<and> view (parseRoute u True) = Some v \<and> \<not> truthy (viewTarget (parseRoute u True))" for v
    using view_url_parse [OF assms, of None None v] by (auto simp: new_route_def truthy_def str_or_def)
  show ?thesis
  proof (cases "k = MHome")
    case True
    have "63 \<notin> set (47 # pid)" using assms by (simp add: project_id_def)
    from parseRoute_plain [OF this] show ?thesis
      unfolding True menu_nav_def by (simp add: parse_bare [OF assms] menu_active_def route_query_def Let_def new_route_def)
  next
    case False
    then obtain v where v: "menu_nav pid k = urlForView v (Some pid) None None" "\<And>ro. view ro = Some v \<Longrightarrow> \<not> truthy (viewTarget ro) \<Longrightarrow> menu_active False ro = Some k"
      by (cases k) (auto simp: menu_nav_def menu_active_def)
    from lit [of v] obtain u where "urlForView v (Some pid) None None = Some u" "view (parseRoute u True) = Some v" "\<not> truthy (viewTarget (parseRoute u True))"
      by blast
    then have "menu_nav pid k = Some u \<and> menu_active False (parseRoute u True) = Some k" using v by simp
    then show ?thesis by blast
  qed
qed

end
