(* ===== verification/Palette.thy ===== *)
theory Palette
  imports Fuzzy PageActions
begin

section \<open>The command palette (components/Palette.tsx, components/Marked.tsx)\<close>

text \<open>
  A palette row paints the label of an item in two spans, the name and the folder, both from the one
  list of ranges the search returned. The ranking is Fuzzy's, the ps are those of PageActions. A
  span is the list of its pieces; a piece that is emphasised carries the key React gives it, the place
  where it starts. Natural subtraction is enough for the offsets: a difference below zero is compared
  only with a position, which is never negative.
\<close>

subsection \<open>Painting the ranges of a text\<close>

datatype Piece = Plain jstr | Strong nat jstr

fun piece_text :: "Piece \<Rightarrow> jstr" where
  "piece_text (Plain t) = t"
| "piece_text (Strong k t) = t"

fun paint :: "nat \<Rightarrow> jstr \<Rightarrow> (nat \<times> nat) list \<Rightarrow> nat \<Rightarrow> Piece list" where
  "paint offset t [] p = (if p < length t then [Plain (Prelude.slice p (length t) t)] else [])"
| "paint offset t ((s, e) # rs) p =
     (let a = max (s - offset) p;
          b = min (e - offset) (length t)
      in if b \<le> a then paint offset t rs p
         else (if a > p then [Plain (Prelude.slice p a t)] else []) @ Strong a (Prelude.slice a b t) # paint offset t rs b)"

definition Marked :: "nat \<Rightarrow> jstr \<Rightarrow> (nat \<times> nat) list \<Rightarrow> Piece list" where
  "Marked offset t rs = paint offset t rs 0"

text \<open>What is read of a span, and the positions it emphasises when it starts at \<open>p\<close>.\<close>

definition span_text :: "Piece list \<Rightarrow> jstr" where
  "span_text ps = concat (map piece_text ps)"

fun span_marks :: "nat \<Rightarrow> Piece list \<Rightarrow> nat set" where
  "span_marks p [] = {}"
| "span_marks p (Plain t # ps) = span_marks (p + length t) ps"
| "span_marks p (Strong k t # ps) = {p ..< p + length t} \<union> span_marks (p + length t) ps"

lemma span_text_simps [simp]:
  "span_text [] = []" "span_text (p # ps) = piece_text p @ span_text ps" "span_text (ps @ qs) = span_text ps @ span_text qs"
  by (simp_all add: span_text_def)

lemma slice_drop: "p \<le> a \<Longrightarrow> a \<le> length t \<Longrightarrow> Prelude.slice p a t @ drop a t = drop p t"
  unfolding Prelude.slice_def by (metis append_take_drop_id drop_drop le_add_diff_inverse2)

lemma slice_len: "p \<le> a \<Longrightarrow> a \<le> length t \<Longrightarrow> length (Prelude.slice p a t) = a - p"
  by simp

lemma paint_text: "p \<le> length t \<Longrightarrow> span_text (paint offset t rs p) = drop p t"
proof (induction offset t rs p rule: paint.induct)
  case (1 offset t p)
  then show ?case by (simp add: Prelude.slice_def)
next
  case (2 offset t s e rs p)
  let ?a = "max (s - offset) p" and ?b = "min (e - offset) (length t)"
  show ?case
  proof (cases "?b \<le> ?a")
    case False
    then have "Prelude.slice ?a ?b t @ drop ?b t = drop ?a t" "Prelude.slice p ?a t @ drop ?a t = drop p t"
      by (auto intro!: slice_drop)
    moreover have "span_text (paint offset t rs ?b) = drop ?b t" using "2.IH"(2) False by simp
    ultimately show ?thesis using False by (auto simp: Let_def max_def)
  qed (use 2 in \<open>simp add: Let_def\<close>)
qed

lemma separated_Cons: "separated ((s, e) # rs) \<longleftrightarrow> s < e \<and> (\<forall>r \<in> set rs. e < fst r) \<and> separated rs"
  by (auto simp: separated_def)

lemma covered_Cons [simp]: "covered ((s, e) # rs) = {s ..< e} \<union> covered rs" "covered [] = {}"
  by (simp_all add: covered_def)

lemma covered_above: "\<forall>r \<in> set rs. e < fst r \<Longrightarrow> x \<in> covered rs \<Longrightarrow> e < x"
  by (auto simp: covered_def case_prod_beta dest: order_less_le_trans)

lemma paint_marks:
  "separated rs \<Longrightarrow> p \<le> length t \<Longrightarrow> span_marks p (paint offset t rs p) = {i \<in> {p ..< length t}. i + offset \<in> covered rs}"
proof (induction offset t rs p rule: paint.induct)
  case (1 offset t p)
  then show ?case by simp
next
  case (2 offset t s e rs p)
  let ?a = "max (s - offset) p" and ?b = "min (e - offset) (length t)"
  from "2.prems"(1) have se: "s < e" "\<forall>r \<in> set rs. e < fst r" "separated rs" by (simp_all add: separated_Cons)
  note above = covered_above [OF se(2)]
  have split: "{i \<in> {p ..< length t}. i + offset \<in> covered ((s, e) # rs)}
      = {?a ..< ?b} \<union> {i \<in> {p ..< length t}. i + offset \<in> covered rs}" by auto
  show ?case
  proof (cases "?b \<le> ?a")
    case True
    then have "{?a ..< ?b} = {}" by simp
    with split 2 se True show ?thesis by (simp add: Let_def)
  next
    case False
    then have ab: "p \<le> ?a" "?a < ?b" "?b \<le> length t" by auto
    have IH: "span_marks ?b (paint offset t rs ?b) = {i \<in> {?b ..< length t}. i + offset \<in> covered rs}"
      using "2.IH"(2) False se by simp
    have rest: "{i \<in> {?b ..< length t}. i + offset \<in> covered rs} = {i \<in> {p ..< length t}. i + offset \<in> covered rs}"
      using ab above by (fastforce simp: min_def split: if_splits)
    have len: "length (Prelude.slice ?a ?b t) = ?b - ?a" "length (Prelude.slice p ?a t) = ?a - p"
      by (rule slice_len [OF less_imp_le [OF ab(2)] ab(3)], rule slice_len [OF ab(1) order.trans [OF less_imp_le [OF ab(2)] ab(3)]])
    have eq: "span_marks p (paint offset t ((s, e) # rs) p)
        = span_marks ?a (Strong ?a (Prelude.slice ?a ?b t) # paint offset t rs ?b)"
    proof (cases "?a > p")
      case True
      then have "paint offset t ((s, e) # rs) p = Plain (Prelude.slice p ?a t) # Strong ?a (Prelude.slice ?a ?b t) # paint offset t rs ?b"
        using False unfolding paint.simps Let_def by (simp only: if_False if_True append_Cons append_Nil)
      then show ?thesis using len(2) ab(1) by (simp only: span_marks.simps le_add_diff_inverse)
    next
      case same: False
      then have "paint offset t ((s, e) # rs) p = Strong ?a (Prelude.slice ?a ?b t) # paint offset t rs ?b"
        using False unfolding paint.simps Let_def by (simp only: if_False append_Nil)
      moreover from same ab(1) have "?a = p" by linarith
      ultimately show ?thesis by (simp only:)
    qed
    show ?thesis
      unfolding eq span_marks.simps len(1) le_add_diff_inverse [OF less_imp_le [OF ab(2)]] IH rest split ..
  qed
qed

lemma Marked_text [simp]: "span_text (Marked offset t rs) = t"
  by (simp add: Marked_def paint_text)

lemma Marked_marks: "separated rs \<Longrightarrow> span_marks 0 (Marked offset t rs) = {i. i < length t \<and> i + offset \<in> covered rs}"
  by (auto simp: Marked_def paint_marks)

subsection \<open>Rows\<close>

text \<open>\<open>Row\<close>: the name, its folder dim after it, or the hint and the kind of an item that is no path.\<close>

record PRow =
  row_label :: "Piece list"
  row_loc :: "Piece list option"
  row_hint :: "jstr option"
  row_kind :: "jstr option"

definition is_path :: "PItem \<Rightarrow> bool" where
  "is_path it \<longleftrightarrow> p_kind it = js ''file'' \<or> p_kind it = js ''folder''"

definition row_cut :: "PItem \<Rightarrow> nat" where
  "row_cut it = (if is_path it then (case last_index 47 (p_label it) of None \<Rightarrow> 0 | Some i \<Rightarrow> i + 1) else 0)"

definition palette_row :: "PItem \<Rightarrow> (nat \<times> nat) list \<Rightarrow> jstr option \<Rightarrow> PRow" where
  "palette_row it rs hint =
     (let cut = row_cut it
      in \<lparr>row_label = Marked cut (drop cut (p_label it)) rs,
          row_loc = (if is_path it \<and> cut > 0 then Some (Marked 0 (take (cut - 1) (p_label it)) rs) else None),
          row_hint = (if \<not> is_path it \<and> truthy hint then hint else None),
          row_kind = (if \<not> is_path it then Some (p_kind it) else None)\<rparr>)"

text \<open>What a row says of its label, the folder back in front, and which of its code units are emphasised.\<close>

definition row_text :: "PRow \<Rightarrow> jstr" where
  "row_text w = (case row_loc w of None \<Rightarrow> [] | Some ps \<Rightarrow> span_text ps @ [47]) @ span_text (row_label w)"

definition row_marks :: "PRow \<Rightarrow> nat set" where
  "row_marks w =
     (case row_loc w of None \<Rightarrow> span_marks 0 (row_label w)
      | Some ps \<Rightarrow> span_marks 0 ps \<union> (\<lambda>i. i + (length (span_text ps) + 1)) ` span_marks 0 (row_label w))"

lemma row_cut_slash: "0 < row_cut it \<Longrightarrow> row_cut it \<le> length (p_label it) \<and> p_label it ! (row_cut it - 1) = 47 \<and> is_path it"
  by (cases "last_index 47 (p_label it)")
    (simp_all add: row_cut_def last_index_Some [THEN iffD1] Suc_leI split: if_splits)

lemma row_text_label: "row_text (palette_row it rs hint) = p_label it"
proof (cases "row_cut it")
  case 0
  then show ?thesis by (simp add: row_text_def palette_row_def)
next
  case (Suc k)
  with row_cut_slash [of it] have "k < length (p_label it)" "p_label it ! k = 47" "is_path it" by auto
  then show ?thesis using Suc id_take_nth_drop [of k "p_label it"]
    by (simp add: row_text_def palette_row_def)
qed

lemma row_marks_ranges:
  assumes "separated rs" "covered rs \<subseteq> {0 ..< length (p_label it)}"
  shows "row_marks (palette_row it rs hint) = {i \<in> covered rs. i + 1 \<noteq> row_cut it}"
proof (cases "row_cut it")
  case 0
  then show ?thesis using assms by (auto simp: row_marks_def palette_row_def Marked_marks)
next
  case (Suc k)
  with row_cut_slash [of it] have k: "k < length (p_label it)" "is_path it" by auto
  have "(\<lambda>i. i + Suc k) ` {i. i < length (p_label it) - Suc k \<and> i + Suc k \<in> covered rs} = {i \<in> covered rs. k < i}"
  proof (intro set_eqI iffI)
    fix i assume "i \<in> {i \<in> covered rs. k < i}"
    with assms(2) show "i \<in> (\<lambda>i. i + Suc k) ` {i. i < length (p_label it) - Suc k \<and> i + Suc k \<in> covered rs}"
      by (intro image_eqI [of _ _ "i - Suc k"]) auto
  qed auto
  then show ?thesis using assms k Suc by (auto simp: row_marks_def palette_row_def Marked_marks min_def)
qed


subsection \<open>What a search returns\<close>

lemma walk_back_below: "set (walk_back rws q j) \<subseteq> {..< j}"
proof (induction rws q j rule: walk_back.induct)
  case (2 row rws q j)
  show ?case
  proof (cases "walk_row row q j")
    case (Some k)
    from "2.IH" [OF Some refl] walk_row_Some(1) [OF Some] show ?thesis by (auto simp: Some Let_def)
  qed simp
qed simp

lemma fzy_positions_below: "set (fst (fzy tok p from lo scr wn)) \<subseteq> {..< length (ptext p)}"
  using walk_back_below [of "rev (dp_matrix tok p from)" False "length (ptext p) - from"]
  by (auto simp: fzy_def fzyPositions_def Let_def)

lemma scoreToken_below: "set (fst (scoreToken scr t mk p only wn)) \<subseteq> {..< length (ptext p)}"
  using fzy_positions_below [of t p _ _ scr wn]
  by (auto simp: scoreToken_def case_prod_beta split: option.splits dest!: subsetD)

lemma scoreTypo_below: "set (fst (scoreTypo scr t p only wn)) \<subseteq> {..< length (ptext p)}"
  using subsetD [OF scoreToken_below] by (auto simp: scoreTypo_def split: option.splits prod.splits)

lemma score_tokens_below:
  "set pos \<subseteq> {..< length (ptext p)} \<Longrightarrow> set (fst (score_tokens scr ts p m wn tot fg pos)) \<subseteq> {..< length (ptext p)}"
proof (induction ts arbitrary: tot fg pos)
  case (Cons t ts)
  obtain us x where tk: "scoreToken scr (ttext t) (tmask t) p (nameOnly m) wn = (us, x)" by fastforce
  obtain vs y where ty: "scoreTypo scr t p (nameOnly m) wn = (vs, y)" by fastforce
  have "set us \<subseteq> {..< length (ptext p)}" "set vs \<subseteq> {..< length (ptext p)}"
    using scoreToken_below [of scr "ttext t" "tmask t" p "nameOnly m" wn] scoreTypo_below [of scr t p "nameOnly m" wn]
    by (simp_all add: tk ty)
  with Cons.prems have "set (fst (score_tokens scr ts p m wn tot' fg' (pos @ us @ vs))) \<subseteq> {..< length (ptext p)}"
    "set (fst (score_tokens scr ts p m wn tot' fg' (pos @ us))) \<subseteq> {..< length (ptext p)}" for tot' fg'
    by (intro Cons.IH; simp)+
  with Cons.prems \<open>set us \<subseteq> _\<close> \<open>set vs \<subseteq> _\<close> show ?case by (simp add: tk ty Let_def)
qed simp

lemma scoreLabel_below: "set (fst (scoreLabel scr q p m wn)) \<subseteq> {..< length (ptext p)}"
  using score_tokens_below [of "[]" p scr "tokens q" m wn "Fin 0" False]
  by (auto simp: scoreLabel_def split: prod.splits option.splits)

lemma set_top_add: "set (top_add rk limit x xs) \<subseteq> insert x (set xs)"
  by (auto simp: top_add_def Let_def dest!: in_set_butlastD in_set_takeD in_set_dropD)

lemma set_add_all: "set (add_all rk limit xs t) \<subseteq> set xs \<union> set t"
  unfolding add_all_def
proof (induction xs arbitrary: t)
  case (Cons x xs)
  from Cons.IH [of "top_add rk limit x t"] set_top_add [of rk limit x t] show ?case by auto
qed simp

lemma add_allD: "x \<in> set (add_all rk limit xs t) \<Longrightarrow> x \<in> set xs \<or> x \<in> set t"
  using set_add_all by fastforce

lemma search_hit:
  assumes "h \<in> set (fst (search scr nfc lower qry ps limit only))"
  shows "hindex h < length ps
    \<and> (\<exists>q m. hranges h = toRanges (fst (scoreLabel scr q (ps ! hindex h) m True)) (ps ! hindex h))"
proof (cases "parse nfc lower qry")
  case None
  with assms show ?thesis by (simp add: search_def)
next
  case (Some q)
  let ?found = "clean_matches scr q ps only" and ?rows = "typo_matches scr q ps only limit"
  let ?merged = "add_all (better ps) limit ?rows (add_all (better ps) limit (add_all (better ps) limit ?found []) [])"
  have "fst x < length ps" if "x \<in> set ?merged" for x
  proof -
    from that have "x \<in> set ?rows \<union> set ?found"
      by (auto dest!: add_allD)
    then show ?thesis
      using typo_matches_sub [of x scr q ps only limit]
      by (auto simp: clean_matches_def scored_def)
  qed
  with assms Some show ?thesis
    by (fastforce simp: search_def Let_def case_prod_beta)
qed

subsection \<open>The palette\<close>

definition LIMIT :: nat where "LIMIT = 40"
definition RECENT :: nat where "RECENT = 5"

text \<open>\<open>hits\<close>: the labels are prepared once something other than white space is typed.\<close>

definition palette_prepared :: "(jstr \<Rightarrow> jstr) \<Rightarrow> (jstr \<Rightarrow> jstr) \<Rightarrow> (jstr \<Rightarrow> bool) \<Rightarrow> jstr \<Rightarrow> PItem list \<Rightarrow> Prepared list" where
  "palette_prepared nfc lower joins qry its =
     (if trim qry \<noteq> [] then map (\<lambda>it. prepare_label nfc lower joins (p_label it)) its else [])"

definition palette_hits :: "scratch \<Rightarrow> (jstr \<Rightarrow> jstr) \<Rightarrow> (jstr \<Rightarrow> jstr) \<Rightarrow> (jstr \<Rightarrow> bool) \<Rightarrow> jstr \<Rightarrow> PItem list \<Rightarrow> Hit list" where
  "palette_hits scr nfc lower joins qry its =
     fst (search scr nfc lower qry (palette_prepared nfc lower joins qry its) LIMIT False)"

text \<open>\<open>sections\<close>: the files opened last, then the items by group. Both maps keep the order of the first
  entry under a key; the map of the files keeps the last item of a label.\<close>

definition recent_items :: "PItem list \<Rightarrow> jstr list \<Rightarrow> PItem list" where
  "recent_items its recs =
     (let fls = map_of (rev (map (\<lambda>it. (p_label it, it)) (filter (\<lambda>it. p_kind it = js ''file'') its)))
      in take RECENT (List.map_filter fls recs))"

fun file_under :: "jstr \<Rightarrow> PItem \<Rightarrow> (jstr \<times> PItem list) list \<Rightarrow> (jstr \<times> PItem list) list" where
  "file_under g it [] = [(g, [it])]"
| "file_under g it ((k, xs) # rest) = (if k = g then (k, xs @ [it]) # rest else (k, xs) # file_under g it rest)"

fun add_grouped :: "(jstr \<times> PItem list) list \<Rightarrow> PItem \<Rightarrow> (jstr \<times> PItem list) list" where
  "add_grouped secs it = (if truthy (p_group it) then file_under (the (p_group it)) it secs else secs)"

definition palette_sections :: "PItem list \<Rightarrow> jstr list \<Rightarrow> (jstr \<times> PItem list) list" where
  "palette_sections its recs =
     (let ri = recent_items its recs
      in foldl add_grouped (if ri \<noteq> [] then [(js ''Recent'', ri)] else []) its)"

text \<open>What the list shows: a note, the hits, or the sections. A section named after the open file already
  says what its actions act on.\<close>

datatype PBody = NoMatches | HitRows "(nat \<times> PRow) list" | SectionRows "(jstr \<times> PRow list) list"

definition palette_body :: "scratch \<Rightarrow> (jstr \<Rightarrow> jstr) \<Rightarrow> (jstr \<Rightarrow> jstr) \<Rightarrow> (jstr \<Rightarrow> bool) \<Rightarrow> jstr \<Rightarrow> PItem list \<Rightarrow> jstr list \<Rightarrow> PBody" where
  "palette_body scr nfc lower joins qry its recs =
     (if trim qry \<noteq> []
      then (let hs = palette_hits scr nfc lower joins qry its
            in if hs = [] then NoMatches
               else HitRows (map (\<lambda>h. (hindex h, palette_row (its ! hindex h) (hranges h) (p_hint (its ! hindex h)))) hs))
      else SectionRows (map (\<lambda>(nm, xs). (nm, map (\<lambda>it. palette_row it [] (if p_hint it = Some nm then None else p_hint it)) xs))
             (palette_sections its recs)))"

text \<open>The dialog: opening it takes over what the sidebar's filter had typed, closing it keeps the items
  out of memory, and choosing a row closes it before the item runs.\<close>

record Pal =
  pal_open :: bool
  pal_query :: jstr
  pal_items :: "PItem list"
  pal_ran :: "Chosen list"

definition pal_show :: "PItem list \<Rightarrow> jstr \<Rightarrow> Pal \<Rightarrow> Pal" where
  "pal_show candidates initial d = d\<lparr>pal_open := True, pal_query := initial, pal_items := candidates\<rparr>"

definition pal_close :: "Pal \<Rightarrow> Pal" where
  "pal_close d = d\<lparr>pal_open := False, pal_items := []\<rparr>"

definition pal_type :: "jstr \<Rightarrow> Pal \<Rightarrow> Pal" where
  "pal_type q d = d\<lparr>pal_query := q\<rparr>"

definition pal_run :: "PItem \<Rightarrow> Pal \<Rightarrow> Pal" where
  "pal_run it d = (let d = pal_close d in d\<lparr>pal_ran := pal_ran d @ [p_act it]\<rparr>)"

subsection \<open>What the palette promises\<close>

text \<open>C23: A row of the palette says where the query matched and nothing else. For every hit of what was
  typed, the name and the folder the row paints are the item's label, each code unit once, and the
  emphasised ones are exactly those of the ranges the search returned, less the slash between the two
  spans, which is not painted; the ranges lie inside the label, in order and apart.\<close>

theorem palette_row_of_hit:
  assumes "h \<in> set (palette_hits scr nfc lower joins qry its)"
  shows "hindex h < length its
    \<and> row_text (palette_row (its ! hindex h) (hranges h) hint) = p_label (its ! hindex h)
    \<and> row_marks (palette_row (its ! hindex h) (hranges h) hint) = {i \<in> covered (hranges h). i + 1 \<noteq> row_cut (its ! hindex h)}
    \<and> separated (hranges h) \<and> covered (hranges h) \<subseteq> {0 ..< length (p_label (its ! hindex h))}"
proof -
  let ?ps = "palette_prepared nfc lower joins qry its"
  from search_hit [of h scr nfc lower qry ?ps LIMIT False] assms
  obtain q m where i: "hindex h < length ?ps"
    and rs: "hranges h = toRanges (fst (scoreLabel scr q (?ps ! hindex h) m True)) (?ps ! hindex h)"
    by (auto simp: palette_hits_def)
  then have n: "hindex h < length its" and p: "?ps ! hindex h = prepare_label nfc lower joins (p_label (its ! hindex h))"
    by (auto simp: palette_prepared_def split: if_splits)
  have "\<forall>i \<in> set (fst (scoreLabel scr q (?ps ! hindex h) m True)). i < length (ptext (?ps ! hindex h))"
    using scoreLabel_below by fast
  from toRanges_cover [OF this [unfolded p]]
  have "separated (hranges h)" "covered (hranges h) \<subseteq> {0 ..< length (p_label (its ! hindex h))}"
    unfolding rs p by blast+
  with n show ?thesis by (simp add: row_text_label row_marks_ranges)
qed

definition w_items :: "PItem list" where
  "w_items = [\<lparr>p_icon = js ''doc'', p_label = js ''a/bc'', p_hint = None, p_kind = js ''file'', p_group = None, p_act = AOpen (js ''a/bc'')\<rparr>]"

lemma palette_row_of_hit_witness:
  "let its = w_items; h = hd (palette_hits (\<lambda>_ _. NegInf) id id (\<lambda>_. False) (js ''b'') its)
   in hindex h < length its
    \<and> row_text (palette_row (its ! hindex h) (hranges h) None) = p_label (its ! hindex h)
    \<and> row_marks (palette_row (its ! hindex h) (hranges h) None) = {i \<in> covered (hranges h). i + 1 \<noteq> row_cut (its ! hindex h)}
    \<and> separated (hranges h) \<and> covered (hranges h) \<subseteq> {0 ..< length (p_label (its ! hindex h))}"
  unfolding Let_def by (rule palette_row_of_hit, rule list.set_sel(1)) code_simp

text \<open>Every item with a group stands in exactly one section, in the order of the items, behind the files
  opened last where the group is named as their section is.\<close>

definition section_of :: "jstr \<Rightarrow> (jstr \<times> PItem list) list \<Rightarrow> PItem list" where
  "section_of g secs = (case map_of secs g of None \<Rightarrow> [] | Some xs \<Rightarrow> xs)"

lemma file_under_spec:
  "section_of k (file_under g it secs) = section_of k secs @ (if k = g then [it] else [])"
  "fst ` set (file_under g it secs) = insert g (fst ` set secs)"
  "distinct (map fst secs) \<Longrightarrow> distinct (map fst (file_under g it secs))"
proof -
  show "section_of k (file_under g it secs) = section_of k secs @ (if k = g then [it] else [])"
  proof (induction secs)
    case (Cons sec secs)
    then show ?case by (cases sec) (auto simp: section_of_def)
  qed (simp add: section_of_def)
  have "fst ` set (file_under g it ss) = insert g (fst ` set ss)" for ss
  proof (induction ss)
    case (Cons sec ss)
    then show ?case by (cases sec) (simp add: insert_commute)
  qed simp
  then show "fst ` set (file_under g it secs) = insert g (fst ` set secs)"
    "distinct (map fst secs) \<Longrightarrow> distinct (map fst (file_under g it secs))"
    by (blast, induction secs) auto
qed

lemma add_grouped_spec:
  "section_of k (add_grouped secs it) = section_of k secs @ (if truthy (p_group it) \<and> p_group it = Some k then [it] else [])"
  "distinct (map fst secs) \<Longrightarrow> distinct (map fst (add_grouped secs it))"
  by (cases "p_group it"; simp add: file_under_spec truthy_def)+

lemma sections_under:
  "section_of g (palette_sections its recs)
     = (if g = js ''Recent'' then recent_items its recs else []) @ filter (\<lambda>it. truthy (p_group it) \<and> p_group it = Some g) its
   \<and> distinct (map fst (palette_sections its recs))"
proof -
  have "section_of g (foldl add_grouped secs its) = section_of g secs @ filter (\<lambda>it. truthy (p_group it) \<and> p_group it = Some g) its
      \<and> (distinct (map fst secs) \<longrightarrow> distinct (map fst (foldl add_grouped secs its)))" for secs
  proof (induction its arbitrary: secs)
    case (Cons it its)
    from Cons.IH [of "add_grouped secs it"] show ?case
      using add_grouped_spec(1) [of g secs it] add_grouped_spec(2) [of secs it] by (auto simp del: add_grouped.simps)
  qed simp
  from this [of "if recent_items its recs \<noteq> [] then [(js ''Recent'', recent_items its recs)] else []"]
  show ?thesis by (auto simp: palette_sections_def Let_def section_of_def)
qed

text \<open>So the actions on an open file whose name is \<open>Recent\<close> are listed among the files opened last, and
  without the hint that would tell them apart, since it equals the name of that section.\<close>

lemma actions_of_a_file_named_Recent:
  assumes "it \<in> set its" "p_group it = Some (js ''Recent'')"
  shows "it \<in> set (section_of (js ''Recent'') (palette_sections its recs))"
  using assms by (simp add: sections_under truthy_def js_def)

text \<open>At most five files opened last, each one in the tree.\<close>

lemma recent_items_files:
  "length (recent_items its recs) \<le> RECENT"
  "it \<in> set (recent_items its recs) \<Longrightarrow> it \<in> set its \<and> p_kind it = js ''file'' \<and> p_label it \<in> set recs"
proof -
  show "length (recent_items its recs) \<le> RECENT" by (simp add: recent_items_def Let_def)
  assume "it \<in> set (recent_items its recs)"
  then obtain p where p: "p \<in> set recs" "map_of (rev (map (\<lambda>it. (p_label it, it)) (filter (\<lambda>it. p_kind it = js ''file'') its))) p = Some it"
    by (auto simp: recent_items_def Let_def List.map_filter_def dest!: in_set_takeD split: if_splits)
  from map_of_SomeD [OF p(2)] p(1) show "it \<in> set its \<and> p_kind it = js ''file'' \<and> p_label it \<in> set recs" by auto
qed

end
