(* ===== verification/Shell.thy ===== *)
theory Shell
  imports Feed Conflict Util
begin

section \<open>The frame of the app: sidebar, drawer and width (components/shell.tsx)\<close>

text \<open>
  The sidebar is an off-canvas drawer in a narrow window and a column that collapses to a rail in a wide
  one. Its state is in the classes of the body, not in React, and one function, \<open>syncSidebarInert\<close>,
  derives from it what the keyboard can reach. Every handler of the module, the listeners of the window
  and the effect of fullscreen (\<open>apps/Browser.tsx\<close>) is one step. The reading of a number from a stored
  text, \<open>toLowerCase\<close> and the measured widths are arguments; the storage may refuse to be read or written.
\<close>

subsection \<open>State\<close>

datatype FocusAsk = NavFocus | MenuFocus

text \<open>A drag is one closure of \<open>onPointerDown\<close>: the left edge it measured and the width it last set.\<close>

record AppFrame =
  win_width :: nat
  shown :: bool
  sb_open :: bool
  sb_collapsed :: bool
  sb_resizing :: bool
  full_view :: bool
  sb_inert :: bool
  main_inert :: bool
  aria_modal :: bool
  menu_expanded :: bool
  focus_asked :: "FocusAsk option"
  sb_width :: "int option"
  drags :: "(rat \<times> int option) list"
  can_write :: bool
  kept_collapse :: "jstr option"
  kept_width :: "jstr option"

definition SIDEBAR_BREAKPOINT :: nat where "SIDEBAR_BREAKPOINT = 900"
definition SIDEBAR_MIN :: int where "SIDEBAR_MIN = 210"
definition SIDEBAR_MAX :: int where "SIDEBAR_MAX = 480"

subsection \<open>What the keyboard reaches\<close>

definition mobile :: "AppFrame \<Rightarrow> bool" where
  "mobile s \<longleftrightarrow> win_width s \<le> SIDEBAR_BREAKPOINT"

definition syncSidebarInert :: "AppFrame \<Rightarrow> AppFrame" where
  "syncSidebarInert s =
     (if \<not> shown s then s
      else let hidden = (if mobile s then \<not> sb_open s else sb_collapsed s)
           in s\<lparr>sb_inert := (mobile s \<and> \<not> sb_open s), main_inert := (sb_open s \<and> mobile s),
                aria_modal := (sb_open s \<and> mobile s), menu_expanded := \<not> hidden\<rparr>)"

subsection \<open>Opening and collapsing\<close>

definition toggleDrawer :: "AppFrame \<Rightarrow> AppFrame" where
  "toggleDrawer s =
     (let opening = \<not> sb_open s
      in (syncSidebarInert (s\<lparr>sb_open := opening\<rparr>))\<lparr>focus_asked := Some (if opening then NavFocus else MenuFocus)\<rparr>)"

definition setCollapsed :: "bool \<Rightarrow> AppFrame \<Rightarrow> AppFrame" where
  "setCollapsed c s =
     syncSidebarInert (let s = s\<lparr>sb_collapsed := c\<rparr>
                       in if can_write s then s\<lparr>kept_collapse := Some (js (if c then ''1'' else ''0''))\<rparr> else s)"

definition toggleSidebar :: "AppFrame \<Rightarrow> AppFrame" where
  "toggleSidebar s = (if win_width s \<le> SIDEBAR_BREAKPOINT then toggleDrawer s else setCollapsed (\<not> sb_collapsed s) s)"

definition closeSidebarOnMobile :: "AppFrame \<Rightarrow> AppFrame" where
  "closeSidebarOnMobile s =
     (let wasOpen = sb_open s; s = syncSidebarInert (s\<lparr>sb_open := False\<rparr>)
      in if wasOpen \<and> win_width s \<le> SIDEBAR_BREAKPOINT then s\<lparr>focus_asked := Some MenuFocus\<rparr> else s)"

text \<open>The target of a key: \<open>None\<close> for a node without a tag name.\<close>

record KeyTarget =
  tagName :: jstr
  isContentEditable :: bool
  in_editor :: bool

definition isEditingTarget :: "KeyTarget option \<Rightarrow> bool" where
  "isEditingTarget t =
     (case t of None \<Rightarrow> False
      | Some el \<Rightarrow> tagName el \<in> {js ''INPUT'', js ''TEXTAREA'', js ''SELECT''} \<or> isContentEditable el \<or> in_editor el)"

record ShellKey =
  sk_key :: jstr
  sk_meta :: bool
  sk_ctrl :: bool
  sk_alt :: bool
  sk_shift :: bool
  sk_target :: "KeyTarget option"

definition window_key :: "(jstr \<Rightarrow> jstr) \<Rightarrow> ShellKey \<Rightarrow> AppFrame \<Rightarrow> AppFrame" where
  "window_key lower e s =
     (if sk_key e = js ''Escape'' \<and> sb_open s then closeSidebarOnMobile s
      else let kn = lower (sk_key e)
           in if (sk_meta e \<or> sk_ctrl e) \<and> \<not> sk_alt e \<and> \<not> sk_shift e \<and> (kn = js ''b'' \<or> kn = [92])
              then (if kn = js ''b'' \<and> isEditingTarget (sk_target e) then s else toggleSidebar s)
              else s)"

subsection \<open>The width\<close>

definition clampWidth :: "rat \<Rightarrow> int" where
  "clampWidth px = js_round (min (of_int SIDEBAR_MAX) (max (of_int SIDEBAR_MIN) px))"

definition applySidebarWidth :: "int option \<Rightarrow> AppFrame \<Rightarrow> AppFrame" where
  "applySidebarWidth px s = s\<lparr>sb_width := px\<rparr>"

definition saveSidebarWidth :: "int option \<Rightarrow> AppFrame \<Rightarrow> AppFrame" where
  "saveSidebarWidth px s = (if can_write s then s\<lparr>kept_width := map_option int_str px\<rparr> else s)"

definition resize_down :: "nat \<Rightarrow> rat \<Rightarrow> AppFrame \<Rightarrow> AppFrame" where
  "resize_down btn left s = (if btn \<noteq> 0 then s else s\<lparr>sb_resizing := True, drags := drags s @ [(left, None)]\<rparr>)"

text \<open>Every drag in progress hears the move, in the order they began; the last one's width stays.\<close>

definition resize_move :: "rat \<Rightarrow> AppFrame \<Rightarrow> AppFrame" where
  "resize_move x s =
     (let ds = map (\<lambda>(left, w). (left, Some (clampWidth (x - left)))) (drags s)
      in if ds = [] then s else applySidebarWidth (snd (last ds)) (s\<lparr>drags := ds\<rparr>))"

text \<open>\<open>up\<close> is also the handler of \<open>pointercancel\<close>.\<close>

fun save_drags :: "(rat \<times> int option) list \<Rightarrow> AppFrame \<Rightarrow> AppFrame" where
  "save_drags [] s = s"
| "save_drags ((left, w) # ds) s = save_drags ds (if w \<noteq> None then saveSidebarWidth w s else s)"

definition resize_up :: "AppFrame \<Rightarrow> AppFrame" where
  "resize_up s = (if drags s = [] then s else save_drags (drags s) (s\<lparr>drags := [], sb_resizing := False\<rparr>))"

definition reset_width :: "AppFrame \<Rightarrow> AppFrame" where
  "reset_width s = saveSidebarWidth None (applySidebarWidth None s)"

definition resize_key :: "jstr \<Rightarrow> bool \<Rightarrow> rat \<Rightarrow> AppFrame \<Rightarrow> AppFrame" where
  "resize_key kn shift measured s =
     (let step = (if shift then 32 else 8);
          delta = (if kn = js ''ArrowLeft'' then - step else if kn = js ''ArrowRight'' then step else 0)
      in if delta = 0 then s
         else let width = Some (clampWidth (measured + delta)) in saveSidebarWidth width (applySidebarWidth width s))"

subsection \<open>Loading the module, and the frame's life\<close>

definition restored_width :: "(jstr option \<Rightarrow> rat option) \<Rightarrow> jstr option \<Rightarrow> int option" where
  "restored_width num kept = (case num kept of None \<Rightarrow> None | Some v \<Rightarrow> if v \<noteq> 0 then Some (clampWidth v) else None)"

definition load_shell :: "(jstr option \<Rightarrow> rat option) \<Rightarrow> nat \<Rightarrow> bool \<Rightarrow> bool \<Rightarrow> jstr option \<Rightarrow> jstr option \<Rightarrow> AppFrame" where
  "load_shell num win readable writable kw kc =
     \<lparr>win_width = win, shown = False, sb_open = False, sb_collapsed = (readable \<and> kc = Some (js ''1'')),
      sb_resizing = False, full_view = False, sb_inert = False, main_inert = False, aria_modal = False, menu_expanded = False,
      focus_asked = None, sb_width = (if readable then restored_width num kw else None), drags = [],
      can_write = writable, kept_collapse = kc, kept_width = kw\<rparr>"

text \<open>The elements of a frame that is mounted again are new; \<open>sidebarInert\<close> is the reference callback.\<close>

definition mount_shell :: "AppFrame \<Rightarrow> AppFrame" where
  "mount_shell s = syncSidebarInert (s\<lparr>shown := True, sb_inert := False, main_inert := False, aria_modal := False, menu_expanded := False\<rparr>)"

definition unmount_shell :: "AppFrame \<Rightarrow> AppFrame" where
  "unmount_shell s = s\<lparr>shown := False\<rparr>"

definition window_resized :: "nat \<Rightarrow> AppFrame \<Rightarrow> AppFrame" where
  "window_resized w s = syncSidebarInert (s\<lparr>win_width := w\<rparr>)"

definition enter_full :: "AppFrame \<Rightarrow> AppFrame" where
  "enter_full s = syncSidebarInert (s\<lparr>full_view := True, sb_open := False\<rparr>)"

definition leave_full :: "AppFrame \<Rightarrow> AppFrame" where
  "leave_full s = syncSidebarInert (s\<lparr>full_view := False\<rparr>)"

text \<open>\<open>linkProps\<close> of \<open>nav.ts\<close>: where the click of an in-app link navigates, and what it does to the drawer.\<close>

definition link_target :: "Click \<Rightarrow> jstr \<Rightarrow> jstr option" where
  "link_target e href = (if \<not> internal_link href \<or> prevented e \<or> modified e \<or> button e \<noteq> 0 then None else Some href)"

definition follow_link :: "Click \<Rightarrow> jstr \<Rightarrow> AppFrame \<Rightarrow> AppFrame" where
  "follow_link e href s = (if link_target e href = None then s else s\<lparr>sb_open := False\<rparr>)"

datatype ShellEvent = Mounts | Unmounts | WindowResized nat | MenuClicked | CloseDrawer | KeyPressed ShellKey
  | EntersFull | LeavesFull | PointerDown nat rat | PointerMove rat | PointerUp | DoubleClick | ResizeKey jstr bool rat
  | ClicksLink Click jstr

fun shell_step :: "(jstr \<Rightarrow> jstr) \<Rightarrow> AppFrame \<Rightarrow> ShellEvent \<Rightarrow> AppFrame" where
  "shell_step lower s Mounts = mount_shell s"
| "shell_step lower s Unmounts = unmount_shell s"
| "shell_step lower s (WindowResized w) = window_resized w s"
| "shell_step lower s MenuClicked = toggleSidebar s"
| "shell_step lower s CloseDrawer = closeSidebarOnMobile s"
| "shell_step lower s (KeyPressed e) = window_key lower e s"
| "shell_step lower s EntersFull = enter_full s"
| "shell_step lower s LeavesFull = leave_full s"
| "shell_step lower s (PointerDown b l) = resize_down b l s"
| "shell_step lower s (PointerMove x) = resize_move x s"
| "shell_step lower s PointerUp = resize_up s"
| "shell_step lower s DoubleClick = reset_width s"
| "shell_step lower s (ResizeKey k sh m) = resize_key k sh m s"
| "shell_step lower s (ClicksLink e href) = follow_link e href s"

subsection \<open>The attributes are in step with the classes\<close>

definition in_step :: "AppFrame \<Rightarrow> bool" where
  "in_step s \<longleftrightarrow> (shown s \<longrightarrow>
     sb_inert s = (mobile s \<and> \<not> sb_open s) \<and> main_inert s = (mobile s \<and> sb_open s) \<and> aria_modal s = main_inert s
     \<and> menu_expanded s = (if mobile s then sb_open s else \<not> sb_collapsed s))"

lemma sync_in_step: "in_step (syncSidebarInert s)"
  by (auto simp: in_step_def syncSidebarInert_def mobile_def Let_def)

lemma in_step_simps [simp]:
  "in_step (s\<lparr>focus_asked := f\<rparr>) = in_step s" "in_step (s\<lparr>sb_width := w\<rparr>) = in_step s" "in_step (s\<lparr>drags := ds\<rparr>) = in_step s"
  "in_step (s\<lparr>kept_width := kw\<rparr>) = in_step s" "in_step (s\<lparr>sb_resizing := b\<rparr>) = in_step s" "in_step (s\<lparr>shown := False\<rparr>)"
  by (simp_all add: in_step_def mobile_def)

lemma save_in_step: "in_step (saveSidebarWidth px s) = in_step s" "in_step (save_drags ds s) = in_step s"
proof -
  show save: "in_step (saveSidebarWidth px s) = in_step s" for px and s :: AppFrame
    by (simp add: saveSidebarWidth_def)
  show "in_step (save_drags ds s) = in_step s"
    by (induction ds s rule: save_drags.induct) (simp_all add: save)
qed

lemmas shell_ops = toggleDrawer_def setCollapsed_def toggleSidebar_def closeSidebarOnMobile_def window_key_def mount_shell_def
  unmount_shell_def window_resized_def enter_full_def leave_full_def resize_down_def resize_move_def resize_up_def
  reset_width_def resize_key_def applySidebarWidth_def follow_link_def Let_def

text \<open>Following a link is the one step that changes a class without deriving the attributes again.\<close>

fun is_link :: "ShellEvent \<Rightarrow> bool" where
  "is_link (ClicksLink e href) = True"
| "is_link e = False"

lemma shell_in_step: "in_step s \<Longrightarrow> \<not> is_link e \<Longrightarrow> in_step (shell_step lower s e)"
  by (cases e) (simp_all add: shell_ops sync_in_step save_in_step)

lemma run_in_step: "in_step s \<Longrightarrow> \<not> list_ex is_link es \<Longrightarrow> in_step (foldl (shell_step lower) s es)"
  by (induction es arbitrary: s) (simp_all add: shell_in_step)

lemma load_in_step: "in_step (load_shell num win readable writable kw kc)"
  by (simp add: in_step_def load_shell_def)


subsection \<open>The width stays in its bounds\<close>

lemma clampWidth_bounds: "SIDEBAR_MIN \<le> clampWidth px" "clampWidth px \<le> SIDEBAR_MAX"
proof -
  have "\<lfloor>(210 :: rat)\<rfloor> \<le> clampWidth px" unfolding clampWidth_def js_round_def SIDEBAR_MIN_def SIDEBAR_MAX_def
    by (intro floor_mono) simp
  moreover have "clampWidth px \<le> \<lfloor>480 + 1 / 2 :: rat\<rfloor>" unfolding clampWidth_def js_round_def SIDEBAR_MIN_def SIDEBAR_MAX_def
    by (intro floor_mono) simp
  moreover have "\<lfloor>480 + 1 / 2 :: rat\<rfloor> = 480" by (simp add: floor_eq_iff)
  ultimately show "SIDEBAR_MIN \<le> clampWidth px" "clampWidth px \<le> SIDEBAR_MAX"
    by (simp_all add: SIDEBAR_MIN_def SIDEBAR_MAX_def)
qed

lemma clampWidth_id: "SIDEBAR_MIN \<le> w \<Longrightarrow> w \<le> SIDEBAR_MAX \<Longrightarrow> clampWidth (of_int w) = w"
  by (simp add: clampWidth_def js_round_def SIDEBAR_MIN_def SIDEBAR_MAX_def min_def max_def floor_unique)

definition within_bounds :: "int option \<Rightarrow> bool" where
  "within_bounds w = (case w of None \<Rightarrow> True | Some v \<Rightarrow> SIDEBAR_MIN \<le> v \<and> v \<le> SIDEBAR_MAX)"

lemma within_bounds_simps [simp]: "within_bounds None" "within_bounds (Some (clampWidth px))"
  by (simp_all add: within_bounds_def clampWidth_bounds)

lemma sync_keeps [simp]:
  "sb_width (syncSidebarInert s) = sb_width s" "drags (syncSidebarInert s) = drags s" "sb_collapsed (syncSidebarInert s) = sb_collapsed s"
  "can_write (syncSidebarInert s) = can_write s" "kept_width (syncSidebarInert s) = kept_width s"
  "kept_collapse (syncSidebarInert s) = kept_collapse s" "sb_open (syncSidebarInert s) = sb_open s" "shown (syncSidebarInert s) = shown s"
  "win_width (syncSidebarInert s) = win_width s" "full_view (syncSidebarInert s) = full_view s"
  by (simp_all add: syncSidebarInert_def Let_def)

lemma save_keeps [simp]:
  "sb_width (saveSidebarWidth px s) = sb_width s" "drags (saveSidebarWidth px s) = drags s"
  "can_write (saveSidebarWidth px s) = can_write s" "kept_collapse (saveSidebarWidth px s) = kept_collapse s"
  "sb_collapsed (saveSidebarWidth px s) = sb_collapsed s"
  by (simp_all add: saveSidebarWidth_def)

lemma save_drags_keeps [simp]:
  "sb_width (save_drags ds s) = sb_width s" "drags (save_drags ds s) = drags s" "can_write (save_drags ds s) = can_write s"
  "kept_collapse (save_drags ds s) = kept_collapse s" "sb_collapsed (save_drags ds s) = sb_collapsed s"
  by (induction ds s rule: save_drags.induct) simp_all

lemma step_in_bounds: "within_bounds (sb_width s) \<Longrightarrow> within_bounds (sb_width (shell_step lower s e))"
  by (cases e) (auto simp: shell_ops last_map case_prod_beta)

lemma run_in_bounds: "within_bounds (sb_width s) \<Longrightarrow> within_bounds (sb_width (foldl (shell_step lower) s es))"
  by (induction es arbitrary: s) (simp_all add: step_in_bounds)

lemma load_in_bounds: "within_bounds (sb_width (load_shell num win readable writable kw kc))"
  by (simp add: load_shell_def restored_width_def split: option.splits)

text \<open>As long as no link is clicked the attributes say what the classes say, whatever happens to the frame:
  the closed drawer of a narrow window cannot be reached, the page behind the open one cannot either, so
  one of the two always can.\<close>

lemma app_frame_in_step:
  assumes "shown (foldl (shell_step lower) (load_shell num win readable writable kw kc) es)" "\<not> list_ex is_link es"
  shows "let s = foldl (shell_step lower) (load_shell num win readable writable kw kc) es
     in sb_inert s = (mobile s \<and> \<not> sb_open s) \<and> main_inert s = (mobile s \<and> sb_open s) \<and> aria_modal s = main_inert s
      \<and> menu_expanded s = (if mobile s then sb_open s else \<not> sb_collapsed s) \<and> \<not> (sb_inert s \<and> main_inert s)"
  using run_in_step [OF load_in_step assms(2)] assms(1) by (simp add: in_step_def Let_def)

text \<open>The events that derive nothing: links, the pointer and the keys on the separator, and the keys the
  listener of the window does not act on, the shortcut of the palette among them. The others are the
  shortcut of the sidebar, the menu button, what closes the drawer (the scrim, a file chosen in the tree
  or in the palette), the width of the window, fullscreen, and the frame's mounting.\<close>

definition sidebar_shortcut :: "(jstr \<Rightarrow> jstr) \<Rightarrow> ShellKey \<Rightarrow> bool" where
  "sidebar_shortcut lower e \<longleftrightarrow> (sk_meta e \<or> sk_ctrl e) \<and> \<not> sk_alt e \<and> \<not> sk_shift e
     \<and> (lower (sk_key e) = js ''b'' \<and> \<not> isEditingTarget (sk_target e) \<or> lower (sk_key e) = [92])"

fun derives_nothing :: "(jstr \<Rightarrow> jstr) \<Rightarrow> ShellEvent \<Rightarrow> bool" where
  "derives_nothing lower (ClicksLink e href) = True"
| "derives_nothing lower (KeyPressed e) = (\<not> sidebar_shortcut lower e)"
| "derives_nothing lower (PointerDown b l) = True"
| "derives_nothing lower (PointerMove x) = True"
| "derives_nothing lower PointerUp = True"
| "derives_nothing lower DoubleClick = True"
| "derives_nothing lower (ResizeKey k sh m) = True"
| "derives_nothing lower e = False"

lemma save_inert [simp]:
  "main_inert (saveSidebarWidth px s) = main_inert s" "sb_open (saveSidebarWidth px s) = sb_open s"
  "main_inert (save_drags ds s) = main_inert s" "sb_open (save_drags ds s) = sb_open s"
proof -
  show "main_inert (saveSidebarWidth px s) = main_inert s" "sb_open (saveSidebarWidth px s) = sb_open s"
    by (simp_all add: saveSidebarWidth_def)
  show "main_inert (save_drags ds s) = main_inert s" "sb_open (save_drags ds s) = sb_open s"
    by (induction ds s rule: save_drags.induct) (simp_all add: saveSidebarWidth_def)
qed

lemma window_key_closed:
  "\<not> sb_open s \<Longrightarrow> window_key lower e s = (if sidebar_shortcut lower e then toggleSidebar s else s)"
  by (auto simp: window_key_def sidebar_shortcut_def Let_def js_def)

lemma nothing_derived:
  assumes "derives_nothing lower e" "\<not> sb_open s"
  shows "main_inert (shell_step lower s e) = main_inert s" "\<not> sb_open (shell_step lower s e)"
proof -
  have "main_inert (shell_step lower s e) = main_inert s \<and> \<not> sb_open (shell_step lower s e)"
  proof (cases e)
    case (KeyPressed k)
    with assms show ?thesis by (simp add: window_key_closed)
  qed (use assms in \<open>simp_all add: shell_ops\<close>)
  then show "main_inert (shell_step lower s e) = main_inert s" "\<not> sb_open (shell_step lower s e)" by simp_all
qed

lemma nothing_derived_run:
  assumes "list_all (derives_nothing lower) fs" "\<not> sb_open s"
  shows "main_inert (foldl (shell_step lower) s fs) = main_inert s" "\<not> sb_open (foldl (shell_step lower) s fs)"
  using assms by (induction fs arbitrary: s) (simp_all add: nothing_derived)

lemma something_derived:
  assumes "\<not> derives_nothing lower e" "\<not> sb_open s"
  shows "in_step (shell_step lower s e)"
proof (cases e)
  case (KeyPressed k)
  with assms show ?thesis
    by (simp add: window_key_closed toggleSidebar_def toggleDrawer_def setCollapsed_def sync_in_step Let_def)
next
  case Unmounts
  then show ?thesis by (simp add: in_step_def unmount_shell_def)
qed (use assms in \<open>simp_all add: shell_ops sync_in_step\<close>)

text \<open>C24: A link followed from the open drawer leaves a dead page. In a narrow window, whatever happened
  before (links aside), when the drawer is open and an in-app link is clicked, as Organization settings
  and Connected agents are in the menu of an open project, the drawer closes but the page stays inert,
  its menu button with it. It stays so through every further link, every gesture and key on the
  separator, and every key but the shortcut of the sidebar (Ctrl or Command with the backslash, or with B
  outside an editor). The exceptions are the events that derive the attributes again: that shortcut, the
  menu button (itself inert), whatever closes the drawer, as choosing a file through the palette or
  clicking the scrim does, a change of the window's size, entering or leaving fullscreen, and the frame
  being mounted again. After the first of them the attributes say what the classes say.\<close>

theorem link_leaves_page_inert:
  assumes "\<not> list_ex is_link es" "s = foldl (shell_step lower) (load_shell num win readable writable kw kc) es"
    and "shown s" "mobile s" "sb_open s" "link_target e href \<noteq> None" "list_all (derives_nothing lower) fs"
    and "t = foldl (shell_step lower) s (ClicksLink e href # fs)"
  shows "main_inert t \<and> \<not> sb_open t \<and> \<not> in_step (s\<lparr>sb_open := False\<rparr>)
    \<and> (\<not> derives_nothing lower g \<longrightarrow> in_step (shell_step lower t g))"
proof -
  let ?c = "s\<lparr>sb_open := False\<rparr>"
  have step: "shell_step lower s (ClicksLink e href) = ?c" using assms(6) by (auto simp: follow_link_def)
  have inert: "main_inert ?c" using run_in_step [OF load_in_step assms(1)] assms(2-5) by (auto simp: in_step_def)
  have t: "t = foldl (shell_step lower) ?c fs" using assms(8) step by simp
  have "main_inert t" "\<not> sb_open t" using nothing_derived_run [OF assms(7), of ?c] inert t by simp_all
  moreover have "\<not> in_step ?c" using inert assms(3) by (auto simp: in_step_def)
  ultimately show ?thesis using something_derived [of lower g t] by blast
qed

text \<open>The drawer of a project is opened, a link clicked, the palette opened by Ctrl+K, and a file chosen in it.\<close>

definition ctrl_key :: "nat list \<Rightarrow> ShellEvent" where
  "ctrl_key k = KeyPressed \<lparr>sk_key = k, sk_meta = False, sk_ctrl = True, sk_alt = False, sk_shift = False, sk_target = None\<rparr>"

definition drawer_open :: AppFrame where
  "drawer_open = foldl (shell_step id) (load_shell (\<lambda>_. None) 400 True True None None) [Mounts, MenuClicked]"

definition after_link :: AppFrame where
  "after_link = foldl (shell_step id) drawer_open
     (ClicksLink \<lparr>prevented = False, modified = False, button = 0\<rparr> (js ''/connections'') # [PointerUp, ctrl_key (js ''k'')])"

lemma link_leaves_page_inert_witness:
  "main_inert after_link \<and> \<not> sb_open after_link \<and> \<not> in_step (drawer_open\<lparr>sb_open := False\<rparr>)
   \<and> in_step (shell_step id after_link CloseDrawer) \<and> \<not> main_inert (shell_step id after_link CloseDrawer)"
proof -
  have "link_target \<lparr>prevented = False, modified = False, button = 0\<rparr> (js ''/connections'') \<noteq> None" by code_simp
  moreover have "shown drawer_open" "mobile drawer_open" "sb_open drawer_open" by code_simp+
  moreover have "list_all (derives_nothing id) [PointerUp, ctrl_key (js ''k'')]" by code_simp
  moreover have "\<not> list_ex is_link [Mounts, MenuClicked]" "\<not> derives_nothing id CloseDrawer" by simp_all
  ultimately have "main_inert after_link \<and> \<not> sb_open after_link \<and> \<not> in_step (drawer_open\<lparr>sb_open := False\<rparr>)
      \<and> in_step (shell_step id after_link CloseDrawer)"
    using link_leaves_page_inert [OF _ drawer_open_def _ _ _ _ _ after_link_def, of CloseDrawer] by blast
  moreover have "\<not> main_inert (shell_step id after_link CloseDrawer)" by code_simp
  ultimately show ?thesis by blast
qed

text \<open>Fullscreen hides the sidebar, its scrim and the topbar by style. The shortcut still opens the drawer
  of a narrow window there: the page, with the control that leaves fullscreen in it, becomes unreachable
  behind a drawer that is not on screen.\<close>

lemma drawer_behind_fullscreen:
  assumes "full_view s" "shown s" "mobile s" "\<not> sb_open s" "sk_key e = [92]" "sk_ctrl e" "\<not> sk_alt e" "\<not> sk_shift e" "lower [92] = [92]"
  shows "full_view (window_key lower e s) \<and> main_inert (window_key lower e s)"
  using assms by (simp add: window_key_def toggleSidebar_def mobile_def toggleDrawer_def syncSidebarInert_def js_def Let_def)

subsection \<open>A reload paints what was painted\<close>

text \<open>What is painted and what is kept, between gestures and during a drag.\<close>

definition kept_ok :: "(jstr option \<Rightarrow> rat option) \<Rightarrow> AppFrame \<Rightarrow> bool" where
  "kept_ok num s \<longleftrightarrow> can_write s \<and> sb_collapsed s = (kept_collapse s = Some (js ''1''))
     \<and> (case drags s of [] \<Rightarrow> sb_width s = restored_width num (kept_width s)
        | [(left, None)] \<Rightarrow> sb_width s = restored_width num (kept_width s)
        | [(left, Some w)] \<Rightarrow> sb_width s = Some w \<and> within_bounds (Some w)
        | _ \<Rightarrow> False)"

text \<open>One gesture at a time: while a drag lasts, neither a second one nor the keys or the reset of the
  same handle.\<close>

fun one_at_a_time :: "(jstr \<Rightarrow> jstr) \<Rightarrow> AppFrame \<Rightarrow> ShellEvent list \<Rightarrow> bool" where
  "one_at_a_time lower s [] = True"
| "one_at_a_time lower s (e # es) =
     ((drags s = [] \<or> (case e of PointerDown b l \<Rightarrow> False | DoubleClick \<Rightarrow> False | ResizeKey k sh m \<Rightarrow> False | _ \<Rightarrow> True))
      \<and> one_at_a_time lower (shell_step lower s e) es)"

lemma step_kept_ok:
  assumes num: "num None = Some 0" "\<And>w. SIDEBAR_MIN \<le> w \<Longrightarrow> w \<le> SIDEBAR_MAX \<Longrightarrow> num (Some (int_str w)) = Some (of_int w)"
    and "kept_ok num s" "one_at_a_time lower s [e]"
  shows "kept_ok num (shell_step lower s e)"
proof -
  have r: "restored_width num (Some (int_str w)) = Some w" if "within_bounds (Some w)" for w
    using that num(2) [of w] by (auto simp: within_bounds_def restored_width_def clampWidth_id SIDEBAR_MIN_def)
  have n: "restored_width num None = None" by (simp add: restored_width_def num(1))
  consider "drags s = []" | l where "drags s = [(l, None)]" | l w where "drags s = [(l, Some w)]"
    using assms(3) by (auto simp: kept_ok_def split: list.splits option.splits prod.splits)
  then show ?thesis
  proof cases
    case 1
    with assms(3) show ?thesis
      by (cases e) (simp_all add: kept_ok_def shell_ops saveSidebarWidth_def r n js_def)
  next
    case 2
    with assms(3,4) show ?thesis
      by (cases e) (simp_all add: kept_ok_def shell_ops saveSidebarWidth_def r n js_def)
  next
    case 3
    with assms(3,4) show ?thesis
      by (cases e) (simp_all add: kept_ok_def shell_ops saveSidebarWidth_def r n js_def)
  qed
qed

text \<open>C25: The layout survives a reload. When the storage can be read and written and one gesture happens at
  a time, then after any sequence of toggles, shortcuts, drags, arrow keys, resets, fullscreens and
  changes of the window, loading the module again paints the width and the collapse that were painted,
  whatever the two keys held before.\<close>

theorem layout_survives_reload:
  assumes "num None = Some 0" "\<And>w. SIDEBAR_MIN \<le> w \<Longrightarrow> w \<le> SIDEBAR_MAX \<Longrightarrow> num (Some (int_str w)) = Some (of_int w)"
    and "one_at_a_time lower (load_shell num win True True kw kc) es"
    and "drags (foldl (shell_step lower) (load_shell num win True True kw kc) es) = []"
  shows "let s = foldl (shell_step lower) (load_shell num win True True kw kc) es;
             s' = load_shell num (win_width s) True True (kept_width s) (kept_collapse s)
         in sb_width s' = sb_width s \<and> sb_collapsed s' = sb_collapsed s"
proof -
  have "kept_ok num (foldl (shell_step lower) s es)" if "kept_ok num s" "one_at_a_time lower s es" for s
    using that by (induction es arbitrary: s) (simp_all add: step_kept_ok [OF assms(1,2)])
  moreover have "kept_ok num (load_shell num win True True kw kc)" by (simp add: kept_ok_def load_shell_def)
  ultimately have "kept_ok num (foldl (shell_step lower) (load_shell num win True True kw kc) es)" using assms(3) by blast
  with assms(4) show ?thesis by (simp add: kept_ok_def Let_def load_shell_def)
qed

definition w_number :: "jstr option \<Rightarrow> rat option" where
  "w_number k = (case k of None \<Rightarrow> Some 0 | Some t \<Rightarrow> if list_all is_digit t then Some (of_nat (digits_val t)) else None)"

lemma layout_survives_reload_witness:
  "let s = foldl (shell_step id) (load_shell w_number 1200 True True None None) [Mounts, PointerDown 0 0, PointerMove 300, PointerUp, MenuClicked];
       s' = load_shell w_number (win_width s) True True (kept_width s) (kept_collapse s)
   in sb_width s' = sb_width s \<and> sb_collapsed s' = sb_collapsed s"
proof (rule layout_survives_reload)
  show "w_number None = Some 0" by (simp add: w_number_def)
  show "w_number (Some (int_str w)) = Some (of_int w)" if "SIDEBAR_MIN \<le> w" for w
    using that nat_str_digits [of "nat w"] by (simp add: w_number_def int_str_def SIDEBAR_MIN_def list_all_iff)
qed (simp_all add: shell_ops load_shell_def)

end
