(* ===== verification/Sharing.thy ===== *)
theory Sharing
  imports Browser Util Insights
begin

section \<open>Sharing: the dialog, the table of links, the questions (ShareDialog.tsx, SharesTable.tsx, modal.tsx)\<close>

text \<open>
  The dialog that says who may open a file or a folder. A folder's rule is written whole; a public link
  is minted, given a lifetime and revoked. Each request is a job that the answer of the hub settles, in
  whatever order the answers come. The listing of links and the rules are the query library's, so a new
  listing is an event. \<open>toLowerCase\<close> and the wording of dates are arguments. Then the questions of the
  app (\<open>modal.tsx\<close>), one at a time.
\<close>

subsection \<open>The rule of a folder\<close>

text \<open>A rule with its default level (empty: the project's) and the people it names.\<close>

record FolderRule =
  fr_prefix :: jstr
  fr_default :: jstr
  fr_grants :: "(jstr \<times> jstr) list"

text \<open>A plain object of levels by address: assignment keeps the place of a key it has.\<close>

fun set_perm :: "jstr \<Rightarrow> jstr \<Rightarrow> (jstr \<times> jstr) list \<Rightarrow> (jstr \<times> jstr) list" where
  "set_perm e l [] = [(e, l)]"
| "set_perm e l ((k, m) # ps) = (if k = e then (k, l) # ps else (k, m) # set_perm e l ps)"

definition fromEntries :: "(jstr \<times> jstr) list \<Rightarrow> (jstr \<times> jstr) list" where
  "fromEntries gs = foldl (\<lambda>ps (e, l). set_perm e l ps) [] gs"

datatype ShareReq = PutRule jstr jstr "(jstr \<times> jstr) list" | DelRule jstr
  | MintReq jstr bool | RevokeReq jstr | ExpireReq jstr jstr

definition own_grants :: "FolderRule option \<Rightarrow> (jstr \<times> jstr) list" where
  "own_grants own = (case own of None \<Rightarrow> [] | Some ru \<Rightarrow> fr_grants ru)"

definition putRule :: "jstr \<Rightarrow> FolderRule option \<Rightarrow> jstr option \<Rightarrow> (jstr \<times> jstr) list option \<Rightarrow> ShareReq" where
  "putRule kn own lvl perms =
     (let ps = (case perms of Some ps \<Rightarrow> ps | None \<Rightarrow> fromEntries (own_grants own));
          l = (case lvl of Some l \<Rightarrow> l | None \<Rightarrow> (case own of None \<Rightarrow> [] | Some ru \<Rightarrow> fr_default ru))
      in if l = [] \<and> ps = [] then DelRule kn else PutRule kn l ps)"

text \<open>The three edits: the level of everyone, the level of one address, and a new address.\<close>

definition set_everyone :: "jstr \<Rightarrow> FolderRule option \<Rightarrow> jstr \<Rightarrow> ShareReq" where
  "set_everyone kn own l = putRule kn own (Some l) None"

definition set_grant :: "jstr \<Rightarrow> FolderRule option \<Rightarrow> jstr \<Rightarrow> jstr \<Rightarrow> ShareReq" where
  "set_grant kn own e l = putRule kn own None (Some (set_perm e l (fromEntries (own_grants own))))"

definition add_grant :: "(jstr \<Rightarrow> jstr) \<Rightarrow> jstr \<Rightarrow> FolderRule option \<Rightarrow> jstr \<Rightarrow> jstr \<Rightarrow> ShareReq" where
  "add_grant lower kn own e l = set_grant kn own (lower (trim e)) l"

text \<open>What a request leaves of the rule, as the route is documented: a put replaces it, a delete removes it.\<close>

definition rule_after :: "ShareReq \<Rightarrow> FolderRule option \<Rightarrow> FolderRule option" where
  "rule_after q ru =
     (case q of PutRule kn l ps \<Rightarrow> Some \<lparr>fr_prefix = kn, fr_default = l, fr_grants = ps\<rparr> | DelRule kn \<Rightarrow> None | _ \<Rightarrow> ru)"

definition level_of :: "FolderRule option \<Rightarrow> jstr" where
  "level_of ru = (case ru of None \<Rightarrow> [] | Some ru \<Rightarrow> fr_default ru)"

definition grant_of :: "FolderRule option \<Rightarrow> jstr \<Rightarrow> jstr option" where
  "grant_of ru e = map_of (own_grants ru) e"

lemma set_perm_map: "map_of (set_perm e l ps) = (map_of ps)(e \<mapsto> l)"
  by (induction ps) auto

lemma set_perm_dom: "fst ` set (set_perm e l ps) = insert e (fst ` set ps)"
  using arg_cong [OF set_perm_map [of e l ps], of dom] by (simp add: dom_map_of_conv_image_fst)

lemma set_perm_distinct: "distinct (map fst ps) \<Longrightarrow> distinct (map fst (set_perm e l ps))"
proof (induction ps)
  case (Cons p ps)
  then show ?case using set_perm_dom [of e l ps] by (cases p) (auto simp: image_iff)
qed simp

lemma set_perm_new: "e \<notin> fst ` set ps \<Longrightarrow> set_perm e l ps = ps @ [(e, l)]"
  by (induction ps) auto

lemma fromEntries_distinct: "distinct (map fst gs) \<Longrightarrow> fromEntries gs = gs"
proof -
  have "distinct (map fst (ps @ gs)) \<Longrightarrow> foldl (\<lambda>ps (e, l). set_perm e l ps) ps gs = ps @ gs" for ps
  proof (induction gs arbitrary: ps)
    case (Cons g gs)
    from Cons.IH [of "ps @ [g]"] Cons.prems show ?case by (cases g) (simp add: set_perm_new)
  qed simp
  from this [of "[]"] show "distinct (map fst gs) \<Longrightarrow> fromEntries gs = gs" by (simp add: fromEntries_def)
qed

lemma put_after:
  "level_of (rule_after (putRule kn own lvl perms) own) = (case lvl of Some l \<Rightarrow> l | None \<Rightarrow> level_of own)"
  "own_grants (rule_after (putRule kn own lvl perms) own) = (case perms of Some ps \<Rightarrow> ps | None \<Rightarrow> fromEntries (own_grants own))"
  by (simp_all add: putRule_def rule_after_def level_of_def own_grants_def Let_def split: option.splits)

text \<open>C22: An edit of a folder's sharing changes exactly what it says. Though every request replaces the whole
  rule, setting the level of one address leaves the level of everyone and every other address as they
  were, and setting the level of everyone leaves every address; a rule that says nothing is removed.\<close>

theorem folder_edit_exact:
  assumes "distinct (map fst (own_grants own))"
  shows "grant_of (rule_after (set_grant kn own e l) own) = (grant_of own)(e \<mapsto> l)
    \<and> level_of (rule_after (set_grant kn own e l) own) = level_of own
    \<and> grant_of (rule_after (set_everyone kn own l) own) = grant_of own
    \<and> level_of (rule_after (set_everyone kn own l) own) = l
    \<and> (rule_after (set_everyone kn own []) own = None) = (own_grants own = [])"
proof (intro conjI)
  show "grant_of (rule_after (set_grant kn own e l) own) = (grant_of own)(e \<mapsto> l)"
    "grant_of (rule_after (set_everyone kn own l) own) = grant_of own"
    using assms by (auto simp: grant_of_def set_grant_def set_everyone_def put_after set_perm_map fromEntries_distinct)
  show "level_of (rule_after (set_grant kn own e l) own) = level_of own" "level_of (rule_after (set_everyone kn own l) own) = l"
    by (simp_all add: set_grant_def set_everyone_def put_after)
  show "(rule_after (set_everyone kn own []) own = None) = (own_grants own = [])"
    using assms by (simp add: set_everyone_def putRule_def rule_after_def fromEntries_distinct Let_def)
qed

lemma folder_edit_exact_witness:
  "let own = Some \<lparr>fr_prefix = js ''d/'', fr_default = [], fr_grants = [(js ''a'', js ''read''), (js ''b'', js ''write'')]\<rparr>
   in grant_of (rule_after (set_grant (js ''d/'') own (js ''b'') (js ''none'')) own) = (grant_of own)(js ''b'' \<mapsto> js ''none'')
    \<and> level_of (rule_after (set_grant (js ''d/'') own (js ''b'') (js ''none'')) own) = level_of own
    \<and> grant_of (rule_after (set_everyone (js ''d/'') own (js ''none'')) own) = grant_of own
    \<and> level_of (rule_after (set_everyone (js ''d/'') own (js ''none'')) own) = js ''none''
    \<and> (rule_after (set_everyone (js ''d/'') own []) own = None) = (own_grants own = [])"
  unfolding Let_def by (rule folder_edit_exact) (simp add: own_grants_def js_def)


subsection \<open>What a folder's dialog says\<close>

definition share_key :: "bool \<Rightarrow> jstr \<Rightarrow> jstr" where
  "share_key dir p = (if dir then p @ [47] else p)"

definition own_rule :: "bool \<Rightarrow> jstr \<Rightarrow> FolderRule list \<Rightarrow> FolderRule option" where
  "own_rule dir p rls = (if dir then find (\<lambda>r'. fr_prefix r' = share_key dir p) rls else None)"

definition governing :: "bool \<Rightarrow> jstr \<Rightarrow> FolderRule list \<Rightarrow> FolderRule option" where
  "governing dir p rls = map_option snd (ruleFor (map (\<lambda>r'. (fr_prefix r', r')) rls) (share_key dir p))"

definition nested_rules :: "jstr \<Rightarrow> FolderRule list \<Rightarrow> FolderRule list" where
  "nested_rules kn rls = filter (\<lambda>r'. fr_prefix r' \<noteq> kn \<and> starts_with (fr_prefix r') kn) rls"

definition nested_note :: "FolderRule list \<Rightarrow> jstr option" where
  "nested_note ns =
     (case ns of [] \<Rightarrow> None
      | [r'] \<Rightarrow> Some (fr_prefix r' @ js '' has its own rule and keeps it '' @ [8212] @ js '' this does not reach inside it.'')
      | _ \<Rightarrow> Some (nat_str (length ns) @ js '' folders inside have their own rules and keep them '' @ [8212] @ js '' this does not reach inside them.''))"

definition share_title :: "jstr \<Rightarrow> jstr \<Rightarrow> jstr" where
  "share_title p pname = js ''Share '' @ [34] @ (if after_last 47 p \<noteq> [] then after_last 47 p else pname) @ [34]"

definition opens_folder :: "FolderRule \<Rightarrow> jstr" where
  "opens_folder r' = strip_end 47 (fr_prefix r')"

text \<open>The note is true: for whatever lies inside a folder it counts, the rule that decides is not this one.\<close>

lemma nested_rule_decides:
  assumes "n \<in> set (nested_rules kn rls)" "starts_with p (fr_prefix n)"
  shows "\<exists>q w. ruleFor (map (\<lambda>r'. (fr_prefix r', r')) rls) p = Some (q, w) \<and> length kn < length q"
proof -
  from assms(1) have n: "n \<in> set rls" "fr_prefix n \<noteq> kn" "starts_with (fr_prefix n) kn" by (auto simp: nested_rules_def)
  then have "length kn < length (fr_prefix n)" by (auto simp: starts_with_iff)
  with ruleFor_longest [of "map (\<lambda>r'. (fr_prefix r', r')) rls" p] n(1) assms(2) show ?thesis
    by (fastforce split: option.splits)
qed

subsection \<open>Links\<close>

record ShareInfo =
  si_token :: jstr
  si_url :: jstr
  si_path :: jstr
  si_project :: "jstr option"
  si_creator :: "jstr option"
  si_created :: "jstr option"
  si_expires :: "jstr option"
  si_opens :: "nat option"
  si_opened :: "jstr option"

definition expiryLabel :: "(jstr \<Rightarrow> jstr) \<Rightarrow> jstr option \<Rightarrow> jstr" where
  "expiryLabel day ex = (if truthy ex then js ''expires '' @ day (the ex) else js ''no expiry'')"

definition opensLabel :: "(jstr \<Rightarrow> jstr) \<Rightarrow> ShareInfo \<Rightarrow> jstr option" where
  "opensLabel day i =
     (case si_opens i of None \<Rightarrow> None
      | Some n \<Rightarrow>
          if n = 0 then Some (js ''not opened yet'')
          else let t = nat_str n @ js '' open'' @ (if n = 1 then [] else js ''s'')
               in Some (if truthy (si_opened i) then t @ DOT @ js ''last opened '' @ day (the (si_opened i)) else t))"

definition shareDetail :: "(jstr \<Rightarrow> jstr) \<Rightarrow> ShareInfo \<Rightarrow> bool \<Rightarrow> jstr" where
  "shareDetail day i showProject =
     join DOT
       ((if showProject \<and> truthy (si_project i) then [the (si_project i)] else [])
        @ (if truthy (si_creator i) then [js ''by '' @ the (si_creator i)] else [])
        @ (if truthy (si_created i) then [day (the (si_created i))] else [])
        @ [expiryLabel day (si_expires i)]
        @ (case opensLabel day i of None \<Rightarrow> [] | Some t \<Rightarrow> [t]))"

subsection \<open>The dialog of a file\<close>

text \<open>The dialog stays mounted while the page goes elsewhere under it (\<open>Browser.tsx\<close>): its path and kind
  are the page's, the rest is its own. A mint carries the path it was sent for, as its closure does.\<close>

datatype ShareJob = Minting jstr | CopyingLink | Revoking | Writing jstr | Expiring jstr

record ShareDlg =
  sg_path :: jstr
  sg_dir :: bool
  sg_canWrite :: bool
  sg_listing :: "ShareInfo list"
  sg_minted :: "ShareInfo option"
  sg_busy :: bool
  sg_pending :: "SecretFinding list option"
  sg_preset :: jstr
  sg_jobs :: "ShareJob list"
  sg_sent :: "ShareReq list"
  sg_said :: "(jstr \<times> bool) list"

definition share_opened :: "jstr \<Rightarrow> bool \<Rightarrow> bool \<Rightarrow> ShareInfo list \<Rightarrow> ShareDlg" where
  "share_opened p d cw rows' =
     \<lparr>sg_path = p, sg_dir = d, sg_canWrite = cw, sg_listing = rows', sg_minted = None, sg_busy = False, sg_pending = None, sg_preset = [],
      sg_jobs = [], sg_sent = [], sg_said = []\<rparr>"

definition link :: "ShareDlg \<Rightarrow> ShareInfo option" where
  "link s = (case find (\<lambda>i. si_path i = sg_path s) (sg_listing s) of Some i \<Rightarrow> Some i | None \<Rightarrow> sg_minted s)"

definition say :: "jstr \<Rightarrow> bool \<Rightarrow> ShareDlg \<Rightarrow> ShareDlg" where
  "say t bad s = s\<lparr>sg_said := sg_said s @ [(t, bad)]\<rparr>"

definition send_req :: "ShareReq \<Rightarrow> ShareJob \<Rightarrow> ShareDlg \<Rightarrow> ShareDlg" where
  "send_req q j s = s\<lparr>sg_sent := sg_sent s @ [q], sg_jobs := sg_jobs s @ [j]\<rparr>"

definition mint :: "bool \<Rightarrow> ShareDlg \<Rightarrow> ShareDlg" where
  "mint confirm s = send_req (MintReq (sg_path s) confirm) (Minting (sg_path s)) (s\<lparr>sg_busy := True\<rparr>)"

datatype MintOutcome = Findings "SecretFinding list" | MintFailed jstr | MintedAs jstr jstr

definition minted_row :: "jstr \<Rightarrow> jstr \<Rightarrow> jstr \<Rightarrow> ShareInfo" where
  "minted_row p t u = \<lparr>si_token = t, si_url = u, si_path = p, si_project = None, si_creator = None, si_created = None,
     si_expires = None, si_opens = None, si_opened = None\<rparr>"

definition mint_answer :: "jstr \<Rightarrow> MintOutcome \<Rightarrow> ShareDlg \<Rightarrow> ShareDlg" where
  "mint_answer q r' s =
     (case r' of
        Findings fs \<Rightarrow> s\<lparr>sg_pending := Some fs, sg_busy := False\<rparr>
      | MintFailed m \<Rightarrow> say (js ''Share failed: '' @ m) True (s\<lparr>sg_busy := False\<rparr>)
      | MintedAs t u \<Rightarrow> s\<lparr>sg_minted := Some (minted_row q t u), sg_pending := None, sg_jobs := sg_jobs s @ [CopyingLink]\<rparr>)"

definition copied :: "bool \<Rightarrow> ShareDlg \<Rightarrow> ShareDlg" where
  "copied worked s = say (js (if worked then ''Link created and copied.'' else ''Link created.'')) False (s\<lparr>sg_busy := False\<rparr>)"

definition REVOKED :: jstr where
  "REVOKED = js ''Link revoked '' @ [8212] @ js '' the URL no longer works.''"

definition setPublic :: "jstr \<Rightarrow> ShareDlg \<Rightarrow> ShareDlg" where
  "setPublic nx s =
     (if nx = js ''public'' then mint False s
      else let l = link s; s = s\<lparr>sg_pending := None, sg_minted := None\<rparr>
           in case l of None \<Rightarrow> s | Some i \<Rightarrow> send_req (RevokeReq (si_token i)) Revoking (s\<lparr>sg_busy := True\<rparr>))"

definition setExpiry :: "jstr \<Rightarrow> ShareDlg \<Rightarrow> ShareDlg" where
  "setExpiry nx s =
     (case link s of None \<Rightarrow> s
      | Some i \<Rightarrow> (send_req (ExpireReq (si_token i) nx) (Expiring (sg_preset s)) s)\<lparr>sg_preset := nx\<rparr>)"

text \<open>The answer to a request of \<open>run\<close>, and to a change of the lifetime: \<open>None\<close>, or the error's message.\<close>

definition run_answer :: "jstr \<Rightarrow> jstr option \<Rightarrow> ShareDlg \<Rightarrow> ShareDlg" where
  "run_answer ok er s = (case er of None \<Rightarrow> say ok False s | Some m \<Rightarrow> say m True s)\<lparr>sg_busy := False\<rparr>"

definition expiry_answer :: "jstr \<Rightarrow> jstr option \<Rightarrow> ShareDlg \<Rightarrow> ShareDlg" where
  "expiry_answer before er s = (case er of None \<Rightarrow> s | Some m \<Rightarrow> (say m True s)\<lparr>sg_preset := before\<rparr>)"

datatype ShareEv = SetPublic jstr | ShareAnyway | CancelWarning | SetExpiry jstr | FolderWrite ShareReq jstr
  | Minted nat MintOutcome | Copied nat bool | Answered nat "jstr option" | NewListing "ShareInfo list"
  | GoTo jstr bool

definition drop_job :: "nat \<Rightarrow> ShareDlg \<Rightarrow> ShareDlg" where
  "drop_job k s = s\<lparr>sg_jobs := take k (sg_jobs s) @ drop (Suc k) (sg_jobs s)\<rparr>"

definition job_at :: "ShareDlg \<Rightarrow> nat \<Rightarrow> ShareJob option" where
  "job_at s k = (if k < length (sg_jobs s) then Some (sg_jobs s ! k) else None)"

definition is_rule_write :: "ShareReq \<Rightarrow> bool" where
  "is_rule_write q = (case q of PutRule kn l ps \<Rightarrow> True | DelRule kn \<Rightarrow> True | _ \<Rightarrow> False)"

text \<open>The link and the warning are shown for a file alone, the rule's controls for a folder alone. Controls
  are disabled while the dialog is busy; the select of the lifetime stays enabled while its own requests
  are out. An answer settles the job at its place among those that are out. \<open>GoTo\<close> is the page going to
  another address: by the browser's back and forward, or by the dialog's own way to a folder's sharing.\<close>

fun share_step :: "ShareDlg \<Rightarrow> ShareEv \<Rightarrow> ShareDlg" where
  "share_step s (SetPublic nx) = (if \<not> sg_dir s \<and> sg_canWrite s \<and> \<not> sg_busy s then setPublic nx s else s)"
| "share_step s ShareAnyway = (if \<not> sg_dir s \<and> sg_pending s \<noteq> None \<and> \<not> sg_busy s then mint True s else s)"
| "share_step s CancelWarning = (if \<not> sg_dir s \<and> sg_pending s \<noteq> None \<and> \<not> sg_busy s then s\<lparr>sg_pending := None\<rparr> else s)"
| "share_step s (SetExpiry nx) = (if \<not> sg_dir s \<and> sg_canWrite s \<and> \<not> sg_busy s then setExpiry nx s else s)"
| "share_step s (FolderWrite q ok) =
     (if sg_dir s \<and> \<not> sg_busy s \<and> is_rule_write q then send_req q (Writing ok) (s\<lparr>sg_busy := True\<rparr>) else s)"
| "share_step s (Minted k r') = (case job_at s k of Some (Minting q) \<Rightarrow> mint_answer q r' (drop_job k s) | _ \<Rightarrow> s)"
| "share_step s (Copied k b) = (if job_at s k = Some CopyingLink then copied b (drop_job k s) else s)"
| "share_step s (Answered k er) =
     (case job_at s k of
        Some Revoking \<Rightarrow> run_answer REVOKED er (drop_job k s)
      | Some (Writing ok) \<Rightarrow> run_answer ok er (drop_job k s)
      | Some (Expiring before) \<Rightarrow> expiry_answer before er (drop_job k s)
      | _ \<Rightarrow> s)"
| "share_step s (NewListing rs) = s\<lparr>sg_listing := rs\<rparr>"
| "share_step s (GoTo p d) = s\<lparr>sg_path := p, sg_dir := d\<rparr>"

abbreviation share_run :: "ShareDlg \<Rightarrow> ShareEv list \<Rightarrow> ShareDlg" where
  "share_run s es \<equiv> foldl share_step s es"

subsection \<open>Credentials are asked about\<close>

text \<open>An answer that found something, and the file it was about: the one its mint was sent for.\<close>

definition found_in :: "ShareDlg \<Rightarrow> ShareEv \<Rightarrow> jstr option" where
  "found_in s e = (case e of Minted k (Findings fs) \<Rightarrow> (case job_at s k of Some (Minting q) \<Rightarrow> Some q | _ \<Rightarrow> None) | _ \<Rightarrow> None)"

fun leaves :: "ShareEv \<Rightarrow> bool" where
  "leaves (GoTo p d) = True"
| "leaves e = False"

text \<open>Something was found in a file.\<close>

definition found :: "ShareDlg \<Rightarrow> ShareEv list \<Rightarrow> jstr \<Rightarrow> bool" where
  "found s es q \<longleftrightarrow> (\<exists>a e b. es = a @ e # b \<and> found_in (share_run s a) e = Some q)"

text \<open>The reader pressed Share anyway on a file after something was found in one.\<close>

definition overrode :: "ShareDlg \<Rightarrow> ShareEv list \<Rightarrow> jstr \<Rightarrow> jstr \<Rightarrow> bool" where
  "overrode s es q p \<longleftrightarrow> (\<exists>a b. es = a @ ShareAnyway # b \<and> found s a q \<and> p = sg_path (share_run s a))"

lemma found_snoc: "found s es q \<Longrightarrow> found s (es @ [e]) q"
  unfolding found_def by (metis append_Cons append_assoc)

lemma found_now: "found_in (share_run s es) e = Some q \<Longrightarrow> found s (es @ [e]) q"
  unfolding found_def by blast

lemma overrode_snoc: "overrode s es q p \<Longrightarrow> overrode s (es @ [e]) q p"
  unfolding overrode_def by (metis append_Cons append_assoc)

lemma overrode_now: "found s es q \<Longrightarrow> overrode s (es @ [ShareAnyway]) q (sg_path (share_run s es))"
  unfolding overrode_def by blast

definition warned :: "ShareDlg \<Rightarrow> ShareEv list \<Rightarrow> ShareDlg \<Rightarrow> bool" where
  "warned s0 es s \<longleftrightarrow> (sg_pending s \<noteq> None \<longrightarrow> (\<exists>q. found s0 es q))
     \<and> (\<forall>p. MintReq p True \<in> set (sg_sent s) \<longrightarrow> (\<exists>q. overrode s0 es q p))"

lemmas share_ops = mint_def send_req_def say_def setPublic_def setExpiry_def run_answer_def expiry_answer_def mint_answer_def
  copied_def drop_job_def Let_def

lemma warned_sent:
  assumes "warned s0 es s" "sg_pending s' = sg_pending s \<or> sg_pending s' = None"
    "\<forall>p. MintReq p True \<in> set (sg_sent s') \<longrightarrow> MintReq p True \<in> set (sg_sent s)"
  shows "warned s0 (es @ [e]) s'"
  using assms found_snoc [of s0 es _ e] overrode_snoc [of s0 es _ _ e] unfolding warned_def by metis

lemma step_warned:
  assumes "warned s0 es (share_run s0 es)"
  shows "warned s0 (es @ [e]) (share_step (share_run s0 es) e)"
proof (cases e)
  case ShareAnyway
  let ?s = "share_run s0 es"
  show ?thesis
  proof (cases "\<not> sg_dir ?s \<and> sg_pending ?s \<noteq> None \<and> \<not> sg_busy ?s")
    case True
    then obtain q where q: "found s0 es q" using assms by (auto simp: warned_def)
    have "MintReq p True \<in> set (sg_sent (mint True ?s)) \<Longrightarrow> p = sg_path ?s \<or> MintReq p True \<in> set (sg_sent ?s)" for p
      by (auto simp: share_ops)
    then have "\<exists>q. overrode s0 (es @ [ShareAnyway]) q p" if "MintReq p True \<in> set (sg_sent (mint True ?s))" for p
      using that overrode_now [OF q] overrode_snoc assms unfolding warned_def by metis
    moreover have "\<exists>q. found s0 (es @ [ShareAnyway]) q" using found_snoc [OF q] by blast
    moreover have "share_step ?s ShareAnyway = mint True ?s" using True by simp
    ultimately show ?thesis unfolding ShareAnyway warned_def by simp
  next
    case False
    then have "share_step ?s ShareAnyway = ?s" by auto
    then show ?thesis unfolding ShareAnyway by (intro warned_sent [OF assms]) auto
  qed
next
  case (Minted k r')
  show ?thesis
  proof (cases "found_in (share_run s0 es) e")
    case None
    then show ?thesis unfolding Minted
      by (intro warned_sent [OF assms]) (auto simp: share_ops found_in_def split: option.splits ShareJob.splits MintOutcome.splits)
  next
    case (Some q)
    then have "\<exists>q. found s0 (es @ [e]) q" using found_now by blast
    moreover have "sg_sent (share_step (share_run s0 es) e) = sg_sent (share_run s0 es)"
      unfolding Minted by (auto simp: share_ops split: option.splits ShareJob.splits MintOutcome.splits)
    ultimately show ?thesis using assms overrode_snoc unfolding warned_def by metis
  qed
next
  case (FolderWrite q ok)
  then show ?thesis by (intro warned_sent [OF assms]) (auto simp: share_ops is_rule_write_def)
qed (rule warned_sent [OF assms]; auto simp: share_ops split: option.splits ShareJob.splits if_splits)+

lemma run_warned: "warned (share_opened p d cw rs) es (share_run (share_opened p d cw rs) es)"
proof (induction es rule: rev_induct)
  case Nil
  then show ?case by (simp add: warned_def share_opened_def)
next
  case (snoc e es)
  from step_warned [OF snoc, of e] show ?case by simp
qed

text \<open>While the page stays, the dialog and its mints are of one file.\<close>

definition stays_on :: "jstr \<Rightarrow> ShareDlg \<Rightarrow> bool" where
  "stays_on p s \<longleftrightarrow> sg_path s = p \<and> (\<forall>q. Minting q \<in> set (sg_jobs s) \<longrightarrow> q = p)"

lemma step_stays: "stays_on p s \<Longrightarrow> \<not> leaves e \<Longrightarrow> stays_on p (share_step s e)"
  by (cases e) (auto simp: stays_on_def share_ops split: option.splits ShareJob.splits MintOutcome.splits dest: in_set_takeD in_set_dropD)

lemma run_stays: "list_all (\<lambda>e. \<not> leaves e) es \<Longrightarrow> stays_on p s \<Longrightarrow> stays_on p (share_run s es)"
  by (induction es arbitrary: s) (simp_all add: step_stays)

lemma overrode_stays:
  assumes "overrode s es q p" "list_all (\<lambda>e. \<not> leaves e) es" "stays_on p0 s"
  shows "q = p0 \<and> p = p0"
proof -
  obtain a b where a: "es = a @ ShareAnyway # b" "found s a q" "p = sg_path (share_run s a)" using assms(1) by (auto simp: overrode_def)
  obtain x e y where x: "a = x @ e # y" "found_in (share_run s x) e = Some q" using a(2) by (auto simp: found_def)
  have "list_all (\<lambda>e. \<not> leaves e) a" "list_all (\<lambda>e. \<not> leaves e) x" using assms(2) a(1) x(1) by simp_all
  then have "stays_on p0 (share_run s a)" "stays_on p0 (share_run s x)" using run_stays assms(3) by blast+
  moreover have "Minting q \<in> set (sg_jobs (share_run s x))"
    using x(2) by (auto simp: found_in_def job_at_def split: ShareEv.splits MintOutcome.splits option.splits ShareJob.splits if_splits)
      (metis nth_mem)
  ultimately show ?thesis using a(3) by (simp add: stays_on_def)
qed

text \<open>C21: The hub's check for credentials is overridden by the reader alone, and only after it was made. In any
  run of the dialog, with every answer in any order and at any time and the page free to go elsewhere
  under it, a mint that overrides the check is for a file the dialog was showing when the reader pressed
  Share anyway, and before that an answer had found something; while the page stays, that answer was
  about this same file. (When the page goes elsewhere it need not be, lemma
  \<open>override_of_another_file\<close>.)\<close>

theorem override_was_asked:
  assumes "MintReq p True \<in> set (sg_sent (share_run (share_opened p0 d cw rows') es))"
  shows "\<exists>q. overrode (share_opened p0 d cw rows') es q p \<and> (list_all (\<lambda>e. \<not> leaves e) es \<longrightarrow> q = p0 \<and> p = p0)"
proof -
  obtain q where q: "overrode (share_opened p0 d cw rows') es q p"
    using run_warned [of p0 d cw rows' es] assms by (auto simp: warned_def)
  moreover have "stays_on p0 (share_opened p0 d cw rows')" by (simp add: stays_on_def share_opened_def)
  ultimately show ?thesis using overrode_stays by blast
qed

definition w_override :: "ShareEv list" where
  "w_override = [SetPublic (js ''public''), Minted 0 (Findings []), ShareAnyway]"

lemma override_was_asked_witness:
  "overrode (share_opened (js ''a.md'') False True []) w_override (js ''a.md'') (js ''a.md'')"
proof -
  have "MintReq (js ''a.md'') True \<in> set (sg_sent (share_run (share_opened (js ''a.md'') False True []) w_override))"
    by (simp add: w_override_def share_opened_def share_ops job_at_def)
  moreover have "list_all (\<lambda>e. \<not> leaves e) w_override" by (simp add: w_override_def)
  ultimately show ?thesis using override_was_asked by blast
qed

text \<open>The warning outlives the file it is about: when the page goes back to another file with the dialog
  open, pressing Share anyway overrides the hub's check for that file, which the hub was never asked
  about.\<close>

lemma override_of_another_file:
  "let s = share_run (share_opened (js ''a.md'') False True [])
     [SetPublic (js ''public''), Minted 0 (Findings []), GoTo (js ''b.md'') False, ShareAnyway]
   in MintReq (js ''b.md'') True \<in> set (sg_sent s) \<and> MintReq (js ''b.md'') False \<notin> set (sg_sent s)"
  by (simp add: share_opened_def share_ops job_at_def js_def)

text \<open>So does the link just minted: the dialog of the other file shows it as that file's, and taking it
  away there revokes the first file's.\<close>

lemma link_of_another_file:
  "let s = share_run (share_opened (js ''a.md'') False True [])
     [SetPublic (js ''public''), Minted 0 (MintedAs (js ''t'') (js ''u'')), Copied 0 True, GoTo (js ''b.md'') False]
   in map_option si_path (link s) = Some (js ''a.md'') \<and> sg_path s = js ''b.md''
     \<and> RevokeReq (js ''t'') \<in> set (sg_sent (share_step s (SetPublic (js ''restricted''))))"
  by (simp add: share_opened_def share_ops job_at_def link_def minted_row_def js_def)

subsection \<open>What the lifetime select claims\<close>

text \<open>Two changes of the lifetime can be out at once, and a refused one restores what the select showed when
  it was sent: here the hub holds seven days, and the select says never.\<close>

definition w_shared :: ShareDlg where
  "w_shared = share_opened (js ''a.md'') False True [minted_row (js ''a.md'') (js ''t'') (js ''u'')]"

lemma refused_expiry_hides_accepted:
  "sg_preset (foldl share_step w_shared
     [SetExpiry (js ''24h''), SetExpiry (js ''168h''), Answered 1 None, Answered 0 (Some (js ''refused''))]) = []"
  by (simp add: w_shared_def share_opened_def share_ops job_at_def link_def minted_row_def)

text \<open>The select belongs to the dialog and not to the link: after a link with a lifetime is revoked and
  another minted, it shows the lifetime of the old one, and nothing was asked for the new one. Nor does it
  start from the lifetime a link has.\<close>

lemma new_link_shows_old_lifetime:
  "let s = foldl share_step w_shared
     [SetExpiry (js ''24h''), Answered 0 None, SetPublic (js ''restricted''), Answered 0 None, NewListing [],
      SetPublic (js ''public''), Minted 0 (MintedAs (js ''t2'') (js ''u2''))]
   in sg_preset s = js ''24h'' \<and> map_option si_token (link s) = Some (js ''t2'') \<and> map_option si_expires (link s) = Some None
     \<and> ExpireReq (js ''t2'') (js ''24h'') \<notin> set (sg_sent s)"
  by (simp add: w_shared_def share_opened_def share_ops job_at_def link_def minted_row_def js_def)

lemma select_starts_at_never: "sg_preset (share_opened p d cw rs) = []"
  by (simp add: share_opened_def)

text \<open>A link the listing does not show yet is forgotten before its revocation is answered: when the hub
  refuses, the dialog says Restricted of a file that is still shared, until the listing comes.\<close>

lemma refused_revoke_looks_restricted:
  "let s = foldl share_step (share_opened (js ''a.md'') False True [])
     [SetPublic (js ''public''), Minted 0 (MintedAs (js ''t'') (js ''u'')), Copied 0 True, SetPublic (js ''restricted''),
      Answered 0 (Some (js ''offline''))]
   in link s = None \<and> RevokeReq (js ''t'') \<in> set (sg_sent s)"
  by (simp add: share_opened_def share_ops job_at_def link_def minted_row_def js_def)

end
