(* ===== verification/Questions.thy ===== *)
theory Questions
  imports Sharing
begin

section \<open>The app's questions (modal.tsx), and a revocation that asks one\<close>

text \<open>
  One prompt or confirmation is shown at a time, each with a promise its caller waits for. A promise is
  the number of its question. The text typed and the error under it are the state of the body's component,
  which lives as long as a prompt is shown: a prompt that takes the place of another keeps them.
\<close>

datatype Question = Prompt jstr jstr jstr jstr "jstr option" bool | Confirm jstr jstr jstr bool
datatype Reply = Typed jstr | Cancelled | Agreed bool

record Asking =
  q_current :: "(nat \<times> Question) option"
  q_val :: jstr
  q_err :: jstr
  q_asked :: "Question list"
  q_replies :: "(nat \<times> Reply) list"

definition asking0 :: Asking where
  "asking0 = \<lparr>q_current = None, q_val = [], q_err = [], q_asked = [], q_replies = []\<rparr>"

definition is_prompt :: "(nat \<times> Question) option \<Rightarrow> bool" where
  "is_prompt c = (case c of Some (i, Prompt t l v k m d) \<Rightarrow> True | _ \<Rightarrow> False)"

definition emit_question :: "Question \<Rightarrow> Asking \<Rightarrow> Asking" where
  "emit_question q s =
     (let s' = s\<lparr>q_current := Some (length (q_asked s), q), q_asked := q_asked s @ [q]\<rparr>
      in case q of
           Prompt t l v k m d \<Rightarrow> if is_prompt (q_current s) then s' else s'\<lparr>q_val := v, q_err := []\<rparr>
         | Confirm t msg k d \<Rightarrow> s')"

definition reply :: "Reply \<Rightarrow> Asking \<Rightarrow> Asking" where
  "reply a s = (case q_current s of None \<Rightarrow> s | Some (i, q) \<Rightarrow> s\<lparr>q_current := None, q_replies := q_replies s @ [(i, a)]\<rparr>)"

text \<open>Escape, a click outside, or Cancel.\<close>

definition cancel_question :: "Asking \<Rightarrow> Asking" where
  "cancel_question s =
     (case q_current s of None \<Rightarrow> s
      | Some (i, Prompt t l v k m d) \<Rightarrow> reply Cancelled s
      | Some (i, Confirm t msg k d) \<Rightarrow> reply (Agreed False) s)"

definition armed :: "jstr option \<Rightarrow> jstr \<Rightarrow> bool" where
  "armed m v \<longleftrightarrow> m = None \<or> m = Some (trim v)"

definition ok_prompt :: "Asking \<Rightarrow> Asking" where
  "ok_prompt s =
     (case q_current s of
        Some (i, Prompt t l v k m d) \<Rightarrow>
          if \<not> armed m (q_val s) then s
          else if trim (q_val s) = [] then s\<lparr>q_err := js ''Give it a name.''\<rparr>
          else reply (Typed (q_val s)) s
      | _ \<Rightarrow> s)"

definition type_prompt :: "jstr \<Rightarrow> Asking \<Rightarrow> Asking" where
  "type_prompt v s = (if is_prompt (q_current s) then s\<lparr>q_val := v, q_err := []\<rparr> else s)"

definition agree_question :: "Asking \<Rightarrow> Asking" where
  "agree_question s = (case q_current s of Some (i, Confirm t msg k d) \<Rightarrow> reply (Agreed True) s | _ \<Rightarrow> s)"

datatype AskEv = Asks Question | Types jstr | PressOk | PressCancel | Agrees

fun ask_step :: "Asking \<Rightarrow> AskEv \<Rightarrow> Asking" where
  "ask_step s (Asks q) = emit_question q s"
| "ask_step s (Types v) = type_prompt v s"
| "ask_step s PressOk = ok_prompt s"
| "ask_step s PressCancel = cancel_question s"
| "ask_step s Agrees = agree_question s"

subsection \<open>What an answer means\<close>

text \<open>An answer fits its question: a name that is not blank, and the one to be typed back when there is one.\<close>

definition fits :: "Question \<Rightarrow> Reply \<Rightarrow> bool" where
  "fits q a =
     (case (q, a) of
        (Prompt t l v k m d, Typed w) \<Rightarrow> trim w \<noteq> [] \<and> (m = None \<or> m = Some (trim w))
      | (Prompt t l v k m d, Cancelled) \<Rightarrow> True
      | (Confirm t msg k d, Agreed b) \<Rightarrow> True
      | _ \<Rightarrow> False)"

definition asking_ok :: "Asking \<Rightarrow> bool" where
  "asking_ok s \<longleftrightarrow>
     (case q_current s of None \<Rightarrow> True | Some (i, q) \<Rightarrow> Suc i = length (q_asked s) \<and> last (q_asked s) = q \<and> i \<notin> fst ` set (q_replies s))
     \<and> distinct (map fst (q_replies s))
     \<and> list_all (\<lambda>(i, a). i < length (q_asked s) \<and> fits (q_asked s ! i) a) (q_replies s)"

lemma reply_ok:
  assumes "asking_ok s" "\<And>i q. q_current s = Some (i, q) \<Longrightarrow> fits q a"
  shows "asking_ok (reply a s)"
proof (cases "q_current s")
  case None
  with assms(1) show ?thesis by (simp add: reply_def)
next
  case (Some c)
  then obtain i q where c: "q_current s = Some (i, q)" by (cases c) auto
  with assms(1) have i: "Suc i = length (q_asked s)" "last (q_asked s) = q" by (simp_all add: asking_ok_def)
  then have "q_asked s ! i = q" by (metis diff_Suc_1 last_conv_nth length_0_conv nat.distinct(1))
  with assms c i show ?thesis by (auto simp: asking_ok_def reply_def)
qed

lemma emit_ok: "asking_ok s \<Longrightarrow> asking_ok (emit_question q s)"
  by (auto simp: asking_ok_def emit_question_def Let_def list_all_iff nth_append split: Question.splits option.splits)

lemma asking_val [simp]: "asking_ok (s\<lparr>q_val := v\<rparr>) = asking_ok s" "asking_ok (s\<lparr>q_err := e\<rparr>) = asking_ok s"
  by (simp_all add: asking_ok_def split: option.split)

lemma ask_step_ok: "asking_ok s \<Longrightarrow> asking_ok (ask_step s e)"
  by (cases e)
    (auto simp: emit_ok type_prompt_def ok_prompt_def cancel_question_def agree_question_def armed_def fits_def intro!: reply_ok
      split: option.splits Question.splits)

text \<open>A question gets at most one answer, and one that fits it: an irreversible action that has its thing's
  name typed back is confirmed only by that name, whatever is asked, typed and pressed before.\<close>

lemma replies_fit:
  assumes "s = foldl ask_step asking0 es" "(i, a) \<in> set (q_replies s)"
  shows "i < length (q_asked s) \<and> fits (q_asked s ! i) a \<and> distinct (map fst (q_replies s))"
proof -
  have "asking_ok s'" if "s' = foldl ask_step asking0 es" for s'
    unfolding that by (induction es rule: rev_induct) (simp add: asking0_def asking_ok_def, simp add: ask_step_ok)
  from this [OF assms(1)] assms(2) show ?thesis by (fastforce simp: asking_ok_def list_all_iff)
qed

text \<open>A question that takes the place of another leaves the first without an answer for good, and its
  caller waiting; and a prompt that takes the place of a prompt shows the text of the first.\<close>

lemma displaced_never_answered:
  assumes "asking_ok s" "q_current s = Some (i, q)"
  shows "i \<notin> fst ` set (q_replies (foldl ask_step (emit_question q' s) es))"
proof -
  have "i \<notin> fst ` set (q_replies (foldl ask_step t es)) \<and> i < length (q_asked (foldl ask_step t es))"
    if "i \<notin> fst ` set (q_replies t)" "i < length (q_asked t)" "\<forall>c. q_current t = Some c \<longrightarrow> i < fst c" for t
    using that
  proof (induction es arbitrary: t)
    case (Cons e es)
    have "i \<notin> fst ` set (q_replies (ask_step t e)) \<and> i < length (q_asked (ask_step t e))
        \<and> (\<forall>c. q_current (ask_step t e) = Some c \<longrightarrow> i < fst c)"
      using Cons.prems
      by (cases e) (auto simp: emit_question_def type_prompt_def ok_prompt_def cancel_question_def agree_question_def reply_def Let_def
          split: option.splits Question.splits if_splits)
    with Cons.IH [of "ask_step t e"] show ?case by simp
  qed simp
  from this [of "emit_question q' s"] assms show ?thesis
    by (auto simp: asking_ok_def emit_question_def Let_def split: Question.splits)
qed

lemma prompt_keeps_text:
  "q_val (foldl ask_step asking0 [Asks (Prompt t l (js ''a'') k None d), Asks (Prompt t' l' (js ''b'') k' None d')]) = js ''a''"
  by (simp add: asking0_def emit_question_def is_prompt_def)

subsection \<open>Revoking from the table or the banner\<close>

text \<open>What is asked, what is sent when the reader agrees, and what follows the answer: the toast, and
  whether the caller reads the links again.\<close>

definition revoke_question :: "ShareInfo \<Rightarrow> Question" where
  "revoke_question i =
     Confirm (js ''Revoke share link'')
       (js ''Revoke the public link to '' @ [8220] @ si_path i @ [8221] @ js ''? Anyone with the URL will lose access.'') (js ''Revoke'') True"

definition revoke_sends :: "ShareInfo \<Rightarrow> bool \<Rightarrow> ShareReq list" where
  "revoke_sends i agreed = (if agreed then [RevokeReq (si_token i)] else [])"

definition revoke_done :: "jstr option \<Rightarrow> (jstr \<times> bool) \<times> bool" where
  "revoke_done er = (case er of None \<Rightarrow> ((js ''Share revoked.'', False), True) | Some m \<Rightarrow> ((m, True), False))"

end
