(* ===== verification/Sidebar.thy ===== *)
theory Sidebar
  imports Ambient Page FuzzyScore Insights
begin

section \<open>The sidebar's parts (components/ProjectNav.tsx, components/Pinned.tsx, the small parts of shell.tsx)\<close>

text \<open>
  The colour of a project, its icon, the entries of the project menu and what each does, the pages of a
  project with their badge, the line about syncing, the search field over the filter of the sidebar
  (theory Page), and the pins. An entry that navigates is given by its address.
\<close>

subsection \<open>A project's mark\<close>

definition PROJ_COLORS :: "jstr list" where
  "PROJ_COLORS = map js [''#5b8def'', ''#f5a623'', ''#4cc38a'', ''#e0679b'', ''#8b7bf0'', ''#3ec8c8'', ''#e6934a'']"

text \<open>The loop runs over code points and reads the first unit of each; \<open>>>> 0\<close> keeps 32 bits.\<close>

function first_units :: "jstr \<Rightarrow> nat list" where
  "first_units [] = []"
| "first_units (u # us) = u # first_units (drop (cp_len (u # us)) (u # us))"
  by pat_completeness auto
termination
  by (relation "measure length") (auto simp: cp_len_def split: list.splits)

definition color_hash :: "jstr \<Rightarrow> 32 word" where
  "color_hash s = foldl (\<lambda>h c. h * 31 + of_nat c) 0 (first_units s)"

definition projColor :: "jstr \<Rightarrow> jstr" where
  "projColor s = PROJ_COLORS ! (unat (color_hash s) mod length PROJ_COLORS)"

lemma projColor_of_the_palette: "projColor s \<in> set PROJ_COLORS"
  unfolding projColor_def by (rule nth_mem) (simp add: PROJ_COLORS_def)

text \<open>An icon is looked up among the own keys of the table, so a name of \<open>Object.prototype\<close> finds none.\<close>

definition PROJECT_ICONS :: "jstr list" where
  "PROJECT_ICONS = map js [''folder'', ''book-open'', ''file-text'', ''pen-line'', ''users'', ''briefcase'', ''megaphone'', ''rocket'',
     ''lightbulb'', ''flag'', ''star'', ''heart'', ''code'', ''square-terminal'', ''bug'', ''wrench'', ''database'', ''package'', ''beaker'',
     ''gauge'', ''shield'', ''lock'', ''gavel'', ''globe'', ''compass'', ''calendar'', ''clock'', ''graduation-cap'', ''image'', ''music'']"

definition project_icon :: "jstr option \<Rightarrow> jstr" where
  "project_icon nm = (let k = (case nm of None \<Rightarrow> [] | Some k \<Rightarrow> k) in if k \<in> set PROJECT_ICONS then k else js ''folder'')"

lemma project_icon_known: "project_icon nm \<in> set PROJECT_ICONS" "k \<in> set PROJECT_ICONS \<Longrightarrow> project_icon (Some k) = k"
  by (auto simp: project_icon_def Let_def PROJECT_ICONS_def)

subsection \<open>The pages of a project\<close>

datatype NavKey = NavHome | NavActivity | NavInsights | NavSettings

definition NAV :: "NavKey list" where
  "NAV = [NavHome, NavActivity, NavInsights]"

definition countText :: "nat \<Rightarrow> jstr" where
  "countText n = (if n \<ge> ACTIVITY_CAP then nat_str (ACTIVITY_CAP - 1) @ js ''+'' else nat_str n)"

record NavRow =
  nr_key :: NavKey
  nr_current :: bool
  nr_badge :: "jstr option"

definition nav_rows :: "NavKey option \<Rightarrow> nat option \<Rightarrow> NavRow list" where
  "nav_rows actv frsh =
     map (\<lambda>k. \<lparr>nr_key = k, nr_current = (actv = Some k),
               nr_badge = (if k = NavActivity \<and> frsh \<noteq> None \<and> frsh \<noteq> Some 0 then map_option countText frsh else None)\<rparr>) NAV"

text \<open>The tooltip of the rail: the badge again, as a sentence.\<close>

definition rail_hint :: "NavRow \<Rightarrow> jstr option" where
  "rail_hint r' = map_option (\<lambda>t. t @ js '' new'') (nr_badge r')"

text \<open>A badge is never wider than three characters, whatever the count, and counts below the cap are told apart.\<close>

lemma nat_str_two: "n < 100 \<Longrightarrow> length (nat_str n) \<le> 2"
proof -
  assume "n < 100"
  then have "n < 10 \<or> 10 \<le> n \<and> n div 10 < 10" by auto
  then show ?thesis
    by (elim disjE) (simp_all add: nat_str_small nat_str.simps [of n])
qed

lemma countText_short: "length (countText n) \<le> 3"
  using nat_str_two [of n] nat_str_two [of 99] by (auto simp: countText_def ACTIVITY_CAP_def js_def)

lemma countText_exact: "m < ACTIVITY_CAP \<Longrightarrow> countText m = countText n \<Longrightarrow> m = n"
proof -
  assume m: "m < ACTIVITY_CAP" and eq: "countText m = countText n"
  show "m = n"
  proof (cases "n < ACTIVITY_CAP")
    case True
    with m eq show ?thesis by (auto simp: countText_def dest: nat_str_inj)
  next
    case False
    with m eq have "43 \<in> set (nat_str m)" by (simp add: countText_def js_def)
    with nat_str_digits [of m] show ?thesis by (auto simp: is_digit_def)
  qed
qed

subsection \<open>The project menu\<close>

record MenuAccount =
  ac_email :: jstr
  ac_org :: "(jstr \<times> jstr) option"
  ac_org_active :: bool
  ac_admin :: "nat option"
  ac_billing :: "(jstr \<times> jstr) option"
  ac_mcp :: bool
  ac_desktop :: bool

datatype MenuEntry = MProject jstr jstr bool | MNew | MLine | MSettings bool | MOrg jstr jstr bool bool | MBilling jstr jstr
  | MAdmin "nat option" | MEmail jstr | MTheme | MConnections | MLogOut bool

text \<open>The arguments: the projects (id and name), the current one's id, the active page when the sidebar is a
  project's, and the session.\<close>

definition menu_entries :: "(jstr \<times> jstr) list \<Rightarrow> jstr option \<Rightarrow> NavKey option option \<Rightarrow> MenuAccount option \<Rightarrow> MenuEntry list" where
  "menu_entries projects current menu acct =
     (let org = Option.bind acct ac_org; billing = Option.bind acct ac_billing; admin = Option.bind acct ac_admin
      in map (\<lambda>(i, nm). MProject i nm (current = Some i)) projects
         @ [MNew]
         @ (if menu \<noteq> None \<or> org \<noteq> None \<or> billing \<noteq> None \<or> admin \<noteq> None then [MLine] else [])
         @ (if menu \<noteq> None \<and> current \<noteq> None then [MSettings (menu = Some (Some NavSettings))] else [])
         @ (case org of None \<Rightarrow> [] | Some (u, nm) \<Rightarrow> [MOrg u nm (ac_org_active (the acct)) (\<not> starts_with u (js ''/''))])
         @ (case billing of None \<Rightarrow> [] | Some (pl, u) \<Rightarrow> [MBilling pl u])
         @ (case admin of None \<Rightarrow> [] | Some n \<Rightarrow> [MAdmin (if n = 0 then None else Some n)])
         @ [MLine]
         @ (case acct of None \<Rightarrow> [] | Some a \<Rightarrow> [MEmail (ac_email a)])
         @ [MTheme]
         @ (case acct of None \<Rightarrow> [] | Some a \<Rightarrow> (if ac_mcp a then [MConnections] else []) @ [MLogOut (ac_desktop a)]))"

text \<open>What choosing an entry does. A link closes the menu itself, because the library sees its event
  prevented; the library closes it for the others.\<close>

datatype MenuAct = GoProject jstr | StayHere | NewProjectDialog | NavTo NavKey | FollowHref jstr | OpenAdmin | SignOutDesktop | Nothing

definition choose_entry :: "jstr option \<Rightarrow> MenuEntry \<Rightarrow> MenuAct" where
  "choose_entry current en =
     (case en of
        MProject i nm cur' \<Rightarrow> if current \<noteq> Some i then GoProject (47 # i) else StayHere
      | MNew \<Rightarrow> NewProjectDialog
      | MSettings b \<Rightarrow> NavTo NavSettings
      | MOrg u nm b x \<Rightarrow> FollowHref u
      | MBilling pl u \<Rightarrow> FollowHref u
      | MAdmin n \<Rightarrow> OpenAdmin
      | MConnections \<Rightarrow> FollowHref (js ''/connections'')
      | MLogOut desk \<Rightarrow> if desk then SignOutDesktop else FollowHref (js ''/auth/logout'')
      | _ \<Rightarrow> Nothing)"

definition trigger_name :: "(jstr \<times> jstr) list \<Rightarrow> jstr option \<Rightarrow> jstr" where
  "trigger_name projects current =
     (case Option.bind current (map_of projects) of
        Some nm \<Rightarrow> nm | None \<Rightarrow> js (if projects \<noteq> [] then ''Select a project'' else ''No projects yet''))"

text \<open>The menu marks one project, the current one; a session can always be left from it, and nothing of the
  session is offered without one.\<close>

lemma menu_marks_current:
  assumes "distinct (map fst projects)" "(i, nm) \<in> set projects"
  shows "filter (\<lambda>en. \<exists>i nm. en = MProject i nm True) (menu_entries projects (Some i) menu acct) = [MProject i nm True]"
proof -
  have "filter (\<lambda>en. \<exists>i nm. en = MProject i nm True) (map (\<lambda>(j, nm). MProject j nm (Some i = Some j)) projects) = [MProject i nm True]"
    using assms
  proof (induction projects)
    case (Cons p ps)
    obtain j n where p: "p = (j, n)" by fastforce
    show ?case
    proof (cases "j = i")
      case True
      with Cons.prems p have "nm = n" "i \<notin> fst ` set ps" by (force simp: image_iff)+
      moreover from this(2) have "filter (\<lambda>en. \<exists>i nm. en = MProject i nm True) (map (\<lambda>(j, nm). MProject j nm (Some i = Some j)) ps) = []"
        by (force simp: filter_empty_conv image_iff)
      ultimately show ?thesis using True p by simp
    qed (use Cons p in auto)
  qed simp
  then show ?thesis by (auto simp: menu_entries_def Let_def split: option.splits)
qed

lemma menu_session:
  "(\<exists>b. MLogOut b \<in> set (menu_entries projects current menu acct)) \<longleftrightarrow> acct \<noteq> None"
  "acct = None \<Longrightarrow> en \<in> set (menu_entries projects current menu acct) \<Longrightarrow>
     (\<exists>i nm b. en = MProject i nm b) \<or> en = MNew \<or> en = MLine \<or> (\<exists>b. en = MSettings b) \<or> en = MTheme"
  by (auto simp: menu_entries_def Let_def split: option.splits if_splits)

subsection \<open>Syncing\<close>

definition sync_parts :: "nat option \<Rightarrow> int option \<Rightarrow> int \<Rightarrow> jstr list" where
  "sync_parts devices syncd now =
     (case devices of None \<Rightarrow> [] | Some n \<Rightarrow> if n = 0 then [] else [nat_str n @ js (if n = 1 then '' device'' else '' devices'')])
     @ (case syncd of None \<Rightarrow> [] | Some t \<Rightarrow> if t = 0 then [] else [js ''synced '' @ agoText t now])"

definition sync_text :: "nat option \<Rightarrow> int option \<Rightarrow> int \<Rightarrow> jstr" where
  "sync_text devices syncd now =
     (let ps = sync_parts devices syncd now in if ps = [] then js ''Connect a device'' else join DOT ps)"

subsection \<open>The search field\<close>

datatype SearchOut = Quiet | Request jstr | BlurField

text \<open>A key in the field: the filter after it and what else happens. \<open>mods\<close> is whether Meta or Control is held.\<close>

definition search_key :: "jstr \<Rightarrow> bool \<Rightarrow> Filter \<Rightarrow> Filter \<times> SearchOut" where
  "search_key kn mods f =
     (if kn = js ''ArrowDown'' \<or> kn = js ''ArrowUp'' then (moveFilterSel (if kn = js ''ArrowDown'' then 1 else - 1) f, Quiet)
      else if kn = js ''Enter'' then
        (if trim (query f) = [] \<or> mods then (f, Request (trim (query f))) else (activateFilterSel f, Quiet))
      else if kn = js ''Escape'' then (if query f \<noteq> [] then (clearFilter f, Quiet) else (f, BlurField))
      else (f, Quiet))"

text \<open>A press of the mouse on the field: only the primary button on an empty field opens the palette.\<close>

definition search_press :: "nat \<Rightarrow> Filter \<Rightarrow> SearchOut" where
  "search_press btn f = (if query f \<noteq> [] \<or> btn \<noteq> 0 then Quiet else Request [])"

lemma search_key_ok: "sel_ok f \<Longrightarrow> sel_ok (fst (search_key kn mods f))"
proof -
  assume s: "sel_ok f"
  show ?thesis
  proof (cases "kn = js ''ArrowDown'' \<or> kn = js ''ArrowUp''")
    case True
    show ?thesis
    proof (cases "rows f = 0")
      case False
      with s have "- rows f \<le> (if kn = js ''ArrowDown'' then 1 else - 1)" by (auto simp: sel_ok_def)
      with s True show ?thesis by (simp add: search_key_def sel_ok_ops)
    qed (use s True in \<open>simp add: search_key_def moveFilterSel_def\<close>)
  qed (use s in \<open>auto simp: search_key_def sel_ok_ops clearFilter_def\<close>)
qed

text \<open>Two Escapes leave the field empty and blurred; Enter opens a row only of a filter that is not blank.\<close>

lemma escape_twice:
  "search_key (js ''Escape'') m (fst (search_key (js ''Escape'') m f)) = (fst (search_key (js ''Escape'') m f), BlurField)
   \<and> query (fst (search_key (js ''Escape'') m f)) = []"
  by (simp add: search_key_def js_def clearFilter_def setFilterQuery_def set_state_def)

subsection \<open>Pins\<close>

record PinRow =
  pin_path :: jstr
  pin_name :: jstr
  pin_on :: bool
  pin_gone :: bool
  pin_badges :: "(jstr \<times> bool) list"

definition pin_row :: "(jstr \<Rightarrow> nat) \<Rightarrow> (jstr \<Rightarrow> nat) \<Rightarrow> (jstr \<Rightarrow> bool) \<Rightarrow> jstr \<Rightarrow> jstr \<Rightarrow> PinRow" where
  "pin_row cmts cnfs exists here p =
     \<lparr>pin_path = p, pin_name = after_last 47 p, pin_on = (p = here), pin_gone = (\<not> exists p),
      pin_badges = (if cmts p > 0 then [(plural (cmts p) (js ''comment''), False)] else [])
        @ (if cnfs p > 0 then [(plural (cnfs p) (js ''conflict''), True)] else [])\<rparr>"

definition pin_press :: "PinRow \<Rightarrow> jstr option" where
  "pin_press w = (if pin_gone w then None else Some (pin_path w))"

definition pin_tip :: "PinRow \<Rightarrow> jstr" where
  "pin_tip w = (if pin_gone w then pin_path w @ js '' '' @ [8212] @ js '' no longer in this project'' else pin_path w)"

text \<open>The rail's button for a pin: its hint, its badge (the conflicts before the comments) and its colour.\<close>

record PinButton =
  pb_label :: jstr
  pb_hint :: "jstr option"
  pb_badge :: "nat option"
  pb_danger :: bool

definition pin_button :: "(jstr \<Rightarrow> nat) \<Rightarrow> (jstr \<Rightarrow> nat) \<Rightarrow> jstr \<Rightarrow> PinButton" where
  "pin_button cmts cnfs p =
     (let c = cmts p; k = cnfs p;
          hs = (if c \<noteq> 0 then [plural c (js ''comment'')] else []) @ (if k \<noteq> 0 then [plural k (js ''conflict'')] else [])
      in \<lparr>pb_label = after_last 47 p, pb_hint = (if hs = [] then None else Some (join DOT hs)),
          pb_badge = (if k \<noteq> 0 then Some k else if c \<noteq> 0 then Some c else None), pb_danger = (k > 0)\<rparr>)"

text \<open>The two renderings of a pin tell the same: the rail has a badge exactly when the row has one, red
  exactly when one of the row's is. But the rail's button of a pin whose file is gone still opens it.\<close>

lemma pin_renderings_agree:
  "pb_badge (pin_button cm cf p) = None \<longleftrightarrow> pin_badges (pin_row cm cf ex here p) = []"
  "pb_danger (pin_button cm cf p) \<longleftrightarrow> True \<in> snd ` set (pin_badges (pin_row cm cf ex here p))"
  "pb_label (pin_button cm cf p) = pin_name (pin_row cm cf ex here p)"
  by (auto simp: pin_button_def pin_row_def Let_def)

subsection \<open>The frame's small parts\<close>

definition column_class :: "jstr option \<Rightarrow> jstr option \<Rightarrow> jstr" where
  "column_class width cls =
     join (js '' '') (filter (\<lambda>t. t \<noteq> []) [js ''page'', (case width of None \<Rightarrow> js ''app'' | Some w \<Rightarrow> w), (case cls of None \<Rightarrow> [] | Some c \<Rightarrow> c)])"

text \<open>The brand's name is a button when there is somewhere to go: Enter and space press it.\<close>

definition brand_key :: "bool \<Rightarrow> jstr \<Rightarrow> bool" where
  "brand_key has_home kn \<longleftrightarrow> has_home \<and> (kn = js ''Enter'' \<or> kn = js '' '')"

end
