(* ===== verification/Setup.thy ===== *)
theory Setup
  imports HubPage
begin

section \<open>First run of the desktop app (components/Setup.tsx)\<close>

text \<open>
  The four steps of the onboarding. The sidecar's answers are arguments of the steps that hear them; a
  request is remembered with what it asked for, and may be answered at any time, since nothing cancels
  it. The shell's access to a folder and the clipboard are outcomes.
\<close>

subsection \<open>Choosing the folder\<close>

record Inspect =
  in_error :: "jstr option"
  in_conflict :: "jstr option"
  in_warning :: "jstr option"
  in_helper :: "jstr option"
  in_join :: "jstr option"
  in_root :: "jstr option"
  in_entries :: "jstr list"
  in_truncated :: bool

text \<open>The form: what is typed, the answer shown, the timer of the debounce and the requests that are out.\<close>

record Connect =
  cn_root :: jstr
  cn_name :: jstr
  cn_hooks :: bool
  cn_data :: "Inspect option"
  cn_busy :: bool
  cn_err :: jstr
  cn_timer :: "(jstr \<times> jstr) option"
  cn_out :: "(jstr \<times> jstr) list"
  cn_init :: "(jstr \<times> jstr \<times> bool) list"
  cn_started :: "jstr list"

definition connect0 :: Connect where
  "connect0 = \<lparr>cn_root = [], cn_name = js ''team'', cn_hooks = True, cn_data = None, cn_busy = False, cn_err = [], cn_timer = None,
     cn_out = [], cn_init = [], cn_started = []\<rparr>"

text \<open>The effect on the root and the name: the last timer is cleared; an empty root forgets the answer.\<close>

definition inspect_effect :: "Connect \<Rightarrow> Connect" where
  "inspect_effect s =
     (if cn_root s = [] then s\<lparr>cn_timer := None, cn_data := None\<rparr> else s\<lparr>cn_timer := Some (cn_root s, cn_name s)\<rparr>)"

definition inspect_url :: "jstr \<Rightarrow> jstr \<Rightarrow> jstr option" where
  "inspect_url ro nm =
     (case (encodeURIComponent ro, encodeURIComponent nm) of
        (Some a, Some b) \<Rightarrow> Some (js ''/api/desktop/inspect?path='' @ a @ js ''&name='' @ b) | _ \<Rightarrow> None)"

definition set_root :: "jstr \<Rightarrow> Connect \<Rightarrow> Connect" where
  "set_root v s = (if v = cn_root s then s else inspect_effect (s\<lparr>cn_root := v\<rparr>))"

definition set_name :: "jstr \<Rightarrow> Connect \<Rightarrow> Connect" where
  "set_name v s = (if v = cn_name s then s else inspect_effect (s\<lparr>cn_name := v\<rparr>))"

definition timer_fires :: "Connect \<Rightarrow> Connect" where
  "timer_fires s = (case cn_timer s of None \<Rightarrow> s | Some q \<Rightarrow> s\<lparr>cn_timer := None, cn_out := cn_out s @ [q]\<rparr>)"

text \<open>The answer to the request at a place among those that are out; \<open>None\<close> when it failed.\<close>

definition inspect_answer :: "nat \<Rightarrow> Inspect option \<Rightarrow> Connect \<Rightarrow> Connect" where
  "inspect_answer k ans s =
     (if k < length (cn_out s) then s\<lparr>cn_data := ans, cn_out := take k (cn_out s) @ drop (Suc k) (cn_out s)\<rparr> else s)"

definition joining :: "Connect \<Rightarrow> bool" where
  "joining s = (case cn_data s of None \<Rightarrow> False | Some d \<Rightarrow> in_join d \<noteq> None)"

definition blocked :: "Connect \<Rightarrow> bool" where
  "blocked s \<longleftrightarrow> cn_root s = [] \<or> cn_busy s
     \<or> (case cn_data s of None \<Rightarrow> False | Some d \<Rightarrow> truthy (in_error d) \<or> truthy (in_conflict d))"

definition start_connect :: "Connect \<Rightarrow> Connect" where
  "start_connect s =
     (if blocked s then s else s\<lparr>cn_busy := True, cn_err := [], cn_init := cn_init s @ [(cn_root s, cn_name s, cn_hooks s)]\<rparr>)"

text \<open>How the request to connect ends: the sidecar could not be reached, refused with a text, or began.\<close>

datatype InitAnswer = Unreachable | Refused jstr | Began

definition init_answer :: "InitAnswer \<Rightarrow> jstr \<Rightarrow> Connect \<Rightarrow> Connect" where
  "init_answer a nm s =
     (case a of
        Unreachable \<Rightarrow> s
      | Refused t \<Rightarrow> s\<lparr>cn_busy := False, cn_err := (if trim t \<noteq> [] then trim t else js ''could not connect that folder'')\<rparr>
      | Began \<Rightarrow> s\<lparr>cn_busy := False, cn_started := cn_started s @ [nm]\<rparr>)"

definition connect_error :: "Connect \<Rightarrow> jstr option" where
  "connect_error s =
     (let d = cn_data s; er = Option.bind d in_error; cf = Option.bind d in_conflict
      in if truthy er \<or> truthy cf \<or> cn_err s \<noteq> []
         then Some (if cn_err s \<noteq> [] then cn_err s else case cf of Some t \<Rightarrow> t | None \<Rightarrow> (case er of Some t \<Rightarrow> t | None \<Rightarrow> []))
         else None)"

definition connect_label :: "Connect \<Rightarrow> jstr" where
  "connect_label s = js (if joining s then ''Join '' else ''Create '') @ cn_name s @ js ''/ and start syncing''"

definition tree_preview :: "Inspect option \<Rightarrow> jstr \<Rightarrow> jstr list" where
  "tree_preview d nm =
     [str_or (Option.bind d in_root) (js ''your project'') @ js ''/'']
     @ (case d of None \<Rightarrow> [] | Some d \<Rightarrow> in_entries d @ (if in_truncated d then [[8230]] else []))
     @ [(if nm \<noteq> [] then nm else js ''team'') @ js ''/'']"

datatype ConnectEv = TypeRoot jstr | TypeName jstr | SetHooks bool | TimerFires | InspectAnswer nat "Inspect option" | StartPressed | InitAnswered InitAnswer jstr

fun connect_step :: "Connect \<Rightarrow> ConnectEv \<Rightarrow> Connect" where
  "connect_step s (TypeRoot v) = set_root v s"
| "connect_step s (TypeName v) = set_name v s"
| "connect_step s (SetHooks b) = s\<lparr>cn_hooks := b\<rparr>"
| "connect_step s TimerFires = timer_fires s"
| "connect_step s (InspectAnswer k a) = inspect_answer k a s"
| "connect_step s StartPressed = start_connect s"
| "connect_step s (InitAnswered a nm) = init_answer a nm s"

text \<open>Nothing is started on a folder that is not named, nor twice at once.\<close>

lemma start_guarded:
  "cn_init (connect_step s e) \<noteq> cn_init s \<Longrightarrow>
     e = StartPressed \<and> cn_root s \<noteq> [] \<and> \<not> cn_busy s \<and> cn_init (connect_step s e) = cn_init s @ [(cn_root s, cn_name s, cn_hooks s)]"
  by (cases e)
    (auto simp: set_root_def set_name_def inspect_effect_def timer_fires_def inspect_answer_def start_connect_def blocked_def init_answer_def
      split: if_splits option.splits InitAnswer.splits)

text \<open>But what is shown need not be about what is typed. An answer to an earlier text, arriving late, takes
  the place of the answer to the present one: here the second folder was refused, and the button works.\<close>

definition w_refused :: Inspect where
  "w_refused = \<lparr>in_error = Some (js ''already shared''), in_conflict = None, in_warning = None, in_helper = None, in_join = None,
     in_root = None, in_entries = [], in_truncated = False\<rparr>"

lemma late_answer_unblocks:
  "let s = foldl connect_step connect0
     [TypeRoot (js ''/a''), TimerFires, TypeRoot (js ''/b''), TimerFires, InspectAnswer 1 (Some w_refused),
      InspectAnswer 0 (Some (w_refused\<lparr>in_error := None\<rparr>)), StartPressed]
   in cn_init s = [(js ''/b'', js ''team'', True)]"
  by (simp add: connect0_def w_refused_def set_root_def inspect_effect_def timer_fires_def inspect_answer_def start_connect_def
      blocked_def truthy_def js_def)

text \<open>And a sidecar that cannot be reached leaves the form busy for good: nothing typed or answered frees it.\<close>

lemma unreachable_stays_busy:
  "cn_busy s \<Longrightarrow> list_all (\<lambda>e. case e of InitAnswered a nm \<Rightarrow> a = Unreachable | _ \<Rightarrow> True) es \<Longrightarrow>
     cn_busy (foldl connect_step s es) \<and> blocked (foldl connect_step s es)"
proof (induction es arbitrary: s)
  case (Cons e es)
  have "cn_busy (connect_step s e)"
    using Cons.prems
    by (cases e) (auto simp: set_root_def set_name_def inspect_effect_def timer_fires_def inspect_answer_def start_connect_def
        init_answer_def split: option.splits)
  with Cons.IH [of "connect_step s e"] Cons.prems(2) show ?case by simp
qed (simp add: blocked_def)

subsection \<open>Waiting for the first sync\<close>

datatype Phase = PIdle | PCreating | PConnecting | PSyncing | PDone | PError

record InitStatus =
  st_phase :: Phase
  st_error :: jstr
  st_name :: jstr
  st_project :: jstr
  st_root :: jstr
  st_joined :: bool

definition no_status :: InitStatus where
  "no_status = \<lparr>st_phase = PIdle, st_error = [], st_name = [], st_project = [], st_root = [], st_joined = False\<rparr>"

record Syncing =
  sy_named :: jstr
  sy_st :: InitStatus
  sy_done :: bool
  sy_polls :: nat
  sy_told :: "InitStatus list"

definition syncing0 :: "jstr \<Rightarrow> Syncing" where
  "syncing0 nm = \<lparr>sy_named = nm, sy_st = no_status\<lparr>st_phase := PCreating, st_name := nm\<rparr>, sy_done = False, sy_polls = 0, sy_told = []\<rparr>"

text \<open>A tick asks unless the interval is cleared; polls that are out may be answered in any order.\<close>

definition poll_tick :: "Syncing \<Rightarrow> Syncing" where
  "poll_tick s = (if sy_done s then s else s\<lparr>sy_polls := sy_polls s + 1\<rparr>)"

definition poll_answer :: "InitStatus option \<Rightarrow> Syncing \<Rightarrow> Syncing" where
  "poll_answer ans s =
     (if sy_polls s = 0 then s
      else let s = s\<lparr>sy_polls := sy_polls s - 1\<rparr>
           in case ans of None \<Rightarrow> s
              | Some t \<Rightarrow>
                  let s = s\<lparr>sy_st := t\<lparr>st_name := (if st_name t \<noteq> [] then st_name t else sy_named s)\<rparr>\<rparr>
                  in if \<not> sy_done s \<and> (st_phase t = PDone \<or> st_phase t = PError)
                     then s\<lparr>sy_done := True, sy_told := (if st_phase t = PDone then sy_told s @ [t] else sy_told s)\<rparr>
                     else s)"

definition phase_at :: "Phase \<Rightarrow> nat" where
  "phase_at p = (case p of PConnecting \<Rightarrow> 1 | PSyncing \<Rightarrow> 2 | PDone \<Rightarrow> 3 | _ \<Rightarrow> 0)"

definition sync_log :: "InitStatus \<Rightarrow> (bool \<times> jstr) list" where
  "sync_log t =
     [(phase_at (st_phase t) > 0, js ''created the shared folder''),
      (phase_at (st_phase t) > 1, js (if st_joined t then ''joined the project'' else ''created the project'')),
      (phase_at (st_phase t) > 2, js ''first sync'')]"

datatype SyncEv = Tick | Poll "InitStatus option"

fun sync_step :: "Syncing \<Rightarrow> SyncEv \<Rightarrow> Syncing" where
  "sync_step s Tick = poll_tick s"
| "sync_step s (Poll a) = poll_answer a s"

text \<open>The end is told at most once, and only an end that is a success.\<close>

lemma told_once:
  "let s = foldl sync_step (syncing0 nm) es
   in length (sy_told s) \<le> 1 \<and> list_all (\<lambda>t. st_phase t = PDone) (sy_told s) \<and> (sy_told s \<noteq> [] \<longrightarrow> sy_done s)"
proof -
  have "length (sy_told s) \<le> 1 \<and> list_all (\<lambda>t. st_phase t = PDone) (sy_told s) \<and> (sy_told s \<noteq> [] \<longrightarrow> sy_done s) \<Longrightarrow>
      (let s' = sync_step s e in length (sy_told s') \<le> 1 \<and> list_all (\<lambda>t. st_phase t = PDone) (sy_told s') \<and> (sy_told s' \<noteq> [] \<longrightarrow> sy_done s'))"
    for s e
    by (cases e) (auto simp: poll_tick_def poll_answer_def Let_def split: option.splits)
  then show ?thesis
    unfolding Let_def by (induction es rule: rev_induct) (simp add: syncing0_def, simp)
qed

text \<open>A poll that was out when the failure came, answered after it, hides the failure; nothing polls again.\<close>

lemma late_poll_hides_error:
  "let s = foldl sync_step (syncing0 nm)
     [Tick, Tick, Poll (Some (no_status\<lparr>st_phase := PError, st_error := js ''disk full''\<rparr>)), Poll (Some (no_status\<lparr>st_phase := PSyncing\<rparr>))]
   in st_phase (sy_st s) = PSyncing \<and> sy_done s \<and> (\<forall>n. foldl sync_step s (replicate n Tick) = s)"
proof -
  have "foldl sync_step s (replicate n Tick) = s" if "sy_done s" for s n
    using that by (induction n) (simp_all add: poll_tick_def)
  then show ?thesis by (simp add: syncing0_def poll_tick_def poll_answer_def no_status_def)
qed

subsection \<open>The steps are addresses\<close>

datatype SetupStep = Welcome | ConnectStep | SyncingStep | DoneStep

text \<open>The effect of \<open>Setup\<close>: an address to push on the history.\<close>

definition setup_redirect :: "SetupStep \<Rightarrow> bool \<Rightarrow> jstr option" where
  "setup_redirect st signedIn =
     (if st = Welcome \<and> signedIn then Some (js ''/setup/connect'')
      else if st \<noteq> Welcome \<and> \<not> signedIn then Some (js ''/setup'') else None)"

text \<open>The step is read off the address by the hub page (\<open>setupStep\<close> of theory HubPage).\<close>

definition step_named :: "jstr \<Rightarrow> SetupStep option" where
  "step_named t = map_of [(js ''welcome'', Welcome), (js ''connect'', ConnectStep), (js ''syncing'', SyncingStep), (js ''done'', DoneStep)] t"

definition setup_render :: "bool \<Rightarrow> Nav \<Rightarrow> Nav" where
  "setup_render signedIn s =
     (case Option.bind (Option.bind (setupStep True (Nav.cur s)) step_named) (\<lambda>st. setup_redirect st signedIn) of
        None \<Rightarrow> s | Some u \<Rightarrow> navigate u False s)"

text \<open>The redirect is a new entry of the history, so Back from the form comes back to the form.\<close>

lemma back_returns_to_form:
  assumes "Nav.cur s = js ''/setup''"
  shows "Nav.cur (setup_render True (go_back (setup_render True s))) = js ''/setup/connect''"
  using assms by (simp add: setup_render_def setupStep_def url_path_def step_named_def setup_redirect_def navigate_def go_back_def popstate_def js_def)

text \<open>The last step knows what was shared only from the step before: after a reload it calls the folder
  team, in the prompt it offers to copy too.\<close>

definition done_name :: "InitStatus option \<Rightarrow> jstr" where
  "done_name fin = (let t = (case fin of None \<Rightarrow> no_status | Some t \<Rightarrow> t) in if st_name t \<noteq> [] then st_name t else js ''team'')"

definition done_where :: "InitStatus option \<Rightarrow> jstr" where
  "done_where fin =
     (case fin of None \<Rightarrow> js ''your project''
      | Some t \<Rightarrow> if st_root t \<noteq> [] then after_last 47 (st_root t) else js ''your project'')"

definition done_opens :: "InitStatus option \<Rightarrow> jstr" where
  "done_opens fin = (case fin of None \<Rightarrow> js ''/'' | Some t \<Rightarrow> if st_project t \<noteq> [] then 47 # st_project t else js ''/'')"

lemma reload_forgets_the_folder: "done_name None = js ''team'' \<and> done_opens None = js ''/''"
  by (simp add: done_name_def done_opens_def no_status_def)

end
