(* ===== verification/Settings.thy ===== *)
theory Settings
  imports Questions "HOL-Library.List_Lexorder"
begin

section \<open>Settings of a project and of an organisation (ProjectSettings.tsx, OrgAdmin.tsx)\<close>

text \<open>
  The form of a project's name, description and icon over the values the hub last gave; the people of a
  project; members, invites and apps of an organisation. The form library is used by its documented
  behaviour: a field is dirty when its value is not its default, and \<open>reset\<close> makes the values given both.
  \<open>toLowerCase\<close> and the wording of dates are arguments.
\<close>

subsection \<open>The form\<close>

definition MAX_DESC :: nat where "MAX_DESC = 280"

record Values =
  v_name :: jstr
  v_desc :: jstr
  v_icon :: jstr

text \<open>The schema: the first complaint of each field. A name is trimmed before it is measured.\<close>

definition name_error :: "nat \<Rightarrow> string \<Rightarrow> string \<Rightarrow> jstr \<Rightarrow> jstr option" where
  "name_error most none' long t =
     (if trim t = [] then Some (js none') else if length (trim t) > most then Some (js long) else None)"

definition desc_error :: "jstr \<Rightarrow> jstr option" where
  "desc_error t = (if length t > MAX_DESC then Some (js ''Keep the description under 280 characters.'') else None)"

definition values_ok :: "Values \<Rightarrow> bool" where
  "values_ok v \<longleftrightarrow> name_error 120 ''Give the project a name.'' ''Keep the name under 120 characters.'' (v_name v) = None \<and> desc_error (v_desc v) = None"

record Patch =
  p_name :: "jstr option"
  p_desc :: "jstr option"
  p_icon' :: "jstr option"

text \<open>The form, the values of the project as last read, and what has been sent. \<open>fm_saving\<close> holds the values
  of the submission that is out.\<close>

record Form =
  fm_vals :: Values
  fm_base :: Values
  fm_saving :: "Values option"
  fm_sent :: "Patch list"

definition reset_form :: "Values \<Rightarrow> Form \<Rightarrow> Form" where
  "reset_form v f = f\<lparr>fm_vals := v, fm_base := v\<rparr>"

definition is_dirty :: "Form \<Rightarrow> bool" where
  "is_dirty f \<longleftrightarrow> fm_vals f \<noteq> fm_base f"

definition patch_of :: "Values \<Rightarrow> Values \<Rightarrow> Patch" where
  "patch_of base v =
     \<lparr>p_name = (if v_name v \<noteq> v_name base then Some (trim (v_name v)) else None),
      p_desc = (if v_desc v \<noteq> v_desc base then Some (v_desc v) else None),
      p_icon' = (if v_icon v \<noteq> v_icon base then Some (v_icon v) else None)\<rparr>"

definition save_form :: "bool \<Rightarrow> Form \<Rightarrow> Form" where
  "save_form mayEdit f =
     (if \<not> mayEdit \<or> \<not> is_dirty f \<or> fm_saving f \<noteq> None \<or> \<not> values_ok (fm_vals f) then f
      else f\<lparr>fm_saving := Some (fm_vals f), fm_sent := fm_sent f @ [patch_of (fm_base f) (fm_vals f)]\<rparr>)"

definition save_answer :: "bool \<Rightarrow> Form \<Rightarrow> Form" where
  "save_answer ok f =
     (case fm_saving f of None \<Rightarrow> f
      | Some v \<Rightarrow> let f = f\<lparr>fm_saving := None\<rparr> in if ok then reset_form (v\<lparr>v_name := trim (v_name v)\<rparr>) f else f)"

text \<open>The effect: another project, or new values of this one, seed the form again.\<close>

definition project_read :: "jstr \<times> Values \<Rightarrow> jstr \<times> Values \<Rightarrow> Form \<Rightarrow> Form" where
  "project_read before now f = (if now \<noteq> before then reset_form (snd now) f else f)"

text \<open>What a partial update leaves of the project.\<close>

definition apply_patch :: "Patch \<Rightarrow> Values \<Rightarrow> Values" where
  "apply_patch p v =
     \<lparr>v_name = (case p_name p of None \<Rightarrow> v_name v | Some t \<Rightarrow> t), v_desc = (case p_desc p of None \<Rightarrow> v_desc v | Some t \<Rightarrow> t),
      v_icon = (case p_icon' p of None \<Rightarrow> v_icon v | Some t \<Rightarrow> t)\<rparr>"

text \<open>A save never undoes another's change: of a project that has meanwhile become \<open>now\<close>, the fields the
  reader did not touch stay as they are there, and the touched ones become what was typed.\<close>

lemma save_touches_only:
  "apply_patch (patch_of base v) now =
     \<lparr>v_name = (if v_name v \<noteq> v_name base then trim (v_name v) else v_name now),
      v_desc = (if v_desc v \<noteq> v_desc base then v_desc v else v_desc now),
      v_icon = (if v_icon v \<noteq> v_icon base then v_icon v else v_icon now)\<rparr>"
  by (simp add: apply_patch_def patch_of_def)

lemma save_sends_once:
  "save_form m f \<noteq> f \<Longrightarrow> save_form m (save_form m f) = save_form m f \<and> values_ok (fm_vals f)"
  by (auto simp: save_form_def split: if_splits)

text \<open>Typing goes on while a save is out, and its success puts back what was sent: what was typed meanwhile
  is gone, though the form keeps everything when the save fails. A change by another does the same.\<close>

definition type_desc :: "jstr \<Rightarrow> Form \<Rightarrow> Form" where
  "type_desc t f = f\<lparr>fm_vals := (fm_vals f)\<lparr>v_desc := t\<rparr>\<rparr>"

lemma typed_while_saving_is_lost:
  assumes "save_form True f \<noteq> f" "t \<noteq> v_desc (fm_vals f)"
  shows "v_desc (fm_vals (save_answer True (type_desc t (save_form True f)))) = v_desc (fm_vals f)
    \<and> v_desc (fm_vals (save_answer False (type_desc t (save_form True f)))) = t"
  using assms by (auto simp: save_form_def save_answer_def type_desc_def reset_form_def Let_def split: if_splits)

lemma typed_before_refresh_is_lost:
  "before \<noteq> now \<Longrightarrow> fm_vals (project_read (pid, before) (pid, now) (type_desc t f)) = now"
  by (simp add: project_read_def reset_form_def)

subsection \<open>The people of a project\<close>

record PersonRow =
  pe_email :: jstr
  pe_level :: jstr
  pe_owner :: bool

text \<open>The grants of those who are not owners, then the owners in order. The arguments: the members of the
  organisation with their roles, and the grants.\<close>

definition owners_of :: "(jstr \<Rightarrow> jstr) \<Rightarrow> (jstr \<times> jstr) list \<Rightarrow> jstr list" where
  "owners_of lower mbrs = remdups (map (\<lambda>(e, ro). lower e) (filter (\<lambda>(e, ro). ro = js ''owner'') mbrs))"

definition people_rows :: "(jstr \<Rightarrow> jstr) \<Rightarrow> (jstr \<times> jstr) list \<Rightarrow> (jstr \<times> jstr) list \<Rightarrow> PersonRow list" where
  "people_rows lower mbrs grants =
     (let os = owners_of lower mbrs
      in map (\<lambda>(e, l). \<lparr>pe_email = e, pe_level = l, pe_owner = False\<rparr>) (filter (\<lambda>(e, l). lower e \<notin> set os) grants)
         @ map (\<lambda>e. \<lparr>pe_email = e, pe_level = js ''admin'', pe_owner = True\<rparr>) (sort os))"

text \<open>An owner has one row, says admin, and cannot be edited or removed, whatever the grants say; a grant of
  anyone else has its row.\<close>

lemma owners_are_admins:
  assumes "w \<in> set (people_rows lower mbrs grants)" "lower (pe_email w) \<in> set (owners_of lower mbrs)"
    "\<And>e. lower (lower e) = lower e"
  shows "pe_owner w \<and> pe_level w = js ''admin''"
  using assms by (auto simp: people_rows_def Let_def)

lemma owners_listed_once:
  "map pe_email (filter pe_owner (people_rows lower mbrs grants)) = sort (owners_of lower mbrs)
   \<and> distinct (map pe_email (filter pe_owner (people_rows lower mbrs grants)))"
proof -
  have "filter pe_owner (map (\<lambda>(e, l). \<lparr>pe_email = e, pe_level = l, pe_owner = False\<rparr>) gs) = []" for gs :: "(jstr \<times> jstr) list"
    by (induction gs) auto
  moreover have "filter pe_owner (map (\<lambda>e. \<lparr>pe_email = e, pe_level = js ''admin'', pe_owner = True\<rparr>) es)
      = map (\<lambda>e. \<lparr>pe_email = e, pe_level = js ''admin'', pe_owner = True\<rparr>) es" for es
    by (induction es) auto
  ultimately show ?thesis by (simp add: people_rows_def Let_def comp_def owners_of_def)
qed

datatype AccessReq = PutDefault jstr | PutGrant jstr jstr | DelGrant jstr

text \<open>The level of everyone: invite-only asks first. Adding an address and changing or removing a grant.\<close>

definition set_default :: "jstr \<Rightarrow> bool \<Rightarrow> AccessReq list" where
  "set_default lv agreed = (if lv = js ''none'' \<and> \<not> agreed then [] else [PutDefault lv])"

definition add_person :: "jstr option \<Rightarrow> AccessReq list" where
  "add_person answered = (case answered of None \<Rightarrow> [] | Some e \<Rightarrow> if trim e = [] then [] else [PutGrant (trim e) (js ''read'')])"

definition LEVELS :: "(jstr \<times> jstr) list" where
  "LEVELS = [(js ''admin'', js ''Admin''), (js ''write'', js ''Write''), (js ''read'', js ''Read''), (js ''none'', js ''No access'')]"

definition grant_changed :: "jstr \<Rightarrow> jstr \<Rightarrow> AccessReq \<times> jstr" where
  "grant_changed e lv = (PutGrant e lv, e @ js '' is now '' @ (case map_of LEVELS lv of None \<Rightarrow> lv | Some t \<Rightarrow> t) @ js ''.'')"

definition invite_link :: "jstr \<Rightarrow> jstr \<Rightarrow> jstr" where
  "invite_link u pid = u @ js ''?p='' @ pid"

subsection \<open>Deleting the project, data queries\<close>

definition delete_question :: "jstr \<Rightarrow> Question" where
  "delete_question pname =
     Prompt (js ''Delete '' @ [8220] @ pname @ [8221] @ js ''?'') (js ''This can'' @ [39] @ js ''t be undone. Type the project name to confirm:'')
       [] (js ''Delete project'') (Some pname) True"

definition delete_sends :: "Reply \<Rightarrow> bool" where
  "delete_sends a = (case a of Typed v \<Rightarrow> True | _ \<Rightarrow> False)"

text \<open>A project is deleted only by typing its name: of the answers that fit the question, only that one
  sends anything.\<close>

lemma delete_needs_the_name: "fits (delete_question pname) a \<Longrightarrow> delete_sends a \<Longrightarrow> (\<exists>v. a = Typed v \<and> trim v = pname)"
  by (auto simp: fits_def delete_question_def delete_sends_def split: Reply.splits)

definition data_button :: "bool \<Rightarrow> jstr \<times> bool \<times> jstr" where
  "data_button on =
     (js (if on then ''Turn off data queries'' else ''Turn on data queries''), \<not> on,
      js (if on then ''Data queries are off.'' else ''Data queries are on. Indexing has started.''))"

text \<open>Where the button is offered: to those who may write, though the comment above it says to administrators.\<close>

definition data_offered :: "jstr option \<Rightarrow> bool" where
  "data_offered perm = atLeast perm ''write''"

lemma data_offered_to_writers: "data_offered (Some (js ''write'')) \<and> \<not> atLeast (Some (js ''write'')) ''admin''"
  by code_simp

subsection \<open>An organisation\<close>

definition member_name :: "(jstr \<Rightarrow> jstr) \<Rightarrow> jstr \<Rightarrow> jstr \<Rightarrow> jstr" where
  "member_name lower me e = e @ (if me \<noteq> [] \<and> lower e = lower me then js ''  (you)'' else [])"

definition role_editable :: "(jstr \<Rightarrow> jstr) \<Rightarrow> bool \<Rightarrow> jstr \<Rightarrow> jstr \<Rightarrow> bool" where
  "role_editable lower isOwner me e \<longleftrightarrow> isOwner \<and> \<not> (me \<noteq> [] \<and> lower e = lower me)"

definition invite_tag :: "jstr option \<Rightarrow> nat \<Rightarrow> jstr \<Rightarrow> jstr" where
  "invite_tag creator uses expires_on =
     (if truthy creator then js ''by '' @ the creator @ DOT else [])
     @ (if uses \<noteq> 0 then nat_str uses @ js '' joined'' @ DOT else js ''unused'' @ DOT) @ js ''expires '' @ expires_on"

definition key_tag :: "jstr \<Rightarrow> jstr option \<Rightarrow> jstr" where
  "key_tag created_on used_on =
     js ''created '' @ created_on @ DOT @ (if truthy used_on then js ''last used '' @ the used_on else js ''never used'')"

definition new_app :: "jstr option \<Rightarrow> jstr option" where
  "new_app answered = (case answered of None \<Rightarrow> None | Some t \<Rightarrow> if trim t = [] then None else Some (trim t))"

text \<open>Nobody takes the owner's role from themselves here.\<close>

lemma own_role_fixed: "me \<noteq> [] \<Longrightarrow> \<not> role_editable lower isOwner me me"
  by (simp add: role_editable_def)

end
