(* ===== verification/Listing.thy ===== *)
theory Listing
  imports HistoryFeed Ambient
begin

section \<open>The home page and the folder listing (components/Home.tsx, components/FolderListing.tsx)\<close>

text \<open>
  What the home page says and shows from the data other modules compute (theories Feed, Runs): the line
  about the last visit, what needs attention, the feed by actor, devices, where reads go; and the rows of
  a folder. Names are compared by the collation of the locale, an argument as are the wording of dates
  and \<open>Date.parse\<close>.
\<close>

subsection \<open>The line under the greeting\<close>

definition plural_s :: "nat \<Rightarrow> jstr" where
  "plural_s n = (if n = 1 then [] else js ''s'')"

definition since_line :: "SinceSummary \<Rightarrow> int \<Rightarrow> int \<Rightarrow> jstr" where
  "since_line s since now =
     (if changes s = 0 then js ''Nothing changed since your last visit '' @ agoText since now @ js ''.''
      else js ''Since your last visit '' @ agoText since now @ js '' '' @ [8212] @ js '' '' @ nat_str (changes s)
        @ (if capped s then js ''+'' else []) @ js '' change'' @ plural_s (changes s) @ js '' across '' @ nat_str (sfiles s)
        @ js '' file'' @ plural_s (sfiles s)
        @ (if sagent s \<noteq> 0 then js '', '' @ nat_str (sagent s) @ js '' of them by agents.'' else js ''.''))"

definition home_line :: "SinceSummary option \<Rightarrow> jstr option \<Rightarrow> int \<Rightarrow> int \<Rightarrow> jstr" where
  "home_line s descr since now = (case s of Some s \<Rightarrow> since_line s since now | None \<Rightarrow> str_or descr [])"

subsection \<open>What needs attention\<close>

text \<open>\<open>mine\<close> is the set of files whose last change is the reader's; a thread counts for its path when it is
  on one of them or the reader wrote in it. The count per path keeps the order of first threads.\<close>

definition in_thread :: "jstr \<Rightarrow> CommentThread \<Rightarrow> bool" where
  "in_thread me t \<longleftrightarrow> tauthor t = Some me \<or> list_ex (\<lambda>m. mauthor m = Some me) (tmessages t)"

fun count_up :: "jstr \<Rightarrow> (jstr \<times> nat) list \<Rightarrow> (jstr \<times> nat) list" where
  "count_up p [] = [(p, 1)]"
| "count_up p ((q, n) # xs) = (if q = p then (q, n + 1) # xs else (q, n) # count_up p xs)"

definition concerns :: "jstr option \<Rightarrow> jstr set \<Rightarrow> CommentThread \<Rightarrow> bool" where
  "concerns me mine' t \<longleftrightarrow> tpath t \<in> mine' \<or> (case me of None \<Rightarrow> False | Some m \<Rightarrow> in_thread m t)"

definition comment_counts :: "jstr option \<Rightarrow> jstr set \<Rightarrow> CommentThread list \<Rightarrow> (jstr \<times> nat) list" where
  "comment_counts me mine' ts = foldl (\<lambda>acc t. if concerns me mine' t then count_up (tpath t) acc else acc) [] ts"

definition mine_of :: "jstr option \<Rightarrow> (jstr \<Rightarrow> jstr option) \<Rightarrow> Node list \<Rightarrow> jstr set" where
  "mine_of me user_of fs = (case me of None \<Rightarrow> {} | Some m \<Rightarrow> npath ` set (filter (\<lambda>f. user_of (npath f) = Some m) fs))"

definition STALE_ROWS :: nat where "STALE_ROWS = 3"

definition attention :: "(jstr \<Rightarrow> int option) \<Rightarrow> jstr option \<Rightarrow> (jstr \<Rightarrow> jstr option) \<Rightarrow> Node list \<Rightarrow> CommentThread list \<Rightarrow> HeatMap option \<Rightarrow> int
    \<Rightarrow> Attention list" where
  "attention pd me user_of fs ts h now =
     conflictsIn fs @ map (\<lambda>(p, n). CommentsA p n) (comment_counts me (mine_of me user_of fs) ts) @ staleHot pd fs h now STALE_ROWS"

lemma count_up_map: "map_of (count_up p xs) = (map_of xs)(p \<mapsto> (case map_of xs p of None \<Rightarrow> 1 | Some n \<Rightarrow> n + 1))"
  by (induction xs) auto

lemma count_up_keys: "fst ` set (count_up p xs) = insert p (fst ` set xs)"
  using arg_cong [OF count_up_map [of p xs], of dom] by (auto simp: dom_map_of_conv_image_fst)

lemma count_up_distinct: "distinct (map fst xs) \<Longrightarrow> distinct (map fst (count_up p xs))"
proof (induction xs)
  case (Cons x xs)
  then show ?case using count_up_keys [of p xs] by (cases x) (auto simp: image_iff)
qed simp

text \<open>Every path with an open thread that concerns the reader has one row, with the number of those threads,
  and no other path has one.\<close>

lemma comment_counts_exact:
  "distinct (map fst (comment_counts me mn ts))"
  "map_of (comment_counts me mn ts) p
     = (let n = length (filter (\<lambda>t. concerns me mn t \<and> tpath t = p) ts) in if n = 0 then None else Some n)"
proof -
  have "distinct (map fst (comment_counts me mn ts)) \<and> map_of (comment_counts me mn ts) p
     = (let n = length (filter (\<lambda>t. concerns me mn t \<and> tpath t = p) ts) in if n = 0 then None else Some n)"
  proof (induction ts rule: rev_induct)
    case (snoc t ts)
    have "comment_counts me mn (ts @ [t])
        = (if concerns me mn t then count_up (tpath t) (comment_counts me mn ts) else comment_counts me mn ts)"
      by (simp add: comment_counts_def)
    with snoc show ?case
      by (cases "tpath t = p") (auto simp: count_up_map count_up_distinct Let_def simp del: map_of_eq_Some_iff map_of_eq_None_iff)
  qed (simp add: comment_counts_def Let_def)
  then show "distinct (map fst (comment_counts me mn ts))"
    "map_of (comment_counts me mn ts) p = (let n = length (filter (\<lambda>t. concerns me mn t \<and> tpath t = p) ts) in if n = 0 then None else Some n)"
    by blast+
qed

text \<open>\<open>AttentionRow\<close>: title (before, bold, after), what stands under it, what the button says.\<close>

definition attention_row :: "(int \<Rightarrow> jstr \<Rightarrow> jstr) \<Rightarrow> Attention \<Rightarrow> (jstr \<times> jstr \<times> jstr) \<times> jstr \<times> jstr" where
  "attention_row rtf a =
     (case a of
        ConflictA p orig dev \<Rightarrow>
          ((js ''Sync conflict on '', orig, []), js ''A diverged copy from '' @ (if dev \<noteq> [] then dev else js ''another device'') @ js '' was kept beside it'',
           js ''Resolve'')
      | CommentsA p n \<Rightarrow> ((nat_str n @ js '' open comment'' @ plural_s n @ js '' on '', after_last 47 p, []), p, js ''Reply'')
      | StaleA p n days \<Rightarrow>
          (([], after_last 47 p, js '' is read a lot but going stale''),
           nat_str n @ js '' reads in 30d '' @ [183] @ js '' last changed '' @ agoLabel rtf days, js ''Review''))"

subsection \<open>The feed\<close>

datatype Actor = Everyone | Agents | People

definition by_actor :: "Actor \<Rightarrow> HEntry list \<Rightarrow> HEntry list" where
  "by_actor a es = (if a = Everyone then es else filter (\<lambda>e. (a = Agents) = isAgent e) es)"

definition entry_who :: "HEntry \<Rightarrow> jstr" where
  "entry_who e = (if isAgent e then agentName (enote e) else str_or (huser_name e) (str_or (hauthor e) (js ''Someone'')))"

definition entry_what :: "HEntry \<Rightarrow> Run option \<Rightarrow> jstr" where
  "entry_what e run =
     (case run of
        Some r' \<Rightarrow> js (if ckind e = js ''delete'' then ''changed '' else ''updated '') @ nat_str (runFileCount r') @ js '' files''
      | None \<Rightarrow> js (if ckind e = js ''add'' then ''created'' else if ckind e = js ''delete'' then ''deleted'' else ''edited''))"

text \<open>The path under it: a folder for a run, a link unless the file is gone.\<close>

definition entry_where :: "HEntry \<Rightarrow> Run option \<Rightarrow> jstr \<times> bool" where
  "entry_where e run =
     (case run of
        Some r' \<Rightarrow> (if upto_last 47 (path e) \<noteq> [] then upto_last 47 (path e) else path e, False)
      | None \<Rightarrow> (path e, ckind e \<noteq> js ''delete''))"

text \<open>Filtering by actor splits the feed in two without losing an entry.\<close>

lemma by_actor_splits: "set (by_actor Agents es) \<union> set (by_actor People es) = set es" "set (by_actor Agents es) \<inter> set (by_actor People es) = {}"
  by (auto simp: by_actor_def)

subsection \<open>Devices and reads\<close>

definition device_line :: "int \<Rightarrow> DeviceRow \<Rightarrow> bool \<times> jstr" where
  "device_line now d =
     (let on = (now - dlast d < ACTIVE_MS)
      in (on, (if on then js ''Active now'' else js ''Last change '' @ agoText (dlast d) now) @ (if you d then js '' '' @ [183] @ js '' you'' else [])))"

definition shown_devices :: "DeviceRow list \<Rightarrow> DeviceRow list \<times> nat" where
  "shown_devices ds = (take 5 ds, length ds - 5)"

definition read_bar :: "FolderReads list \<Rightarrow> FolderReads \<Rightarrow> rat" where
  "read_bar fs f = 100 * of_nat (freads f) / of_nat (freads (hd fs))"

text \<open>A bar never leaves its track, and the first fills it.\<close>

lemma read_bar_within:
  assumes "f \<in> set (readsByFolder pd tree h now)"
  shows "0 < read_bar (readsByFolder pd tree h now) f \<and> read_bar (readsByFolder pd tree h now) f \<le> 100"
proof -
  obtain nd hm where th: "tree = Some nd" "h = Some hm" using assms by (auto simp: readsByFolder_def split: option.splits)
  let ?fs = "readsByFolder pd tree h now"
  have fs: "?fs = sort_key (\<lambda>f. - int (freads f)) (concat (map (folder_row pd hm now) (nchildren nd)))" by (simp add: readsByFolder_def th)
  have pos: "0 < freads g" if "g \<in> set ?fs" for g
    using that by (auto simp: fs folder_row_def Let_def split: if_splits)
  have "sorted (map (\<lambda>f. - int (freads f)) ?fs)" by (simp add: fs)
  then have "freads f \<le> freads (hd ?fs)" using assms by (cases ?fs) auto
  moreover from assms have "?fs \<noteq> []" by auto
  then have "0 < freads (hd ?fs)" by (rule pos [OF hd_in_set])
  moreover have "0 < freads f" using assms by (rule pos)
  ultimately show ?thesis by (simp add: read_bar_def field_simps)
qed

subsection \<open>A folder's listing\<close>

text \<open>Folders first, then by name: the comparator is the first difference, the sort is stable.\<close>

definition listed_children :: "(jstr \<Rightarrow> nat) \<Rightarrow> Node \<Rightarrow> Node list" where
  "listed_children collation nd = sort_key (\<lambda>c. if ndir c then (0 :: nat) else 1) (sort_key (\<lambda>c. collation (nname c)) (nchildren nd))"

definition listing_counts :: "HeatMap option \<Rightarrow> Node \<Rightarrow> jstr list" where
  "listing_counts h nd =
     (let ds = length (filter ndir (nchildren nd)); fs = length (nchildren nd) - ds
      in (if ds \<noteq> 0 then [nat_str ds @ js (if ds = 1 then '' folder'' else '' folders'')] else [])
         @ (if fs \<noteq> 0 then [nat_str fs @ js (if fs = 1 then '' file'' else '' files'')] else [])
         @ (case heatFor h (npath nd) True of None \<Rightarrow> [] | Some e \<Rightarrow> [heatText e @ js '' in 30 days'']))"

definition SEP :: jstr where "SEP = js '' '' @ [183] @ js '' ''"

definition listing_sub :: "HeatMap option \<Rightarrow> Node \<Rightarrow> jstr" where
  "listing_sub h nd = (let t = join SEP (listing_counts h nd) in if t \<noteq> [] then t else js ''Empty folder'')"

definition listing_heatnote :: "HeatMap option \<Rightarrow> Node \<Rightarrow> bool" where
  "listing_heatnote h nd \<longleftrightarrow> heatFor h (npath nd) True \<noteq> None \<or> list_ex (\<lambda>c. heatFor h (npath c) (ndir c) \<noteq> None) (nchildren nd)"

record ListRow =
  lr_path :: jstr
  lr_meta :: jstr
  lr_rule :: "jstr option"
  lr_conflict :: "Conflict option"
  lr_stale :: jstr
  lr_level :: "nat option"

definition row_meta :: "(jstr \<Rightarrow> nat option) \<Rightarrow> (jstr \<Rightarrow> jstr) \<Rightarrow> HeatMap option \<Rightarrow> Node \<Rightarrow> jstr" where
  "row_meta size_of day h c =
     (let m = (if ndir c then (let n = length (nchildren c) in nat_str n @ js (if n = 1 then '' item'' else '' items''))
               else join SEP (filter (\<lambda>t. t \<noteq> [])
                 [(case size_of (npath c) of None \<Rightarrow> [] | Some n \<Rightarrow> if n = 0 then [] else humanSize n),
                  (if truthy (ntime c) then day (the (ntime c)) else [])]))
      in case heatFor h (npath c) (ndir c) of None \<Rightarrow> m | Some e \<Rightarrow> heatText e @ (if m \<noteq> [] then SEP @ m else []))"

text \<open>The badge of a folder's own rule: its default level, or that it is restricted.\<close>

definition rule_badge :: "(jstr \<times> jstr) list \<Rightarrow> Node \<Rightarrow> jstr option" where
  "rule_badge rls c =
     (if \<not> ndir c then None
      else map_option (\<lambda>d. if d = js ''none'' then js ''restricted'' else if d \<noteq> [] then d else js ''shared'') (map_of rls (npath c @ [47])))"

definition list_row :: "(jstr \<Rightarrow> nat option) \<Rightarrow> (jstr \<Rightarrow> jstr) \<Rightarrow> (int \<Rightarrow> jstr \<Rightarrow> jstr) \<Rightarrow> (jstr \<Rightarrow> int option) \<Rightarrow> int \<Rightarrow> HeatMap option \<Rightarrow> (jstr \<times> jstr) list
    \<Rightarrow> Node \<Rightarrow> ListRow" where
  "list_row size_of day rtf pd now h rls c =
     (let he = heatFor h (npath c) (ndir c)
      in \<lparr>lr_path = npath c, lr_meta = row_meta size_of day h c, lr_rule = rule_badge rls c,
          lr_conflict = (if ndir c then None else parseConflict (npath c)),
          lr_stale = (if ndir c then [] else staleNote rtf pd he (ntime c) now),
          lr_level = map_option heatLevel he\<rparr>)"

text \<open>The listing shows every child once, folders before files, each kind in the order of its names.\<close>

lemma listed_all: "mset (listed_children col nd) = mset (nchildren nd)"
  by (simp add: listed_children_def)

lemma listed_order:
  "i < j \<Longrightarrow> j < length (listed_children col nd) \<Longrightarrow> ndir (listed_children col nd ! j) \<Longrightarrow> ndir (listed_children col nd ! i)"
proof -
  have "sorted (map (\<lambda>c. if ndir c then (0 :: nat) else 1) (listed_children col nd))" by (simp add: listed_children_def)
  then show "i < j \<Longrightarrow> j < length (listed_children col nd) \<Longrightarrow> ndir (listed_children col nd ! j) \<Longrightarrow> ndir (listed_children col nd ! i)"
    using sorted_nth_mono [of "map (\<lambda>c. if ndir c then (0 :: nat) else 1) (listed_children col nd)" i j] by (auto split: if_splits)
qed

text \<open>On the home page the listing is that of the root, whose path is empty: its reads are looked for under a
  slash, where no path is, so the line never counts them.\<close>

lemma root_counts_no_reads:
  assumes "list_all (\<lambda>(q, e). \<not> starts_with q (js ''/'')) hm"
  shows "heatFor (Some hm) [] True = None"
proof -
  have "under [] hm = []" using assms by (auto simp: under_def list_all_iff filter_empty_conv)
  then show ?thesis by (simp add: heatFor_def)
qed

end
