(* ===== verification/Rails.thy ===== *)
theory Rails
  imports Listing Meeting Page
begin

section \<open>Rails, banners and small parts of the file page\<close>

text \<open>
  The head and the rail of a document (\<open>FileRail.tsx\<close>), the rail of the editor (\<open>EditRail.tsx\<close>), the question
  of the shrink guard (\<open>ShrinkDialog.tsx\<close>), the handles of the reading width (\<open>WidthHandle.tsx\<close>), the banners
  of versions, the people present and the breadcrumbs. Measured positions, case mapping and the wording of
  dates are arguments.
\<close>

subsection \<open>The head of a document\<close>

text \<open>A property of the frontmatter, by the first of several names whose first pair holds text.\<close>

record FmPair =
  fm_key :: jstr
  fm_value :: jstr
  fm_code :: bool

fun fm :: "(jstr \<Rightarrow> jstr) \<Rightarrow> FmPair list \<Rightarrow> jstr list \<Rightarrow> jstr" where
  "fm lower pairs [] = []"
| "fm lower pairs (k # ks) =
     (case find (\<lambda>p. lower (fm_key p) = k) pairs of
        Some hit \<Rightarrow> if \<not> fm_code hit \<and> trim (fm_value hit) \<noteq> [] then trim (fm_value hit) else fm lower pairs ks
      | None \<Rightarrow> fm lower pairs ks)"

definition okf_chip :: "(jstr \<Rightarrow> jstr) \<Rightarrow> FmPair list \<Rightarrow> jstr option" where
  "okf_chip lower pairs =
     (let v = fm lower pairs [js ''okf_version'', js ''okf-version'', js ''okf'']
      in if v = [] then None else Some (js ''OKF v'' @ (if hd v = 118 \<or> hd v = 86 then tl v else v)))"

definition edited_line :: "(int \<Rightarrow> jstr \<Rightarrow> jstr) \<Rightarrow> Who \<Rightarrow> rat option \<Rightarrow> (jstr \<times> jstr) option" where
  "edited_line rtf w days =
     (if truthy (user_name w) \<or> truthy (user w) \<or> truthy (author w)
      then Some (whoChanged w, displayName w @ js '' edited''
             @ (case days of None \<Rightarrow> [] | Some d \<Rightarrow> js '' '' @ (if d < 1 then js ''today'' else agoLabel rtf d)))
      else None)"

definition reads_line :: "HeatEntry option \<Rightarrow> jstr option" where
  "reads_line h =
     (case h of None \<Rightarrow> None
      | Some e \<Rightarrow> if heatTotal e = 0 then None
          else Some (nat_str (heatTotal e) @ js (if heatTotal e = 1 then '' read'' else '' reads'') @ js '' / 30d''))"

lemma fm_found: "fm lower pairs ks \<noteq> [] \<Longrightarrow> \<exists>p \<in> set pairs. lower (fm_key p) \<in> set ks \<and> \<not> fm_code p \<and> fm lower pairs ks = trim (fm_value p)"
  by (induction lower pairs ks rule: fm.induct) (auto split: option.splits if_splits dest!: find_SomeD)

subsection \<open>The rail\<close>

definition rail_shown :: "bool \<Rightarrow> bool \<Rightarrow> HeatEntry option \<Rightarrow> bool" where
  "rail_shown has_toc has_fm h \<longleftrightarrow> has_toc \<or> has_fm \<or> (case h of None \<Rightarrow> False | Some e \<Rightarrow> heatTotal e \<noteq> 0)"

definition read_parts :: "HeatEntry \<Rightarrow> (jstr \<times> nat) list" where
  "read_parts e = filter (\<lambda>(l, n). n > 0) [(js ''agent'', agent e), (js ''human'', human e), (js ''shared'', share e)]"

lemma read_parts_sum: "sum_list (map snd (read_parts e)) = heatTotal e"
  by (auto simp: read_parts_def heatTotal_def)

text \<open>The heading the reader is in: the last whose top is above the line, the first before any is, and the
  last of all at the bottom of the page. \<open>None\<close> as a top is a heading that is not in the page.\<close>

definition active_heading :: "(jstr \<times> rat option) list \<Rightarrow> rat \<Rightarrow> bool \<Rightarrow> jstr option" where
  "active_heading toc y0 bottom =
     (case toc of [] \<Rightarrow> None
      | t # _ \<Rightarrow>
          let c = foldl (\<lambda>c (i, y). case y of Some v \<Rightarrow> if v \<le> y0 then i else c | None \<Rightarrow> c) (fst t) toc
          in Some (if bottom then fst (last toc) else c))"

definition at_bottom :: "rat \<Rightarrow> rat \<Rightarrow> rat \<Rightarrow> bool" where
  "at_bottom scrolled vis full_height \<longleftrightarrow> scrolled > 0 \<and> scrolled + vis \<ge> full_height - 2"

lemma active_heading_listed: "toc \<noteq> [] \<Longrightarrow> \<exists>i. active_heading toc y0 b = Some i \<and> i \<in> fst ` set toc"
proof -
  have "foldl (\<lambda>c (i, y). case y of Some v \<Rightarrow> if v \<le> y0 then i else c | None \<Rightarrow> c) c ts \<in> insert c (fst ` set ts)" for c ts
  proof (induction ts arbitrary: c)
    case (Cons t ts)
    from Cons.IH [of "case t of (i, y) \<Rightarrow> case y of Some v \<Rightarrow> if v \<le> y0 then i else c | None \<Rightarrow> c"] show ?case
      by (cases t) (auto split: option.splits if_splits)
  qed simp
  from this [of "fst (hd toc)" toc] show "toc \<noteq> [] \<Longrightarrow> \<exists>i. active_heading toc y0 b = Some i \<and> i \<in> fst ` set toc"
    by (cases b; cases toc) (auto simp: active_heading_def Let_def simp del: foldl_Cons)
qed

subsection \<open>The rail of the editor\<close>

text \<open>A section counts as a person when its name is at most three words and speaks of no discussion, agenda
  or notes.\<close>

definition is_person :: "(jstr \<Rightarrow> jstr) \<Rightarrow> Section \<Rightarrow> bool" where
  "is_person lower s \<longleftrightarrow> length (split_ws (sname s)) \<le> 3
     \<and> \<not> includes_str (lower (sname s)) (js ''discussion'') \<and> \<not> includes_str (lower (sname s)) (js ''agenda'')
     \<and> \<not> ends_with (lower (sname s)) (js ''note'') \<and> \<not> ends_with (lower (sname s)) (js ''notes'')"

definition attendee_state :: "(jstr \<Rightarrow> jstr) \<Rightarrow> jstr \<Rightarrow> jstr list \<Rightarrow> jstr set \<Rightarrow> Section \<Rightarrow> jstr" where
  "attendee_state lower me editors typing s =
     (if sameName lower (sname s) me \<and> list_ex (sameName lower (sname s)) editors then js ''You '' @ [183] @ js '' editing''
      else if sname s \<in> typing then js ''Typing'' @ [8230]
      else js (if sbody s \<noteq> [] then ''Done'' else ''Not started''))"

definition attendees :: "(jstr \<Rightarrow> jstr) \<Rightarrow> Section list \<Rightarrow> Section list \<times> nat" where
  "attendees lower secs = (let ps = filter (is_person lower) secs in (ps, length (filter (\<lambda>s. sbody s \<noteq> []) ps)))"

definition items_open :: "ActionItem list \<Rightarrow> nat" where
  "items_open its = length (filter (\<lambda>i. \<not> checked i) its)"

definition item_note :: "ActionItem \<Rightarrow> jstr \<times> jstr" where
  "item_note i =
     ((if itext i \<noteq> [] then itext i else js ''(untitled)''),
      (if owner i \<noteq> [] then 64 # owner i else js ''no owner'') @ (if isection i \<noteq> [] then SEP @ isection i else []))"

text \<open>The versions: those of the path with content, newest first, one more asked for than is shown.\<close>

definition VERSIONS :: nat where "VERSIONS = 6"

definition versions_url :: "jstr \<Rightarrow> jstr \<Rightarrow> jstr option" where
  "versions_url api p = map_option (\<lambda>q. api @ js ''history?path='' @ q @ js ''&n='' @ nat_str (VERSIONS + 1)) (encodeURIComponent p)"

definition versions_of :: "jstr \<Rightarrow> HEntry list \<Rightarrow> HEntry list" where
  "versions_of p es = filter (\<lambda>e. path e = p \<and> truthy (blob e) \<and> ckind e \<noteq> js ''delete'') es"

definition version_rows :: "jstr \<Rightarrow> HEntry list \<Rightarrow> (HEntry \<times> bool) list" where
  "version_rows p es =
     (let vs = versions_of p es; hd' = (case vs of [] \<Rightarrow> None | v # _ \<Rightarrow> blob v)
      in map (\<lambda>e. (e, blob e \<noteq> hd')) (take VERSIONS vs))"

text \<open>The button is offered exactly where it would change the file: the newest content is never offered, at
  whatever age it recurs, and everything else that is listed is.\<close>

lemma version_rows_offer:
  assumes "(e, b) \<in> set (version_rows p es)"
  shows "b = (blob e \<noteq> blob (hd (versions_of p es))) \<and> e \<in> set es \<and> path e = p \<and> truthy (blob e)"
proof -
  from assms have "e \<in> set (take VERSIONS (versions_of p es))" by (auto simp: version_rows_def Let_def)
  then have e: "e \<in> set (versions_of p es)" by (rule in_set_takeD)
  with assms show ?thesis
    by (cases "versions_of p es") (auto simp: version_rows_def Let_def versions_of_def dest!: in_set_takeD split: list.splits)
qed

text \<open>A restoration: what is sent and the words that follow. \<open>folded\<close> is passed on to the open document.\<close>

definition restore_sent :: "HEntry \<Rightarrow> jstr \<times> jstr" where
  "restore_sent e = (path e, str_or (blob e) [])"

definition restore_done :: "jstr \<Rightarrow> jstr + bool \<Rightarrow> (jstr \<times> bool) \<times> bool option" where
  "restore_done at' ans =
     (case ans of Inl m \<Rightarrow> ((js ''Could not restore: '' @ m, True), None)
      | Inr folded \<Rightarrow> ((js ''Restored the version from '' @ at' @ js ''.'', False), Some folded))"

subsection \<open>The shrink question\<close>

text \<open>The dialog of the app-wide question; an ask is told by its number. Which answer is running for which ask
  is remembered apart from the ask that is shown.\<close>

record ShrinkAsk =
  ask_no :: nat
  ask_path :: jstr
  ask_was :: nat
  ask_now :: nat

record ShrinkHost =
  sh_current :: "ShrinkAsk option"
  sh_busy :: "nat option"
  sh_ran :: "(nat \<times> bool) list"

definition shrink_ask :: "ShrinkAsk \<Rightarrow> ShrinkHost \<Rightarrow> ShrinkHost" where
  "shrink_ask a s = s\<lparr>sh_current := Some a\<rparr>"

definition shrink_withdraw :: "nat \<Rightarrow> ShrinkHost \<Rightarrow> ShrinkHost" where
  "shrink_withdraw n s = (if map_option ask_no (sh_current s) = Some n then s\<lparr>sh_current := None\<rparr> else s)"

text \<open>A button, or Escape and the click outside for keeping: disabled while this ask's answer runs.\<close>

definition shrink_run :: "bool \<Rightarrow> ShrinkHost \<Rightarrow> ShrinkHost" where
  "shrink_run confirm s =
     (case sh_current s of None \<Rightarrow> s
      | Some a \<Rightarrow> if sh_busy s = Some (ask_no a) then s
          else s\<lparr>sh_busy := Some (ask_no a), sh_ran := sh_ran s @ [(ask_no a, confirm)]\<rparr>)"

definition shrink_ended :: "nat \<Rightarrow> ShrinkHost \<Rightarrow> ShrinkHost" where
  "shrink_ended n s = shrink_withdraw n (if sh_busy s = Some n then s\<lparr>sh_busy := None\<rparr> else s)"

definition shrink_title :: "ShrinkAsk \<Rightarrow> jstr" where
  "shrink_title a = js (if ask_now a = 0 then ''This save would erase the note'' else ''This save would cut most of the note'')"

text \<open>An answer runs for the question that is shown, and the end of an earlier one closes no later question.\<close>

lemma shrink_answers_shown:
  "sh_ran (shrink_run c s) \<noteq> sh_ran s \<Longrightarrow> (\<exists>a. sh_current s = Some a \<and> sh_ran (shrink_run c s) = sh_ran s @ [(ask_no a, c)])"
  "sh_current s = Some a \<Longrightarrow> ask_no a \<noteq> n \<Longrightarrow> sh_current (shrink_ended n s) = Some a"
  by (auto simp: shrink_run_def shrink_ended_def shrink_withdraw_def split: option.splits if_splits)

subsection \<open>The handles of the reading width\<close>

definition STEP :: int where "STEP = 32"
definition RAIL :: int where "RAIL = 300"

definition room_for :: "int \<Rightarrow> int \<Rightarrow> bool \<Rightarrow> int" where
  "room_for client pads beside = client - pads - (if beside then RAIL else 0)"

text \<open>A drag from \<open>x0\<close>: the width at a pointer position, on the right or the left handle.\<close>

definition drag_width :: "bool \<Rightarrow> int \<Rightarrow> int \<Rightarrow> int \<Rightarrow> int \<Rightarrow> int" where
  "drag_width right width rm x0 x = clampReadWidth (min width rm + 2 * (if right then x - x0 else x0 - x)) rm"

definition drag_commits :: "bool \<Rightarrow> int \<Rightarrow> int \<Rightarrow> int \<Rightarrow> int list \<Rightarrow> int option" where
  "drag_commits right width rm x0 xs = (if xs = [] then None else Some (drag_width right width rm x0 (last xs)))"

definition nudge :: "bool \<Rightarrow> jstr \<Rightarrow> int \<Rightarrow> int \<Rightarrow> int option" where
  "nudge right kn width rm =
     (let wider = js (if right then ''ArrowRight'' else ''ArrowLeft''); narrower = js (if right then ''ArrowLeft'' else ''ArrowRight'')
      in if kn \<noteq> wider \<and> kn \<noteq> narrower then None
         else Some (clampReadWidth (min width rm + (if kn = wider then STEP else - STEP)) rm))"

text \<open>The edge stays under the pointer: within the bounds, half of the change of a centred column's width is
  the way the pointer went.\<close>

lemma edge_under_pointer:
  assumes "READ_MIN \<le> min width rm + 2 * (x - x0)" "min width rm + 2 * (x - x0) \<le> rm"
  shows "2 * (x - x0) = drag_width True width rm x0 x - min width rm"
  using assms by (simp add: drag_width_def clampReadWidth_def)

lemma click_commits_nothing: "drag_commits right width rm x0 [] = None"
  by (simp add: drag_commits_def)

subsection \<open>Banners, people, breadcrumbs\<close>

definition version_banner :: "(jstr \<Rightarrow> jstr) \<Rightarrow> jstr \<Rightarrow> HEntry list \<Rightarrow> jstr" where
  "version_banner stamp_of v es =
     (case find (\<lambda>e. blob e = Some v) es of
        None \<Rightarrow> js ''Earlier version''
      | Some e \<Rightarrow>
          join (js '' '')
            ((if ctime e \<noteq> [] then [js ''Version from '' @ stamp_of (ctime e)] else []) @ [js ''by '' @ whoChanged (who_of e)]))"

definition conflict_who :: "Conflict \<Rightarrow> jstr" where
  "conflict_who c = (if device c \<noteq> [] then device c else js ''another device'')"

text \<open>Those on the reader's file come first, the order is otherwise kept; five are shown.\<close>

definition presence_shown :: "jstr option \<Rightarrow> (jstr \<times> jstr) list \<Rightarrow> (jstr \<times> jstr) list \<times> nat \<times> nat" where
  "presence_shown here ppl =
     (let srt = sort_key (\<lambda>p. if truthy here \<and> here = Some (snd p) then (0 :: nat) else 1) ppl
      in (take 5 srt, length srt - length (take 5 srt),
          if truthy here then length (filter (\<lambda>p. here = Some (snd p)) ppl) else 0))"

definition crumb_targets :: "jstr \<Rightarrow> jstr list" where
  "crumb_targets p =
     tl (foldl (\<lambda>acc seg. acc @ [if last acc \<noteq> [] then last acc @ 47 # seg else seg]) [[]] (split_on 47 p))"

text \<open>Nobody on the reader's file is left out in favour of someone elsewhere.\<close>

lemma presence_here_first:
  assumes "truthy here" "presence_shown here ppl = (us, rst, n)" "(nm, q) \<in> set us" "here \<noteq> Some q"
  shows "\<forall>p \<in> set ppl. here = Some (snd p) \<longrightarrow> p \<in> set us"
proof -
  let ?k = "\<lambda>p. if truthy here \<and> here = Some (snd p) then (0 :: nat) else 1"
  let ?s = "sort_key ?k ppl"
  from assms(2) have us: "us = take 5 ?s" by (simp add: presence_shown_def Let_def)
  have srt: "sorted (map ?k ?s)" by simp
  show ?thesis
  proof (intro ballI impI)
    fix p assume p: "p \<in> set ppl" "here = Some (snd p)"
    show "p \<in> set us"
    proof (rule ccontr)
      assume "p \<notin> set us"
      have "p \<in> set ?s" using p(1) by simp
      with \<open>p \<notin> set us\<close> us have "p \<in> set (drop 5 ?s)" by (metis append_take_drop_id Un_iff set_append)
      then have "?k (nm, q) \<le> ?k p"
        using srt assms(3) us sorted_append [of "map ?k (take 5 ?s)" "map ?k (drop 5 ?s)"]
        by (metis (no_types, lifting) append_take_drop_id image_eqI map_append set_map)
      with p(2) assms(1,4) show False by simp
    qed
  qed
qed

text \<open>Every breadcrumb leads to the folder its segments name, the last to the path itself.\<close>

lemma crumb_targets_prefixes:
  assumes "p \<noteq> []" "hd p \<noteq> 47"
  shows "crumb_targets p = map (\<lambda>i. join [47] (take (Suc i) (split_on 47 p))) [0 ..< length (split_on 47 p)]"
proof -
  let ?f = "\<lambda>acc seg :: jstr. acc @ [if last acc \<noteq> [] then last acc @ 47 # seg else seg]"
  have step: "tl (foldl ?f [[]] ss) = map (\<lambda>i. join [47] (take (Suc i) ss)) [0 ..< length ss] \<and> foldl ?f [[]] ss \<noteq> []
      \<and> (ss \<noteq> [] \<longrightarrow> last (foldl ?f [[]] ss) = join [47] ss)" if "ss = [] \<or> hd ss \<noteq> []" for ss
    using that
  proof (induction ss rule: rev_induct)
    case (snoc s ss)
    show ?case
    proof (cases "ss = []")
      case False
      then have hd: "hd ss \<noteq> []" using snoc.prems by simp
      then have "join [47] ss \<noteq> []" using False by (cases ss; cases "tl ss") auto
      with False hd snoc.IH show ?thesis by (auto simp: join_snoc)
    qed simp
  qed simp
  have "hd (split_on 47 p) \<noteq> []" using assms by (cases p) (auto split: list.splits)
  with step [of "split_on 47 p"] show ?thesis by (simp add: crumb_targets_def)
qed

end
