(* ===== verification/Admin.thy ===== *)
theory Admin
  imports HubPage Rails Http
begin

section \<open>Starting, connecting and administering\<close>

text \<open>
  The new-project dialog (\<open>NewProjectDialog.tsx\<close>), the first request of the app (\<open>hooks/useConfig.ts\<close>), the
  connect guide (\<open>ConnectGuide.tsx\<close>), the signup policy (\<open>HubSettings.tsx\<close>), the connected agents
  (\<open>McpConnections.tsx\<close>) and the initials of a person (\<open>PresenceBar.tsx\<close>). The clock, the origin and case
  mapping are arguments.
\<close>

subsection \<open>A new project\<close>

record StartOption =
  so_value :: jstr
  so_title :: jstr
  so_blurb :: jstr
  so_rule :: bool

text \<open>The templates of the hub, given by name, title and blurb, then the two choices that seed nothing.\<close>

definition start_options :: "(jstr \<times> jstr \<times> jstr) list \<Rightarrow> StartOption list" where
  "start_options ts =
     map (\<lambda>(n, t, bl). \<lparr>so_value = n, so_title = t, so_blurb = bl, so_rule = False\<rparr>) ts
     @ [\<lparr>so_value = EXISTING, so_title = js ''I already have a folder'',
         so_blurb = js ''nothing is seeded '' @ [8212] @ js '' connect it and your files stay as they are'', so_rule = True\<rparr>,
        \<lparr>so_value = [], so_title = js ''Empty project'', so_blurb = js ''just the folder'', so_rule = False\<rparr>]"

record Starting =
  sg_name :: jstr
  sg_pick :: jstr
  sg_err :: jstr
  sg_busy :: bool
  sg_sent :: "(jstr \<times> jstr) list"

definition starting0 :: "(jstr \<times> jstr \<times> jstr) list \<Rightarrow> Starting" where
  "starting0 ts = \<lparr>sg_name = [], sg_pick = so_value (hd (start_options ts)), sg_err = [], sg_busy = False, sg_sent = []\<rparr>"

definition submit_start :: "Starting \<Rightarrow> Starting" where
  "submit_start s =
     (if sg_busy s then s
      else if trim (sg_name s) = [] then s\<lparr>sg_err := js ''Give it a name.''\<rparr>
      else s\<lparr>sg_busy := True, sg_sent := sg_sent s @ [(trim (sg_name s), sg_pick s)]\<rparr>)"

datatype StartEv = TypeStart jstr | PickStart nat | SubmitStart | StartSettled

text \<open>A pick is of an option that is shown; Enter in the field and the button both submit.\<close>

fun start_step :: "(jstr \<times> jstr \<times> jstr) list \<Rightarrow> Starting \<Rightarrow> StartEv \<Rightarrow> Starting" where
  "start_step ts s (TypeStart v) = s\<lparr>sg_name := v, sg_err := []\<rparr>"
| "start_step ts s (PickStart i) = (if i < length (start_options ts) then s\<lparr>sg_pick := so_value (start_options ts ! i)\<rparr> else s)"
| "start_step ts s SubmitStart = submit_start s"
| "start_step ts s StartSettled = s\<lparr>sg_busy := False\<rparr>"

text \<open>What is badged is what is picked: the first option, on any hub.\<close>

lemma recommended_is_picked: "sg_pick (starting0 ts) = so_value (start_options ts ! 0)"
  by (cases ts) (simp_all add: starting0_def start_options_def hd_append)

definition start_ok :: "(jstr \<times> jstr \<times> jstr) list \<Rightarrow> Starting \<Rightarrow> bool" where
  "start_ok ts s \<longleftrightarrow> sg_pick s \<in> so_value ` set (start_options ts)
     \<and> (\<forall>(n, t) \<in> set (sg_sent s). trim n \<noteq> [] \<and> t \<in> so_value ` set (start_options ts))"

lemma start_values: "so_value ` set (start_options ts) = insert EXISTING (insert [] (fst ` set ts))"
  by (force simp: start_options_def)

lemma trim_Nil: "trim t = [] \<longleftrightarrow> list_all is_ws t"
proof (cases "dropWhile is_ws t")
  case (Cons u v)
  then have "\<not> is_ws u" using hd_dropWhile [of is_ws t] by simp
  moreover have "u \<in> set t" using Cons by (metis list.set_intros(1) set_dropWhileD)
  ultimately show ?thesis using Cons by (auto simp: trim_def trim_end_def trim_start_def list_all_iff dest: set_dropWhileD)
qed (auto simp: trim_def trim_end_def trim_start_def list_all_iff dest: set_dropWhileD)

lemma trim_trim: "trim t \<noteq> [] \<Longrightarrow> trim (trim t) \<noteq> []"
proof -
  assume ne: "trim t \<noteq> []"
  then have d: "dropWhile is_ws (rev (dropWhile is_ws t)) \<noteq> []" unfolding trim_def trim_end_def trim_start_def by blast
  from hd_dropWhile [OF d] have "\<not> is_ws (last (trim t))" unfolding trim_def trim_end_def trim_start_def last_rev .
  with last_in_set [OF ne] show "trim (trim t) \<noteq> []" unfolding trim_Nil list_all_iff by blast
qed

lemma start_step_ok: "start_ok ts s \<Longrightarrow> start_ok ts (start_step ts s e)"
  by (cases e) (auto simp: start_ok_def submit_start_def trim_trim)

text \<open>With the page around it (theory HubPage): whatever is typed, picked and pressed, the hub is asked for
  a project with a name, from a template it offered or from none. The choice of a folder of one's own never
  reaches it.\<close>

lemma hub_hears_its_templates:
  assumes "(n, t) \<in> set (sg_sent (foldl (start_step ts) (starting0 ts) es))"
  shows "trim n \<noteq> [] \<and> snd (create_body n t) \<in> insert [] (fst ` set ts)"
proof -
  have "start_options ts \<noteq> []" by (simp add: start_options_def)
  then have "start_ok ts (starting0 ts)" by (auto simp: start_ok_def starting0_def)
  then have "start_ok ts (foldl (start_step ts) (starting0 ts) es)"
    by (induction es rule: rev_induct) (simp_all add: start_step_ok)
  with assms show ?thesis by (auto simp: start_ok_def start_values create_body_def)
qed

subsection \<open>The first request\<close>

definition not_recognised :: jstr where
  "not_recognised = js ''The server does not recognise your session, and signing in again did not help. ''
     @ js ''It is probably having a bad moment '' @ [8212] @ js '' wait a few seconds and reload.''"

text \<open>\<open>anonymous\<close> tells from the answer that signing in is on and there is no session. The guard is that of
  \<open>toLogin\<close> (theory Http), over the same marker.\<close>

definition config_answered :: "('j \<Rightarrow> bool) \<Rightarrow> 'j \<Rightarrow> Browser \<Rightarrow> Browser \<times> 'j Outcome" where
  "config_answered anonymous cfg b =
     (if \<not> anonymous cfg then (b, Ok cfg)
      else let bounced = (if storage b then marker (bounce b) else 0)
           in if bounced \<noteq> 0 \<and> now b - bounced < BOUNCE_WINDOW_MS then (b, HttpError 0 not_recognised [])
              else let b' = (if storage b then b\<lparr>bounce := Some (nat_str (nat (now b)))\<rparr> else b)
                   in (case encodeURIComponent (location b) of
                         None \<Rightarrow> (b', UriError)
                       | Some q \<Rightarrow> (b'\<lparr>loads := loads b' @ [(now b, js ''/auth/login?next='' @ q)]\<rparr>, SigningIn)))"

definition fetch_config :: "(jstr \<Rightarrow> jstr) \<Rightarrow> ('j \<Rightarrow> bool) \<Rightarrow> 'j server \<Rightarrow> Browser \<Rightarrow> Browser \<times> 'j Outcome" where
  "fetch_config upper anonymous srv b =
     (case getJSON upper srv (js ''/api/config'') b of
        (b, Ok cfg) \<Rightarrow> config_answered anonymous cfg b
      | (b, other) \<Rightarrow> (b, other))"

lemma config_answered_cases:
  "loads (fst (config_answered ano cfg b)) = loads b \<and> bounce (fst (config_answered ano cfg b)) = bounce b
   \<or> loads (fst (config_answered ano cfg b)) = loads (fst (toLogin b :: Browser \<times> unit Outcome))
     \<and> bounce (fst (config_answered ano cfg b)) = bounce (fst (toLogin b :: Browser \<times> unit Outcome))"
  "storage (fst (config_answered ano cfg b)) = storage b"
  by (auto simp: config_answered_def toLogin_def Let_def split: option.splits)

lemma config_answered_apart:
  assumes "apart b" "storage b" "now b > 0"
  shows "apart (fst (config_answered ano cfg b))"
proof -
  have "apart (fst (toLogin b :: Browser \<times> unit Outcome))"
    using call_apart [OF assms, of id "\<lambda>_. Some \<lparr>status = 401, body = [], json = None\<rparr>" undefined "GetJSON []"]
    by (simp add: getJSON_def checked_def toLogin_def Let_def split: option.splits if_splits)
  then show ?thesis using config_answered_cases(1) [of ano cfg b] assms(1) unfolding apart_def by metis
qed

text \<open>Page loads of the requests and of the first request together: whatever the hub answers, they are a window
  apart, since both read and write one marker.\<close>

lemma fetch_config_apart:
  assumes "apart b" "storage b" "now b > 0"
  shows "apart (fst (fetch_config upper ano srv b)) \<and> storage (fst (fetch_config upper ano srv b))"
proof (cases "\<exists>cfg. getJSON upper srv (js ''/api/config'') b = (b, Ok cfg)")
  case True
  then show ?thesis using config_answered_apart [OF assms] assms(2) by (auto simp: fetch_config_def config_answered_cases(2))
next
  case False
  then have "fst (fetch_config upper ano srv b) = call upper srv undefined (GetJSON (js ''/api/config'')) b"
    by (auto simp: fetch_config_def getJSON_def checked_def json_of_def fail_def toLogin_def Let_def
        split: option.splits if_splits Outcome.splits)
  then show ?thesis using call_apart [OF assms] call_cases(2) assms(2) by metis
qed

datatype 'j Try = Asked "'j server" Call | Configured "'j server"

fun tries :: "(jstr \<Rightarrow> jstr) \<Rightarrow> 'j \<Rightarrow> ('j \<Rightarrow> bool) \<Rightarrow> (int \<times> 'j Try) list \<Rightarrow> Browser \<Rightarrow> Browser" where
  "tries upper e ano [] b = b"
| "tries upper e ano ((t, Asked srv c) # cs) b = tries upper e ano cs (call upper srv e c (b\<lparr>now := t\<rparr>))"
| "tries upper e ano ((t, Configured srv) # cs) b = tries upper e ano cs (fst (fetch_config upper ano srv (b\<lparr>now := t\<rparr>)))"

lemma all_loads_apart:
  assumes "apart b" "storage b" "\<forall>(t, c) \<in> set cs. t > 0"
  shows "apart (tries upper e ano cs b)"
  using assms
proof (induction upper e ano cs b rule: tries.induct)
  case (2 upper e ano t srv c cs b)
  then have "apart (b\<lparr>now := t\<rparr>)" "storage (b\<lparr>now := t\<rparr>)" "now (b\<lparr>now := t\<rparr>) > 0" by (auto simp: apart_def)
  then have "apart (call upper srv e c (b\<lparr>now := t\<rparr>))" by (rule call_apart)
  with 2 show ?case by (simp add: call_cases(2))
next
  case (3 upper e ano t srv cs b)
  then have "apart (b\<lparr>now := t\<rparr>)" "storage (b\<lparr>now := t\<rparr>)" "now (b\<lparr>now := t\<rparr>) > 0" by (auto simp: apart_def)
  then have "apart (fst (fetch_config upper ano srv (b\<lparr>now := t\<rparr>))) \<and> storage (fst (fetch_config upper ano srv (b\<lparr>now := t\<rparr>)))"
    by (rule fetch_config_apart)
  with 3 show ?case by simp
qed simp

subsection \<open>The connect guide\<close>

definition manual_setup :: "jstr \<Rightarrow> jstr \<Rightarrow> jstr" where
  "manual_setup origin pid =
     js ''brew install runbear-io/tap/beardrive'' @ [10] @ js ''bdrive init --server '' @ origin @ js '' --project '' @ pid"

definition guide_prompt :: "jstr \<Rightarrow> jstr \<times> jstr \<Rightarrow> bool \<Rightarrow> jstr" where
  "guide_prompt origin p ex = agentPrompt origin \<lparr>project = Some p, folder = None, existing = ex\<rparr>"

text \<open>The button of a code block: its word, and the timers that will put Copy back. No timer is cleared.\<close>

record CopyButton =
  cb_word :: jstr
  cb_timers :: nat

datatype CopyEv = CopiedCode bool | CopyTimer

fun copy_step :: "CopyButton \<Rightarrow> CopyEv \<Rightarrow> CopyButton" where
  "copy_step s (CopiedCode ok) = \<lparr>cb_word = js (if ok then ''Copied'' else ''Copy failed''), cb_timers = cb_timers s + 1\<rparr>"
| "copy_step s CopyTimer = (if cb_timers s = 0 then s else \<lparr>cb_word = js ''Copy'', cb_timers = cb_timers s - 1\<rparr>)"

text \<open>The word always returns to Copy: once no timer is out, it says so.\<close>

lemma copy_word_returns:
  "let s = foldl copy_step \<lparr>cb_word = js ''Copy'', cb_timers = 0\<rparr> es in cb_timers s = 0 \<longrightarrow> cb_word s = js ''Copy''"
proof -
  have "(cb_timers s = 0 \<longrightarrow> cb_word s = js ''Copy'') \<Longrightarrow> (cb_timers (copy_step s e) = 0 \<longrightarrow> cb_word (copy_step s e) = js ''Copy'')" for s e
    by (cases e) auto
  then show ?thesis unfolding Let_def by (induction es rule: rev_induct) simp_all
qed

subsection \<open>The signup policy\<close>

record Policy =
  po_verify :: bool
  po_approve :: bool
  po_signup :: bool
  po_domains :: "jstr list"
  po_admins :: "jstr list"
  po_mailer :: bool

text \<open>The values of the form. Without a mailer verification is shown off and its box disabled.\<close>

definition policy_form :: "Policy option \<Rightarrow> bool \<times> bool" where
  "policy_form p = (case p of None \<Rightarrow> (False, False) | Some p \<Rightarrow> (po_verify p \<and> po_mailer p, po_approve p))"

definition domains_line :: "Policy \<Rightarrow> jstr" where
  "domains_line p = (if po_domains p \<noteq> [] then join (js '', '') (map (\<lambda>d. 64 # d) (po_domains p)) else js ''any'')"

definition admins_line :: "Policy \<Rightarrow> jstr" where
  "admins_line p = (if po_admins p \<noteq> [] then join (js '', '') (po_admins p) else js ''none'')"

definition signup_line :: "Policy \<Rightarrow> jstr" where
  "signup_line p = js (if po_signup p then ''open'' else ''invite-only'')"

definition pending_line :: "jstr \<Rightarrow> jstr \<Rightarrow> jstr" where
  "pending_line nm e = (if nm \<noteq> [] then nm @ js ''  '' @ [183] @ js ''  '' else []) @ e"

text \<open>Approving or denying a signup: what is asked, and what is said when it went through.\<close>

definition act_pending :: "jstr \<Rightarrow> bool \<Rightarrow> jstr \<Rightarrow> jstr \<times> jstr" where
  "act_pending i approve e =
     (js ''/api/admin/pending/'' @ i @ js (if approve then ''/approve'' else ''/deny''),
      js (if approve then ''Approved '' else ''Denied '') @ e)"

subsection \<open>Connected agents\<close>

text \<open>\<open>ms\<close> is the age of the moment; the zero time of the hub, or none, is never.\<close>

definition mcp_ago :: "(jstr \<Rightarrow> int) \<Rightarrow> int \<Rightarrow> jstr option \<Rightarrow> jstr" where
  "mcp_ago pt now' w =
     (case w of
        None \<Rightarrow> js ''never''
      | Some t \<Rightarrow>
          if t = [] \<or> starts_with t (js ''0001-'') then js ''never''
          else let m = (now' - pt t) div 60000; h = m div 60
               in if m < 1 then js ''just now''
                  else if m < 60 then int_str m @ js ''m ago''
                  else if h < 24 then int_str h @ js ''h ago''
                  else int_str (h div 24) @ js ''d ago'')"

definition grant_project :: "(jstr \<times> jstr) list \<Rightarrow> jstr \<Rightarrow> jstr" where
  "grant_project ps i = (case map_of ps i of Some n \<Rightarrow> if n \<noteq> [] then n else i | None \<Rightarrow> i)"

definition revoke_url :: "jstr \<Rightarrow> jstr option" where
  "revoke_url i = map_option (\<lambda>q. js ''/api/mcp/grants/'' @ q) (encodeURIComponent i)"

text \<open>A connection is never said to be older than it is, nor younger by a whole unit.\<close>

lemma mcp_ago_minutes:
  assumes "t \<noteq> []" "\<not> starts_with t (js ''0001-'')" "60000 \<le> now' - pt t" "now' - pt t < 3600000"
  shows "\<exists>m. mcp_ago pt now' (Some t) = int_str m @ js ''m ago'' \<and> 60000 * m \<le> now' - pt t \<and> now' - pt t < 60000 * (m + 1)"
proof -
  let ?m = "(now' - pt t) div 60000"
  have m: "1 \<le> ?m" "?m < 60" using assms(3,4) by linarith+
  then have "mcp_ago pt now' (Some t) = int_str ?m @ js ''m ago''" using assms(1,2) by (simp add: mcp_ago_def Let_def)
  moreover have "60000 * ?m \<le> now' - pt t" "now' - pt t < 60000 * (?m + 1)"
    using mult_div_mod_eq [of 60000 "now' - pt t"] pos_mod_bound [of 60000 "now' - pt t"] pos_mod_sign [of 60000 "now' - pt t"]
    by (simp_all add: distrib_left)
  ultimately show ?thesis by blast
qed

subsection \<open>Initials\<close>

text \<open>\<open>name.trim().split(/[\s@._-]+/).filter(Boolean)\<close>: the runs of other units.\<close>

definition name_break :: "nat \<Rightarrow> bool" where
  "name_break u \<longleftrightarrow> is_ws u \<or> u = 64 \<or> u = 46 \<or> u = 95 \<or> u = 45"

fun name_words :: "jstr \<Rightarrow> jstr list" where
  "name_words [] = []"
| "name_words (u # t) =
     (if name_break u then name_words t
      else (if t = [] \<or> name_break (hd t) then [u] # name_words t
            else (case name_words t of [] \<Rightarrow> [[u]] | w # ws \<Rightarrow> (u # w) # ws)))"

definition person_initials :: "(jstr \<Rightarrow> jstr) \<Rightarrow> jstr \<Rightarrow> jstr" where
  "person_initials upper nm =
     (case name_words (trim nm) of
        [] \<Rightarrow> js ''?''
      | w # ws \<Rightarrow> upper (take 1 w @ (case ws of [] \<Rightarrow> [] | v # _ \<Rightarrow> take 1 v)))"

lemma name_words_nonempty: "list_all (\<lambda>w. w \<noteq> []) (name_words t)"
proof (induction t)
  case (Cons u t)
  then show ?case by (cases "name_words t") simp_all
qed simp

lemma initials_two:
  assumes "\<And>t. length (upper t) = length t"
  shows "1 \<le> length (person_initials upper nm) \<and> length (person_initials upper nm) \<le> 2"
proof (cases "name_words (trim nm)")
  case (Cons w ws)
  then have "w \<noteq> []" using name_words_nonempty [of "trim nm"] by simp
  with Cons assms show ?thesis by (cases w; cases ws) (simp_all add: person_initials_def)
qed (simp add: person_initials_def js_def)

text \<open>The first letter is a unit, not a character: a name that starts outside the basic plane shows half of
  a pair.\<close>

lemma initials_half_a_pair: "person_initials id [55349, 56476] = [55349]"
  by code_simp

end
