(* ===== verification/Diagrams.thy ===== *)
theory Diagrams
  imports Prelude
begin

section \<open>Diagrams in rendered documents (lib/mermaid.ts, share-mermaid.ts)\<close>

text \<open>
  A document is the sequence of its fences and of what stands between them; reading it from markup and
  writing it back are the platform's and are arguments, as is the library that draws a diagram or fails
  with a message. What is modelled is what happens to each piece.
\<close>

subsection \<open>Pieces of a document\<close>

datatype DocPiece = Between jstr | Fence jstr | Drawn jstr | DrawError | DrawDetail jstr

record Palette4 =
  pal_bg :: jstr
  pal_line :: jstr
  pal_text :: jstr
  pal_accent :: jstr

definition DARK :: Palette4 where
  "DARK = \<lparr>pal_bg = js ''#15171b'', pal_line = js ''#9aa0a9'', pal_text = js ''#eef0f3'', pal_accent = js ''#f5a623''\<rparr>"

definition LIGHT :: Palette4 where
  "LIGHT = \<lparr>pal_bg = js ''#f6f8fa'', pal_line = js ''#57606a'', pal_text = js ''#24292f'', pal_accent = js ''#b26a00''\<rparr>"

text \<open>The share page follows the system, once.\<close>

definition share_palette :: "bool \<Rightarrow> Palette4" where
  "share_palette dark = (if dark then DARK else LIGHT)"

definition hasMermaid :: "jstr \<Rightarrow> bool" where
  "hasMermaid html = includes_str html (js ''class='' @ 34 # js ''language-mermaid'' @ [34])"

text \<open>The variables given to the library: every colour is the palette's or transparent.\<close>

definition theme_vars :: "Palette4 \<Rightarrow> (jstr \<times> jstr) list" where
  "theme_vars p =
     [(js ''background'', js ''transparent''), (js ''primaryColor'', pal_bg p), (js ''primaryTextColor'', pal_text p),
      (js ''primaryBorderColor'', pal_line p), (js ''secondaryColor'', pal_bg p), (js ''tertiaryColor'', pal_bg p),
      (js ''lineColor'', pal_line p), (js ''textColor'', pal_text p), (js ''mainBkg'', pal_bg p), (js ''nodeBorder'', pal_line p),
      (js ''clusterBkg'', js ''transparent''), (js ''clusterBorder'', pal_accent p), (js ''titleColor'', pal_text p),
      (js ''edgeLabelBackground'', pal_bg p)]"

subsection \<open>Drawing\<close>

text \<open>What a fence becomes: its picture, or itself with a note and what the library said, when it is an error
  with words. The note comes to stand right after the fence, the detail right after the note.\<close>

definition draw_fence :: "(jstr \<Rightarrow> jstr option + jstr) \<Rightarrow> jstr \<Rightarrow> DocPiece list" where
  "draw_fence render src =
     (case render src of
        Inr svg \<Rightarrow> [Drawn svg]
      | Inl err \<Rightarrow>
          let msg = (case err of Some m \<Rightarrow> trim m | None \<Rightarrow> [])
          in [Fence src, DrawError] @ (if msg \<noteq> [] then [DrawDetail (take 2000 msg)] else []))"

definition draw_piece :: "(jstr \<Rightarrow> jstr option + jstr) \<Rightarrow> DocPiece \<Rightarrow> DocPiece list" where
  "draw_piece render p = (case p of Fence src \<Rightarrow> draw_fence render src | _ \<Rightarrow> [p])"

definition draw :: "(jstr \<Rightarrow> jstr option + jstr) \<Rightarrow> DocPiece list \<Rightarrow> DocPiece list" where
  "draw render ps = concat (map (draw_piece render) ps)"

definition is_fence_piece :: "DocPiece \<Rightarrow> bool" where
  "is_fence_piece p = (case p of Fence _ \<Rightarrow> True | _ \<Rightarrow> False)"

text \<open>\<open>loaded\<close>: the library came and took its settings. Nothing is asked for a document without a fence.\<close>

definition renderMermaid :: "(jstr \<Rightarrow> DocPiece list) \<Rightarrow> (DocPiece list \<Rightarrow> jstr) \<Rightarrow> bool \<Rightarrow> (jstr \<Rightarrow> jstr option + jstr) \<Rightarrow> jstr \<Rightarrow> jstr" where
  "renderMermaid parse_html write_html loaded' render html =
     (if \<not> hasMermaid html then html
      else let ps = parse_html html
           in if \<not> list_ex is_fence_piece ps then html
              else if \<not> loaded' then html
              else write_html (draw render ps))"

text \<open>The temporary elements of the library are swept by the beginning of their name, the pictures are not.\<close>

definition swept :: "jstr \<Rightarrow> bool" where
  "swept i = starts_with i (js ''dmmd-'')"

definition diagram_id :: "jstr \<Rightarrow> nat \<Rightarrow> jstr" where
  "diagram_id rnd i = js ''mmd-'' @ rnd @ js ''-'' @ nat_str i"

subsection \<open>What a document keeps\<close>

lemma draw_Cons: "draw render (p # ps) = draw_piece render p @ draw render ps"
  by (simp add: draw_def)

lemma draw_append: "draw render (ps @ qs) = draw render ps @ draw render qs"
  by (simp add: draw_def)

text \<open>Everything between the fences stays, in its order.\<close>

definition is_between :: "DocPiece \<Rightarrow> bool" where
  "is_between p = (case p of Between _ \<Rightarrow> True | _ \<Rightarrow> False)"

lemma between_kept: "filter is_between (draw render ps) = filter is_between ps"
proof (induction ps)
  case (Cons p ps)
  have "filter is_between (draw_piece render p) = filter is_between [p]"
    by (cases p) (auto simp: draw_piece_def draw_fence_def is_between_def Let_def split: sum.splits)
  with Cons show ?case by (simp add: draw_Cons)
qed (simp add: draw_def)

text \<open>One bad fence never stops the good ones: what becomes of a document around a fence does not depend on
  it, and every fence the library can draw is drawn, every other is still there to be read.\<close>

lemma bad_fence_alone:
  "draw render (ps @ Fence src # qs) = draw render ps @ draw_fence render src @ draw render qs"
  by (simp add: draw_append draw_Cons draw_piece_def)

lemma fence_drawn_or_kept:
  assumes "Fence src \<in> set ps"
  shows "(case render src of Inr svg \<Rightarrow> Drawn svg \<in> set (draw render ps) | Inl _ \<Rightarrow> Fence src \<in> set (draw render ps))"
proof -
  from assms obtain xs ys where "ps = xs @ Fence src # ys" by (meson split_list)
  then show ?thesis by (auto simp: bad_fence_alone draw_fence_def Let_def split: sum.splits)
qed

lemma fences_left:
  "filter is_fence_piece (draw render ps)
     = filter (\<lambda>p. case p of Fence src \<Rightarrow> (\<exists>e. render src = Inl e) | _ \<Rightarrow> False) ps"
proof (induction ps)
  case (Cons p ps)
  then show ?case
    by (cases p) (auto simp: draw_Cons draw_piece_def draw_fence_def is_fence_piece_def Let_def split: sum.splits)
qed (simp add: draw_def)

text \<open>A picture that is on the page is never swept.\<close>

lemma pictures_not_swept: "\<not> swept (diagram_id rnd i)"
  by (simp add: swept_def diagram_id_def js_def starts_with_def)

lemma detail_short: "DrawDetail d \<in> set (draw_fence render src) \<Longrightarrow> d \<noteq> [] \<and> length d \<le> 2000"
  by (auto simp: draw_fence_def Let_def split: sum.splits if_splits)

text \<open>Without the library a document is left exactly as it is.\<close>

lemma unloaded_untouched: "renderMermaid parse_html write_html False render html = html"
  by (simp add: renderMermaid_def Let_def)

end
