(* ===== verification/Spec2Isabelle.thy ===== *)
theory Spec2Isabelle
  imports Prelude TextDiff JsDate Conflict Meeting Collab SharedFile Uri Router FuzzyScore Fuzzy Csv Runs TreeView Http Visits Page Util Feed VisualEdit InlineEdit Live Anchor Treemap Insights Threads CommentFrame Comments Ambient HistoryFeed HistoryRows Changes Browser Surface PageActions FilePage MeetingEditor Address HubPage Palette Shell Sharing Questions Sidebar Setup Settings Listing Rails Admin Diagrams
begin

text \<open>
  Verification of the web frontend of beardrive, the TypeScript under
  \<open>src/internal/webapp/frontend/src\<close> (paths below are relative to it).

  The program. The hub serves a project as a tree of files with a history. The page routes a URL to
  a file, a folder or a view, shows the tree, the history, read counts and comments, and opens a file
  in an editor whose document is a CRDT shared through a relay. Whatever the document holds is saved
  by puts that carry the version they are based on, so that an outside write (another device's sync,
  an agent) is noticed and never overwritten unseen.

  Theories and the code they model, in the order of their dependencies:

  Prelude: strings as lists of UTF-16 code units with the language's operations on them.
  TextDiff: \<open>lib/diff.ts\<close>, line diffs and the single-range edit of an outside write.
  JsDate, Conflict: dates of the language and \<open>lib/conflict.ts\<close>, the names of conflict copies.
  Meeting: \<open>lib/meeting.ts\<close>, sections, action items, carrying over, the shrink guard, offline edits.
  Collab: \<open>lib/collab.ts\<close> and \<open>lib/collabroute.ts\<close>, the room of a document as a machine fed by
  provider events. SharedFile: \<open>lib/sharedfile.ts\<close>, the open file over that room, with every network
  answer, timer and edit as a step.
  Uri, Router: percent encoding and query strings, and \<open>router.ts\<close>, from URL to page and back.
  FuzzyScore, Fuzzy: \<open>lib/fuzzy.ts\<close>, the score of a match and the ranking of a search.
  Csv, Runs, TreeView: \<open>lib/csv.ts\<close>, \<open>lib/runs.ts\<close>, \<open>lib/treeview.ts\<close>.
  Http: \<open>api/http.ts\<close>, requests, errors and the login bounce.
  Visits, Page: \<open>lib/visits.ts\<close>, \<open>lib/recents.ts\<close>, and theme, scroll, reading width and sidebar filter.
  Util: \<open>util.ts\<close>, \<open>nav.ts\<close>, \<open>lib/folders.ts\<close>, \<open>lib/sniff.ts\<close>, \<open>lib/secrets.ts\<close>, \<open>lib/prompt.ts\<close>.
  Feed: \<open>lib/activity.ts\<close>, \<open>lib/heat.ts\<close>, \<open>lib/home.ts\<close>.
  VisualEdit, InlineEdit: \<open>components/VisualEdit.tsx\<close> and \<open>inline-edit.ts\<close>, the two halves of
  click-to-edit, joined by the messages of the frame.
  Live: \<open>hooks/useProjectEvents.ts\<close>, \<open>hooks/useBlob.ts\<close>, \<open>hooks/useBrowse.ts\<close>.
  Ambient: \<open>hooks/useSidebar.ts\<close>, \<open>hooks/usePresence.ts\<close>, the requests made before the app mounts,
  analytics, toasts and the small services around them.
  Anchor: \<open>lib/anchor.ts\<close>, the text anchors of comments. Threads: \<open>hooks/useComments.ts\<close>, the lists of
  comments. CommentFrame: \<open>inline-comment.ts\<close>, the script inside a commented page. Comments:
  \<open>components/Comments.tsx\<close>, its host, joined to the frame by a queue of messages each way.
  Treemap, Insights: \<open>components/Insights.tsx\<close>, the squarified layout and the page around it.
  HistoryFeed, HistoryRows, Changes: \<open>components/HistoryView.tsx\<close> with the filters, the rows and the
  diffs: paging, restoring, keys and day heads; the filter bar, totals and run cards; row controls, notes
  and the diff view's states.
  Browser, Surface, PageActions: \<open>apps/Browser.tsx\<close> and \<open>components/FileTree.tsx\<close>: which view and
  controls an address gets; the state of the page (open folders, scroll, fullscreen, comments); what its
  actions send, and the menus and touch state of the rows.
  FilePage: \<open>components/FileView.tsx\<close>: the readers, symbolic links, the editing page around an open
  file, and the links of a rendered document.
  MeetingEditor: \<open>lib/cm-slash.ts\<close>, \<open>lib/cm-meeting.ts\<close>, \<open>components/Editor.tsx\<close>, as text and ranges: the slash
  menu, what it inserts, the sections of a note and the guard of a shrinking edit.
  HubPage: \<open>apps/HubApp.tsx\<close>: from an address and what the hub answered to a page or a redirect.
  Address: what the browser makes of the address a redirect writes (\<open>nav.ts\<close>, \<open>Redirect\<close>).
  Palette: \<open>components/Palette.tsx\<close> and \<open>components/Marked.tsx\<close>, the search dialog over Fuzzy.
  Shell: \<open>components/shell.tsx\<close> and the in-app links of \<open>nav.ts\<close>: drawer, rail, width, what is inert.
  Questions: \<open>modal.tsx\<close>, the prompts and confirmations. Sharing: \<open>components/ShareDialog.tsx\<close> and
  \<open>SharesTable.tsx\<close>: folder rules and the life of a link. Settings: \<open>ProjectSettings.tsx\<close>, \<open>OrgAdmin.tsx\<close>.
  Sidebar: \<open>ProjectNav.tsx\<close>, \<open>Pinned.tsx\<close>: menu, pages, sync line, search field, pins.
  Setup: \<open>components/Setup.tsx\<close>, the first run of the desktop app.
  Listing: \<open>components/Home.tsx\<close>, \<open>FolderListing.tsx\<close>. Rails: the head and rails of a file, the shrink
  question, the reading width, the banners, the people present and the breadcrumbs.
  Admin: \<open>NewProjectDialog.tsx\<close>, \<open>hooks/useConfig.ts\<close>, \<open>ConnectGuide.tsx\<close>, \<open>HubSettings.tsx\<close>,
  \<open>McpConnections.tsx\<close>. Diagrams: \<open>lib/mermaid.ts\<close>, what becomes of the fences of a document.

  How state and operations correspond. A module's or closure's variables are the fields of a record,
  and each function, handler or callback is one definition from that record to the new one. Where
  the code awaits, its function is cut at the await: the first part leaves a job (SharedFile) or a
  pending entry (VisualEdit) and the second part is the step that settles it, so everything the code
  allows to happen in between is possible in the model. Exceptions and refusals are values: options,
  the outcomes of Http, the put results of SharedFile. What is not in the repository's code (the
  relay, the hub, the CRDT and editor libraries, the platform's JSON, number and date parsing,
  locale formatting and case mapping) is an argument of the definitions that use it, and what a
  theorem needs of it is a premise of that theorem.

  What the lemmas show. SharedFile: saves end, a retry contains the version it replaces, a hub-held
  room is not written from here, an outside write only changes a clean buffer, solo is decided once,
  the shrink question is asked before a forced put; two theorems exhibit losses the code allows.
  VisualEdit and InlineEdit: a patch never swallows the document, it replaces exactly its stamped
  range, and what the page shows is what has been reported. Live: one stream for all tabs, and a
  change frame invalidates exactly the bodies it names. Anchor: a described selection is found again.
  TextDiff, Router, Csv, Conflict and Meeting: optimality of the diff, and the round trips of URLs,
  tables, copy names and items. FuzzyScore and Fuzzy: the score is that of a best alignment, the
  bounded list is the top of the ranking. HubPage: every
  chain of redirects ends after three at most, on a page that needs none. MeetingEditor: an action item inserted is read back
  by Meeting, and the guard keeps the rest of the note. Shell: width and collapse survive a reload.
  Sharing: the hub's check is overridden only by the reader after it found something, and an edit of a folder's rule changes
  what was edited alone. Questions: an answer fits its question. Setup: nothing starts twice at once, the
  end is told once. Settings: a save sends what was touched, a project is deleted by its name alone. Admin: a new project has a name and a template of
  the hub or none, and the first request keeps the guard against login loops. Diagrams: one bad fence leaves
  all else as it would be.
  Insights: every read the hub reports in scope is on the page once, and the two flags are set exactly
  when due. Http: with the session storage, page loads to the login page are a window apart; without it,
  each rejection makes one.
  The rest: partition and reachability of what is drawn, counts that add up. The contracts a client relies on are locales: the ranking of hits
  (Fuzzy) and the write-through store (Visits), interpreted there on the code's own definitions.

  Bounds. Recursions are structural or have a measure; none uses fuel. Lengths, times and counts are
  naturals or integers, exact below \<open>2 ^ 53\<close> as in the code; scores are integers in thousandths,
  fractions of days and pixels rationals, where the code has floating point. A plain object used as a
  table is an association list; where a name of its prototype could be looked up from a URL (Feed) the
  prototype is modelled, elsewhere keys are assumed to be own keys.

  Findings are recorded with the theorems: the walk back of the scorer can leave the best alignment
  (FuzzyScore), a solo deletion and the write after a conflict copy (SharedFile), the range names of a
  prototype (Feed), the choice lost on a full storage (Page), anchors taken after the digest that
  vouches for them (VisualEdit), the verdict that outlives the element it judged (InlineEdit), the restore
  hidden by a filter (HistoryFeed), the stale timer of the path box (HistoryRows), the split note
  (Changes), the exit that goes too far (Surface), the text body that is rendered, the stale seed, the
  uncounted saves and the missing wikilink (FilePage), a link of the drawer that leaves the page inert and
  the shortcut that does it in fullscreen (Shell), the lifetime shown for a link that has another, the
  refused revocation, and the warning and the link that outlive their file (Sharing), the question that displaces another (Questions), a file named as a section
  (Palette), the pin of a missing file (Sidebar), late answers and a form left busy (Setup), what is typed
  while a save is out (Settings), reads of the root never counted (Listing).

  Not modelled. Of the components above, the elements they render, layout, focus and measured sizes;
  measured positions and sizes are arguments where a decision depends on them. The administration tables and
  the billing page, which show the hub's own texts; the widgets; what the diagram library draws; the entry
  points, which mount providers. Subscriptions are counts, since React decides when a listener runs. Third-party code, the Go
  hub and the command line, generated assets, tests and documents.
\<close>

end
